(* ===== verification/Ygg_Prelude.thy ===== *)
theory Ygg_Prelude
  imports Main "HOL-Library.Word" "HOL-Library.AList" "HOL-Library.List_Lexorder"
begin

unbundle bit_operations_syntax

text \<open>
  Shared vocabulary of the development: machine integers and byte strings, Rust's
  \<open>Result\<close> and \<open>?\<close>, hash maps, saturating arithmetic and time, together with the lemmas
  every component uses.

  \<^item> A fixed-width integer is a word; \<open>[u8; N]\<close> and \<open>Vec<u8>\<close> are lists of \<open>u8\<close>, the length
    of an array being a well-formedness condition (\<open>wf_key\<close>, \<open>wf_sig\<close>). The order on byte
    lists is the lexicographic order of \<open>HOL-Library.List_Lexorder\<close>, as for Rust's arrays.
  \<^item> A \<open>HashMap\<close> is an association list with distinct keys. The order of the list stands for
    the unspecified iteration order of the Rust map, so a statement about all lists is a
    statement about every iteration order.
  \<^item> \<open>Instant\<close> and \<open>Duration\<close> are natural numbers of nanoseconds; \<open>Instant::now()\<close> is an
    explicit argument.
\<close>

named_theorems codec_simps \<open>round-trip laws of the readers and writers\<close>
named_theorems hmap_simps \<open>lookup after an update of a hash map\<close>

section \<open>Machine integers, byte strings, keys\<close>

type_synonym u8 = "8 word"
type_synonym u16 = "16 word"
type_synonym u32 = "32 word"
type_synonym u64 = "64 word"
type_synonym u128 = "128 word"
type_synonym bytes = "u8 list"
type_synonym public_key = bytes
type_synonym signature = bytes
type_synonym peer_port = u64
type_synonym peer_id = u64
type_synonym instant = nat
type_synonym duration = nat

abbreviation secs :: "nat \<Rightarrow> duration" where
  "secs n \<equiv> n * 10 ^ 9"

abbreviation u64_max :: u64 where
  "u64_max \<equiv> - 1"

definition saturating_mul :: "u64 \<Rightarrow> u64 \<Rightarrow> u64" where
  "saturating_mul a b = (if unat a * unat b < 2 ^ 64 then a * b else u64_max)"

definition saturating_add :: "u64 \<Rightarrow> u64 \<Rightarrow> u64" where
  "saturating_add a b = (if unat a + unat b < 2 ^ 64 then a + b else u64_max)"

definition saturating_sub :: "u64 \<Rightarrow> u64 \<Rightarrow> u64" where
  "saturating_sub a b = (if b \<le> a then a - b else 0)"

definition PUBLIC_KEY_SIZE :: nat where
  "PUBLIC_KEY_SIZE = 32"

definition SIGNATURE_SIZE :: nat where
  "SIGNATURE_SIZE = 64"

abbreviation wf_key :: "public_key \<Rightarrow> bool" where
  "wf_key k \<equiv> length k = PUBLIC_KEY_SIZE"

abbreviation wf_sig :: "signature \<Rightarrow> bool" where
  "wf_sig s \<equiv> length s = SIGNATURE_SIZE"

section \<open>Errors and the question mark operator\<close>

datatype error =
    Encode | Decode | Closed | Timeout | BadMessage | EmptyMessage | OversizedMessage
  | UnrecognizedMessage | PeerNotFound | BadAddress | BadKey | Io

type_synonym 'a res = "error + 'a"

fun and_then :: "'a res \<Rightarrow> ('a \<Rightarrow> 'b res) \<Rightarrow> 'b res" where
  "and_then (Inl e) f = Inl e"
| "and_then (Inr x) f = f x"

fun ok_or :: "'a option \<Rightarrow> error \<Rightarrow> 'a res" where
  "ok_or None e = Inl e"
| "ok_or (Some x) e = Inr x"

lemma and_then_Inr_iff: "and_then r f = Inr y \<longleftrightarrow> (\<exists>x. r = Inr x \<and> f x = Inr y)"
  by (cases r) auto

lemma ok_or_Inr_iff [simp]: "ok_or x e = Inr y \<longleftrightarrow> x = Some y"
  by (cases x) auto

section \<open>Hash maps\<close>

declare map_of_eq_Some_iff [simp del] Some_eq_map_of_iff [simp del]

type_synonym ('k, 'v) hmap = "('k \<times> 'v) list"

abbreviation hm_get :: "('k, 'v) hmap \<Rightarrow> 'k \<Rightarrow> 'v option" where
  "hm_get \<equiv> map_of"

abbreviation hm_keys :: "('k, 'v) hmap \<Rightarrow> 'k list" where
  "hm_keys m \<equiv> map fst m"

abbreviation hm_wf :: "('k, 'v) hmap \<Rightarrow> bool" where
  "hm_wf m \<equiv> distinct (map fst m)"

definition hm_contains :: "('k, 'v) hmap \<Rightarrow> 'k \<Rightarrow> bool" where
  "hm_contains m k \<longleftrightarrow> map_of m k \<noteq> None"

definition hm_insert :: "'k \<Rightarrow> 'v \<Rightarrow> ('k, 'v) hmap \<Rightarrow> ('k, 'v) hmap" where
  "hm_insert = AList.update"

definition hm_remove :: "'k \<Rightarrow> ('k, 'v) hmap \<Rightarrow> ('k, 'v) hmap" where
  "hm_remove = AList.delete"

text \<open>\<open>hm_modify\<close> is a write through \<open>get_mut\<close>; \<open>hm_entry\<close> is \<open>entry(k).or_insert(v)\<close>;
  \<open>hm_map\<close> is a loop over \<open>iter_mut\<close> or \<open>values_mut\<close>; \<open>hm_retain\<close> is \<open>retain\<close>.\<close>

definition hm_modify :: "'k \<Rightarrow> ('v \<Rightarrow> 'v) \<Rightarrow> ('k, 'v) hmap \<Rightarrow> ('k, 'v) hmap" where
  "hm_modify k f = map (\<lambda>(k', v). if k' = k then (k', f v) else (k', v))"

definition hm_entry :: "'k \<Rightarrow> 'v \<Rightarrow> ('k, 'v) hmap \<Rightarrow> ('k, 'v) hmap" where
  "hm_entry k v m = (case map_of m k of None \<Rightarrow> hm_insert k v m | Some _ \<Rightarrow> m)"

definition hm_map :: "('k \<Rightarrow> 'v \<Rightarrow> 'w) \<Rightarrow> ('k, 'v) hmap \<Rightarrow> ('k, 'w) hmap" where
  "hm_map f = map (\<lambda>(k, v). (k, f k v))"

definition hm_retain :: "('k \<Rightarrow> 'v \<Rightarrow> bool) \<Rightarrow> ('k, 'v) hmap \<Rightarrow> ('k, 'v) hmap" where
  "hm_retain P = filter (\<lambda>(k, v). P k v)"

lemma hm_get_insert [simp, hmap_simps]:
  "hm_get (hm_insert k v m) k' = (if k' = k then Some v else hm_get m k')"
  by (simp add: hm_insert_def update_conv)

lemma hm_get_remove [simp, hmap_simps]:
  "hm_get (hm_remove k m) k' = (if k' = k then None else hm_get m k')"
  by (simp add: hm_remove_def delete_conv)

lemma hm_get_modify [simp, hmap_simps]:
  "hm_get (hm_modify k f m) k' = (if k' = k then map_option f (hm_get m k) else hm_get m k')"
  by (induction m) (auto simp: hm_modify_def)

lemma hm_get_map [simp, hmap_simps]: "hm_get (hm_map f m) k = map_option (f k) (hm_get m k)"
  by (induction m) (auto simp: hm_map_def)

lemma hm_get_entry [simp, hmap_simps]:
  "hm_get (hm_entry k v m) k' =
     (if k' = k then Some (case hm_get m k of None \<Rightarrow> v | Some w \<Rightarrow> w) else hm_get m k')"
  by (auto simp: hm_entry_def split: option.splits)

lemma hm_get_retain [hmap_simps]:
  "hm_wf m \<Longrightarrow> hm_get (hm_retain P m) k =
     (case hm_get m k of None \<Rightarrow> None | Some v \<Rightarrow> if P k v then Some v else None)"
proof (induction m)
  case Nil
  show ?case by (simp add: hm_retain_def)
next
  case (Cons kv m)
  then have IH: "hm_get (filter (\<lambda>(k, v). P k v) m) k =
      (case hm_get m k of None \<Rightarrow> None | Some v \<Rightarrow> if P k v then Some v else None)"
    and notin: "hm_get m (fst kv) = None"
    by (auto simp: hm_retain_def map_of_eq_None_iff)
  show ?case
    using IH notin by (cases kv; cases "k = fst kv") (auto simp: hm_retain_def)
qed

lemma hm_wf_insert [simp]: "hm_wf m \<Longrightarrow> hm_wf (hm_insert k v m)"
  by (simp add: hm_insert_def distinct_update)

lemma hm_wf_remove [simp]: "hm_wf m \<Longrightarrow> hm_wf (hm_remove k m)"
  by (simp add: hm_remove_def distinct_delete)

lemma hm_keys_modify [simp]: "hm_keys (hm_modify k f m) = hm_keys m"
  by (induction m) (auto simp: hm_modify_def)

lemma hm_keys_map [simp]: "hm_keys (hm_map f m) = hm_keys m"
  by (induction m) (auto simp: hm_map_def)

lemma hm_modify_modify: "hm_modify k f (hm_modify k g m) = hm_modify k (\<lambda>v. f (g v)) m"
  by (induction m) (auto simp: hm_modify_def)

lemma hm_get_SomeI: "k \<in> set (hm_keys m) \<Longrightarrow> \<exists>v. hm_get m k = Some v"
  by (cases "hm_get m k") (auto simp: map_of_eq_None_iff)

lemma hm_get_Some_key: "hm_get m k = Some v \<Longrightarrow> k \<in> set (hm_keys m)"
  by (force dest: map_of_SomeD)

lemma hm_wf_entry [simp]: "hm_wf m \<Longrightarrow> hm_wf (hm_entry k v m)"
  by (simp add: hm_entry_def split: option.splits)

lemma hm_wf_retain [simp]: "hm_wf m \<Longrightarrow> hm_wf (hm_retain P m)"
  by (induction m) (auto simp: hm_retain_def)

lemma set_hm_keys_insert [simp]: "set (hm_keys (hm_insert k v m)) = insert k (set (hm_keys m))"
  by (auto simp: hm_insert_def update_keys simp del: set_map)

lemma set_hm_keys_remove [simp]: "set (hm_keys (hm_remove k m)) = set (hm_keys m) - {k}"
  by (simp add: hm_remove_def delete_keys)

lemma fst_set_hm_insert [simp]: "fst ` set (hm_insert k v m) = insert k (fst ` set m)"
  using set_hm_keys_insert [of k v m] by (simp only: set_map)

lemma fst_set_hm_remove [simp]: "fst ` set (hm_remove k m) = fst ` set m - {k}"
  using set_hm_keys_remove [of k m] by (simp only: set_map)

lemma hm_get_None_iff: "hm_get m k = None \<longleftrightarrow> k \<notin> set (hm_keys m)"
  by (simp add: map_of_eq_None_iff)

lemma hm_contains_iff: "hm_contains m k \<longleftrightarrow> k \<in> set (hm_keys m)"
  by (simp add: hm_contains_def map_of_eq_None_iff)

lemma hm_insert_absent: "hm_get m k = None \<Longrightarrow> hm_insert k v m = m @ [(k, v)]"
  by (induction m) (auto simp: hm_insert_def split: if_splits)

lemma hm_modify_absent: "hm_get m k = None \<Longrightarrow> hm_modify k f m = m"
  by (induction m) (auto simp: hm_modify_def split: if_splits)

lemma hm_modify_append: "hm_modify k f (a @ b) = hm_modify k f a @ hm_modify k f b"
  by (simp add: hm_modify_def)

section \<open>Counters\<close>

lemma unat_u64_max: "unat u64_max = 2 ^ 64 - 1"
  by (simp add: unsigned_minus_1_eq_mask mask_eq_exp_minus_1)

lemma unat_saturating_add: "unat (saturating_add a b) = min (unat a + unat b) (2 ^ 64 - 1)"
  by (auto simp: saturating_add_def unat_u64_max unat_add_lem [THEN iffD1])

lemma unat_saturating_mul: "unat (saturating_mul a b) = min (unat a * unat b) (2 ^ 64 - 1)"
  by (auto simp: saturating_mul_def unat_u64_max unat_mult_lem [THEN iffD1])

lemma unat_saturating_sub: "unat (saturating_sub a b) = unat a - unat b"
  by (auto simp: saturating_sub_def unat_sub word_le_nat_alt)

lemma no_wrap: "unat r + 1 < 2 ^ 64 \<Longrightarrow> unat (r + 1) = unat r + 1" for r :: u64
  using unat_add_lem [of r 1] by simp

lemma less_plus_one: "n + 1 \<noteq> 0 \<Longrightarrow> n < n + 1" for n :: u64
  using unatSuc [of n] by (simp add: word_less_nat_alt add.commute)

section \<open>Big-endian integers\<close>

text \<open>\<open>be_bytes n w\<close> is \<open>to_be_bytes\<close> of an integer of \<open>n\<close> bytes, \<open>from_be_bytes\<close> its inverse.\<close>

primrec be_bytes :: "nat \<Rightarrow> 'a::len word \<Rightarrow> bytes" where
  "be_bytes 0 w = []"
| "be_bytes (Suc n) w = be_bytes n (drop_bit 8 w) @ [ucast w]"

definition from_be_bytes :: "bytes \<Rightarrow> 'a::len word" where
  "from_be_bytes bs = foldl (\<lambda>acc b. push_bit 8 acc OR ucast b) 0 bs"

lemma length_be_bytes [simp]: "length (be_bytes n w) = n"
  by (induction n arbitrary: w) auto

lemma from_be_bytes_snoc:
  "from_be_bytes (bs @ [b]) = push_bit 8 (from_be_bytes bs) OR ucast b"
  by (simp add: from_be_bytes_def)

lemma low_byte_OR_rest:
  "push_bit 8 (take_bit (8 * n) (drop_bit 8 w)) OR ucast (ucast w :: u8) = take_bit (8 * Suc n) w"
  for w :: "'a::len word"
proof (rule bit_word_eqI)
  fix i
  assume "i < LENGTH('a)"
  then show "bit (push_bit 8 (take_bit (8 * n) (drop_bit 8 w)) OR ucast (ucast w :: u8)) i
    = bit (take_bit (8 * Suc n) w) i"
    by (cases "i < 8")
      (simp_all add: bit_or_iff bit_push_bit_iff bit_take_bit_iff bit_drop_bit_eq bit_ucast_iff, auto)
qed

lemma from_be_bytes_be_bytes: "from_be_bytes (be_bytes n w) = take_bit (8 * n) w"
proof (induction n arbitrary: w)
  case 0
  show ?case by (simp add: from_be_bytes_def)
next
  case (Suc n)
  then show ?case
    using low_byte_OR_rest [of n w] by (simp add: from_be_bytes_snoc)
qed

lemma from_be_bytes_u64 [simp]: "from_be_bytes (be_bytes 8 w) = (w :: u64)"
  by (simp add: from_be_bytes_be_bytes take_bit_word_eq_self)

lemma from_be_bytes_u32 [simp]: "from_be_bytes (be_bytes 4 w) = (w :: u32)"
  by (simp add: from_be_bytes_be_bytes take_bit_word_eq_self)

lemma from_be_bytes_u16 [simp]: "from_be_bytes (be_bytes 2 w) = (w :: u16)"
  by (simp add: from_be_bytes_be_bytes take_bit_word_eq_self)

lemma bit_from_be_bytes_bound:
  "bit (from_be_bytes bs :: 'a::len word) i \<Longrightarrow> i < 8 * length bs"
proof (induction bs arbitrary: i rule: rev_induct)
  case Nil
  then show ?case by (simp add: from_be_bytes_def)
next
  case (snoc b bs)
  have "i < 8 * length (bs @ [b])" if "bit (push_bit 8 (from_be_bytes bs :: 'a word)) i"
    using that snoc.IH [of "i - 8"] by (auto simp: bit_push_bit_iff)
  moreover have "i < 8 * length (bs @ [b])" if "bit (ucast b :: 'a word) i"
    using that bit_imp_le_length [of b i] by (auto simp: bit_ucast_iff)
  ultimately show ?case
    using snoc.prems by (auto simp: from_be_bytes_snoc bit_or_iff)
qed

lemma be_bytes_from_be_bytes:
  assumes "8 * length bs \<le> LENGTH('a)"
  shows "be_bytes (length bs) (from_be_bytes bs :: 'a::len word) = bs"
  using assms
proof (induction bs rule: rev_induct)
  case Nil
  show ?case by simp
next
  case (snoc b bs)
  let ?x = "from_be_bytes bs :: 'a word"
  have "drop_bit 8 (push_bit 8 ?x OR ucast b) = ?x"
  proof (rule bit_word_eqI)
    fix i
    assume "i < LENGTH('a)"
    have "\<not> bit b (8 + i)" using bit_imp_le_length [of b "8 + i"] by auto
    moreover have "bit ?x i \<Longrightarrow> 8 + i < LENGTH('a)"
      using bit_from_be_bytes_bound [where 'a = 'a and bs = bs and i = i] snoc.prems by auto
    ultimately show "bit (drop_bit 8 (push_bit 8 ?x OR ucast b)) i = bit ?x i"
      by (auto simp: bit_drop_bit_eq bit_or_iff bit_push_bit_iff bit_ucast_iff)
  qed
  moreover have "ucast (push_bit 8 ?x OR ucast b) = b"
  proof (rule bit_word_eqI)
    fix i
    assume "i < LENGTH(8)"
    then show "bit (ucast (push_bit 8 ?x OR ucast b) :: u8) i = bit b i"
      using snoc.prems by (auto simp: bit_or_iff bit_push_bit_iff bit_ucast_iff)
  qed
  ultimately show ?case using snoc by (simp add: from_be_bytes_snoc)
qed

lemma unat_drop_bit_7: "unat (drop_bit 7 v) = unat v div 128" for v :: u64
  by (simp only: unat_drop_bit_eq) (simp add: drop_bit_eq_div)

section \<open>Seven-bit groups of a byte\<close>

lemma and_0x7F: "v AND 0x7F = take_bit 7 v" for v :: "'a::len word"
  by (simp add: take_bit_eq_mask mask_eq_exp_minus_1)

lemma low_bits_OR_rest:
  "push_bit s (take_bit 7 v) OR push_bit (s + 7) (drop_bit 7 v) = push_bit s v" for v :: u64
proof (rule bit_word_eqI)
  fix n
  have "7 + (n - (s + 7)) = n - s" if "s + 7 \<le> n" using that by arith
  then show "bit (push_bit s (take_bit 7 v) OR push_bit (s + 7) (drop_bit 7 v)) n = bit (push_bit s v) n"
    by (cases "s + 7 \<le> n") (auto simp: bit_or_iff bit_take_bit_iff bit_push_bit_iff bit_drop_bit_eq)
qed

lemma byte_of_low_bits: "ucast (ucast (take_bit 7 v) :: u8) = take_bit 7 v" for v :: u64
  by (rule bit_word_eqI) (auto simp: bit_ucast_iff bit_take_bit_iff)

lemma take_bit_7_byte: "take_bit 7 (ucast (take_bit 7 v) :: u8) = ucast (take_bit 7 v)" for v :: u64
  by (rule bit_word_eqI) (auto simp: bit_ucast_iff bit_take_bit_iff)

lemma continuation_bit_set: "(b OR 0x80) AND 0x80 \<noteq> 0" for b :: u8
  by (simp add: word_ao_absorbs)

lemma bit_0x80: "bit (0x80 :: 'a::len word) n \<longleftrightarrow> n = 7 \<and> n < LENGTH('a)"
proof -
  have "(0x80 :: 'a word) = 2 ^ 7" by simp
  then show ?thesis by (simp only: bit_exp_iff possible_bit_word) auto
qed

lemma continuation_bit_clear: "(ucast (take_bit 7 v) :: u8) AND 0x80 = 0" for v :: u64
proof (rule bit_word_eqI)
  fix n
  show "bit ((ucast (take_bit 7 v) :: u8) AND 0x80) n = bit 0 n"
    by (simp only: bit_and_iff bit_ucast_iff bit_take_bit_iff bit_0x80) auto
qed

lemma take_bit_7_continuation: "take_bit 7 (b OR 0x80) = take_bit 7 b" for b :: u8
proof -
  have "take_bit 7 (0x80 :: u8) = 0" by simp
  then show ?thesis by (simp only: take_bit_or) simp
qed

section \<open>Writers and readers\<close>

text \<open>
  The interface between a writer and a reader of the wire format: reading what was written
  gives the value back and leaves the rest of the input, and a reader only ever consumes a
  prefix of its input.
\<close>

locale byte_codec =
  fixes enc :: "'a \<Rightarrow> bytes"
    and dec :: "bytes \<Rightarrow> ('a \<times> bytes) res"
    and wf :: "'a \<Rightarrow> bool"
  assumes dec_enc: "wf x \<Longrightarrow> dec (enc x @ rest) = Inr (x, rest)"
    and dec_suffix: "dec bs = Inr (x, rest) \<Longrightarrow> \<exists>used. bs = used @ rest"
begin

lemma dec_enc_all: "wf x \<Longrightarrow> dec (enc x) = Inr (x, [])"
  using dec_enc [of x "[]"] by simp

lemma enc_prefix_free:
  assumes "wf x" "wf y" "enc x @ r = enc y @ s"
  shows "x = y \<and> r = s"
proof -
  have "dec (enc y @ s) = Inr (x, r)"
    using dec_enc [OF assms(1), of r] unfolding assms(3) .
  then show ?thesis
    using dec_enc [OF assms(2), of s] by simp
qed

lemma enc_inj: "wf x \<Longrightarrow> wf y \<Longrightarrow> enc x = enc y \<Longrightarrow> x = y"
  using enc_prefix_free [of x y Nil Nil] by blast

lemma dec_length: "dec bs = Inr (x, rest) \<Longrightarrow> length rest \<le> length bs"
  by (auto dest: dec_suffix)

end

section \<open>Event systems\<close>

text \<open>
  A component driven by events: \<open>step\<close> is one handler call and a run is a fold of the handler over
  the events. An invariant kept by each allowed event holds after every run of allowed events,
  and a preorder that every allowed event respects relates the first and the last state of a run.
\<close>

locale event_invariant =
  fixes step :: "'e \<Rightarrow> 's \<Rightarrow> 's"
    and allowed :: "'e \<Rightarrow> bool"
    and inv :: "'s \<Rightarrow> bool"
  assumes step_inv: "inv s \<Longrightarrow> allowed e \<Longrightarrow> inv (step e s)"
begin

lemma run_inv: "inv s \<Longrightarrow> list_all allowed es \<Longrightarrow> inv (fold step es s)"
  by (induction es arbitrary: s) (auto simp: step_inv)

end

locale event_order =
  fixes step :: "'e \<Rightarrow> 's \<Rightarrow> 's"
    and allowed :: "'e \<Rightarrow> bool"
    and before :: "'s \<Rightarrow> 's \<Rightarrow> bool"
  assumes before_refl: "before s s"
    and before_trans: "before s t \<Longrightarrow> before t u \<Longrightarrow> before s u"
    and step_before: "allowed e \<Longrightarrow> before s (step e s)"
begin

lemma run_before: "list_all allowed es \<Longrightarrow> before s (fold step es s)"
proof (induction es arbitrary: s)
  case Nil
  show ?case by (simp add: before_refl)
next
  case (Cons e es)
  then show ?case using before_trans [OF step_before [of e s], of "fold step es (step e s)"] by simp
qed

end

end
