(* ===== verification/Wire.thy ===== *)
theory Wire
  imports Ygg_Prelude
begin

text \<open>
  The wire protocol, \<open>crates/ironwood/src/wire.rs\<close>: unsigned LEB128 integers, zero-terminated
  paths, the reader, the message types with their writers and readers, the compressed Bloom
  filter and the frame. A writer \<open>encode(&self, out)\<close> appends to \<open>out\<close>; here it returns what it
  appends. A reader takes the bytes that are left and returns the value with the new rest.
\<close>

section \<open>Packet types\<close>

datatype packet_type =
    Dummy | KeepAlive | ProtoSigReq | ProtoSigRes | ProtoAnnounce | ProtoBloomFilter
  | ProtoPathLookup | ProtoPathNotify | ProtoPathBroken | Traffic

fun packet_type_as_u8 :: "packet_type \<Rightarrow> u8" where
  "packet_type_as_u8 Dummy = 0"
| "packet_type_as_u8 KeepAlive = 1"
| "packet_type_as_u8 ProtoSigReq = 2"
| "packet_type_as_u8 ProtoSigRes = 3"
| "packet_type_as_u8 ProtoAnnounce = 4"
| "packet_type_as_u8 ProtoBloomFilter = 5"
| "packet_type_as_u8 ProtoPathLookup = 6"
| "packet_type_as_u8 ProtoPathNotify = 7"
| "packet_type_as_u8 ProtoPathBroken = 8"
| "packet_type_as_u8 Traffic = 9"

definition packet_type_try_from :: "u8 \<Rightarrow> packet_type res" where
  "packet_type_try_from v =
     (if v = 0 then Inr Dummy
      else if v = 1 then Inr KeepAlive
      else if v = 2 then Inr ProtoSigReq
      else if v = 3 then Inr ProtoSigRes
      else if v = 4 then Inr ProtoAnnounce
      else if v = 5 then Inr ProtoBloomFilter
      else if v = 6 then Inr ProtoPathLookup
      else if v = 7 then Inr ProtoPathNotify
      else if v = 8 then Inr ProtoPathBroken
      else if v = 9 then Inr Traffic
      else Inl UnrecognizedMessage)"

section \<open>Unsigned LEB128 integers\<close>

function encode_uvarint :: "u64 \<Rightarrow> bytes" where
  "encode_uvarint value =
     (let byte = ucast (value AND 0x7F) :: u8;
          value' = drop_bit 7 value
      in if value' \<noteq> 0 then (byte OR 0x80) # encode_uvarint value' else [byte])"
  by pat_completeness auto
termination
proof (relation "measure unat", simp, simp)
  fix v :: u64
  assume "drop_bit 7 v \<noteq> 0"
  then have "unat (drop_bit 7 v) \<noteq> 0"
    by (simp add: unat_eq_0)
  then show "unat (drop_bit 7 v) < unat v"
    by (simp add: unat_drop_bit_7)
qed

declare encode_uvarint.simps [simp del]

fun decode_uvarint_loop :: "nat \<Rightarrow> nat \<Rightarrow> u64 \<Rightarrow> bytes \<Rightarrow> (u64 \<times> nat) option" where
  "decode_uvarint_loop i shift value [] = None"
| "decode_uvarint_loop i shift value (byte # data) =
     (if shift \<ge> 63 \<and> byte > 1 then None
      else let value' = value OR push_bit shift (ucast (byte AND 0x7F))
           in if byte AND 0x80 = 0 then Some (value', i + 1)
              else if i \<ge> 9 then None
              else decode_uvarint_loop (i + 1) (shift + 7) value' data)"

definition decode_uvarint :: "bytes \<Rightarrow> (u64 \<times> nat) option" where
  "decode_uvarint data = decode_uvarint_loop 0 0 0 data"

function uvarint_size_loop :: "nat \<Rightarrow> u64 \<Rightarrow> nat" where
  "uvarint_size_loop sz value =
     (if value \<ge> 0x80 then uvarint_size_loop (sz + 1) (drop_bit 7 value) else sz)"
  by pat_completeness auto
termination
proof (relation "measure (\<lambda>(sz, value). unat value)", simp, simp)
  fix v :: u64
  assume "0x80 \<le> v"
  then have "(128::nat) \<le> unat v"
    by (simp add: word_le_nat_alt)
  then show "unat (drop_bit 7 v) < unat v"
    by (simp add: unat_drop_bit_7)
qed

declare uvarint_size_loop.simps [simp del]

definition uvarint_size :: "u64 \<Rightarrow> nat" where
  "uvarint_size value = uvarint_size_loop 1 value"

section \<open>Paths\<close>

definition encode_path :: "peer_port list \<Rightarrow> bytes" where
  "encode_path path = concat (map encode_uvarint path) @ encode_uvarint 0"

definition path_size :: "peer_port list \<Rightarrow> nat" where
  "path_size path = foldl (\<lambda>sz port. sz + uvarint_size port) 0 path + uvarint_size 0"

lemma decode_uvarint_loop_consumes:
  "decode_uvarint_loop i shift acc data = Some (v, n) \<Longrightarrow> i < n \<and> n \<le> i + length data"
  by (induction i shift acc data rule: decode_uvarint_loop.induct)
    (auto simp: Let_def split: if_splits)

lemma decode_uvarint_consumes:
  "decode_uvarint data = Some (v, n) \<Longrightarrow> 0 < n \<and> n \<le> length data"
  using decode_uvarint_loop_consumes [of 0 0 0 data v n] by (simp add: decode_uvarint_def)

function decode_path_loop ::
  "bytes \<Rightarrow> nat \<Rightarrow> peer_port list \<Rightarrow> (peer_port list \<times> nat) res" where
  "decode_path_loop data offset path =
     (case decode_uvarint (drop offset data) of
        None \<Rightarrow> Inl Decode
      | Some (value, len) \<Rightarrow>
          if value = 0 then Inr (path, offset + len)
          else decode_path_loop data (offset + len) (path @ [value]))"
  by pat_completeness auto
termination
  by (relation "measure (\<lambda>(data, offset, path). length data - offset)")
    (auto dest!: decode_uvarint_consumes)

declare decode_path_loop.simps [simp del]

definition decode_path :: "bytes \<Rightarrow> (peer_port list \<times> nat) res" where
  "decode_path data = decode_path_loop data 0 []"

section \<open>The reader\<close>

definition read_uvarint :: "bytes \<Rightarrow> (u64 \<times> bytes) res" where
  "read_uvarint data =
     and_then (ok_or (decode_uvarint data) Decode) (\<lambda>(value, len). Inr (value, drop len data))"

definition read_fixed :: "nat \<Rightarrow> bytes \<Rightarrow> (bytes \<times> bytes) res" where
  "read_fixed n data = (if length data < n then Inl Decode else Inr (take n data, drop n data))"

definition read_public_key :: "bytes \<Rightarrow> (public_key \<times> bytes) res" where
  "read_public_key = read_fixed PUBLIC_KEY_SIZE"

definition read_signature :: "bytes \<Rightarrow> (signature \<times> bytes) res" where
  "read_signature = read_fixed SIGNATURE_SIZE"

definition read_path :: "bytes \<Rightarrow> (peer_port list \<times> bytes) res" where
  "read_path data =
     and_then (decode_path data) (\<lambda>(path, consumed). Inr (path, drop consumed data))"

section \<open>Messages\<close>

record sig_req =
  req_seq :: u64
  req_nonce :: u64

definition sig_req_encode :: "sig_req \<Rightarrow> bytes" where
  "sig_req_encode m = encode_uvarint (req_seq m) @ encode_uvarint (req_nonce m)"

definition sig_req_decode :: "bytes \<Rightarrow> (sig_req \<times> bytes) res" where
  "sig_req_decode r =
     and_then (read_uvarint r) (\<lambda>(seq, r).
     and_then (read_uvarint r) (\<lambda>(nonce, r).
     Inr (\<lparr>req_seq = seq, req_nonce = nonce\<rparr>, r)))"

record sig_res =
  res_seq :: u64
  res_nonce :: u64
  res_port :: peer_port
  res_psig :: signature

definition sig_res_encode :: "sig_res \<Rightarrow> bytes" where
  "sig_res_encode m =
     encode_uvarint (res_seq m) @ encode_uvarint (res_nonce m) @ encode_uvarint (res_port m) @
     res_psig m"

definition sig_res_decode :: "bytes \<Rightarrow> (sig_res \<times> bytes) res" where
  "sig_res_decode r =
     and_then (read_uvarint r) (\<lambda>(seq, r).
     and_then (read_uvarint r) (\<lambda>(nonce, r).
     and_then (read_uvarint r) (\<lambda>(port, r).
     and_then (read_signature r) (\<lambda>(psig, r).
     Inr (\<lparr>res_seq = seq, res_nonce = nonce, res_port = port, res_psig = psig\<rparr>, r)))))"

record announce =
  ann_key :: public_key
  ann_parent :: public_key
  ann_sig_res :: sig_res
  ann_sig :: signature

definition announce_encode :: "announce \<Rightarrow> bytes" where
  "announce_encode m =
     ann_key m @ ann_parent m @ sig_res_encode (ann_sig_res m) @ ann_sig m"

definition announce_decode :: "bytes \<Rightarrow> announce res" where
  "announce_decode data =
     and_then (read_public_key data) (\<lambda>(key, r).
     and_then (read_public_key r) (\<lambda>(parent, r).
     and_then (sig_res_decode r) (\<lambda>(sig_res, r).
     and_then (read_signature r) (\<lambda>(sig, r).
     if r \<noteq> [] then Inl Decode
     else Inr \<lparr>ann_key = key, ann_parent = parent, ann_sig_res = sig_res, ann_sig = sig\<rparr>))))"

record path_lookup =
  lookup_source :: public_key
  lookup_dest :: public_key
  lookup_from :: "peer_port list"

definition path_lookup_encode :: "path_lookup \<Rightarrow> bytes" where
  "path_lookup_encode m = lookup_source m @ lookup_dest m @ encode_path (lookup_from m)"

definition path_lookup_decode :: "bytes \<Rightarrow> path_lookup res" where
  "path_lookup_decode data =
     and_then (read_public_key data) (\<lambda>(source, r).
     and_then (read_public_key r) (\<lambda>(dest, r).
     and_then (read_path r) (\<lambda>(from, r).
     if r \<noteq> [] then Inl Decode
     else Inr \<lparr>lookup_source = source, lookup_dest = dest, lookup_from = from\<rparr>)))"

record path_notify_info =
  pni_seq :: u64
  pni_path :: "peer_port list"
  pni_sig :: signature

definition path_notify_info_encode :: "path_notify_info \<Rightarrow> bytes" where
  "path_notify_info_encode m =
     encode_uvarint (pni_seq m) @ encode_path (pni_path m) @ pni_sig m"

definition path_notify_info_decode :: "bytes \<Rightarrow> (path_notify_info \<times> bytes) res" where
  "path_notify_info_decode r =
     and_then (read_uvarint r) (\<lambda>(seq, r).
     and_then (read_path r) (\<lambda>(path, r).
     and_then (read_signature r) (\<lambda>(sig, r).
     Inr (\<lparr>pni_seq = seq, pni_path = path, pni_sig = sig\<rparr>, r))))"

record path_notify =
  notify_path :: "peer_port list"
  notify_watermark :: u64
  notify_source :: public_key
  notify_dest :: public_key
  notify_info :: path_notify_info

definition path_notify_encode :: "path_notify \<Rightarrow> bytes" where
  "path_notify_encode m =
     encode_path (notify_path m) @ encode_uvarint (notify_watermark m) @ notify_source m @
     notify_dest m @ path_notify_info_encode (notify_info m)"

definition path_notify_decode :: "bytes \<Rightarrow> path_notify res" where
  "path_notify_decode data =
     and_then (read_path data) (\<lambda>(path, r).
     and_then (read_uvarint r) (\<lambda>(watermark, r).
     and_then (read_public_key r) (\<lambda>(source, r).
     and_then (read_public_key r) (\<lambda>(dest, r).
     and_then (path_notify_info_decode r) (\<lambda>(info, r).
     if r \<noteq> [] then Inl Decode
     else Inr \<lparr>notify_path = path, notify_watermark = watermark, notify_source = source,
               notify_dest = dest, notify_info = info\<rparr>)))))"

record path_broken =
  broken_path :: "peer_port list"
  broken_watermark :: u64
  broken_source :: public_key
  broken_dest :: public_key

definition path_broken_encode :: "path_broken \<Rightarrow> bytes" where
  "path_broken_encode m =
     encode_path (broken_path m) @ encode_uvarint (broken_watermark m) @ broken_source m @
     broken_dest m"

definition path_broken_decode :: "bytes \<Rightarrow> path_broken res" where
  "path_broken_decode data =
     and_then (read_path data) (\<lambda>(path, r).
     and_then (read_uvarint r) (\<lambda>(watermark, r).
     and_then (read_public_key r) (\<lambda>(source, r).
     and_then (read_public_key r) (\<lambda>(dest, r).
     if r \<noteq> [] then Inl Decode
     else Inr \<lparr>broken_path = path, broken_watermark = watermark, broken_source = source,
               broken_dest = dest\<rparr>))))"

record traffic =
  tr_path :: "peer_port list"
  tr_from :: "peer_port list"
  tr_source :: public_key
  tr_dest :: public_key
  tr_watermark :: u64
  tr_payload :: bytes

definition traffic_size :: "traffic \<Rightarrow> nat" where
  "traffic_size m =
     path_size (tr_path m) + path_size (tr_from m) + PUBLIC_KEY_SIZE + PUBLIC_KEY_SIZE +
     uvarint_size (tr_watermark m) + length (tr_payload m)"

definition traffic_encode :: "traffic \<Rightarrow> bytes" where
  "traffic_encode m =
     encode_path (tr_path m) @ encode_path (tr_from m) @ tr_source m @ tr_dest m @
     encode_uvarint (tr_watermark m) @ tr_payload m"

definition traffic_decode :: "bytes \<Rightarrow> traffic res" where
  "traffic_decode data =
     and_then (read_path data) (\<lambda>(path, r).
     and_then (read_path r) (\<lambda>(from, r).
     and_then (read_public_key r) (\<lambda>(source, r).
     and_then (read_public_key r) (\<lambda>(dest, r).
     and_then (read_uvarint r) (\<lambda>(watermark, r).
     Inr \<lparr>tr_path = path, tr_from = from, tr_source = source, tr_dest = dest,
          tr_watermark = watermark, tr_payload = r\<rparr>)))))"

section \<open>Bloom filter encoding\<close>

definition BLOOM_FILTER_FLAGS :: nat where
  "BLOOM_FILTER_FLAGS = 16"

definition BLOOM_FILTER_U64S :: nat where
  "BLOOM_FILTER_U64S = 128"

definition set_flag :: "bytes \<Rightarrow> nat \<Rightarrow> bytes" where
  "set_flag flags idx =
     flags[idx div 8 := flags ! (idx div 8) OR drop_bit (idx mod 8) 0x80]"

definition flag_at :: "bytes \<Rightarrow> nat \<Rightarrow> bool" where
  "flag_at flags idx \<longleftrightarrow> flags ! (idx div 8) AND drop_bit (idx mod 8) 0x80 \<noteq> 0"

fun encode_bloom_loop ::
  "nat \<Rightarrow> u64 list \<Rightarrow> bytes \<Rightarrow> bytes \<Rightarrow> u64 list \<Rightarrow> bytes \<times> bytes \<times> u64 list" where
  "encode_bloom_loop idx [] flags0 flags1 keep = (flags0, flags1, keep)"
| "encode_bloom_loop idx (u # data) flags0 flags1 keep =
     (if u = 0 then encode_bloom_loop (idx + 1) data (set_flag flags0 idx) flags1 keep
      else if u = u64_max then encode_bloom_loop (idx + 1) data flags0 (set_flag flags1 idx) keep
      else encode_bloom_loop (idx + 1) data flags0 flags1 (keep @ [u]))"

definition encode_bloom :: "u64 list \<Rightarrow> bytes" where
  "encode_bloom data =
     (let (flags0, flags1, keep) =
        encode_bloom_loop 0 data (replicate BLOOM_FILTER_FLAGS 0) (replicate BLOOM_FILTER_FLAGS 0) []
      in flags0 @ flags1 @ concat (map (be_bytes 8) keep))"

fun decode_bloom_loop ::
  "bytes \<Rightarrow> bytes \<Rightarrow> nat list \<Rightarrow> u64 list \<Rightarrow> bytes \<Rightarrow> (u64 list \<times> bytes) res" where
  "decode_bloom_loop flags0 flags1 [] result r = Inr (result, r)"
| "decode_bloom_loop flags0 flags1 (idx # is) result r =
     (let f0 = flag_at flags0 idx; f1 = flag_at flags1 idx
      in if f0 \<and> f1 then Inl Decode
         else if f0 then decode_bloom_loop flags0 flags1 is (result[idx := 0]) r
         else if f1 then decode_bloom_loop flags0 flags1 is (result[idx := u64_max]) r
         else and_then (read_fixed 8 r) (\<lambda>(bytes, r).
                decode_bloom_loop flags0 flags1 is (result[idx := from_be_bytes bytes]) r))"

definition decode_bloom :: "bytes \<Rightarrow> u64 list res" where
  "decode_bloom data =
     and_then (read_fixed BLOOM_FILTER_FLAGS data) (\<lambda>(flags0, r).
     and_then (read_fixed BLOOM_FILTER_FLAGS r) (\<lambda>(flags1, r).
     and_then (decode_bloom_loop flags0 flags1 [0..<BLOOM_FILTER_U64S]
                 (replicate BLOOM_FILTER_U64S 0) r) (\<lambda>(result, r).
     if r \<noteq> [] then Inl Decode else Inr result)))"

definition bloom_wire_size :: "u64 list \<Rightarrow> nat" where
  "bloom_wire_size data =
     foldl (\<lambda>sz u. if u \<noteq> 0 \<and> u \<noteq> u64_max then sz + 8 else sz) (BLOOM_FILTER_FLAGS * 2) data"

section \<open>Frames\<close>

definition encode_frame :: "packet_type \<Rightarrow> bytes \<Rightarrow> bytes" where
  "encode_frame pt payload =
     (let content_len = 1 + length payload
      in encode_uvarint (of_nat content_len) @ [packet_type_as_u8 pt] @ payload)"

definition encode_traffic_frame ::
  "peer_port list \<Rightarrow> peer_port list \<Rightarrow> public_key \<Rightarrow> public_key \<Rightarrow> u64 \<Rightarrow> bytes \<Rightarrow> bytes" where
  "encode_traffic_frame path from source dest watermark payload =
     (let content_len = 1 + path_size path + path_size from + PUBLIC_KEY_SIZE + PUBLIC_KEY_SIZE +
            uvarint_size watermark + length payload
      in encode_uvarint (of_nat content_len) @ [packet_type_as_u8 Traffic] @ encode_path path @
         encode_path from @ source @ dest @ encode_uvarint watermark @ payload)"

section \<open>Round trip of integers\<close>

lemma decode_uvarint_loop_encode:
  "unat v < 2 ^ (64 - 7 * i) \<Longrightarrow> i \<le> 9 \<Longrightarrow>
   decode_uvarint_loop i (7 * i) acc (encode_uvarint v @ rest) =
     Some (acc OR push_bit (7 * i) v, i + length (encode_uvarint v))"
proof (induction v arbitrary: i acc rule: encode_uvarint.induct)
  case (1 v)
  show ?case
  proof (cases "drop_bit 7 v = 0")
    case True
    then have small: "take_bit 7 v = v"
      using bits_ident [of 7 v] by simp
    have "ucast v \<le> (1 :: u8)" if "63 \<le> 7 * i"
    proof -
      have "i = 9" using that \<open>i \<le> 9\<close> by arith
      then have "unat v < 2" using "1.prems"(1) by simp
      then have "v = 0 \<or> v = 1" by (auto simp: word_unat_eq_iff less_2_cases_iff)
      then show ?thesis by auto
    qed
    moreover have "(ucast v :: u8) AND 0x80 = 0" "take_bit 7 (ucast v :: u8) = ucast v" "ucast (ucast v :: u8) = v"
      using continuation_bit_clear [of v] take_bit_7_byte [of v] byte_of_low_bits [of v] by (simp_all add: small)
    ultimately show ?thesis
      using True small by (auto simp: encode_uvarint.simps [of v] and_0x7F Let_def)
  next
    case False
    let ?b = "ucast (take_bit 7 v) :: u8"
    have big: "128 \<le> unat v"
      using False unat_drop_bit_7 [of v] by (simp add: div_eq_0_iff flip: unat_eq_0)
    have i8: "i \<le> 8"
    proof (rule ccontr)
      assume "\<not> i \<le> 8"
      then have "i = 9" using \<open>i \<le> 9\<close> by arith
      with "1.prems"(1) big show False by simp
    qed
    then have pw: "(2::nat) ^ (64 - 7 * i) = 2 ^ (64 - 7 * (i + 1)) * 128"
    proof -
      have "64 - 7 * i = (64 - 7 * (i + 1)) + 7" using i8 by arith
      then show ?thesis by (simp only: power_add) simp
    qed
    have "unat (drop_bit 7 v) < 2 ^ (64 - 7 * (i + 1))"
      unfolding unat_drop_bit_7 using "1.prems"(1) unfolding pw by (simp add: less_mult_imp_div_less)
    then have "decode_uvarint_loop (i + 1) (7 * (i + 1)) (acc OR push_bit (7 * i) (take_bit 7 v)) (encode_uvarint (drop_bit 7 v) @ rest)
      = Some ((acc OR push_bit (7 * i) (take_bit 7 v)) OR push_bit (7 * (i + 1)) (drop_bit 7 v),
          (i + 1) + length (encode_uvarint (drop_bit 7 v)))"
      using "1.IH" [OF refl refl False, of "i + 1"] i8 by simp
    moreover have "(acc OR push_bit (7 * i) (take_bit 7 v)) OR push_bit (7 * (i + 1)) (drop_bit 7 v)
      = acc OR push_bit (7 * i) v"
      using low_bits_OR_rest [of "7 * i" v] by (simp add: or.assoc algebra_simps)
    moreover have "encode_uvarint v = (?b OR 0x80) # encode_uvarint (drop_bit 7 v)"
      using False by (simp add: encode_uvarint.simps [of v] and_0x7F Let_def)
    ultimately show ?thesis
      using i8 continuation_bit_set [of ?b]
      by (simp add: and_0x7F take_bit_7_continuation take_bit_7_byte byte_of_low_bits Let_def algebra_simps)
  qed
qed

lemma decode_encode_uvarint:
  "decode_uvarint (encode_uvarint v @ rest) = Some (v, length (encode_uvarint v))"
  using decode_uvarint_loop_encode [of v 0 0 rest] unsigned_less [of v]
  by (simp add: decode_uvarint_def)

lemma read_uvarint_encode [codec_simps]:
  "read_uvarint (encode_uvarint v @ rest) = Inr (v, rest)"
  by (simp add: read_uvarint_def decode_encode_uvarint)

lemma read_uvarint_suffix: "read_uvarint bs = Inr (v, rest) \<Longrightarrow> \<exists>used. bs = used @ rest"
  by (auto simp: read_uvarint_def and_then_Inr_iff) (metis append_take_drop_id)

interpretation uvarint: byte_codec encode_uvarint read_uvarint "\<lambda>_. True"
  by unfold_locales (auto simp: codec_simps dest: read_uvarint_suffix)

lemma read_fixed_append: "length xs = n \<Longrightarrow> read_fixed n (xs @ rest) = Inr (xs, rest)"
  by (simp add: read_fixed_def)

lemma read_fixed_suffix: "read_fixed n bs = Inr (x, rest) \<Longrightarrow> \<exists>used. bs = used @ rest"
  by (auto simp: read_fixed_def split: if_splits) (metis append_take_drop_id)

interpretation key: byte_codec "\<lambda>k. k" read_public_key wf_key
  by unfold_locales (auto simp: read_public_key_def read_fixed_append dest: read_fixed_suffix)

interpretation sign: byte_codec "\<lambda>s. s" read_signature wf_sig
  by unfold_locales (auto simp: read_signature_def read_fixed_append dest: read_fixed_suffix)

lemma length_encode_uvarint_loop:
  "uvarint_size_loop n v = n + length (encode_uvarint v) - 1"
proof (induction v arbitrary: n rule: encode_uvarint.induct)
  case (1 v)
  have nz: "drop_bit 7 v \<noteq> 0 \<longleftrightarrow> 0x80 \<le> v"
    using unat_drop_bit_7 [of v]
    by (simp add: word_le_nat_alt div_eq_0_iff flip: unat_eq_0) linarith
  show ?case
  proof (cases "drop_bit 7 v = 0")
    case True
    then show ?thesis
      using nz by (simp add: uvarint_size_loop.simps [of n v] encode_uvarint.simps [of v])
  next
    case False
    have "encode_uvarint w \<noteq> []" for w
      by (subst encode_uvarint.simps) (simp add: Let_def)
    then have "0 < length (encode_uvarint (drop_bit 7 v))" by simp
    then show ?thesis
      using False nz "1.IH" [OF refl refl False, of "n + 1"]
      by (simp add: uvarint_size_loop.simps [of n v] encode_uvarint.simps [of v] Let_def)
  qed
qed

lemma encode_uvarint_nonempty: "encode_uvarint v \<noteq> []"
  by (subst encode_uvarint.simps) (simp add: Let_def)

lemma length_encode_uvarint: "length (encode_uvarint v) = uvarint_size v"
  using encode_uvarint_nonempty [of v] by (simp add: uvarint_size_def length_encode_uvarint_loop)

lemma length_encode_uvarint_le:
  "unat v < 2 ^ (7 * n) \<Longrightarrow> 0 < n \<Longrightarrow> length (encode_uvarint v) \<le> n"
proof (induction v arbitrary: n rule: encode_uvarint.induct)
  case (1 v)
  show ?case
  proof (cases "drop_bit 7 v = 0")
    case True
    then show ?thesis using "1.prems"(2) by (simp add: encode_uvarint.simps [of v])
  next
    case False
    then have big: "128 \<le> unat v"
      using unat_drop_bit_7 [of v] by (simp add: div_eq_0_iff flip: unat_eq_0)
    obtain m where n: "n = Suc m" using "1.prems"(2) by (cases n) auto
    have "0 < m" using "1.prems"(1) big n by (cases m) auto
    moreover have "unat (drop_bit 7 v) < 2 ^ (7 * m)"
      using "1.prems"(1) by (simp add: unat_drop_bit_7 n power_add less_mult_imp_div_less mult.commute)
    ultimately show ?thesis
      using False "1.IH" [OF refl refl False, of m] n
      by (simp add: encode_uvarint.simps [of v] Let_def)
  qed
qed

section \<open>Round trip of paths\<close>

lemma decode_path_loop_encode:
  "0 \<notin> set path \<Longrightarrow>
   decode_path_loop (pre @ concat (map encode_uvarint path) @ encode_uvarint 0 @ rest) (length pre) acc =
     Inr (acc @ path, length pre + length (encode_path path))"
proof (induction path arbitrary: pre acc)
  case Nil
  show ?case
    by (subst decode_path_loop.simps) (simp add: decode_encode_uvarint encode_path_def)
next
  case (Cons p path)
  have "decode_path_loop ((pre @ encode_uvarint p) @ concat (map encode_uvarint path) @ encode_uvarint 0 @ rest)
      (length (pre @ encode_uvarint p)) (acc @ [p]) =
    Inr ((acc @ [p]) @ path, length (pre @ encode_uvarint p) + length (encode_path path))"
    using Cons.prems by (intro Cons.IH) simp
  then show ?case
    using Cons.prems
    by (subst decode_path_loop.simps) (simp add: decode_encode_uvarint encode_path_def)
qed

lemma decode_encode_path:
  "0 \<notin> set path \<Longrightarrow> decode_path (encode_path path @ rest) = Inr (path, length (encode_path path))"
  using decode_path_loop_encode [of path "[]" rest "[]"] by (simp add: decode_path_def encode_path_def)

lemma decode_path_loop_consumes:
  "decode_path_loop data offset acc = Inr (path, n) \<Longrightarrow> offset \<le> length data \<Longrightarrow>
     offset \<le> n \<and> n \<le> length data \<and> (0 \<notin> set acc \<longrightarrow> 0 \<notin> set path)"
proof (induction data offset acc rule: decode_path_loop.induct)
  case (1 data offset acc)
  from "1.prems" obtain v len where d: "decode_uvarint (drop offset data) = Some (v, len)"
    by (subst (asm) decode_path_loop.simps) (auto split: option.splits)
  have len: "offset + len \<le> length data"
    using decode_uvarint_consumes [OF d] by auto
  show ?case
  proof (cases "v = 0")
    case True
    then show ?thesis
      using "1.prems" d len by (subst (asm) decode_path_loop.simps) auto
  next
    case False
    then have "decode_path_loop data (offset + len) (acc @ [v]) = Inr (path, n)"
      using "1.prems" d by (subst (asm) decode_path_loop.simps) auto
    from "1.IH" [OF d refl False this len] False show ?thesis by auto
  qed
qed

lemma read_path_encode [codec_simps]:
  "0 \<notin> set path \<Longrightarrow> read_path (encode_path path @ rest) = Inr (path, rest)"
  by (simp add: read_path_def decode_encode_path)

lemma read_path_suffix: "read_path bs = Inr (path, rest) \<Longrightarrow> \<exists>used. bs = used @ rest"
  by (auto simp: read_path_def and_then_Inr_iff) (metis append_take_drop_id)

lemma read_path_nonzero: "read_path bs = Inr (path, rest) \<Longrightarrow> 0 \<notin> set path"
  by (auto simp: read_path_def and_then_Inr_iff decode_path_def dest: decode_path_loop_consumes)

interpretation path: byte_codec encode_path read_path "\<lambda>path. 0 \<notin> set path"
  by unfold_locales (auto simp: codec_simps dest: read_path_suffix)

lemma length_concat_uvarints:
  "foldl (\<lambda>sz port. sz + uvarint_size port) n path = n + length (concat (map encode_uvarint path))"
  by (induction path arbitrary: n) (auto simp: length_encode_uvarint)

lemma length_encode_path: "length (encode_path path) = path_size path"
  by (simp add: encode_path_def path_size_def length_concat_uvarints length_encode_uvarint)

section \<open>Round trip of messages\<close>

text \<open>What the writers of the router produce: keys of 32 bytes, signatures of 64, and no zero
  port inside a path, a zero being the terminator.\<close>

definition wf_sig_res :: "sig_res \<Rightarrow> bool" where
  "wf_sig_res m \<longleftrightarrow> wf_sig (res_psig m)"

definition wf_announce :: "announce \<Rightarrow> bool" where
  "wf_announce m \<longleftrightarrow> wf_key (ann_key m) \<and> wf_key (ann_parent m) \<and> wf_sig_res (ann_sig_res m) \<and>
     wf_sig (ann_sig m)"

definition wf_path_lookup :: "path_lookup \<Rightarrow> bool" where
  "wf_path_lookup m \<longleftrightarrow> wf_key (lookup_source m) \<and> wf_key (lookup_dest m) \<and> 0 \<notin> set (lookup_from m)"

definition wf_path_notify_info :: "path_notify_info \<Rightarrow> bool" where
  "wf_path_notify_info m \<longleftrightarrow> 0 \<notin> set (pni_path m) \<and> wf_sig (pni_sig m)"

definition wf_path_notify :: "path_notify \<Rightarrow> bool" where
  "wf_path_notify m \<longleftrightarrow> 0 \<notin> set (notify_path m) \<and> wf_key (notify_source m) \<and>
     wf_key (notify_dest m) \<and> wf_path_notify_info (notify_info m)"

definition wf_path_broken :: "path_broken \<Rightarrow> bool" where
  "wf_path_broken m \<longleftrightarrow> 0 \<notin> set (broken_path m) \<and> wf_key (broken_source m) \<and> wf_key (broken_dest m)"

definition wf_traffic :: "traffic \<Rightarrow> bool" where
  "wf_traffic m \<longleftrightarrow> 0 \<notin> set (tr_path m) \<and> 0 \<notin> set (tr_from m) \<and> wf_key (tr_source m) \<and>
     wf_key (tr_dest m)"

lemmas wf_defs = wf_sig_res_def wf_announce_def wf_path_lookup_def wf_path_notify_info_def
  wf_path_notify_def wf_path_broken_def wf_traffic_def

lemmas codec_laws = codec_simps key.dec_enc sign.dec_enc

lemma sig_req_dec_enc [codec_simps]: "sig_req_decode (sig_req_encode m @ rest) = Inr (m, rest)"
  by (simp add: sig_req_decode_def sig_req_encode_def codec_laws)

lemma sig_res_dec_enc [codec_simps]:
  "wf_sig_res m \<Longrightarrow> sig_res_decode (sig_res_encode m @ rest) = Inr (m, rest)"
  by (simp add: sig_res_decode_def sig_res_encode_def codec_laws wf_defs)

lemma path_notify_info_dec_enc [codec_simps]:
  "wf_path_notify_info m \<Longrightarrow>
   path_notify_info_decode (path_notify_info_encode m @ rest) = Inr (m, rest)"
  by (simp add: path_notify_info_decode_def path_notify_info_encode_def codec_laws wf_defs)

lemma sig_req_suffix: "sig_req_decode bs = Inr (m, rest) \<Longrightarrow> \<exists>used. bs = used @ rest"
  by (force simp: sig_req_decode_def and_then_Inr_iff dest!: read_uvarint_suffix)

lemma sig_res_suffix: "sig_res_decode bs = Inr (m, rest) \<Longrightarrow> \<exists>used. bs = used @ rest"
  by (force simp: sig_res_decode_def and_then_Inr_iff dest!: read_uvarint_suffix sign.dec_suffix)

lemma path_notify_info_suffix:
  "path_notify_info_decode bs = Inr (m, rest) \<Longrightarrow> \<exists>used. bs = used @ rest"
  by (force simp: path_notify_info_decode_def and_then_Inr_iff
      dest!: read_uvarint_suffix read_path_suffix sign.dec_suffix)

interpretation sig_req: byte_codec sig_req_encode sig_req_decode "\<lambda>_. True"
  by unfold_locales (auto simp: codec_simps dest: sig_req_suffix)

interpretation sig_res: byte_codec sig_res_encode sig_res_decode wf_sig_res
  by unfold_locales (auto simp: codec_simps dest: sig_res_suffix)

interpretation path_notify_info:
  byte_codec path_notify_info_encode path_notify_info_decode wf_path_notify_info
  by unfold_locales (auto simp: codec_simps dest: path_notify_info_suffix)

section \<open>Round trip of the Bloom filter encoding\<close>

lemma bit_flag_mask: "m < 8 \<Longrightarrow> bit (drop_bit m 0x80 :: u8) n \<longleftrightarrow> n + m = 7"
  by (simp only: bit_drop_bit_eq comp_def bit_0x80) auto

lemma flag_mask_nonzero: "m < 8 \<Longrightarrow> (b AND drop_bit m 0x80 \<noteq> 0) \<longleftrightarrow> bit b (7 - m)" for b :: u8
proof -
  assume m: "m < 8"
  have mask: "bit (b AND drop_bit m 0x80) n \<longleftrightarrow> n = 7 - m \<and> bit b (7 - m)" for n
  proof -
    have "n + m = 7 \<longleftrightarrow> n = 7 - m" using m by auto
    then show ?thesis by (auto simp: bit_and_iff bit_flag_mask [OF m])
  qed
  show ?thesis
  proof
    have "b AND drop_bit m 0x80 = 0" if "\<not> bit b (7 - m)"
      by (rule bit_word_eqI) (simp only: mask that bit_0_eq bot_apply bot_bool_def simp_thms)
    then show "b AND drop_bit m 0x80 \<noteq> 0 \<Longrightarrow> bit b (7 - m)" by blast
  next
    assume "bit b (7 - m)"
    then have "bit (b AND drop_bit m 0x80) (7 - m)" by (simp only: mask)
    then show "b AND drop_bit m 0x80 \<noteq> 0" by (metis bit_0_eq bot_apply bot_bool_def)
  qed
qed

lemma flag_at_iff: "flag_at flags idx \<longleftrightarrow> bit (flags ! (idx div 8)) (7 - idx mod 8)"
  by (simp add: flag_at_def flag_mask_nonzero)

lemma flag_at_set_flag:
  "length flags = BLOOM_FILTER_FLAGS \<Longrightarrow> i < BLOOM_FILTER_U64S \<Longrightarrow>
   flag_at (set_flag flags i) j \<longleftrightarrow> j = i \<or> flag_at flags j"
proof -
  assume l: "length flags = BLOOM_FILTER_FLAGS" and i: "i < BLOOM_FILTER_U64S"
  have "i div 8 < length flags"
    using l i by (auto simp: BLOOM_FILTER_FLAGS_def BLOOM_FILTER_U64S_def)
  moreover have "j = i" if "j div 8 = i div 8" "7 - j mod 8 + i mod 8 = 7"
    using that mod_less_divisor [of 8 i] mod_less_divisor [of 8 j] div_mult_mod_eq [of i 8] div_mult_mod_eq [of j 8]
    by linarith
  moreover have "7 - i mod 8 + i mod 8 = 7"
    using mod_less_divisor [of 8 i] by linarith
  ultimately show ?thesis
    by (auto simp: flag_at_iff set_flag_def nth_list_update bit_or_iff bit_flag_mask)
qed

lemma length_set_flag [simp]: "length (set_flag flags i) = length flags"
  by (simp add: set_flag_def)

definition stored :: "u64 \<Rightarrow> bool" where
  "stored u \<longleftrightarrow> u \<noteq> 0 \<and> u \<noteq> u64_max"

lemma encode_bloom_loop_spec:
  assumes "encode_bloom_loop idx data f0 f1 keep = (g0, g1, kept)"
    and "length f0 = BLOOM_FILTER_FLAGS" "length f1 = BLOOM_FILTER_FLAGS"
    and "idx + length data \<le> BLOOM_FILTER_U64S"
  shows "length g0 = BLOOM_FILTER_FLAGS \<and> length g1 = BLOOM_FILTER_FLAGS \<and>
    kept = keep @ filter stored data \<and>
    (\<forall>j. flag_at g0 j \<longleftrightarrow> flag_at f0 j \<or> (idx \<le> j \<and> j < idx + length data \<and> data ! (j - idx) = 0)) \<and>
    (\<forall>j. flag_at g1 j \<longleftrightarrow> flag_at f1 j \<or> (idx \<le> j \<and> j < idx + length data \<and> data ! (j - idx) = u64_max))"
  using assms
proof (induction data arbitrary: idx f0 f1 keep)
  case Nil
  then show ?case by auto
next
  case (Cons u data)
  have idx: "idx < BLOOM_FILTER_U64S" using Cons.prems(4) by simp
  have step: "(idx \<le> j \<and> j < idx + length (u # data) \<and> (u # data) ! (j - idx) = x) \<longleftrightarrow>
      (j = idx \<and> u = x) \<or> (idx + 1 \<le> j \<and> j < idx + 1 + length data \<and> data ! (j - (idx + 1)) = x)" for j x
    by (cases "j = idx") (auto simp: nth_Cons')
  consider "u = 0" | "u = u64_max" "u \<noteq> 0" | "stored u" by (auto simp: stored_def)
  then show ?case
  proof cases
    case 1
    with Cons.prems have "encode_bloom_loop (idx + 1) data (set_flag f0 idx) f1 keep = (g0, g1, kept)" by simp
    from Cons.IH [OF this] Cons.prems 1 show ?thesis
      unfolding step by (auto simp: flag_at_set_flag idx stored_def)
  next
    case 2
    with Cons.prems have "encode_bloom_loop (idx + 1) data f0 (set_flag f1 idx) keep = (g0, g1, kept)" by simp
    from Cons.IH [OF this] Cons.prems 2 show ?thesis
      unfolding step by (auto simp: flag_at_set_flag idx stored_def)
  next
    case 3
    with Cons.prems have "encode_bloom_loop (idx + 1) data f0 f1 (keep @ [u]) = (g0, g1, kept)"
      by (simp add: stored_def)
    from Cons.IH [OF this] Cons.prems 3 show ?thesis
      unfolding step by (auto simp: stored_def)
  qed
qed

lemma decode_bloom_loop_spec:
  assumes "\<And>j. j < length data \<Longrightarrow> flag_at f0 j \<longleftrightarrow> data ! j = 0"
    and "\<And>j. j < length data \<Longrightarrow> flag_at f1 j \<longleftrightarrow> data ! j = u64_max"
    and "n \<le> length data" "length result = length data"
  shows "decode_bloom_loop f0 f1 [n..<length data] result
       (concat (map (be_bytes 8) (filter stored (drop n data))) @ rest)
     = Inr (take n result @ drop n data, rest)"
  using assms(3,4)
proof (induction "length data - n" arbitrary: n result)
  case 0
  then show ?case by simp
next
  case (Suc k)
  then have n: "n < length data" by simp
  have IH: "decode_bloom_loop f0 f1 [Suc n..<length data] (result[n := data ! n])
       (concat (map (be_bytes 8) (filter stored (drop (Suc n) data))) @ rest)
     = Inr (take n result @ drop n data, rest)"
  proof -
    have "take (Suc n) (result[n := data ! n]) = take n result @ [data ! n]"
      using n Suc.prems by (simp add: take_Suc_conv_app_nth)
    then show ?thesis
      using Suc.hyps(1) [of "Suc n" "result[n := data ! n]"] Suc.hyps(2) Suc.prems n
      by (simp add: Cons_nth_drop_Suc [OF n, symmetric])
  qed
  show ?case
    using IH n Suc.prems
    by (cases "data ! n = 0"; cases "data ! n = u64_max")
      (simp_all add: upt_conv_Cons Cons_nth_drop_Suc [OF n, symmetric] assms(1,2) stored_def read_fixed_append Let_def)
qed

lemma decode_encode_bloom:
  assumes "length data = BLOOM_FILTER_U64S"
  shows "decode_bloom (encode_bloom data) = Inr data"
proof -
  let ?z = "replicate BLOOM_FILTER_FLAGS 0 :: bytes"
  obtain g0 g1 kept where e: "encode_bloom_loop 0 data ?z ?z [] = (g0, g1, kept)"
    by (metis prod_cases3)
  have z: "\<not> flag_at ?z j" if "j < length data" for j
    using that assms by (simp add: flag_at_iff BLOOM_FILTER_FLAGS_def BLOOM_FILTER_U64S_def)
  have "length g0 = BLOOM_FILTER_FLAGS" "length g1 = BLOOM_FILTER_FLAGS" "kept = filter stored data"
    "\<And>j. j < length data \<Longrightarrow> flag_at g0 j \<longleftrightarrow> data ! j = 0"
    "\<And>j. j < length data \<Longrightarrow> flag_at g1 j \<longleftrightarrow> data ! j = u64_max"
    using encode_bloom_loop_spec [OF e] assms z by auto
  then show ?thesis
    using decode_bloom_loop_spec [of data g0 g1 0 "replicate BLOOM_FILTER_U64S 0" "[]"] assms e
    by (simp add: decode_bloom_def encode_bloom_def read_fixed_append)
qed

lemma length_encode_bloom:
  assumes "length data = BLOOM_FILTER_U64S"
  shows "length (encode_bloom data) = bloom_wire_size data"
proof -
  let ?z = "replicate BLOOM_FILTER_FLAGS 0 :: bytes"
  obtain g0 g1 kept where e: "encode_bloom_loop 0 data ?z ?z [] = (g0, g1, kept)"
    by (metis prod_cases3)
  have "foldl (\<lambda>sz u. if u \<noteq> 0 \<and> u \<noteq> u64_max then sz + 8 else sz) n xs = n + 8 * length (filter stored xs)"
    for n :: nat and xs
    by (induction xs arbitrary: n) (auto simp: stored_def)
  moreover have "length (concat (map (be_bytes 8) xs)) = 8 * length xs" for xs :: "u64 list"
    by (induction xs) auto
  ultimately show ?thesis
    using encode_bloom_loop_spec [OF e] assms
    by (simp add: encode_bloom_def bloom_wire_size_def e)
qed

lemma decode_bloom_loop_length:
  "decode_bloom_loop f0 f1 is result r = Inr (res, r') \<Longrightarrow> length res = length result"
  by (induction f0 f1 "is" result r rule: decode_bloom_loop.induct)
    (auto simp: Let_def and_then_Inr_iff split: if_splits)


section \<open>Frames of traffic\<close>

lemma length_traffic_encode:
  "wf_traffic m \<Longrightarrow> length (traffic_encode m) = traffic_size m"
  by (simp add: traffic_encode_def traffic_size_def length_encode_path length_encode_uvarint wf_defs)

lemma read_key_wf: "read_public_key bs = Inr (k, rest) \<Longrightarrow> wf_key k"
  by (auto simp: read_public_key_def read_fixed_def split: if_splits)

lemma traffic_dec_enc: "wf_traffic m \<Longrightarrow> traffic_decode (traffic_encode m) = Inr m"
  by (simp add: traffic_decode_def traffic_encode_def codec_laws wf_defs)

lemma traffic_decode_wf: "traffic_decode bs = Inr m \<Longrightarrow> wf_traffic m"
  by (auto simp: traffic_decode_def and_then_Inr_iff wf_defs dest: read_path_nonzero read_key_wf)

section \<open>Properties\<close>

text \<open>An unsigned integer written by \<open>encode_uvarint\<close> is read back by \<open>decode_uvarint\<close>, whatever
  follows it; the reader reports the size that \<open>uvarint_size\<close> computes; and no integer takes
  more than ten bytes.\<close>

theorem uvarint_roundtrip:
  "decode_uvarint (encode_uvarint v @ rest) = Some (v, uvarint_size v) \<and> uvarint_size v \<le> 10"
proof -
  have "unat v < 2 ^ (7 * 10)" by (rule less_trans [OF unsigned_less]) simp
  then show ?thesis
    using length_encode_uvarint_le [of v 10]
    by (simp add: decode_encode_uvarint length_encode_uvarint)
qed

text \<open>A tree announcement survives the wire, and the reader of announcements accepts no other
  encoding that extends it: bytes after the signature are an error.\<close>

theorem announce_roundtrip:
  "wf_announce m \<Longrightarrow> announce_decode (announce_encode m) = Inr m \<and>
     (rest \<noteq> [] \<longrightarrow> announce_decode (announce_encode m @ rest) = Inl Decode)"
  using sign.dec_enc_all [of "ann_sig m"]
  by (simp add: announce_decode_def announce_encode_def codec_laws codec_simps wf_defs)

text \<open>The messages of path discovery survive the wire: lookups, notifications with their
  signed part, and reports of a broken path.\<close>

theorem path_messages_roundtrip:
  "(wf_path_lookup l \<longrightarrow> path_lookup_decode (path_lookup_encode l) = Inr l) \<and>
   (wf_path_notify n \<longrightarrow> path_notify_decode (path_notify_encode n) = Inr n) \<and>
   (wf_path_broken b \<longrightarrow> path_broken_decode (path_broken_encode b) = Inr b)"
  using path.dec_enc_all [of "lookup_from l"] path_notify_info.dec_enc_all [of "notify_info n"]
    key.dec_enc_all [of "broken_dest b"]
  by (simp add: path_lookup_decode_def path_lookup_encode_def path_notify_decode_def
      path_notify_encode_def path_broken_decode_def path_broken_encode_def codec_laws wf_defs)

text \<open>What the traffic reader accepts is a well-formed packet, and such a packet survives being
  written and read again, in the number of bytes that \<open>size\<close> announces.\<close>

theorem traffic_roundtrip:
  "traffic_decode bs = Inr m \<Longrightarrow>
     wf_traffic m \<and> traffic_decode (traffic_encode m) = Inr m \<and>
     length (traffic_encode m) = traffic_size m"
  by (simp add: traffic_decode_wf traffic_dec_enc length_traffic_encode)

theorem traffic_roundtrip_witness:
  "wf_traffic \<lparr>tr_path = [1, 2], tr_from = [7], tr_source = replicate 32 1, tr_dest = replicate 32 2,
      tr_watermark = 900, tr_payload = [1, 2, 3]\<rparr>"
  using traffic_roundtrip
    [OF traffic_dec_enc [of "\<lparr>tr_path = [1, 2], tr_from = [7], tr_source = replicate 32 1,
      tr_dest = replicate 32 2, tr_watermark = 900, tr_payload = [1, 2, 3]\<rparr>"]]
  by (simp add: wf_defs PUBLIC_KEY_SIZE_def)

text \<open>C40. The compressed form of a Bloom filter of 128 words is read back exactly, and its length
  is the one \<open>bloom_wire_size\<close> computes.\<close>

theorem bloom_wire_roundtrip:
  "length ws = BLOOM_FILTER_U64S \<Longrightarrow>
     decode_bloom (encode_bloom ws) = Inr ws \<and> length (encode_bloom ws) = bloom_wire_size ws"
  by (simp add: decode_encode_bloom length_encode_bloom)

theorem bloom_wire_roundtrip_witness:
  "decode_bloom (encode_bloom (5 # u64_max # replicate 126 0)) = Inr (5 # u64_max # replicate 126 0)"
  using bloom_wire_roundtrip [of "5 # u64_max # replicate 126 0"]
  by (simp add: BLOOM_FILTER_U64S_def)

text \<open>The frame writer for traffic that avoids the intermediate buffer writes the bytes that the
  generic frame writer writes for the encoded packet, so its precomputed length prefix is the
  length of what follows.\<close>

theorem encode_traffic_frame_eq:
  "wf_traffic m \<Longrightarrow>
     encode_traffic_frame (tr_path m) (tr_from m) (tr_source m) (tr_dest m) (tr_watermark m)
       (tr_payload m) = encode_frame Traffic (traffic_encode m)"
  by (simp add: encode_traffic_frame_def encode_frame_def Let_def traffic_encode_def wf_defs
      length_encode_path length_encode_uvarint algebra_simps)

end
