(* ===== verification/Router_Tree.thy ===== *)
theory Router_Tree
  imports Wire
begin

text \<open>
  The tree state of \<open>crates/ironwood/src/router.rs\<close>: stored infos and announcements, the rule by
  which a newer announcement replaces an older one, and the walks along parent links
  (\<open>get_root_and_dists\<close>, \<open>get_root_and_path\<close>, \<open>backwards_ancestry\<close>) with the relation they
  compute. The walks read the map \<open>infos\<close> of the router and nothing else. Signature verification
  is a parameter.
\<close>

section \<open>Infos and announcements\<close>

record router_info =
  ri_parent :: public_key
  ri_seq :: u64
  ri_nonce :: u64
  ri_port :: peer_port
  ri_psig :: signature
  ri_sig :: signature

record router_announce =
  ra_key :: public_key
  ra_parent :: public_key
  ra_seq :: u64
  ra_nonce :: u64
  ra_port :: peer_port
  ra_psig :: signature
  ra_sig :: signature

type_synonym infos = "(public_key, router_info) hmap"
type_synonym verifier = "public_key \<Rightarrow> bytes \<Rightarrow> signature \<Rightarrow> bool"

definition get_announce :: "router_info \<Rightarrow> public_key \<Rightarrow> router_announce" where
  "get_announce info key =
     \<lparr>ra_key = key, ra_parent = ri_parent info, ra_seq = ri_seq info, ra_nonce = ri_nonce info,
      ra_port = ri_port info, ra_psig = ri_psig info, ra_sig = ri_sig info\<rparr>"

definition bytes_for_sig :: "router_announce \<Rightarrow> bytes" where
  "bytes_for_sig ann =
     ra_key ann @ ra_parent ann @ encode_uvarint (ra_seq ann) @ encode_uvarint (ra_nonce ann) @
     encode_uvarint (ra_port ann)"

definition check_announce :: "verifier \<Rightarrow> router_announce \<Rightarrow> bool" where
  "check_announce verify ann =
     (if ra_port ann = 0 \<and> ra_key ann \<noteq> ra_parent ann then False
      else let bs = bytes_for_sig ann
           in verify (ra_key ann) bs (ra_sig ann) \<and> verify (ra_parent ann) bs (ra_psig ann))"

definition to_wire :: "router_announce \<Rightarrow> announce" where
  "to_wire ann =
     \<lparr>ann_key = ra_key ann, ann_parent = ra_parent ann,
      ann_sig_res = \<lparr>res_seq = ra_seq ann, res_nonce = ra_nonce ann, res_port = ra_port ann,
                     res_psig = ra_psig ann\<rparr>,
      ann_sig = ra_sig ann\<rparr>"

definition from_wire :: "announce \<Rightarrow> router_announce" where
  "from_wire ann =
     \<lparr>ra_key = ann_key ann, ra_parent = ann_parent ann, ra_seq = res_seq (ann_sig_res ann),
      ra_nonce = res_nonce (ann_sig_res ann), ra_port = res_port (ann_sig_res ann),
      ra_psig = res_psig (ann_sig_res ann), ra_sig = ann_sig ann\<rparr>"

definition info_of :: "router_announce \<Rightarrow> router_info" where
  "info_of ann =
     \<lparr>ri_parent = ra_parent ann, ri_seq = ra_seq ann, ri_nonce = ra_nonce ann, ri_port = ra_port ann,
      ri_psig = ra_psig ann, ri_sig = ra_sig ann\<rparr>"

definition sig_res_bytes_for_sig ::
  "public_key \<Rightarrow> public_key \<Rightarrow> u64 \<Rightarrow> u64 \<Rightarrow> peer_port \<Rightarrow> bytes" where
  "sig_res_bytes_for_sig node parent seq nonce port =
     node @ parent @ encode_uvarint seq @ encode_uvarint nonce @ encode_uvarint port"

definition check_sig_res :: "verifier \<Rightarrow> sig_res \<Rightarrow> public_key \<Rightarrow> public_key \<Rightarrow> bool" where
  "check_sig_res verify res node parent =
     (if res_port res = 0 \<and> node \<noteq> parent then False
      else let bs = sig_res_bytes_for_sig node parent (res_seq res) (res_nonce res) (res_port res)
           in verify parent bs (res_psig res))"

section \<open>Which announcement wins\<close>

definition update_accepts :: "infos \<Rightarrow> router_announce \<Rightarrow> bool" where
  "update_accepts infos ann =
     (case hm_get infos (ra_key ann) of
        Some info \<Rightarrow>
          if ri_seq info > ra_seq ann then False
          else if ri_seq info < ra_seq ann then True
          else if ri_parent info < ra_parent ann then False
          else if ra_parent ann < ri_parent info then True
          else if ra_nonce ann < ri_nonce info then True
          else False
      | None \<Rightarrow> True)"

section \<open>Walks along the parent links\<close>

lemma walk_measure:
  "hm_get infos k = Some info \<Longrightarrow> k \<notin> V \<Longrightarrow>
   card (set (hm_keys infos) - insert k V) < card (set (hm_keys infos) - V)"
proof -
  assume "hm_get infos k = Some info" "k \<notin> V"
  then have "k \<in> set (hm_keys infos) - V"
    by (force dest: map_of_SomeD)
  then have "set (hm_keys infos) - insert k V \<subset> set (hm_keys infos) - V" by blast
  then show ?thesis by (intro psubset_card_mono) simp_all
qed

function root_and_dists_loop ::
  "infos \<Rightarrow> (public_key, u64) hmap \<Rightarrow> public_key \<Rightarrow> u64 \<Rightarrow> public_key \<times> (public_key, u64) hmap \<times> bool" where
  "root_and_dists_loop infos dists nxt dist =
     (if hm_contains dists nxt then (replicate PUBLIC_KEY_SIZE 0, dists, False)
      else case hm_get infos nxt of
             None \<Rightarrow> (replicate PUBLIC_KEY_SIZE 0, dists, False)
           | Some info \<Rightarrow>
               let dists = hm_insert nxt dist dists
               in if ri_parent info = nxt then (nxt, dists, True)
                  else root_and_dists_loop infos dists (ri_parent info) (dist + 1))"
  by pat_completeness auto
termination
  by (relation "measure (\<lambda>(infos, dists, nxt, dist). card (set (hm_keys infos) - set (hm_keys dists)))")
    (auto simp: hm_contains_iff simp del: set_map intro!: walk_measure)

definition get_root_and_dists :: "infos \<Rightarrow> public_key \<Rightarrow> public_key \<times> (public_key, u64) hmap \<times> bool" where
  "get_root_and_dists infos dest = root_and_dists_loop infos [] dest 0"

text \<open>The sets of visited nodes and the ancestry are lists without repetition. The walk to the root
  returns \<open>None\<close> where the code returns early with the destination as its own root.\<close>

function root_and_path_loop ::
  "infos \<Rightarrow> public_key list \<Rightarrow> peer_port list \<Rightarrow> public_key \<Rightarrow> (public_key \<times> peer_port list) option" where
  "root_and_path_loop infos visited ports nxt =
     (if nxt \<in> set visited then None
      else case hm_get infos nxt of
             None \<Rightarrow> None
           | Some info \<Rightarrow>
               if nxt = ri_parent info then Some (nxt, rev ports)
               else root_and_path_loop infos (nxt # visited) (ports @ [ri_port info]) (ri_parent info))"
  by pat_completeness auto
termination
  by (relation "measure (\<lambda>(infos, visited, ports, nxt). card (set (hm_keys infos) - set visited))")
    (auto simp del: set_map intro!: walk_measure)

definition get_root_and_path :: "infos \<Rightarrow> public_key \<Rightarrow> public_key \<times> peer_port list" where
  "get_root_and_path infos dest =
     (case root_and_path_loop infos [] [] dest of Some rp \<Rightarrow> rp | None \<Rightarrow> (dest, []))"

function backwards_ancestry_loop :: "infos \<Rightarrow> public_key list \<Rightarrow> public_key \<Rightarrow> public_key list" where
  "backwards_ancestry_loop infos anc here =
     (if here \<in> set anc then anc
      else case hm_get infos here of
             Some info \<Rightarrow> backwards_ancestry_loop infos (anc @ [here]) (ri_parent info)
           | None \<Rightarrow> anc)"
  by pat_completeness auto
termination
  by (relation "measure (\<lambda>(infos, anc, here). card (set (hm_keys infos) - set anc))")
    (auto simp del: set_map intro!: walk_measure)

declare root_and_dists_loop.simps [simp del] root_and_path_loop.simps [simp del]
  backwards_ancestry_loop.simps [simp del]

definition backwards_ancestry :: "infos \<Rightarrow> public_key \<Rightarrow> public_key list" where
  "backwards_ancestry infos key = backwards_ancestry_loop infos [] key"

definition get_ancestry :: "infos \<Rightarrow> public_key \<Rightarrow> public_key list" where
  "get_ancestry infos key = rev (backwards_ancestry infos key)"

section \<open>The tree relation\<close>

text \<open>\<open>tree_walk infos k ks r ports\<close>: the parent links lead from \<open>k\<close> through the nodes \<open>ks\<close> to a
  node \<open>r\<close> that is its own parent, and \<open>ports\<close> are the ports on the way back, from \<open>r\<close> down
  to \<open>k\<close>: the coordinates of \<open>k\<close>.\<close>

inductive tree_walk ::
  "infos \<Rightarrow> public_key \<Rightarrow> public_key list \<Rightarrow> public_key \<Rightarrow> peer_port list \<Rightarrow> bool" for infos where
  tw_root: "hm_get infos r = Some info \<Longrightarrow> ri_parent info = r \<Longrightarrow> tree_walk infos r [r] r []"
| tw_child: "hm_get infos k = Some info \<Longrightarrow> ri_parent info \<noteq> k \<Longrightarrow>
    tree_walk infos (ri_parent info) ks r ports \<Longrightarrow>
    tree_walk infos k (k # ks) r (ports @ [ri_port info])"

inductive_cases tree_walkE: "tree_walk infos k ks r ports"

definition tree_path :: "infos \<Rightarrow> public_key \<Rightarrow> public_key \<Rightarrow> peer_port list \<Rightarrow> bool" where
  "tree_path infos k r ports \<longleftrightarrow> (\<exists>ks. tree_walk infos k ks r ports)"

lemma tree_walk_deterministic:
  "tree_walk infos k ks r ports \<Longrightarrow> tree_walk infos k ks' r' ports' \<Longrightarrow>
   ks' = ks \<and> r' = r \<and> ports' = ports"
proof (induction arbitrary: ks' r' ports' rule: tree_walk.induct)
  case (tw_root r info)
  then show ?case by (auto elim: tree_walkE)
next
  case (tw_child k info ks r ports)
  from tw_child.prems tw_child.hyps show ?case
    by (cases rule: tree_walk.cases) (auto dest: tw_child.IH)
qed

lemma tree_walk_suffix:
  "tree_walk infos k ks r ports \<Longrightarrow> a \<in> set ks \<Longrightarrow>
   \<exists>pre ks' ports' post. ks = pre @ ks' \<and> ports = ports' @ post \<and> length post = length pre \<and>
     tree_walk infos a ks' r ports'"
proof (induction rule: tree_walk.induct)
  case (tw_root r info)
  then show ?case by (intro exI [of _ "[]"] exI [of _ "[r]"]) (auto intro: tree_walk.intros)
next
  case (tw_child k info ks r ports)
  show ?case
  proof (cases "a = k")
    case True
    then show ?thesis
      using tw_child.hyps
      by (intro exI [of _ "[]"] exI [of _ "k # ks"] exI [of _ "ports @ [ri_port info]"])
        (auto intro: tree_walk.intros)
  next
    case False
    with tw_child.IH tw_child.prems obtain pre ks' ports' post where
      "ks = pre @ ks'" "ports = ports' @ post" "length post = length pre" "tree_walk infos a ks' r ports'"
      by auto
    then show ?thesis
      by (intro exI [of _ "k # pre"] exI [of _ ks'] exI [of _ ports'] exI [of _ "post @ [ri_port info]"]) auto
  qed
qed

lemma tree_walk_head: "tree_walk infos k ks r ports \<Longrightarrow> ks \<noteq> [] \<and> hd ks = k \<and> last ks = r"
  by (induction rule: tree_walk.induct) auto

lemma tree_walk_length: "tree_walk infos k ks r ports \<Longrightarrow> length ks = length ports + 1"
  by (induction rule: tree_walk.induct) auto

lemma tree_walk_distinct: "tree_walk infos k ks r ports \<Longrightarrow> distinct ks"
proof (induction rule: tree_walk.induct)
  case (tw_root r info)
  then show ?case by simp
next
  case (tw_child k info ks r ports)
  have "k \<notin> set ks"
  proof
    assume "k \<in> set ks"
    then obtain pre ks' ports' where "ks = pre @ ks'" "tree_walk infos k ks' r ports'"
      using tree_walk_suffix [OF tw_child.hyps(3)] by blast
    moreover have "tree_walk infos k (k # ks) r (ports @ [ri_port info])"
      using tw_child.hyps by (auto intro: tree_walk.intros)
    ultimately show False
      using tree_walk_deterministic [of infos k "k # ks" r "ports @ [ri_port info]" ks' r ports'] by auto
  qed
  then show ?case using tw_child.IH by simp
qed

lemma tree_walk_root_info:
  "tree_walk infos k ks r ports \<Longrightarrow> \<exists>info. hm_get infos r = Some info \<and> ri_parent info = r"
  by (induction rule: tree_walk.induct) auto

section \<open>The walks compute the relation\<close>

lemma root_and_path_loop_walk:
  "tree_walk infos k ks r ps \<Longrightarrow> set ks \<inter> set visited = {} \<Longrightarrow>
   root_and_path_loop infos visited ports k = Some (r, ps @ rev ports)"
proof (induction arbitrary: visited ports rule: tree_walk.induct)
  case (tw_root r info)
  then show ?case by (subst root_and_path_loop.simps) simp
next
  case (tw_child k info ks r ps)
  have "k \<notin> set ks"
    using tree_walk_distinct [OF tree_walk.tw_child [OF tw_child.hyps]] by simp
  then have "root_and_path_loop infos (k # visited) (ports @ [ri_port info]) (ri_parent info) =
      Some (r, ps @ rev (ports @ [ri_port info]))"
    using tw_child.prems by (intro tw_child.IH) auto
  then show ?case
    using tw_child.hyps tw_child.prems by (subst root_and_path_loop.simps) auto
qed

lemma root_and_path_loop_sound:
  "root_and_path_loop infos visited ports k = Some (r, ps) \<Longrightarrow>
   \<exists>ks qs. tree_walk infos k ks r qs \<and> ps = qs @ rev ports"
proof (induction infos visited ports k rule: root_and_path_loop.induct)
  case (1 infos visited ports nxt)
  from "1.prems" obtain info where i: "nxt \<notin> set visited" "hm_get infos nxt = Some info"
    by (subst (asm) root_and_path_loop.simps) (auto split: if_splits option.splits)
  show ?case
  proof (cases "nxt = ri_parent info")
    case True
    then show ?thesis
      using "1.prems" i by (subst (asm) root_and_path_loop.simps) (auto intro: tree_walk.intros)
  next
    case False
    then have "root_and_path_loop infos (nxt # visited) (ports @ [ri_port info]) (ri_parent info) = Some (r, ps)"
      using "1.prems" i by (subst (asm) root_and_path_loop.simps) auto
    from "1.IH" [OF i False this] obtain ks qs where
      "tree_walk infos (ri_parent info) ks r qs" "ps = qs @ rev (ports @ [ri_port info])" by blast
    then show ?thesis
      using i False by (intro exI [of _ "nxt # ks"] exI [of _ "qs @ [ri_port info]"])
        (auto intro: tree_walk.intros)
  qed
qed

lemma get_root_and_path_walk: "tree_path infos k r ps \<Longrightarrow> get_root_and_path infos k = (r, ps)"
  by (auto simp: tree_path_def get_root_and_path_def root_and_path_loop_walk)

lemma get_root_and_path_none: "\<nexists>r ps. tree_path infos k r ps \<Longrightarrow> get_root_and_path infos k = (k, [])"
  by (auto simp: tree_path_def get_root_and_path_def split: option.splits dest: root_and_path_loop_sound)

lemma root_and_dists_loop_walk:
  "tree_walk infos k ks r ps \<Longrightarrow> set ks \<inter> set (hm_keys dists) = {} \<Longrightarrow>
   \<exists>dists'. root_and_dists_loop infos dists k d = (r, dists', True) \<and>
     (\<forall>i<length ks. hm_get dists' (ks ! i) = Some (d + of_nat i)) \<and>
     (\<forall>x. x \<notin> set ks \<longrightarrow> hm_get dists' x = hm_get dists x)"
proof (induction arbitrary: dists d rule: tree_walk.induct)
  case (tw_root r info)
  then show ?case by (subst root_and_dists_loop.simps) (auto simp: hm_contains_iff Let_def)
next
  case (tw_child k info ks r ps)
  have k: "k \<notin> set ks"
    using tree_walk_distinct [OF tree_walk.tw_child [OF tw_child.hyps]] by simp
  then have "set ks \<inter> set (hm_keys (hm_insert k d dists)) = {}"
    using tw_child.prems by auto
  from tw_child.IH [OF this, of "d + 1"] obtain dists' where d:
    "root_and_dists_loop infos (hm_insert k d dists) (ri_parent info) (d + 1) = (r, dists', True)"
    "\<forall>i<length ks. hm_get dists' (ks ! i) = Some (d + 1 + of_nat i)"
    "\<forall>x. x \<notin> set ks \<longrightarrow> hm_get dists' x = hm_get (hm_insert k d dists) x" by blast
  have "hm_get dists' ((k # ks) ! i) = Some (d + of_nat i)" if "i < length (k # ks)" for i
    using that d k by (cases i) (auto simp: algebra_simps)
  then show ?case
    using d tw_child.hyps tw_child.prems
    by (subst root_and_dists_loop.simps) (auto simp: hm_contains_iff Let_def)
qed

lemma root_and_dists_loop_sound:
  "root_and_dists_loop infos dists k d = (r, dists', True) \<Longrightarrow> \<exists>ks ps. tree_walk infos k ks r ps"
proof (induction infos dists k d rule: root_and_dists_loop.induct)
  case (1 infos dists nxt dist)
  from "1.prems" obtain info where i: "\<not> hm_contains dists nxt" "hm_get infos nxt = Some info"
    by (subst (asm) root_and_dists_loop.simps) (auto split: if_splits option.splits)
  show ?case
  proof (cases "ri_parent info = nxt")
    case True
    then show ?thesis
      using "1.prems" i by (subst (asm) root_and_dists_loop.simps) (auto intro: tree_walk.intros)
  next
    case False
    then have "root_and_dists_loop infos (hm_insert nxt dist dists) (ri_parent info) (dist + 1) = (r, dists', True)"
      using "1.prems" i by (subst (asm) root_and_dists_loop.simps) auto
    from "1.IH" [OF i refl False this] obtain ks ps where "tree_walk infos (ri_parent info) ks r ps" by blast
    then show ?thesis using i False by (blast intro: tree_walk.intros)
  qed
qed

lemma backwards_ancestry_loop_walk:
  "tree_walk infos k ks r ps \<Longrightarrow> set ks \<inter> set anc = {} \<Longrightarrow>
   backwards_ancestry_loop infos anc k = anc @ ks"
proof (induction arbitrary: anc rule: tree_walk.induct)
  case (tw_root r info)
  have "backwards_ancestry_loop infos (anc @ [r]) r = anc @ [r]"
    by (subst backwards_ancestry_loop.simps) simp
  then show ?case using tw_root by (subst backwards_ancestry_loop.simps) simp
next
  case (tw_child k info ks r ps)
  have "k \<notin> set ks"
    using tree_walk_distinct [OF tree_walk.tw_child [OF tw_child.hyps]] by simp
  then have "backwards_ancestry_loop infos (anc @ [k]) (ri_parent info) = (anc @ [k]) @ ks"
    using tw_child.prems by (intro tw_child.IH) auto
  then show ?case
    using tw_child.hyps tw_child.prems by (subst backwards_ancestry_loop.simps) auto
qed

section \<open>Last-writer-wins registers\<close>

text \<open>The contract behind the gossip: a strict order \<open>newer\<close> in which two incomparable values are
  indistinguishable to the protocol. Keeping the newest value seen is then insensitive to the
  order and to the repetition of what arrives.\<close>

fun keep_newer :: "('a \<Rightarrow> 'a \<Rightarrow> bool) \<Rightarrow> 'a \<Rightarrow> 'a option \<Rightarrow> 'a option" where
  "keep_newer newer x None = Some x"
| "keep_newer newer x (Some y) = (if newer x y then Some x else Some y)"

locale lww_register =
  fixes newer :: "'a \<Rightarrow> 'a \<Rightarrow> bool"
    and same :: "'a \<Rightarrow> 'a \<Rightarrow> bool"
  assumes newer_asym: "newer x y \<Longrightarrow> \<not> newer y x"
    and newer_trans: "newer x y \<Longrightarrow> newer y z \<Longrightarrow> newer x z"
    and incomparable_same: "\<not> newer x y \<Longrightarrow> \<not> newer y x \<Longrightarrow> same x y"
    and same_newer: "same x y \<Longrightarrow> newer x z \<longleftrightarrow> newer y z"
begin

lemma newest_among:
  "\<exists>z. fold (keep_newer newer) xs (Some y) = Some z \<and> z \<in> insert y (set xs) \<and>
     (\<forall>x\<in>insert y (set xs). \<not> newer x z)"
proof (induction xs arbitrary: y)
  case Nil
  then show ?case using newer_asym by auto
next
  case (Cons x xs)
  let ?m = "if newer x y then x else y"
  obtain z where z: "fold (keep_newer newer) xs (Some ?m) = Some z" "z \<in> insert ?m (set xs)"
    "\<forall>x'\<in>insert ?m (set xs). \<not> newer x' z"
    using Cons.IH [of ?m] by blast
  have "\<not> newer x z \<and> \<not> newer y z"
  proof (cases "newer x y")
    case True
    then show ?thesis using z(3) newer_trans [of x y z] by auto
  next
    case False
    then have "newer x z \<Longrightarrow> newer y z"
      using newer_asym [of x y] incomparable_same [of x y] same_newer [of x y z] newer_trans [of y x z] by blast
    then show ?thesis using z(3) False by auto
  qed
  then have "\<forall>x'\<in>insert y (set (x # xs)). \<not> newer x' z" using z(3) by auto
  moreover have "z \<in> insert y (set (x # xs))" using z(2) by (auto split: if_splits)
  ultimately show ?case using z(1) by auto
qed

lemma newest_of_all:
  "fold (keep_newer newer) xs m = Some z \<Longrightarrow>
   z \<in> set_option m \<union> set xs \<and> (\<forall>x\<in>set_option m \<union> set xs. \<not> newer x z)"
proof (cases m)
  case (Some y)
  then show "fold (keep_newer newer) xs m = Some z \<Longrightarrow> ?thesis" using newest_among [of xs y] by auto
next
  case None
  assume f: "fold (keep_newer newer) xs m = Some z"
  with None obtain x xs' where "xs = x # xs'" by (cases xs) auto
  then show ?thesis using f None newest_among [of xs' x] by auto
qed

lemma order_insensitive:
  assumes "set xs = set ys" "fold (keep_newer newer) xs m = Some a" "fold (keep_newer newer) ys m = Some b"
  shows "same a b"
  using newest_of_all [OF assms(2)] newest_of_all [OF assms(3)] assms(1) incomparable_same by auto

lemma fold_defined: "fold (keep_newer newer) xs m = None \<longleftrightarrow> m = None \<and> xs = []"
proof (induction xs arbitrary: m)
  case (Cons x xs)
  have "keep_newer newer x m \<noteq> None" by (cases m) auto
  then show ?case using Cons.IH by simp
qed simp

end

section \<open>Announcements form such a register\<close>

definition info_newer :: "router_info \<Rightarrow> router_info \<Rightarrow> bool" where
  "info_newer a b \<longleftrightarrow>
     ri_seq b < ri_seq a \<or>
     ri_seq a = ri_seq b \<and>
       (ri_parent a < ri_parent b \<or> ri_parent a = ri_parent b \<and> ri_nonce a < ri_nonce b)"

definition info_same :: "router_info \<Rightarrow> router_info \<Rightarrow> bool" where
  "info_same a b \<longleftrightarrow> ri_seq a = ri_seq b \<and> ri_parent a = ri_parent b \<and> ri_nonce a = ri_nonce b"

interpretation announcements: lww_register info_newer info_same
proof
  fix x y z :: router_info
  show "info_newer x y \<Longrightarrow> \<not> info_newer y x" by (auto simp: info_newer_def)
  show "info_newer x y \<Longrightarrow> info_newer y z \<Longrightarrow> info_newer x z" by (auto simp: info_newer_def)
  show "\<not> info_newer x y \<Longrightarrow> \<not> info_newer y x \<Longrightarrow> info_same x y"
    unfolding info_newer_def info_same_def
    by (metis linorder_cases)
  show "info_same x y \<Longrightarrow> info_newer x z = info_newer y z" by (auto simp: info_newer_def info_same_def)
qed

definition infos_update :: "router_announce \<Rightarrow> infos \<Rightarrow> infos" where
  "infos_update ann infos =
     (if update_accepts infos ann then hm_insert (ra_key ann) (info_of ann) infos else infos)"

lemma update_accepts_iff:
  "update_accepts infos ann \<longleftrightarrow>
     (case hm_get infos (ra_key ann) of None \<Rightarrow> True | Some info \<Rightarrow> info_newer (info_of ann) info)"
proof (cases "hm_get infos (ra_key ann)")
  case (Some info)
  show ?thesis
    by (rule linorder_cases [of "ri_seq info" "ra_seq ann"];
        rule linorder_cases [of "ri_parent info" "ra_parent ann"])
      (simp_all add: Some update_accepts_def info_newer_def info_of_def less_imp_not_less
        less_imp_not_eq less_imp_not_eq2)
qed (simp add: update_accepts_def)

lemma infos_update_get:
  "hm_get (infos_update ann infos) k =
     (if k = ra_key ann then keep_newer info_newer (info_of ann) (hm_get infos k) else hm_get infos k)"
  by (cases "hm_get infos k") (auto simp: infos_update_def update_accepts_iff split: option.splits)

lemma fold_infos_update_get:
  "hm_get (fold infos_update anns infos) k =
     fold (keep_newer info_newer) (map info_of (filter (\<lambda>a. ra_key a = k) anns)) (hm_get infos k)"
  by (induction anns arbitrary: infos) (auto simp: infos_update_get)

text \<open>A tree of two nodes, for concrete instances: \<open>[1]\<close> is the root and \<open>[2]\<close> its child on
  port 5.\<close>

definition sample_infos :: infos where
  "sample_infos =
     [([1], \<lparr>ri_parent = [1], ri_seq = 1, ri_nonce = 0, ri_port = 0, ri_psig = [], ri_sig = []\<rparr>),
      ([2], \<lparr>ri_parent = [1], ri_seq = 1, ri_nonce = 0, ri_port = 5, ri_psig = [], ri_sig = []\<rparr>)]"

lemma sample_walk: "tree_walk sample_infos [2] [[2], [1]] [1] [5]"
proof -
  have "tree_walk sample_infos [1] [[1]] [1] []"
    by (rule tw_root) (auto simp: sample_infos_def)
  then show ?thesis
    using tw_child [of sample_infos "[2]" _ "[[1]]" "[1]" "[]"] by (simp add: sample_infos_def)
qed

lemma bytes_for_sig_sig_res:
  "bytes_for_sig ann = sig_res_bytes_for_sig (ra_key ann) (ra_parent ann) (ra_seq ann) (ra_nonce ann) (ra_port ann)"
  by (simp add: bytes_for_sig_def sig_res_bytes_for_sig_def)

section \<open>Properties\<close>

text \<open>C28. \<open>get_root_and_path\<close> returns the root and the coordinates of a node exactly as the parent
  links define them, and the node itself with the empty path when the links loop or lead to an
  unknown node. It always returns.\<close>

theorem get_root_and_path_exact:
  "(tree_path infos k r ps \<longrightarrow> get_root_and_path infos k = (r, ps)) \<and>
   ((\<nexists>r ps. tree_path infos k r ps) \<longrightarrow> get_root_and_path infos k = (k, []))"
  by (simp add: get_root_and_path_walk get_root_and_path_none)

theorem get_root_and_path_exact_witness:
  "get_root_and_path sample_infos [2] = ([1], [5]) \<and> get_root_and_path sample_infos [3] = ([3], [])"
proof -
  have "hm_get sample_infos [3] = None" by (simp add: sample_infos_def)
  then have "\<nexists>r ps. tree_path sample_infos [3] r ps"
    by (auto simp: tree_path_def elim: tree_walkE)
  then show ?thesis
    using get_root_and_path_exact [of sample_infos "[2]" "[1]" "[5]"] sample_walk
      get_root_and_path_exact [of sample_infos "[3]"]
    by (auto simp: tree_path_def)
qed

text \<open>\<open>get_root_and_dists\<close> reports a valid root exactly when the parent links of the node reach a
  node that is its own parent; the reported root is that node, and the distances are those of
  the walk: 0 for the node itself and one more for every ancestor, with no other node listed.\<close>

theorem get_root_and_dists_exact:
  assumes "get_root_and_dists infos k = (r, dists, valid)"
  shows "(valid \<longleftrightarrow> (\<exists>r' ps. tree_path infos k r' ps)) \<and>
    (\<forall>ks r' ps. tree_walk infos k ks r' ps \<longrightarrow> r = r' \<and>
       (\<forall>i<length ks. hm_get dists (ks ! i) = Some (of_nat i)) \<and>
       (\<forall>x. x \<notin> set ks \<longrightarrow> hm_get dists x = None))"
proof -
  have walk: "valid \<and> r = r' \<and> (\<forall>i<length ks. hm_get dists (ks ! i) = Some (of_nat i)) \<and>
      (\<forall>x. x \<notin> set ks \<longrightarrow> hm_get dists x = None)" if "tree_walk infos k ks r' ps" for ks r' ps
    using root_and_dists_loop_walk [OF that, of "[]" 0] assms by (auto simp: get_root_and_dists_def)
  moreover have "\<exists>r' ps. tree_path infos k r' ps" if valid
    using root_and_dists_loop_sound [of infos "[]" k 0 r dists] assms that
    by (auto simp: get_root_and_dists_def tree_path_def)
  ultimately show ?thesis unfolding tree_path_def by blast
qed

theorem get_root_and_dists_exact_witness:
  "get_root_and_dists sample_infos [2] = ([1], [([2], 0), ([1], 1)], True) \<and>
   (\<exists>r' ps. tree_path sample_infos [2] r' ps)"
proof -
  have run: "get_root_and_dists sample_infos [2] = ([1], [([2], 0), ([1], 1)], True)"
    by (simp add: get_root_and_dists_def root_and_dists_loop.simps sample_infos_def hm_contains_def
        hm_insert_def)
  then show ?thesis using get_root_and_dists_exact [OF run] by simp
qed

text \<open>The bytes under the two signatures of an announcement determine the node, the parent, the
  sequence number, the nonce and the port: no two different announcements share them, and they
  are the bytes a parent signs when it answers a signature request for that node.\<close>

theorem signed_bytes_determine_announce:
  assumes "wf_key (ra_key a)" "wf_key (ra_parent a)" "wf_key node" "wf_key parent"
    "bytes_for_sig a = sig_res_bytes_for_sig node parent seq nonce port"
  shows "ra_key a = node \<and> ra_parent a = parent \<and> ra_seq a = seq \<and> ra_nonce a = nonce \<and> ra_port a = port"
proof -
  have "ra_key a = node" "ra_parent a = parent"
    "encode_uvarint (ra_seq a) @ encode_uvarint (ra_nonce a) @ encode_uvarint (ra_port a) =
     encode_uvarint seq @ encode_uvarint nonce @ encode_uvarint port"
    using assms by (auto simp: bytes_for_sig_def sig_res_bytes_for_sig_def)
  moreover from this(3) have "ra_seq a = seq"
    "encode_uvarint (ra_nonce a) @ encode_uvarint (ra_port a) = encode_uvarint nonce @ encode_uvarint port"
    using uvarint.enc_prefix_free by blast+
  moreover from this(2) have "ra_nonce a = nonce" "encode_uvarint (ra_port a) = encode_uvarint port"
    using uvarint.enc_prefix_free by blast+
  ultimately show ?thesis using uvarint.enc_inj by blast
qed

theorem signed_bytes_determine_announce_witness:
  "bytes_for_sig \<lparr>ra_key = replicate 32 1, ra_parent = replicate 32 2, ra_seq = 3, ra_nonce = 4, ra_port = 5,
      ra_psig = [], ra_sig = []\<rparr> \<noteq> sig_res_bytes_for_sig (replicate 32 1) (replicate 32 2) 3 4 6"
  using signed_bytes_determine_announce
    [of "\<lparr>ra_key = replicate 32 1, ra_parent = replicate 32 2, ra_seq = 3, ra_nonce = 4, ra_port = 5,
      ra_psig = [], ra_sig = []\<rparr>" "replicate 32 1" "replicate 32 2" 3 4 6]
  by (auto simp: PUBLIC_KEY_SIZE_def)

end
