(* ===== verification/Bloom.thy ===== *)
theory Bloom
  imports Wire
begin

text \<open>
  Bloom filters, \<open>crates/ironwood/src/bloom.rs\<close>: the filter of 8192 bits with eight hash
  locations, and the manager \<open>Blooms\<close> that keeps, for every peer, the filter received from it
  and the filter advertised to it. The Murmur3 hash of the \<open>murmur3\<close> crate is the parameter
  \<open>mm\<close> of every definition that hashes; the result \<open>None\<close> is its error value, which the code
  replaces by zero. The optional key transform is a parameter too.
\<close>

section \<open>The filter\<close>

definition BLOOM_FILTER_BITS :: nat where
  "BLOOM_FILTER_BITS = 8192"

definition BLOOM_FILTER_K :: nat where
  "BLOOM_FILTER_K = 8"

type_synonym bloom_filter = "u64 list"
type_synonym murmur3 = "bytes \<Rightarrow> u32 \<Rightarrow> u128 option"
type_synonym bloom_transform = "(public_key \<Rightarrow> public_key) option"

definition bloom_new :: bloom_filter where
  "bloom_new = replicate BLOOM_FILTER_U64S 0"

definition base_hashes :: "murmur3 \<Rightarrow> bytes \<Rightarrow> u64 list" where
  "base_hashes mm data =
     (let result1 = (case mm data 0 of None \<Rightarrow> 0 | Some r \<Rightarrow> r);
          h1 = ucast result1;
          h2 = ucast (drop_bit 64 result1);
          data_with_one = data @ [1];
          result2 = (case mm data_with_one 0 of None \<Rightarrow> 0 | Some r \<Rightarrow> r);
          h3 = ucast result2;
          h4 = ucast (drop_bit 64 result2)
      in [h1, h2, h3, h4])"

definition location :: "u64 list \<Rightarrow> nat \<Rightarrow> nat \<Rightarrow> nat" where
  "location h i m =
     (let ii = of_nat i :: u64;
          base = h ! (i mod 2);
          inner = (i + i mod 2) mod 4;
          hash_idx = 2 + inner div 2;
          mult = h ! hash_idx;
          loc = base + ii * mult
      in unat (loc mod of_nat m))"

definition bloom_set_bit :: "bloom_filter \<Rightarrow> nat \<Rightarrow> bloom_filter" where
  "bloom_set_bit bits b =
     (let idx = b div 64; offset = b mod 64
      in bits[idx := bits ! idx OR push_bit offset 1])"

definition bloom_get_bit :: "bloom_filter \<Rightarrow> nat \<Rightarrow> bool" where
  "bloom_get_bit bits b =
     (let idx = b div 64; offset = b mod 64
      in drop_bit offset (bits ! idx) AND 1 = 1)"

definition bloom_add :: "murmur3 \<Rightarrow> bloom_filter \<Rightarrow> bytes \<Rightarrow> bloom_filter" where
  "bloom_add mm bits key =
     (let h = base_hashes mm key
      in foldl (\<lambda>bits i. bloom_set_bit bits (location h i BLOOM_FILTER_BITS)) bits [0..<BLOOM_FILTER_K])"

definition bloom_test :: "murmur3 \<Rightarrow> bloom_filter \<Rightarrow> bytes \<Rightarrow> bool" where
  "bloom_test mm bits key =
     (let h = base_hashes mm key
      in list_all (\<lambda>i. bloom_get_bit bits (location h i BLOOM_FILTER_BITS)) [0..<BLOOM_FILTER_K])"

definition bloom_merge :: "bloom_filter \<Rightarrow> bloom_filter \<Rightarrow> bloom_filter" where
  "bloom_merge bits other = map2 (OR) bits other"

section \<open>Per-peer filters\<close>

record bloom_info =
  bi_send :: bloom_filter
  bi_recv :: bloom_filter
  bi_seq :: u16
  bi_on_tree :: bool
  bi_z_dirty :: bool

type_synonym blooms = "(public_key, bloom_info) hmap"

definition bloom_info_new :: bloom_info where
  "bloom_info_new =
     \<lparr>bi_send = bloom_new, bi_recv = bloom_new, bi_seq = 0, bi_on_tree = False, bi_z_dirty = False\<rparr>"

definition is_on_tree :: "blooms \<Rightarrow> public_key \<Rightarrow> bool" where
  "is_on_tree bs key = (case hm_get bs key of None \<Rightarrow> False | Some info \<Rightarrow> bi_on_tree info)"

definition x_key :: "bloom_transform \<Rightarrow> public_key \<Rightarrow> public_key" where
  "x_key transform key = (case transform of Some f \<Rightarrow> f key | None \<Rightarrow> key)"

definition add_info :: "public_key \<Rightarrow> blooms \<Rightarrow> blooms" where
  "add_info key bs = hm_entry key bloom_info_new bs"

definition remove_info :: "public_key \<Rightarrow> blooms \<Rightarrow> blooms" where
  "remove_info key bs = hm_remove key bs"

definition blooms_handle_bloom :: "public_key \<Rightarrow> bloom_filter \<Rightarrow> blooms \<Rightarrow> blooms" where
  "blooms_handle_bloom peer_key flt bs = hm_modify peer_key (\<lambda>info. info\<lparr>bi_recv := flt\<rparr>) bs"

fun fix_on_tree ::
  "public_key \<Rightarrow> public_key \<Rightarrow> (public_key, public_key) hmap \<Rightarrow> blooms \<Rightarrow>
     (public_key \<times> bloom_filter) list \<times> blooms" where
  "fix_on_tree self_key self_parent infos [] = ([], [])"
| "fix_on_tree self_key self_parent infos ((pk, pbi) # bs) =
     (let was_on = bi_on_tree pbi;
          on_tree =
            (if self_parent = pk then True
             else case hm_get infos pk of
                    Some parent \<Rightarrow> if parent = self_key then True else False
                  | None \<Rightarrow> False);
          pbi = pbi\<lparr>bi_on_tree := on_tree\<rparr>;
          (to_send, bs') = fix_on_tree self_key self_parent infos bs
      in if was_on \<and> \<not> on_tree
         then ((pk, bloom_new) # to_send, (pk, pbi\<lparr>bi_send := bloom_new\<rparr>) # bs')
         else (to_send, (pk, pbi) # bs'))"

text \<open>\<open>get_bloom_for\<close> returns \<open>None\<close> where the code panics because the peer has no entry.\<close>

definition get_bloom_for ::
  "murmur3 \<Rightarrow> bloom_transform \<Rightarrow> public_key \<Rightarrow> public_key \<Rightarrow> bool \<Rightarrow> blooms \<Rightarrow>
     ((bloom_filter \<times> bool) \<times> blooms) option" where
  "get_bloom_for mm transform key our_key keep_ones bs =
     (let b = bloom_add mm bloom_new (x_key transform our_key);
          recv_filters = map (\<lambda>(_, info). bi_recv info)
            (filter (\<lambda>(k, info). bi_on_tree info \<and> k \<noteq> key) bs);
          b = foldl bloom_merge b recv_filters
      in case hm_get bs key of
           None \<Rightarrow> None
         | Some pbi \<Rightarrow>
             let (b, pbi) =
                   (if keep_ones then
                      if \<not> bi_z_dirty pbi then
                        let c = b; b = bloom_merge b (bi_send pbi)
                        in (b, if b \<noteq> c then pbi\<lparr>bi_z_dirty := True\<rparr> else pbi)
                      else (bloom_merge b (bi_send pbi), pbi)
                    else (b, pbi\<lparr>bi_z_dirty := False\<rparr>));
                 is_new = (b \<noteq> bi_send pbi);
                 pbi = (if is_new then pbi\<lparr>bi_send := b\<rparr> else pbi)
             in Some ((b, is_new), hm_modify key (\<lambda>_. pbi) bs))"

definition get_send_bloom :: "public_key \<Rightarrow> blooms \<Rightarrow> bloom_filter option" where
  "get_send_bloom key bs = map_option bi_send (hm_get bs key)"

fun blooms_maintenance_loop ::
  "murmur3 \<Rightarrow> bloom_transform \<Rightarrow> public_key \<Rightarrow> public_key list \<Rightarrow> (public_key \<times> bloom_filter) list \<Rightarrow>
     blooms \<Rightarrow> ((public_key \<times> bloom_filter) list \<times> blooms) option" where
  "blooms_maintenance_loop mm transform self_key [] to_send bs = Some (to_send, bs)"
| "blooms_maintenance_loop mm transform self_key (k # ks) to_send bs =
     (case hm_get bs k of
        None \<Rightarrow> None
      | Some info \<Rightarrow>
          let keep_ones = (\<not> bi_z_dirty info)
          in case get_bloom_for mm transform k self_key keep_ones bs of
               None \<Rightarrow> None
             | Some ((bloom, is_new), bs) \<Rightarrow>
                 (case hm_get bs k of
                    None \<Rightarrow> None
                  | Some pbi \<Rightarrow>
                      let seq = bi_seq pbi + 1
                      in if is_new \<or> seq \<ge> 3600
                         then blooms_maintenance_loop mm transform self_key ks (to_send @ [(k, bloom)])
                                (hm_modify k (\<lambda>pbi. pbi\<lparr>bi_seq := 0\<rparr>) bs)
                         else blooms_maintenance_loop mm transform self_key ks to_send
                                (hm_modify k (\<lambda>pbi. pbi\<lparr>bi_seq := seq\<rparr>) bs)))"

definition blooms_do_maintenance ::
  "murmur3 \<Rightarrow> bloom_transform \<Rightarrow> public_key \<Rightarrow> public_key \<Rightarrow> (public_key, public_key) hmap \<Rightarrow>
     blooms \<Rightarrow> ((public_key \<times> bloom_filter) list \<times> blooms) option" where
  "blooms_do_maintenance mm transform self_key self_parent infos bs =
     (let (to_send, bs) = fix_on_tree self_key self_parent infos bs;
          on_tree_keys = map fst (filter (\<lambda>(_, info). bi_on_tree info) bs)
      in blooms_maintenance_loop mm transform self_key on_tree_keys to_send bs)"

definition get_multicast_targets ::
  "murmur3 \<Rightarrow> bloom_transform \<Rightarrow> public_key \<Rightarrow> public_key \<Rightarrow> blooms \<Rightarrow> public_key list" where
  "get_multicast_targets mm transform from_key to_key bs =
     (let xform = x_key transform to_key
      in map fst (filter (\<lambda>(k, pbi). bi_on_tree pbi \<and> k \<noteq> from_key \<and> bloom_test mm (bi_recv pbi) xform) bs))"

definition count_on_tree_targets_for_xkey :: "murmur3 \<Rightarrow> public_key \<Rightarrow> blooms \<Rightarrow> nat" where
  "count_on_tree_targets_for_xkey mm xformed_key bs =
     length (filter (\<lambda>(_, pbi). bi_on_tree pbi \<and> bloom_test mm (bi_recv pbi) xformed_key) bs)"

section \<open>No false negatives\<close>

lemma bloom_get_bit_iff: "bloom_get_bit bits b \<longleftrightarrow> bit (bits ! (b div 64)) (b mod 64)"
  by (simp add: bloom_get_bit_def Let_def bit_iff_and_drop_bit_eq_1)

lemma length_bloom_set_bit [simp]: "length (bloom_set_bit bits b) = length bits"
  by (simp add: bloom_set_bit_def Let_def)

lemma location_less: "0 < m \<Longrightarrow> m < 2 ^ 64 \<Longrightarrow> location h i m < m"
proof -
  assume m: "0 < m" "m < 2 ^ 64"
  then have "unat (of_nat m :: u64) = m"
    by (simp add: unsigned_of_nat take_bit_nat_eq_self)
  then show ?thesis
    using m by (simp add: location_def Let_def unat_mod)
qed

lemma bloom_get_bit_set_bit:
  assumes "length bits = BLOOM_FILTER_U64S" "b < BLOOM_FILTER_BITS"
  shows "bloom_get_bit (bloom_set_bit bits b) b' \<longleftrightarrow> b' = b \<or> bloom_get_bit bits b'"
proof -
  have "b div 64 < length bits"
    using assms by (simp add: BLOOM_FILTER_U64S_def BLOOM_FILTER_BITS_def)
  moreover have "b' = b \<longleftrightarrow> b' div 64 = b div 64 \<and> b' mod 64 = b mod 64"
    by (metis div_mult_mod_eq)
  moreover have "bit (push_bit (b mod 64) 1 :: u64) n \<longleftrightarrow> n = b mod 64" for n
    using mod_less_divisor [of 64 b] by (auto simp: push_bit_of_1 bit_exp_iff)
  ultimately show ?thesis
    by (auto simp: bloom_get_bit_iff bloom_set_bit_def Let_def nth_list_update bit_or_iff)
qed

lemma bloom_set_bits:
  assumes "length bits = BLOOM_FILTER_U64S" "\<And>i. i \<in> set is \<Longrightarrow> loc i < BLOOM_FILTER_BITS"
  shows "length (foldl (\<lambda>bits i. bloom_set_bit bits (loc i)) bits is) = BLOOM_FILTER_U64S \<and>
    (\<forall>b. bloom_get_bit (foldl (\<lambda>bits i. bloom_set_bit bits (loc i)) bits is) b \<longleftrightarrow>
       b \<in> loc ` set is \<or> bloom_get_bit bits b)"
  using assms
  by (induction "is" arbitrary: bits) (auto simp: bloom_get_bit_set_bit)

lemma location_bits: "location h i BLOOM_FILTER_BITS < BLOOM_FILTER_BITS"
  by (rule location_less) (auto simp: BLOOM_FILTER_BITS_def)

lemma length_bloom_add [simp]:
  "length bits = BLOOM_FILTER_U64S \<Longrightarrow> length (bloom_add mm bits key) = BLOOM_FILTER_U64S"
  using bloom_set_bits [of bits "[0..<BLOOM_FILTER_K]" "\<lambda>i. location (base_hashes mm key) i BLOOM_FILTER_BITS"]
  by (simp add: bloom_add_def Let_def location_bits)

lemma bloom_get_bit_add:
  "length bits = BLOOM_FILTER_U64S \<Longrightarrow>
   bloom_get_bit (bloom_add mm bits key) b \<longleftrightarrow>
     b \<in> (\<lambda>i. location (base_hashes mm key) i BLOOM_FILTER_BITS) ` set [0..<BLOOM_FILTER_K] \<or>
     bloom_get_bit bits b"
  using bloom_set_bits [of bits "[0..<BLOOM_FILTER_K]" "\<lambda>i. location (base_hashes mm key) i BLOOM_FILTER_BITS"]
  by (simp add: bloom_add_def Let_def location_bits)

lemma length_bloom_new [simp]: "length bloom_new = BLOOM_FILTER_U64S"
  by (simp add: bloom_new_def)

lemma length_bloom_merge [simp]:
  "length (bloom_merge bits other) = min (length bits) (length other)"
  by (simp add: bloom_merge_def)

lemma bloom_get_bit_merge:
  assumes "length bits = BLOOM_FILTER_U64S" "length other = BLOOM_FILTER_U64S" "b < BLOOM_FILTER_BITS"
  shows "bloom_get_bit (bloom_merge bits other) b \<longleftrightarrow> bloom_get_bit bits b \<or> bloom_get_bit other b"
proof -
  have "b div 64 < BLOOM_FILTER_U64S"
    using assms(3) by (simp add: BLOOM_FILTER_U64S_def BLOOM_FILTER_BITS_def)
  then show ?thesis
    using assms by (simp add: bloom_get_bit_iff bloom_merge_def bit_or_iff)
qed

lemma bloom_test_iff:
  "bloom_test mm bits key \<longleftrightarrow>
     (\<forall>i<BLOOM_FILTER_K. bloom_get_bit bits (location (base_hashes mm key) i BLOOM_FILTER_BITS))"
  by (auto simp: bloom_test_def Let_def list_all_iff)

lemma bloom_test_add_same:
  "length bits = BLOOM_FILTER_U64S \<Longrightarrow> bloom_test mm (bloom_add mm bits key) key"
  by (auto simp: bloom_test_iff bloom_get_bit_add)

lemma bloom_test_add_other:
  "length bits = BLOOM_FILTER_U64S \<Longrightarrow> bloom_test mm bits k \<Longrightarrow> bloom_test mm (bloom_add mm bits key) k"
  by (auto simp: bloom_test_iff bloom_get_bit_add)

lemma bloom_test_merge:
  "length bits = BLOOM_FILTER_U64S \<Longrightarrow> length other = BLOOM_FILTER_U64S \<Longrightarrow>
   bloom_test mm bits k \<or> bloom_test mm other k \<Longrightarrow> bloom_test mm (bloom_merge bits other) k"
  by (auto simp: bloom_test_iff bloom_get_bit_merge location_bits)

lemma bloom_merge_list:
  assumes "length b = BLOOM_FILTER_U64S" "\<And>f. f \<in> set fs \<Longrightarrow> length f = BLOOM_FILTER_U64S"
  shows "length (foldl bloom_merge b fs) = BLOOM_FILTER_U64S \<and>
    (\<forall>k. bloom_test mm b k \<or> (\<exists>f\<in>set fs. bloom_test mm f k) \<longrightarrow> bloom_test mm (foldl bloom_merge b fs) k)"
  using assms by (induction fs arbitrary: b) (auto simp: bloom_test_merge)

section \<open>Tree membership\<close>

text \<open>A peer is on the tree when it is our parent or when we are its parent.\<close>

definition tree_link :: "public_key \<Rightarrow> public_key \<Rightarrow> (public_key, public_key) hmap \<Rightarrow> public_key \<Rightarrow> bool" where
  "tree_link self_key self_parent infos pk \<longleftrightarrow> pk = self_parent \<or> hm_get infos pk = Some self_key"

definition wf_bloom_info :: "bloom_info \<Rightarrow> bool" where
  "wf_bloom_info info \<longleftrightarrow> length (bi_send info) = BLOOM_FILTER_U64S \<and>
     length (bi_recv info) = BLOOM_FILTER_U64S \<and> bi_seq info < 3600"

definition wf_blooms :: "blooms \<Rightarrow> bool" where
  "wf_blooms bs \<longleftrightarrow> hm_wf bs \<and> list_all (\<lambda>(_, info). wf_bloom_info info) bs"

lemma wf_bloomsD: "wf_blooms bs \<Longrightarrow> hm_get bs k = Some info \<Longrightarrow> wf_bloom_info info"
  by (auto simp: wf_blooms_def list_all_iff dest: map_of_SomeD)

lemma wf_blooms_memD: "wf_blooms bs \<Longrightarrow> (k, info) \<in> set bs \<Longrightarrow> wf_bloom_info info"
  by (auto simp: wf_blooms_def list_all_iff)

lemma wf_blooms_hm_wf: "wf_blooms bs \<Longrightarrow> hm_wf bs"
  by (simp add: wf_blooms_def)

lemma wf_bloomsI:
  "hm_wf bs \<Longrightarrow> (\<And>k info. hm_get bs k = Some info \<Longrightarrow> wf_bloom_info info) \<Longrightarrow> wf_blooms bs"
  by (auto simp: wf_blooms_def list_all_iff map_of_eq_Some_iff)

lemma wf_blooms_modify:
  "wf_blooms bs \<Longrightarrow> (\<And>info. hm_get bs k = Some info \<Longrightarrow> wf_bloom_info (f info)) \<Longrightarrow>
   wf_blooms (hm_modify k f bs)"
  by (rule wf_bloomsI) (auto simp: wf_blooms_hm_wf dest: wf_bloomsD wf_blooms_memD split: if_splits)

lemma wf_bloom_info_new: "wf_bloom_info bloom_info_new"
  by (simp add: wf_bloom_info_def bloom_info_new_def)

lemma wf_blooms_add_info: "wf_blooms bs \<Longrightarrow> wf_blooms (add_info key bs)"
  by (rule wf_bloomsI)
    (auto simp: add_info_def wf_blooms_hm_wf wf_bloom_info_new dest: wf_bloomsD wf_blooms_memD split: if_splits option.splits)

lemma wf_blooms_remove_info: "wf_blooms bs \<Longrightarrow> wf_blooms (remove_info key bs)"
  by (rule wf_bloomsI) (auto simp: remove_info_def wf_blooms_hm_wf dest: wf_bloomsD wf_blooms_memD split: if_splits)

lemma wf_blooms_handle_bloom:
  "wf_blooms bs \<Longrightarrow> length f = BLOOM_FILTER_U64S \<Longrightarrow> wf_blooms (blooms_handle_bloom key f bs)"
  unfolding blooms_handle_bloom_def
  by (rule wf_blooms_modify) (auto simp: wf_bloom_info_def dest: wf_bloomsD)

definition fixed_info :: "bool \<Rightarrow> bloom_info \<Rightarrow> bloom_info" where
  "fixed_info on info = info\<lparr>bi_on_tree := on,
     bi_send := if bi_on_tree info \<and> \<not> on then bloom_new else bi_send info\<rparr>"

lemma fix_on_tree_spec:
  assumes "fix_on_tree self_key self_parent infos bs = (to_send, bs')"
  shows "hm_keys bs' = hm_keys bs \<and>
    (\<forall>k. hm_get bs' k = map_option (fixed_info (tree_link self_key self_parent infos k)) (hm_get bs k)) \<and>
    (\<forall>k f. (k, f) \<in> set to_send \<longleftrightarrow> f = bloom_new \<and> \<not> tree_link self_key self_parent infos k \<and>
       (\<exists>info. (k, info) \<in> set bs \<and> bi_on_tree info))"
  using assms
proof (induction bs arbitrary: to_send bs')
  case Nil
  then show ?case by simp
next
  case (Cons kv bs)
  obtain pk pbi where kv: "kv = (pk, pbi)" by fastforce
  obtain ts bs1 where r: "fix_on_tree self_key self_parent infos bs = (ts, bs1)" by fastforce
  have link: "(if self_parent = pk then True
      else case hm_get infos pk of Some parent \<Rightarrow> if parent = self_key then True else False | None \<Rightarrow> False)
    = tree_link self_key self_parent infos pk"
    by (auto simp: tree_link_def split: option.splits)
  have "to_send = (if bi_on_tree pbi \<and> \<not> tree_link self_key self_parent infos pk then (pk, bloom_new) # ts else ts)"
    "bs' = (pk, fixed_info (tree_link self_key self_parent infos pk) pbi) # bs1"
    using Cons.prems r unfolding kv fix_on_tree.simps link Let_def
    by (auto simp: fixed_info_def split: if_splits)
  then show ?case
    using Cons.IH [OF r] kv by auto
qed

lemma wf_fixed_info: "wf_bloom_info info \<Longrightarrow> wf_bloom_info (fixed_info on info)"
  by (simp add: wf_bloom_info_def fixed_info_def)

lemma fix_on_tree_wf:
  assumes "wf_blooms bs" "fix_on_tree self_key self_parent infos bs = (to_send, bs')"
  shows "wf_blooms bs'"
  using fix_on_tree_spec [OF assms(2)] assms(1)
  by (intro wf_bloomsI) (auto simp: wf_fixed_info dest: wf_bloomsD wf_blooms_hm_wf)

section \<open>Advertised filters\<close>

text \<open>What the filter for the peer \<open>k\<close> has to cover: our own key, and every key covered by a
  filter received from another peer of the tree.\<close>

definition covers ::
  "murmur3 \<Rightarrow> bloom_transform \<Rightarrow> public_key \<Rightarrow> blooms \<Rightarrow> public_key \<Rightarrow> bloom_filter \<Rightarrow> bool" where
  "covers mm transform self_key bs k f \<longleftrightarrow>
     bloom_test mm f (x_key transform self_key) \<and>
     (\<forall>x. (\<exists>k' info. hm_get bs k' = Some info \<and> bi_on_tree info \<and> k' \<noteq> k \<and> bloom_test mm (bi_recv info) x) \<longrightarrow>
        bloom_test mm f x)"

lemma get_bloom_for_spec:
  assumes wf: "wf_blooms bs" and pbi: "hm_get bs key = Some pbi"
  obtains b is_new pbi' where
    "get_bloom_for mm transform key our_key keep_ones bs = Some ((b, is_new), hm_modify key (\<lambda>_. pbi') bs)"
    "length b = BLOOM_FILTER_U64S" "covers mm transform our_key bs key b"
    "bi_send pbi' = b" "is_new \<longleftrightarrow> b \<noteq> bi_send pbi" "bi_recv pbi' = bi_recv pbi"
    "bi_on_tree pbi' = bi_on_tree pbi" "bi_seq pbi' = bi_seq pbi"
proof -
  let ?own = "bloom_add mm bloom_new (x_key transform our_key)"
  let ?fs = "map (\<lambda>(_, info). bi_recv info) (filter (\<lambda>(k, info). bi_on_tree info \<and> k \<noteq> key) bs)"
  let ?b = "foldl bloom_merge ?own ?fs"
  have send: "length (bi_send pbi) = BLOOM_FILTER_U64S"
    using wf_bloomsD [OF wf pbi] by (simp add: wf_bloom_info_def)
  have "length f = BLOOM_FILTER_U64S" if "f \<in> set ?fs" for f
    using that wf by (auto simp: wf_blooms_def list_all_iff wf_bloom_info_def)
  then have b: "length ?b = BLOOM_FILTER_U64S"
    "\<And>k. bloom_test mm ?own k \<or> (\<exists>f\<in>set ?fs. bloom_test mm f k) \<Longrightarrow> bloom_test mm ?b k"
    using bloom_merge_list [of ?own ?fs mm] by auto
  have cov: "covers mm transform our_key bs key ?b"
    unfolding covers_def
  proof (intro conjI allI impI)
    show "bloom_test mm ?b (x_key transform our_key)" by (intro b(2)) (simp add: bloom_test_add_same)
  next
    fix x
    assume "\<exists>k' info. hm_get bs k' = Some info \<and> bi_on_tree info \<and> k' \<noteq> key \<and> bloom_test mm (bi_recv info) x"
    then obtain k' info where
      "hm_get bs k' = Some info" "bi_on_tree info" "k' \<noteq> key" "bloom_test mm (bi_recv info) x" by blast
    then show "bloom_test mm ?b x"
      by (intro b(2)) (auto dest!: map_of_SomeD intro!: bexI [of _ "(k', info)"])
  qed
  then have cov': "covers mm transform our_key bs key (bloom_merge ?b (bi_send pbi))"
    using b(1) send by (auto simp: covers_def intro!: bloom_test_merge)
  define b where "b = ?b"
  note facts = b(1) [folded b_def] cov [folded b_def] cov' [folded b_def]
  have eq: "get_bloom_for mm transform key our_key keep_ones bs =
    (let f = (if keep_ones then bloom_merge b (bi_send pbi) else b);
         dirty = (keep_ones \<and> (bi_z_dirty pbi \<or> f \<noteq> b))
     in Some ((f, f \<noteq> bi_send pbi), hm_modify key (\<lambda>_. pbi\<lparr>bi_send := f, bi_z_dirty := dirty\<rparr>) bs))"
    unfolding get_bloom_for_def Let_def b_def [symmetric]
    by (cases pbi; cases keep_ones; cases "bi_z_dirty pbi") (auto simp: pbi)
  show thesis
    by (rule that [OF eq [unfolded Let_def]]) (use facts send in \<open>auto\<close>)
qed

lemma covers_cong:
  assumes "\<And>k. map_option (\<lambda>i. (bi_recv i, bi_on_tree i)) (hm_get bs' k) =
      map_option (\<lambda>i. (bi_recv i, bi_on_tree i)) (hm_get bs k)"
  shows "covers mm transform self_key bs' key f = covers mm transform self_key bs key f"
proof -
  have "(\<exists>info. hm_get bs' k = Some info \<and> bi_on_tree info \<and> k \<noteq> key \<and> bloom_test mm (bi_recv info) x) \<longleftrightarrow>
    (\<exists>info. hm_get bs k = Some info \<and> bi_on_tree info \<and> k \<noteq> key \<and> bloom_test mm (bi_recv info) x)" for k x
    using assms [of k] by (cases "hm_get bs k"; cases "hm_get bs' k") auto
  then show ?thesis
    unfolding covers_def by (simp only:)
qed

text \<open>One round of the loop of \<open>do_maintenance\<close> replaces the entry of the visited peer.\<close>

lemma maintenance_step:
  assumes wf: "wf_blooms bs" and pbi: "hm_get bs k = Some pbi"
  obtains q ts where
    "\<And>ks to_send. blooms_maintenance_loop mm transform self_key (k # ks) to_send bs =
       blooms_maintenance_loop mm transform self_key ks (to_send @ ts) (hm_modify k (\<lambda>_. q) bs)"
    "wf_blooms (hm_modify k (\<lambda>_. q) bs)" "covers mm transform self_key bs k (bi_send q)"
    "bi_recv q = bi_recv pbi" "bi_on_tree q = bi_on_tree pbi"
    "bi_send q \<noteq> bi_send pbi \<Longrightarrow> (k, bi_send q) \<in> set ts"
proof -
  obtain b is_new pbi' where g:
    "get_bloom_for mm transform k self_key (\<not> bi_z_dirty pbi) bs = Some ((b, is_new), hm_modify k (\<lambda>_. pbi') bs)"
    "length b = BLOOM_FILTER_U64S" "covers mm transform self_key bs k b"
    "bi_send pbi' = b" "is_new \<longleftrightarrow> b \<noteq> bi_send pbi" "bi_recv pbi' = bi_recv pbi"
    "bi_on_tree pbi' = bi_on_tree pbi" "bi_seq pbi' = bi_seq pbi"
    using get_bloom_for_spec [OF wf pbi] by blast
  define send where "send \<longleftrightarrow> is_new \<or> bi_seq pbi + 1 \<ge> 3600"
  define q where "q = pbi'\<lparr>bi_seq := if send then 0 else bi_seq pbi + 1\<rparr>"
  have "wf_blooms (hm_modify k (\<lambda>_. q) bs)"
    using wf_bloomsD [OF wf pbi] g
    by (intro wf_blooms_modify [OF wf]) (auto simp: wf_bloom_info_def q_def send_def not_le)
  moreover have "blooms_maintenance_loop mm transform self_key (k # ks) to_send bs =
      blooms_maintenance_loop mm transform self_key ks (to_send @ (if send then [(k, b)] else []))
        (hm_modify k (\<lambda>_. q) bs)" for ks to_send
    using pbi g(1,8) by (simp add: Let_def hm_modify_modify q_def send_def)
  ultimately show thesis
    using g by (intro that [of "if send then [(k, b)] else []" q]) (auto simp: q_def send_def)
qed

text \<open>The whole loop never panics, changes no received filter and no tree membership, and when it
  is done the filter stored for each visited peer covers what it has to and was queued for
  sending if it differs from the one stored before.\<close>

abbreviation heard :: "blooms \<Rightarrow> public_key \<Rightarrow> (bloom_filter \<times> bool) option" where
  "heard bs k \<equiv> map_option (\<lambda>i. (bi_recv i, bi_on_tree i)) (hm_get bs k)"

definition readvertised ::
  "murmur3 \<Rightarrow> bloom_transform \<Rightarrow> public_key \<Rightarrow> public_key set \<Rightarrow> blooms \<Rightarrow>
     (public_key \<times> bloom_filter) list \<Rightarrow> blooms \<Rightarrow> bool" where
  "readvertised mm transform self_key K bs ts bs' \<longleftrightarrow>
     (\<forall>k info info'. hm_get bs k = Some info \<longrightarrow> hm_get bs' k = Some info' \<longrightarrow>
       (k \<in> K \<longrightarrow> covers mm transform self_key bs k (bi_send info')) \<and>
       (k \<notin> K \<longrightarrow> info' = info) \<and>
       (bi_send info' \<noteq> bi_send info \<longrightarrow> (k, bi_send info') \<in> set ts))"

lemma maintenance_loop_spec:
  assumes "wf_blooms bs" "set ks \<subseteq> set (hm_keys bs)" "distinct ks"
  shows "\<exists>ts bs'. blooms_maintenance_loop mm transform self_key ks to_send bs = Some (to_send @ ts, bs') \<and>
    wf_blooms bs' \<and> hm_keys bs' = hm_keys bs \<and> (\<forall>k. heard bs' k = heard bs k) \<and>
    readvertised mm transform self_key (set ks) bs ts bs'"
  using assms
proof (induction ks arbitrary: to_send bs)
  case Nil
  then show ?case by (simp add: readvertised_def)
next
  case (Cons k ks)
  then obtain pbi where pbi: "hm_get bs k = Some pbi"
    using hm_get_SomeI [of k bs] by auto
  obtain ts1 q where q:
    "\<And>ks to_send. blooms_maintenance_loop mm transform self_key (k # ks) to_send bs =
       blooms_maintenance_loop mm transform self_key ks (to_send @ ts1) (hm_modify k (\<lambda>_. q) bs)"
    "wf_blooms (hm_modify k (\<lambda>_. q) bs)" "covers mm transform self_key bs k (bi_send q)"
    "bi_recv q = bi_recv pbi" "bi_on_tree q = bi_on_tree pbi"
    "bi_send q \<noteq> bi_send pbi \<Longrightarrow> (k, bi_send q) \<in> set ts1"
    by (rule maintenance_step [OF Cons.prems(1) pbi, of mm transform self_key]) (rule that)
  let ?bs = "hm_modify k (\<lambda>_. q) bs"
  have heard: "heard ?bs k' = heard bs k'" for k'
    using pbi q(4,5) by simp
  from Cons.IH [OF q(2), of "to_send @ ts1"] Cons.prems(2,3) obtain ts bs' where IH:
    "blooms_maintenance_loop mm transform self_key ks (to_send @ ts1) ?bs = Some ((to_send @ ts1) @ ts, bs')"
    "wf_blooms bs'" "hm_keys bs' = hm_keys bs" "\<And>k'. heard bs' k' = heard ?bs k'"
    "readvertised mm transform self_key (set ks) ?bs ts bs'"
    by (auto simp del: hm_get_modify)
  have "heard bs' k' = heard bs k'" for k'
    unfolding IH(4) by (rule heard)
  moreover have "readvertised mm transform self_key (set (k # ks)) bs (ts1 @ ts) bs'"
    unfolding readvertised_def
  proof (intro allI impI)
    fix k' info info'
    assume get: "hm_get bs k' = Some info" "hm_get bs' k' = Some info'"
    let ?info = "if k' = k then q else info"
    have "hm_get ?bs k' = Some ?info" using get pbi by auto
    then have "(k' \<in> set ks \<longrightarrow> covers mm transform self_key bs k' (bi_send info')) \<and>
       (k' \<notin> set ks \<longrightarrow> info' = ?info) \<and>
       (bi_send info' \<noteq> bi_send ?info \<longrightarrow> (k', bi_send info') \<in> set ts)"
      using IH(5) get(2) unfolding readvertised_def covers_cong [OF heard] by blast
    then show "(k' \<in> set (k # ks) \<longrightarrow> covers mm transform self_key bs k' (bi_send info')) \<and>
       (k' \<notin> set (k # ks) \<longrightarrow> info' = info) \<and>
       (bi_send info' \<noteq> bi_send info \<longrightarrow> (k', bi_send info') \<in> set (ts1 @ ts))"
      using Cons.prems(3) q(3,6) get pbi by (cases "k' = k") auto
  qed
  ultimately show ?case
    unfolding q(1) [of ks to_send] IH(1) using IH(2,3)
    by (intro exI [of _ "ts1 @ ts"] exI [of _ bs']) simp
qed

lemma on_tree_keys_spec:
  "hm_wf bs \<Longrightarrow> k \<in> set (map fst (filter (\<lambda>(_, info). bi_on_tree info) bs)) \<longleftrightarrow>
     (\<exists>info. hm_get bs k = Some info \<and> bi_on_tree info)"
  by (force simp: map_of_eq_Some_iff)

lemma blooms_do_maintenance_spec:
  assumes wf: "wf_blooms bs" and fx: "fix_on_tree self_key self_parent infos bs = (blanks, bs1)"
  shows "\<exists>ts bs'. blooms_do_maintenance mm transform self_key self_parent infos bs = Some (blanks @ ts, bs') \<and>
    wf_blooms bs' \<and> hm_keys bs' = hm_keys bs \<and> (\<forall>k. heard bs' k = heard bs1 k) \<and>
    readvertised mm transform self_key {k. \<exists>info. hm_get bs1 k = Some info \<and> bi_on_tree info} bs1 ts bs'"
proof -
  let ?ks = "map fst (filter (\<lambda>(_, info). bi_on_tree info) bs1)"
  have wf1: "wf_blooms bs1" by (rule fix_on_tree_wf [OF wf fx])
  then have "distinct ?ks" by (simp add: wf_blooms_hm_wf distinct_map_filter)
  moreover have "set ?ks \<subseteq> set (hm_keys bs1)" by auto
  moreover have "set ?ks = {k. \<exists>info. hm_get bs1 k = Some info \<and> bi_on_tree info}"
    using on_tree_keys_spec [OF wf_blooms_hm_wf [OF wf1]] by auto
  moreover have "hm_keys bs1 = hm_keys bs" using fix_on_tree_spec [OF fx] by simp
  ultimately show ?thesis
    using maintenance_loop_spec [OF wf1, of ?ks mm transform self_key blanks]
    by (simp add: blooms_do_maintenance_def fx)
qed

section \<open>Properties of the filters\<close>

text \<open>C34. The filter has no false negatives: a key tests positive after it was added, adding a key
  or merging a filter never makes a key test negative, and the merged filter answers for both.\<close>

theorem bloom_no_false_negatives:
  assumes "length f = BLOOM_FILTER_U64S" "length g = BLOOM_FILTER_U64S"
  shows "bloom_test mm (bloom_add mm f k) k \<and>
    (bloom_test mm f k' \<longrightarrow> bloom_test mm (bloom_add mm f k) k') \<and>
    (bloom_test mm f k' \<or> bloom_test mm g k' \<longrightarrow> bloom_test mm (bloom_merge f g) k')"
  using assms by (simp add: bloom_test_add_same bloom_test_add_other bloom_test_merge)

theorem bloom_no_false_negatives_witness:
  "bloom_test (\<lambda>d s. Some (of_nat (length d))) (bloom_add (\<lambda>d s. Some (of_nat (length d))) bloom_new [1, 2]) [1, 2]"
  using bloom_no_false_negatives [of bloom_new bloom_new "\<lambda>d s. Some (of_nat (length d))" "[1, 2]"]
  by simp

text \<open>After \<open>fix_on_tree\<close> a peer is on the tree exactly when it is our parent or we are its
  parent, and the peers that receive a blank filter are exactly those that have just left it.\<close>

theorem fix_on_tree_exact:
  assumes "hm_wf bs" "fix_on_tree self_key self_parent infos bs = (to_send, bs')"
  shows "(is_on_tree bs' k \<longleftrightarrow>
      k \<in> set (hm_keys bs) \<and> (k = self_parent \<or> hm_get infos k = Some self_key)) \<and>
    ((k, f) \<in> set to_send \<longleftrightarrow> f = bloom_new \<and> is_on_tree bs k \<and> \<not> is_on_tree bs' k) \<and>
    (is_on_tree bs k \<and> \<not> is_on_tree bs' k \<longrightarrow> get_send_bloom k bs' = Some bloom_new)"
proof -
  note spec = fix_on_tree_spec [OF assms(2)]
  have on: "is_on_tree bs' k \<longleftrightarrow>
      k \<in> set (hm_keys bs) \<and> (k = self_parent \<or> hm_get infos k = Some self_key)"
  proof -
    have "hm_get bs' k = map_option (fixed_info (tree_link self_key self_parent infos k)) (hm_get bs k)"
      using spec by blast
    then show ?thesis
      unfolding hm_contains_iff [symmetric] hm_contains_def
      by (cases "hm_get bs k") (auto simp: is_on_tree_def fixed_info_def tree_link_def)
  qed
  have was: "(\<exists>info. (k, info) \<in> set bs \<and> bi_on_tree info) \<longleftrightarrow> is_on_tree bs k"
    using assms(1) by (cases "hm_get bs k")
      (auto simp: is_on_tree_def dest: map_of_is_SomeI map_of_SomeD eq_key_imp_eq_value)
  have "k \<in> set (hm_keys bs)" if "is_on_tree bs k"
    using that unfolding hm_contains_iff [symmetric] hm_contains_def
    by (cases "hm_get bs k") (auto simp: is_on_tree_def)
  then have sent: "(k, f) \<in> set to_send \<longleftrightarrow> f = bloom_new \<and> is_on_tree bs k \<and> \<not> is_on_tree bs' k"
    using spec was on by (auto simp: tree_link_def)
  have "get_send_bloom k bs' = Some bloom_new" if "is_on_tree bs k" "\<not> is_on_tree bs' k"
    using spec that by (cases "hm_get bs k") (auto simp: get_send_bloom_def fixed_info_def is_on_tree_def)
  with on sent show ?thesis by blast
qed

theorem fix_on_tree_exact_witness:
  "fix_on_tree [0] [1] [] [([2], bloom_info_new\<lparr>bi_on_tree := True\<rparr>)] =
     ([([2], bloom_new)], [([2], bloom_info_new)]) \<and> \<not> is_on_tree [([2], bloom_info_new)] [2]"
proof -
  have run: "fix_on_tree [0] [1] [] [([2], bloom_info_new\<lparr>bi_on_tree := True\<rparr>)] =
     ([([2], bloom_new)], [([2], bloom_info_new)])"
    by (simp add: bloom_info_new_def)
  show ?thesis
    using run fix_on_tree_exact [OF _ run, of "[2]"] by simp
qed

text \<open>C35. A maintenance round of the filters never panics and keeps the filters well formed.
  Afterwards the filter stored for each peer on the tree covers our own key and every key
  covered by a filter received from another peer on the tree; and whenever the filter stored
  for a peer has changed, exactly that filter is among those to be sent.\<close>

theorem maintenance_advertises:
  assumes "wf_blooms bs"
  shows "\<exists>to_send bs'. blooms_do_maintenance mm transform self_key self_parent infos bs = Some (to_send, bs') \<and>
    wf_blooms bs' \<and>
    (\<forall>k f. is_on_tree bs' k \<longrightarrow> get_send_bloom k bs' = Some f \<longrightarrow> covers mm transform self_key bs' k f) \<and>
    (\<forall>k f. get_send_bloom k bs' = Some f \<longrightarrow> get_send_bloom k bs \<noteq> Some f \<longrightarrow> (k, f) \<in> set to_send)"
proof -
  obtain blanks bs1 where fx: "fix_on_tree self_key self_parent infos bs = (blanks, bs1)" by fastforce
  note spec = fix_on_tree_spec [OF fx]
  obtain ts bs' where run:
    "blooms_do_maintenance mm transform self_key self_parent infos bs = Some (blanks @ ts, bs')"
    "wf_blooms bs'" "hm_keys bs' = hm_keys bs" "\<And>k. heard bs' k = heard bs1 k"
    "readvertised mm transform self_key {k. \<exists>info. hm_get bs1 k = Some info \<and> bi_on_tree info} bs1 ts bs'"
    using blooms_do_maintenance_spec [OF assms fx, of mm transform] by blast
  have both: "\<exists>info1. hm_get bs1 k = Some info1 \<and> bi_on_tree info1 = bi_on_tree info'"
    if "hm_get bs' k = Some info'" for k info'
    using run(4) [of k] that by (cases "hm_get bs1 k") auto
  have "covers mm transform self_key bs' k f" if "is_on_tree bs' k" "get_send_bloom k bs' = Some f" for k f
  proof -
    from that obtain info' where i: "hm_get bs' k = Some info'" "bi_on_tree info'" "f = bi_send info'"
      by (auto simp: is_on_tree_def get_send_bloom_def)
    with both [of k info'] show ?thesis
      using run(5) unfolding readvertised_def covers_cong [OF run(4)] by blast
  qed
  moreover have "(k, f) \<in> set (blanks @ ts)"
    if "get_send_bloom k bs' = Some f" "get_send_bloom k bs \<noteq> Some f" for k f
  proof -
    from that obtain info' where i: "hm_get bs' k = Some info'" "f = bi_send info'"
      by (auto simp: get_send_bloom_def)
    with both obtain info1 where i1: "hm_get bs1 k = Some info1" by blast
    then obtain info where i0: "hm_get bs k = Some info" "info1 = fixed_info (tree_link self_key self_parent infos k) info"
      using spec by (cases "hm_get bs k") auto
    show ?thesis
    proof (cases "bi_send info' = bi_send info1")
      case True
      then have "f = bloom_new" "bi_on_tree info" "\<not> tree_link self_key self_parent infos k"
        using that i i0 by (auto simp: get_send_bloom_def fixed_info_def split: if_splits)
      then show ?thesis using spec i0(1) by (auto dest: map_of_SomeD)
    next
      case False
      then show ?thesis using run(5) i i1 unfolding readvertised_def by auto
    qed
  qed
  ultimately show ?thesis using run(1,2) by blast
qed

theorem maintenance_advertises_witness:
  "\<exists>to_send bs'. blooms_do_maintenance (\<lambda>d s. Some (of_nat (length d))) None [0] [1] [] [([1], bloom_info_new)] =
     Some (to_send, bs') \<and> wf_blooms bs'"
  using maintenance_advertises [of "[([1], bloom_info_new)]" "\<lambda>d s. Some (of_nat (length d))" None "[0]" "[1]" "[]"]
  by (auto simp: wf_blooms_def wf_bloom_info_new)

text \<open>A lookup is forwarded to exactly the peers on the tree, other than the one it came from,
  whose received filter answers for the transformed destination, each of them once.\<close>

theorem multicast_targets_exact:
  assumes "hm_wf bs"
  shows "distinct (get_multicast_targets mm transform from_key to_key bs) \<and>
    (k \<in> set (get_multicast_targets mm transform from_key to_key bs) \<longleftrightarrow>
       k \<noteq> from_key \<and> is_on_tree bs k \<and>
       (\<exists>info. hm_get bs k = Some info \<and> bloom_test mm (bi_recv info) (x_key transform to_key)))"
  using assms
  by (auto simp: get_multicast_targets_def Let_def distinct_map_filter is_on_tree_def image_iff
      map_of_eq_Some_iff)

theorem multicast_targets_exact_witness:
  "[7] \<notin> set (get_multicast_targets (\<lambda>d s. None) None [7] [9] [([7], bloom_info_new\<lparr>bi_on_tree := True\<rparr>)])"
  using multicast_targets_exact [of "[([7], bloom_info_new\<lparr>bi_on_tree := True\<rparr>)]" "\<lambda>d s. None" None "[7]" "[9]" "[7]"]
  by simp

end
