(* ===== verification/Packet.thy ===== *)
theory Packet
  imports Wire
begin

text \<open>
  The traffic packet of \<open>crates/ironwood/src/traffic.rs\<close> as it moves through a node: the wire
  packet with one flag that is never written to the wire.
\<close>

record traffic_packet = traffic +
  tp_keepalive :: bool

definition traffic_packet_new :: "public_key \<Rightarrow> public_key \<Rightarrow> bytes \<Rightarrow> traffic_packet" where
  "traffic_packet_new source dest payload =
     \<lparr>tr_path = [], tr_from = [], tr_source = source, tr_dest = dest, tr_watermark = u64_max,
      tr_payload = payload, tp_keepalive = False\<rparr>"

definition keepalive :: "traffic_packet \<Rightarrow> traffic_packet" where
  "keepalive tr = tr\<lparr>tp_keepalive := True\<rparr>"

definition wire_size :: "traffic_packet \<Rightarrow> nat" where
  "wire_size tr =
     path_size (tr_path tr) + path_size (tr_from tr) + PUBLIC_KEY_SIZE + PUBLIC_KEY_SIZE +
     uvarint_size (tr_watermark tr) + length (tr_payload tr)"

lemma wire_size_encode:
  "wf_traffic (traffic.truncate tr) \<Longrightarrow> wire_size tr = length (traffic_encode (traffic.truncate tr))"
  by (simp add: wire_size_def length_traffic_encode traffic_size_def traffic.truncate_def)

lemma wire_size_pos: "0 < wire_size tr"
  by (simp add: wire_size_def PUBLIC_KEY_SIZE_def)

end
