(* ===== verification/Pathfinder.thy ===== *)
theory Pathfinder
  imports Packet
begin

text \<open>
  Path discovery, \<open>crates/ironwood/src/pathfinder.rs\<close>: the cache of paths to destinations, the
  pending lookups (rumors) with the packet each of them buffers, and the node's own signed path.
  \<open>now\<close> is the value of \<open>Instant::now()\<close> during the call; \<open>elapsed\<close> and \<open>duration_since\<close>
  saturate at zero, as subtraction of natural numbers does. Signing is a parameter.
\<close>

section \<open>State\<close>

record path_info =
  pi_path :: "peer_port list"
  pi_seq :: u64
  pi_req_time :: instant
  pi_last_refresh :: instant
  pi_cached_traffic :: "traffic_packet option"
  pi_broken :: bool

record path_rumor =
  ru_traffic :: "traffic_packet option"
  ru_send_time :: "instant option"
  ru_retry_time :: "instant option"
  ru_created :: instant

record own_path_info =
  own_seq :: u64
  own_path :: "peer_port list"
  own_sig :: signature

record pathfinder =
  pf_info :: own_path_info
  pf_paths :: "(public_key, path_info) hmap"
  pf_rumors :: "(public_key, path_rumor) hmap"

section \<open>Our own path\<close>

definition own_path_info_new :: own_path_info where
  "own_path_info_new = \<lparr>own_seq = 0, own_path = [], own_sig = replicate SIGNATURE_SIZE 0\<rparr>"

definition own_bytes_for_sig :: "own_path_info \<Rightarrow> bytes" where
  "own_bytes_for_sig info = encode_uvarint (own_seq info) @ encode_path (own_path info)"

definition own_sign :: "(bytes \<Rightarrow> signature) \<Rightarrow> own_path_info \<Rightarrow> own_path_info" where
  "own_sign sign info = info\<lparr>own_sig := sign (own_bytes_for_sig info)\<rparr>"

definition content_equal :: "own_path_info \<Rightarrow> own_path_info \<Rightarrow> bool" where
  "content_equal info other \<longleftrightarrow> own_seq info = own_seq other \<and> own_path info = own_path other"

definition pathfinder_new :: "(bytes \<Rightarrow> signature) \<Rightarrow> pathfinder" where
  "pathfinder_new sign = \<lparr>pf_info = own_sign sign own_path_info_new, pf_paths = [], pf_rumors = []\<rparr>"

section \<open>Operations\<close>

definition should_throttle_lookup :: "instant \<Rightarrow> public_key \<Rightarrow> duration \<Rightarrow> pathfinder \<Rightarrow> bool" where
  "should_throttle_lookup now dest throttle pf =
     (case hm_get (pf_paths pf) dest of
        Some info \<Rightarrow> now - pi_req_time info < throttle
      | None \<Rightarrow> False)"

definition mark_lookup_sent :: "instant \<Rightarrow> public_key \<Rightarrow> pathfinder \<Rightarrow> pathfinder" where
  "mark_lookup_sent now dest pf =
     pf\<lparr>pf_paths := hm_modify dest (\<lambda>info. info\<lparr>pi_req_time := now\<rparr>) (pf_paths pf)\<rparr>"

definition should_throttle_rumor :: "instant \<Rightarrow> public_key \<Rightarrow> duration \<Rightarrow> pathfinder \<Rightarrow> bool" where
  "should_throttle_rumor now xformed_dest throttle pf =
     (case hm_get (pf_rumors pf) xformed_dest of
        Some rumor \<Rightarrow> (case ru_send_time rumor of None \<Rightarrow> False | Some t \<Rightarrow> now - t < throttle)
      | None \<Rightarrow> False)"

definition ensure_rumor :: "instant \<Rightarrow> public_key \<Rightarrow> pathfinder \<Rightarrow> bool \<times> pathfinder" where
  "ensure_rumor now xformed_dest pf =
     (if hm_contains (pf_rumors pf) xformed_dest then (False, pf)
      else (True, pf\<lparr>pf_rumors := hm_insert xformed_dest
             \<lparr>ru_traffic = None, ru_send_time = None, ru_retry_time = None, ru_created = now\<rparr>
             (pf_rumors pf)\<rparr>))"

definition mark_rumor_sent :: "instant \<Rightarrow> public_key \<Rightarrow> pathfinder \<Rightarrow> pathfinder" where
  "mark_rumor_sent now xformed_dest pf =
     pf\<lparr>pf_rumors := hm_modify xformed_dest (\<lambda>rumor. rumor\<lparr>ru_send_time := Some now\<rparr>) (pf_rumors pf)\<rparr>"

definition should_throttle_rumor_retry :: "instant \<Rightarrow> public_key \<Rightarrow> duration \<Rightarrow> pathfinder \<Rightarrow> bool" where
  "should_throttle_rumor_retry now xformed_dest throttle pf =
     (case hm_get (pf_rumors pf) xformed_dest of
        Some rumor \<Rightarrow>
          let recent = (\<lambda>t. case t of None \<Rightarrow> False | Some t \<Rightarrow> now - t < throttle)
          in recent (ru_send_time rumor) \<or> recent (ru_retry_time rumor)
      | None \<Rightarrow> False)"

definition mark_rumor_retry :: "instant \<Rightarrow> public_key \<Rightarrow> pathfinder \<Rightarrow> pathfinder" where
  "mark_rumor_retry now xformed_dest pf =
     pf\<lparr>pf_rumors := hm_modify xformed_dest (\<lambda>rumor. rumor\<lparr>ru_retry_time := Some now\<rparr>) (pf_rumors pf)\<rparr>"

definition cache_rumor_traffic :: "public_key \<Rightarrow> traffic_packet \<Rightarrow> pathfinder \<Rightarrow> pathfinder" where
  "cache_rumor_traffic xformed_dest tr pf =
     pf\<lparr>pf_rumors := hm_modify xformed_dest (\<lambda>rumor. rumor\<lparr>ru_traffic := Some tr\<rparr>) (pf_rumors pf)\<rparr>"

text \<open>The cached packet is taken out of the rumor only when it is addressed to the source of the
  notification: a rumor is indexed by the transformed key, which several keys may share.\<close>

definition accept_notify ::
  "instant \<Rightarrow> public_key \<Rightarrow> public_key \<Rightarrow> u64 \<Rightarrow> peer_port list \<Rightarrow> pathfinder \<Rightarrow>
     (bool \<times> traffic_packet option) \<times> pathfinder" where
  "accept_notify now source xformed_source nseq npath pf =
     (case hm_get (pf_paths pf) source of
        Some info \<Rightarrow>
          if nseq \<le> pi_seq info then ((False, None), pf)
          else if \<not> pi_broken info \<and> pi_path info = npath then ((False, None), pf)
          else ((True, pi_cached_traffic info),
                pf\<lparr>pf_paths := hm_modify source
                     (\<lambda>info. info\<lparr>pi_path := npath, pi_seq := nseq, pi_broken := False,
                                  pi_last_refresh := now, pi_cached_traffic := None\<rparr>) (pf_paths pf)\<rparr>)
      | None \<Rightarrow>
          (case hm_get (pf_rumors pf) xformed_source of
             None \<Rightarrow> ((False, None), pf)
           | Some rumor \<Rightarrow>
               let takes = (case ru_traffic rumor of None \<Rightarrow> False | Some t \<Rightarrow> tr_dest t = source);
                   traffic = (if takes then ru_traffic rumor else None);
                   rumors = (if takes
                             then hm_modify xformed_source (\<lambda>rumor. rumor\<lparr>ru_traffic := None\<rparr>) (pf_rumors pf)
                             else pf_rumors pf)
               in ((True, traffic),
                   pf\<lparr>pf_rumors := rumors,
                      pf_paths := hm_insert source
                        \<lparr>pi_path = npath, pi_seq = nseq, pi_req_time = now,
                         pi_last_refresh = now, pi_cached_traffic = None, pi_broken = False\<rparr>
                        (pf_paths pf)\<rparr>)))"

definition pf_handle_broken :: "public_key \<Rightarrow> pathfinder \<Rightarrow> pathfinder" where
  "pf_handle_broken dest pf =
     pf\<lparr>pf_paths := hm_modify dest (\<lambda>info. info\<lparr>pi_broken := True\<rparr>) (pf_paths pf)\<rparr>"

definition learn_path_from_traffic ::
  "instant \<Rightarrow> public_key \<Rightarrow> peer_port list \<Rightarrow> pathfinder \<Rightarrow> pathfinder" where
  "learn_path_from_traffic now source path pf =
     pf\<lparr>pf_paths := hm_entry source
          \<lparr>pi_path = path, pi_seq = 0, pi_req_time = now, pi_last_refresh = now,
           pi_cached_traffic = None, pi_broken = False\<rparr> (pf_paths pf)\<rparr>"

definition reset_timeout :: "instant \<Rightarrow> public_key \<Rightarrow> pathfinder \<Rightarrow> pathfinder" where
  "reset_timeout now key pf =
     pf\<lparr>pf_paths := hm_modify key
          (\<lambda>info. if \<not> pi_broken info then info\<lparr>pi_last_refresh := now\<rparr> else info) (pf_paths pf)\<rparr>"

definition refresh_if_coords_match ::
  "instant \<Rightarrow> public_key \<Rightarrow> peer_port list \<Rightarrow> pathfinder \<Rightarrow> pathfinder" where
  "refresh_if_coords_match now key from pf =
     (let matches = (case hm_get (pf_paths pf) key of
                       None \<Rightarrow> False
                     | Some info \<Rightarrow> \<not> pi_broken info \<and> pi_path info = from)
      in if matches then reset_timeout now key pf else pf)"

definition cache_rumor_traffic_if_absent ::
  "public_key \<Rightarrow> traffic_packet \<Rightarrow> pathfinder \<Rightarrow> pathfinder" where
  "cache_rumor_traffic_if_absent xformed_dest tr pf =
     pf\<lparr>pf_rumors := hm_modify xformed_dest
          (\<lambda>rumor. if ru_traffic rumor = None then rumor\<lparr>ru_traffic := Some tr\<rparr> else rumor)
          (pf_rumors pf)\<rparr>"

definition get_path :: "public_key \<Rightarrow> pathfinder \<Rightarrow> peer_port list option" where
  "get_path dest pf =
     (case hm_get (pf_paths pf) dest of
        None \<Rightarrow> None
      | Some info \<Rightarrow> if \<not> pi_broken info then Some (pi_path info) else None)"

definition needs_traffic_cache :: "public_key \<Rightarrow> pathfinder \<Rightarrow> bool" where
  "needs_traffic_cache dest pf =
     (case hm_get (pf_paths pf) dest of
        None \<Rightarrow> False
      | Some info \<Rightarrow> pi_cached_traffic info = None)"

definition cache_traffic :: "public_key \<Rightarrow> traffic_packet \<Rightarrow> pathfinder \<Rightarrow> pathfinder" where
  "cache_traffic dest tr pf =
     pf\<lparr>pf_paths := hm_modify dest (\<lambda>info. info\<lparr>pi_cached_traffic := Some tr\<rparr>) (pf_paths pf)\<rparr>"

definition expiry_base :: "path_rumor \<Rightarrow> instant" where
  "expiry_base rumor = (case ru_send_time rumor of None \<Rightarrow> ru_created rumor | Some t \<Rightarrow> t)"

definition cleanup_expired :: "instant \<Rightarrow> duration \<Rightarrow> pathfinder \<Rightarrow> pathfinder" where
  "cleanup_expired now path_timeout pf =
     pf\<lparr>pf_paths := hm_retain (\<lambda>_ info. now - pi_last_refresh info < path_timeout) (pf_paths pf),
        pf_rumors := hm_retain (\<lambda>_ rumor. now - expiry_base rumor < path_timeout) (pf_rumors pf)\<rparr>"

definition rumors_needing_retry :: "pathfinder \<Rightarrow> public_key list" where
  "rumors_needing_retry pf =
     filter (\<lambda>dest. case hm_get (pf_paths pf) dest of None \<Rightarrow> True | Some info \<Rightarrow> pi_broken info)
       (List.map_filter (\<lambda>(_, rumor). map_option tr_dest (ru_traffic rumor)) (pf_rumors pf))"

section \<open>Events\<close>

text \<open>The calls the router makes, as events; \<open>PfTraffic\<close> is what the router does on every packet
  delivered to it.\<close>

datatype pf_event =
    PfNotify public_key public_key u64 "peer_port list"
  | PfBroken public_key
  | PfTraffic public_key "peer_port list"
  | PfLookupSent public_key
  | PfEnsureRumor public_key
  | PfRumorSent public_key
  | PfRumorRetry public_key
  | PfCacheRumor public_key traffic_packet
  | PfCacheRumorIfAbsent public_key traffic_packet
  | PfCacheTraffic public_key traffic_packet
  | PfCleanup duration

fun pf_step :: "instant \<times> pf_event \<Rightarrow> pathfinder \<Rightarrow> pathfinder" where
  "pf_step (now, PfNotify source xsource seq path) pf = snd (accept_notify now source xsource seq path pf)"
| "pf_step (now, PfBroken dest) pf = pf_handle_broken dest pf"
| "pf_step (now, PfTraffic source from) pf =
     refresh_if_coords_match now source from (learn_path_from_traffic now source from pf)"
| "pf_step (now, PfLookupSent dest) pf = mark_lookup_sent now dest pf"
| "pf_step (now, PfEnsureRumor x) pf = snd (ensure_rumor now x pf)"
| "pf_step (now, PfRumorSent x) pf = mark_rumor_sent now x pf"
| "pf_step (now, PfRumorRetry x) pf = mark_rumor_retry now x pf"
| "pf_step (now, PfCacheRumor x tr) pf = cache_rumor_traffic x tr pf"
| "pf_step (now, PfCacheRumorIfAbsent x tr) pf = cache_rumor_traffic_if_absent x tr pf"
| "pf_step (now, PfCacheTraffic dest tr) pf = cache_traffic dest tr pf"
| "pf_step (now, PfCleanup path_timeout) pf = cleanup_expired now path_timeout pf"

lemmas pf_op_defs = accept_notify_def pf_handle_broken_def refresh_if_coords_match_def
  reset_timeout_def learn_path_from_traffic_def mark_lookup_sent_def ensure_rumor_def
  mark_rumor_sent_def mark_rumor_retry_def cache_rumor_traffic_def
  cache_rumor_traffic_if_absent_def cache_traffic_def cleanup_expired_def Let_def

section \<open>Invariant\<close>

text \<open>The maps have distinct keys, and a packet cached with a path is addressed to its destination.\<close>

definition pf_inv :: "pathfinder \<Rightarrow> bool" where
  "pf_inv pf \<longleftrightarrow> hm_wf (pf_paths pf) \<and> hm_wf (pf_rumors pf) \<and>
     (\<forall>k info t. hm_get (pf_paths pf) k = Some info \<longrightarrow> pi_cached_traffic info = Some t \<longrightarrow> tr_dest t = k)"

fun pf_allowed :: "instant \<times> pf_event \<Rightarrow> bool" where
  "pf_allowed (now, PfCacheTraffic dest tr) = (tr_dest tr = dest)"
| "pf_allowed (now, _) = True"

lemma pf_wf_step: "hm_wf (pf_paths pf) \<and> hm_wf (pf_rumors pf) \<Longrightarrow>
    hm_wf (pf_paths (pf_step e pf)) \<and> hm_wf (pf_rumors (pf_step e pf))"
  by (cases "(e, pf)" rule: pf_step.cases) (auto simp: pf_op_defs split: option.splits)

lemma pf_cached_step:
  assumes "pf_inv pf" "pf_allowed e" "hm_get (pf_paths (pf_step e pf)) k = Some info"
    "pi_cached_traffic info = Some t"
  shows "tr_dest t = k"
  using assms
  by (cases "(e, pf)" rule: pf_step.cases)
    (auto simp: pf_op_defs pf_inv_def hm_get_retain split: option.splits if_splits)

interpretation pf: event_invariant pf_step pf_allowed pf_inv
proof
  fix pf e
  assume inv: "pf_inv pf" and al: "pf_allowed e"
  then have "hm_wf (pf_paths pf) \<and> hm_wf (pf_rumors pf)" by (simp add: pf_inv_def)
  from pf_wf_step [OF this, of e] pf_cached_step [OF inv al] show "pf_inv (pf_step e pf)"
    unfolding pf_inv_def by blast
qed

text \<open>The invariant for each operation by itself.\<close>

lemma pf_inv_accept_notify:
  "pf_inv pf \<Longrightarrow> accept_notify now source xsource seq path pf = (res, pf') \<Longrightarrow> pf_inv pf'"
  using pf.step_inv [of pf "(now, PfNotify source xsource seq path)"] by simp

lemma accept_notify_released:
  "pf_inv pf \<Longrightarrow> accept_notify now source xsource seq path pf = ((accepted, Some t), pf') \<Longrightarrow>
   accepted \<and> tr_dest t = source"
  by (auto simp: accept_notify_def pf_inv_def Let_def split: option.splits if_splits)

lemma pf_inv_traffic:
  "pf_inv pf \<Longrightarrow> pf_inv (refresh_if_coords_match now source from (learn_path_from_traffic now source from pf))"
  using pf.step_inv [of pf "(now, PfTraffic source from)"] by simp

lemma pf_inv_broken: "pf_inv pf \<Longrightarrow> pf_inv (pf_handle_broken dest pf)"
  using pf.step_inv [of pf "(0, PfBroken dest)"] by simp

lemma pf_inv_lookup_sent: "pf_inv pf \<Longrightarrow> pf_inv (mark_lookup_sent now dest pf)"
  using pf.step_inv [of pf "(now, PfLookupSent dest)"] by simp

lemma pf_inv_ensure_rumor: "pf_inv pf \<Longrightarrow> pf_inv (snd (ensure_rumor now x pf))"
  using pf.step_inv [of pf "(now, PfEnsureRumor x)"] by simp

lemma pf_inv_rumor_sent: "pf_inv pf \<Longrightarrow> pf_inv (mark_rumor_sent now x pf)"
  using pf.step_inv [of pf "(now, PfRumorSent x)"] by simp

lemma pf_inv_rumor_retry: "pf_inv pf \<Longrightarrow> pf_inv (mark_rumor_retry now x pf)"
  using pf.step_inv [of pf "(now, PfRumorRetry x)"] by simp

lemma pf_inv_cache_rumor: "pf_inv pf \<Longrightarrow> pf_inv (cache_rumor_traffic x tr pf)"
  using pf.step_inv [of pf "(0, PfCacheRumor x tr)"] by simp

lemma pf_inv_cache_rumor_if_absent: "pf_inv pf \<Longrightarrow> pf_inv (cache_rumor_traffic_if_absent x tr pf)"
  using pf.step_inv [of pf "(0, PfCacheRumorIfAbsent x tr)"] by simp

lemma pf_inv_cache_traffic: "pf_inv pf \<Longrightarrow> tr_dest tr = dest \<Longrightarrow> pf_inv (cache_traffic dest tr pf)"
  using pf.step_inv [of pf "(0, PfCacheTraffic dest tr)"] by simp

lemma pf_inv_cleanup: "pf_inv pf \<Longrightarrow> pf_inv (cleanup_expired now path_timeout pf)"
  using pf.step_inv [of pf "(now, PfCleanup path_timeout)"] by simp

lemma pf_inv_info: "pf_inv pf \<Longrightarrow> pf_inv (pf\<lparr>pf_info := info\<rparr>)"
  by (simp add: pf_inv_def)

lemma pf_inv_new: "pf_inv (pathfinder_new sign)"
  by (simp add: pf_inv_def pathfinder_new_def)

lemmas pf_inv_ops = pf_inv_traffic pf_inv_broken pf_inv_lookup_sent pf_inv_ensure_rumor
  pf_inv_rumor_sent pf_inv_rumor_retry pf_inv_cache_rumor pf_inv_cache_rumor_if_absent
  pf_inv_cleanup pf_inv_info

section \<open>What a run may do to an entry\<close>

text \<open>The entry of a destination only moves forward: while it is not removed by a cleanup, its
  sequence number never decreases, and as long as the sequence number is the same its path and
  its broken mark do not improve.\<close>

definition info_le :: "path_info \<Rightarrow> path_info \<Rightarrow> bool" where
  "info_le info info' \<longleftrightarrow>
     pi_seq info < pi_seq info' \<or>
     pi_seq info = pi_seq info' \<and> pi_path info = pi_path info' \<and> (pi_broken info \<longrightarrow> pi_broken info')"

definition entry_before :: "public_key \<Rightarrow> pathfinder \<Rightarrow> pathfinder \<Rightarrow> bool" where
  "entry_before k pf pf' \<longleftrightarrow>
     (case hm_get (pf_paths pf) k of
        None \<Rightarrow> True
      | Some info \<Rightarrow> (case hm_get (pf_paths pf') k of None \<Rightarrow> False | Some info' \<Rightarrow> info_le info info'))"

fun not_cleanup :: "instant \<times> pf_event \<Rightarrow> bool" where
  "not_cleanup (now, PfCleanup _) = False"
| "not_cleanup (now, _) = True"

lemma info_le_refl: "info_le i i"
  by (simp add: info_le_def)

lemma info_le_trans: "info_le i j \<Longrightarrow> info_le j k \<Longrightarrow> info_le i k"
  by (auto simp: info_le_def dest: less_trans)

lemma entry_before_step: "not_cleanup e \<Longrightarrow> entry_before k pf (pf_step e pf)"
  by (cases "(e, pf)" rule: pf_step.cases)
    (auto simp: entry_before_def info_le_def pf_op_defs not_le split: option.split)

interpretation pf_entry: event_order pf_step not_cleanup "entry_before k" for k
proof
  show "entry_before k s s" for s
    by (simp add: entry_before_def info_le_refl split: option.splits)
  show "entry_before k s u" if "entry_before k s t" "entry_before k t u" for s t u
    using that by (auto simp: entry_before_def split: option.splits intro: info_le_trans)
qed (rule entry_before_step)

text \<open>A rumor keeps its expiry base while no lookup is sent for it on behalf of an application
  write and it is not created anew.\<close>

definition rumor_kept :: "public_key \<Rightarrow> pathfinder \<Rightarrow> pathfinder \<Rightarrow> bool" where
  "rumor_kept x pf pf' \<longleftrightarrow> (hm_wf (pf_rumors pf) \<longrightarrow> hm_wf (pf_rumors pf') \<and>
     (\<forall>r'. hm_get (pf_rumors pf') x = Some r' \<longrightarrow>
        (\<exists>r. hm_get (pf_rumors pf) x = Some r \<and> expiry_base r' = expiry_base r)))"

fun not_app_write :: "public_key \<Rightarrow> instant \<times> pf_event \<Rightarrow> bool" where
  "not_app_write x (now, PfEnsureRumor y) = (y \<noteq> x)"
| "not_app_write x (now, PfRumorSent y) = (y \<noteq> x)"
| "not_app_write x (now, _) = True"

lemma rumor_kept_step: "not_app_write x e \<Longrightarrow> rumor_kept x pf (pf_step e pf)"
  by (cases "(e, pf)" rule: pf_step.cases)
    (auto simp: rumor_kept_def pf_op_defs expiry_base_def hm_get_retain split: option.splits if_splits)

interpretation pf_rumor: event_order pf_step "not_app_write x" "rumor_kept x" for x
proof
  show "rumor_kept x s s" for s by (simp add: rumor_kept_def)
  show "rumor_kept x s u" if "rumor_kept x s t" "rumor_kept x t u" for s t u
    unfolding rumor_kept_def
  proof (intro impI conjI allI)
    assume wf: "hm_wf (pf_rumors s)"
    then have wft: "hm_wf (pf_rumors t)" using that(1) by (simp add: rumor_kept_def)
    then show "hm_wf (pf_rumors u)" using that(2) by (simp add: rumor_kept_def)
    fix r'
    assume "hm_get (pf_rumors u) x = Some r'"
    with wft that(2) obtain r1 where "hm_get (pf_rumors t) x = Some r1" "expiry_base r' = expiry_base r1"
      unfolding rumor_kept_def by blast
    with wf that(1) show "\<exists>r. hm_get (pf_rumors s) x = Some r \<and> expiry_base r' = expiry_base r"
      unfolding rumor_kept_def by simp
  qed
qed (rule rumor_kept_step)

text \<open>Unsigned traffic leaves an existing entry alone, except for the time of its last refresh, and
  an entry it creates has sequence number 0.\<close>

definition unpoisoned :: "public_key \<Rightarrow> pathfinder \<Rightarrow> pathfinder \<Rightarrow> bool" where
  "unpoisoned k pf pf' \<longleftrightarrow>
     (case hm_get (pf_paths pf) k of
        None \<Rightarrow> (case hm_get (pf_paths pf') k of None \<Rightarrow> True | Some info' \<Rightarrow> pi_seq info' = 0)
      | Some info \<Rightarrow>
          (case hm_get (pf_paths pf') k of
             None \<Rightarrow> False
           | Some info' \<Rightarrow> pi_path info' = pi_path info \<and> pi_seq info' = pi_seq info \<and>
               pi_broken info' = pi_broken info \<and> pi_cached_traffic info' = pi_cached_traffic info))"

fun is_pf_traffic :: "instant \<times> pf_event \<Rightarrow> bool" where
  "is_pf_traffic (now, PfTraffic _ _) = True"
| "is_pf_traffic (now, _) = False"

lemma unpoisoned_step: "is_pf_traffic e \<Longrightarrow> unpoisoned k pf (pf_step e pf)"
  by (cases "(e, pf)" rule: pf_step.cases) (auto simp: unpoisoned_def pf_op_defs split: option.splits)

interpretation pf_unsigned: event_order pf_step is_pf_traffic "unpoisoned k" for k
  by unfold_locales (auto simp: unpoisoned_step, auto simp: unpoisoned_def split: option.splits)

section \<open>Properties\<close>

text \<open>C32. \<open>accept_notify\<close> accepts a notification for a known destination exactly when its sequence
  number is strictly newer and the path is new or was broken, and for an unknown destination
  exactly when a rumor waits for it. An accepted notification makes its path the usable path;
  a refused one changes nothing; no other destination is touched; and a packet it releases is
  addressed to the source of the notification.\<close>

theorem accept_notify_exact:
  assumes "pf_inv pf" "accept_notify now source xsource seq path pf = ((accepted, released), pf')"
  shows "(accepted \<longleftrightarrow> (case hm_get (pf_paths pf) source of
        Some info \<Rightarrow> pi_seq info < seq \<and> (pi_broken info \<or> pi_path info \<noteq> path)
      | None \<Rightarrow> hm_contains (pf_rumors pf) xsource)) \<and>
    (accepted \<longrightarrow> get_path source pf' = Some path) \<and>
    (\<not> accepted \<longrightarrow> pf' = pf \<and> released = None) \<and>
    (\<forall>k. k \<noteq> source \<longrightarrow> hm_get (pf_paths pf') k = hm_get (pf_paths pf) k) \<and>
    (\<forall>t. released = Some t \<longrightarrow> tr_dest t = source)"
  using assms
  by (auto simp: accept_notify_def pf_inv_def Let_def get_path_def hm_contains_def not_le
      split: option.splits if_splits)

theorem accept_notify_exact_witness:
  "get_path [1] (snd (accept_notify 5 [1] [1] 3 [7, 8]
     (snd (ensure_rumor 4 [1] (pathfinder_new (\<lambda>_. [])))))) = Some [7, 8]"
proof -
  let ?pf = "snd (ensure_rumor 4 [1] (pathfinder_new (\<lambda>_. [])))"
  have "pf_inv ?pf"
    by (simp add: pf_inv_def pathfinder_new_def ensure_rumor_def hm_contains_def)
  moreover obtain released pf' where run: "accept_notify 5 [1] [1] 3 [7, 8] ?pf = ((True, released), pf')"
    by (simp add: accept_notify_def pathfinder_new_def ensure_rumor_def hm_contains_def)
  ultimately have "get_path [1] pf' = Some [7, 8]"
    using accept_notify_exact [of ?pf 5 "[1]" "[1]" 3 "[7, 8]" True released pf'] by blast
  then show ?thesis by (simp add: run)
qed

text \<open>C33. Traffic with a forged, unsigned \<open>from\<close> header cannot poison the path cache. Whatever packets
  arrive, in whatever order, an existing entry keeps its path, its sequence number, its broken
  mark and its cached packet (only the time of its last refresh may change); an entry that appears
  carries sequence number 0, and once a notification with a positive sequence number for that key
  has been handled, the usable path is the one of the notification.\<close>

theorem unsigned_traffic_cannot_poison:
  assumes "list_all is_pf_traffic es" "pf' = fold pf_step es pf"
  shows "unpoisoned k pf pf' \<and>
    (hm_get (pf_paths pf) k = None \<and> hm_get (pf_paths pf') k \<noteq> None \<and> 0 < seq \<longrightarrow>
       get_path k (snd (accept_notify now k xk seq path pf')) = Some path)"
proof -
  have u: "unpoisoned k pf pf'" unfolding assms(2) by (rule pf_unsigned.run_before [OF assms(1)])
  moreover have "get_path k (snd (accept_notify now k xk seq path pf')) = Some path"
    if new: "hm_get (pf_paths pf) k = None" "hm_get (pf_paths pf') k \<noteq> None" "0 < seq"
  proof -
    obtain info where "hm_get (pf_paths pf') k = Some info" "pi_seq info = 0" using u new(1,2) by (auto simp: unpoisoned_def)
    then show ?thesis using new(3) by (auto simp: accept_notify_def get_path_def)
  qed
  ultimately show ?thesis by blast
qed

theorem unsigned_traffic_cannot_poison_witness:
  "get_path [1] (snd (accept_notify 9 [1] [1] 2 [7]
     (fold pf_step [(3, PfTraffic [1] [5]), (4, PfTraffic [1] [6])] (snd (ensure_rumor 2 [1] (pathfinder_new (\<lambda>_. []))))))) = Some [7]"
proof -
  let ?pf = "snd (ensure_rumor 2 [1] (pathfinder_new (\<lambda>_. [])))" and ?es = "[(3, PfTraffic [1] [5]), (4, PfTraffic [1] [6])]"
  have "hm_get (pf_paths ?pf) [1] = None" "hm_get (pf_paths (fold pf_step ?es ?pf)) [1] \<noteq> None"
    by (simp_all add: pf_op_defs pathfinder_new_def ensure_rumor_def hm_contains_def)
  then show ?thesis using unsigned_traffic_cannot_poison [of ?es "fold pf_step ?es ?pf" ?pf "[1]" 2 9 "[1]" "[7]"] by simp
qed

text \<open>A path that was marked broken stays unusable until a notification with a strictly newer
  sequence number for that very destination is accepted: after any sequence of events other than
  cleanups, if the destination has a usable path again, then its sequence number has grown.\<close>

theorem broken_path_needs_newer_notify:
  assumes "list_all not_cleanup es" "hm_get (pf_paths pf) k = Some info" "pi_broken info"
    "get_path k (fold pf_step es pf) = Some path"
  shows "\<exists>info'. hm_get (pf_paths (fold pf_step es pf)) k = Some info' \<and> pi_seq info < pi_seq info'"
  using pf_entry.run_before [OF assms(1), of k pf] assms(2-)
  by (auto simp: entry_before_def info_le_def get_path_def split: option.splits if_splits)

theorem broken_path_needs_newer_notify_witness:
  "\<exists>info'. hm_get (pf_paths (fold pf_step [(9, PfTraffic [1] [5]), (9, PfNotify [1] [1] 4 [5])]
      \<lparr>pf_info = own_path_info_new, pf_paths = [([1], \<lparr>pi_path = [5], pi_seq = 3, pi_req_time = 0,
         pi_last_refresh = 0, pi_cached_traffic = None, pi_broken = True\<rparr>)], pf_rumors = []\<rparr>)) [1] =
      Some info' \<and> 3 < pi_seq info'"
  using broken_path_needs_newer_notify
    [of "[(9, PfTraffic [1] [5]), (9, PfNotify [1] [1] 4 [5])]"
      "\<lparr>pf_info = own_path_info_new, pf_paths = [([1], \<lparr>pi_path = [5], pi_seq = 3, pi_req_time = 0,
         pi_last_refresh = 0, pi_cached_traffic = None, pi_broken = True\<rparr>)], pf_rumors = []\<rparr>"
      "[1]" "\<lparr>pi_path = [5], pi_seq = 3, pi_req_time = 0,
         pi_last_refresh = 0, pi_cached_traffic = None, pi_broken = True\<rparr>" "[5]"]
  by (simp add: pf_op_defs get_path_def hm_entry_def hm_modify_def)

text \<open>The retries that maintenance makes for a pending lookup do not keep it alive: whatever
  happens, unless the application writes to that destination again, the rumor is gone after the
  first cleanup that comes at least \<open>path_timeout\<close> after its last application write.\<close>

theorem rumor_lifetime_bounded:
  assumes "list_all (not_app_write x) es" "hm_wf (pf_rumors pf)"
    "hm_get (pf_rumors pf) x = Some r" "expiry_base r + path_timeout \<le> now"
  shows "hm_get (pf_rumors (cleanup_expired now path_timeout (fold pf_step es pf))) x = None"
proof -
  have kept: "rumor_kept x pf (fold pf_step es pf)"
    by (rule pf_rumor.run_before [OF assms(1)])
  show ?thesis
  proof (cases "hm_get (pf_rumors (fold pf_step es pf)) x")
    case None
    with kept assms(2) show ?thesis
      by (simp add: rumor_kept_def cleanup_expired_def hm_get_retain)
  next
    case (Some r')
    with kept assms(2,3) have "hm_wf (pf_rumors (fold pf_step es pf))" "expiry_base r' = expiry_base r"
      by (auto simp: rumor_kept_def)
    with Some assms(4) show ?thesis
      by (simp add: cleanup_expired_def hm_get_retain)
  qed
qed

theorem rumor_lifetime_bounded_witness:
  "hm_get (pf_rumors (cleanup_expired 70 60 (fold pf_step [(20, PfRumorRetry [1]), (40, PfRumorRetry [1])]
      (mark_rumor_sent 10 [1] (snd (ensure_rumor 9 [1] (pathfinder_new (\<lambda>_. [])))))))) [1] = None"
  using rumor_lifetime_bounded
    [of "[1]" "[(20, PfRumorRetry [1]), (40, PfRumorRetry [1])]"
      "mark_rumor_sent 10 [1] (snd (ensure_rumor 9 [1] (pathfinder_new (\<lambda>_. []))))"
      "\<lparr>ru_traffic = None, ru_send_time = Some 10, ru_retry_time = None, ru_created = 9\<rparr>" 60 70]
  by (simp add: mark_rumor_sent_def ensure_rumor_def pathfinder_new_def hm_contains_def expiry_base_def)

end
