(* ===== verification/Router.thy ===== *)
theory Router
  imports Router_Tree Bloom Pathfinder
begin

text \<open>
  The router of \<open>crates/ironwood/src/router.rs\<close>: its whole state and every operation, with the
  actions it asks the network layer to perform. What a call reads from outside is collected in
  \<open>router_env\<close>: signing with the node's key, verification, the Murmur3 hash, the clock, the wall
  clock in seconds and the random numbers drawn during the call.

  Three operations call each other: a notification may release a buffered packet, routing that
  packet may find its path broken, and the lookup sent for it may be answered by the node itself
  with a notification. The operations take the notification handler as an argument \<open>hn\<close>, and
  \<open>handle_notify_internal\<close> has a depth; the value \<open>None\<close> means that the depth was exhausted or
  that the code panics.
\<close>

section \<open>State\<close>

definition UNKNOWN_LATENCY :: duration where
  "UNKNOWN_LATENCY = 4294967295"

record peer_entry =
  pe_id :: peer_id
  pe_key :: public_key
  pe_port :: peer_port
  pe_prio :: u8
  pe_order :: u64

record sig_req_state =
  rq_seq :: u64
  rq_nonce :: u64

record sig_res_state =
  rs_seq :: u64
  rs_nonce :: u64
  rs_port :: peer_port
  rs_psig :: signature

record router_path =
  rp_root :: public_key
  rp_path :: "peer_port list"

datatype router_action =
    SendSigReq peer_id sig_req
  | SendSigRes peer_id sig_res
  | SendAnnounce peer_id announce
  | SendBloom peer_id bloom_filter
  | SendTraffic peer_id traffic_packet
  | SendPathNotify peer_id path_notify
  | SendPathLookup peer_id path_lookup
  | SendPathBroken peer_id path_broken
  | DeliverTraffic traffic_packet
  | PathNotifyCallback public_key

record router =
  r_public_key :: public_key
  r_pathfinder :: pathfinder
  r_blooms :: blooms
  r_peers :: "(public_key, (peer_id, peer_entry) hmap) hmap"
  r_sent :: "(public_key, public_key list) hmap"
  r_ports :: "(peer_port, public_key) hmap"
  r_infos :: infos
  r_info_times :: "(public_key, instant) hmap"
  r_ancs :: "(public_key, public_key list) hmap"
  r_cache :: "(public_key, router_path) hmap"
  r_lags :: "(peer_id, duration) hmap"
  r_rtts :: "(peer_id, duration) hmap"
  r_requests :: "(public_key, sig_req_state) hmap"
  r_responses :: "(public_key, sig_res_state) hmap"
  r_responded :: "peer_id list"
  r_res_seqs :: "(public_key, u64) hmap"
  r_res_seq_ctr :: u64
  r_refresh :: bool
  r_do_root1 :: bool
  r_do_root2 :: bool
  r_last_refresh :: instant
  r_last_status_log :: instant
  r_router_refresh :: duration
  r_router_timeout :: duration
  r_path_timeout :: duration
  r_path_throttle :: duration
  r_bloom_transform :: bloom_transform

record router_env =
  env_sign :: "bytes \<Rightarrow> signature"
  env_verify :: verifier
  env_murmur3 :: murmur3
  env_now :: instant
  env_unix_secs :: u64
  env_random :: "nat \<Rightarrow> u64"

text \<open>The configuration the constructor reads.\<close>

record router_config =
  cfg_router_refresh :: duration
  cfg_router_timeout :: duration
  cfg_path_timeout :: duration
  cfg_path_throttle :: duration
  cfg_bloom_transform :: bloom_transform

definition router_new :: "router_env \<Rightarrow> public_key \<Rightarrow> router_config \<Rightarrow> router" where
  "router_new env public_key config =
     \<lparr>r_public_key = public_key, r_pathfinder = pathfinder_new (env_sign env), r_blooms = [],
      r_peers = [], r_sent = [], r_ports = [], r_infos = [], r_info_times = [], r_ancs = [],
      r_cache = [], r_lags = [], r_rtts = [], r_requests = [], r_responses = [], r_responded = [],
      r_res_seqs = [], r_res_seq_ctr = 0, r_refresh = False, r_do_root1 = False, r_do_root2 = True,
      r_last_refresh = env_now env, r_last_status_log = env_now env,
      r_router_refresh = cfg_router_refresh config, r_router_timeout = cfg_router_timeout config,
      r_path_timeout = cfg_path_timeout config, r_path_throttle = cfg_path_throttle config,
      r_bloom_transform = cfg_bloom_transform config\<rparr>"

abbreviation set_pathfinder :: "(pathfinder \<Rightarrow> pathfinder) \<Rightarrow> router \<Rightarrow> router" where
  "set_pathfinder f r \<equiv> r\<lparr>r_pathfinder := f (r_pathfinder r)\<rparr>"

section \<open>Coordinates and distances\<close>

definition reset_cache :: "router \<Rightarrow> router" where
  "reset_cache r = r\<lparr>r_cache := []\<rparr>"

definition cached_root_and_path :: "public_key \<Rightarrow> router \<Rightarrow> router_path \<times> router" where
  "cached_root_and_path key r =
     (case hm_get (r_cache r) key of
        Some rp \<Rightarrow> (rp, r)
      | None \<Rightarrow>
          let (root, path) = get_root_and_path (r_infos r) key;
              rp = \<lparr>rp_root = root, rp_path = path\<rparr>
          in (rp, r\<lparr>r_cache := hm_insert key rp (r_cache r)\<rparr>))"

definition cached_coords :: "public_key \<Rightarrow> router \<Rightarrow> peer_port list \<times> router" where
  "cached_coords key r = (let (rp, r) = cached_root_and_path key r in (rp_path rp, r))"

fun dist_loop :: "peer_port list \<Rightarrow> peer_port list \<Rightarrow> u64 \<Rightarrow> u64" where
  "dist_loop (k # key_path) (d # dest_path) dist =
     (if k = d then dist_loop key_path dest_path (dist - 2) else dist)"
| "dist_loop _ _ dist = dist"

definition get_dist :: "peer_port list \<Rightarrow> public_key \<Rightarrow> router \<Rightarrow> u64 \<times> router" where
  "get_dist dest_path key r =
     (let (self_rp, r) = cached_root_and_path (r_public_key r) r;
          self_root = rp_root self_rp;
          (rp, r) = cached_root_and_path key r;
          root = rp_root rp
      in if (case hm_get (r_infos r) root of None \<Rightarrow> True | Some info \<Rightarrow> ri_parent info \<noteq> root)
         then (u64_max, r)
         else if root \<noteq> self_root then (u64_max, r)
         else let key_path = rp_path rp
              in (dist_loop key_path dest_path (of_nat (length key_path + length dest_path)), r))"

definition get_cost :: "router \<Rightarrow> peer_id \<Rightarrow> u64" where
  "get_cost r peer_id =
     (let lag = (case hm_get (r_lags r) peer_id of None \<Rightarrow> UNKNOWN_LATENCY | Some l \<Rightarrow> l);
          c = of_nat (lag div 1000000) :: u64
      in if c = 0 then 1 else c)"

section \<open>Greedy lookup\<close>

fun lookup_candidates ::
  "peer_port list \<Rightarrow> u64 \<Rightarrow> public_key list \<Rightarrow> peer_entry list \<Rightarrow> router \<Rightarrow> peer_entry list \<times> router" where
  "lookup_candidates path best_dist [] candidates r = (candidates, r)"
| "lookup_candidates path best_dist (k # peer_keys) candidates r =
     (let (dist, r) = get_dist path k r
      in if dist < best_dist
         then lookup_candidates path best_dist peer_keys
                (candidates @ (case hm_get (r_peers r) k of Some peers \<Rightarrow> map snd peers | None \<Rightarrow> [])) r
         else lookup_candidates path best_dist peer_keys candidates r)"

definition lookup_accept ::
  "peer_entry \<Rightarrow> u64 \<Rightarrow> u64 \<Rightarrow> peer_entry \<Rightarrow> u64 \<Rightarrow> u64 \<Rightarrow> bool" where
  "lookup_accept p cost dist bp best_cost best_dist =
     (if pe_key p = pe_key bp \<and> pe_prio p < pe_prio bp then True
      else if pe_key p = pe_key bp \<and> pe_prio p > pe_prio bp then False
      else if saturating_mul cost dist < saturating_mul best_cost best_dist then True
      else if saturating_mul cost dist > saturating_mul best_cost best_dist then False
      else if dist < best_dist then True
      else if dist > best_dist then False
      else if cost < best_cost then True
      else if cost > best_cost then False
      else pe_order p < pe_order bp)"

fun lookup_best ::
  "peer_port list \<Rightarrow> peer_entry list \<Rightarrow> (peer_entry \<times> u64 \<times> u64) option \<Rightarrow> router \<Rightarrow>
     peer_entry option \<times> router" where
  "lookup_best path [] best r = (map_option fst best, r)"
| "lookup_best path (p # candidates) best r =
     (let (dist, r) = get_dist path (pe_key p) r;
          cost = get_cost r (pe_id p)
      in case best of
           None \<Rightarrow> lookup_best path candidates (Some (p, cost, dist)) r
         | Some (bp, best_cost, best_dist) \<Rightarrow>
             if lookup_accept p cost dist bp best_cost best_dist
             then lookup_best path candidates (Some (p, cost, dist)) r
             else lookup_best path candidates best r)"

text \<open>\<open>lookup\<close> updates the watermark through a mutable reference; here it is returned.\<close>

definition lookup :: "peer_port list \<Rightarrow> u64 \<Rightarrow> router \<Rightarrow> (peer_id option \<times> u64) \<times> router" where
  "lookup path watermark r =
     (let (self_dist, r) = get_dist path (r_public_key r) r
      in if self_dist \<ge> watermark then ((None, watermark), r)
         else
           let watermark = self_dist;
               (candidates, r) = lookup_candidates path self_dist (hm_keys (r_peers r)) [] r;
               (best_peer, r) = lookup_best path candidates None r
           in ((map_option pe_id best_peer, watermark), r))"

definition best_peer_for_key :: "router \<Rightarrow> public_key \<Rightarrow> peer_id option" where
  "best_peer_for_key r key =
     (case hm_get (r_peers r) key of
        None \<Rightarrow> None
      | Some peers \<Rightarrow>
          (case map snd peers of
             [] \<Rightarrow> None
           | e # es \<Rightarrow> Some (pe_id (foldl (\<lambda>best e. if pe_prio e < pe_prio best then e else best) e es))))"

section \<open>Signature protocol\<close>

text \<open>The sequence number of a request is one more than our own; \<open>+\<close> on words wraps, as in a
  release build. \<open>n\<close> numbers the random draws of one call.\<close>

definition new_req :: "router_env \<Rightarrow> nat \<Rightarrow> router \<Rightarrow> sig_req_state" where
  "new_req env n r =
     (let seq = (case hm_get (r_infos r) (r_public_key r) of None \<Rightarrow> 0 | Some i \<Rightarrow> ri_seq i) + 1
      in \<lparr>rq_seq = seq, rq_nonce = env_random env n\<rparr>)"

definition handle_request_with_data :: "router_env \<Rightarrow> peer_entry \<Rightarrow> sig_req \<Rightarrow> router \<Rightarrow> router_action" where
  "handle_request_with_data env peer req r =
     (let psig = env_sign env (sig_res_bytes_for_sig (pe_key peer) (r_public_key r) (req_seq req)
                                 (req_nonce req) (pe_port peer))
      in SendSigRes (pe_id peer)
           \<lparr>res_seq = req_seq req, res_nonce = req_nonce req, res_port = pe_port peer, res_psig = psig\<rparr>)"

definition smoothed_lag :: "duration \<Rightarrow> duration \<Rightarrow> duration" where
  "smoothed_lag lag rtt =
     (if lag = UNKNOWN_LATENCY then rtt * 2
      else lag * 7 div 8 + min rtt (lag * 2) div 8)"

definition handle_response :: "peer_id \<Rightarrow> public_key \<Rightarrow> sig_res \<Rightarrow> duration \<Rightarrow> router \<Rightarrow> router" where
  "handle_response peer_id key res rtt r =
     (let req_match = (case hm_get (r_requests r) key of
                         None \<Rightarrow> False
                       | Some q \<Rightarrow> rq_seq q = res_seq res \<and> rq_nonce q = res_nonce res);
          r = (if rtt \<noteq> 0 then r\<lparr>r_rtts := hm_insert peer_id rtt (r_rtts r)\<rparr> else r);
          r = (if \<not> hm_contains (r_responses r) key \<and> req_match
               then r\<lparr>r_res_seq_ctr := r_res_seq_ctr r + 1,
                      r_res_seqs := hm_insert key (r_res_seq_ctr r + 1) (r_res_seqs r),
                      r_responses := hm_insert key
                        \<lparr>rs_seq = res_seq res, rs_nonce = res_nonce res, rs_port = res_port res,
                         rs_psig = res_psig res\<rparr> (r_responses r)\<rparr>
               else r)
      in if peer_id \<notin> set (r_responded r) \<and> req_match
         then let lag = (case hm_get (r_lags r) peer_id of None \<Rightarrow> UNKNOWN_LATENCY | Some l \<Rightarrow> l)
              in r\<lparr>r_responded := peer_id # r_responded r,
                   r_lags := hm_insert peer_id (smoothed_lag lag rtt) (r_lags r)\<rparr>
         else r)"

section \<open>Tree updates\<close>

definition update :: "router_env \<Rightarrow> router_announce \<Rightarrow> router \<Rightarrow> bool \<times> router" where
  "update env ann r =
     (if \<not> update_accepts (r_infos r) ann then (False, r)
      else
        let r = r\<lparr>r_sent := hm_map (\<lambda>_ sent. removeAll (ra_key ann) sent) (r_sent r)\<rparr>;
            r = reset_cache r
        in (True, r\<lparr>r_infos := hm_insert (ra_key ann) (info_of ann) (r_infos r),
                    r_info_times := hm_insert (ra_key ann) (env_now env) (r_info_times r)\<rparr>))"

definition mark_sent :: "public_key \<Rightarrow> public_key \<Rightarrow> router \<Rightarrow> router" where
  "mark_sent peer_key key r = r\<lparr>r_sent := hm_modify peer_key (List.insert key) (r_sent r)\<rparr>"

definition handle_announce ::
  "router_env \<Rightarrow> peer_id \<Rightarrow> public_key \<Rightarrow> router_announce \<Rightarrow> router \<Rightarrow> router_action list \<times> router" where
  "handle_announce env peer_id peer_key ann r =
     (let (accepted, r) = update env ann r
      in if accepted then
           let r = (if ra_key ann = r_public_key r then r\<lparr>r_refresh := True\<rparr> else r)
           in ([], mark_sent peer_key (ra_key ann) r)
         else
           case hm_get (r_infos r) (ra_key ann) of
             None \<Rightarrow> ([], r)
           | Some old_info \<Rightarrow>
               if old_info \<noteq> info_of ann
               then ([SendAnnounce peer_id (to_wire (get_announce old_info (ra_key ann)))],
                     mark_sent peer_key (ra_key ann) r)
               else ([], mark_sent peer_key (ra_key ann) r))"

definition become_root :: "router_env \<Rightarrow> nat \<Rightarrow> router \<Rightarrow> bool \<times> router" where
  "become_root env n r =
     (let req = new_req env n r;
          self_key = r_public_key r;
          psig = env_sign env (sig_res_bytes_for_sig self_key self_key (rq_seq req) (rq_nonce req) 0)
      in update env \<lparr>ra_key = self_key, ra_parent = self_key, ra_seq = rq_seq req, ra_nonce = rq_nonce req,
                    ra_port = 0, ra_psig = psig, ra_sig = psig\<rparr> r)"

definition use_response :: "router_env \<Rightarrow> public_key \<Rightarrow> sig_res_state \<Rightarrow> router \<Rightarrow> bool \<times> router" where
  "use_response env peer_key res r =
     (let self_key = r_public_key r;
          sig = env_sign env (sig_res_bytes_for_sig self_key peer_key (rs_seq res) (rs_nonce res) (rs_port res))
      in update env \<lparr>ra_key = self_key, ra_parent = peer_key, ra_seq = rs_seq res, ra_nonce = rs_nonce res,
                    ra_port = rs_port res, ra_psig = rs_psig res, ra_sig = sig\<rparr> r)"

section \<open>Parent selection\<close>

definition self_info_parent :: "router \<Rightarrow> public_key" where
  "self_info_parent r =
     (case hm_get (r_infos r) (r_public_key r) of Some i \<Rightarrow> ri_parent i | None \<Rightarrow> r_public_key r)"

definition min_link_cost :: "router \<Rightarrow> u64 \<Rightarrow> public_key \<Rightarrow> u64" where
  "min_link_cost r dist_to_root key =
     (case hm_get (r_peers r) key of
        None \<Rightarrow> u64_max
      | Some peers \<Rightarrow>
          foldl (\<lambda>cost (_, entry).
            let c = saturating_mul dist_to_root (get_cost r (pe_id entry))
            in if c < cost then c else cost) u64_max peers)"

text \<open>One round of the loop over the peers that answered; the doubling of the cost wraps, as in a
  release build.\<close>

definition select_step ::
  "router \<Rightarrow> public_key \<Rightarrow> public_key \<times> public_key \<times> u64 \<Rightarrow> public_key \<times> public_key \<times> u64" where
  "select_step r pk best =
     (let (best_root, best_parent, best_cost) = best
      in if \<not> hm_contains (r_infos r) pk then best
         else
           let (p_root, p_dists, valid) = get_root_and_dists (r_infos r) pk
           in if \<not> valid then best
              else if hm_contains p_dists (r_public_key r) then best
              else
                let dist_to_root = (case hm_get p_dists p_root of None \<Rightarrow> u64_max | Some d \<Rightarrow> d + 1);
                    cost = min_link_cost r dist_to_root pk
                in if \<not> p_root < best_root \<and> p_root \<noteq> best_root then best
                   else
                     let (best_root, best_parent, best_cost) =
                           (if p_root < best_root then (p_root, pk, cost) else best)
                     in if (r_refresh r \<and> cost * 2 < best_cost) \<or>
                           (best_parent \<noteq> self_info_parent r \<and> cost < best_cost)
                        then (p_root, pk, cost)
                        else (best_root, best_parent, best_cost))"

definition select_parent :: "router \<Rightarrow> public_key \<times> public_key" where
  "select_parent r =
     (let self_key = r_public_key r;
          best = (self_key, self_key, u64_max);
          best = (if hm_contains (r_peers r) (self_info_parent r) then
                    let (root, dists, valid) = get_root_and_dists (r_infos r) self_key
                    in if valid \<and> root < self_key
                       then (root, self_info_parent r,
                             min_link_cost r (case hm_get dists root of None \<Rightarrow> u64_max | Some d \<Rightarrow> d)
                               (self_info_parent r))
                       else best
                  else best);
          (best_root, best_parent, best_cost) = fold (select_step r) (hm_keys (r_responses r)) best
      in (best_root, best_parent))"

definition clear_reqs :: "router \<Rightarrow> router" where
  "clear_reqs r = r\<lparr>r_requests := [], r_responses := [], r_res_seqs := [], r_res_seq_ctr := 0\<rparr>"

fun send_reqs_loop ::
  "router_env \<Rightarrow> nat \<Rightarrow> (public_key \<times> peer_id list) list \<Rightarrow> router_action list \<Rightarrow> router \<Rightarrow>
     router_action list \<times> router" where
  "send_reqs_loop env n [] actions r = (actions, r)"
| "send_reqs_loop env n ((pk, peer_ids) # peer_keys) actions r =
     (let req = new_req env n r;
          r = r\<lparr>r_requests := hm_insert pk req (r_requests r),
                r_responded := filter (\<lambda>i. i \<notin> set peer_ids) (r_responded r)\<rparr>
      in send_reqs_loop env (n + 1) peer_keys
           (actions @ map (\<lambda>peer_id. SendSigReq peer_id \<lparr>req_seq = rq_seq req, req_nonce = rq_nonce req\<rparr>) peer_ids) r)"

definition send_reqs :: "router_env \<Rightarrow> nat \<Rightarrow> router \<Rightarrow> router_action list \<times> router" where
  "send_reqs env n r =
     (let r = clear_reqs r
      in send_reqs_loop env n (map (\<lambda>(k, ps). (k, hm_keys ps)) (r_peers r)) [] r)"

abbreviation clear_flags :: "router \<Rightarrow> router" where
  "clear_flags r \<equiv> r\<lparr>r_refresh := False, r_do_root1 := False, r_do_root2 := False\<rparr>"

definition fix_root :: "router_env \<Rightarrow> router \<Rightarrow> router_action list \<times> router" where
  "fix_root env r =
     (if r_do_root2 r then
        let (_, r) = become_root env 0 r
        in send_reqs env 1 (clear_flags r)
      else if \<not> r_do_root1 r then ([], r\<lparr>r_do_root1 := True\<rparr>)
      else ([], r))"

definition router_fix :: "router_env \<Rightarrow> router \<Rightarrow> router_action list \<times> router" where
  "router_fix env r =
     (let (best_root, best_parent) = select_parent r
      in if r_refresh r \<or> r_do_root1 r \<or> r_do_root2 r \<or> self_info_parent r \<noteq> best_parent then
           case hm_get (r_responses r) best_parent of
             Some res \<Rightarrow>
               if best_root \<noteq> r_public_key r then
                 let (ok, r') = use_response env best_parent res r
                 in if ok then send_reqs env 0 (clear_flags r') else fix_root env r'
               else fix_root env r
           | None \<Rightarrow> fix_root env r
         else ([], r))"

section \<open>Announcements and peers\<close>

fun unsent :: "public_key list \<Rightarrow> public_key list \<Rightarrow> public_key list \<Rightarrow> public_key list \<times> public_key list" where
  "unsent [] to_send sent = (to_send, sent)"
| "unsent (k # ks) to_send sent =
     (if k \<notin> set sent then unsent ks (to_send @ [k]) (List.insert k sent) else unsent ks to_send sent)"

fun send_announces_loop ::
  "public_key list \<Rightarrow> public_key list \<Rightarrow> router_action list \<Rightarrow> router \<Rightarrow> (router_action list \<times> router) option" where
  "send_announces_loop self_anc [] actions r = Some (actions, r)"
| "send_announces_loop self_anc (peer_key # peer_keys) actions r =
     (let peer_anc = get_ancestry (r_infos r) peer_key
      in case hm_get (r_sent r) peer_key of
           None \<Rightarrow> None
         | Some sent \<Rightarrow>
             let (to_send, sent) = unsent self_anc [] sent;
                 (to_send, sent) = unsent peer_anc to_send sent;
                 r = r\<lparr>r_sent := hm_modify peer_key (\<lambda>_. sent) (r_sent r)\<rparr>;
                 anns = List.map_filter
                   (\<lambda>k. map_option (\<lambda>info. to_wire (get_announce info k)) (hm_get (r_infos r) k)) to_send;
                 new = (case hm_get (r_peers r) peer_key of
                          None \<Rightarrow> []
                        | Some peers \<Rightarrow>
                            concat (map (\<lambda>(_, entry). map (SendAnnounce (pe_id entry)) anns) peers))
             in send_announces_loop self_anc peer_keys (actions @ new) r)"

definition send_announces :: "router \<Rightarrow> (router_action list \<times> router) option" where
  "send_announces r =
     send_announces_loop (get_ancestry (r_infos r) (r_public_key r)) (hm_keys (r_sent r)) [] r"

fun update_ancestries_loop :: "public_key list \<Rightarrow> router \<Rightarrow> router" where
  "update_ancestries_loop [] r = r"
| "update_ancestries_loop (pkey # peer_keys) r =
     (let anc = get_ancestry (r_infos r) pkey;
          diff = (case hm_get (r_ancs r) pkey of None \<Rightarrow> True | Some old \<Rightarrow> old \<noteq> anc)
      in update_ancestries_loop peer_keys
           (if diff then r\<lparr>r_ancs := hm_insert pkey anc (r_ancs r)\<rparr> else r))"

definition update_ancestries :: "router \<Rightarrow> router" where
  "update_ancestries r = update_ancestries_loop (hm_keys (r_peers r)) r"

definition blooms_maintenance :: "router_env \<Rightarrow> router \<Rightarrow> (router_action list \<times> router) option" where
  "blooms_maintenance env r =
     (let self_key = r_public_key r;
          self_parent = self_info_parent r;
          parent_map = hm_map (\<lambda>_ v. ri_parent v) (r_infos r)
      in case blooms_do_maintenance (env_murmur3 env) (r_bloom_transform r) self_key self_parent parent_map
                (r_blooms r) of
           None \<Rightarrow> None
         | Some (to_send, bs) \<Rightarrow>
             let actions = concat (map (\<lambda>(peer_key, bloom).
                   case hm_get (r_peers r) peer_key of
                     None \<Rightarrow> []
                   | Some peers \<Rightarrow> map (\<lambda>(_, entry). SendBloom (pe_id entry) bloom) peers) to_send)
             in Some (actions, r\<lparr>r_blooms := bs\<rparr>))"

definition add_peer :: "router_env \<Rightarrow> peer_entry \<Rightarrow> router \<Rightarrow> router_action list \<times> router" where
  "add_peer env entry r =
     (let key = pe_key entry;
          peer_id = pe_id entry;
          (actions, r) =
            (if \<not> hm_contains (r_peers r) key
             then ([], r\<lparr>r_peers := hm_insert key [] (r_peers r), r_sent := hm_insert key [] (r_sent r),
                         r_ports := hm_insert (pe_port entry) key (r_ports r),
                         r_blooms := add_info key (r_blooms r)\<rparr>)
             else (case hm_get (r_sent r) key of
                     None \<Rightarrow> []
                   | Some sent_keys \<Rightarrow> List.map_filter
                       (\<lambda>k. map_option (\<lambda>info. SendAnnounce peer_id (to_wire (get_announce info k)))
                              (hm_get (r_infos r) k)) sent_keys, r));
          r = r\<lparr>r_peers := hm_modify key (hm_insert peer_id entry) (r_peers r),
                r_lags := hm_insert peer_id UNKNOWN_LATENCY (r_lags r)\<rparr>;
          r = (if \<not> hm_contains (r_requests r) key
               then r\<lparr>r_requests := hm_insert key (new_req env 0 r) (r_requests r)\<rparr> else r);
          r = r\<lparr>r_responded := removeAll peer_id (r_responded r)\<rparr>;
          actions = actions @ (case hm_get (r_requests r) key of
                                 None \<Rightarrow> []
                               | Some req \<Rightarrow> [SendSigReq peer_id \<lparr>req_seq = rq_seq req, req_nonce = rq_nonce req\<rparr>]);
          actions = actions @ (case get_send_bloom key (r_blooms r) of
                                 None \<Rightarrow> []
                               | Some bloom \<Rightarrow> [SendBloom peer_id bloom])
      in (actions, r))"

definition remove_peer ::
  "peer_id \<Rightarrow> public_key \<Rightarrow> peer_port \<Rightarrow> router \<Rightarrow> router_action list \<times> router" where
  "remove_peer peer_id key port r =
     (let r = r\<lparr>r_lags := hm_remove peer_id (r_lags r),
                r_responded := removeAll peer_id (r_responded r),
                r_rtts := hm_remove peer_id (r_rtts r)\<rparr>
      in case hm_get (r_peers r) key of
           None \<Rightarrow> ([], r)
         | Some peers \<Rightarrow>
             let peers = hm_remove peer_id peers;
                 r = r\<lparr>r_peers := hm_modify key (\<lambda>_. peers) (r_peers r)\<rparr>
             in if peers = []
                then ([], r\<lparr>r_peers := hm_remove key (r_peers r), r_sent := hm_remove key (r_sent r),
                            r_ports := hm_remove port (r_ports r), r_requests := hm_remove key (r_requests r),
                            r_responses := hm_remove key (r_responses r),
                            r_res_seqs := hm_remove key (r_res_seqs r), r_ancs := hm_remove key (r_ancs r),
                            r_cache := hm_remove key (r_cache r),
                            r_blooms := remove_info key (r_blooms r)\<rparr>)
                else (case get_send_bloom key (r_blooms r) of
                        None \<Rightarrow> []
                      | Some bloom \<Rightarrow> map (\<lambda>(_, entry). SendBloom (pe_id entry) bloom) peers, r))"

section \<open>Path discovery\<close>

type_synonym router_run = "router \<Rightarrow> (router_action list \<times> router) option"

definition handle_lookup_internal ::
  "(path_notify \<Rightarrow> router_run) \<Rightarrow> router_env \<Rightarrow> public_key \<Rightarrow> path_lookup \<Rightarrow> router_run" where
  "handle_lookup_internal hn env from_key lk r =
     (let targets = get_multicast_targets (env_murmur3 env) (r_bloom_transform r) from_key (lookup_dest lk) (r_blooms r);
          actions = List.map_filter (\<lambda>target_key.
            map_option (\<lambda>peer_id. SendPathLookup peer_id lk) (best_peer_for_key r target_key)) targets;
          dx = x_key (r_bloom_transform r) (lookup_dest lk);
          sx = x_key (r_bloom_transform r) (r_public_key r)
      in if dx = sx then
           let self_key = r_public_key r;
               (path, r) = cached_coords self_key r;
               info = \<lparr>own_seq = env_unix_secs env, own_path = path, own_sig = replicate SIGNATURE_SIZE 0\<rparr>;
               (info, r) =
                 (if \<not> content_equal (pf_info (r_pathfinder r)) info
                  then let info = own_sign (env_sign env) info
                       in (info, set_pathfinder (\<lambda>pf. pf\<lparr>pf_info := info\<rparr>) r)
                  else (pf_info (r_pathfinder r), r));
               notify = \<lparr>notify_path = lookup_from lk, notify_watermark = u64_max, notify_source = self_key,
                         notify_dest = lookup_source lk,
                         notify_info = \<lparr>pni_seq = own_seq info, pni_path = own_path info, pni_sig = own_sig info\<rparr>\<rparr>
           in map_option (\<lambda>(acts, r). (actions @ acts, r)) (hn notify r)
         else Some (actions, r))"

definition do_send_lookup :: "(path_notify \<Rightarrow> router_run) \<Rightarrow> router_env \<Rightarrow> public_key \<Rightarrow> router_run" where
  "do_send_lookup hn env dest r =
     (if should_throttle_lookup (env_now env) dest (r_path_throttle r) (r_pathfinder r) then Some ([], r)
      else
        let r = set_pathfinder (mark_lookup_sent (env_now env) dest) r;
            self_key = r_public_key r;
            (from, r) = cached_coords self_key r
        in handle_lookup_internal hn env self_key
             \<lparr>lookup_source = self_key, lookup_dest = dest, lookup_from = from\<rparr> r)"

definition handle_broken_internal ::
  "(path_notify \<Rightarrow> router_run) \<Rightarrow> router_env \<Rightarrow> path_broken \<Rightarrow> router_run" where
  "handle_broken_internal hn env broken r =
     (let ((found, watermark), r) = lookup (broken_path broken) (broken_watermark broken) r
      in case found of
           Some peer_id \<Rightarrow> Some ([SendPathBroken peer_id (broken\<lparr>broken_watermark := watermark\<rparr>)], r)
         | None \<Rightarrow>
             if broken_source broken \<noteq> r_public_key r then Some ([], r)
             else
               let r = set_pathfinder (pf_handle_broken (broken_dest broken)) r
               in if \<not> should_throttle_lookup (env_now env) (broken_dest broken) (r_path_throttle r) (r_pathfinder r)
                  then do_send_lookup hn env (broken_dest broken) r
                  else Some ([], r))"

definition do_broken :: "(path_notify \<Rightarrow> router_run) \<Rightarrow> router_env \<Rightarrow> traffic_packet \<Rightarrow> router_run" where
  "do_broken hn env tr r =
     handle_broken_internal hn env
       \<lparr>broken_path = tr_from tr, broken_watermark = u64_max, broken_source = tr_source tr,
        broken_dest = tr_dest tr\<rparr> r"

definition route_traffic :: "(path_notify \<Rightarrow> router_run) \<Rightarrow> router_env \<Rightarrow> traffic_packet \<Rightarrow> router_run" where
  "route_traffic hn env tr r =
     (let ((found, watermark), r) = lookup (tr_path tr) (tr_watermark tr) r
      in case found of
           Some peer_id \<Rightarrow> Some ([SendTraffic peer_id (tr\<lparr>tr_watermark := watermark\<rparr>)], r)
         | None \<Rightarrow>
             if tr_dest tr = r_public_key r then
               let r = set_pathfinder (learn_path_from_traffic (env_now env) (tr_source tr) (tr_from tr)) r;
                   r = set_pathfinder (refresh_if_coords_match (env_now env) (tr_source tr) (tr_from tr)) r
               in Some ([PathNotifyCallback (tr_source tr), DeliverTraffic tr], r)
             else do_broken hn env tr r)"

fun handle_notify_internal :: "nat \<Rightarrow> router_env \<Rightarrow> path_notify \<Rightarrow> router_run" where
  "handle_notify_internal 0 env notify r = None"
| "handle_notify_internal (Suc depth) env notify r =
     (let ((found, watermark), r) = lookup (notify_path notify) (notify_watermark notify) r
      in case found of
           Some peer_id \<Rightarrow> Some ([SendPathNotify peer_id (notify\<lparr>notify_watermark := watermark\<rparr>)], r)
         | None \<Rightarrow>
             if notify_dest notify \<noteq> r_public_key r then Some ([], r)
             else if \<not> env_verify env (notify_source notify)
                       (encode_uvarint (pni_seq (notify_info notify)) @ encode_path (pni_path (notify_info notify)))
                       (pni_sig (notify_info notify))
                  then Some ([], r)
             else
               let xformed_source = x_key (r_bloom_transform r) (notify_source notify);
                   ((accepted, traffic), pf) =
                     accept_notify (env_now env) (notify_source notify) xformed_source
                       (pni_seq (notify_info notify)) (pni_path (notify_info notify)) (r_pathfinder r);
                   r = r\<lparr>r_pathfinder := pf\<rparr>;
                   callback = (if accepted then [PathNotifyCallback (notify_source notify)] else [])
               in case traffic of
                    Some tr \<Rightarrow>
                      let (from, r) = cached_coords (r_public_key r) r;
                          tr = tr\<lparr>tr_path := pni_path (notify_info notify), tr_from := from\<rparr>
                      in map_option (\<lambda>(actions, r). (actions @ callback, r))
                           (route_traffic (handle_notify_internal depth env) env tr r)
                  | None \<Rightarrow> Some (callback, r))"

section \<open>Entry points\<close>

text \<open>A depth of two is enough for the handlers to return, as the properties below show.\<close>

definition NOTIFY_DEPTH :: nat where
  "NOTIFY_DEPTH = 2"

abbreviation notify_handler :: "router_env \<Rightarrow> path_notify \<Rightarrow> router_run" where
  "notify_handler env \<equiv> handle_notify_internal NOTIFY_DEPTH env"

definition handle_traffic :: "router_env \<Rightarrow> traffic_packet \<Rightarrow> router_run" where
  "handle_traffic env tr r = route_traffic (notify_handler env) env tr r"

definition send_traffic :: "router_env \<Rightarrow> traffic_packet \<Rightarrow> router_run" where
  "send_traffic env tr r =
     (case (if tr_payload tr \<noteq> [] then best_peer_for_key r (tr_dest tr) else None) of
        Some peer_id \<Rightarrow>
          let (path, r) = cached_coords (tr_dest tr) r;
              (from, r) = cached_coords (r_public_key r) r
          in Some ([SendTraffic peer_id (tr\<lparr>tr_path := path, tr_from := from, tr_watermark := 0\<rparr>)], r)
      | None \<Rightarrow>
          (case get_path (tr_dest tr) (r_pathfinder r) of
             Some path \<Rightarrow>
               let tr = tr\<lparr>tr_path := path\<rparr>;
                   (from, r) = cached_coords (r_public_key r) r;
                   tr = tr\<lparr>tr_from := from\<rparr>;
                   r = (if needs_traffic_cache (tr_dest tr) (r_pathfinder r)
                        then set_pathfinder (cache_traffic (tr_dest tr) tr) r else r)
               in route_traffic (notify_handler env) env tr r
           | None \<Rightarrow>
               let dest = tr_dest tr;
                   xform = x_key (r_bloom_transform r) dest;
                   r = set_pathfinder (\<lambda>pf. snd (ensure_rumor (env_now env) xform pf)) r;
                   r = (if tp_keepalive tr then set_pathfinder (cache_rumor_traffic_if_absent xform tr) r
                        else set_pathfinder (cache_rumor_traffic xform tr) r)
               in if \<not> should_throttle_rumor (env_now env) xform (r_path_throttle r) (r_pathfinder r)
                  then do_send_lookup (notify_handler env) env dest
                         (set_pathfinder (mark_rumor_sent (env_now env) xform) r)
                  else Some ([], r)))"

definition force_lookup :: "router_env \<Rightarrow> public_key \<Rightarrow> router_run" where
  "force_lookup env dest r =
     (let xform = x_key (r_bloom_transform r) dest;
          r = (if hm_contains (pf_rumors (r_pathfinder r)) xform
               then set_pathfinder (\<lambda>pf. pf\<lparr>pf_rumors :=
                      hm_modify xform (\<lambda>rumor. rumor\<lparr>ru_send_time := None\<rparr>) (pf_rumors pf)\<rparr>) r
               else set_pathfinder (\<lambda>pf. snd (ensure_rumor (env_now env) xform pf)) r)
      in do_send_lookup (notify_handler env) env dest r)"

definition handle_lookup :: "router_env \<Rightarrow> public_key \<Rightarrow> path_lookup \<Rightarrow> router_run" where
  "handle_lookup env peer_key lk r =
     (if \<not> is_on_tree (r_blooms r) peer_key then Some ([], r)
      else handle_lookup_internal (notify_handler env) env peer_key lk r)"

definition handle_notify :: "router_env \<Rightarrow> path_notify \<Rightarrow> router_run" where
  "handle_notify env notify r = notify_handler env notify r"

definition handle_broken :: "router_env \<Rightarrow> path_broken \<Rightarrow> router_run" where
  "handle_broken env broken r = handle_broken_internal (notify_handler env) env broken r"

definition router_handle_bloom :: "public_key \<Rightarrow> bloom_filter \<Rightarrow> router \<Rightarrow> router" where
  "router_handle_bloom peer_key flt r = r\<lparr>r_blooms := blooms_handle_bloom peer_key flt (r_blooms r)\<rparr>"

fun rumor_retry_loop :: "router_env \<Rightarrow> public_key list \<Rightarrow> router_action list \<Rightarrow> router_run" where
  "rumor_retry_loop env [] actions r = Some (actions, r)"
| "rumor_retry_loop env (dest # dests) actions r =
     (let xform = x_key (r_bloom_transform r) dest
      in if should_throttle_rumor_retry (env_now env) xform (r_path_throttle r) (r_pathfinder r)
         then rumor_retry_loop env dests actions r
         else
           case do_send_lookup (notify_handler env) env dest
                  (set_pathfinder (mark_rumor_retry (env_now env) xform) r) of
             None \<Rightarrow> None
           | Some (acts, r) \<Rightarrow> rumor_retry_loop env dests (actions @ acts) r)"

text \<open>The first part of \<open>do_maintenance\<close>: the two timers, the root flag, the caches.\<close>

definition maintenance_timers :: "router_env \<Rightarrow> router \<Rightarrow> router" where
  "maintenance_timers env r =
     (let now = env_now env;
          r = (if now - r_last_status_log r \<ge> 60 * 1000000000 then r\<lparr>r_last_status_log := now\<rparr> else r);
          r = (if now - r_last_refresh r \<ge> r_router_refresh r
               then r\<lparr>r_refresh := True, r_last_refresh := now\<rparr> else r);
          r = r\<lparr>r_do_root2 := r_do_root2 r \<or> r_do_root1 r\<rparr>;
          r = reset_cache r
      in update_ancestries r)"

definition do_maintenance :: "router_env \<Rightarrow> router_run" where
  "do_maintenance env r =
     (let r = maintenance_timers env r;
          (fixed, r) = router_fix env r
      in case send_announces r of
           None \<Rightarrow> None
         | Some (announced, r) \<Rightarrow>
             (case blooms_maintenance env r of
                None \<Rightarrow> None
              | Some (bloomed, r) \<Rightarrow>
                  let r = set_pathfinder (cleanup_expired (env_now env) (r_path_timeout r)) r
                  in rumor_retry_loop env (rumors_needing_retry (r_pathfinder r))
                       (fixed @ announced @ bloomed) r))"

definition force_refresh :: "router_env \<Rightarrow> router \<Rightarrow> router" where
  "force_refresh env r =
     r\<lparr>r_refresh := True, r_do_root1 := True, r_do_root2 := True,
       r_last_refresh := (if r_router_refresh r \<le> env_now env then env_now env - r_router_refresh r
                          else env_now env)\<rparr>"

definition expire_one :: "public_key \<Rightarrow> router \<Rightarrow> router" where
  "expire_one key r =
     (if key = r_public_key r then r\<lparr>r_refresh := True\<rparr>
      else reset_cache (r\<lparr>r_infos := hm_remove key (r_infos r),
                          r_info_times := hm_remove key (r_info_times r),
                          r_sent := hm_map (\<lambda>_ sent. removeAll key sent) (r_sent r)\<rparr>))"

definition expire_infos :: "router_env \<Rightarrow> router \<Rightarrow> router" where
  "expire_infos env r =
     (let expired = map fst (filter (\<lambda>(k, t).
            if k = r_public_key r then env_now env - t \<ge> r_router_refresh r
            else env_now env - t \<ge> r_router_timeout r) (r_info_times r))
      in fold expire_one expired r)"

end
