(* ===== verification/Router_Routing.thy ===== *)
theory Router_Routing
  imports Router
begin

text \<open>
  Greedy routing. The cache of coordinates is transparent: with a sound cache every operation
  that reads through it computes the function of the stored tree that it is meant to compute,
  and leaves a sound cache. On top of that: every hop of a packet strictly lowers its watermark,
  so no packet travels for ever whatever the tables of the nodes say; and in a network whose
  tables agree, greedy forwarding reaches the destination.
\<close>

section \<open>The cache is transparent\<close>

definition cache_ok :: "router \<Rightarrow> bool" where
  "cache_ok r \<longleftrightarrow> (\<forall>k rp. hm_get (r_cache r) k = Some rp \<longrightarrow>
     get_root_and_path (r_infos r) k = (rp_root rp, rp_path rp))"

text \<open>\<open>cache_step r r'\<close>: \<open>r'\<close> differs from \<open>r\<close> in the cache only, and its cache is sound.\<close>

definition cache_step :: "router \<Rightarrow> router \<Rightarrow> bool" where
  "cache_step r r' \<longleftrightarrow> cache_ok r' \<and> r'\<lparr>r_cache := []\<rparr> = r\<lparr>r_cache := []\<rparr>"

lemma cache_step_refl: "cache_ok r \<Longrightarrow> cache_step r r"
  by (simp add: cache_step_def)

lemma cache_step_trans: "cache_step r s \<Longrightarrow> cache_step s t \<Longrightarrow> cache_step r t"
  by (auto simp: cache_step_def)

lemma cache_step_ok: "cache_step r s \<Longrightarrow> cache_ok s"
  by (simp add: cache_step_def)

lemma cache_step_fields:
  "cache_step r s \<Longrightarrow> r_infos s = r_infos r \<and> r_public_key s = r_public_key r \<and> r_peers s = r_peers r \<and>
     r_lags s = r_lags r \<and> r_pathfinder s = r_pathfinder r \<and> r_blooms s = r_blooms r \<and>
     r_bloom_transform s = r_bloom_transform r \<and> r_path_throttle s = r_path_throttle r"
  by (cases r; cases s) (simp add: cache_step_def)

lemma cached_root_and_path_spec:
  assumes "cache_ok r" "cached_root_and_path key r = (rp, r')"
  shows "get_root_and_path (r_infos r) key = (rp_root rp, rp_path rp) \<and> cache_step r r'"
proof (cases "hm_get (r_cache r) key")
  case None
  then show ?thesis
    using assms by (auto simp: cached_root_and_path_def cache_step_def cache_ok_def Let_def split: prod.splits if_splits)
next
  case (Some rp')
  then show ?thesis
    using assms cache_step_refl [OF assms(1)] by (simp add: cached_root_and_path_def cache_ok_def)
qed

definition coords_of :: "router \<Rightarrow> public_key \<Rightarrow> peer_port list" where
  "coords_of r key = snd (get_root_and_path (r_infos r) key)"

lemma cached_coords_spec:
  "cache_ok r \<Longrightarrow> cached_coords key r = (path, r') \<Longrightarrow> path = coords_of r key \<and> cache_step r r'"
  by (auto simp: cached_coords_def coords_of_def dest: cached_root_and_path_spec split: prod.splits)

text \<open>The distance of a node to a path, read off the stored tree.\<close>

definition tree_dist :: "router \<Rightarrow> peer_port list \<Rightarrow> public_key \<Rightarrow> u64" where
  "tree_dist r dest_path key =
     (let root = fst (get_root_and_path (r_infos r) key);
          self_root = fst (get_root_and_path (r_infos r) (r_public_key r));
          key_path = coords_of r key
      in if (case hm_get (r_infos r) root of None \<Rightarrow> True | Some info \<Rightarrow> ri_parent info \<noteq> root) \<or> root \<noteq> self_root
         then u64_max
         else dist_loop key_path dest_path (of_nat (length key_path + length dest_path)))"

lemma tree_dist_cache_step: "cache_step r s \<Longrightarrow> tree_dist s = tree_dist r"
  by (intro ext) (simp add: tree_dist_def coords_of_def cache_step_fields)

lemma get_dist_spec:
  assumes ok: "cache_ok r" and g: "get_dist path key r = (d, r')"
  shows "d = tree_dist r path key \<and> cache_step r r'"
proof -
  obtain rp1 r1 where c1: "cached_root_and_path (r_public_key r) r = (rp1, r1)" by fastforce
  obtain rp2 r2 where c2: "cached_root_and_path key r1 = (rp2, r2)" by fastforce
  have s1: "get_root_and_path (r_infos r) (r_public_key r) = (rp_root rp1, rp_path rp1)" "cache_step r r1"
    using cached_root_and_path_spec [OF ok c1] by auto
  have s2: "get_root_and_path (r_infos r1) key = (rp_root rp2, rp_path rp2)" "cache_step r1 r2"
    using cached_root_and_path_spec [OF cache_step_ok [OF s1(2)] c2] by auto
  have "cache_step r r2" by (rule cache_step_trans [OF s1(2) s2(2)])
  then show ?thesis
    using g s1(1) s2(1) c1 c2 cache_step_fields [OF s1(2)] cache_step_fields [of r r2]
    by (auto simp: get_dist_def tree_dist_def coords_of_def Let_def split: if_splits)
qed

section \<open>What a lookup returns\<close>

lemma lookup_candidates_spec:
  assumes "cache_ok r" "lookup_candidates path bd ks cands r = (cs, r')"
  shows "cache_step r r' \<and>
    set cs = set cands \<union> {e. \<exists>k peers. k \<in> set ks \<and> tree_dist r path k < bd \<and>
       hm_get (r_peers r) k = Some peers \<and> e \<in> snd ` set peers}"
  using assms
proof (induction ks arbitrary: cands r)
  case Nil
  then show ?case by (simp add: cache_step_refl)
next
  case (Cons k ks)
  obtain d r1 where g: "get_dist path k r = (d, r1)" by fastforce
  have d: "d = tree_dist r path k" "cache_step r r1" using get_dist_spec [OF Cons.prems(1) g] by auto
  define cands' where "cands' = (if d < bd then
      cands @ (case hm_get (r_peers r1) k of Some peers \<Rightarrow> map snd peers | None \<Rightarrow> []) else cands)"
  have "lookup_candidates path bd ks cands' r1 = (cs, r')"
    using Cons.prems(2) g by (simp add: cands'_def split: if_splits)
  note IH = Cons.IH [OF cache_step_ok [OF d(2)] this]
  have "cache_step r r'" using cache_step_trans [OF d(2)] IH by blast
  moreover have "set cs = set cands \<union> {e. \<exists>k' peers. k' \<in> set (k # ks) \<and> tree_dist r path k' < bd \<and>
       hm_get (r_peers r) k' = Some peers \<and> e \<in> snd ` set peers}"
    using IH cache_step_fields [OF d(2)] tree_dist_cache_step [OF d(2)] d(1)
    by (auto simp: cands'_def split: option.splits if_splits)
  ultimately show ?case by blast
qed

lemma lookup_best_spec:
  assumes "cache_ok r" "lookup_best path cs best r = (res, r')"
  shows "cache_step r r' \<and> (res = None \<longleftrightarrow> best = None \<and> cs = []) \<and>
    set_option res \<subseteq> set cs \<union> fst ` set_option best"
  using assms
proof (induction cs arbitrary: best r)
  case Nil
  then show ?case by (auto simp: cache_step_refl)
next
  case (Cons p cs)
  obtain d r1 where g: "get_dist path (pe_key p) r = (d, r1)" by fastforce
  have d: "cache_step r r1" using get_dist_spec [OF Cons.prems(1) g] by auto
  obtain best' where b: "lookup_best path cs best' r1 = (res, r')" "best' \<noteq> None"
    "fst ` set_option best' \<subseteq> insert p (fst ` set_option best)"
    using Cons.prems(2) g
    by (cases best) (auto simp: Let_def split: if_splits prod.splits)
  from Cons.IH [OF cache_step_ok [OF d] b(1)] b show ?case
    using cache_step_trans [OF d] by auto
qed

lemma lookup_spec:
  assumes ok: "cache_ok r" and l: "lookup path w r = ((found, w'), r')"
  shows "cache_step r r' \<and>
    (if w \<le> tree_dist r path (r_public_key r) then found = None \<and> w' = w
     else w' = tree_dist r path (r_public_key r) \<and>
       (found = None \<longleftrightarrow> (\<forall>k peers. hm_get (r_peers r) k = Some peers \<longrightarrow> tree_dist r path k < w' \<longrightarrow> peers = [])) \<and>
       (\<forall>p. found = Some p \<longrightarrow> (\<exists>k peers e. hm_get (r_peers r) k = Some peers \<and> e \<in> snd ` set peers \<and>
          pe_id e = p \<and> tree_dist r path k < w')))"
proof -
  let ?d = "tree_dist r path (r_public_key r)"
  obtain d r1 where g: "get_dist path (r_public_key r) r = (d, r1)" by fastforce
  have d: "d = ?d" "cache_step r r1" using get_dist_spec [OF ok g] by auto
  note f1 = cache_step_fields [OF d(2)]
  show ?thesis
  proof (cases "w \<le> ?d")
    case True
    then show ?thesis using l g d by (simp add: lookup_def)
  next
    case False
    obtain cs r2 where c: "lookup_candidates path d (hm_keys (r_peers r1)) [] r1 = (cs, r2)" by fastforce
    obtain best r3 where b: "lookup_best path cs None r2 = (best, r3)" by fastforce
    note cspec = lookup_candidates_spec [OF cache_step_ok [OF d(2)] c]
    have c': "cache_step r1 r2" "set cs = {e. \<exists>k peers. tree_dist r path k < ?d \<and>
        hm_get (r_peers r) k = Some peers \<and> e \<in> snd ` set peers}"
    proof -
      show "cache_step r1 r2" using cspec by blast
      have "set cs = {e. \<exists>k peers. k \<in> set (hm_keys (r_peers r)) \<and> tree_dist r path k < ?d \<and>
          hm_get (r_peers r) k = Some peers \<and> e \<in> snd ` set peers}"
        using cspec f1 d(1) tree_dist_cache_step [OF d(2)] by simp
      then show "set cs = {e. \<exists>k peers. tree_dist r path k < ?d \<and>
          hm_get (r_peers r) k = Some peers \<and> e \<in> snd ` set peers}"
        using hm_get_Some_key [of "r_peers r"] by blast
    qed
    have b': "cache_step r2 r3" "best = None \<longleftrightarrow> cs = []" "set_option best \<subseteq> set cs"
      using lookup_best_spec [OF cache_step_ok [OF c'(1)] b] by auto
    have res: "found = map_option pe_id best" "w' = ?d" "r' = r3"
      using l g c b False d by (auto simp: lookup_def Let_def)
    have "cs = [] \<longleftrightarrow> (\<forall>k peers. hm_get (r_peers r) k = Some peers \<longrightarrow> tree_dist r path k < ?d \<longrightarrow> peers = [])"
    proof -
      have "peers = [] \<longleftrightarrow> (\<forall>e. e \<notin> snd ` set peers)" for peers :: "(peer_id, peer_entry) hmap" by (cases peers) auto
      then show ?thesis unfolding set_empty [symmetric] c'(2) by blast
    qed
    then have "found = None \<longleftrightarrow> (\<forall>k peers. hm_get (r_peers r) k = Some peers \<longrightarrow> tree_dist r path k < ?d \<longrightarrow> peers = [])"
      using res b' by simp
    moreover have "\<exists>k peers e. hm_get (r_peers r) k = Some peers \<and> e \<in> snd ` set peers \<and>
        pe_id e = p \<and> tree_dist r path k < ?d" if "found = Some p" for p
    proof -
      from that res obtain b where "best = Some b" "pe_id b = p" by auto
      then have "b \<in> set cs" using b'(3) by simp
      then show ?thesis unfolding c'(2) using \<open>pe_id b = p\<close> by blast
    qed
    moreover have "cache_step r r3"
      using cache_step_trans [OF d(2) cache_step_trans [OF c'(1) b'(1)]] .
    ultimately show ?thesis using False res by simp
  qed
qed

section \<open>Watermarks strictly decrease\<close>

text \<open>This needs no assumption on the state, not even a sound cache.\<close>

lemma lookup_watermark:
  "lookup path w r = ((Some p, w'), r') \<Longrightarrow> w' < w"
  by (auto simp: lookup_def Let_def not_le split: prod.splits if_splits)

lemma lookup_zero: "fst (lookup path 0 r) = (None, 0)"
  by (simp add: lookup_def split: prod.splits)

text \<open>The handlers of path discovery never answer with a single packet to forward: a released packet
  comes together with the callback for the notification that released it.\<close>

definition no_single_traffic :: "router_run \<Rightarrow> bool" where
  "no_single_traffic f \<longleftrightarrow> (\<forall>r p tr r'. f r \<noteq> Some ([SendTraffic p tr], r'))"

lemma handle_lookup_internal_cases:
  assumes "handle_lookup_internal hn env key lk r = Some (acts, r')"
  obtains (sent) ls where "acts = ls" "\<And>a. a \<in> set ls \<Longrightarrow> \<exists>p. a = SendPathLookup p lk" "r' = r"
  | (answered) ls n r1 more where "hn n r1 = Some (more, r')" "acts = ls @ more"
      "\<And>a. a \<in> set ls \<Longrightarrow> \<exists>p. a = SendPathLookup p lk"
proof -
  define ls where "ls = List.map_filter (\<lambda>target_key.
      map_option (\<lambda>peer_id. SendPathLookup peer_id lk) (best_peer_for_key r target_key))
      (get_multicast_targets (env_murmur3 env) (r_bloom_transform r) key (lookup_dest lk) (r_blooms r))"
  have ls: "\<And>a. a \<in> set ls \<Longrightarrow> \<exists>p. a = SendPathLookup p lk"
    by (auto simp: ls_def List.map_filter_def)
  show thesis
  proof (cases "x_key (r_bloom_transform r) (lookup_dest lk) = x_key (r_bloom_transform r) (r_public_key r)")
    case False
    then show ?thesis
      using assms ls by (intro sent [of ls]) (auto simp: handle_lookup_internal_def Let_def ls_def)
  next
    case True
    then obtain n r1 more where "hn n r1 = Some (more, r')" "acts = ls @ more"
      using assms unfolding handle_lookup_internal_def Let_def ls_def [symmetric]
      by (auto split: prod.splits)
    then show ?thesis using ls by (intro answered)
  qed
qed

lemma handle_lookup_internal_no_single:
  assumes "\<And>n. no_single_traffic (hn n)"
  shows "no_single_traffic (handle_lookup_internal hn env key lk)"
  unfolding no_single_traffic_def
proof (intro allI notI)
  fix r p tr r'
  assume "handle_lookup_internal hn env key lk r = Some ([SendTraffic p tr], r')"
  then show False
  proof (cases rule: handle_lookup_internal_cases)
    case (sent ls)
    then show ?thesis by auto
  next
    case (answered ls n r1 more)
    then show ?thesis
      using assms [of n] by (cases ls) (auto simp: no_single_traffic_def)
  qed
qed

lemma do_send_lookup_no_single:
  "(\<And>n. no_single_traffic (hn n)) \<Longrightarrow> no_single_traffic (do_send_lookup hn env dest)"
  using handle_lookup_internal_no_single [of hn env]
  by (auto simp: no_single_traffic_def do_send_lookup_def Let_def split: prod.splits)

lemma handle_broken_internal_no_single:
  "(\<And>n. no_single_traffic (hn n)) \<Longrightarrow> no_single_traffic (handle_broken_internal hn env broken)"
  using do_send_lookup_no_single [of hn env]
  by (auto simp: no_single_traffic_def handle_broken_internal_def Let_def split: prod.splits option.splits)

lemma handle_notify_internal_no_single: "no_single_traffic (handle_notify_internal depth env notify)"
proof (cases depth)
  case (Suc d)
  have "accept_notify now s x q ps pf = ((acc, Some t), pf') \<Longrightarrow> acc" for now s x q ps pf acc t pf'
    by (auto simp: accept_notify_def Let_def split: option.splits if_splits)
  then show ?thesis
    unfolding no_single_traffic_def Suc handle_notify_internal.simps
    by (auto simp: Let_def append_eq_Cons_conv split: prod.splits option.splits if_splits)
qed (simp add: no_single_traffic_def)

lemma route_traffic_forward:
  assumes "\<And>n. no_single_traffic (hn n)" "route_traffic hn env tr r = Some ([SendTraffic p tr'], r')"
  shows "\<exists>w. lookup (tr_path tr) (tr_watermark tr) r = ((Some p, w), r') \<and> tr' = tr\<lparr>tr_watermark := w\<rparr>"
  using assms(2) handle_broken_internal_no_single [OF assms(1)]
  by (auto simp: route_traffic_def do_broken_def no_single_traffic_def Let_def
      split: prod.splits option.splits if_splits)

text \<open>A packet relayed by a sequence of nodes, each in any state.\<close>

inductive relayed :: "traffic_packet \<Rightarrow> (router_env \<times> router) list \<Rightarrow> traffic_packet \<Rightarrow> bool" where
  relayed_here: "relayed tr [] tr"
| relayed_hop: "handle_traffic env tr r = Some ([SendTraffic p tr'], r') \<Longrightarrow> relayed tr' rs tr'' \<Longrightarrow>
    relayed tr ((env, r) # rs) tr''"

inductive_cases relayed_ConsE: "relayed tr (er # rs) tr''"

lemma handle_traffic_forward:
  assumes "handle_traffic env tr r = Some ([SendTraffic p tr'], r')"
  shows "\<exists>w. lookup (tr_path tr) (tr_watermark tr) r = ((Some p, w), r') \<and> tr' = tr\<lparr>tr_watermark := w\<rparr> \<and>
    w < tr_watermark tr"
proof -
  obtain w where w: "lookup (tr_path tr) (tr_watermark tr) r = ((Some p, w), r')" "tr' = tr\<lparr>tr_watermark := w\<rparr>"
    using route_traffic_forward [of "notify_handler env" env tr r p tr' r'] handle_notify_internal_no_single
      assms unfolding handle_traffic_def by blast
  then show ?thesis using lookup_watermark [OF w(1)] by blast
qed

lemma relayed_bound: "relayed tr rs tr' \<Longrightarrow> length rs + unat (tr_watermark tr') \<le> unat (tr_watermark tr)"
proof (induction rule: relayed.induct)
  case (relayed_hop env tr r p tr' r' rs tr'')
  then show ?case
    using handle_traffic_forward [OF relayed_hop.hyps(1)] by (auto simp: word_less_nat_alt)
qed simp

section \<open>Distances in the tree\<close>

fun common :: "'a list \<Rightarrow> 'a list \<Rightarrow> nat" where
  "common (x # xs) (y # ys) = (if x = y then Suc (common xs ys) else 0)"
| "common _ _ = 0"

lemma common_le: "common xs ys \<le> length xs \<and> common xs ys \<le> length ys"
  by (induction xs ys rule: common.induct) auto

lemma common_prefix: "common xs (xs @ ys) = length xs"
  by (induction xs) auto

lemma common_full: "common xs ys = length xs \<Longrightarrow> \<exists>zs. ys = xs @ zs"
  by (induction xs ys rule: common.induct) (auto split: if_splits)

lemma common_butlast:
  "common (xs @ [x]) ys < length (xs @ [x]) \<Longrightarrow> common xs ys = common (xs @ [x]) ys"
proof (induction xs arbitrary: ys)
  case Nil
  then show ?case by (cases ys) (auto split: if_splits)
next
  case (Cons a xs)
  then show ?case by (cases ys) (auto split: if_splits)
qed

lemma dist_loop_common:
  "2 * common ks ds \<le> n \<Longrightarrow> n < 2 ^ 64 \<Longrightarrow> dist_loop ks ds (of_nat n) = of_nat (n - 2 * common ks ds)"
proof (induction ks ds arbitrary: n rule: common.induct)
  case (1 k ks d ds)
  show ?case
  proof (cases "k = d")
    case True
    then have "2 \<le> n" using "1.prems" by simp
    then have "of_nat n - 2 = (of_nat (n - 2) :: u64)" by (simp add: of_nat_diff)
    then show ?thesis
      using "1.IH" [OF True, of "n - 2"] "1.prems" True by (simp add: algebra_simps)
  qed simp
qed simp_all

lemma tree_walk_keys: "tree_walk infos k ks r ps \<Longrightarrow> set ks \<subseteq> set (hm_keys infos)"
  by (induction rule: tree_walk.induct) (auto dest: hm_get_Some_key)

lemma tree_walk_short: "tree_walk infos k ks r ps \<Longrightarrow> length ps < length infos"
proof -
  assume w: "tree_walk infos k ks r ps"
  have "length ks = card (set ks)" using tree_walk_distinct [OF w] by (simp add: distinct_card)
  also have "\<dots> \<le> card (set (hm_keys infos))" by (rule card_mono [OF _ tree_walk_keys [OF w]]) simp
  also have "\<dots> \<le> length infos" by (metis card_length length_map)
  finally show ?thesis using tree_walk_length [OF w] by simp
qed

text \<open>The distance of a node that shares our root, as a natural number.\<close>

lemma tree_dist_walk:
  assumes self: "tree_walk (r_infos r) (r_public_key r) ks root cs"
    and key: "tree_walk (r_infos r) key kk root kp"
    and len: "length kp + length path < 2 ^ 64"
  shows "unat (tree_dist r path key) = length kp + length path - 2 * common kp path"
proof -
  have "get_root_and_path (r_infos r) (r_public_key r) = (root, cs)"
    "get_root_and_path (r_infos r) key = (root, kp)"
    using self key by (auto simp: tree_path_def intro!: get_root_and_path_walk)
  moreover obtain info where "hm_get (r_infos r) root = Some info" "ri_parent info = root"
    using tree_walk_root_info [OF key] by blast
  moreover have "2 * common kp path \<le> length kp + length path"
    using common_le [of kp path] by linarith
  ultimately have "tree_dist r path key = of_nat (length kp + length path - 2 * common kp path)"
    using len dist_loop_common [of kp path "length kp + length path"]
    by (simp add: tree_dist_def coords_of_def Let_def)
  then show ?thesis using len by (simp add: unsigned_of_nat take_bit_nat_eq_self)
qed

lemma tree_dist_finite:
  assumes self: "tree_walk (r_infos r) (r_public_key r) ks root cs"
    and fin: "tree_dist r path key \<noteq> u64_max"
  shows "\<exists>kk kp. tree_walk (r_infos r) key kk root kp"
proof -
  have self_root: "fst (get_root_and_path (r_infos r) (r_public_key r)) = root"
    using get_root_and_path_walk [of "r_infos r" "r_public_key r" root cs] self
    unfolding tree_path_def by fastforce
  show ?thesis
  proof (cases "\<exists>r' ps. tree_path (r_infos r) key r' ps")
    case True
    then obtain r' ps where tp: "tree_path (r_infos r) key r' ps" by blast
    then have "r' = root"
      using fin self_root get_root_and_path_walk [OF tp] by (auto simp: tree_dist_def Let_def split: if_splits)
    then show ?thesis using tp by (auto simp: tree_path_def)
  next
    case False
    then have "get_root_and_path (r_infos r) key = (key, [])" by (rule get_root_and_path_none)
    then obtain info where "hm_get (r_infos r) key = Some info" "ri_parent info = key"
      using fin self_root by (auto simp: tree_dist_def Let_def split: if_splits option.splits)
    then have "tree_path (r_infos r) key key []"
      unfolding tree_path_def by (blast intro: tree_walk.intros)
    with False show ?thesis by blast
  qed
qed

section \<open>A neighbour in the tree is closer\<close>

definition has_peer :: "router \<Rightarrow> public_key \<Rightarrow> bool" where
  "has_peer r k \<longleftrightarrow> (\<exists>peers. hm_get (r_peers r) k = Some peers \<and> peers \<noteq> [])"

text \<open>Every link of the stored tree that ends at this node is a connection of this node.\<close>

definition tree_links_up :: "router \<Rightarrow> bool" where
  "tree_links_up r \<longleftrightarrow> (\<forall>k info. hm_get (r_infos r) k = Some info \<longrightarrow> ri_parent info \<noteq> k \<longrightarrow>
     (k = r_public_key r \<longrightarrow> has_peer r (ri_parent info)) \<and> (ri_parent info = r_public_key r \<longrightarrow> has_peer r k))"

text \<open>A parent gives different ports to different children.\<close>

definition ports_distinct :: "infos \<Rightarrow> bool" where
  "ports_distinct infos \<longleftrightarrow> (\<forall>k1 i1 k2 i2. hm_get infos k1 = Some i1 \<longrightarrow> hm_get infos k2 = Some i2 \<longrightarrow>
     ri_parent i1 \<noteq> k1 \<longrightarrow> ri_parent i2 \<noteq> k2 \<longrightarrow> ri_parent i1 = ri_parent i2 \<longrightarrow> ri_port i1 = ri_port i2 \<longrightarrow> k1 = k2)"

lemma coords_determine_node:
  assumes inj: "ports_distinct infos"
  shows "tree_walk infos k ks r cs \<Longrightarrow> tree_walk infos k' ks' r cs \<Longrightarrow> k' = k"
proof (induction arbitrary: k' ks' rule: tree_walk.induct)
  case (tw_root r info)
  from tw_root.prems show ?case by (cases rule: tree_walk.cases) auto
next
  case (tw_child k info ks r ports)
  from tw_child.prems obtain info' ks1 where "hm_get infos k' = Some info'" "ri_parent info' \<noteq> k'"
    "tree_walk infos (ri_parent info') ks1 r ports" "ri_port info' = ri_port info"
    by (cases rule: tree_walk.cases) auto
  moreover from this(3) have "ri_parent info' = ri_parent info" by (rule tw_child.IH)
  ultimately show ?case using tw_child.hyps inj unfolding ports_distinct_def by metis
qed

lemma ancestor_on_path:
  "tree_walk infos k ks r (cs @ z # zs) \<Longrightarrow>
   \<exists>c kc info ka. hm_get infos c = Some info \<and> ri_parent info \<noteq> c \<and> tree_walk infos (ri_parent info) ka r cs \<and>
     tree_walk infos c kc r (cs @ [z])"
proof (induction zs arbitrary: k ks rule: rev_induct)
  case Nil
  then show ?case by (cases rule: tree_walk.cases) (auto intro: tree_walk.intros)
next
  case (snoc y zs)
  from snoc.prems have "tree_walk infos k ks r ((cs @ z # zs) @ [y])" by simp
  then show ?case
  proof (cases rule: tree_walk.cases)
    case (tw_child info ks' ports)
    then have "tree_walk infos (ri_parent info) ks' r (cs @ z # zs)" by auto
    then show ?thesis by (rule snoc.IH)
  qed simp
qed

lemma closer_neighbour:
  assumes self: "tree_walk (r_infos r) (r_public_key r) ks root cs"
    and dest: "tree_walk (r_infos r) dest kd root cd"
    and other: "dest \<noteq> r_public_key r"
    and inj: "ports_distinct (r_infos r)" and up: "tree_links_up r"
    and len: "2 * length (r_infos r) < 2 ^ 64"
  shows "\<exists>k. has_peer r k \<and> unat (tree_dist r cd k) + 1 = unat (tree_dist r cd (r_public_key r))"
proof -
  have short: "length ps + length cd < 2 ^ 64" if "tree_walk (r_infos r) k kk root ps" for k kk ps
    using tree_walk_short [OF that] tree_walk_short [OF dest] len by linarith
  have dist: "unat (tree_dist r cd k) = length ps + length cd - 2 * common ps cd"
    if "tree_walk (r_infos r) k kk root ps" for k kk ps
    by (rule tree_dist_walk [OF self that short [OF that]])
  have self_dist: "unat (tree_dist r cd (r_public_key r)) = length cs + length cd - 2 * common cs cd"
    using dist [OF self] by simp
  show ?thesis
  proof (cases "common cs cd = length cs")
    case True
    then obtain zs where zs: "cd = cs @ zs" using common_full by blast
    have "zs \<noteq> []" using coords_determine_node [OF inj self, of dest kd] dest zs other by auto
    then obtain z zs' where z: "cd = cs @ z # zs'" using zs by (cases zs) auto
    then obtain c kc info ka where c: "hm_get (r_infos r) c = Some info" "ri_parent info \<noteq> c"
      "tree_walk (r_infos r) (ri_parent info) ka root cs" "tree_walk (r_infos r) c kc root (cs @ [z])"
      using ancestor_on_path [of "r_infos r" dest kd root cs z zs'] dest by auto
    have "ri_parent info = r_public_key r" by (rule coords_determine_node [OF inj self c(3)])
    then have "has_peer r c" using up c(1,2) by (auto simp: tree_links_up_def)
    moreover have "common (cs @ [z]) cd = length cs + 1"
      using common_prefix [of "cs @ [z]" zs'] z by simp
    ultimately show ?thesis
      using dist [OF c(4)] self_dist True z by (intro exI [of _ c]) simp
  next
    case False
    then have "cs \<noteq> []" by (cases cs) auto
    with self obtain info ports ks' where p: "hm_get (r_infos r) (r_public_key r) = Some info"
      "ri_parent info \<noteq> r_public_key r" "cs = ports @ [ri_port info]"
      "tree_walk (r_infos r) (ri_parent info) ks' root ports"
      by (cases rule: tree_walk.cases) auto
    then have "has_peer r (ri_parent info)" using up by (auto simp: tree_links_up_def)
    moreover have "common ports cd = common cs cd"
      using common_butlast [of ports "ri_port info" cd] False p(3) common_le [of cs cd] by auto
    moreover have "2 * common cs cd < length cs + length cd"
      using False common_le [of cs cd] by linarith
    ultimately show ?thesis
      using dist [OF p(4)] self_dist p(3) by (intro exI [of _ "ri_parent info"]) simp
  qed
qed

section \<open>Delivery in a converged network\<close>

text \<open>\<open>connects r p k\<close>: the connection \<open>p\<close> of the router leads to the node \<open>k\<close>.\<close>

definition connects :: "router \<Rightarrow> peer_id \<Rightarrow> public_key \<Rightarrow> bool" where
  "connects r p k \<longleftrightarrow> (\<exists>peers e. hm_get (r_peers r) k = Some peers \<and> e \<in> snd ` set peers \<and> pe_id e = p)"

text \<open>All nodes of the network store the same tree and have their tree links up, and a connection
  leads to one node.\<close>

definition converged :: "(public_key \<Rightarrow> router) \<Rightarrow> infos \<Rightarrow> bool" where
  "converged net infos \<longleftrightarrow> ports_distinct infos \<and> 2 * length infos < 2 ^ 64 \<and>
     (\<forall>k. r_public_key (net k) = k \<and> r_infos (net k) = infos \<and> cache_ok (net k) \<and> tree_links_up (net k) \<and>
        (\<forall>p k1 k2. connects (net k) p k1 \<longrightarrow> connects (net k) p k2 \<longrightarrow> k1 = k2))"

inductive routed ::
  "(public_key \<Rightarrow> router) \<Rightarrow> (public_key \<Rightarrow> router_env) \<Rightarrow> public_key \<Rightarrow> traffic_packet \<Rightarrow> public_key list \<Rightarrow>
     public_key \<Rightarrow> traffic_packet \<Rightarrow> bool" for net env where
  routed_here: "routed net env k tr [] k tr"
| routed_hop: "handle_traffic (env k) tr (net k) = Some ([SendTraffic p tr1], r') \<Longrightarrow> connects (net k) p k1 \<Longrightarrow>
    routed net env k1 tr1 ks k2 tr2 \<Longrightarrow> routed net env k tr (k # ks) k2 tr2"

lemma handle_traffic_found:
  "lookup (tr_path tr) (tr_watermark tr) r = ((Some p, w), r') \<Longrightarrow>
   handle_traffic env tr r = Some ([SendTraffic p (tr\<lparr>tr_watermark := w\<rparr>)], r')"
  by (simp add: handle_traffic_def route_traffic_def)

lemma handle_traffic_deliver:
  "lookup (tr_path tr) (tr_watermark tr) r = ((None, w), r1) \<Longrightarrow> tr_dest tr = r_public_key r1 \<Longrightarrow>
   \<exists>r'. handle_traffic env tr r = Some ([PathNotifyCallback (tr_source tr), DeliverTraffic tr], r')"
  by (simp add: handle_traffic_def route_traffic_def Let_def)

lemma forwarded_in_converged:
  assumes conv: "converged net infos"
    and self: "tree_walk infos k ks root cs" and dest: "tree_walk infos dest kd root cd"
    and other: "dest \<noteq> k" and path: "tr_path tr = cd" and w: "tree_dist (net k) cd k < tr_watermark tr"
  shows "\<exists>p r' k1 ks1 cs1. handle_traffic (env k) tr (net k) =
      Some ([SendTraffic p (tr\<lparr>tr_watermark := tree_dist (net k) cd k\<rparr>)], r') \<and> connects (net k) p k1 \<and>
    tree_walk infos k1 ks1 root cs1 \<and> tree_dist (net k) cd k1 < tree_dist (net k) cd k"
proof -
  let ?r = "net k" and ?d = "tree_dist (net k) cd k"
  have net: "r_public_key ?r = k" "r_infos ?r = infos" "cache_ok ?r" "tree_links_up ?r"
    "ports_distinct infos" "2 * length infos < 2 ^ 64"
    using conv by (auto simp: converged_def)
  obtain kn where kn: "has_peer ?r kn" "tree_dist ?r cd kn < ?d"
    using closer_neighbour [of ?r ks root cs dest kd cd] self dest other net
    by (auto simp: word_less_nat_alt)
  obtain found w' r' where l: "lookup (tr_path tr) (tr_watermark tr) ?r = ((found, w'), r')"
    by (metis prod.collapse)
  note spec = lookup_spec [OF net(3) l]
  have w': "w' = ?d" using spec path w net(1) by (simp split: if_splits)
  have "found \<noteq> None"
    using spec path w net(1) w' kn by (auto simp: has_peer_def split: if_splits)
  then obtain p where p: "found = Some p" by blast
  then obtain k1 where k1: "connects ?r p k1" "tree_dist ?r cd k1 < ?d"
    using spec path w net(1) w' by (auto simp: connects_def split: if_splits)
  have "tree_dist ?r cd k1 \<noteq> u64_max"
    using k1(2) by (metis word_order.extremum_strict)
  then obtain ks1 cs1 where "tree_walk infos k1 ks1 root cs1"
    using tree_dist_finite [of ?r ks root cs cd k1] self net by auto
  then show ?thesis
    using handle_traffic_found [OF l [unfolded p w']] k1 by blast
qed

lemma delivered_at_destination:
  assumes conv: "converged net infos" and dest: "tree_walk infos dest kd root cd"
    and tr: "tr_dest tr = dest" "tr_path tr = cd"
  shows "\<exists>r'. handle_traffic env tr (net dest) = Some ([PathNotifyCallback (tr_source tr), DeliverTraffic tr], r')"
proof -
  let ?r = "net dest"
  have net: "r_public_key ?r = dest" "r_infos ?r = infos" "cache_ok ?r" "2 * length infos < 2 ^ 64"
    using conv by (auto simp: converged_def)
  have "length cd + length cd < 2 ^ 64" using tree_walk_short [OF dest] net(4) by linarith
  then have "unat (tree_dist ?r cd dest) = 0"
    using tree_dist_walk [of ?r kd root cd dest kd cd cd] dest net common_prefix [of cd "[]"] by simp
  then have zero: "tree_dist ?r cd dest = 0" by (simp add: unat_eq_0)
  obtain found w' r' where l: "lookup (tr_path tr) (tr_watermark tr) ?r = ((found, w'), r')"
    by (metis prod.collapse)
  note spec = lookup_spec [OF net(3) l]
  have "found = None" using spec zero net(1) tr(2) by (cases found) (auto split: if_splits)
  moreover have "r_public_key r' = dest" using spec cache_step_fields [of ?r r'] net(1) by simp
  ultimately show ?thesis using handle_traffic_deliver l tr(1) by blast
qed

lemma converged_dist_agree:
  assumes conv: "converged net infos" and a: "tree_walk infos a ka root ca"
    and b: "tree_walk infos b kb root cb" and dest: "tree_walk infos dest kd root cd"
  shows "tree_dist (net a) cd b = tree_dist (net b) cd b"
proof -
  have net: "r_public_key (net k) = k" "r_infos (net k) = infos" "2 * length infos < 2 ^ 64" for k
    using conv by (auto simp: converged_def)
  have "length cb + length cd < 2 ^ 64"
    using tree_walk_short [OF b] tree_walk_short [OF dest] net(3) by linarith
  then have "unat (tree_dist (net a) cd b) = unat (tree_dist (net b) cd b)"
    using tree_dist_walk [of "net a" ka root ca b kb cb cd] tree_dist_walk [of "net b" kb root cb b kb cb cd]
      a b net by simp
  then show ?thesis by (simp add: word_unat_eq_iff)
qed

lemma routed_in_converged:
  assumes conv: "converged net infos" and dest: "tree_walk infos dest kd root cd"
  shows "tree_walk infos k ks root cs \<Longrightarrow> tr_dest tr = dest \<Longrightarrow> tr_path tr = cd \<Longrightarrow>
    tree_dist (net k) cd k < tr_watermark tr \<Longrightarrow>
    \<exists>hops tr'. routed net env k tr hops dest tr' \<and> length hops \<le> unat (tree_dist (net k) cd k) \<and>
      tr_dest tr' = dest \<and> tr_path tr' = cd"
proof (induction "unat (tree_dist (net k) cd k)" arbitrary: k ks cs tr rule: less_induct)
  case less
  show ?case
  proof (cases "k = dest")
    case True
    then show ?thesis using less.prems by (intro exI [of _ "[]"] exI [of _ tr]) (auto intro: routed.intros)
  next
    case False
    let ?tr = "tr\<lparr>tr_watermark := tree_dist (net k) cd k\<rparr>"
    from forwarded_in_converged [OF conv less.prems(1) dest, of tr env] False less.prems
    obtain p r' k1 ks1 cs1 where hop: "handle_traffic (env k) tr (net k) = Some ([SendTraffic p ?tr], r')"
      "connects (net k) p k1" "tree_walk infos k1 ks1 root cs1" "tree_dist (net k) cd k1 < tree_dist (net k) cd k"
      by blast
    have d: "tree_dist (net k1) cd k1 < tree_dist (net k) cd k"
      using converged_dist_agree [OF conv less.prems(1) hop(3) dest] hop(4) by simp
    then obtain hops tr' where r: "routed net env k1 ?tr hops dest tr'"
      "length hops \<le> unat (tree_dist (net k1) cd k1)" "tr_dest tr' = dest" "tr_path tr' = cd"
      using less.hyps [of k1 ks1 cs1 ?tr] hop(3) less.prems by (auto simp: word_less_nat_alt)
    then have "routed net env k tr (k # hops) dest tr'" using hop by (auto intro: routed.intros)
    moreover have "length (k # hops) \<le> unat (tree_dist (net k) cd k)"
      using r(2) d by (simp add: word_less_nat_alt)
    ultimately show ?thesis using r by blast
  qed
qed

section \<open>A network of two nodes\<close>

definition sample_env :: router_env where
  "sample_env = \<lparr>env_sign = \<lambda>_. [], env_verify = \<lambda>_ _ _. True, env_murmur3 = \<lambda>_ _. None, env_now = 0,
     env_unix_secs = 0, env_random = \<lambda>_. 0\<rparr>"

definition sample_config :: router_config where
  "sample_config = \<lparr>cfg_router_refresh = 240, cfg_router_timeout = 300, cfg_path_timeout = 60,
     cfg_path_throttle = 1, cfg_bloom_transform = None\<rparr>"

definition sample_net :: "public_key \<Rightarrow> router" where
  "sample_net k = (router_new sample_env k sample_config)\<lparr>r_infos := sample_infos,
     r_peers := [([1], [(1, \<lparr>pe_id = 1, pe_key = [1], pe_port = 1, pe_prio = 0, pe_order = 0\<rparr>)]),
                 ([2], [(2, \<lparr>pe_id = 2, pe_key = [2], pe_port = 5, pe_prio = 0, pe_order = 1\<rparr>)])]\<rparr>"

definition sample_packet :: traffic_packet where
  "sample_packet = (traffic_packet_new [1] [2] [9])\<lparr>tr_path := [5]\<rparr>"

lemma sample_walk_root: "tree_walk sample_infos [1] [[1]] [1] []"
  by (rule tw_root) (auto simp: sample_infos_def)

lemma sample_infos_cases:
  "hm_get sample_infos k = Some info \<Longrightarrow> ri_parent info \<noteq> k \<Longrightarrow> k = [2] \<and> ri_parent info = [1]"
  by (auto simp: sample_infos_def split: if_splits)

lemma sample_connects: "connects (sample_net k) p k1 \<Longrightarrow> k1 = (if p = 1 then [1] else [2])"
  by (auto simp: connects_def sample_net_def split: if_splits)

lemma sample_net_fields:
  "r_public_key (sample_net k) = k" "r_infos (sample_net k) = sample_infos" "r_cache (sample_net k) = []"
  by (simp_all add: sample_net_def router_new_def)

lemma sample_ports_distinct: "ports_distinct sample_infos"
  unfolding ports_distinct_def using sample_infos_cases by blast

lemma sample_links_up: "tree_links_up (sample_net k)"
  unfolding tree_links_up_def sample_net_fields
  by (auto simp: has_peer_def sample_net_def dest!: sample_infos_cases)

lemma sample_converged: "converged sample_net sample_infos"
  unfolding converged_def sample_net_fields
  using sample_ports_distinct sample_links_up
  by (auto simp: cache_ok_def sample_net_fields dest!: sample_connects) (simp_all add: sample_infos_def)

lemma sample_dist: "tree_dist (sample_net [1]) [5] [1] = 1" "tree_dist (sample_net [1]) [5] [2] = 0"
  using tree_dist_walk [of "sample_net [1]" "[[1]]" "[1]" "[]" "[1]" "[[1]]" "[]" "[5]"]
    tree_dist_walk [of "sample_net [1]" "[[1]]" "[1]" "[]" "[2]" "[[2], [1]]" "[5]" "[5]"]
  by (simp_all add: sample_net_fields sample_walk_root sample_walk word_unat_eq_iff)

lemma one_less_max: "(1 :: u64) < u64_max"
  using word_order.not_eq_extremum [of "1 :: u64"] by simp

section \<open>Direct delivery\<close>

lemma cached_root_and_path_public_key [simp]:
  "r_public_key (snd (cached_root_and_path k r)) = r_public_key r"
  by (simp add: cached_root_and_path_def Let_def split_beta split: option.split)

lemma get_dist_public_key [simp]: "r_public_key (snd (get_dist path k r)) = r_public_key r"
  by (simp add: get_dist_def Let_def split_beta)

lemma lookup_watermark_zero: "lookup path 0 r = ((None, 0), snd (get_dist path (r_public_key r) r))"
  by (simp add: lookup_def split_beta)

section \<open>Properties\<close>

text \<open>C2. Greedy forwarding is free of loops, whatever the nodes believe about the tree: each node that
  forwards a packet lowers its watermark, so a packet is relayed at most as often as its watermark
  allows, through nodes in arbitrary states with arbitrary, even contradictory, tables.\<close>

theorem relay_bounded:
  "relayed tr rs tr' \<Longrightarrow> length rs + unat (tr_watermark tr') \<le> unat (tr_watermark tr)"
  by (rule relayed_bound)

theorem relay_bounded_witness:
  "length [(sample_env, sample_net [1])] + unat (1 :: u64) \<le> unat u64_max"
proof -
  let ?tr = "sample_packet\<lparr>tr_watermark := 1\<rparr>"
  obtain p r' where hop: "handle_traffic sample_env sample_packet (sample_net [1]) = Some ([SendTraffic p ?tr], r')"
    using forwarded_in_converged [OF sample_converged sample_walk_root sample_walk, of sample_packet "\<lambda>_. sample_env"]
    by (auto simp: sample_packet_def traffic_packet_new_def sample_dist one_less_max)
  have "relayed sample_packet [(sample_env, sample_net [1])] ?tr"
    by (rule relayed_hop [OF hop relayed_here])
  from relay_bounded [OF this] show ?thesis by (simp add: sample_packet_def traffic_packet_new_def)
qed

text \<open>C1. In a network whose nodes store the same tree and have their tree links up, a packet that
  carries the coordinates of its destination is forwarded, hop by hop, to the destination, which
  delivers it; the number of hops is at most the tree distance from the first node.\<close>

theorem greedy_delivery:
  assumes "converged net infos" "tree_path infos k root cs" "tree_path infos dest root cd"
    "tr_dest tr = dest" "tr_path tr = cd" "tree_dist (net k) cd k < tr_watermark tr"
  shows "\<exists>hops tr' r'. routed net env k tr hops dest tr' \<and> length hops \<le> unat (tree_dist (net k) cd k) \<and>
    handle_traffic (env dest) tr' (net dest) = Some ([PathNotifyCallback (tr_source tr'), DeliverTraffic tr'], r')"
proof -
  obtain ks kd where walks: "tree_walk infos k ks root cs" "tree_walk infos dest kd root cd"
    using assms(2,3) by (auto simp: tree_path_def)
  obtain hops tr' where r: "routed net env k tr hops dest tr'" "length hops \<le> unat (tree_dist (net k) cd k)"
    "tr_dest tr' = dest" "tr_path tr' = cd"
    using routed_in_converged [OF assms(1) walks(2) walks(1) assms(4-6)] by blast
  then show ?thesis
    using delivered_at_destination [OF assms(1) walks(2) r(3,4), of "env dest"] by blast
qed

theorem greedy_delivery_witness:
  "\<exists>hops tr' r'. routed sample_net (\<lambda>_. sample_env) [1] sample_packet hops [2] tr' \<and>
    handle_traffic sample_env tr' (sample_net [2]) = Some ([PathNotifyCallback (tr_source tr'), DeliverTraffic tr'], r')"
proof -
  have "tree_dist (sample_net [1]) [5] [1] < tr_watermark sample_packet"
    by (simp add: sample_dist sample_packet_def traffic_packet_new_def one_less_max)
  moreover have "tree_path sample_infos [1] [1] []" "tree_path sample_infos [2] [1] [5]"
    using sample_walk sample_walk_root by (auto simp: tree_path_def)
  ultimately show ?thesis
    using greedy_delivery [OF sample_converged, of "[1]" "[1]" "[]" "[2]" "[5]" sample_packet "\<lambda>_. sample_env"]
    by (auto simp: sample_packet_def traffic_packet_new_def)
qed

text \<open>C21. With a sound cache, \<open>lookup\<close> is exact: it refuses when we are not closer to the path than
  the watermark; otherwise it lowers the watermark to our own distance, picks a connection to a
  peer that is strictly closer, and finds none only if there is none. It changes nothing but the
  cache, which stays sound.\<close>

theorem lookup_exact:
  assumes "cache_ok r" "lookup path w r = ((found, w'), r')"
  shows "cache_ok r' \<and> r'\<lparr>r_cache := []\<rparr> = r\<lparr>r_cache := []\<rparr> \<and>
    (if w \<le> tree_dist r path (r_public_key r) then found = None \<and> w' = w
     else w' = tree_dist r path (r_public_key r) \<and>
       (found = None \<longleftrightarrow> (\<forall>k. has_peer r k \<longrightarrow> \<not> tree_dist r path k < w')) \<and>
       (\<forall>p. found = Some p \<longrightarrow> (\<exists>k. connects r p k \<and> tree_dist r path k < w')))"
proof -
  note spec = lookup_spec [OF assms]
  have step: "cache_ok r'" "r'\<lparr>r_cache := []\<rparr> = r\<lparr>r_cache := []\<rparr>"
    using spec by (simp_all add: cache_step_def)
  have "if w \<le> tree_dist r path (r_public_key r) then found = None \<and> w' = w
     else w' = tree_dist r path (r_public_key r) \<and>
       (found = None \<longleftrightarrow> (\<forall>k. has_peer r k \<longrightarrow> \<not> tree_dist r path k < w')) \<and>
       (\<forall>p. found = Some p \<longrightarrow> (\<exists>k. connects r p k \<and> tree_dist r path k < w'))"
  proof (cases "w \<le> tree_dist r path (r_public_key r)")
    case False
    then show ?thesis
      using spec unfolding has_peer_def connects_def by (simp only: if_False) blast
  qed (use spec in simp)
  with step show ?thesis by blast
qed

theorem lookup_exact_witness: "\<exists>p r'. lookup [5] 2 (sample_net [1]) = ((Some p, 1), r')"
proof -
  obtain found w' r' where l: "lookup [5] 2 (sample_net [1]) = ((found, w'), r')" by (metis prod.collapse)
  have "cache_ok (sample_net [1])" using sample_converged by (simp add: converged_def)
  moreover have "has_peer (sample_net [1]) [2]" by (simp add: has_peer_def sample_net_def)
  ultimately have "w' = 1" "found \<noteq> None"
    using lookup_exact [OF _ l] by (auto simp: sample_net_fields sample_dist word_le_nat_alt)
  with l show ?thesis by auto
qed

text \<open>A packet handed straight to the peer it is addressed to carries watermark 0; whatever the
  tables of the receiver say, it is delivered there and never forwarded.\<close>

theorem direct_shortcut_delivers:
  assumes "tr_payload tr \<noteq> []" "best_peer_for_key r (tr_dest tr) = Some p" "r_public_key r2 = tr_dest tr"
  shows "\<exists>tr' r' r2'. send_traffic env tr r = Some ([SendTraffic p tr'], r') \<and> tr_payload tr' = tr_payload tr \<and>
    handle_traffic env2 tr' r2 = Some ([PathNotifyCallback (tr_source tr), DeliverTraffic tr'], r2')"
proof -
  obtain path r1 where c1: "cached_coords (tr_dest tr) r = (path, r1)" by fastforce
  obtain frm r' where c2: "cached_coords (r_public_key r1) r1 = (frm, r')" by fastforce
  let ?tr = "tr\<lparr>tr_path := path, tr_from := frm, tr_watermark := 0\<rparr>"
  have "send_traffic env tr r = Some ([SendTraffic p ?tr], r')"
    using assms c1 c2 by (simp add: send_traffic_def)
  moreover obtain r2' where
    "handle_traffic env2 ?tr r2 = Some ([PathNotifyCallback (tr_source tr), DeliverTraffic ?tr], r2')"
    using handle_traffic_deliver [of ?tr r2 0 "snd (get_dist path (r_public_key r2) r2)" env2]
      lookup_watermark_zero [of path r2] assms(3) by auto
  ultimately show ?thesis by (intro exI [of _ ?tr]) auto
qed

theorem direct_shortcut_delivers_witness:
  "\<exists>tr' r2'. handle_traffic sample_env tr' (sample_net [2]) =
     Some ([PathNotifyCallback [1], DeliverTraffic tr'], r2') \<and> tr_payload tr' = [9]"
  using direct_shortcut_delivers [of sample_packet "sample_net [1]" 2 "sample_net [2]" sample_env sample_env]
  by (auto simp: sample_packet_def traffic_packet_new_def best_peer_for_key_def sample_net_def router_new_def)

end
