(* ===== verification/Router_State.thy ===== *)
theory Router_State
  imports Router_Routing
begin

text \<open>
  The state of the router over time: every handler returns, without panic and within the depth
  given to it, and keeps the invariant of the state; announcements converge; and the choice of a
  parent is sound.
\<close>

section \<open>Path handlers return\<close>

text \<open>What every handler of path discovery and traffic does to the state: only the cache and the
  pathfinder change, and both stay sound.\<close>

definition sound :: "router \<Rightarrow> bool" where
  "sound r \<longleftrightarrow> cache_ok r \<and> pf_inv (r_pathfinder r)"

definition path_step :: "router \<Rightarrow> router \<Rightarrow> bool" where
  "path_step r r' \<longleftrightarrow> sound r' \<and>
     r'\<lparr>r_cache := [], r_pathfinder := r_pathfinder r\<rparr> = r\<lparr>r_cache := []\<rparr>"

definition returns :: "router_run \<Rightarrow> router \<Rightarrow> bool" where
  "returns f r \<longleftrightarrow> (\<exists>acts r'. f r = Some (acts, r') \<and> path_step r r')"

lemma path_step_fields:
  "path_step r s \<Longrightarrow> r_infos s = r_infos r \<and> r_public_key s = r_public_key r \<and> r_peers s = r_peers r \<and>
     r_blooms s = r_blooms r \<and> r_sent s = r_sent r \<and> r_bloom_transform s = r_bloom_transform r"
  by (cases r; cases s) (simp add: path_step_def)

lemma path_step_refl: "sound r \<Longrightarrow> path_step r r"
  by (simp add: path_step_def)

lemma path_step_sound: "path_step r s \<Longrightarrow> sound s"
  by (simp add: path_step_def)

lemma path_step_trans: "path_step r s \<Longrightarrow> path_step s t \<Longrightarrow> path_step r t"
  by (cases r; cases s; cases t) (simp add: path_step_def)

lemma cache_step_path_step: "sound r \<Longrightarrow> cache_step r s \<Longrightarrow> path_step r s"
  by (cases r; cases s) (simp add: path_step_def cache_step_def sound_def)

lemma cache_ok_set_pathfinder [simp]: "cache_ok (r\<lparr>r_pathfinder := pf\<rparr>) = cache_ok r"
  by (simp add: cache_ok_def)

lemma set_pathfinder_path_step: "sound r \<Longrightarrow> pf_inv pf \<Longrightarrow> path_step r (r\<lparr>r_pathfinder := pf\<rparr>)"
proof -
  have "r\<lparr>r_pathfinder := pf\<rparr>\<lparr>r_cache := [], r_pathfinder := r_pathfinder r\<rparr> = r\<lparr>r_cache := []\<rparr>"
    by (cases r) simp
  then show "sound r \<Longrightarrow> pf_inv pf \<Longrightarrow> ?thesis" by (simp add: path_step_def sound_def)
qed

lemma returns_after: "path_step r s \<Longrightarrow> returns f s \<Longrightarrow> f s = g r \<Longrightarrow> returns g r"
  unfolding returns_def using path_step_trans by metis

lemma sound_pf: "sound r \<Longrightarrow> pf_inv (r_pathfinder r)"
  by (simp add: sound_def)

lemma lookup_path_step: "sound r \<Longrightarrow> lookup path w r = (res, r') \<Longrightarrow> path_step r r'"
  using lookup_spec [of r path w] cache_step_path_step by (cases res) (auto simp: sound_def)

lemma cached_coords_path_step: "sound r \<Longrightarrow> cached_coords k r = (path, r') \<Longrightarrow> path_step r r'"
  using cached_coords_spec [of r k] cache_step_path_step by (auto simp: sound_def)

text \<open>A notification handler that copes with notifications of the node's own path.\<close>

definition answers_self :: "(path_notify \<Rightarrow> router_run) \<Rightarrow> bool" where
  "answers_self hn \<longleftrightarrow> (\<forall>n r. sound r \<longrightarrow> notify_source n = r_public_key r \<longrightarrow> returns (hn n) r)"

lemma handle_lookup_internal_returns:
  assumes hn: "answers_self hn" and ok: "sound r"
  shows "returns (handle_lookup_internal hn env key lk) r"
proof (cases "x_key (r_bloom_transform r) (lookup_dest lk) = x_key (r_bloom_transform r) (r_public_key r)")
  case False
  then show ?thesis using ok path_step_refl by (simp add: returns_def handle_lookup_internal_def)
next
  case True
  obtain path r1 where c: "cached_coords (r_public_key r) r = (path, r1)" by fastforce
  have s1: "path_step r r1" by (rule cached_coords_path_step [OF ok c])
  let ?info = "\<lparr>own_seq = env_unix_secs env, own_path = path, own_sig = replicate SIGNATURE_SIZE 0\<rparr>"
  define info where "info = (if \<not> content_equal (pf_info (r_pathfinder r1)) ?info
    then own_sign (env_sign env) ?info else pf_info (r_pathfinder r1))"
  define r2 where "r2 = (if \<not> content_equal (pf_info (r_pathfinder r1)) ?info
    then r1\<lparr>r_pathfinder := (r_pathfinder r1)\<lparr>pf_info := info\<rparr>\<rparr> else r1)"
  define n where "n = \<lparr>notify_path = lookup_from lk, notify_watermark = u64_max, notify_source = r_public_key r,
    notify_dest = lookup_source lk,
    notify_info = \<lparr>pni_seq = own_seq info, pni_path = own_path info, pni_sig = own_sig info\<rparr>\<rparr>"
  have s2: "path_step r1 r2"
    unfolding r2_def using s1 path_step_sound path_step_refl
    by (auto intro!: set_pathfinder_path_step pf_inv_info sound_pf)
  then have s: "path_step r r2" using path_step_trans [OF s1] by blast
  have "returns (hn n) r2"
    using hn path_step_sound [OF s] path_step_fields [OF s] by (simp add: answers_self_def n_def)
  then obtain acts r' where "hn n r2 = Some (acts, r')" "path_step r2 r'" by (auto simp: returns_def)
  moreover have "handle_lookup_internal hn env key lk r =
      map_option (\<lambda>(more, r'). (List.map_filter (\<lambda>target_key.
        map_option (\<lambda>peer_id. SendPathLookup peer_id lk) (best_peer_for_key r target_key))
        (get_multicast_targets (env_murmur3 env) (r_bloom_transform r) key (lookup_dest lk) (r_blooms r)) @ more, r'))
      (hn n r2)"
    using True c by (simp add: handle_lookup_internal_def Let_def n_def r2_def info_def)
  ultimately show ?thesis using path_step_trans [OF s] by (auto simp: returns_def)
qed

lemma do_send_lookup_returns:
  assumes hn: "answers_self hn" and ok: "sound r"
  shows "returns (do_send_lookup hn env dest) r"
proof (cases "should_throttle_lookup (env_now env) dest (r_path_throttle r) (r_pathfinder r)")
  case True
  then show ?thesis using ok path_step_refl by (simp add: returns_def do_send_lookup_def)
next
  case False
  let ?r = "set_pathfinder (mark_lookup_sent (env_now env) dest) r"
  obtain path r1 where c: "cached_coords (r_public_key r) ?r = (path, r1)" by fastforce
  have s0: "path_step r ?r"
    by (intro set_pathfinder_path_step ok pf_inv_lookup_sent sound_pf)
  have s1: "path_step r r1"
    by (rule path_step_trans [OF s0 cached_coords_path_step [OF path_step_sound [OF s0] c]])
  show ?thesis
    by (rule returns_after [OF s1 handle_lookup_internal_returns [OF hn path_step_sound [OF s1], of env "r_public_key r"
            "\<lparr>lookup_source = r_public_key r, lookup_dest = dest, lookup_from = path\<rparr>"]])
      (use False c in \<open>simp add: do_send_lookup_def Let_def\<close>)
qed

lemma handle_broken_internal_returns:
  assumes hn: "answers_self hn" and ok: "sound r"
  shows "returns (handle_broken_internal hn env broken) r"
proof -
  obtain found w r1 where l: "lookup (broken_path broken) (broken_watermark broken) r = ((found, w), r1)"
    by (metis prod.collapse)
  have s1: "path_step r r1" by (rule lookup_path_step [OF ok l])
  let ?r2 = "set_pathfinder (pf_handle_broken (broken_dest broken)) r1"
  have s2: "path_step r ?r2"
    by (rule path_step_trans [OF s1]) (intro set_pathfinder_path_step path_step_sound [OF s1] pf_inv_broken sound_pf)
  have "returns (do_send_lookup hn env (broken_dest broken)) ?r2"
    by (rule do_send_lookup_returns [OF hn path_step_sound [OF s2]])
  then show ?thesis
    using s1 s2 l path_step_trans [OF s2]
    by (cases found) (auto simp: returns_def handle_broken_internal_def Let_def)
qed

lemma route_traffic_deliver_returns:
  assumes ok: "sound r" and dest: "tr_dest tr = r_public_key r"
  shows "returns (route_traffic hn env tr) r"
proof -
  obtain found w r1 where l: "lookup (tr_path tr) (tr_watermark tr) r = ((found, w), r1)"
    by (metis prod.collapse)
  have s1: "path_step r r1" by (rule lookup_path_step [OF ok l])
  let ?pf = "refresh_if_coords_match (env_now env) (tr_source tr) (tr_from tr)
    (learn_path_from_traffic (env_now env) (tr_source tr) (tr_from tr) (r_pathfinder r1))"
  have "path_step r (r1\<lparr>r_pathfinder := ?pf\<rparr>)"
    by (rule path_step_trans [OF s1]) (intro set_pathfinder_path_step path_step_sound [OF s1] pf_inv_traffic sound_pf)
  then show ?thesis
    using s1 l dest path_step_fields [OF s1]
    by (cases found) (auto simp: returns_def route_traffic_def Let_def)
qed

lemma route_traffic_returns:
  assumes hn: "answers_self hn" and ok: "sound r"
  shows "returns (route_traffic hn env tr) r"
proof (cases "tr_dest tr = r_public_key r")
  case True
  then show ?thesis by (rule route_traffic_deliver_returns [OF ok])
next
  case False
  obtain found w r1 where l: "lookup (tr_path tr) (tr_watermark tr) r = ((found, w), r1)"
    by (metis prod.collapse)
  have s1: "path_step r r1" by (rule lookup_path_step [OF ok l])
  have "returns (do_broken hn env tr) r1"
    unfolding do_broken_def by (rule handle_broken_internal_returns [OF hn path_step_sound [OF s1]])
  then show ?thesis
    using s1 l False path_step_fields [OF s1] path_step_trans [OF s1]
    by (cases found) (auto simp: returns_def route_traffic_def Let_def)
qed

text \<open>One unfolding of the notification handler; \<open>released\<close> is the buffered packet, if any.\<close>

lemma handle_notify_internal_returns_if:
  assumes ok: "sound r"
    and rel: "\<And>tr s. sound s \<Longrightarrow> r_public_key s = r_public_key r \<Longrightarrow> tr_dest tr = notify_source notify \<Longrightarrow>
      returns (route_traffic (handle_notify_internal depth env) env tr) s"
  shows "returns (handle_notify_internal (Suc depth) env notify) r"
proof -
  obtain found w r1 where l: "lookup (notify_path notify) (notify_watermark notify) r = ((found, w), r1)"
    by (metis prod.collapse)
  have s1: "path_step r r1" by (rule lookup_path_step [OF ok l])
  let ?info = "notify_info notify" and ?x = "x_key (r_bloom_transform r1) (notify_source notify)"
  obtain accepted released pf where a: "accept_notify (env_now env) (notify_source notify) ?x (pni_seq ?info)
      (pni_path ?info) (r_pathfinder r1) = ((accepted, released), pf)"
    by (metis prod.collapse)
  have inv1: "pf_inv (r_pathfinder r1)" by (rule sound_pf [OF path_step_sound [OF s1]])
  let ?r2 = "r1\<lparr>r_pathfinder := pf\<rparr>"
  have s2: "path_step r ?r2"
    by (rule path_step_trans [OF s1])
      (intro set_pathfinder_path_step path_step_sound [OF s1] pf_inv_accept_notify [OF inv1 a])
  obtain frm r3 where c: "cached_coords (r_public_key ?r2) ?r2 = (frm, r3)" by fastforce
  have s3: "path_step r r3"
    by (rule path_step_trans [OF s2 cached_coords_path_step [OF path_step_sound [OF s2] c]])
  have routed: "returns (route_traffic (handle_notify_internal depth env) env
      (tr\<lparr>tr_path := pni_path ?info, tr_from := frm\<rparr>)) r3" if "released = Some tr" for tr
    using accept_notify_released [OF inv1, of "env_now env" "notify_source notify"] a that
      path_step_fields [OF s3] by (intro rel path_step_sound [OF s3]) auto
  show ?thesis
  proof (cases "found = None \<and> notify_dest notify = r_public_key r1 \<and>
      env_verify env (notify_source notify) (encode_uvarint (pni_seq ?info) @ encode_path (pni_path ?info)) (pni_sig ?info)")
    case False
    then show ?thesis using l s1 by (cases found) (auto simp: returns_def)
  next
    case True
    show ?thesis
    proof (cases released)
      case None
      then show ?thesis using True l a s2 by (simp add: returns_def Let_def)
    next
      case (Some tr)
      with routed obtain acts r' where "route_traffic (handle_notify_internal depth env) env
          (tr\<lparr>tr_path := pni_path ?info, tr_from := frm\<rparr>) r3 = Some (acts, r')" "path_step r3 r'"
        by (auto simp: returns_def)
      then show ?thesis
        using True Some l a c path_step_trans [OF s3] by (simp add: returns_def Let_def)
    qed
  qed
qed

lemma handle_notify_internal_answers_self: "answers_self (handle_notify_internal (Suc depth) env)"
  unfolding answers_self_def
  by (intro allI impI handle_notify_internal_returns_if route_traffic_deliver_returns) simp_all

lemma handle_notify_internal_returns:
  "sound r \<Longrightarrow> returns (handle_notify_internal (Suc (Suc depth)) env notify) r"
  by (intro handle_notify_internal_returns_if route_traffic_returns handle_notify_internal_answers_self)

lemma notify_handler_answers_self: "answers_self (notify_handler env)"
  using handle_notify_internal_answers_self [of 1 env] by (simp add: NOTIFY_DEPTH_def numeral_2_eq_2)

lemma handle_traffic_returns: "sound r \<Longrightarrow> returns (handle_traffic env tr) r"
  using route_traffic_returns [OF notify_handler_answers_self [of env], of r env tr]
  by (simp add: returns_def handle_traffic_def)

lemma handle_lookup_returns: "sound r \<Longrightarrow> returns (handle_lookup env key lk) r"
  using handle_lookup_internal_returns [OF notify_handler_answers_self [of env], of r env key lk]
  by (auto simp: returns_def handle_lookup_def path_step_refl)

lemma handle_notify_returns: "sound r \<Longrightarrow> returns (handle_notify env notify) r"
  using handle_notify_internal_returns [of r 0 env notify]
  by (simp add: returns_def handle_notify_def NOTIFY_DEPTH_def numeral_2_eq_2)

lemma handle_broken_returns: "sound r \<Longrightarrow> returns (handle_broken env broken) r"
  using handle_broken_internal_returns [OF notify_handler_answers_self [of env], of r env broken]
  by (simp add: returns_def handle_broken_def)

lemma do_send_lookup_handler_returns: "sound r \<Longrightarrow> returns (do_send_lookup (notify_handler env) env dest) r"
  by (rule do_send_lookup_returns [OF notify_handler_answers_self])

lemma send_traffic_returns:
  assumes ok: "sound r"
  shows "returns (send_traffic env tr) r"
proof (cases "if tr_payload tr \<noteq> [] then best_peer_for_key r (tr_dest tr) else None")
  case (Some p)
  obtain path r1 where c1: "cached_coords (tr_dest tr) r = (path, r1)" by fastforce
  obtain frm r2 where c2: "cached_coords (r_public_key r1) r1 = (frm, r2)" by fastforce
  have s1: "path_step r r1" by (rule cached_coords_path_step [OF ok c1])
  have "path_step r r2" by (rule path_step_trans [OF s1 cached_coords_path_step [OF path_step_sound [OF s1] c2]])
  then show ?thesis using Some c1 c2 by (simp add: returns_def send_traffic_def)
next
  case direct: None
  show ?thesis
  proof (cases "get_path (tr_dest tr) (r_pathfinder r)")
    case (Some path)
    obtain frm r1 where c: "cached_coords (r_public_key r) r = (frm, r1)" by fastforce
    let ?tr = "tr\<lparr>tr_path := path, tr_from := frm\<rparr>"
    let ?r2 = "if needs_traffic_cache (tr_dest tr) (r_pathfinder r1)
      then set_pathfinder (cache_traffic (tr_dest tr) ?tr) r1 else r1"
    have s1: "path_step r r1" by (rule cached_coords_path_step [OF ok c])
    then have s2: "path_step r ?r2"
      using path_step_trans [OF s1 set_pathfinder_path_step [OF path_step_sound [OF s1]
            pf_inv_cache_traffic [OF sound_pf [OF path_step_sound [OF s1]], of ?tr "tr_dest tr"]]] by simp
    show ?thesis
      by (rule returns_after [OF s2 route_traffic_returns
            [OF notify_handler_answers_self [of env] path_step_sound [OF s2], of env ?tr]])
        (use direct Some c in \<open>simp add: send_traffic_def Let_def\<close>)
  next
    case None
    let ?x = "x_key (r_bloom_transform r) (tr_dest tr)"
    let ?pf1 = "snd (ensure_rumor (env_now env) ?x (r_pathfinder r))"
    let ?pf2 = "if tp_keepalive tr then cache_rumor_traffic_if_absent ?x tr ?pf1 else cache_rumor_traffic ?x tr ?pf1"
    have i2: "pf_inv ?pf2" using sound_pf [OF ok] by (simp add: pf_inv_ops)
    have s2: "path_step r (r\<lparr>r_pathfinder := ?pf2\<rparr>)" by (rule set_pathfinder_path_step [OF ok i2])
    have s3: "path_step r (r\<lparr>r_pathfinder := mark_rumor_sent (env_now env) ?x ?pf2\<rparr>)"
      by (rule set_pathfinder_path_step [OF ok pf_inv_rumor_sent [OF i2]])
    have "returns (do_send_lookup (notify_handler env) env (tr_dest tr)) (r\<lparr>r_pathfinder := mark_rumor_sent (env_now env) ?x ?pf2\<rparr>)"
      by (rule do_send_lookup_handler_returns [OF path_step_sound [OF s3]])
    then show ?thesis
      using direct None s2 path_step_trans [OF s3] by (auto simp: returns_def send_traffic_def Let_def)
  qed
qed

lemma force_lookup_returns:
  assumes ok: "sound r"
  shows "returns (force_lookup env dest) r"
proof -
  let ?x = "x_key (r_bloom_transform r) dest" and ?pf = "r_pathfinder r"
  define pf where "pf = (if hm_contains (pf_rumors ?pf) ?x
    then ?pf\<lparr>pf_rumors := hm_modify ?x (\<lambda>rumor. rumor\<lparr>ru_send_time := None\<rparr>) (pf_rumors ?pf)\<rparr>
    else snd (ensure_rumor (env_now env) ?x ?pf))"
  have "pf_inv pf" using sound_pf [OF ok] unfolding pf_def by (simp add: pf_inv_ops) (simp add: pf_inv_def)
  then have s: "path_step r (r\<lparr>r_pathfinder := pf\<rparr>)" by (rule set_pathfinder_path_step [OF ok])
  show ?thesis
    by (rule returns_after [OF s do_send_lookup_handler_returns [OF path_step_sound [OF s], of env dest]])
      (simp add: force_lookup_def pf_def)
qed

lemma rumor_retry_loop_returns: "sound r \<Longrightarrow> returns (rumor_retry_loop env dests actions) r"
proof (induction dests arbitrary: actions r)
  case Nil
  then show ?case by (simp add: returns_def path_step_refl)
next
  case (Cons dest dests)
  let ?x = "x_key (r_bloom_transform r) dest"
  let ?r = "set_pathfinder (mark_rumor_retry (env_now env) ?x) r"
  have s: "path_step r ?r"
    by (intro set_pathfinder_path_step Cons.prems pf_inv_rumor_retry sound_pf)
  from do_send_lookup_handler_returns [OF path_step_sound [OF s], of env dest]
  obtain acts r1 where d: "do_send_lookup (notify_handler env) env dest ?r = Some (acts, r1)" "path_step ?r r1"
    by (auto simp: returns_def)
  have s1: "path_step r r1" by (rule path_step_trans [OF s d(2)])
  show ?case
    using Cons.IH [OF Cons.prems, of actions] Cons.IH [OF path_step_sound [OF s1], of "actions @ acts"]
      d(1) path_step_trans [OF s1]
    by (auto simp: returns_def Let_def)
qed

section \<open>The invariant of the router\<close>

text \<open>The connections to one peer are stored under their ids and belong to that peer; a peer without
  connections is not stored.\<close>

definition conns_ok :: "public_key \<Rightarrow> (peer_id, peer_entry) hmap \<Rightarrow> bool" where
  "conns_ok k peers \<longleftrightarrow> peers \<noteq> [] \<and> hm_wf peers \<and>
     (\<forall>p e. hm_get peers p = Some e \<longrightarrow> pe_id e = p \<and> pe_key e = k)"

definition peers_ok :: "router \<Rightarrow> bool" where
  "peers_ok r \<longleftrightarrow> hm_wf (r_peers r) \<and>
     set (hm_keys (r_sent r)) = set (hm_keys (r_peers r)) \<and>
     set (hm_keys (r_blooms r)) = set (hm_keys (r_peers r)) \<and>
     (\<forall>k peers. hm_get (r_peers r) k = Some peers \<longrightarrow> conns_ok k peers)"

definition router_inv :: "router \<Rightarrow> bool" where
  "router_inv r \<longleftrightarrow> sound r \<and> wf_blooms (r_blooms r) \<and> peers_ok r"

text \<open>The parts of the state that the handling of the tree leaves alone.\<close>

definition tree_step :: "router \<Rightarrow> router \<Rightarrow> bool" where
  "tree_step r r' \<longleftrightarrow> r_public_key r' = r_public_key r \<and> r_pathfinder r' = r_pathfinder r \<and>
     r_blooms r' = r_blooms r \<and> r_peers r' = r_peers r \<and> hm_keys (r_sent r') = hm_keys (r_sent r) \<and>
     (cache_ok r \<longrightarrow> cache_ok r')"

lemma tree_step_refl: "tree_step r r"
  by (simp add: tree_step_def)

lemma tree_step_trans: "tree_step r s \<Longrightarrow> tree_step s t \<Longrightarrow> tree_step r t"
  by (simp add: tree_step_def)

lemma tree_step_inv: "tree_step r s \<Longrightarrow> router_inv r \<Longrightarrow> router_inv s"
  by (simp add: tree_step_def router_inv_def peers_ok_def sound_def)

lemma path_step_inv: "path_step r s \<Longrightarrow> router_inv r \<Longrightarrow> router_inv s"
  using path_step_fields [of r s] by (simp add: router_inv_def peers_ok_def path_step_sound)

lemma cache_ok_cong: "r_cache s = r_cache r \<Longrightarrow> r_infos s = r_infos r \<Longrightarrow> cache_ok s = cache_ok r"
  by (simp add: cache_ok_def)

lemma tree_stepI:
  "r_public_key s = r_public_key r \<Longrightarrow> r_pathfinder s = r_pathfinder r \<Longrightarrow> r_blooms s = r_blooms r \<Longrightarrow>
   r_peers s = r_peers r \<Longrightarrow> hm_keys (r_sent s) = hm_keys (r_sent r) \<Longrightarrow> r_cache s = r_cache r \<Longrightarrow>
   r_infos s = r_infos r \<Longrightarrow> tree_step r s"
  using cache_ok_cong [of s r] by (simp add: tree_step_def)

lemma update_tree_step: "update env ann r = (b, r') \<Longrightarrow> tree_step r r'"
  by (auto simp: update_def tree_step_def reset_cache_def cache_ok_def Let_def split: if_splits)

lemma mark_sent_tree_step: "tree_step r (mark_sent peer_key key r)"
  by (rule tree_stepI) (simp_all add: mark_sent_def)

lemma handle_announce_tree_step:
  assumes "handle_announce env p peer_key ann r = (acts, r')"
  shows "tree_step r r'"
proof -
  obtain b r1 where u: "update env ann r = (b, r1)" by fastforce
  have "tree_step r1 (r1\<lparr>r_refresh := True\<rparr>)" by (rule tree_stepI) simp_all
  then have "tree_step r1 r'"
    using assms u mark_sent_tree_step tree_step_trans tree_step_refl
    by (auto simp: handle_announce_def Let_def split: if_splits option.splits)
  then show ?thesis using update_tree_step [OF u] tree_step_trans by blast
qed

lemma handle_response_tree_step: "tree_step r (handle_response p key res rtt r)"
  by (rule tree_stepI) (simp_all add: handle_response_def Let_def)

lemma send_reqs_loop_tree_step: "send_reqs_loop env n ks acts r = (acts', r') \<Longrightarrow> tree_step r r'"
proof (induction env n ks acts r rule: send_reqs_loop.induct)
  case (2 env n pk peer_ids peer_keys actions r)
  let ?r = "r\<lparr>r_requests := hm_insert pk (new_req env n r) (r_requests r),
    r_responded := filter (\<lambda>i. i \<notin> set peer_ids) (r_responded r)\<rparr>"
  have "tree_step r ?r" by (rule tree_stepI) simp_all
  moreover have "tree_step ?r r'" using "2.prems" by (intro "2.IH" [OF refl refl]) (simp add: Let_def)
  ultimately show ?case by (rule tree_step_trans)
qed (simp add: tree_step_refl)

lemma send_reqs_tree_step: "send_reqs env n r = (acts, r') \<Longrightarrow> tree_step r r'"
proof -
  assume s: "send_reqs env n r = (acts, r')"
  have "tree_step r (clear_reqs r)" by (rule tree_stepI) (simp_all add: clear_reqs_def)
  then show ?thesis using s tree_step_trans send_reqs_loop_tree_step by (auto simp: send_reqs_def Let_def)
qed

lemma clear_flags_tree_step: "tree_step r (clear_flags r)"
  by (rule tree_stepI) simp_all

lemma fix_root_tree_step: "fix_root env r = (acts, r') \<Longrightarrow> tree_step r r'"
proof -
  assume f: "fix_root env r = (acts, r')"
  obtain b r1 where b: "become_root env 0 r = (b, r1)" by fastforce
  have s1: "tree_step r (clear_flags r1)"
    using update_tree_step b clear_flags_tree_step tree_step_trans
    unfolding become_root_def Let_def by blast
  have s2: "tree_step r (r\<lparr>r_do_root1 := True\<rparr>)" by (rule tree_stepI) simp_all
  show ?thesis
    using f b s2 tree_step_refl tree_step_trans [OF s1 send_reqs_tree_step]
    by (auto simp: fix_root_def split: if_splits)
qed

lemma router_fix_tree_step: "router_fix env r = (acts, r') \<Longrightarrow> tree_step r r'"
proof -
  assume f: "router_fix env r = (acts, r')"
  have use: "use_response env k res r = (ok, r1) \<Longrightarrow> tree_step r r1" for k res ok r1
    using update_tree_step unfolding use_response_def Let_def by blast
  have "send_reqs env 0 (clear_flags r1) = (acts, r') \<Longrightarrow> tree_step r1 r'" for r1
    using tree_step_trans [OF clear_flags_tree_step send_reqs_tree_step] by blast
  then show ?thesis
    using f tree_step_refl fix_root_tree_step tree_step_trans [OF use]
    by (auto simp: router_fix_def Let_def split: prod.splits if_splits option.splits)
qed

lemma update_ancestries_loop_tree_step: "tree_step r (update_ancestries_loop ks r)"
proof (induction ks arbitrary: r)
  case (Cons k ks)
  let ?r = "r\<lparr>r_ancs := hm_insert k (get_ancestry (r_infos r) k) (r_ancs r)\<rparr>"
  have "tree_step r ?r" by (rule tree_stepI) simp_all
  then show ?case using Cons.IH tree_step_trans by (auto simp: Let_def)
qed (simp add: tree_step_refl)

lemma send_announces_loop_returns:
  "set ks \<subseteq> set (hm_keys (r_sent r)) \<Longrightarrow>
   \<exists>acts' r'. send_announces_loop self_anc ks acts r = Some (acts', r') \<and> tree_step r r'"
proof (induction ks arbitrary: acts r)
  case (Cons k ks)
  then obtain sent where s: "hm_get (r_sent r) k = Some sent" using hm_get_SomeI [of k "r_sent r"] by auto
  have "tree_step r (r\<lparr>r_sent := hm_modify k (\<lambda>_. sent') (r_sent r)\<rparr>)" for sent'
    by (rule tree_stepI) simp_all
  moreover have "\<exists>acts' r'. send_announces_loop self_anc ks acts1 (r\<lparr>r_sent := hm_modify k (\<lambda>_. sent') (r_sent r)\<rparr>) =
      Some (acts', r') \<and> tree_step (r\<lparr>r_sent := hm_modify k (\<lambda>_. sent') (r_sent r)\<rparr>) r'" for sent' acts1
    using Cons.prems by (intro Cons.IH) (simp del: set_map)
  ultimately show ?case
    using s tree_step_trans by (fastforce simp: Let_def split: prod.splits)
qed (simp add: tree_step_refl)

lemma blooms_maintenance_returns:
  assumes "router_inv r"
  shows "\<exists>acts r'. blooms_maintenance env r = Some (acts, r') \<and> router_inv r'"
proof -
  let ?parents = "hm_map (\<lambda>_ v. ri_parent v) (r_infos r)"
  obtain blanks bs1 where fx: "fix_on_tree (r_public_key r) (self_info_parent r) ?parents (r_blooms r) = (blanks, bs1)"
    by fastforce
  have wf: "wf_blooms (r_blooms r)" using assms by (simp add: router_inv_def)
  obtain ts bs where "blooms_do_maintenance (env_murmur3 env) (r_bloom_transform r) (r_public_key r)
      (self_info_parent r) ?parents (r_blooms r) = Some (ts, bs)" "wf_blooms bs" "hm_keys bs = hm_keys (r_blooms r)"
    using blooms_do_maintenance_spec [OF wf fx, of "env_murmur3 env" "r_bloom_transform r"] by blast
  then show ?thesis
    using assms
    by (auto simp: blooms_maintenance_def router_inv_def peers_ok_def sound_def cache_ok_def Let_def
        simp del: set_map)
qed

lemma maintenance_timers_tree_step: "tree_step r (maintenance_timers env r)"
proof -
  define r1 where "r1 = (if env_now env - r_last_status_log r \<ge> 60 * 1000000000 then r\<lparr>r_last_status_log := env_now env\<rparr> else r)"
  define r2 where "r2 = (if env_now env - r_last_refresh r1 \<ge> r_router_refresh r1
    then r1\<lparr>r_refresh := True, r_last_refresh := env_now env\<rparr> else r1)"
  let ?r3 = "reset_cache (r2\<lparr>r_do_root2 := r_do_root2 r2 \<or> r_do_root1 r2\<rparr>)"
  have s1: "tree_step r r1" by (rule tree_stepI) (simp_all add: r1_def)
  have s2: "tree_step r1 r2" by (rule tree_stepI) (simp_all add: r2_def)
  have s3: "tree_step r2 ?r3" by (simp add: tree_step_def reset_cache_def cache_ok_def)
  have s4: "tree_step ?r3 (update_ancestries ?r3)"
    unfolding update_ancestries_def by (rule update_ancestries_loop_tree_step)
  have "maintenance_timers env r = update_ancestries ?r3"
    unfolding maintenance_timers_def Let_def r1_def r2_def ..
  then show ?thesis
    using tree_step_trans [OF tree_step_trans [OF s1 s2] tree_step_trans [OF s3 s4]] by (simp only:)
qed

lemma do_maintenance_returns:
  assumes inv: "router_inv r"
  shows "\<exists>acts r'. do_maintenance env r = Some (acts, r') \<and> router_inv r'"
proof -
  let ?r3 = "maintenance_timers env r"
  have s3: "tree_step r ?r3" by (rule maintenance_timers_tree_step)
  obtain fixed r4 where f: "router_fix env ?r3 = (fixed, r4)" by fastforce
  have s4: "tree_step r r4" by (rule tree_step_trans [OF s3 router_fix_tree_step [OF f]])
  obtain announced r5 where a: "send_announces r4 = Some (announced, r5)" "tree_step r4 r5"
    using send_announces_loop_returns [of "hm_keys (r_sent r4)" r4] unfolding send_announces_def by blast
  have "router_inv r5" by (rule tree_step_inv [OF tree_step_trans [OF s4 a(2)] inv])
  then obtain bloomed r6 where b: "blooms_maintenance env r5 = Some (bloomed, r6)" "router_inv r6"
    using blooms_maintenance_returns by blast
  let ?r7 = "set_pathfinder (cleanup_expired (env_now env) (r_path_timeout r6)) r6"
  have ok6: "sound r6" using b(2) by (simp add: router_inv_def)
  have s7: "path_step r6 ?r7" by (intro set_pathfinder_path_step ok6 pf_inv_cleanup sound_pf)
  obtain acts r' where "rumor_retry_loop env (rumors_needing_retry (r_pathfinder ?r7)) (fixed @ announced @ bloomed) ?r7
      = Some (acts, r')" "path_step ?r7 r'"
    using rumor_retry_loop_returns [OF path_step_sound [OF s7]] unfolding returns_def by blast
  moreover from this(2) have "router_inv r'" using path_step_inv [OF path_step_trans [OF s7] b(2)] by blast
  ultimately show ?thesis
    using f a(1) b(1) by (simp add: do_maintenance_def Let_def)
qed

lemma cache_ok_remove: "cache_ok r \<Longrightarrow> r_cache s = hm_remove k (r_cache r) \<Longrightarrow> r_infos s = r_infos r \<Longrightarrow> cache_ok s"
  by (auto simp: cache_ok_def split: if_splits)

lemma hm_insert_nonempty: "hm_insert k v m \<noteq> []"
proof
  assume "hm_insert k v m = []"
  then have "hm_get (hm_insert k v m) k = None" by simp
  then show False by simp
qed

text \<open>The state after \<open>add_peer\<close>, as far as the invariant looks at it.\<close>

lemma add_peer_state:
  assumes "add_peer env entry r = (acts, r')"
  shows "r_pathfinder r' = r_pathfinder r \<and> r_cache r' = r_cache r \<and> r_infos r' = r_infos r \<and>
    r_blooms r' = (if hm_contains (r_peers r) (pe_key entry) then r_blooms r else add_info (pe_key entry) (r_blooms r)) \<and>
    r_sent r' = (if hm_contains (r_peers r) (pe_key entry) then r_sent r else hm_insert (pe_key entry) [] (r_sent r)) \<and>
    r_peers r' = hm_modify (pe_key entry) (hm_insert (pe_id entry) entry)
      (if hm_contains (r_peers r) (pe_key entry) then r_peers r else hm_insert (pe_key entry) [] (r_peers r))"
  using assms by (cases "hm_contains (r_peers r) (pe_key entry)") (auto simp: add_peer_def Let_def)

lemma set_keys_add_info: "set (hm_keys (add_info k bs)) = insert k (set (hm_keys bs))"
  by (auto simp: add_info_def hm_entry_def split: option.splits dest: hm_get_Some_key)

lemma add_peer_inv:
  assumes inv: "router_inv r" and a: "add_peer env entry r = (acts, r')"
  shows "router_inv r'"
proof -
  let ?k = "pe_key entry"
  note st = add_peer_state [OF a]
  have "hm_wf (r_peers r')" "wf_blooms (r_blooms r')"
    using inv st by (auto simp: router_inv_def peers_ok_def intro: wf_blooms_add_info simp del: set_map)
  moreover have "set (hm_keys (r_sent r')) = set (hm_keys (r_peers r'))"
    "set (hm_keys (r_blooms r')) = set (hm_keys (r_peers r'))"
    using inv st by (auto simp: router_inv_def peers_ok_def set_keys_add_info simp del: set_map)
  moreover have "conns_ok k peers" if "hm_get (r_peers r') k = Some peers" for k peers
  proof (cases "hm_get (r_peers r) ?k")
    case None
    with that st have "if k = ?k then peers = hm_insert (pe_id entry) entry [] else hm_get (r_peers r) k = Some peers"
      by (auto simp: hm_contains_def split: if_splits)
    then show ?thesis
      using inv by (auto simp: router_inv_def peers_ok_def conns_ok_def hm_insert_nonempty split: if_splits)
  next
    case (Some ps)
    then have "conns_ok ?k ps" using inv by (simp add: router_inv_def peers_ok_def)
    moreover have "if k = ?k then peers = hm_insert (pe_id entry) entry ps else hm_get (r_peers r) k = Some peers"
      using that st Some by (auto simp: hm_contains_def split: if_splits)
    ultimately show ?thesis
      using inv by (auto simp: router_inv_def peers_ok_def conns_ok_def hm_insert_nonempty split: if_splits)
  qed
  ultimately show ?thesis
    using inv st cache_ok_cong [of r' r] by (simp add: router_inv_def peers_ok_def sound_def)
qed

lemma hm_get_remove_Some: "hm_get (hm_remove k m) k' = Some v \<Longrightarrow> hm_get m k' = Some v"
  by (simp split: if_splits)

lemma remove_peer_inv:
  assumes inv: "router_inv r" and a: "remove_peer p key port r = (acts, r')"
  shows "router_inv r'"
proof (cases "hm_get (r_peers r) key")
  case None
  then have "tree_step r r'" using a by (auto simp: remove_peer_def Let_def intro!: tree_stepI)
  then show ?thesis by (rule tree_step_inv [OF _ inv])
next
  case (Some peers)
  let ?ps = "hm_remove p peers"
  have old: "hm_wf (r_peers r)" "conns_ok key peers" "\<And>k ps. hm_get (r_peers r) k = Some ps \<Longrightarrow> conns_ok k ps"
    "set (hm_keys (r_sent r)) = set (hm_keys (r_peers r))" "set (hm_keys (r_blooms r)) = set (hm_keys (r_peers r))"
    using inv Some by (simp_all add: router_inv_def peers_ok_def)
  have ps: "conns_ok key ?ps" if "?ps \<noteq> []"
    using old(2) that by (simp add: conns_ok_def)
  show ?thesis
  proof (cases "?ps = []")
    case True
    then have st: "r_pathfinder r' = r_pathfinder r" "r_cache r' = hm_remove key (r_cache r)" "r_infos r' = r_infos r"
      "r_blooms r' = hm_remove key (r_blooms r)" "r_sent r' = hm_remove key (r_sent r)"
      "r_peers r' = hm_remove key (hm_modify key (\<lambda>_. ?ps) (r_peers r))"
      using a Some by (auto simp: remove_peer_def remove_info_def Let_def)
    have "cache_ok r'" by (rule cache_ok_remove [OF _ st(2,3)]) (use inv in \<open>simp add: router_inv_def sound_def\<close>)
    moreover have "wf_blooms (r_blooms r')"
      using inv st wf_blooms_remove_info [of "r_blooms r" key] by (simp add: router_inv_def remove_info_def)
    moreover have "peers_ok r'"
      unfolding peers_ok_def st using old(1,3-5) by (simp split: if_split del: set_map)
    ultimately show ?thesis using inv st by (simp add: router_inv_def sound_def)
  next
    case False
    then have st: "r_pathfinder r' = r_pathfinder r" "r_cache r' = r_cache r" "r_infos r' = r_infos r"
      "r_blooms r' = r_blooms r" "r_sent r' = r_sent r" "r_peers r' = hm_modify key (\<lambda>_. ?ps) (r_peers r)"
      using a Some by (auto simp: remove_peer_def Let_def)
    have "peers_ok r'"
      unfolding peers_ok_def st using old(1,3-5) ps [OF False] Some by (simp split: if_split del: set_map)
    then show ?thesis using inv st cache_ok_cong [of r' r] by (simp add: router_inv_def sound_def)
  qed
qed

lemma expire_one_inv: "router_inv r \<Longrightarrow> router_inv (expire_one key r)"
  by (auto simp: expire_one_def reset_cache_def router_inv_def peers_ok_def sound_def cache_ok_def simp del: set_map)

lemma expire_infos_inv: "router_inv r \<Longrightarrow> router_inv (expire_infos env r)"
proof -
  have "router_inv s \<Longrightarrow> router_inv (fold expire_one ks s)" for ks s
    by (induction ks arbitrary: s) (auto simp: expire_one_inv)
  then show "router_inv r \<Longrightarrow> router_inv (expire_infos env r)" by (simp add: expire_infos_def)
qed

lemma router_handle_bloom_inv:
  "router_inv r \<Longrightarrow> length f = BLOOM_FILTER_U64S \<Longrightarrow> router_inv (router_handle_bloom key f r)"
  using wf_blooms_handle_bloom [of "r_blooms r" f key]
  by (simp add: router_handle_bloom_def blooms_handle_bloom_def router_inv_def peers_ok_def sound_def cache_ok_def
      del: set_map)

section \<open>Sequences of events\<close>

text \<open>What can happen to a router: the calls the network core makes, each with the environment
  (time, keys, random draws) at that moment. \<open>None\<close> is a panic, or a recursion deeper than
  \<open>NOTIFY_DEPTH\<close>.\<close>

datatype router_event =
    AddPeer peer_entry
  | RemovePeer peer_id public_key peer_port
  | SigResponse peer_id public_key sig_res duration
  | Announced peer_id public_key router_announce
  | BloomReceived public_key bloom_filter
  | TrafficReceived traffic_packet
  | TrafficSent traffic_packet
  | LookupReceived public_key path_lookup
  | NotifyReceived path_notify
  | BrokenReceived path_broken
  | LookupForced public_key
  | RefreshForced
  | InfosExpired
  | Maintenance

fun router_handle :: "router_env \<times> router_event \<Rightarrow> router_run" where
  "router_handle (env, AddPeer entry) r = Some (add_peer env entry r)"
| "router_handle (env, RemovePeer p key port) r = Some (remove_peer p key port r)"
| "router_handle (env, SigResponse p key res rtt) r = Some ([], handle_response p key res rtt r)"
| "router_handle (env, Announced p key ann) r = Some (handle_announce env p key ann r)"
| "router_handle (env, BloomReceived key f) r = Some ([], router_handle_bloom key f r)"
| "router_handle (env, TrafficReceived tr) r = handle_traffic env tr r"
| "router_handle (env, TrafficSent tr) r = send_traffic env tr r"
| "router_handle (env, LookupReceived key lk) r = handle_lookup env key lk r"
| "router_handle (env, NotifyReceived n) r = handle_notify env n r"
| "router_handle (env, BrokenReceived b) r = handle_broken env b r"
| "router_handle (env, LookupForced dest) r = force_lookup env dest r"
| "router_handle (env, RefreshForced) r = Some ([], force_refresh env r)"
| "router_handle (env, InfosExpired) r = Some ([], expire_infos env r)"
| "router_handle (env, Maintenance) r = do_maintenance env r"

text \<open>Filters arrive through the decoder, which yields 128 words.\<close>

fun event_ok :: "router_env \<times> router_event \<Rightarrow> bool" where
  "event_ok (env, BloomReceived key f) = (length f = BLOOM_FILTER_U64S)"
| "event_ok (env, _) = True"

definition router_step :: "router_env \<times> router_event \<Rightarrow> router option \<Rightarrow> router option" where
  "router_step e s = Option.bind s (\<lambda>r. map_option snd (router_handle e r))"

definition alive :: "router option \<Rightarrow> bool" where
  "alive s \<longleftrightarrow> (\<exists>r. s = Some r \<and> router_inv r)"

lemma returns_inv: "returns f r \<Longrightarrow> router_inv r \<Longrightarrow> \<exists>acts r'. f r = Some (acts, r') \<and> router_inv r'"
  unfolding returns_def using path_step_inv by blast

lemma router_inv_sound: "router_inv r \<Longrightarrow> sound r"
  by (simp add: router_inv_def)

lemma force_refresh_inv: "router_inv r \<Longrightarrow> router_inv (force_refresh env r)"
  by (rule tree_step_inv [OF tree_stepI]) (simp_all add: force_refresh_def)

lemmas path_handlers_return = handle_traffic_returns send_traffic_returns handle_lookup_returns
  handle_notify_returns handle_broken_returns force_lookup_returns

lemma router_handle_returns:
  assumes inv: "router_inv r" and ok: "event_ok e"
  shows "\<exists>acts r'. router_handle e r = Some (acts, r') \<and> router_inv r'"
proof -
  obtain env ev where e: "e = (env, ev)" by fastforce
  have tree: "\<exists>acts r'. Some x = Some (acts, r') \<and> router_inv r'"
    if "\<And>acts r'. x = (acts, r') \<Longrightarrow> router_inv r'" for x :: "router_action list \<times> router"
    using that [of "fst x" "snd x"] by (cases x) auto
  note path = returns_inv [OF path_handlers_return(1) inv] returns_inv [OF path_handlers_return(2) inv]
    returns_inv [OF path_handlers_return(3) inv] returns_inv [OF path_handlers_return(4) inv]
    returns_inv [OF path_handlers_return(5) inv] returns_inv [OF path_handlers_return(6) inv]
  show ?thesis
    using e ok inv router_inv_sound [OF inv] do_maintenance_returns [OF inv, of env]
      tree [OF add_peer_inv [OF inv]] tree [OF remove_peer_inv [OF inv]]
      tree [OF tree_step_inv [OF handle_announce_tree_step inv]]
    by (cases ev) (simp_all add: path tree_step_inv [OF handle_response_tree_step]
        router_handle_bloom_inv force_refresh_inv expire_infos_inv)
qed

interpretation router_events: event_invariant router_step event_ok alive
proof
  fix s e
  assume "alive s" "event_ok e"
  then obtain r acts r' where "s = Some r" "router_handle e r = Some (acts, r')" "router_inv r'"
    unfolding alive_def using router_handle_returns by blast
  then show "alive (router_step e s)" by (simp add: alive_def router_step_def)
qed

lemma router_new_inv: "router_inv (router_new env key config)"
  by (simp add: router_inv_def sound_def cache_ok_def peers_ok_def router_new_def pf_inv_new wf_blooms_def)

section \<open>Properties\<close>

text \<open>C3. A router never gets stuck. Whatever the network core calls, in whatever order, from the
  freshly created router on, every handler returns: no lookup in a map panics and the mutual
  recursion of the notification, traffic and lookup handlers ends. Every state reached keeps the
  invariant: cached coordinates agree with the tree, buffered packets are stored under their
  destination, a peer is listed exactly as long as it has a connection, and the sets of sent
  announcements and the filters exist for exactly the listed peers.\<close>

theorem router_never_stuck:
  "list_all event_ok es \<Longrightarrow>
   \<exists>r. fold router_step es (Some (router_new env key config)) = Some r \<and> router_inv r"
  using router_events.run_inv [of "Some (router_new env key config)" es] router_new_inv
  by (simp add: alive_def)

theorem router_never_stuck_witness:
  "\<exists>r. fold router_step
     [(sample_env, AddPeer \<lparr>pe_id = 1, pe_key = [2], pe_port = 5, pe_prio = 0, pe_order = 0\<rparr>),
      (sample_env, TrafficSent sample_packet), (sample_env, Maintenance),
      (sample_env, RemovePeer 1 [2] 5), (sample_env, Maintenance)]
     (Some (router_new sample_env [1] sample_config)) = Some r \<and> router_inv r"
  by (rule router_never_stuck) simp

end
