(* ===== verification/Router_Gossip.thy ===== *)
theory Router_Gossip
  imports Router_State
begin

text \<open>
  The spanning tree protocol across nodes: stored tree information converges, maintenance gossips
  what the peers lack, and parent selection leads to a root.
\<close>

section \<open>Convergence\<close>

text \<open>An announcement as it reaches a router: the environment at that time, the connection and the
  peer it came from.\<close>

type_synonym delivery = "router_env \<times> peer_id \<times> public_key \<times> router_announce"

fun delivered :: "delivery \<Rightarrow> router_announce" where
  "delivered (env, p, key, ann) = ann"

fun deliver_announce :: "delivery \<Rightarrow> router \<Rightarrow> router" where
  "deliver_announce (env, p, key, ann) r = snd (handle_announce env p key ann r)"

lemma update_infos: "r_infos (snd (update env ann r)) = infos_update ann (r_infos r)"
  by (simp add: update_def infos_update_def reset_cache_def Let_def)

lemma handle_announce_infos: "r_infos (snd (handle_announce env p key ann r)) = infos_update ann (r_infos r)"
  using update_infos [of env ann r]
  by (auto simp: handle_announce_def mark_sent_def Let_def split: prod.splits if_splits option.splits)

lemma deliver_infos: "r_infos (fold deliver_announce ds r) = fold infos_update (map delivered ds) (r_infos r)"
proof (induction ds arbitrary: r)
  case (Cons d ds)
  have "r_infos (deliver_announce d r) = infos_update (delivered d) (r_infos r)"
    by (cases d) (simp add: handle_announce_infos)
  then show ?case using Cons.IH by simp
qed simp

lemma infos_converge:
  assumes "set anns = set anns'"
  shows "rel_option info_same (hm_get (fold infos_update anns infos) k) (hm_get (fold infos_update anns' infos) k)"
proof -
  let ?xs = "map info_of (filter (\<lambda>a. ra_key a = k) anns)" and ?ys = "map info_of (filter (\<lambda>a. ra_key a = k) anns')"
  have same: "set ?xs = set ?ys" using assms by auto
  then have empty: "?xs = [] \<longleftrightarrow> ?ys = []" by (metis set_empty)
  show ?thesis
    unfolding fold_infos_update_get
    using announcements.order_insensitive [OF same, of "hm_get infos k"] empty
      announcements.fold_defined [of ?xs "hm_get infos k"] announcements.fold_defined [of ?ys "hm_get infos k"]
    by (cases "fold (keep_newer info_newer) ?xs (hm_get infos k)";
        cases "fold (keep_newer info_newer) ?ys (hm_get infos k)") auto
qed

text \<open>The walks along parent links depend on the parents only.\<close>

definition same_parents :: "infos \<Rightarrow> infos \<Rightarrow> bool" where
  "same_parents infos infos' \<longleftrightarrow>
     (\<forall>k. map_option ri_parent (hm_get infos k) = map_option ri_parent (hm_get infos' k))"

lemma info_same_parents:
  "(\<And>k. rel_option info_same (hm_get infos k) (hm_get infos' k)) \<Longrightarrow> same_parents infos infos'"
proof (unfold same_parents_def, rule allI)
  fix k
  assume "\<And>k. rel_option info_same (hm_get infos k) (hm_get infos' k)"
  then have "rel_option info_same (hm_get infos k) (hm_get infos' k)" .
  then show "map_option ri_parent (hm_get infos k) = map_option ri_parent (hm_get infos' k)"
    by (cases rule: option.rel_cases) (auto simp: info_same_def)
qed

lemma root_and_dists_loop_cong:
  "same_parents infos infos' \<Longrightarrow> root_and_dists_loop infos dists k d = root_and_dists_loop infos' dists k d"
proof (induction infos dists k d rule: root_and_dists_loop.induct)
  case (1 infos dists nxt dist)
  have p: "map_option ri_parent (hm_get infos nxt) = map_option ri_parent (hm_get infos' nxt)"
    using "1.prems" by (simp add: same_parents_def)
  show ?case
  proof (cases "hm_get infos nxt")
    case None
    with p have "hm_get infos' nxt = None" by simp
    then show ?thesis
      using None by (simp add: root_and_dists_loop.simps [of infos] root_and_dists_loop.simps [of infos'])
  next
    case (Some info)
    with p obtain info' where i: "hm_get infos' nxt = Some info'" "ri_parent info' = ri_parent info"
      by (cases "hm_get infos' nxt") auto
    show ?thesis
    proof (cases "hm_contains dists nxt \<or> ri_parent info = nxt")
      case True
      then show ?thesis
        using Some i by (subst (1 2) root_and_dists_loop.simps) auto
    next
      case False
      then show ?thesis
        using "1.IH" [OF _ Some refl _ "1.prems"] Some i
        by (subst (1 2) root_and_dists_loop.simps) (auto simp: Let_def)
    qed
  qed
qed

section \<open>Gossip to the peers\<close>

text \<open>What a peer is told in a maintenance round: on each of its connections, the stored information
  of our ancestors and of its own, as far as it was not sent before.\<close>

definition gossip_to :: "router \<Rightarrow> public_key list \<Rightarrow> public_key \<Rightarrow> router_action set" where
  "gossip_to r self_anc k =
     {SendAnnounce (pe_id e) (to_wire (get_announce info x)) | sent peers e x info.
        hm_get (r_sent r) k = Some sent \<and> hm_get (r_peers r) k = Some peers \<and> e \<in> snd ` set peers \<and>
        x \<in> set self_anc \<union> set (get_ancestry (r_infos r) k) - set sent \<and> hm_get (r_infos r) x = Some info}"

lemma unsent_sets:
  "unsent ks ts s = (ts', s') \<Longrightarrow> set ts' = set ts \<union> (set ks - set s) \<and> set s' = set s \<union> set ks"
  by (induction ks ts s rule: unsent.induct) (auto split: if_splits)

lemma set_map_filter: "set (List.map_filter f xs) = {y. \<exists>x\<in>set xs. f x = Some y}"
  by (induction xs) (auto simp: List.map_filter_simps split: option.splits)

lemma send_announces_loop_exact:
  "send_announces_loop self_anc ks acts r = Some (acts', r') \<Longrightarrow>
   set acts' = set acts \<union> (\<Union>k\<in>set ks. gossip_to r self_anc k) \<and> r'\<lparr>r_sent := []\<rparr> = r\<lparr>r_sent := []\<rparr> \<and>
   (\<forall>k sent. hm_get (r_sent r) k = Some sent \<longrightarrow> (\<exists>sent'. hm_get (r_sent r') k = Some sent' \<and>
      set sent' = set sent \<union> (if k \<in> set ks then set self_anc \<union> set (get_ancestry (r_infos r) k) else {})))"
proof (induction ks arbitrary: acts r)
  case Nil
  then show ?case by auto
next
  case (Cons k ks)
  from Cons.prems obtain sent where s: "hm_get (r_sent r) k = Some sent" by (auto split: option.splits)
  obtain ts1 s1 where u1: "unsent self_anc [] sent = (ts1, s1)" by fastforce
  obtain ts2 s2 where u2: "unsent (get_ancestry (r_infos r) k) ts1 s1 = (ts2, s2)" by fastforce
  let ?r = "r\<lparr>r_sent := hm_modify k (\<lambda>_. s2) (r_sent r)\<rparr>"
  let ?anns = "List.map_filter (\<lambda>k. map_option (\<lambda>info. to_wire (get_announce info k)) (hm_get (r_infos r) k)) ts2"
  let ?new = "case hm_get (r_peers r) k of None \<Rightarrow> []
    | Some peers \<Rightarrow> concat (map (\<lambda>(_, entry). map (SendAnnounce (pe_id entry)) ?anns) peers)"
  have sets: "set ts2 = set self_anc \<union> set (get_ancestry (r_infos r) k) - set sent"
    "set s2 = set sent \<union> set self_anc \<union> set (get_ancestry (r_infos r) k)"
    using unsent_sets [OF u1] unsent_sets [OF u2] by auto
  have loop: "send_announces_loop self_anc ks (acts @ ?new) ?r = Some (acts', r')"
    using Cons.prems s u1 u2 by (cases "hm_get (r_peers r) k") (simp_all add: Let_def)
  have anns: "set ?anns = {to_wire (get_announce info x) | x info. x \<in> set ts2 \<and> hm_get (r_infos r) x = Some info}"
    unfolding set_map_filter by auto
  have new: "set ?new = gossip_to r self_anc k"
  proof (cases "hm_get (r_peers r) k")
    case (Some peers)
    then have "set ?new = {SendAnnounce (pe_id e) w | e w. e \<in> snd ` set peers \<and> w \<in> set ?anns}" by force
    then show ?thesis unfolding anns sets(1) using s Some by (auto simp: gossip_to_def)
  qed (simp add: gossip_to_def)
  have "gossip_to ?r self_anc k' = (if k' = k then {} else gossip_to r self_anc k')" for k'
    using s sets(2) by (auto simp: gossip_to_def)
  then have "(\<Union>k\<in>set (k # ks). gossip_to r self_anc k) = set ?new \<union> (\<Union>k\<in>set ks. gossip_to ?r self_anc k)"
    unfolding new by auto
  moreover note ih = Cons.IH [OF loop]
  moreover have "\<exists>sent'. hm_get (r_sent r') k' = Some sent' \<and> set sent' = set old \<union>
      (if k' \<in> set (k # ks) then set self_anc \<union> set (get_ancestry (r_infos r) k') else {})"
    if "hm_get (r_sent r) k' = Some old" for k' old
  proof -
    have "hm_get (r_sent ?r) k' = Some (if k' = k then s2 else old)" using that s by simp
    with ih obtain sent' where "hm_get (r_sent r') k' = Some sent'"
      "set sent' = set (if k' = k then s2 else old) \<union>
        (if k' \<in> set ks then set self_anc \<union> set (get_ancestry (r_infos r) k') else {})"
      by fastforce
    then show ?thesis using that s sets(2) by (auto split: if_splits)
  qed
  ultimately show ?case by auto
qed

section \<open>Parent selection\<close>

text \<open>A choice of parent is good if it is no parent at all (we are the root), or a node with a
  confirmed root smaller than ourselves, reached without passing through us.\<close>

definition good_choice :: "router \<Rightarrow> public_key \<Rightarrow> public_key \<Rightarrow> bool" where
  "good_choice r root parent \<longleftrightarrow>
     root = r_public_key r \<and> parent = r_public_key r \<or>
     root < r_public_key r \<and> (\<exists>ks ps. tree_walk (r_infos r) parent ks root ps \<and> r_public_key r \<notin> set ks)"

lemma get_root_and_dists_walk:
  assumes "tree_walk infos k ks root ps"
  shows "\<exists>dists. get_root_and_dists infos k = (root, dists, True) \<and> (\<forall>x. hm_contains dists x \<longleftrightarrow> x \<in> set ks)"
proof -
  obtain dists where d: "get_root_and_dists infos k = (root, dists, True)"
    "\<And>i. i < length ks \<Longrightarrow> hm_get dists (ks ! i) = Some (of_nat i)" "\<And>x. x \<notin> set ks \<Longrightarrow> hm_get dists x = None"
    using root_and_dists_loop_walk [OF assms, of "[]" 0] by (auto simp: get_root_and_dists_def)
  have "hm_contains dists x \<longleftrightarrow> x \<in> set ks" for x
    by (cases "x \<in> set ks") (auto simp: hm_contains_def d(2,3) in_set_conv_nth)
  with d(1) show ?thesis by blast
qed

lemma get_root_and_dists_valid:
  assumes "get_root_and_dists infos k = (root, dists, True)"
  obtains ks ps where "tree_walk infos k ks root ps" "\<And>x. hm_contains dists x \<longleftrightarrow> x \<in> set ks"
proof -
  obtain ks ps where w: "tree_walk infos k ks root ps"
    using assms root_and_dists_loop_sound unfolding get_root_and_dists_def by blast
  show ?thesis using that [OF w] get_root_and_dists_walk [OF w] assms by simp
qed

lemma select_step_good:
  assumes "good_choice r root parent" "select_step r pk (root, parent, cost) = (root', parent', cost')"
  shows "good_choice r root' parent' \<and> root' \<le> root"
proof (cases "(root', parent', cost') = (root, parent, cost)")
  case True
  then show ?thesis using assms(1) by simp
next
  case False
  obtain p_root p_dists valid where d: "get_root_and_dists (r_infos r) pk = (p_root, p_dists, valid)"
    by (metis prod.collapse)
  from False assms(2) d have new: "valid" "\<not> hm_contains p_dists (r_public_key r)" "p_root \<le> root"
      "root' = p_root" "parent' = parent \<and> p_root = root \<or> parent' = pk"
    by (auto simp: select_step_def Let_def not_less split: if_splits)
  obtain ks ps where w: "tree_walk (r_infos r) pk ks p_root ps" "\<And>x. hm_contains p_dists x \<longleftrightarrow> x \<in> set ks"
    using get_root_and_dists_valid [of "r_infos r" pk p_root p_dists] d new(1) by (simp only:) blast
  have "p_root < r_public_key r \<or> p_root = r_public_key r"
    using new(3) assms(1) by (auto simp: good_choice_def)
  moreover have "p_root \<noteq> r_public_key r"
    using new(2) w tree_walk_head [OF w(1)] last_in_set by metis
  ultimately show ?thesis using new w assms(1) by (auto simp: good_choice_def)
qed

lemma select_step_candidate:
  assumes "select_step r pk (root, parent, cost) = (root', parent', cost')"
    "tree_walk (r_infos r) pk ks p_root ps" "r_public_key r \<notin> set ks"
  shows "root' \<le> p_root"
proof -
  have "hm_contains (r_infos r) pk" using assms(2) by (auto simp: hm_contains_def elim: tree_walkE)
  moreover obtain dists where "get_root_and_dists (r_infos r) pk = (p_root, dists, True)"
    "\<not> hm_contains dists (r_public_key r)"
    using get_root_and_dists_walk [OF assms(2)] assms(3) by auto
  ultimately show ?thesis
    using assms(1) by (auto simp: select_step_def Let_def not_less split: if_splits)
qed

lemma select_fold:
  assumes "good_choice r root parent" "fold (select_step r) pks (root, parent, cost) = (root', parent', cost')"
  shows "good_choice r root' parent' \<and> root' \<le> root \<and>
    (\<forall>pk\<in>set pks. \<forall>ks p_root ps. tree_walk (r_infos r) pk ks p_root ps \<longrightarrow> r_public_key r \<notin> set ks \<longrightarrow> root' \<le> p_root)"
  using assms
proof (induction pks arbitrary: root parent cost)
  case (Cons pk pks)
  obtain root1 parent1 cost1 where s: "select_step r pk (root, parent, cost) = (root1, parent1, cost1)"
    by (metis prod.collapse)
  note good = select_step_good [OF Cons.prems(1) s]
  have "fold (select_step r) pks (root1, parent1, cost1) = (root', parent', cost')"
    using Cons.prems(2) s by simp
  from Cons.IH [OF _ this] good select_step_candidate [OF s] show ?case by fastforce
qed simp

lemma current_parent_good:
  assumes "get_root_and_dists (r_infos r) (r_public_key r) = (root, dists, True)" "root < r_public_key r"
  shows "good_choice r root (self_info_parent r)"
proof -
  obtain ks ps where w: "tree_walk (r_infos r) (r_public_key r) ks root ps"
    using get_root_and_dists_valid [OF assms(1)] by blast
  from w assms(2) show ?thesis
  proof (cases rule: tree_walk.cases)
    case (tw_child info ks' ps')
    then have "r_public_key r \<notin> set ks'" using tree_walk_distinct [OF w] by simp
    with tw_child assms(2) show ?thesis by (auto simp: good_choice_def self_info_parent_def)
  qed simp
qed

lemma select_parent_good:
  assumes "select_parent r = (root, parent)"
  shows "good_choice r root parent \<and>
    (\<forall>pk ks p_root ps. hm_contains (r_responses r) pk \<longrightarrow> tree_walk (r_infos r) pk ks p_root ps \<longrightarrow>
       r_public_key r \<notin> set ks \<longrightarrow> root \<le> p_root)"
proof -
  obtain root0 dists valid where d: "get_root_and_dists (r_infos r) (r_public_key r) = (root0, dists, valid)"
    by (metis prod.collapse)
  let ?self = "(r_public_key r, r_public_key r, u64_max)"
  define start where "start = (if hm_contains (r_peers r) (self_info_parent r) \<and> valid \<and> root0 < r_public_key r
    then (root0, self_info_parent r, min_link_cost r (case hm_get dists root0 of None \<Rightarrow> u64_max | Some d \<Rightarrow> d)
      (self_info_parent r)) else ?self)"
  obtain root1 parent1 cost1 where st: "start = (root1, parent1, cost1)" by (metis prod.collapse)
  have "good_choice r root1 parent1"
  proof (cases "hm_contains (r_peers r) (self_info_parent r) \<and> valid \<and> root0 < r_public_key r")
    case True
    then show ?thesis using st current_parent_good [of r root0 dists] d by (simp add: start_def)
  next
    case False
    then have "start = ?self" unfolding start_def by (simp only: if_False)
    then show ?thesis using st by (simp add: good_choice_def)
  qed
  moreover have "select_parent r = (case fold (select_step r) (hm_keys (r_responses r)) start of (a, b, c) \<Rightarrow> (a, b))"
    using d by (simp add: select_parent_def start_def Let_def)
  then obtain cost' where "fold (select_step r) (hm_keys (r_responses r)) (root1, parent1, cost1) = (root, parent, cost')"
    using assms st by (simp split: prod.splits)
  ultimately have "good_choice r root parent \<and> root \<le> root1 \<and> (\<forall>pk\<in>set (hm_keys (r_responses r)).
      \<forall>ks p_root ps. tree_walk (r_infos r) pk ks p_root ps \<longrightarrow> r_public_key r \<notin> set ks \<longrightarrow> root \<le> p_root)"
    by (rule select_fold)
  then show ?thesis unfolding hm_contains_iff by blast
qed

lemma tree_walk_insert:
  "tree_walk infos k ks root ps \<Longrightarrow> x \<notin> set ks \<Longrightarrow> tree_walk (hm_insert x info infos) k ks root ps"
  by (induction rule: tree_walk.induct) (auto intro: tree_walk.intros)

lemma use_response_reaches:
  assumes "good_choice r root parent" "root \<noteq> r_public_key r" "use_response env parent res r = (True, r')"
  shows "\<exists>ports. tree_path (r_infos r') (r_public_key r) root ports"
proof -
  obtain ks ps where w: "tree_walk (r_infos r) parent ks root ps" "r_public_key r \<notin> set ks"
    using assms(1,2) by (auto simp: good_choice_def)
  from assms(3) obtain info where i: "r_infos r' = hm_insert (r_public_key r) info (r_infos r)" "ri_parent info = parent"
    by (auto simp: use_response_def update_def Let_def reset_cache_def info_of_def split: if_splits)
  have "tree_walk (r_infos r') parent ks root ps" unfolding i(1) by (rule tree_walk_insert [OF w])
  moreover have "parent \<noteq> r_public_key r" using w tree_walk_head [OF w(1)] hd_in_set by metis
  ultimately show ?thesis
    using i tw_child [of "r_infos r'" "r_public_key r" info ks root ps] by (auto simp: tree_path_def)
qed

lemma become_root_reaches:
  "become_root env n r = (True, r') \<Longrightarrow> tree_path (r_infos r') (r_public_key r) (r_public_key r) []"
  by (auto simp: become_root_def update_def Let_def reset_cache_def info_of_def tree_path_def
      split: if_splits intro!: exI tw_root)

section \<open>Losing the parent\<close>

text \<open>The part of the state that decides about the parent.\<close>

definition tree_part :: "router \<Rightarrow> infos \<times> public_key \<times> (public_key, (peer_id, peer_entry) hmap) hmap \<times>
    (public_key, sig_res_state) hmap \<times> bool \<times> bool" where
  "tree_part r = (r_infos r, r_public_key r, r_peers r, r_responses r, r_do_root1 r, r_do_root2 r)"

lemma tree_part_update [simp]:
  "tree_part (r\<lparr>r_ancs := x1\<rparr>) = tree_part r" "tree_part (r\<lparr>r_sent := x2\<rparr>) = tree_part r"
  "tree_part (r\<lparr>r_cache := x3\<rparr>) = tree_part r" "tree_part (r\<lparr>r_pathfinder := x4\<rparr>) = tree_part r"
  "tree_part (r\<lparr>r_blooms := x5\<rparr>) = tree_part r" "tree_part (r\<lparr>r_requests := x6\<rparr>) = tree_part r"
  "tree_part (r\<lparr>r_responded := x7\<rparr>) = tree_part r"
  by (simp_all add: tree_part_def)

lemma path_step_tree_part: "path_step r s \<Longrightarrow> tree_part s = tree_part r"
  unfolding path_step_def using tree_part_update(3,4) by metis

lemma update_ancestries_tree_part: "tree_part (update_ancestries_loop ks r) = tree_part r"
  by (induction ks arbitrary: r) (simp_all add: Let_def)

lemma maintenance_timers_tree_part:
  "tree_part (maintenance_timers env r) =
     (r_infos r, r_public_key r, r_peers r, r_responses r, r_do_root1 r, r_do_root2 r \<or> r_do_root1 r)"
  by (simp add: maintenance_timers_def update_ancestries_def update_ancestries_tree_part reset_cache_def Let_def)
    (simp add: tree_part_def)

lemma blooms_maintenance_tree_part: "blooms_maintenance env r = Some (acts, r') \<Longrightarrow> tree_part r' = tree_part r"
  by (auto simp: blooms_maintenance_def Let_def split: option.splits)

lemma send_announces_tree_part:
  assumes "send_announces r = Some (acts, r')"
  shows "tree_part r' = tree_part r"
proof -
  have "r'\<lparr>r_sent := []\<rparr> = r\<lparr>r_sent := []\<rparr>"
    using assms send_announces_loop_exact unfolding send_announces_def by blast
  then show ?thesis using tree_part_update(2) by metis
qed

lemma do_maintenance_tree_part:
  assumes inv: "router_inv r" and m: "do_maintenance env r = Some (acts, r')"
    and f: "router_fix env (maintenance_timers env r) = (fixed, r4)"
  shows "tree_part r' = tree_part r4"
proof -
  have s4: "tree_step r r4"
    by (rule tree_step_trans [OF maintenance_timers_tree_step router_fix_tree_step [OF f]])
  obtain announced r5 where a: "send_announces r4 = Some (announced, r5)" "tree_step r4 r5"
    using send_announces_loop_returns [of "hm_keys (r_sent r4)" r4] unfolding send_announces_def by blast
  have i5: "router_inv r5" by (rule tree_step_inv [OF tree_step_trans [OF s4 a(2)] inv])
  then obtain bloomed r6 where b: "blooms_maintenance env r5 = Some (bloomed, r6)" "router_inv r6"
    using blooms_maintenance_returns by blast
  let ?r7 = "set_pathfinder (cleanup_expired (env_now env) (r_path_timeout r6)) r6"
  have ok6: "sound r6" using b(2) by (simp add: router_inv_def)
  have s7: "path_step r6 ?r7" by (intro set_pathfinder_path_step ok6 pf_inv_cleanup sound_pf)
  have loop: "rumor_retry_loop env (rumors_needing_retry (r_pathfinder ?r7)) (fixed @ announced @ bloomed) ?r7 = Some (acts, r')"
    using m f a(1) b(1) by (simp add: do_maintenance_def Let_def)
  have "path_step ?r7 r'"
    using rumor_retry_loop_returns [OF path_step_sound [OF s7], of env "rumors_needing_retry (r_pathfinder ?r7)"
        "fixed @ announced @ bloomed"] unfolding returns_def loop by auto
  then show ?thesis
    using path_step_tree_part [OF path_step_trans [OF s7]] blooms_maintenance_tree_part [OF b(1)]
      send_announces_tree_part [OF a(1)] by simp
qed

text \<open>An orphan has no answer from any peer, and its parent is not among its peers; a node that
  already is its own root counts as well. \<open>room n\<close> leaves \<open>n\<close> more sequence numbers.\<close>

definition orphan :: "nat \<Rightarrow> router \<Rightarrow> bool" where
  "orphan n r \<longleftrightarrow> r_responses r = [] \<and> (\<exists>info. hm_get (r_infos r) (r_public_key r) = Some info \<and>
     unat (ri_seq info) + n < 2 ^ 64 \<and>
     (\<not> hm_contains (r_peers r) (ri_parent info) \<or> ri_parent info = r_public_key r))"

definition self_rooted :: "router \<Rightarrow> bool" where
  "self_rooted r \<longleftrightarrow> map_option ri_parent (hm_get (r_infos r) (r_public_key r)) = Some (r_public_key r)"

lemma orphan_selects_itself:
  assumes "orphan n r"
  shows "select_parent r = (r_public_key r, r_public_key r)"
proof -
  obtain info where i: "hm_get (r_infos r) (r_public_key r) = Some info" "r_responses r = []"
    "\<not> hm_contains (r_peers r) (ri_parent info) \<or> ri_parent info = r_public_key r"
    using assms by (auto simp: orphan_def)
  obtain root dists valid where d: "get_root_and_dists (r_infos r) (r_public_key r) = (root, dists, valid)"
    by (metis prod.collapse)
  have "root = r_public_key r" if "ri_parent info = r_public_key r"
    using d i(1) that by (subst (asm) get_root_and_dists_def, subst (asm) root_and_dists_loop.simps)
      (auto simp: hm_contains_def)
  then show ?thesis
    using i d by (auto simp: select_parent_def self_info_parent_def Let_def)
qed

lemma send_reqs_tree_part:
  assumes "send_reqs env n r = (acts, r')"
  shows "tree_part r' = (r_infos r, r_public_key r, r_peers r, [], r_do_root1 r, r_do_root2 r)"
proof -
  have "send_reqs_loop env n ks acts s = (acts', s') \<Longrightarrow> tree_part s' = tree_part s" for n ks acts s acts' s'
  proof (induction env n ks acts s rule: send_reqs_loop.induct)
    case (2 env n pk peer_ids peer_keys actions r)
    let ?r = "r\<lparr>r_requests := hm_insert pk (new_req env n r) (r_requests r),
      r_responded := filter (\<lambda>i. i \<notin> set peer_ids) (r_responded r)\<rparr>"
    have "tree_part s' = tree_part ?r" using "2.prems" by (intro "2.IH" [OF refl refl]) (simp add: Let_def)
    then show ?case by simp
  qed simp
  from this [of n _ "[]" "clear_reqs r" acts r'] show ?thesis
    using assms by (simp add: send_reqs_def Let_def) (simp add: tree_part_def clear_reqs_def)
qed

lemma orphan_fields:
  assumes "tree_part s = (r_infos r, r_public_key r, r_peers r, [], d1, d2)" "r_responses r = []"
  shows "orphan n s = orphan n r \<and> self_rooted s = self_rooted r"
  using assms by (simp add: tree_part_def orphan_def self_rooted_def)

lemma become_root_orphan:
  assumes "orphan (Suc n) r" "become_root env k r = (b, r')"
  shows "orphan n (r'\<lparr>r_responses := []\<rparr>) \<and> self_rooted r' \<and> r_public_key r' = r_public_key r"
proof -
  obtain info where i: "hm_get (r_infos r) (r_public_key r) = Some info" "unat (ri_seq info) + Suc n < 2 ^ 64"
    using assms(1) by (auto simp: orphan_def)
  have up: "unat (ri_seq info + 1) = unat (ri_seq info) + 1"
    using i(2) unat_add_lem [of "ri_seq info" 1] by simp
  then have "ri_seq info < ri_seq info + 1" by (simp add: word_less_nat_alt)
  then have "update_accepts (r_infos r) \<lparr>ra_key = r_public_key r, ra_parent = p, ra_seq = ri_seq info + 1,
      ra_nonce = x, ra_port = 0, ra_psig = y, ra_sig = y\<rparr>" for p x y
    using i(1) by (simp add: update_accepts_iff info_newer_def info_of_def)
  with assms(2) i(1) have "r_infos r' = hm_insert (r_public_key r) (\<lparr>ri_parent = r_public_key r,
      ri_seq = ri_seq info + 1, ri_nonce = env_random env k, ri_port = 0,
      ri_psig = env_sign env (sig_res_bytes_for_sig (r_public_key r) (r_public_key r) (ri_seq info + 1) (env_random env k) 0),
      ri_sig = env_sign env (sig_res_bytes_for_sig (r_public_key r) (r_public_key r) (ri_seq info + 1) (env_random env k) 0)\<rparr>)
      (r_infos r)" "r_public_key r' = r_public_key r"
    by (auto simp: become_root_def update_def new_req_def info_of_def reset_cache_def Let_def)
  then show ?thesis using i(2) up by (simp add: orphan_def self_rooted_def)
qed

lemma orphan_fix:
  assumes orphan: "orphan (Suc n) s" and flags: "r_do_root1 s \<longrightarrow> r_do_root2 s"
    and f: "router_fix env s = (acts, t)"
  shows "orphan n t \<and> r_public_key t = r_public_key s \<and> (self_rooted s \<or> r_do_root2 s \<longrightarrow> self_rooted t) \<and>
    (self_rooted t \<or> r_do_root1 t)"
proof -
  obtain info where i: "hm_get (r_infos s) (r_public_key s) = Some info" "r_responses s = []"
    using orphan by (auto simp: orphan_def)
  have less: "orphan n s" using orphan by (auto simp: orphan_def)
  show ?thesis
  proof (cases "r_do_root2 s")
    case True
    obtain b r1 where b: "become_root env 0 s = (b, r1)" by fastforce
    have "send_reqs env 1 (clear_flags r1) = (acts, t)"
      using f True b i orphan_selects_itself [OF orphan] by (simp add: router_fix_def fix_root_def)
    from send_reqs_tree_part [OF this] become_root_orphan [OF orphan b] show ?thesis
      by (auto simp: tree_part_def orphan_def self_rooted_def)
  next
    case False
    then show ?thesis
      using f flags i less orphan_selects_itself [OF orphan]
      by (auto simp: router_fix_def fix_root_def self_info_parent_def orphan_def self_rooted_def split: if_splits)
  qed
qed

lemma orphan_round:
  assumes inv: "router_inv r" and orphan: "orphan (Suc n) r" and m: "do_maintenance env r = Some (acts, r')"
  shows "orphan n r' \<and> r_public_key r' = r_public_key r \<and> (self_rooted r \<or> r_do_root1 r \<longrightarrow> self_rooted r') \<and>
    (self_rooted r' \<or> r_do_root1 r')"
proof -
  let ?s = "maintenance_timers env r"
  obtain fixed t where f: "router_fix env ?s = (fixed, t)" by fastforce
  have responses: "r_responses r = []" using orphan by (simp add: orphan_def)
  note s = maintenance_timers_tree_part [of env r]
  have so: "orphan (Suc n) ?s = orphan (Suc n) r \<and> self_rooted ?s = self_rooted r"
    by (rule orphan_fields [OF _ responses]) (simp add: s responses)
  have flags: "r_do_root1 ?s \<longrightarrow> r_do_root2 ?s" "r_do_root1 ?s = r_do_root1 r" "r_public_key ?s = r_public_key r"
    using s by (simp_all add: tree_part_def)
  have "tree_part r' = tree_part t" by (rule do_maintenance_tree_part [OF inv m f])
  then have "orphan n r' = orphan n t" "self_rooted r' = self_rooted t" "r_do_root1 r' = r_do_root1 t"
    "r_public_key r' = r_public_key t"
    by (auto simp: tree_part_def orphan_def self_rooted_def)
  then show ?thesis
    using orphan_fix [OF _ flags(1) f, of n] so orphan flags by simp
qed

lemma fix_root_infos:
  assumes "fix_root env s = (acts, r')" "r_infos r' \<noteq> r_infos s"
  shows "tree_path (r_infos r') (r_public_key s) (r_public_key s) []"
proof -
  obtain b r1 where b: "become_root env 0 s = (b, r1)" by fastforce
  have "r_do_root2 s" using assms by (auto simp: fix_root_def split: if_splits)
  then have "send_reqs env 1 (clear_flags r1) = (acts, r')" using assms(1) b by (simp add: fix_root_def)
  from send_reqs_tree_part [OF this] have "r_infos r' = r_infos r1" by (simp add: tree_part_def)
  moreover from this have "b"
    using assms(2) b by (auto simp: become_root_def update_def Let_def split: if_splits)
  ultimately show ?thesis using become_root_reaches b by simp
qed

lemma use_response_refused: "use_response env parent res r = (False, s) \<Longrightarrow> s = r"
  by (auto simp: use_response_def update_def Let_def split: if_splits)

lemma router_fix_no_response:
  assumes "router_fix env r = (acts, r')" "r_infos r' \<noteq> r_infos r" "select_parent r = (root, parent)"
    "\<not> (\<exists>res s. hm_get (r_responses r) parent = Some res \<and> root \<noteq> r_public_key r \<and>
        use_response env parent res r = (True, s))"
  shows "fix_root env r = (acts, r')"
proof (cases "hm_get (r_responses r) parent")
  case None
  then show ?thesis using assms(1-3) by (auto simp: router_fix_def split: if_splits)
next
  case (Some res)
  obtain ok s where u: "use_response env parent res r = (ok, s)" by fastforce
  show ?thesis
  proof (cases "root = r_public_key r")
    case True
    then show ?thesis using Some assms(1-3) by (auto simp: router_fix_def split: if_splits)
  next
    case False
    then have "\<not> ok" "s = r" using Some assms(4) u use_response_refused [of env parent res r s] by auto
    then show ?thesis using Some assms(1-3) u False by (auto simp: router_fix_def split: if_splits)
  qed
qed

section \<open>Properties\<close>

text \<open>C4. The tree state converges. Two routers that start from the same stored information and
  receive the same set of announcements, in whatever order, from whichever peers and however
  often, end with the same sequence number, parent and nonce for every node; so they agree on the
  root of every node, on whether it is confirmed, and on all distances to its ancestors.\<close>

theorem tree_state_converges:
  assumes "set (map delivered ds) = set (map delivered ds')" "r_infos r = r_infos r'"
  shows "(\<forall>k. rel_option info_same (hm_get (r_infos (fold deliver_announce ds r)) k)
                (hm_get (r_infos (fold deliver_announce ds' r')) k)) \<and>
    (\<forall>k. get_root_and_dists (r_infos (fold deliver_announce ds r)) k =
         get_root_and_dists (r_infos (fold deliver_announce ds' r')) k)"
proof -
  have same: "rel_option info_same (hm_get (r_infos (fold deliver_announce ds r)) k)
      (hm_get (r_infos (fold deliver_announce ds' r')) k)" for k
    unfolding deliver_infos assms(2) [symmetric] by (rule infos_converge [OF assms(1)])
  then have "same_parents (r_infos (fold deliver_announce ds r)) (r_infos (fold deliver_announce ds' r'))"
    by (rule info_same_parents)
  then show ?thesis
    using same root_and_dists_loop_cong unfolding get_root_and_dists_def by blast
qed

text \<open>Two announcements of one node, for a concrete instance.\<close>

definition sample_ann :: "u64 \<Rightarrow> public_key \<Rightarrow> router_announce" where
  "sample_ann seq parent = \<lparr>ra_key = [7], ra_parent = parent, ra_seq = seq, ra_nonce = 0, ra_port = 1,
     ra_psig = [], ra_sig = []\<rparr>"

theorem tree_state_converges_witness:
  "rel_option info_same
     (hm_get (r_infos (fold deliver_announce
       [(sample_env, 1, [2], sample_ann 1 [8]), (sample_env, 1, [2], sample_ann 2 [9])] (sample_net [1]))) [7])
     (hm_get (r_infos (fold deliver_announce
       [(sample_env, 4, [3], sample_ann 2 [9]), (sample_env, 1, [2], sample_ann 1 [8]),
        (sample_env, 5, [4], sample_ann 2 [9])] (sample_net [2]))) [7])"
proof -
  have "set (map delivered [(sample_env, 1, [2], sample_ann 1 [8]), (sample_env, 1, [2], sample_ann 2 [9])]) =
    set (map delivered [(sample_env, 4, [3], sample_ann 2 [9]), (sample_env, 1, [2], sample_ann 1 [8]),
      (sample_env, 5, [4], sample_ann 2 [9])])" by auto
  moreover have "r_infos (sample_net [1]) = r_infos (sample_net [2])" by (simp add: sample_net_def)
  ultimately show ?thesis using tree_state_converges by blast
qed

text \<open>C29. Whenever parent selection changes our place in the tree, we end up with a confirmed path to
  a root and without a loop: either we are the root ourselves, or the root is smaller than our key
  and no larger than the confirmed root of any peer that answered our request and does not depend
  on us.\<close>

theorem fix_reaches_root:
  assumes "router_fix env r = (acts, r')" "r_infos r' \<noteq> r_infos r"
  shows "\<exists>root ports. tree_path (r_infos r') (r_public_key r) root ports \<and>
    (root = r_public_key r \<and> ports = [] \<or>
     root < r_public_key r \<and> (\<forall>pk ks p_root ps. hm_contains (r_responses r) pk \<longrightarrow>
       tree_walk (r_infos r) pk ks p_root ps \<longrightarrow> r_public_key r \<notin> set ks \<longrightarrow> root \<le> p_root))"
proof -
  obtain root parent where sel: "select_parent r = (root, parent)" by fastforce
  note good = select_parent_good [OF sel]
  have root_branch: "tree_path (r_infos r') (r_public_key s) (r_public_key s) []"
    if "fix_root env s = (acts, r')" "r_infos s = r_infos r" for s
    using that assms(2) fix_root_infos [of env s acts r'] by auto
  show ?thesis
  proof (cases "\<exists>res s. hm_get (r_responses r) parent = Some res \<and> root \<noteq> r_public_key r \<and>
      use_response env parent res r = (True, s)")
    case True
    then obtain res s where u: "root \<noteq> r_public_key r" "use_response env parent res r = (True, s)"
      and res: "hm_get (r_responses r) parent = Some res" by blast
    have "r_infos r' = r_infos s"
      using assms res sel send_reqs_tree_part [of env 0 "clear_flags s" acts r'] u
      by (auto simp: router_fix_def tree_part_def split: if_splits)
    then obtain ports where "tree_path (r_infos r') (r_public_key r) root ports"
      using use_response_reaches [OF _ u] good by auto
    moreover have "root < r_public_key r" using good u(1) by (auto simp: good_choice_def)
    ultimately show ?thesis using good by blast
  next
    case False
    have "fix_root env r = (acts, r')" by (rule router_fix_no_response [OF assms sel False])
    then show ?thesis using root_branch by blast
  qed
qed

text \<open>A node \<open>[2]\<close> with an answer from the root \<open>[1]\<close>.\<close>

definition sample_joiner :: router where
  "sample_joiner = (router_new sample_env [2] sample_config)
     \<lparr>r_infos := [([1], \<lparr>ri_parent = [1], ri_seq = 1, ri_nonce = 0, ri_port = 0, ri_psig = [], ri_sig = []\<rparr>)],
      r_responses := [([1], \<lparr>rs_seq = 1, rs_nonce = 0, rs_port = 5, rs_psig = []\<rparr>)],
      r_peers := [([1], [(1, \<lparr>pe_id = 1, pe_key = [1], pe_port = 5, pe_prio = 0, pe_order = 0\<rparr>)])]\<rparr>"

theorem fix_reaches_root_witness:
  "\<exists>root ports. tree_path (r_infos (snd (router_fix sample_env sample_joiner))) [2] root ports"
proof -
  have "hm_get (r_infos (snd (router_fix sample_env sample_joiner))) [2] \<noteq> hm_get (r_infos sample_joiner) [2]"
    by (simp add: sample_joiner_def router_new_def router_fix_def select_parent_def select_step_def self_info_parent_def
        get_root_and_dists_def root_and_dists_loop.simps use_response_def update_def update_accepts_def
        reset_cache_def send_reqs_def clear_reqs_def hm_contains_def Let_def)
  then have "r_infos (snd (router_fix sample_env sample_joiner)) \<noteq> r_infos sample_joiner" by auto
  then show ?thesis
    using fix_reaches_root [of sample_env sample_joiner "fst (router_fix sample_env sample_joiner)"
        "snd (router_fix sample_env sample_joiner)"]
    by (auto simp: sample_joiner_def router_new_def)
qed

text \<open>A node that has lost its parent and has no answer from any other peer becomes its own root
  within two maintenance rounds.\<close>

theorem orphan_becomes_root:
  assumes "router_inv r" "orphan 2 r"
    "do_maintenance env r = Some (acts, r1)" "do_maintenance env' r1 = Some (acts', r2)"
  shows "get_root_and_path (r_infos r2) (r_public_key r2) = (r_public_key r2, [])"
proof -
  have inv1: "router_inv r1" using do_maintenance_returns [OF assms(1), of env] assms(3) by simp
  have "self_rooted r2"
    using orphan_round [OF assms(1) _ assms(3), of 1] orphan_round [OF inv1 _ assms(4), of 0] assms(2)
    by (auto simp: numeral_2_eq_2)
  then obtain info where "hm_get (r_infos r2) (r_public_key r2) = Some info" "ri_parent info = r_public_key r2"
    by (auto simp: self_rooted_def)
  then show ?thesis
    by (intro get_root_and_path_walk) (auto simp: tree_path_def intro: tw_root)
qed

theorem orphan_becomes_root_witness:
  "\<exists>acts r1 acts' r2. do_maintenance sample_env (sample_joiner\<lparr>r_responses := [], r_infos :=
      [([2], \<lparr>ri_parent = [9], ri_seq = 1, ri_nonce = 0, ri_port = 0, ri_psig = [], ri_sig = []\<rparr>)], r_peers := []\<rparr>) = Some (acts, r1) \<and>
    do_maintenance sample_env r1 = Some (acts', r2) \<and>
    get_root_and_path (r_infos r2) (r_public_key r2) = (r_public_key r2, [])"
proof -
  let ?r = "sample_joiner\<lparr>r_responses := [], r_infos :=
      [([2], \<lparr>ri_parent = [9], ri_seq = 1, ri_nonce = 0, ri_port = 0, ri_psig = [], ri_sig = []\<rparr>)], r_peers := []\<rparr>"
  have inv: "router_inv ?r"
    by (simp add: router_inv_def sound_def cache_ok_def peers_ok_def sample_joiner_def router_new_def pf_inv_new wf_blooms_def)
  have "orphan 2 ?r" by (simp add: orphan_def sample_joiner_def router_new_def hm_contains_def)
  moreover obtain acts r1 where m1: "do_maintenance sample_env ?r = Some (acts, r1)" "router_inv r1"
    using do_maintenance_returns [OF inv] by blast
  moreover obtain acts' r2 where "do_maintenance sample_env r1 = Some (acts', r2)"
    using do_maintenance_returns [OF m1(2)] by blast
  ultimately show ?thesis using orphan_becomes_root [OF inv] by blast
qed

text \<open>A maintenance round tells the peers exactly what they lack: every connection of every peer
  is sent the stored information of our ancestors and of the peer's own, except what that peer was
  sent before, and nothing else; afterwards all of it counts as sent.\<close>

theorem send_announces_exact:
  assumes "send_announces r = Some (acts, r')"
  shows "set acts = (\<Union>k\<in>set (hm_keys (r_sent r)). gossip_to r (get_ancestry (r_infos r) (r_public_key r)) k) \<and>
    (\<forall>k sent. hm_get (r_sent r) k = Some sent \<longrightarrow> (\<exists>sent'. hm_get (r_sent r') k = Some sent' \<and>
       set sent' = set sent \<union> set (get_ancestry (r_infos r) (r_public_key r)) \<union> set (get_ancestry (r_infos r) k)))"
proof -
  note exact = send_announces_loop_exact [OF assms [unfolded send_announces_def]]
  have "\<exists>sent'. hm_get (r_sent r') k = Some sent' \<and>
       set sent' = set sent \<union> set (get_ancestry (r_infos r) (r_public_key r)) \<union> set (get_ancestry (r_infos r) k)"
    if "hm_get (r_sent r) k = Some sent" for k sent
    using exact that hm_get_Some_key [OF that] by (fastforce simp: Un_assoc simp del: set_map)
  then show ?thesis using exact by simp
qed

theorem send_announces_exact_witness:
  "\<exists>acts r' info. send_announces ((sample_net [1])\<lparr>r_sent := [([2], [])]\<rparr>) = Some (acts, r') \<and>
     SendAnnounce 2 (to_wire (get_announce info [1])) \<in> set acts"
proof -
  let ?r = "(sample_net [1])\<lparr>r_sent := [([2], [])]\<rparr>"
  obtain acts r' where a: "send_announces ?r = Some (acts, r')"
    using send_announces_loop_returns [of "hm_keys (r_sent ?r)" ?r] unfolding send_announces_def by blast
  have infos: "r_infos ?r = sample_infos" "r_public_key ?r = [1]" by (simp_all add: sample_net_fields)
  have "[1] \<in> set (get_ancestry sample_infos [1])"
    using backwards_ancestry_loop_walk [OF sample_walk_root, of "[]"] by (simp add: get_ancestry_def backwards_ancestry_def)
  moreover obtain info where "hm_get sample_infos [1] = Some info" by (simp add: sample_infos_def)
  moreover obtain peers e where "hm_get (r_peers ?r) [2] = Some peers" "e \<in> snd ` set peers" "pe_id e = 2"
    by (simp add: sample_net_def)
  ultimately have "SendAnnounce 2 (to_wire (get_announce info [1])) \<in> gossip_to ?r (get_ancestry sample_infos [1]) [2]"
    using infos unfolding gossip_to_def by force
  then have "SendAnnounce 2 (to_wire (get_announce info [1])) \<in> set acts"
    using send_announces_exact [OF a] infos by simp
  with a show ?thesis by blast
qed

end
