(* ===== verification/Peer_Frames.thy ===== *)
theory Peer_Frames
  imports Router
begin

text \<open>
  From router actions to bytes on a link and back: \<open>encode_action_frame\<close>, \<open>read_uvarint\<close>,
  \<open>peek_frame_type\<close> and the frame loop of \<open>peer_reader\<close> in \<open>crates/ironwood/src/peers.rs\<close>, with the
  messages of the router actor (\<open>RouterMsg\<close> in \<open>crates/ironwood/src/core.rs\<close>) that the reader sends.

  The reader runs on the list of all bytes the connection delivers before it ends; the end of the
  stream is the error \<open>Io\<close>. The time since the last SigReq was flushed is an argument.
\<close>

section \<open>Messages to the router\<close>

text \<open>The reply channels of queries are not part of the messages.\<close>

datatype router_msg =
    AddPeerMsg peer_entry
  | RemovePeerMsg peer_id public_key peer_port
  | HandleRequest peer_id public_key sig_req
  | HandleResponse peer_id public_key sig_res duration
  | HandleAnnounce peer_id public_key router_announce
  | HandleBloom public_key bloom_filter
  | HandleTraffic traffic_packet
  | SendTrafficMsg traffic_packet
  | HandleLookup public_key path_lookup
  | HandleNotify public_key path_notify
  | HandleBroken path_broken
  | SendLookupMsg public_key public_key
  | ForceRefreshMsg
  | ForceLookupMsg public_key
  | GetPeers
  | GetTree
  | GetPaths
  | RoutingEntries
  | TreeCoordinates
  | GetDebugSnapshot u64
  | GetRoutingPeerKeys
  | CountLookupTargets public_key

section \<open>Frames for router actions\<close>

fun encode_action_frame :: "router_action \<Rightarrow> (peer_id \<times> bytes) option" where
  "encode_action_frame (SendSigReq p req) = Some (p, encode_frame ProtoSigReq (sig_req_encode req))"
| "encode_action_frame (SendSigRes p res) = Some (p, encode_frame ProtoSigRes (sig_res_encode res))"
| "encode_action_frame (SendAnnounce p ann) = Some (p, encode_frame ProtoAnnounce (announce_encode ann))"
| "encode_action_frame (SendBloom p bloom) = Some (p, encode_frame ProtoBloomFilter (encode_bloom bloom))"
| "encode_action_frame (SendTraffic p tr) =
     Some (p, encode_traffic_frame (tr_path tr) (tr_from tr) (tr_source tr) (tr_dest tr) (tr_watermark tr)
                (tr_payload tr))"
| "encode_action_frame (SendPathLookup p l) = Some (p, encode_frame ProtoPathLookup (path_lookup_encode l))"
| "encode_action_frame (SendPathNotify p n) = Some (p, encode_frame ProtoPathNotify (path_notify_encode n))"
| "encode_action_frame (SendPathBroken p b) = Some (p, encode_frame ProtoPathBroken (path_broken_encode b))"
| "encode_action_frame (DeliverTraffic tr) = None"
| "encode_action_frame (PathNotifyCallback k) = None"

text \<open>The loop over the length prefix: the number of bytes passed, or \<open>None\<close> when every byte has
  its continuation bit set.\<close>

fun skip_uvarint :: "nat \<Rightarrow> bytes \<Rightarrow> nat option" where
  "skip_uvarint offset [] = Some offset"
| "skip_uvarint offset (b # bs) =
     (if b AND 0x80 = 0 then Some (offset + 1)
      else if bs = [] then None
      else skip_uvarint (offset + 1) bs)"

definition peek_frame_type :: "bytes \<Rightarrow> packet_type option" where
  "peek_frame_type data =
     (case skip_uvarint 0 data of
        None \<Rightarrow> None
      | Some offset \<Rightarrow>
          if offset < length data
          then (case packet_type_try_from (data ! offset) of Inr t \<Rightarrow> Some t | Inl _ \<Rightarrow> None)
          else None)"

section \<open>Reading a frame\<close>

fun stream_uvarint_loop :: "u64 \<Rightarrow> nat \<Rightarrow> bytes \<Rightarrow> (u64 \<times> bytes) res" where
  "stream_uvarint_loop value shift [] = Inl Io"
| "stream_uvarint_loop value shift (byte # stream) =
     (if shift \<ge> 63 \<and> byte > 1 then Inl Decode
      else let value = value OR push_bit shift (ucast (byte AND 0x7F))
           in if byte AND 0x80 = 0 then Inr (value, stream)
              else if shift + 7 \<ge> 70 then Inl Decode
              else stream_uvarint_loop value (shift + 7) stream)"

definition stream_read_uvarint :: "bytes \<Rightarrow> (u64 \<times> bytes) res" where
  "stream_read_uvarint stream = stream_uvarint_loop 0 0 stream"

definition stream_read_frame :: "u64 \<Rightarrow> bytes \<Rightarrow> (bytes \<times> bytes) res" where
  "stream_read_frame max_message_size stream =
     and_then (stream_read_uvarint stream) (\<lambda>(frame_len, stream).
       if frame_len > max_message_size then Inl OversizedMessage
       else if length stream < unat frame_len then Inl Io
       else Inr (take (unat frame_len) stream, drop (unat frame_len) stream))"

text \<open>What a frame makes the reader do: a message for the router, if any, and whether a keepalive is
  owed; or the reason to disconnect.\<close>

record link_end =
  le_peer_id :: peer_id
  le_peer_key :: public_key
  le_our_key :: public_key

definition on_decoded :: "'a res \<Rightarrow> ('a \<Rightarrow> router_msg res) \<Rightarrow> router_msg res" where
  "on_decoded r f = (case r of Inr x \<Rightarrow> f x | Inl _ \<Rightarrow> Inl Decode)"

fun dispatch_payload :: "verifier \<Rightarrow> link_end \<Rightarrow> duration \<Rightarrow> packet_type \<Rightarrow> bytes \<Rightarrow> router_msg res" where
  "dispatch_payload verify le rtt ProtoSigReq payload =
     on_decoded (sig_req_decode payload) (\<lambda>(req, _). Inr (HandleRequest (le_peer_id le) (le_peer_key le) req))"
| "dispatch_payload verify le rtt ProtoSigRes payload =
     on_decoded (sig_res_decode payload) (\<lambda>(res, _).
       if \<not> check_sig_res verify res (le_our_key le) (le_peer_key le) then Inl BadMessage
       else Inr (HandleResponse (le_peer_id le) (le_peer_key le) res rtt))"
| "dispatch_payload verify le rtt ProtoAnnounce payload =
     on_decoded (announce_decode payload) (\<lambda>ann.
       if \<not> check_announce verify (from_wire ann) then Inl BadMessage
       else Inr (HandleAnnounce (le_peer_id le) (le_peer_key le) (from_wire ann)))"
| "dispatch_payload verify le rtt ProtoBloomFilter payload =
     on_decoded (decode_bloom payload) (\<lambda>raw. Inr (HandleBloom (le_peer_key le) raw))"
| "dispatch_payload verify le rtt ProtoPathLookup payload =
     on_decoded (path_lookup_decode payload) (\<lambda>l. Inr (HandleLookup (le_peer_key le) l))"
| "dispatch_payload verify le rtt ProtoPathNotify payload =
     on_decoded (path_notify_decode payload) (\<lambda>n. Inr (HandleNotify (le_peer_key le) n))"
| "dispatch_payload verify le rtt ProtoPathBroken payload =
     on_decoded (path_broken_decode payload) (\<lambda>b. Inr (HandleBroken b))"
| "dispatch_payload verify le rtt Traffic payload =
     on_decoded (traffic_decode payload) (\<lambda>tr. Inr (HandleTraffic (traffic.extend tr \<lparr>tp_keepalive = False\<rparr>)))"
| "dispatch_payload verify le rtt Dummy payload = Inl Decode"
| "dispatch_payload verify le rtt KeepAlive payload = Inl Decode"

definition dispatch_frame :: "verifier \<Rightarrow> link_end \<Rightarrow> duration \<Rightarrow> bytes \<Rightarrow> router_msg option res" where
  "dispatch_frame verify le rtt buf =
     (case buf of
        [] \<Rightarrow> Inr None
      | ptype_byte # payload \<Rightarrow>
          (case packet_type_try_from ptype_byte of
             Inl _ \<Rightarrow> Inr None
           | Inr Dummy \<Rightarrow> Inr None
           | Inr KeepAlive \<Rightarrow> Inr None
           | Inr ptype \<Rightarrow> and_then (dispatch_payload verify le rtt ptype payload) (\<lambda>m. Inr (Some m))))"

text \<open>A keepalive is scheduled after every frame that reached the router.\<close>

lemma stream_uvarint_loop_consumes:
  "stream_uvarint_loop v s stream = Inr (n, rest) \<Longrightarrow> length rest < length stream"
  by (induction v s stream rule: stream_uvarint_loop.induct) (auto simp: Let_def split: if_splits)

lemma stream_read_frame_consumes:
  "stream_read_frame m stream = Inr (buf, rest) \<Longrightarrow> length rest < length stream"
  by (auto simp: stream_read_frame_def stream_read_uvarint_def and_then_Inr_iff split: if_splits
      dest!: stream_uvarint_loop_consumes)

text \<open>\<open>rtt i\<close> is the time between the last flush of a SigReq and the arrival of frame \<open>i\<close>.\<close>

function reader_run ::
    "verifier \<Rightarrow> link_end \<Rightarrow> (nat \<Rightarrow> duration) \<Rightarrow> u64 \<Rightarrow> nat \<Rightarrow> bytes \<Rightarrow> router_msg list \<times> error" where
  "reader_run verify le rtt max_message_size i stream =
     (case stream_read_frame max_message_size stream of
        Inl e \<Rightarrow> ([], e)
      | Inr (buf, rest) \<Rightarrow>
          (case dispatch_frame verify le (rtt i) buf of
             Inl e \<Rightarrow> ([], e)
           | Inr m \<Rightarrow>
               (let (ms, e) = reader_run verify le rtt max_message_size (i + 1) rest
                in (case m of Some m \<Rightarrow> m # ms | None \<Rightarrow> ms, e))))"
  by pat_completeness auto
termination
  by (relation "measure (\<lambda>(_, _, _, _, _, stream). length stream)") (auto dest: stream_read_frame_consumes)

declare reader_run.simps [simp del]

section \<open>Length prefixes\<close>

lemma stream_uvarint_loop_decode:
  "decode_uvarint_loop i (7 * i) acc data = Some (v, n) \<Longrightarrow>
   stream_uvarint_loop acc (7 * i) data = Inr (v, drop (n - i) data)"
proof (induction data arbitrary: i acc)
  case (Cons b data)
  let ?acc = "acc OR push_bit (7 * i) (ucast (b AND 0x7F))"
  show ?case
  proof (cases "b AND 0x80 = 0")
    case True
    then show ?thesis using Cons.prems by (auto simp: Let_def split: if_splits)
  next
    case False
    then have dec: "decode_uvarint_loop (Suc i) (7 * Suc i) ?acc data = Some (v, n)" "i < 9" "\<not> (63 \<le> 7 * i \<and> 1 < b)"
      using Cons.prems by (auto simp: Let_def algebra_simps split: if_splits)
    have "Suc i < n" using decode_uvarint_loop_consumes [OF dec(1)] by simp
    then have "drop (n - i) (b # data) = drop (n - Suc i) data" by (simp add: drop_Cons')
    moreover have "stream_uvarint_loop ?acc (7 * i + 7) data = Inr (v, drop (n - Suc i) data)"
      using Cons.IH [OF dec(1)] by (simp add: algebra_simps)
    ultimately show ?thesis using False dec(2,3) by (auto simp: Let_def)
  qed
qed simp

lemma stream_read_encoded: "stream_read_uvarint (encode_uvarint v @ rest) = Inr (v, rest)"
  using stream_uvarint_loop_decode [of 0 0 "encode_uvarint v @ rest" v "length (encode_uvarint v)"]
    decode_encode_uvarint [of v rest]
  by (simp add: stream_read_uvarint_def decode_uvarint_def)

lemma unat_frame_len:
  "1 + length payload \<le> unat (max_size :: u64) \<Longrightarrow> unat (of_nat (1 + length payload) :: u64) = 1 + length payload"
  by (rule of_nat_inverse [OF refl]) (use unsigned_less [of max_size, where ?'a = nat] in simp)

lemma stream_read_frame_encoded:
  assumes "1 + length payload \<le> unat max_size"
  shows "stream_read_frame max_size (encode_frame t payload @ rest) = Inr (packet_type_as_u8 t # payload, rest)"
  using assms unat_frame_len [OF assms] stream_read_encoded [of "of_nat (1 + length payload)"]
  by (simp add: stream_read_frame_def encode_frame_def Let_def word_less_nat_alt del: of_nat_Suc of_nat_add)


lemma stream_uvarint_loop_cut:
  "stream_uvarint_loop acc s data = Inr (v, rest) \<Longrightarrow> k < length data - length rest \<Longrightarrow>
   stream_uvarint_loop acc s (take k data) = Inl Io"
proof (induction acc s data arbitrary: k rule: stream_uvarint_loop.induct)
  case (2 acc s b data)
  then show ?case
    by (cases k) (auto simp: Let_def split: if_splits dest: stream_uvarint_loop_consumes)
qed simp

lemma stream_read_frame_cut:
  assumes "1 + length payload \<le> unat max_size" "k < length (encode_frame t payload)"
  shows "stream_read_frame max_size (take k (encode_frame t payload)) = Inl Io"
proof -
  let ?len = "of_nat (1 + length payload) :: u64"
  let ?pre = "encode_uvarint ?len"
  note len = unat_frame_len [OF assms(1)]
  show ?thesis
  proof (cases "k < length ?pre")
    case True
    then have "stream_read_uvarint (take k ?pre) = Inl Io"
      using stream_uvarint_loop_cut [of 0 0 ?pre ?len "[]" k] stream_read_encoded [of ?len "[]"]
      by (simp add: stream_read_uvarint_def)
    then show ?thesis using True by (simp add: stream_read_frame_def encode_frame_def Let_def del: of_nat_Suc of_nat_add)
  next
    case False
    then show ?thesis using assms len stream_read_encoded [of ?len "take (k - length ?pre) (packet_type_as_u8 t # payload)"]
      by (simp add: stream_read_frame_def encode_frame_def Let_def word_less_nat_alt del: of_nat_Suc of_nat_add)
  qed
qed

lemma skip_uvarint_decode:
  "decode_uvarint_loop i s acc data = Some (v, n) \<Longrightarrow> skip_uvarint i data = Some n"
  by (induction data arbitrary: i s acc) (auto simp: Let_def split: if_splits)

lemma packet_type_dec_enc [simp]: "packet_type_try_from (packet_type_as_u8 t) = Inr t"
  by (cases t) (simp_all add: packet_type_try_from_def)

lemma peek_encoded: "peek_frame_type (encode_frame t payload) = Some t"
  using decode_encode_uvarint [of "of_nat (1 + length payload)" "packet_type_as_u8 t # payload"]
  by (auto simp: peek_frame_type_def encode_frame_def Let_def decode_uvarint_def
      simp del: of_nat_Suc of_nat_add dest!: skip_uvarint_decode)

section \<open>Messages of actions\<close>

text \<open>The frame body of an action that sends, and the message it becomes at the other end of the link.\<close>

fun action_body :: "router_action \<Rightarrow> (packet_type \<times> bytes) option" where
  "action_body (SendSigReq p req) = Some (ProtoSigReq, sig_req_encode req)"
| "action_body (SendSigRes p res) = Some (ProtoSigRes, sig_res_encode res)"
| "action_body (SendAnnounce p ann) = Some (ProtoAnnounce, announce_encode ann)"
| "action_body (SendBloom p bloom) = Some (ProtoBloomFilter, encode_bloom bloom)"
| "action_body (SendTraffic p tr) = Some (Traffic, traffic_encode (traffic.truncate tr))"
| "action_body (SendPathLookup p l) = Some (ProtoPathLookup, path_lookup_encode l)"
| "action_body (SendPathNotify p n) = Some (ProtoPathNotify, path_notify_encode n)"
| "action_body (SendPathBroken p b) = Some (ProtoPathBroken, path_broken_encode b)"
| "action_body _ = None"

fun action_msg :: "link_end \<Rightarrow> duration \<Rightarrow> router_action \<Rightarrow> router_msg option" where
  "action_msg le rtt (SendSigReq p req) = Some (HandleRequest (le_peer_id le) (le_peer_key le) req)"
| "action_msg le rtt (SendSigRes p res) = Some (HandleResponse (le_peer_id le) (le_peer_key le) res rtt)"
| "action_msg le rtt (SendAnnounce p ann) = Some (HandleAnnounce (le_peer_id le) (le_peer_key le) (from_wire ann))"
| "action_msg le rtt (SendBloom p bloom) = Some (HandleBloom (le_peer_key le) bloom)"
| "action_msg le rtt (SendTraffic p tr) = Some (HandleTraffic (tr\<lparr>tp_keepalive := False\<rparr>))"
| "action_msg le rtt (SendPathLookup p l) = Some (HandleLookup (le_peer_key le) l)"
| "action_msg le rtt (SendPathNotify p n) = Some (HandleNotify (le_peer_key le) n)"
| "action_msg le rtt (SendPathBroken p b) = Some (HandleBroken b)"
| "action_msg le rtt _ = None"

text \<open>What an honest sender puts on the wire: well-formed values with valid signatures.\<close>

fun genuine :: "verifier \<Rightarrow> link_end \<Rightarrow> router_action \<Rightarrow> bool" where
  "genuine verify le (SendSigReq p req) = True"
| "genuine verify le (SendSigRes p res) =
     (wf_sig_res res \<and> check_sig_res verify res (le_our_key le) (le_peer_key le))"
| "genuine verify le (SendAnnounce p ann) = (wf_announce ann \<and> check_announce verify (from_wire ann))"
| "genuine verify le (SendBloom p bloom) = (length bloom = BLOOM_FILTER_U64S)"
| "genuine verify le (SendTraffic p tr) = wf_traffic (traffic.truncate tr)"
| "genuine verify le (SendPathLookup p l) = wf_path_lookup l"
| "genuine verify le (SendPathNotify p n) = wf_path_notify n"
| "genuine verify le (SendPathBroken p b) = wf_path_broken b"
| "genuine verify le _ = False"

definition fits :: "u64 \<Rightarrow> router_action \<Rightarrow> bool" where
  "fits max_size a \<longleftrightarrow> (case action_body a of Some (t, payload) \<Rightarrow> 1 + length payload \<le> unat max_size | None \<Rightarrow> False)"

lemma encode_action_frame_body:
  "genuine verify le a \<Longrightarrow>
   \<exists>p t payload. action_body a = Some (t, payload) \<and> encode_action_frame a = Some (p, encode_frame t payload)"
  by (cases a) (auto simp: encode_traffic_frame_eq [symmetric] traffic.truncate_def)

lemma dispatch_frame_typed:
  "dispatch_frame verify le rtt (packet_type_as_u8 t # payload) =
     (if t = Dummy \<or> t = KeepAlive then Inr None
      else and_then (dispatch_payload verify le rtt t payload) (\<lambda>m. Inr (Some m)))"
  unfolding dispatch_frame_def list.case packet_type_dec_enc by (cases t) simp_all

lemma dispatch_action:
  assumes "genuine verify le a" "action_body a = Some (t, payload)"
  shows "\<exists>m. action_msg le rtt a = Some m \<and> dispatch_frame verify le rtt (packet_type_as_u8 t # payload) = Inr (Some m)"
  unfolding dispatch_frame_typed
  using assms announce_roundtrip path_messages_roundtrip
    sig_req_dec_enc [where rest = "[]"] sig_res_dec_enc [where rest = "[]"]
  by (cases a) (auto simp: on_decoded_def decode_encode_bloom traffic_dec_enc traffic.defs)

text \<open>The bytes a list of actions puts on one link, and the messages they become.\<close>

definition frames_of :: "router_action list \<Rightarrow> bytes" where
  "frames_of as = concat (map (\<lambda>a. snd (the (encode_action_frame a))) as)"

definition msgs_of :: "link_end \<Rightarrow> (nat \<Rightarrow> duration) \<Rightarrow> nat \<Rightarrow> router_action list \<Rightarrow> router_msg list" where
  "msgs_of le rtt i as = map (\<lambda>(j, a). the (action_msg le (rtt j) a)) (enumerate i as)"

lemma reader_step:
  assumes "genuine verify le a" "fits max_size a"
  shows "reader_run verify le rtt max_size i (frames_of [a] @ rest) =
     (let (ms, e) = reader_run verify le rtt max_size (i + 1) rest in (msgs_of le rtt i [a] @ ms, e))"
    and "k < length (frames_of [a]) \<Longrightarrow> reader_run verify le rtt max_size i (take k (frames_of [a])) = ([], Io)"
proof -
  obtain p t payload where b: "action_body a = Some (t, payload)"
    and f: "encode_action_frame a = Some (p, encode_frame t payload)"
    using encode_action_frame_body [OF assms(1)] by blast
  have fit: "1 + length payload \<le> unat max_size" using assms(2) b by (simp add: fits_def)
  obtain m where m: "action_msg le (rtt i) a = Some m"
    "dispatch_frame verify le (rtt i) (packet_type_as_u8 t # payload) = Inr (Some m)"
    using dispatch_action [OF assms(1) b] by blast
  show "reader_run verify le rtt max_size i (frames_of [a] @ rest) =
     (let (ms, e) = reader_run verify le rtt max_size (i + 1) rest in (msgs_of le rtt i [a] @ ms, e))"
    using f m stream_read_frame_encoded [OF fit]
    by (subst reader_run.simps) (simp add: frames_of_def msgs_of_def)
  show "reader_run verify le rtt max_size i (take k (frames_of [a])) = ([], Io)" if "k < length (frames_of [a])"
    using f that stream_read_frame_cut [OF fit] by (subst reader_run.simps) (simp add: frames_of_def)
qed

text \<open>How many of the frames lie within the first \<open>k\<close> bytes.\<close>

fun whole_frames :: "nat \<Rightarrow> router_action list \<Rightarrow> nat" where
  "whole_frames k [] = 0"
| "whole_frames k (a # as) =
     (let n = length (frames_of [a]) in if k < n then 0 else Suc (whole_frames (k - n) as))"

lemma frames_of_Cons: "frames_of (a # as) = frames_of [a] @ frames_of as"
  by (simp add: frames_of_def)

lemma msgs_of_Cons: "msgs_of le rtt i (a # as) = msgs_of le rtt i [a] @ msgs_of le rtt (i + 1) as"
  by (simp add: msgs_of_def)

lemma reader_run_frames:
  "list_all (\<lambda>a. genuine verify le a \<and> fits max_size a) as \<Longrightarrow>
   reader_run verify le rtt max_size i (take k (frames_of as)) = (msgs_of le rtt i (take (whole_frames k as) as), Io)"
proof (induction as arbitrary: i k)
  case Nil
  then show ?case
    by (subst reader_run.simps) (simp add: frames_of_def msgs_of_def stream_read_frame_def stream_read_uvarint_def)
next
  case (Cons a as)
  let ?n = "length (frames_of [a])"
  show ?case
  proof (cases "k < ?n")
    case True
    then show ?thesis using Cons.prems reader_step(2) [of verify le a max_size k rtt i]
      by (simp add: frames_of_Cons [of a as] msgs_of_def)
  next
    case False
    then have "take k (frames_of (a # as)) = frames_of [a] @ take (k - ?n) (frames_of as)"
      by (simp add: frames_of_Cons [of a as])
    then show ?thesis using Cons.prems False reader_step(1) [of verify le a max_size rtt i]
        Cons.IH [of "i + 1" "k - ?n"] msgs_of_Cons [of le rtt i a "take (whole_frames (k - ?n) as) as"]
      by (simp add: Let_def)
  qed
qed

lemma whole_frames_all: "length (frames_of as) \<le> k \<Longrightarrow> whole_frames k as = length as"
  by (induction as arbitrary: k) (auto simp: Let_def frames_of_Cons [of _ "_ # _"] frames_of_def)

section \<open>Properties\<close>

text \<open>What a router sends to a neighbour is what the neighbour's router receives. The frames of any
  sequence of genuine actions that fit the message size of the link are read back, in order, as exactly
  the messages of those actions; however many bytes arrive before the connection ends, the frames that
  arrived whole are delivered, a frame that was cut is not, and the reader ends with an I/O error. The
  writer recognises the type of every frame from its bytes.\<close>

theorem frames_reach_neighbour:
  "list_all (\<lambda>a. genuine verify le a \<and> fits max_size a) as \<Longrightarrow>
   reader_run verify le rtt max_size 0 (frames_of as) = (msgs_of le rtt 0 as, Io) \<and>
   reader_run verify le rtt max_size 0 (take k (frames_of as)) =
     (msgs_of le rtt 0 (take (whole_frames k as) as), Io) \<and>
   peek_frame_type (encode_frame t payload) = Some t"
  using reader_run_frames [of verify le max_size as rtt 0 "length (frames_of as)"]
    reader_run_frames [of verify le max_size as rtt 0 k]
  by (simp add: whole_frames_all peek_encoded)

definition sample_link :: link_end where
  "sample_link = \<lparr>le_peer_id = 1, le_peer_key = replicate 32 1, le_our_key = replicate 32 2\<rparr>"

theorem frames_reach_neighbour_witness:
  "reader_run (\<lambda>k m s. True) sample_link (\<lambda>i. 0) 100 0
     (take 5 (frames_of [SendSigReq 7 \<lparr>req_seq = 1, req_nonce = 2\<rparr>, SendSigReq 7 \<lparr>req_seq = 3, req_nonce = 4\<rparr>])) =
   ([HandleRequest 1 (replicate 32 1) \<lparr>req_seq = 1, req_nonce = 2\<rparr>], Io)"
proof -
  let ?as = "[SendSigReq 7 \<lparr>req_seq = 1, req_nonce = 2\<rparr>, SendSigReq 7 \<lparr>req_seq = 3, req_nonce = 4\<rparr>]"
  have "list_all (\<lambda>a. genuine (\<lambda>k m s. True) sample_link a \<and> fits 100 a) ?as" by code_simp
  moreover have "whole_frames 5 ?as = 1" by code_simp
  ultimately show ?thesis
    using frames_reach_neighbour [of "\<lambda>k m s. True" sample_link 100 ?as "\<lambda>i. 0" 5]
    by (simp add: msgs_of_def sample_link_def)
qed

end
