(* ===== verification/Peer_Liveness.thy ===== *)
theory Peer_Liveness
  imports Ygg_Prelude
begin

text \<open>
  How long a silent neighbour is tolerated: \<open>crates/ironwood/src/peer_timeout.rs\<close>. The
  configuration and its validation, the interval computed from the smoothed reply time, the
  penalty and the sticky floor, and the registry that keeps this state per key across reconnects.

  The \<open>Arc\<close> shared by the registry and the controllers of one key is an index into a list of
  cells (\<open>lr_store\<close>), so that a controller whose entry was evicted keeps its own cell. Durations
  are nanoseconds; the state holds milliseconds in 64-bit words, as in the code.
\<close>

section \<open>Configuration\<close>

record adaptive_timeout_config =
  at_fixed_or_initial :: duration
  at_adaptive :: bool
  at_min :: duration
  at_problem_min :: duration
  at_max :: duration
  at_base :: duration
  at_rtt_mult :: u32
  at_penalty_step :: duration
  at_penalty_decay :: duration

definition adaptive_timeout_default :: adaptive_timeout_config where
  "adaptive_timeout_default =
     \<lparr>at_fixed_or_initial = secs 15, at_adaptive = False, at_min = secs 5, at_problem_min = secs 15,
      at_max = secs 30, at_base = secs 2, at_rtt_mult = 8, at_penalty_step = secs 5,
      at_penalty_decay = 500 * 10 ^ 6\<rparr>"

text \<open>The six messages of \<open>validate\<close>.\<close>

datatype timeout_config_error =
    RttMultZero | MaxBelowMin | MaxBelowProblemMin | ProblemMinBelowMin | FixedZero | MinZero

definition validate :: "adaptive_timeout_config \<Rightarrow> timeout_config_error + unit" where
  "validate c =
     (if at_rtt_mult c = 0 then Inl RttMultZero
      else if at_max c < at_min c then Inl MaxBelowMin
      else if at_adaptive c \<and> at_max c < at_problem_min c then Inl MaxBelowProblemMin
      else if at_adaptive c \<and> at_problem_min c < at_min c then Inl ProblemMinBelowMin
      else if \<not> at_adaptive c \<and> at_fixed_or_initial c = 0 then Inl FixedZero
      else if at_min c = 0 then Inl MinZero
      else Inr ())"

definition as_millis :: "duration \<Rightarrow> u64" where
  "as_millis d = of_nat (d div 10 ^ 6)"

definition from_millis :: "u64 \<Rightarrow> duration" where
  "from_millis ms = unat ms * 10 ^ 6"

text \<open>\<open>clamp\<close> would panic for inverted bounds; \<open>compute\<close> cuts the floor at the maximum first.\<close>

definition clamp :: "u64 \<Rightarrow> u64 \<Rightarrow> u64 \<Rightarrow> u64" where
  "clamp lo hi x = (if x < lo then lo else if hi < x then hi else x)"

definition compute :: "adaptive_timeout_config \<Rightarrow> u64 \<Rightarrow> u64 \<Rightarrow> u64 \<Rightarrow> duration" where
  "compute c ewma_ms penalty_ms floor_ms =
     (if \<not> at_adaptive c then at_fixed_or_initial c
      else
        let floor_ms = min (max floor_ms (as_millis (at_min c))) (as_millis (at_max c));
            max_ms = as_millis (at_max c);
            base_ms = as_millis (at_base c);
            mult = ucast (at_rtt_mult c);
            from_rtt = (if ewma_ms = 0 then floor_ms
                        else saturating_add base_ms (saturating_mul mult ewma_ms));
            total = saturating_add from_rtt penalty_ms
        in from_millis (clamp floor_ms max_ms total))"

text \<open>\<open>Duration::saturating_mul\<close> is exact here: its limit of \<open>2 ^ 64\<close> seconds is out of reach.\<close>

definition total_silence_budget :: "adaptive_timeout_config \<Rightarrow> u64 \<Rightarrow> u64 \<Rightarrow> u64 \<Rightarrow> u32 \<Rightarrow> duration" where
  "total_silence_budget c ewma_ms penalty_ms floor_ms probe_count =
     compute c ewma_ms penalty_ms floor_ms * unat (max probe_count 1)"

section \<open>State per key\<close>

record durable_liveness =
  dl_ewma_ms :: u64
  dl_penalty_ms :: u64
  dl_floor_ms :: u64

definition durable_liveness_new :: "u64 \<Rightarrow> durable_liveness" where
  "durable_liveness_new initial_floor_ms =
     \<lparr>dl_ewma_ms = 0, dl_penalty_ms = 0, dl_floor_ms = initial_floor_ms\<rparr>"

record liveness_snapshot =
  ls_timeout_ms :: u64
  ls_ewma_ms :: u64
  ls_penalty_ms :: u64
  ls_floor_ms :: u64
  ls_degraded :: bool

definition ctrl_current :: "adaptive_timeout_config \<Rightarrow> durable_liveness \<Rightarrow> duration" where
  "ctrl_current c d = compute c (dl_ewma_ms d) (dl_penalty_ms d) (dl_floor_ms d)"

definition is_degraded :: "adaptive_timeout_config \<Rightarrow> durable_liveness \<Rightarrow> bool" where
  "is_degraded c d \<longleftrightarrow> at_adaptive c \<and> dl_floor_ms d \<ge> as_millis (at_problem_min c)"

definition snapshot_of :: "adaptive_timeout_config \<Rightarrow> durable_liveness \<Rightarrow> liveness_snapshot" where
  "snapshot_of c d =
     \<lparr>ls_timeout_ms = as_millis (compute c (dl_ewma_ms d) (dl_penalty_ms d) (dl_floor_ms d)),
      ls_ewma_ms = dl_ewma_ms d, ls_penalty_ms = dl_penalty_ms d, ls_floor_ms = dl_floor_ms d,
      ls_degraded = (at_adaptive c \<and> dl_floor_ms d \<ge> as_millis (at_problem_min c))\<rparr>"

definition observe_sample ::
    "adaptive_timeout_config \<Rightarrow> duration \<Rightarrow> durable_liveness \<Rightarrow> durable_liveness" where
  "observe_sample c sample d =
     (if \<not> at_adaptive c then d
      else
        let sample_ms = of_nat (min (sample div 10 ^ 6) (at_max c div 10 ^ 6)) :: u64
        in if sample_ms = 0 then d
           else
             let prev = dl_ewma_ms d;
                 new = (if prev = 0 then sample_ms else (prev * 7 + sample_ms) div 8)
             in d\<lparr>dl_ewma_ms := new,
                  dl_penalty_ms := saturating_sub (dl_penalty_ms d) (as_millis (at_penalty_decay c))\<rparr>)"

section \<open>The controller of one connection\<close>

text \<open>The controller holds the start and the length of the armed epoch; the deadline slot is shared
  with the reader and the writer of the connection. \<open>arm\<close> returns the slot and the epoch,
  \<open>clear_on_reply\<close> and \<open>on_timeout\<close> the updated cell as well.\<close>

record arm_epoch =
  ae_at :: instant
  ae_timeout :: duration

definition last_armed_timeout :: "arm_epoch option \<Rightarrow> duration option" where
  "last_armed_timeout epoch = map_option ae_timeout epoch"

definition arm ::
    "adaptive_timeout_config \<Rightarrow> instant \<Rightarrow> durable_liveness \<Rightarrow> instant option \<Rightarrow> arm_epoch option \<Rightarrow>
     instant option \<times> arm_epoch option" where
  "arm c now d slot epoch =
     (case slot of
        Some existing \<Rightarrow> (slot, epoch)
      | None \<Rightarrow>
          (let t = ctrl_current c d; expires = now + t
           in (Some expires, Some \<lparr>ae_at = now, ae_timeout = t\<rparr>)))"

definition clear_on_reply ::
    "adaptive_timeout_config \<Rightarrow> instant \<Rightarrow> arm_epoch option \<Rightarrow> durable_liveness \<Rightarrow>
     instant option \<times> arm_epoch option \<times> durable_liveness" where
  "clear_on_reply c now epoch d =
     (None, None, case epoch of Some e \<Rightarrow> observe_sample c (now - ae_at e) d | None \<Rightarrow> d)"

definition on_timeout ::
    "adaptive_timeout_config \<Rightarrow> durable_liveness \<Rightarrow> arm_epoch option \<times> durable_liveness" where
  "on_timeout c d =
     (None,
      if at_adaptive c
      then d\<lparr>dl_floor_ms := max (dl_floor_ms d) (as_millis (at_problem_min c)),
             dl_penalty_ms := min (saturating_add (dl_penalty_ms d) (as_millis (at_penalty_step c)))
                                  (as_millis (at_max c))\<rparr>
      else d)"

section \<open>The registry\<close>

definition REGISTRY_SOFT_CAP :: nat where
  "REGISTRY_SOFT_CAP = 4096"

record peer_liveness_registry =
  lr_cfg :: adaptive_timeout_config
  lr_map :: "(public_key, nat) hmap"
  lr_store :: "durable_liveness list"

definition registry_new :: "adaptive_timeout_config \<Rightarrow> peer_liveness_registry" where
  "registry_new c = \<lparr>lr_cfg = c, lr_map = [], lr_store = []\<rparr>"

definition evict_one :: "public_key \<Rightarrow> (public_key, nat) hmap \<Rightarrow> (public_key, nat) hmap" where
  "evict_one key m =
     (if length m \<ge> REGISTRY_SOFT_CAP \<and> \<not> hm_contains m key
      then (case hm_keys m of evict # _ \<Rightarrow> hm_remove evict m | [] \<Rightarrow> m)
      else m)"

definition ctrl_for :: "public_key \<Rightarrow> peer_liveness_registry \<Rightarrow> nat \<times> peer_liveness_registry" where
  "ctrl_for key r =
     (let m = evict_one key (lr_map r)
      in case hm_get m key of
           Some durable \<Rightarrow> (durable, r\<lparr>lr_map := m\<rparr>)
         | None \<Rightarrow>
             (length (lr_store r),
              r\<lparr>lr_map := hm_insert key (length (lr_store r)) m,
                lr_store := lr_store r @ [durable_liveness_new (as_millis (at_min (lr_cfg r)))]\<rparr>))"

definition registry_snapshot :: "public_key \<Rightarrow> peer_liveness_registry \<Rightarrow> liveness_snapshot option" where
  "registry_snapshot key r =
     (case hm_get (lr_map r) key of
        Some durable \<Rightarrow> Some (snapshot_of (lr_cfg r) (lr_store r ! durable))
      | None \<Rightarrow> None)"

text \<open>Everything that happens to the registry: connections ask for their cell, replies are measured
  and silent connections are given up, on any cell that was handed out.\<close>

datatype liveness_event =
    CtrlFor public_key
  | Replied nat instant "arm_epoch option"
  | TimedOut nat

definition on_cell :: "nat \<Rightarrow> (durable_liveness \<Rightarrow> durable_liveness) \<Rightarrow> peer_liveness_registry \<Rightarrow> peer_liveness_registry" where
  "on_cell a f r = (if a < length (lr_store r) then r\<lparr>lr_store := (lr_store r)[a := f (lr_store r ! a)]\<rparr> else r)"

fun liveness_step :: "liveness_event \<Rightarrow> peer_liveness_registry \<Rightarrow> peer_liveness_registry" where
  "liveness_step (CtrlFor key) r = snd (ctrl_for key r)"
| "liveness_step (Replied a now epoch) r =
     on_cell a (\<lambda>d. snd (snd (clear_on_reply (lr_cfg r) now epoch d))) r"
| "liveness_step (TimedOut a) r = on_cell a (\<lambda>d. snd (on_timeout (lr_cfg r) d)) r"

section \<open>Bounds\<close>

definition sane_config :: "adaptive_timeout_config \<Rightarrow> bool" where
  "sane_config c \<longleftrightarrow> validate c = Inr () \<and> at_max c div 10 ^ 6 < 2 ^ 60"

definition cell_ok :: "adaptive_timeout_config \<Rightarrow> durable_liveness \<Rightarrow> bool" where
  "cell_ok c d \<longleftrightarrow>
     at_min c div 10 ^ 6 \<le> unat (dl_floor_ms d) \<and> unat (dl_floor_ms d) \<le> at_max c div 10 ^ 6 \<and>
     unat (dl_ewma_ms d) \<le> at_max c div 10 ^ 6 \<and> unat (dl_penalty_ms d) \<le> at_max c div 10 ^ 6"

lemma unat_of_small: "n < 2 ^ 60 \<Longrightarrow> unat (of_nat n :: u64) = n"
  by (simp add: unat_of_nat take_bit_nat_eq_self)

lemma unat_as_millis: "d div 10 ^ 6 < 2 ^ 60 \<Longrightarrow> unat (as_millis d) = d div 10 ^ 6"
  unfolding as_millis_def by (rule unat_of_small)

lemma sane_millis:
  assumes "sane_config c"
  shows "unat (as_millis (at_max c)) = at_max c div 10 ^ 6" "unat (as_millis (at_min c)) = at_min c div 10 ^ 6"
    "at_min c div 10 ^ 6 \<le> at_max c div 10 ^ 6"
    and "at_adaptive c \<Longrightarrow> unat (as_millis (at_problem_min c)) = at_problem_min c div 10 ^ 6"
    and "at_adaptive c \<Longrightarrow> at_problem_min c div 10 ^ 6 \<le> at_max c div 10 ^ 6"
proof -
  have m: "at_min c \<le> at_max c" and p: "at_adaptive c \<Longrightarrow> at_problem_min c \<le> at_max c"
    and b: "at_max c div 10 ^ 6 < 2 ^ 60"
    using assms by (auto simp: sane_config_def validate_def split: if_splits)
  then show "at_min c div 10 ^ 6 \<le> at_max c div 10 ^ 6"
    "at_adaptive c \<Longrightarrow> at_problem_min c div 10 ^ 6 \<le> at_max c div 10 ^ 6"
    by (simp_all add: div_le_mono)
  then show "unat (as_millis (at_max c)) = at_max c div 10 ^ 6" "unat (as_millis (at_min c)) = at_min c div 10 ^ 6"
    "at_adaptive c \<Longrightarrow> unat (as_millis (at_problem_min c)) = at_problem_min c div 10 ^ 6"
    using b unat_as_millis [of "at_max c"] unat_as_millis [of "at_min c"] unat_as_millis [of "at_problem_min c"]
    by simp_all
qed

lemma clamp_bounds: "lo \<le> hi \<Longrightarrow> lo \<le> clamp lo hi x \<and> clamp lo hi x \<le> hi"
  by (auto simp: clamp_def)

lemma compute_bounds:
  assumes "sane_config c" "at_adaptive c" "cell_ok c d"
  shows "from_millis (dl_floor_ms d) \<le> ctrl_current c d \<and> ctrl_current c d \<le> from_millis (as_millis (at_max c))"
proof -
  note ms = sane_millis [OF assms(1)]
  have "min (max (dl_floor_ms d) (as_millis (at_min c))) (as_millis (at_max c)) = dl_floor_ms d"
    and le: "dl_floor_ms d \<le> as_millis (at_max c)"
    using assms(3) ms by (auto simp: cell_ok_def word_le_nat_alt min_def max_def intro: word_unat_eq_iff [THEN iffD2])
  then show ?thesis
    using clamp_bounds [OF le] assms(2)
    by (simp add: ctrl_current_def compute_def Let_def from_millis_def word_le_nat_alt)
qed

lemma cell_ok_new: "sane_config c \<Longrightarrow> cell_ok c (durable_liveness_new (as_millis (at_min c)))"
  using sane_millis [of c] by (simp add: cell_ok_def durable_liveness_new_def)

lemma cell_ok_sample:
  assumes "sane_config c" "cell_ok c d"
  shows "cell_ok c (observe_sample c sample d)" "dl_floor_ms (observe_sample c sample d) = dl_floor_ms d"
proof -
  let ?m = "at_max c div 10 ^ 6"
  define s where "s = min (sample div 10 ^ 6) ?m"
  have m: "?m < 2 ^ 60" using assms(1) by (simp add: sane_config_def)
  have le: "s \<le> ?m" by (simp add: s_def)
  have s: "unat (of_nat s :: u64) = s" by (rule unat_of_small) (use m le in linarith)
  have e: "unat (dl_ewma_ms d) \<le> ?m" using assms(2) by (simp add: cell_ok_def)
  have seven: "unat (dl_ewma_ms d * 7) = unat (dl_ewma_ms d) * 7"
    using e m unat_mult_lem [of "dl_ewma_ms d" 7] by simp
  have "unat (dl_ewma_ms d * 7 + of_nat s) = unat (dl_ewma_ms d) * 7 + s"
    using e m s le seven unat_add_lem [of "dl_ewma_ms d * 7" "of_nat s"] by simp
  then have "unat ((dl_ewma_ms d * 7 + of_nat s) div 8) \<le> ?m"
    using e le by (simp add: unat_div)
  then show "cell_ok c (observe_sample c sample d)"
    using assms(2) s le unfolding observe_sample_def s_def [symmetric]
    by (auto simp: cell_ok_def Let_def unat_saturating_sub)
  show "dl_floor_ms (observe_sample c sample d) = dl_floor_ms d"
    by (simp add: observe_sample_def Let_def)
qed

lemma cell_ok_timeout:
  assumes "sane_config c" "cell_ok c d"
  shows "cell_ok c (snd (on_timeout c d))" "dl_floor_ms d \<le> dl_floor_ms (snd (on_timeout c d))"
    and "at_adaptive c \<Longrightarrow> is_degraded c (snd (on_timeout c d))"
  using assms sane_millis [OF assms(1)]
  by (auto simp: on_timeout_def cell_ok_def is_degraded_def max_def min_def word_le_nat_alt)

section \<open>The registry over time\<close>

definition registry_ok :: "adaptive_timeout_config \<Rightarrow> peer_liveness_registry \<Rightarrow> bool" where
  "registry_ok c r \<longleftrightarrow> lr_cfg r = c \<and> hm_wf (lr_map r) \<and> length (lr_map r) \<le> REGISTRY_SOFT_CAP \<and>
     (\<forall>(k, a) \<in> set (lr_map r). a < length (lr_store r)) \<and> (\<forall>d \<in> set (lr_store r). cell_ok c d)"

lemma registry_ok_cell:
  "registry_ok c r \<Longrightarrow> (\<And>d. cell_ok c d \<Longrightarrow> cell_ok c (f d)) \<Longrightarrow> registry_ok c (on_cell a f r)"
  by (auto simp: registry_ok_def on_cell_def dest!: set_update_subset_insert [THEN subsetD])

lemma hm_remove_head: "hm_wf ((k, v) # m) \<Longrightarrow> hm_remove k ((k, v) # m) = m"
  by (auto simp: hm_remove_def AList.delete_eq filter_id_conv image_iff)

lemma evict_one_cases:
  assumes "hm_wf m"
  obtains "evict_one key m = m" "hm_contains m key \<or> length m < REGISTRY_SOFT_CAP"
    | "m \<noteq> []" "evict_one key m = tl m" "\<not> hm_contains m key"
proof (cases "length m \<ge> REGISTRY_SOFT_CAP \<and> \<not> hm_contains m key")
  case True
  then obtain k v m' where "m = (k, v) # m'" by (cases m) (auto simp: REGISTRY_SOFT_CAP_def)
  then show ?thesis using True hm_remove_head [of k v m'] assms that(2) by (simp add: evict_one_def)
next
  case False
  then show ?thesis using that(1) by (auto simp: evict_one_def)
qed

lemma evict_one_ok:
  assumes "hm_wf m" "length m \<le> REGISTRY_SOFT_CAP"
  shows "hm_wf (evict_one key m) \<and> set (evict_one key m) \<subseteq> set m \<and>
      length (evict_one key m) \<le> REGISTRY_SOFT_CAP \<and> hm_get (evict_one key m) key = hm_get m key \<and>
      (hm_get m key = None \<longrightarrow> length (evict_one key m) < REGISTRY_SOFT_CAP)"
proof (cases rule: evict_one_cases [OF assms(1), of key])
  case 1
  then show ?thesis using assms by (auto simp: hm_contains_def)
next
  case 2
  then obtain k v m' where "m = (k, v) # m'" by (cases m) auto
  then show ?thesis using assms 2 by (auto simp: hm_contains_def split: if_splits)
qed

lemma registry_ok_ctrl:
  assumes "registry_ok c r" "sane_config c"
  shows "registry_ok c (snd (ctrl_for key r))" "hm_get (lr_map (snd (ctrl_for key r))) key = Some (fst (ctrl_for key r))"
    and "\<exists>new. lr_store (snd (ctrl_for key r)) = lr_store r @ new"
    and "hm_get (lr_map r) key = Some a \<Longrightarrow> fst (ctrl_for key r) = a"
proof -
  let ?m = "evict_one key (lr_map r)"
  note ev = evict_one_ok [of "lr_map r" key]
  have r: "lr_cfg r = c" "hm_wf (lr_map r)" "length (lr_map r) \<le> REGISTRY_SOFT_CAP"
    using assms(1) by (auto simp: registry_ok_def)
  show "registry_ok c (snd (ctrl_for key r))"
  proof (cases "hm_get ?m key")
    case None
    then have ins: "hm_insert key a ?m = ?m @ [(key, a)]" for a by (rule hm_insert_absent)
    have "key \<notin> fst ` set ?m" using None by (simp add: hm_get_None_iff)
    then show ?thesis
      using None ev r assms cell_ok_new [OF assms(2)]
      by (auto simp: ctrl_for_def ins registry_ok_def Let_def less_Suc_eq)
  next
    case (Some a)
    then show ?thesis using ev r assms(1) by (auto simp: ctrl_for_def registry_ok_def)
  qed
  show "hm_get (lr_map (snd (ctrl_for key r))) key = Some (fst (ctrl_for key r))"
    "\<exists>new. lr_store (snd (ctrl_for key r)) = lr_store r @ new"
    by (auto simp: ctrl_for_def Let_def split: option.splits)
  show "hm_get (lr_map r) key = Some a \<Longrightarrow> fst (ctrl_for key r) = a"
    using ev r by (auto simp: ctrl_for_def Let_def split: option.splits)
qed

lemma registry_ok_step:
  assumes "registry_ok c r" "sane_config c"
  shows "registry_ok c (liveness_step e r)"
proof (cases e)
  case (CtrlFor key)
  then show ?thesis using registry_ok_ctrl [OF assms] by simp
next
  case (Replied a now epoch)
  have "lr_cfg r = c" using assms(1) by (simp add: registry_ok_def)
  then show ?thesis
    using Replied assms cell_ok_sample [OF assms(2)]
    by (auto simp: clear_on_reply_def intro!: registry_ok_cell split: option.split)
next
  case (TimedOut a)
  have "lr_cfg r = c" using assms(1) by (simp add: registry_ok_def)
  then show ?thesis using TimedOut assms cell_ok_timeout [OF assms(2)] by (auto intro!: registry_ok_cell)
qed

interpretation liveness_events: event_invariant liveness_step "\<lambda>_. True"
    "\<lambda>r. sane_config (lr_cfg r) \<and> registry_ok (lr_cfg r) r"
proof
  fix r :: peer_liveness_registry and e :: liveness_event
  assume "sane_config (lr_cfg r) \<and> registry_ok (lr_cfg r) r"
  then have "registry_ok (lr_cfg r) (liveness_step e r)" "sane_config (lr_cfg r)" by (auto intro: registry_ok_step)
  moreover from this have "lr_cfg (liveness_step e r) = lr_cfg r" by (simp add: registry_ok_def)
  ultimately show "sane_config (lr_cfg (liveness_step e r)) \<and> registry_ok (lr_cfg (liveness_step e r)) (liveness_step e r)"
    by simp
qed

text \<open>The floor of a cell never falls, and a cell that timed out stays degraded.\<close>

definition floors_kept :: "peer_liveness_registry \<Rightarrow> peer_liveness_registry \<Rightarrow> bool" where
  "floors_kept r r' \<longleftrightarrow> length (lr_store r) \<le> length (lr_store r') \<and> lr_cfg r' = lr_cfg r \<and>
     (\<forall>a < length (lr_store r). dl_floor_ms (lr_store r ! a) \<le> dl_floor_ms (lr_store r' ! a))"

lemma floors_kept_trans: "floors_kept r s \<Longrightarrow> floors_kept s t \<Longrightarrow> floors_kept r t"
  unfolding floors_kept_def using order_trans less_le_trans by (metis (no_types, lifting))

lemma floors_kept_cell:
  assumes "\<And>d. dl_floor_ms d \<le> dl_floor_ms (f d)"
  shows "floors_kept r (on_cell a f r)"
  using assms by (auto simp: floors_kept_def on_cell_def nth_list_update)

interpretation liveness_order: event_order liveness_step "\<lambda>_. True" floors_kept
proof
  fix r s t :: peer_liveness_registry and e :: liveness_event
  show "floors_kept r r" by (simp add: floors_kept_def)
  show "floors_kept r s \<Longrightarrow> floors_kept s t \<Longrightarrow> floors_kept r t" by (rule floors_kept_trans)
  show "floors_kept r (liveness_step e r)"
  proof (cases e)
    case (CtrlFor key)
    then show ?thesis
      by (auto simp: floors_kept_def ctrl_for_def Let_def nth_append split: option.splits)
  next
    case (Replied a now epoch)
    then show ?thesis
      by (auto simp: clear_on_reply_def observe_sample_def Let_def intro!: floors_kept_cell split: option.splits)
  next
    case (TimedOut a)
    then show ?thesis by (auto simp: on_timeout_def intro!: floors_kept_cell)
  qed
qed

lemma floors_kept_run: "floors_kept r (fold liveness_step es r)"
  using liveness_order.run_before [of es r] by (simp add: list_all_iff)

lemma timed_out_degraded:
  assumes "at_adaptive (lr_cfg r)" "a < length (lr_store r)" "TimedOut a \<in> set es"
  shows "is_degraded (lr_cfg r) (lr_store (fold liveness_step es r) ! a)"
proof -
  obtain es1 es2 where es: "es = es1 @ TimedOut a # es2" using split_list [OF assms(3)] by blast
  define r1 where "r1 = fold liveness_step es1 r"
  have k1: "floors_kept r r1" unfolding r1_def by (rule floors_kept_run)
  then have a1: "a < length (lr_store r1)" "lr_cfg r1 = lr_cfg r" using assms(2) by (auto simp: floors_kept_def)
  let ?r2 = "liveness_step (TimedOut a) r1"
  have "as_millis (at_problem_min (lr_cfg r)) \<le> dl_floor_ms (lr_store ?r2 ! a)" "a < length (lr_store ?r2)"
    using a1 assms(1) by (simp_all add: on_cell_def on_timeout_def)
  moreover have "floors_kept ?r2 (fold liveness_step es2 ?r2)" by (rule floors_kept_run)
  ultimately have "as_millis (at_problem_min (lr_cfg r)) \<le> dl_floor_ms (lr_store (fold liveness_step es2 ?r2) ! a)"
    by (auto simp: floors_kept_def intro: order_trans)
  moreover have "fold liveness_step es r = fold liveness_step es2 ?r2" by (simp add: es r1_def)
  ultimately show ?thesis using assms(1) by (simp add: is_degraded_def)
qed

text \<open>With a valid adaptive configuration, in every state the registry can reach: at most 4096
  keys are remembered; every interval handed out lies between the floor of its cell and the
  configured maximum, and the floor between the configured minimum and maximum; a key that is
  remembered, that is not evicted at the cap, gets the same cell when it reconnects; and from then
  on the floor of that cell never falls, while a connection that timed out leaves it degraded for
  good. A key that was evicted starts with a new cell.\<close>

theorem liveness_interval_sticky:
  assumes "validate c = Inr ()" "at_adaptive c" "at_max c div 10 ^ 6 < 2 ^ 60"
    and "r = fold liveness_step es (registry_new c)" "hm_get (lr_map r) key = Some a"
  shows "length (lr_map r) \<le> REGISTRY_SOFT_CAP \<and> fst (ctrl_for key r) = a \<and>
    as_millis (at_min c) \<le> dl_floor_ms (lr_store r ! a) \<and>
    from_millis (dl_floor_ms (lr_store r ! a)) \<le> ctrl_current c (lr_store r ! a) \<and>
    ctrl_current c (lr_store r ! a) \<le> from_millis (as_millis (at_max c)) \<and>
    dl_floor_ms (lr_store r ! a) \<le> dl_floor_ms (lr_store (fold liveness_step es' r) ! a) \<and>
    (TimedOut a \<in> set es' \<longrightarrow> is_degraded c (lr_store (fold liveness_step es' r) ! a))"
proof -
  have sane: "sane_config c" using assms(1,3) by (simp add: sane_config_def)
  have "registry_ok c (registry_new c)" by (simp add: registry_ok_def registry_new_def)
  then have "sane_config (lr_cfg r) \<and> registry_ok (lr_cfg r) r"
    using liveness_events.run_inv [of "registry_new c" es] sane assms(4) by (simp add: registry_new_def list_all_iff)
  moreover have cfg: "lr_cfg r = c"
    using floors_kept_run [of "registry_new c" es] assms(4) by (simp add: floors_kept_def registry_new_def)
  ultimately have ok: "registry_ok c r" by simp
  then have a: "a < length (lr_store r)" and cell: "cell_ok c (lr_store r ! a)"
    using assms(5) map_of_SomeD [OF assms(5)] by (auto simp: registry_ok_def)
  show ?thesis
    using ok registry_ok_ctrl(4) [OF ok sane assms(5)] compute_bounds [OF sane assms(2) cell]
      floors_kept_run [of r es'] timed_out_degraded [of r a es'] assms(2) a cfg cell sane_millis [OF sane]
    by (simp add: registry_ok_def cell_ok_def word_le_nat_alt floors_kept_def)
qed

definition sample_timeout_config :: adaptive_timeout_config where
  "sample_timeout_config = adaptive_timeout_default\<lparr>at_adaptive := True\<rparr>"

theorem liveness_interval_sticky_witness:
  "is_degraded sample_timeout_config
     (lr_store (fold liveness_step [Replied 0 7000000 (Some \<lparr>ae_at = 0, ae_timeout = 5\<rparr>), TimedOut 0]
        (fold liveness_step [CtrlFor [1], CtrlFor [2]] (registry_new sample_timeout_config))) ! 0)"
proof -
  have "validate sample_timeout_config = Inr ()" "at_adaptive sample_timeout_config"
    "at_max sample_timeout_config div 10 ^ 6 < 2 ^ 60"
    by (simp_all add: validate_def sample_timeout_config_def adaptive_timeout_default_def)
  moreover have "hm_get (lr_map (fold liveness_step [CtrlFor [1], CtrlFor [2]] (registry_new sample_timeout_config))) [1] = Some 0"
    by (simp add: ctrl_for_def registry_new_def evict_one_def REGISTRY_SOFT_CAP_def hm_contains_def hm_insert_def Let_def)
  ultimately show ?thesis
    using liveness_interval_sticky [OF _ _ _ refl, of sample_timeout_config "[CtrlFor [1], CtrlFor [2]]" "[1]" 0
        "[Replied 0 7000000 (Some \<lparr>ae_at = 0, ae_timeout = 5\<rparr>), TimedOut 0]"]
    by simp
qed

end
