(* ===== verification/Traffic_Queue.thy ===== *)
theory Traffic_Queue
  imports Packet "HOL-Library.Sublist"
begin

text \<open>
  The packet queue of \<open>crates/ironwood/src/traffic.rs\<close>: deficit round robin over the flows
  (source, destination), hard byte caps with eviction from the front, the CoDel controller at
  dequeue, and the delivery queue that hands packets to waiting readers.

  Byte counts, credits and the caps are \<open>u64\<close> and wrap as in a release build; positions and the
  number of packets are natural numbers. \<open>u64\<close> time differences of the controller are integers of
  nanoseconds; its square root in floating point is the parameter \<open>interval_over_sqrt\<close>.
\<close>

section \<open>Data\<close>

definition DEFAULT_PACKET_QUEUE_MAX_BYTES_MULTIPLIER :: u64 where
  "DEFAULT_PACKET_QUEUE_MAX_BYTES_MULTIPLIER = 64"

definition DEFAULT_PACKET_QUEUE_PER_FLOW_MULTIPLIER :: u64 where
  "DEFAULT_PACKET_QUEUE_PER_FLOW_MULTIPLIER = 16"

definition DEFAULT_MAX_MESSAGE_SIZE :: u64 where
  "DEFAULT_MAX_MESSAGE_SIZE = 1024 * 1024"

definition CODEL_TARGET :: duration where
  "CODEL_TARGET = 15 * 1000000"

definition CODEL_INTERVAL :: duration where
  "CODEL_INTERVAL = 100 * 1000000"

definition signed_nanos :: "instant \<Rightarrow> instant \<Rightarrow> int" where
  "signed_nanos now t = (if now \<ge> t then int (now - t) else - int (t - now))"

definition codel_control_law :: "(u32 \<Rightarrow> duration) \<Rightarrow> instant \<Rightarrow> u32 \<Rightarrow> instant" where
  "codel_control_law interval_over_sqrt t count = t + interval_over_sqrt (max count 1)"

record codel =
  cd_first_above_time :: "instant option"
  cd_drop_next :: "instant option"
  cd_count :: u32
  cd_lastcount :: u32
  cd_dropping :: bool

definition codel_default :: codel where
  "codel_default = \<lparr>cd_first_above_time = None, cd_drop_next = None, cd_count = 0, cd_lastcount = 0,
     cd_dropping = False\<rparr>"

record flow_key =
  fk_source :: public_key
  fk_dest :: public_key

record pq_packet_info =
  qi_packet :: traffic_packet
  qi_size :: u64
  qi_time :: instant

record flow =
  fl_infos :: "pq_packet_info list"
  fl_size :: u64
  fl_deficit :: u64
  fl_index :: "nat option"

record packet_queue =
  pq_flows :: "(flow_key, flow) hmap"
  pq_active :: "flow_key list"
  pq_next :: "nat option"
  pq_size :: u64
  pq_count :: nat
  pq_max_bytes_total :: u64
  pq_max_bytes_per_flow :: u64
  pq_quantum :: u64
  pq_codel :: codel

definition packet_key :: "traffic_packet \<Rightarrow> flow_key" where
  "packet_key p = \<lparr>fk_source = tr_source p, fk_dest = tr_dest p\<rparr>"

definition packet_queue_new :: "u64 \<Rightarrow> packet_queue" where
  "packet_queue_new quantum =
     (let quantum = (if quantum = 0 then DEFAULT_MAX_MESSAGE_SIZE else quantum)
      in \<lparr>pq_flows = [], pq_active = [], pq_next = None, pq_size = 0, pq_count = 0,
          pq_max_bytes_total = quantum * DEFAULT_PACKET_QUEUE_MAX_BYTES_MULTIPLIER,
          pq_max_bytes_per_flow = quantum * DEFAULT_PACKET_QUEUE_PER_FLOW_MULTIPLIER,
          pq_quantum = quantum, pq_codel = codel_default\<rparr>)"

definition pq_is_empty :: "packet_queue \<Rightarrow> bool" where
  "pq_is_empty q \<longleftrightarrow> pq_size q = 0"

section \<open>The ring of active flows\<close>

definition activate :: "flow_key \<Rightarrow> packet_queue \<Rightarrow> packet_queue" where
  "activate key q =
     (let idx = length (pq_active q)
      in q\<lparr>pq_active := pq_active q @ [key],
           pq_flows := hm_modify key (\<lambda>f. f\<lparr>fl_index := Some idx\<rparr>) (pq_flows q)\<rparr>)"

text \<open>The two halves of \<open>deactivate\<close>: the last flow of the ring takes the place of the one that
  leaves, then the cursor is repaired. A flow with a position is on the ring, so the ring is not
  empty where the code subtracts one from its length.\<close>

definition ring_remove :: "flow_key \<Rightarrow> nat \<Rightarrow> nat \<Rightarrow> packet_queue \<Rightarrow> packet_queue" where
  "ring_remove key idx last_idx q =
     (let q = (if idx \<noteq> last_idx then
                 let moved = pq_active q ! last_idx
                 in q\<lparr>pq_active := (pq_active q)[idx := moved],
                      pq_flows := hm_modify moved (\<lambda>f. f\<lparr>fl_index := Some idx\<rparr>) (pq_flows q)\<rparr>
               else q)
      in q\<lparr>pq_active := butlast (pq_active q),
           pq_flows := hm_modify key (\<lambda>f. f\<lparr>fl_index := None\<rparr>) (pq_flows q)\<rparr>)"

definition fix_cursor :: "nat \<Rightarrow> nat \<Rightarrow> packet_queue \<Rightarrow> packet_queue" where
  "fix_cursor idx last_idx q =
     (if pq_active q = [] then q\<lparr>pq_next := None\<rparr>
      else
        let q = (if pq_next q = Some last_idx then q\<lparr>pq_next := Some idx\<rparr> else q)
        in case pq_next q of
             None \<Rightarrow> q
           | Some n \<Rightarrow> if n \<ge> length (pq_active q) then q\<lparr>pq_next := Some 0\<rparr> else q)"

definition deactivate :: "flow_key \<Rightarrow> packet_queue \<Rightarrow> packet_queue" where
  "deactivate key q =
     (case Option.bind (hm_get (pq_flows q) key) fl_index of
        None \<Rightarrow> q
      | Some idx \<Rightarrow>
          let last_idx = length (pq_active q) - 1
          in if idx > last_idx then q
             else fix_cursor idx last_idx (ring_remove key idx last_idx q))"

definition flow_for :: "flow_key \<Rightarrow> packet_queue \<Rightarrow> packet_queue" where
  "flow_for key q = q\<lparr>pq_flows := hm_entry key \<lparr>fl_infos = [], fl_size = 0, fl_deficit = 0, fl_index = None\<rparr> (pq_flows q)\<rparr>"

definition remove_flow_if_empty :: "flow_key \<Rightarrow> packet_queue \<Rightarrow> packet_queue" where
  "remove_flow_if_empty key q =
     (case hm_get (pq_flows q) key of
        None \<Rightarrow> q
      | Some f \<Rightarrow>
          if fl_infos f \<noteq> [] then q
          else
            let q = (if fl_index f \<noteq> None then deactivate key q else q)
            in q\<lparr>pq_flows := hm_remove key (pq_flows q)\<rparr>)"

section \<open>Eviction and insertion\<close>

text \<open>The bookkeeping when the head packet of a flow leaves: the sizes shrink and the credit is
  clamped.\<close>

definition take_head :: "flow_key \<Rightarrow> pq_packet_info \<Rightarrow> packet_queue \<Rightarrow> packet_queue" where
  "take_head key info q =
     (let deficit_cap = pq_quantum q * 4
      in q\<lparr>pq_flows := hm_modify key (\<lambda>f. f\<lparr>fl_infos := tl (fl_infos f), fl_size := fl_size f - qi_size info,
             fl_deficit := (if fl_deficit f > deficit_cap then deficit_cap else fl_deficit f)\<rparr>) (pq_flows q),
           pq_size := pq_size q - qi_size info, pq_count := pq_count q - 1\<rparr>)"

definition drop_from :: "flow_key \<Rightarrow> packet_queue \<Rightarrow> pq_packet_info option \<times> packet_queue" where
  "drop_from key q =
     (case hm_get (pq_flows q) key of
        None \<Rightarrow> (None, q)
      | Some f \<Rightarrow>
          (case fl_infos f of
             [] \<Rightarrow> (None, q)
           | info # _ \<Rightarrow> (Some info, remove_flow_if_empty key (take_head key info q))))"

text \<open>\<open>max_by\<close> keeps the last of several maxima; the comparison is by size, then by the age of the
  head packet.\<close>

fun largest_loop :: "(flow_key \<times> u64 \<times> instant) option \<Rightarrow> (flow_key \<times> u64 \<times> instant) list \<Rightarrow> (flow_key \<times> u64 \<times> instant) option" where
  "largest_loop best [] = best"
| "largest_loop None (x # xs) = largest_loop (Some x) xs"
| "largest_loop (Some (k1, s1, t1)) ((k2, s2, t2) # xs) =
     (if s1 > s2 \<or> s1 = s2 \<and> t2 > t1 then largest_loop (Some (k1, s1, t1)) xs
      else largest_loop (Some (k2, s2, t2)) xs)"

definition largest_flow :: "packet_queue \<Rightarrow> flow_key option" where
  "largest_flow q =
     map_option fst (largest_loop None (List.map_filter (\<lambda>k.
       case hm_get (pq_flows q) k of
         None \<Rightarrow> None
       | Some f \<Rightarrow> (case fl_infos f of [] \<Rightarrow> None | h # _ \<Rightarrow> Some (k, fl_size f, qi_time h))) (pq_active q)))"

definition drop_largest :: "packet_queue \<Rightarrow> bool \<times> packet_queue" where
  "drop_largest q =
     (case largest_flow q of
        None \<Rightarrow> (False, q)
      | Some key \<Rightarrow> (let (info, q) = drop_from key q in (info \<noteq> None, q)))"

text \<open>The number of packets in the flows; every eviction lowers it.\<close>

definition pq_packets :: "packet_queue \<Rightarrow> nat" where
  "pq_packets q = sum_list (map (\<lambda>(_, f). length (fl_infos f)) (pq_flows q))"

lemma sum_hm_modify:
  "sum_list (map (\<lambda>(_, v). g v) (hm_modify k f m)) = sum_list (map (\<lambda>(k', v). if k' = k then g (f v) else g v) m)"
  by (induction m) (auto simp: hm_modify_def)

lemma pq_packets_modify_index:
  "(\<And>f. fl_infos (h f) = fl_infos f) \<Longrightarrow>
   sum_list (map (\<lambda>(_, f). length (fl_infos f)) (hm_modify k h m)) = sum_list (map (\<lambda>(_, f). length (fl_infos f)) m)"
  by (induction m) (auto simp: hm_modify_def)

lemma pq_packets_remove:
  "sum_list (map (\<lambda>(_, f). length (fl_infos f)) (hm_remove k m)) \<le> sum_list (map (\<lambda>(_, f). length (fl_infos f)) m)"
  by (induction m) (auto simp: hm_remove_def AList.delete_eq)

lemma pq_packets_deactivate [simp]: "pq_packets (deactivate key q) = pq_packets q"
  by (auto simp: deactivate_def ring_remove_def fix_cursor_def pq_packets_def pq_packets_modify_index Let_def
      split: option.splits)

lemma pq_packets_remove_flow: "pq_packets (remove_flow_if_empty key q) \<le> pq_packets q"
proof -
  have "pq_packets (s\<lparr>pq_flows := hm_remove key (pq_flows s)\<rparr>) \<le> pq_packets s" for s
    using pq_packets_remove by (simp add: pq_packets_def)
  from this [of q] this [of "deactivate key q"] show ?thesis
    by (auto simp: remove_flow_if_empty_def Let_def split: option.splits)
qed

lemma pq_packets_tl:
  "hm_get m k = Some f \<Longrightarrow> fl_infos f \<noteq> [] \<Longrightarrow> (\<And>f. fl_infos (h f) = tl (fl_infos f)) \<Longrightarrow>
   sum_list (map (\<lambda>(_, f). length (fl_infos f)) (hm_modify k h m)) < sum_list (map (\<lambda>(_, f). length (fl_infos f)) m)"
proof (induction m)
  case (Cons kv m)
  have le: "sum_list (map (\<lambda>(_, f). length (fl_infos f)) (hm_modify k h m)) \<le> sum_list (map (\<lambda>(_, f). length (fl_infos f)) m)"
    by (induction m) (auto simp: hm_modify_def Cons.prems(3) intro: add_mono)
  show ?case
  proof (cases "fst kv = k")
    case True
    with Cons.prems have "length (fl_infos (h (snd kv))) < length (fl_infos (snd kv))" by (cases kv) auto
    with True le show ?thesis by (cases kv) (auto simp: hm_modify_def intro: add_less_le_mono)
  next
    case False
    with Cons show ?thesis by (cases kv) (auto simp: hm_modify_def)
  qed
qed simp

lemma drop_from_Some:
  assumes "drop_from key q = (Some info, q')"
  obtains f rest where "hm_get (pq_flows q) key = Some f" "fl_infos f = info # rest"
    "q' = remove_flow_if_empty key (take_head key info q)"
  using assms by (auto simp: drop_from_def split: option.splits list.splits)

lemma drop_from_packets:
  assumes "drop_from key q = (Some info, q')"
  shows "pq_packets q' < pq_packets q"
proof -
  obtain f rest where f: "hm_get (pq_flows q) key = Some f" "fl_infos f = info # rest"
    "q' = remove_flow_if_empty key (take_head key info q)" using assms by (rule drop_from_Some)
  have "pq_packets (take_head key info q) < pq_packets q"
    using f(1,2) pq_packets_tl [of "pq_flows q" key f] by (simp add: pq_packets_def take_head_def Let_def)
  with pq_packets_remove_flow show ?thesis unfolding f(3) by (rule le_less_trans)
qed

lemma drop_largest_packets: "drop_largest q = (True, q') \<Longrightarrow> pq_packets q' < pq_packets q"
  by (auto simp: drop_largest_def intro: drop_from_packets split: option.splits prod.splits)

text \<open>The loops that make room. The flag is false where \<open>push\<close> returns early.\<close>

function flow_cap_loop :: "flow_key \<Rightarrow> u64 \<Rightarrow> packet_queue \<Rightarrow> bool \<times> packet_queue" where
  "flow_cap_loop key pkt_size q =
     (let (flow_size, flow_count) =
            (case hm_get (pq_flows q) key of Some f \<Rightarrow> (fl_size f, length (fl_infos f)) | None \<Rightarrow> (0, 0))
      in if flow_size + pkt_size \<le> pq_max_bytes_per_flow q \<or> flow_count = 0 then (True, q)
         else (case drop_from key q of
                 (None, q') \<Rightarrow> (False, q')
               | (Some _, q') \<Rightarrow> flow_cap_loop key pkt_size q'))"
  by pat_completeness auto
termination
proof (relation "measure (\<lambda>(_, _, q). pq_packets q)", goal_cases)
  case (2 key pkt_size q _ _ _ info q')
  then show ?case using drop_from_packets [of key q] by (cases "drop_from key q") auto
qed simp

function total_cap_loop :: "u64 \<Rightarrow> packet_queue \<Rightarrow> bool \<times> packet_queue" where
  "total_cap_loop pkt_size q =
     (if pq_size q + pkt_size > pq_max_bytes_total q \<and> pq_size q > 0 then
        (case drop_largest q of
           (False, q') \<Rightarrow> (False, q')
         | (True, q') \<Rightarrow> total_cap_loop pkt_size q')
      else (True, q))"
  by pat_completeness auto
termination
proof (relation "measure (\<lambda>(_, q). pq_packets q)", goal_cases)
  case (2 pkt_size q _ q')
  then show ?case using drop_largest_packets [of q] by (cases "drop_largest q") auto
qed simp

declare flow_cap_loop.simps [simp del] total_cap_loop.simps [simp del]

definition enqueue :: "pq_packet_info \<Rightarrow> packet_queue \<Rightarrow> packet_queue" where
  "enqueue info q =
     (let key = packet_key (qi_packet info);
          q = flow_for key q;
          needs_activate = (case hm_get (pq_flows q) key of Some f \<Rightarrow> fl_index f = None | None \<Rightarrow> False);
          q = q\<lparr>pq_flows := hm_modify key (\<lambda>f. f\<lparr>fl_infos := fl_infos f @ [info], fl_size := fl_size f + qi_size info\<rparr>) (pq_flows q),
                pq_size := pq_size q + qi_size info, pq_count := pq_count q + 1\<rparr>
      in if needs_activate then activate key q else q)"

definition new_info :: "instant \<Rightarrow> traffic_packet \<Rightarrow> pq_packet_info" where
  "new_info now packet = \<lparr>qi_packet = packet, qi_size = of_nat (wire_size packet), qi_time = now\<rparr>"

definition pq_push :: "instant \<Rightarrow> traffic_packet \<Rightarrow> packet_queue \<Rightarrow> packet_queue" where
  "pq_push now packet q =
     (let pkt_size = of_nat (wire_size packet)
      in if pkt_size > pq_max_bytes_total q \<or> pkt_size > pq_max_bytes_per_flow q then q
         else
           let key = packet_key packet;
               info = new_info now packet;
               q = flow_for key q
           in case flow_cap_loop key pkt_size q of
                (False, q) \<Rightarrow> q
              | (True, q) \<Rightarrow>
                  (case total_cap_loop pkt_size q of
                     (False, q) \<Rightarrow> q
                   | (True, q) \<Rightarrow> enqueue info q))"

section \<open>Deficit round robin\<close>

definition credit :: "flow_key \<Rightarrow> packet_queue \<Rightarrow> packet_queue" where
  "credit key q = q\<lparr>pq_flows := hm_modify key (\<lambda>f. f\<lparr>fl_deficit := fl_deficit f + pq_quantum q\<rparr>) (pq_flows q)\<rparr>"

definition serveable :: "flow_key \<Rightarrow> packet_queue \<Rightarrow> bool" where
  "serveable key q =
     (case hm_get (pq_flows q) key of
        None \<Rightarrow> False
      | Some f \<Rightarrow> (case fl_infos f of [] \<Rightarrow> False | h # _ \<Rightarrow> qi_size h \<le> fl_deficit f))"

text \<open>The loop of \<open>pop_info\<close>; \<open>None\<close> stands for a loop that does not end.\<close>

partial_function (option) pop_loop :: "nat \<Rightarrow> packet_queue \<Rightarrow> (pq_packet_info \<times> packet_queue) option" where
  "pop_loop idx q =
     (let key = pq_active q ! idx;
          (served, q) = (if serveable key q then drop_from key q else (None, q))
      in case served of
           Some info \<Rightarrow>
             Some (info, q\<lparr>pq_flows := hm_modify key (\<lambda>f. f\<lparr>fl_deficit := fl_deficit f - qi_size info\<rparr>) (pq_flows q)\<rparr>)
         | None \<Rightarrow>
             let idx = (if idx + 1 \<ge> length (pq_active q) then 0 else idx + 1);
                 q = q\<lparr>pq_next := Some idx\<rparr>
             in pop_loop idx (credit (pq_active q ! idx) q))"

definition pop_info :: "packet_queue \<Rightarrow> (pq_packet_info option \<times> packet_queue) option" where
  "pop_info q =
     (if pq_is_empty q \<or> pq_active q = [] then Some (None, q\<lparr>pq_next := None\<rparr>)
      else
        let (need_credit, idx) =
              (case pq_next q of
                 None \<Rightarrow> (True, 0)
               | Some n \<Rightarrow> (False, if n \<ge> length (pq_active q) then 0 else n));
            q = q\<lparr>pq_next := Some idx\<rparr>;
            q = (if need_credit then credit (pq_active q ! idx) q else q)
        in map_option (\<lambda>(info, q). (Some info, q)) (pop_loop idx q))"

section \<open>CoDel\<close>

abbreviation set_codel :: "(codel \<Rightarrow> codel) \<Rightarrow> packet_queue \<Rightarrow> packet_queue" where
  "set_codel f q \<equiv> q\<lparr>pq_codel := f (pq_codel q)\<rparr>"

definition codel_should_drop :: "pq_packet_info option \<Rightarrow> instant \<Rightarrow> packet_queue \<Rightarrow> bool \<times> packet_queue" where
  "codel_should_drop info now q =
     (case info of
        None \<Rightarrow> (False, set_codel (cd_first_above_time_update (\<lambda>_. None)) q)
      | Some pkt \<Rightarrow>
          let sojourn = now - qi_time pkt
          in if sojourn < CODEL_TARGET \<or> pq_count q \<le> 1
             then (False, set_codel (cd_first_above_time_update (\<lambda>_. None)) q)
             else (case cd_first_above_time (pq_codel q) of
                     None \<Rightarrow> (False, set_codel (cd_first_above_time_update (\<lambda>_. Some (now + CODEL_INTERVAL))) q)
                   | Some fat \<Rightarrow> (now > fat, q)))"

text \<open>The dropping loop; each round discards the packet at hand and takes the next one.\<close>

partial_function (option) codel_drop_loop ::
  "(u32 \<Rightarrow> duration) \<Rightarrow> instant \<Rightarrow> pq_packet_info option \<Rightarrow> packet_queue \<Rightarrow> (pq_packet_info option \<times> packet_queue) option" where
  "codel_drop_loop law now info q =
     (if cd_dropping (pq_codel q) \<and> (case cd_drop_next (pq_codel q) of None \<Rightarrow> False | Some dn \<Rightarrow> now \<ge> dn) then
        Option.bind (pop_info (set_codel (cd_count_update (\<lambda>c. c + 1)) q)) (\<lambda>(info, q).
          let (drop, q) = codel_should_drop info now q;
              q = (if \<not> drop then set_codel (cd_dropping_update (\<lambda>_. False)) q
                   else set_codel (\<lambda>c. c\<lparr>cd_drop_next := map_option (\<lambda>dn. codel_control_law law dn (cd_count c)) (cd_drop_next c)\<rparr>) q)
          in codel_drop_loop law now info q)
      else Some (info, q))"

definition codel_enter :: "(u32 \<Rightarrow> duration) \<Rightarrow> instant \<Rightarrow> codel \<Rightarrow> codel" where
  "codel_enter law now c =
     (let delta = cd_count c - cd_lastcount c;
          count = (if delta > 1 \<and> (case cd_drop_next c of None \<Rightarrow> False
                     | Some dn \<Rightarrow> signed_nanos now dn < 16 * int CODEL_INTERVAL) then delta else 1)
      in c\<lparr>cd_dropping := True, cd_count := count, cd_lastcount := count,
           cd_drop_next := Some (codel_control_law law now count)\<rparr>)"

definition pop_codel :: "(u32 \<Rightarrow> duration) \<Rightarrow> instant \<Rightarrow> packet_queue \<Rightarrow> (traffic_packet option \<times> packet_queue) option" where
  "pop_codel law now q =
     Option.bind (pop_info q) (\<lambda>(info, q).
       if info = None then Some (None, set_codel (cd_dropping_update (\<lambda>_. False)) q)
       else
         let (drop, q) = codel_should_drop info now q;
             c = pq_codel q
         in map_option (\<lambda>(info, q). (map_option qi_packet info, q))
           (if cd_dropping c then
              (if \<not> drop then Some (info, set_codel (cd_dropping_update (\<lambda>_. False)) q)
               else codel_drop_loop law now info q)
            else if drop \<and> ((case cd_drop_next c of None \<Rightarrow> False | Some dn \<Rightarrow> signed_nanos now dn < int CODEL_INTERVAL) \<or>
                            (case cd_first_above_time c of None \<Rightarrow> False | Some fat \<Rightarrow> signed_nanos now fat \<ge> int CODEL_INTERVAL))
            then Option.bind (pop_info q) (\<lambda>(info, q).
                   let (_, q) = codel_should_drop info now q
                   in Some (info, set_codel (codel_enter law now) q))
            else Some (info, q)))"

section \<open>The delivery queue\<close>

record delivery_queue =
  dq_queue :: packet_queue
  dq_recv_ready :: u64

definition delivery_queue_new :: "u64 \<Rightarrow> delivery_queue" where
  "delivery_queue_new quantum = \<lparr>dq_queue = packet_queue_new quantum, dq_recv_ready = 0\<rparr>"

text \<open>\<open>deliver\<close> first looks at the counter, without the lock, and then acts on what it saw.\<close>

definition deliver_check :: "delivery_queue \<Rightarrow> bool" where
  "deliver_check d \<longleftrightarrow> dq_recv_ready d > 0"

definition deliver_act :: "instant \<Rightarrow> bool \<Rightarrow> traffic_packet \<Rightarrow> delivery_queue \<Rightarrow> traffic_packet option \<times> delivery_queue" where
  "deliver_act now waiting packet d =
     (if waiting then (Some packet, d\<lparr>dq_recv_ready := dq_recv_ready d - 1\<rparr>)
      else (None, d\<lparr>dq_queue := pq_push now packet (dq_queue d)\<rparr>))"

definition deliver :: "instant \<Rightarrow> traffic_packet \<Rightarrow> delivery_queue \<Rightarrow> traffic_packet option \<times> delivery_queue" where
  "deliver now packet d = deliver_act now (deliver_check d) packet d"

definition queue_size :: "delivery_queue \<Rightarrow> u64" where
  "queue_size d = pq_size (dq_queue d)"

definition try_pop :: "(u32 \<Rightarrow> duration) \<Rightarrow> instant \<Rightarrow> delivery_queue \<Rightarrow> (traffic_packet option \<times> delivery_queue) option" where
  "try_pop law now d = map_option (\<lambda>(p, q). (p, d\<lparr>dq_queue := q\<rparr>)) (pop_codel law now (dq_queue d))"

definition try_pop_or_wait :: "(u32 \<Rightarrow> duration) \<Rightarrow> instant \<Rightarrow> delivery_queue \<Rightarrow> (traffic_packet option \<times> delivery_queue) option" where
  "try_pop_or_wait law now d =
     map_option (\<lambda>(p, q). if p \<noteq> None then (p, d\<lparr>dq_queue := q\<rparr>)
                          else (None, d\<lparr>dq_queue := q, dq_recv_ready := dq_recv_ready d + 1\<rparr>))
       (pop_codel law now (dq_queue d))"

section \<open>The ring\<close>

definition ring_index :: "packet_queue \<Rightarrow> flow_key \<Rightarrow> nat option" where
  "ring_index q k = Option.bind (hm_get (pq_flows q) k) fl_index"

text \<open>The positions stored in the flows are exactly the positions on the ring, and the cursor, if
  set, points into the ring.\<close>

definition ring_ok :: "packet_queue \<Rightarrow> bool" where
  "ring_ok q \<longleftrightarrow> (\<forall>k i. ring_index q k = Some i \<longleftrightarrow> i < length (pq_active q) \<and> pq_active q ! i = k) \<and>
     (\<forall>n. pq_next q = Some n \<longrightarrow> n < length (pq_active q))"

definition cursor :: "packet_queue \<Rightarrow> flow_key option" where
  "cursor q = map_option (\<lambda>n. pq_active q ! n) (pq_next q)"

lemma ring_indexD: "ring_ok q \<Longrightarrow> ring_index q k = Some i \<Longrightarrow> i < length (pq_active q) \<and> pq_active q ! i = k"
  unfolding ring_ok_def by blast

lemma ring_indexI: "ring_ok q \<Longrightarrow> i < length (pq_active q) \<Longrightarrow> ring_index q (pq_active q ! i) = Some i"
  unfolding ring_ok_def by blast

lemma ring_nth_eq: "ring_ok q \<Longrightarrow> i < length (pq_active q) \<Longrightarrow> j < length (pq_active q) \<Longrightarrow>
    pq_active q ! i = pq_active q ! j \<Longrightarrow> i = j"
  by (metis option.inject ring_indexI)

lemma ring_index_active: "ring_ok q \<Longrightarrow> ring_index q k \<noteq> None \<longleftrightarrow> k \<in> set (pq_active q)"
  using ring_indexI [of q] ring_indexD [of q k] by (cases "ring_index q k") (fastforce simp: in_set_conv_nth)+

text \<open>Changes of positions only: ring, cursor and the stored positions.\<close>

definition static :: "packet_queue \<Rightarrow> packet_queue" where
  "static q = q\<lparr>pq_flows := [], pq_active := [], pq_next := None\<rparr>"

definition reindexed :: "packet_queue \<Rightarrow> packet_queue \<Rightarrow> bool" where
  "reindexed q q' \<longleftrightarrow>
     (\<exists>h. (\<forall>k f. fl_infos (h k f) = fl_infos f \<and> fl_size (h k f) = fl_size f \<and> fl_deficit (h k f) = fl_deficit f) \<and>
          pq_flows q' = hm_map h (pq_flows q)) \<and> static q' = static q"

lemma static_ring [simp]:
  "static (q\<lparr>pq_flows := x\<rparr>) = static q" "static (q\<lparr>pq_active := y\<rparr>) = static q" "static (q\<lparr>pq_next := z\<rparr>) = static q"
  by (simp_all add: static_def)

lemma hm_modify_map: "hm_modify k g m = hm_map (\<lambda>k' v. if k' = k then g v else v) m"
  by (induction m) (auto simp: hm_modify_def hm_map_def)

lemma hm_map_map: "hm_map g (hm_map h m) = hm_map (\<lambda>k v. g k (h k v)) m"
  by (induction m) (auto simp: hm_map_def)

lemma hm_map_id: "hm_map (\<lambda>k v. v) m = m"
  by (induction m) (auto simp: hm_map_def)

lemma reindexedI:
  "(\<And>k f. fl_infos (h k f) = fl_infos f \<and> fl_size (h k f) = fl_size f \<and> fl_deficit (h k f) = fl_deficit f) \<Longrightarrow>
   pq_flows q' = hm_map h (pq_flows q) \<Longrightarrow> static q' = static q \<Longrightarrow> reindexed q q'"
  unfolding reindexed_def by blast

lemma reindexed_refl: "reindexed q q"
  by (rule reindexedI [of "\<lambda>k f. f"]) (simp_all add: hm_map_id)

lemma reindexed_trans:
  assumes "reindexed p q" "reindexed q r"
  shows "reindexed p r"
proof -
  obtain h where h: "\<And>k f. fl_infos (h k f) = fl_infos f \<and> fl_size (h k f) = fl_size f \<and> fl_deficit (h k f) = fl_deficit f"
    "pq_flows q = hm_map h (pq_flows p)" "static q = static p" using assms(1) unfolding reindexed_def by blast
  obtain g where g: "\<And>k f. fl_infos (g k f) = fl_infos f \<and> fl_size (g k f) = fl_size f \<and> fl_deficit (g k f) = fl_deficit f"
    "pq_flows r = hm_map g (pq_flows q)" "static r = static q" using assms(2) unfolding reindexed_def by blast
  show ?thesis
    by (rule reindexedI [of "\<lambda>k v. g k (h k v)"]) (simp_all add: h g hm_map_map)
qed

lemma reindexed_modify:
  "pq_flows q' = hm_modify k (\<lambda>f. f\<lparr>fl_index := i\<rparr>) (pq_flows q) \<Longrightarrow> static q' = static q \<Longrightarrow> reindexed q q'"
  by (rule reindexedI [of "\<lambda>k' f. if k' = k then f\<lparr>fl_index := i\<rparr> else f"]) (simp_all add: hm_modify_map)

lemma reindexed_ring: "pq_flows q' = pq_flows q \<Longrightarrow> static q' = static q \<Longrightarrow> reindexed q q'"
  by (rule reindexedI [of "\<lambda>k f. f"]) (simp_all add: hm_map_id)

lemma ring_remove_reindexed: "reindexed q (ring_remove key idx last_idx q)"
proof (cases "idx \<noteq> last_idx")
  case True
  let ?q = "q\<lparr>pq_active := (pq_active q)[idx := pq_active q ! last_idx],
    pq_flows := hm_modify (pq_active q ! last_idx) (\<lambda>f. f\<lparr>fl_index := Some idx\<rparr>) (pq_flows q)\<rparr>"
  have "reindexed q ?q" by (rule reindexed_modify) auto
  moreover have "reindexed ?q (ring_remove key idx last_idx q)"
    by (rule reindexed_modify) (auto simp: ring_remove_def True Let_def)
  ultimately show ?thesis by (rule reindexed_trans)
next
  case False
  then show ?thesis by (intro reindexed_modify) (auto simp: ring_remove_def Let_def)
qed

lemma fix_cursor_reindexed: "reindexed q (fix_cursor idx last_idx q)"
  by (rule reindexed_ring) (auto simp: fix_cursor_def Let_def split: option.splits)

lemma deactivate_reindexed: "reindexed q (deactivate key q)"
  using reindexed_trans [OF ring_remove_reindexed fix_cursor_reindexed] reindexed_refl
  by (auto simp: deactivate_def Let_def split: option.splits)

lemma activate_reindexed: "reindexed q (activate key q)"
  by (rule reindexed_modify) (auto simp: activate_def Let_def)

lemma deactivate_ring:
  assumes ok: "ring_ok q" and i: "ring_index q key = Some i"
  shows "ring_ok (deactivate key q) \<and> ring_index (deactivate key q) key = None \<and>
    (\<forall>k. k \<noteq> key \<longrightarrow> (ring_index (deactivate key q) k = None \<longleftrightarrow> ring_index q k = None)) \<and>
    (\<forall>c. cursor q = Some c \<longrightarrow> c \<noteq> key \<longrightarrow> cursor (deactivate key q) = Some c)"
proof -
  let ?A = "pq_active q" and ?q = "deactivate key q"
  let ?l = "length ?A - 1"
  let ?r = "ring_remove key i ?l q"
  have il: "i < length ?A" "?A ! i = key" using ring_indexD [OF ok i] by auto
  have q: "?q = fix_cursor i ?l ?r" using i il by (simp add: deactivate_def ring_index_def Let_def)
  have act: "pq_active ?q = butlast (?A[i := ?A ! ?l])"
    using il by (cases "i = ?l") (auto simp: q fix_cursor_def ring_remove_def Let_def split: option.splits)
  have len: "length (pq_active ?q) = ?l" by (simp add: act)
  have nth: "pq_active ?q ! j = (if j = i then ?A ! ?l else ?A ! j)" if "j < ?l" for j
    using that il by (simp add: act nth_butlast nth_list_update)
  have idx: "ring_index ?q k = (if k = key then None else if k = ?A ! ?l then Some i else ring_index q k)" for k
  proof -
    have flows: "pq_flows ?q = pq_flows ?r" by (auto simp: q fix_cursor_def Let_def split: option.splits)
    have "ring_index q (?A ! ?l) = Some ?l" using il by (intro ring_indexI [OF ok]) simp
    then obtain lf where lf: "hm_get (pq_flows q) (?A ! ?l) = Some lf" "fl_index lf = Some ?l"
      by (cases "hm_get (pq_flows q) (?A ! ?l)") (auto simp: ring_index_def)
    show ?thesis
      using lf il unfolding ring_index_def flows
      by (cases "hm_get (pq_flows q) k"; cases "i = ?l") (auto simp: ring_remove_def Let_def)
  qed
  have nx: "n < length ?A" if "pq_next q = Some n" for n using ok that unfolding ring_ok_def by blast
  have r: "pq_next ?r = pq_next q" "length (pq_active ?r) = ?l" by (auto simp: ring_remove_def Let_def)
  then have empty: "pq_active ?r = [] \<longleftrightarrow> ?l = 0" by (metis length_0_conv)
  have nxt: "pq_next ?q = (if ?l = 0 then None else if pq_next q = Some ?l then (if i = ?l then Some 0 else Some i) else pq_next q)"
  proof (cases "pq_next q")
    case None
    then show ?thesis unfolding q using r empty by (simp add: fix_cursor_def)
  next
    case (Some n)
    then show ?thesis unfolding q using r empty nx [OF Some] il(1) by (auto simp: fix_cursor_def Let_def)
  qed
  have inj: "?A ! a = ?A ! b \<longleftrightarrow> a = b" if "a < length ?A" "b < length ?A" for a b
    using ring_nth_eq [OF ok that] by auto
  have last: "?l < length ?A" using il(1) by simp
  have "ring_index ?q k = Some j \<longleftrightarrow> j < length (pq_active ?q) \<and> pq_active ?q ! j = k" for k j
  proof (cases "j = i")
    case True
    show ?thesis
      using inj [OF il(1) last] il last nth [of i] ring_indexD [OF ok, of k i] unfolding idx len True
      by (cases "i = ?l") auto
  next
    case False
    then have "ring_index ?q k = Some j \<longleftrightarrow> k \<noteq> key \<and> k \<noteq> ?A ! ?l \<and> j < length ?A \<and> ?A ! j = k"
      using ok by (auto simp: idx ring_ok_def)
    also have "\<dots> \<longleftrightarrow> j < ?l \<and> ?A ! j = k"
      using inj [OF _ il(1), of j] inj [OF _ last, of j] il False by (cases "j < length ?A") auto
    finally show ?thesis using nth [of j] False by (auto simp: len)
  qed
  moreover have "n < length (pq_active ?q)" if n: "pq_next ?q = Some n" for n
  proof (cases "pq_next q")
    case None
    then show ?thesis using n nxt by (auto split: if_splits)
  next
    case (Some m)
    then show ?thesis using n nxt nx [OF Some] len il(1) by (auto split: if_splits)
  qed
  ultimately have "ring_ok ?q" unfolding ring_ok_def by blast
  moreover have "ring_index ?q k = None \<longleftrightarrow> ring_index q k = None" if "k \<noteq> key" for k
    using that idx [of k] ring_indexI [OF ok last] by auto
  moreover have "cursor ?q = Some c" if c: "cursor q = Some c" "c \<noteq> key" for c
  proof -
    obtain n where n: "pq_next q = Some n" "?A ! n = c" using c(1) by (auto simp: cursor_def)
    have "n \<noteq> i" using n(2) c(2) il(2) by auto
    then have "?l \<noteq> 0" using nx [OF n(1)] il(1) by auto
    then show ?thesis
      using n \<open>n \<noteq> i\<close> nx [OF n(1)] nth [of n] nth [of i] nxt il(1)
      by (cases "n = ?l") (auto simp: cursor_def)
  qed
  ultimately show ?thesis by (simp add: idx)
qed

section \<open>The invariant of the queue\<close>

definition bytes_of :: "pq_packet_info list \<Rightarrow> nat" where
  "bytes_of infos = sum_list (map (\<lambda>i. unat (qi_size i)) infos)"

definition total_bytes :: "packet_queue \<Rightarrow> nat" where
  "total_bytes q = sum_list (map (\<lambda>(_, f). bytes_of (fl_infos f)) (pq_flows q))"

definition contents :: "packet_queue \<Rightarrow> flow_key \<Rightarrow> pq_packet_info list" where
  "contents q k = (case hm_get (pq_flows q) k of None \<Rightarrow> [] | Some f \<Rightarrow> fl_infos f)"

text \<open>The caps of a queue do not overflow.\<close>

definition caps_ok :: "packet_queue \<Rightarrow> bool" where
  "caps_ok q \<longleftrightarrow> 0 < unat (pq_quantum q) \<and> 128 * unat (pq_quantum q) < 2 ^ 64 \<and>
     unat (pq_max_bytes_total q) = 64 * unat (pq_quantum q) \<and>
     unat (pq_max_bytes_per_flow q) = 16 * unat (pq_quantum q)"

text \<open>A flow holds packets of its own key, of positive size and at most four quanta each; its byte
  count is right and below the cap; it is on the ring exactly when it holds packets; and its credit
  is at most four quanta, five at the cursor.\<close>

definition flow_ok :: "packet_queue \<Rightarrow> flow_key \<Rightarrow> flow \<Rightarrow> bool" where
  "flow_ok q k f \<longleftrightarrow>
     (\<forall>i\<in>set (fl_infos f). packet_key (qi_packet i) = k \<and> 0 < unat (qi_size i) \<and> unat (qi_size i) \<le> 4 * unat (pq_quantum q)) \<and>
     fl_size f = of_nat (bytes_of (fl_infos f)) \<and> bytes_of (fl_infos f) \<le> 16 * unat (pq_quantum q) \<and>
     (fl_index f = None \<longleftrightarrow> fl_infos f = []) \<and>
     unat (fl_deficit f) \<le> (if cursor q = Some k then 5 else 4) * unat (pq_quantum q)"

text \<open>\<open>E\<close> are the flows that may be empty: none between operations, the flow of the new packet while
  \<open>push\<close> makes room.\<close>

definition pq_inv :: "flow_key set \<Rightarrow> packet_queue \<Rightarrow> bool" where
  "pq_inv E q \<longleftrightarrow> caps_ok q \<and> hm_wf (pq_flows q) \<and> ring_ok q \<and>
     (\<forall>k f. hm_get (pq_flows q) k = Some f \<longrightarrow> flow_ok q k f \<and> (fl_infos f = [] \<longrightarrow> k \<in> E)) \<and>
     pq_size q = of_nat (total_bytes q) \<and> total_bytes q \<le> 64 * unat (pq_quantum q) \<and>
     pq_count q = pq_packets q"

lemma pq_invD:
  assumes "pq_inv E q"
  shows "caps_ok q" "hm_wf (pq_flows q)" "ring_ok q" "pq_size q = of_nat (total_bytes q)"
    "total_bytes q \<le> 64 * unat (pq_quantum q)" "pq_count q = pq_packets q"
    "hm_get (pq_flows q) k = Some f \<Longrightarrow> flow_ok q k f" "hm_get (pq_flows q) k = Some f \<Longrightarrow> fl_infos f = [] \<Longrightarrow> k \<in> E"
  using assms unfolding pq_inv_def by auto

lemma sum_hm_map: "sum_list (map (\<lambda>(_, v). g v) (hm_map h m)) = sum_list (map (\<lambda>(k, v). g (h k v)) m)"
  by (induction m) (auto simp: hm_map_def)

lemma sum_hm_remove:
  fixes g :: "'v \<Rightarrow> nat"
  assumes "hm_wf m" "hm_get m k = Some v"
  shows "sum_list (map (\<lambda>(_, v). g v) (hm_remove k m)) + g v = sum_list (map (\<lambda>(_, v). g v) m)"
  using assms
proof (induction m)
  case (Cons kv m)
  show ?case
  proof (cases "fst kv = k")
    case True
    then have "k \<notin> fst ` set m" using Cons.prems(1) by auto
    then have "hm_remove k m = m"
      by (force simp: hm_remove_def AList.delete_eq intro!: filter_True)
    then show ?thesis using True Cons.prems(2) by (cases kv) (simp add: hm_remove_def AList.delete_eq)
  next
    case False
    then show ?thesis using Cons by (cases kv) (simp add: hm_remove_def AList.delete_eq)
  qed
qed simp

lemma sum_hm_modify_get:
  fixes g :: "'v \<Rightarrow> nat"
  assumes "hm_wf m" "hm_get m k = Some v"
  shows "sum_list (map (\<lambda>(_, v). g v) (hm_modify k h m)) + g v = sum_list (map (\<lambda>(_, v). g v) m) + g (h v)"
  using assms
proof (induction m)
  case (Cons kv m)
  show ?case
  proof (cases "fst kv = k")
    case True
    then have "k \<notin> fst ` set m" using Cons.prems(1) by auto
    then have "hm_modify k h m = m" by (induction m) (auto simp: hm_modify_def)
    then show ?thesis using True Cons.prems(2) by (cases kv) (simp add: hm_modify_def)
  next
    case False
    then show ?thesis using Cons by (cases kv) (simp add: hm_modify_def)
  qed
qed simp

lemma sum_hm_get_le:
  fixes g :: "'v \<Rightarrow> nat"
  shows "hm_get m k = Some v \<Longrightarrow> g v \<le> sum_list (map (\<lambda>(_, v). g v) m)"
  by (induction m) (auto split: if_splits simp: trans_le_add2)

lemma sum_hm_insert_new:
  fixes g :: "'v \<Rightarrow> nat"
  shows "hm_get m k = None \<Longrightarrow> sum_list (map (\<lambda>(_, v). g v) (hm_insert k v m)) = sum_list (map (\<lambda>(_, v). g v) m) + g v"
  by (induction m) (auto simp: hm_insert_def split: if_splits)

text \<open>Changes of positions keep all that the invariant says about packets.\<close>

lemma reindexed_facts:
  assumes "reindexed q q'"
  shows "contents q' = contents q" "total_bytes q' = total_bytes q" "pq_packets q' = pq_packets q"
    "hm_keys (pq_flows q') = hm_keys (pq_flows q)" "static q' = static q"
    "hm_get (pq_flows q') k = Some f' \<Longrightarrow> \<exists>f. hm_get (pq_flows q) k = Some f \<and> fl_infos f' = fl_infos f \<and>
       fl_size f' = fl_size f \<and> fl_deficit f' = fl_deficit f"
proof -
  obtain h where h: "\<And>k f. fl_infos (h k f) = fl_infos f \<and> fl_size (h k f) = fl_size f \<and> fl_deficit (h k f) = fl_deficit f"
    "pq_flows q' = hm_map h (pq_flows q)" and st: "static q' = static q"
    using assms unfolding reindexed_def by blast
  show "contents q' = contents q" by (rule ext) (simp add: contents_def h split: option.splits)
  show "total_bytes q' = total_bytes q" "pq_packets q' = pq_packets q"
    by (simp_all add: total_bytes_def pq_packets_def h sum_hm_map)
  show "hm_keys (pq_flows q') = hm_keys (pq_flows q)" by (simp add: h(2))
  show "static q' = static q" by (rule st)
  show "hm_get (pq_flows q') k = Some f' \<Longrightarrow> \<exists>f. hm_get (pq_flows q) k = Some f \<and> fl_infos f' = fl_infos f \<and>
       fl_size f' = fl_size f \<and> fl_deficit f' = fl_deficit f"
    by (auto simp: h)
qed

lemma static_fields:
  assumes "static q' = static q"
  shows "pq_size q' = pq_size q" "pq_count q' = pq_count q" "pq_max_bytes_total q' = pq_max_bytes_total q"
    "pq_max_bytes_per_flow q' = pq_max_bytes_per_flow q" "pq_quantum q' = pq_quantum q" "pq_codel q' = pq_codel q"
  using assms by (cases q; cases q'; simp add: static_def)+

lemma remove_flow_effect:
  assumes ok: "ring_ok q" and wf: "hm_wf (pq_flows q)" and f: "hm_get (pq_flows q) key = Some f" "fl_index f \<noteq> None"
    and q': "q' = remove_flow_if_empty key q"
  shows "ring_ok q'" "hm_wf (pq_flows q')" "static q' = static q" "contents q' = contents q"
    "total_bytes q' = total_bytes q" "pq_packets q' = pq_packets q"
    "hm_get (pq_flows q') k = Some f' \<Longrightarrow> (k = key \<longrightarrow> fl_infos f \<noteq> []) \<and> (\<exists>f0. hm_get (pq_flows q) k = Some f0 \<and>
       fl_infos f' = fl_infos f0 \<and> fl_size f' = fl_size f0 \<and> fl_deficit f' = fl_deficit f0 \<and>
       (fl_index f' = None \<longleftrightarrow> fl_index f0 = None))"
    "cursor q = Some c \<Longrightarrow> c \<noteq> key \<Longrightarrow> cursor q' = Some c" "fl_infos f \<noteq> [] \<Longrightarrow> q' = q"
proof -
  show same: "fl_infos f \<noteq> [] \<Longrightarrow> q' = q" using f q' by (simp add: remove_flow_if_empty_def)
  let ?d = "deactivate key q"
  note re = reindexed_facts [OF deactivate_reindexed [of q key]]
  obtain i where i: "ring_index q key = Some i" using f by (auto simp: ring_index_def)
  have rok: "ring_ok ?d" and rkey: "ring_index ?d key = None"
    and rother: "\<And>k. k \<noteq> key \<Longrightarrow> ring_index ?d k = None \<longleftrightarrow> ring_index q k = None"
    and rcur: "\<And>c. cursor q = Some c \<Longrightarrow> c \<noteq> key \<Longrightarrow> cursor ?d = Some c"
    using deactivate_ring [OF ok i] by blast+
  have emptied: "q' = ?d\<lparr>pq_flows := hm_remove key (pq_flows ?d)\<rparr>" if "fl_infos f = []"
    using f q' that by (simp add: remove_flow_if_empty_def Let_def)
  have idx: "ring_index q' k = ring_index ?d k" if "fl_infos f = []" for k
    using rkey unfolding emptied [OF that] by (simp add: ring_index_def)
  obtain fd where fd: "hm_get (pq_flows ?d) key = Some fd" "fl_infos fd = fl_infos f"
  proof -
    have "key \<in> set (hm_keys (pq_flows ?d))" unfolding re(4) using f(1) by (rule hm_get_Some_key)
    from hm_get_SomeI [OF this] obtain fd where fd: "hm_get (pq_flows ?d) key = Some fd" ..
    from re(6) [OF fd] obtain f0 where "hm_get (pq_flows q) key = Some f0" "fl_infos fd = fl_infos f0" by blast
    with f(1) have "fl_infos fd = fl_infos f" by simp
    with fd show ?thesis by (rule that)
  qed
  have wfd: "hm_wf (pq_flows ?d)" using wf unfolding re(4) .
  show "ring_ok q'"
  proof (cases "fl_infos f = []")
    case True
    have "pq_active q' = pq_active ?d" "pq_next q' = pq_next ?d" by (simp_all add: emptied [OF True])
    then show ?thesis using rok unfolding ring_ok_def idx [OF True] by simp
  qed (use same ok in simp)
  show "hm_wf (pq_flows q')" using wf wfd same emptied by (cases "fl_infos f = []") auto
  show "static q' = static q" using same emptied re(5) by (cases "fl_infos f = []") auto
  show "contents q' = contents q"
  proof (cases "fl_infos f = []")
    case True
    then have "contents q' = contents ?d" using fd by (auto simp: emptied [OF True] contents_def fun_eq_iff)
    then show ?thesis by (simp add: re(1))
  qed (use same in simp)
  show "total_bytes q' = total_bytes q" "pq_packets q' = pq_packets q"
    using same emptied re(2,3) sum_hm_remove [OF wfd fd(1), of "\<lambda>f. bytes_of (fl_infos f)"]
      sum_hm_remove [OF wfd fd(1), of "\<lambda>f. length (fl_infos f)"] fd(2)
    by (cases "fl_infos f = []"; simp add: total_bytes_def pq_packets_def bytes_of_def)+
  show "cursor q = Some c \<Longrightarrow> c \<noteq> key \<Longrightarrow> cursor q' = Some c"
  proof (cases "fl_infos f = []")
    case True
    have "cursor q' = cursor ?d" by (simp add: emptied [OF True] cursor_def)
    then show "cursor q = Some c \<Longrightarrow> c \<noteq> key \<Longrightarrow> cursor q' = Some c" using rcur by simp
  qed (use same in simp)
  show "(k = key \<longrightarrow> fl_infos f \<noteq> []) \<and> (\<exists>f0. hm_get (pq_flows q) k = Some f0 \<and>
       fl_infos f' = fl_infos f0 \<and> fl_size f' = fl_size f0 \<and> fl_deficit f' = fl_deficit f0 \<and>
       (fl_index f' = None \<longleftrightarrow> fl_index f0 = None))" if g: "hm_get (pq_flows q') k = Some f'"
  proof (cases "fl_infos f = []")
    case True
    with g have k: "k \<noteq> key" "hm_get (pq_flows ?d) k = Some f'"
      by (simp_all add: emptied [OF True] split: if_splits)
    from re(6) [OF k(2)] obtain f0 where f0: "hm_get (pq_flows q) k = Some f0" "fl_infos f' = fl_infos f0"
      "fl_size f' = fl_size f0" "fl_deficit f' = fl_deficit f0" by blast
    have "ring_index ?d k = None \<longleftrightarrow> ring_index q k = None" by (rule rother [OF k(1)])
    then have "fl_index f' = None \<longleftrightarrow> fl_index f0 = None" using k(2) f0(1) by (simp add: ring_index_def)
    with f0 k(1) show ?thesis by simp
  next
    case False
    have "hm_get (pq_flows q) k = Some f'" using g unfolding same [OF False] .
    then show ?thesis using False by blast
  qed
qed

text \<open>What the removal of the head packet of a flow does.\<close>

lemma take_head_flows:
  "hm_get (pq_flows q) key = Some f \<Longrightarrow> hm_get (pq_flows (take_head key info q)) k =
     (if k = key then Some (f\<lparr>fl_infos := tl (fl_infos f), fl_size := fl_size f - qi_size info,
        fl_deficit := (if fl_deficit f > pq_quantum q * 4 then pq_quantum q * 4 else fl_deficit f)\<rparr>)
      else hm_get (pq_flows q) k)"
  by (simp add: take_head_def Let_def)

lemma take_head_other:
  "pq_active (take_head key info q) = pq_active q" "pq_next (take_head key info q) = pq_next q"
  "cursor (take_head key info q) = cursor q" "ring_index (take_head key info q) k = ring_index q k"
  "hm_keys (pq_flows (take_head key info q)) = hm_keys (pq_flows q)"
  "pq_size (take_head key info q) = pq_size q - qi_size info" "pq_count (take_head key info q) = pq_count q - 1"
  "pq_quantum (take_head key info q) = pq_quantum q" "pq_codel (take_head key info q) = pq_codel q"
  "caps_ok (take_head key info q) = caps_ok q"
  by (auto simp: take_head_def cursor_def ring_index_def caps_ok_def Let_def split: option.splits bind_splits)

lemma take_head_sums:
  assumes "hm_wf (pq_flows q)" "hm_get (pq_flows q) key = Some f" "fl_infos f = info # rest"
  shows "total_bytes q = total_bytes (take_head key info q) + unat (qi_size info)"
    "pq_packets q = pq_packets (take_head key info q) + 1"
proof -
  let ?h = "\<lambda>f. f\<lparr>fl_infos := tl (fl_infos f), fl_size := fl_size f - qi_size info,
     fl_deficit := (if fl_deficit f > pq_quantum q * 4 then pq_quantum q * 4 else fl_deficit f)\<rparr>"
  have "pq_flows (take_head key info q) = hm_modify key ?h (pq_flows q)" by (simp add: take_head_def Let_def)
  then show "total_bytes q = total_bytes (take_head key info q) + unat (qi_size info)"
    "pq_packets q = pq_packets (take_head key info q) + 1"
    using sum_hm_modify_get [OF assms(1,2), of "\<lambda>f. bytes_of (fl_infos f)" ?h]
      sum_hm_modify_get [OF assms(1,2), of "\<lambda>f. length (fl_infos f)" ?h] assms(3)
    by (simp_all add: total_bytes_def pq_packets_def bytes_of_def)
qed

lemma caps_ok_static: "static q' = static q \<Longrightarrow> caps_ok q' = caps_ok q"
  using static_fields [of q' q] by (simp add: caps_ok_def)

lemma caps_quantum: "caps_ok q \<Longrightarrow> unat (pq_quantum q * 4) = 4 * unat (pq_quantum q)"
  using unat_mult_lem [of "pq_quantum q" 4] by (simp add: caps_ok_def)

lemma bytes_of_Cons [simp]: "bytes_of (i # is) = unat (qi_size i) + bytes_of is"
  by (simp add: bytes_of_def)

lemma bytes_of_append [simp]: "bytes_of (is @ js) = bytes_of is + bytes_of js"
  by (simp add: bytes_of_def)

lemma bytes_of_Nil [simp]: "bytes_of [] = 0"
  by (simp add: bytes_of_def)

lemma drop_from_effect:
  assumes inv: "pq_inv E q" and d: "drop_from key q = (Some info, q')"
  shows "pq_inv E q'" "contents q key = info # contents q' key" "k \<noteq> key \<Longrightarrow> contents q' k = contents q k"
    "pq_codel q' = pq_codel q" "pq_quantum q' = pq_quantum q" "pq_max_bytes_total q' = pq_max_bytes_total q"
    "pq_max_bytes_per_flow q' = pq_max_bytes_per_flow q" "total_bytes q = total_bytes q' + unat (qi_size info)"
    "cursor q = Some c \<Longrightarrow> c \<noteq> key \<Longrightarrow> cursor q' = Some c"
    "hm_get (pq_flows q') key = Some f' \<Longrightarrow> \<exists>f. hm_get (pq_flows q) key = Some f \<and>
       fl_deficit f' = (if fl_deficit f > pq_quantum q * 4 then pq_quantum q * 4 else fl_deficit f)"
    "pq_count q = Suc (pq_count q')"
proof -
  obtain f rest where f: "hm_get (pq_flows q) key = Some f" "fl_infos f = info # rest"
    "q' = remove_flow_if_empty key (take_head key info q)" using d by (rule drop_from_Some)
  let ?q = "take_head key info q"
  let ?f = "f\<lparr>fl_infos := tl (fl_infos f), fl_size := fl_size f - qi_size info,
     fl_deficit := (if fl_deficit f > pq_quantum q * 4 then pq_quantum q * 4 else fl_deficit f)\<rparr>"
  note D = pq_invD [OF inv]
  note flows = take_head_flows [OF f(1), of info]
  have fo: "flow_ok q key f" by (rule D(7) [OF f(1)])
  have ring: "ring_ok ?q" using D(3) unfolding ring_ok_def take_head_other .
  have wf: "hm_wf (pq_flows ?q)" using D(2) by (simp only: take_head_other)
  have ix: "fl_index ?f \<noteq> None" using fo f(2) by (simp add: flow_ok_def)
  have getf: "hm_get (pq_flows ?q) key = Some ?f" by (simp add: flows)
  note R = remove_flow_effect [OF ring wf getf ix f(3)]
  note st = static_fields [OF R(3)]
  note sums = take_head_sums [OF D(2) f(1,2)]
  show "pq_codel q' = pq_codel q" "pq_quantum q' = pq_quantum q"
    using st by (simp_all add: take_head_other)
  show "pq_max_bytes_total q' = pq_max_bytes_total q" "pq_max_bytes_per_flow q' = pq_max_bytes_per_flow q"
    using st by (simp_all add: take_head_def Let_def)
  show bytes: "total_bytes q = total_bytes q' + unat (qi_size info)" using sums(1) R(5) by simp
  show "contents q key = info # contents q' key" using R(4) f by (simp add: contents_def flows)
  show "k \<noteq> key \<Longrightarrow> contents q' k = contents q k" for k using R(4) by (simp add: contents_def flows)
  show cur: "cursor q = Some c \<Longrightarrow> c \<noteq> key \<Longrightarrow> cursor q' = Some c" for c
    using R(8) by (simp add: take_head_other)
  show "\<exists>f. hm_get (pq_flows q) key = Some f \<and>
       fl_deficit f' = (if fl_deficit f > pq_quantum q * 4 then pq_quantum q * 4 else fl_deficit f)"
    if "hm_get (pq_flows q') key = Some f'" for f'
    using R(7) [OF that] f(1) by (auto simp: flows)
  show "pq_count q = Suc (pq_count q')" using D(6) sums(2) st(2) by (simp add: take_head_other)
  have flows': "flow_ok q' k g \<and> (fl_infos g = [] \<longrightarrow> k \<in> E)" if g: "hm_get (pq_flows q') k = Some g" for k g
  proof -
    obtain g0 where g0: "hm_get (pq_flows ?q) k = Some g0" "fl_infos g = fl_infos g0" "fl_size g = fl_size g0"
      "fl_deficit g = fl_deficit g0" "fl_index g = None \<longleftrightarrow> fl_index g0 = None" "k = key \<longrightarrow> fl_infos ?f \<noteq> []"
      using R(7) [OF g] by (elim conjE exE) (rule that)
    have quant: "pq_quantum q' = pq_quantum q" using st by (simp add: take_head_other)
    show ?thesis
    proof (cases "k = key")
      case True
      then have "g0 = ?f" using g0(1) by (simp add: flows)
      moreover have "unat (fl_deficit ?f) \<le> 4 * unat (pq_quantum q)"
        using caps_quantum [OF D(1)] by (simp add: not_less word_le_nat_alt)
      moreover have "fl_size ?f = of_nat (bytes_of rest)" using fo f(2) by (simp add: flow_ok_def)
      ultimately show ?thesis
        using fo f(2) g0 True ix unfolding flow_ok_def quant by auto
    next
      case False
      then have q: "hm_get (pq_flows q) k = Some g0" using g0(1) by (simp add: flows)
      have "unat (fl_deficit g0) \<le> (if cursor q' = Some k then 5 else 4) * unat (pq_quantum q)"
        using D(7) [OF q] cur [of k] False by (auto simp: flow_ok_def split: if_splits)
      then show ?thesis
        using D(7) [OF q] D(8) [OF q] g0 unfolding flow_ok_def quant by simp
    qed
  qed
  have "pq_size q' = of_nat (total_bytes q')" using D(4) bytes st(1) by (simp add: take_head_other)
  moreover have "pq_count q' = pq_packets q'" using D(6) sums(2) st(2) R(6) by (simp add: take_head_other)
  moreover have "caps_ok q'" using D(1) caps_ok_static [OF R(3)] by (simp add: take_head_other)
  moreover have "total_bytes q' \<le> 64 * unat (pq_quantum q')" using D(5) bytes st by (simp add: take_head_other)
  ultimately show "pq_inv E q'" unfolding pq_inv_def using R(1,2) flows' by blast
qed

section \<open>Making room\<close>

text \<open>Evictions remove packets from the front of flows, and nothing else.\<close>

definition evicted :: "packet_queue \<Rightarrow> packet_queue \<Rightarrow> bool" where
  "evicted q q' \<longleftrightarrow> (\<forall>k. \<exists>n. contents q' k = drop n (contents q k)) \<and> pq_quantum q' = pq_quantum q \<and>
     pq_max_bytes_total q' = pq_max_bytes_total q \<and> pq_max_bytes_per_flow q' = pq_max_bytes_per_flow q \<and>
     pq_codel q' = pq_codel q"

lemma evicted_refl: "evicted q q"
  unfolding evicted_def by (auto intro: exI [of _ 0])

lemma evicted_trans: "evicted p q \<Longrightarrow> evicted q r \<Longrightarrow> evicted p r"
  unfolding evicted_def by (metis drop_drop)

lemma drop_from_evicted:
  assumes "pq_inv E q" "drop_from key q = (Some info, q')"
  shows "evicted q q'"
proof -
  note eff = drop_from_effect [OF assms]
  have "\<exists>n. contents q' k = drop n (contents q k)" for k
  proof (cases "k = key")
    case True
    then show ?thesis using eff(2) by (intro exI [of _ 1]) simp
  next
    case False
    then show ?thesis using eff(3) by (intro exI [of _ 0]) simp
  qed
  then show ?thesis unfolding evicted_def using eff(4-7) by blast
qed

lemma fits_iff: "m + unat s < 2 ^ 64 \<Longrightarrow> of_nat m + s \<le> c \<longleftrightarrow> m + unat s \<le> unat c" for s c :: u64
proof -
  assume m: "m + unat s < 2 ^ 64"
  then have "unat (of_nat m + s) = m + unat s"
    using unat_add_lem [of "of_nat m" s] by (simp add: unat_of_nat)
  then show ?thesis by (simp add: word_le_nat_alt)
qed

lemma contents_size:
  "pq_inv E q \<Longrightarrow> hm_get (pq_flows q) k = Some f \<Longrightarrow> fl_size f = of_nat (bytes_of (contents q k)) \<and> fl_infos f = contents q k"
  using pq_invD(7) [of E q k f] by (simp add: flow_ok_def contents_def)

lemma contents_bytes: "pq_inv E q \<Longrightarrow> bytes_of (contents q k) \<le> 16 * unat (pq_quantum q)"
  using pq_invD(7) [of E q k] by (auto simp: flow_ok_def contents_def split: option.splits)

lemma flow_cap_loop_effect:
  "pq_inv E q \<Longrightarrow> unat s \<le> 16 * unat (pq_quantum q) \<Longrightarrow>
   \<exists>q'. flow_cap_loop key s q = (True, q') \<and> pq_inv E q' \<and> evicted q q' \<and>
     bytes_of (contents q' key) + unat s \<le> 16 * unat (pq_quantum q) \<and>
     (bytes_of (contents q key) + unat s \<le> 16 * unat (pq_quantum q) \<longrightarrow> q' = q)"
proof (induction "pq_packets q" arbitrary: q rule: less_induct)
  case (less q)
  note D = pq_invD [OF less.prems(1)]
  show ?case
  proof (cases "hm_get (pq_flows q) key")
    case None
    then have "flow_cap_loop key s q = (True, q)" "contents q key = []"
      by (simp_all add: flow_cap_loop.simps [of key s q] contents_def)
    then show ?thesis using less.prems evicted_refl by simp
  next
    case (Some f)
    note c = contents_size [OF less.prems(1) Some]
    let ?b = "bytes_of (contents q key)"
    have fits: "fl_size f + s \<le> pq_max_bytes_per_flow q \<longleftrightarrow> ?b + unat s \<le> 16 * unat (pq_quantum q)"
      using c fits_iff [of ?b s "pq_max_bytes_per_flow q"] contents_bytes [OF less.prems(1), of key] D(1) less.prems(2)
      by (simp add: caps_ok_def)
    show ?thesis
    proof (cases "?b + unat s \<le> 16 * unat (pq_quantum q) \<or> contents q key = []")
      case True
      then have "flow_cap_loop key s q = (True, q)"
        using Some c fits by (auto simp: flow_cap_loop.simps [of key s q])
      then show ?thesis using True less.prems evicted_refl by auto
    next
      case False
      obtain info rest where i: "contents q key = info # rest" using False by (cases "contents q key") auto
      then obtain q1 where d: "drop_from key q = (Some info, q1)" using Some c by (simp add: drop_from_def)
      note eff = drop_from_effect [OF less.prems(1) d]
      have step: "flow_cap_loop key s q = flow_cap_loop key s q1"
        using Some c fits False d by (simp add: flow_cap_loop.simps [of key s q])
      have "\<exists>q'. flow_cap_loop key s q1 = (True, q') \<and> pq_inv E q' \<and> evicted q1 q' \<and>
          bytes_of (contents q' key) + unat s \<le> 16 * unat (pq_quantum q1) \<and>
          (bytes_of (contents q1 key) + unat s \<le> 16 * unat (pq_quantum q1) \<longrightarrow> q' = q1)"
        by (rule less.hyps [OF drop_from_packets [OF d] eff(1)]) (use eff(5) less.prems(2) in simp)
      then show ?thesis
        unfolding step eff(5) using False evicted_trans [OF drop_from_evicted [OF less.prems(1) d]] by blast
    qed
  qed
qed

lemma largest_loop_member: "largest_loop best xs = Some x \<Longrightarrow> x \<in> set xs \<or> best = Some x"
  by (induction best xs rule: largest_loop.induct) (auto split: if_splits)

lemma largest_loop_None: "largest_loop best xs = None \<Longrightarrow> best = None \<and> xs = []"
  by (induction best xs rule: largest_loop.induct) (auto split: if_splits)

lemma set_map_filter_iff: "y \<in> set (List.map_filter f xs) \<longleftrightarrow> (\<exists>x\<in>set xs. f x = Some y)"
  by (induction xs) (auto simp: List.map_filter_simps split: option.splits)

text \<open>A non-empty queue has a largest flow, and that flow has a packet to drop.\<close>

lemma drop_largest_drops:
  assumes inv: "pq_inv E q" and pos: "0 < total_bytes q"
  obtains key info q' where "drop_from key q = (Some info, q')" "drop_largest q = (True, q')"
proof -
  note D = pq_invD [OF inv]
  let ?g = "\<lambda>k. case hm_get (pq_flows q) k of None \<Rightarrow> None
    | Some f \<Rightarrow> (case fl_infos f of [] \<Rightarrow> None | h # _ \<Rightarrow> Some (k, fl_size f, qi_time h))"
  let ?L = "List.map_filter ?g (pq_active q)"
  obtain k f where kf: "(k, f) \<in> set (pq_flows q)" "fl_infos f \<noteq> []"
  proof (rule ccontr)
    assume "\<not> thesis"
    then have "\<forall>x\<in>set (pq_flows q). (\<lambda>(_, f). bytes_of (fl_infos f)) x = 0"
      using that by (force simp: bytes_of_def)
    then have "total_bytes q = 0" unfolding total_bytes_def sum_list_eq_0_iff by auto
    then show False using pos by simp
  qed
  then have g: "hm_get (pq_flows q) k = Some f" using D(2) by simp
  then have "ring_index q k \<noteq> None" using D(7) [OF g] kf(2) by (simp add: ring_index_def flow_ok_def)
  then have "k \<in> set (pq_active q)" using ring_index_active [OF D(3)] by blast
  moreover obtain y where "?g k = Some y" using g kf(2) by (cases "fl_infos f") auto
  ultimately have "y \<in> set ?L" by (auto simp: set_map_filter_iff)
  then have "?L \<noteq> []" by auto
  then obtain key s t where l: "largest_loop None ?L = Some (key, s, t)"
    using largest_loop_None [of None ?L] by (cases "largest_loop None ?L") auto
  then have "(key, s, t) \<in> set ?L" using largest_loop_member [of None ?L] by blast
  then obtain x where "?g x = Some (key, s, t)" unfolding set_map_filter_iff by blast
  then obtain f' where f': "hm_get (pq_flows q) key = Some f'" "fl_infos f' \<noteq> []"
    by (cases "hm_get (pq_flows q) x"; cases "fl_infos (the (hm_get (pq_flows q) x))") auto
  then obtain info q' where d: "drop_from key q = (Some info, q')"
    by (cases "fl_infos f'") (auto simp: drop_from_def)
  moreover have "drop_largest q = (True, q')" using l d by (simp add: drop_largest_def largest_flow_def)
  ultimately show ?thesis by (rule that)
qed

lemma total_cap_loop_effect:
  "pq_inv E q \<Longrightarrow> unat s \<le> 16 * unat (pq_quantum q) \<Longrightarrow>
   \<exists>q'. total_cap_loop s q = (True, q') \<and> pq_inv E q' \<and> evicted q q' \<and>
     total_bytes q' + unat s \<le> 64 * unat (pq_quantum q) \<and>
     (total_bytes q + unat s \<le> 64 * unat (pq_quantum q) \<longrightarrow> q' = q)"
proof (induction "pq_packets q" arbitrary: q rule: less_induct)
  case (less q)
  note D = pq_invD [OF less.prems(1)]
  have "pq_size q + s \<le> pq_max_bytes_total q \<longleftrightarrow> total_bytes q + unat s \<le> 64 * unat (pq_quantum q)"
    using D(1,4,5) fits_iff [of "total_bytes q" s "pq_max_bytes_total q"] less.prems(2)
    by (simp add: caps_ok_def)
  then have fits: "pq_size q + s > pq_max_bytes_total q \<longleftrightarrow> \<not> total_bytes q + unat s \<le> 64 * unat (pq_quantum q)"
    by (simp add: not_le [symmetric])
  have pos: "pq_size q > 0 \<longleftrightarrow> 0 < total_bytes q"
    using D(1,4,5) by (simp add: caps_ok_def word_less_nat_alt unat_of_nat)
  show ?case
  proof (cases "total_bytes q + unat s \<le> 64 * unat (pq_quantum q) \<or> total_bytes q = 0")
    case True
    then have "total_cap_loop s q = (True, q)" using fits pos by (auto simp: total_cap_loop.simps [of s q])
    then show ?thesis using True less.prems evicted_refl by auto
  next
    case False
    then obtain key info q1 where d: "drop_from key q = (Some info, q1)" "drop_largest q = (True, q1)"
      using drop_largest_drops [OF less.prems(1)] by auto
    note eff = drop_from_effect [OF less.prems(1) d(1)]
    have step: "total_cap_loop s q = total_cap_loop s q1"
      using False fits pos d(2) by (simp add: total_cap_loop.simps [of s q])
    have "\<exists>q'. total_cap_loop s q1 = (True, q') \<and> pq_inv E q' \<and> evicted q1 q' \<and>
        total_bytes q' + unat s \<le> 64 * unat (pq_quantum q1) \<and>
        (total_bytes q1 + unat s \<le> 64 * unat (pq_quantum q1) \<longrightarrow> q' = q1)"
      by (rule less.hyps [OF drop_from_packets [OF d(1)] eff(1)]) (use eff(5) less.prems(2) in simp)
    then show ?thesis
      unfolding step eff(5) using False evicted_trans [OF drop_from_evicted [OF less.prems(1) d(1)]] by blast
  qed
qed

lemma flow_for_effect:
  assumes inv: "pq_inv E q"
  shows "pq_inv (insert key E) (flow_for key q)" "contents (flow_for key q) = contents q"
    "total_bytes (flow_for key q) = total_bytes q" "evicted q (flow_for key q)"
proof -
  note D = pq_invD [OF inv]
  let ?q = "flow_for key q"
  let ?f0 = "\<lparr>fl_infos = [], fl_size = 0, fl_deficit = 0, fl_index = None\<rparr>"
  have same: "?q = q" if "hm_get (pq_flows q) key = Some f" for f
    using that by (simp add: flow_for_def hm_entry_def)
  have new: "pq_flows ?q = hm_insert key ?f0 (pq_flows q)" if "hm_get (pq_flows q) key = None"
    using that by (simp add: flow_for_def hm_entry_def)
  have fields: "cursor ?q = cursor q" "caps_ok ?q = caps_ok q" "pq_size ?q = pq_size q" "pq_count ?q = pq_count q"
    "pq_quantum ?q = pq_quantum q" "pq_active ?q = pq_active q" "pq_next ?q = pq_next q"
    by (simp_all add: flow_for_def cursor_def caps_ok_def)
  show sums: "total_bytes ?q = total_bytes q"
    using same new sum_hm_insert_new [of "pq_flows q" key "\<lambda>f. bytes_of (fl_infos f)" ?f0]
    by (cases "hm_get (pq_flows q) key") (auto simp: total_bytes_def)
  have packets: "pq_packets ?q = pq_packets q"
    using same new sum_hm_insert_new [of "pq_flows q" key "\<lambda>f. length (fl_infos f)" ?f0]
    by (cases "hm_get (pq_flows q) key") (auto simp: pq_packets_def)
  show c: "contents ?q = contents q"
    by (rule ext) (auto simp: contents_def flow_for_def split: option.splits)
  have idx: "ring_index ?q k = ring_index q k" for k
    by (cases "hm_get (pq_flows q) key") (auto simp: ring_index_def flow_for_def)
  have ring: "ring_ok ?q" using D(3) unfolding ring_ok_def idx fields .
  have flows: "flow_ok ?q k f \<and> (fl_infos f = [] \<longrightarrow> k \<in> insert key E)" if g: "hm_get (pq_flows ?q) k = Some f" for k f
  proof (cases "hm_get (pq_flows q) k")
    case None
    with g have "f = ?f0 \<and> k = key" by (auto simp: flow_for_def split: if_splits)
    then show ?thesis by (simp add: flow_ok_def)
  next
    case (Some f')
    with g have "f = f'" by (auto simp: flow_for_def split: if_splits)
    then show ?thesis using D(7,8) [OF Some] by (auto simp: flow_ok_def fields)
  qed
  have "hm_wf (pq_flows ?q)" using D(2) by (simp add: flow_for_def)
  then show "pq_inv (insert key E) ?q"
    unfolding pq_inv_def using ring flows D(1,4-6) by (simp add: fields sums packets)
  show "evicted q ?q"
    unfolding evicted_def c by (auto simp: flow_for_def intro: exI [of _ 0])
qed

text \<open>Appending to a flow that exists, before it is put on the ring.\<close>

definition append_info :: "pq_packet_info \<Rightarrow> packet_queue \<Rightarrow> packet_queue" where
  "append_info info q =
     q\<lparr>pq_flows := hm_modify (packet_key (qi_packet info))
         (\<lambda>f. f\<lparr>fl_infos := fl_infos f @ [info], fl_size := fl_size f + qi_size info\<rparr>) (pq_flows q),
       pq_size := pq_size q + qi_size info, pq_count := pq_count q + 1\<rparr>"

lemma activate_ring:
  assumes ok: "ring_ok q" and f: "hm_get (pq_flows q) key = Some f" "fl_index f = None"
  shows "ring_ok (activate key q)" "cursor (activate key q) = cursor q"
    "ring_index (activate key q) k = (if k = key then Some (length (pq_active q)) else ring_index q k)"
proof -
  let ?q = "activate key q"
  have idx: "ring_index ?q k = (if k = key then Some (length (pq_active q)) else ring_index q k)" for k
    using f by (simp add: ring_index_def activate_def Let_def)
  then show "ring_index ?q k = (if k = key then Some (length (pq_active q)) else ring_index q k)" .
  have act: "pq_active ?q = pq_active q @ [key]" "pq_next ?q = pq_next q" by (simp_all add: activate_def Let_def)
  have nx: "n < length (pq_active q)" if "pq_next q = Some n" for n using ok that unfolding ring_ok_def by blast
  have fresh: "ring_index q key = None" using f by (simp add: ring_index_def)
  have "ring_index ?q k = Some i \<longleftrightarrow> i < length (pq_active ?q) \<and> pq_active ?q ! i = k" for k i
  proof (cases "i < length (pq_active q)")
    case True
    then have "ring_index q k = Some i \<longleftrightarrow> pq_active q ! i = k" using ok unfolding ring_ok_def by blast
    then show ?thesis using True fresh by (auto simp: idx act nth_append)
  next
    case False
    then have "ring_index q k \<noteq> Some i" using ring_indexD [OF ok] by blast
    then show ?thesis using False by (auto simp: idx act nth_append)
  qed
  moreover have "n < length (pq_active ?q)" if "pq_next ?q = Some n" for n
    using that nx by (simp add: act less_SucI)
  ultimately show "ring_ok ?q" unfolding ring_ok_def by blast
  show "cursor ?q = cursor q"
    using nx by (cases "pq_next q") (auto simp: cursor_def act nth_append)
qed

lemma append_info_effect:
  assumes inv: "pq_inv E q" and f: "hm_get (pq_flows q) (packet_key (qi_packet info)) = Some f"
  shows "total_bytes (append_info info q) = total_bytes q + unat (qi_size info)"
    "pq_packets (append_info info q) = pq_packets q + 1"
    "contents (append_info info q) k = contents q k @ (if k = packet_key (qi_packet info) then [info] else [])"
    "ring_index (append_info info q) k = ring_index q k" "cursor (append_info info q) = cursor q"
    "ring_ok (append_info info q)"
proof -
  note D = pq_invD [OF inv]
  let ?h = "\<lambda>f. f\<lparr>fl_infos := fl_infos f @ [info], fl_size := fl_size f + qi_size info\<rparr>"
  show "total_bytes (append_info info q) = total_bytes q + unat (qi_size info)"
    using sum_hm_modify_get [OF D(2) f, of "\<lambda>f. bytes_of (fl_infos f)" ?h] by (simp add: total_bytes_def append_info_def)
  show "pq_packets (append_info info q) = pq_packets q + 1"
    using sum_hm_modify_get [OF D(2) f, of "\<lambda>f. length (fl_infos f)" ?h] by (simp add: pq_packets_def append_info_def)
  show "contents (append_info info q) k = contents q k @ (if k = packet_key (qi_packet info) then [info] else [])"
    using f by (simp add: contents_def append_info_def)
  have idx: "ring_index (append_info info q) k = ring_index q k" for k
    using f by (simp add: ring_index_def append_info_def)
  then show "ring_index (append_info info q) k = ring_index q k" .
  show "cursor (append_info info q) = cursor q" by (simp add: cursor_def append_info_def)
  show "ring_ok (append_info info q)"
    using D(3) unfolding ring_ok_def idx by (simp add: append_info_def)
qed

lemma enqueue_eq:
  "enqueue info q =
     (let key = packet_key (qi_packet info); q1 = flow_for key q; q2 = append_info info q1
      in if (case hm_get (pq_flows q1) key of Some f \<Rightarrow> fl_index f = None | None \<Rightarrow> False) then activate key q2 else q2)"
  by (simp add: enqueue_def append_info_def Let_def)

lemma enqueue_effect:
  assumes inv: "pq_inv {packet_key (qi_packet info)} q"
    and size: "0 < unat (qi_size info)" "unat (qi_size info) \<le> 4 * unat (pq_quantum q)"
    and room: "bytes_of (contents q (packet_key (qi_packet info))) + unat (qi_size info) \<le> 16 * unat (pq_quantum q)"
      "total_bytes q + unat (qi_size info) \<le> 64 * unat (pq_quantum q)"
  shows "pq_inv {} (enqueue info q)"
    "contents (enqueue info q) k = contents q k @ (if k = packet_key (qi_packet info) then [info] else [])"
    "pq_quantum (enqueue info q) = pq_quantum q" "pq_codel (enqueue info q) = pq_codel q"
proof -
  let ?k = "packet_key (qi_packet info)"
  let ?q1 = "flow_for ?k q"
  let ?q2 = "append_info info ?q1" and ?q' = "enqueue info q"
  note F = flow_for_effect [OF inv, of ?k]
  have inv1: "pq_inv {?k} ?q1" using F(1) by simp
  note D = pq_invD [OF inv1]
  obtain f where f: "hm_get (pq_flows ?q1) ?k = Some f" by (simp add: flow_for_def)
  note A = append_info_effect [OF inv1 f]
  have q1: "pq_quantum ?q1 = pq_quantum q" "pq_codel ?q1 = pq_codel q" by (simp_all add: flow_for_def)
  have q2: "pq_quantum ?q2 = pq_quantum q" "pq_codel ?q2 = pq_codel q" "caps_ok ?q2"
    "pq_size ?q2 = of_nat (total_bytes ?q2)" "pq_count ?q2 = pq_packets ?q2"
    using q1 D(1,4,6) A(1,2) by (simp_all add: append_info_def caps_ok_def)
  have f2: "hm_get (pq_flows ?q2) ?k = Some (f\<lparr>fl_infos := fl_infos f @ [info], fl_size := fl_size f + qi_size info\<rparr>)"
    using f by (simp add: append_info_def)
  have q': "?q' = (if fl_index f = None then activate ?k ?q2 else ?q2)" using f by (simp add: enqueue_eq Let_def)
  have re: "reindexed ?q2 ?q'" using activate_reindexed reindexed_refl by (simp add: q')
  note R = reindexed_facts [OF re] and st = static_fields [OF reindexed_facts(5) [OF re]]
  show "contents ?q' k = contents q k @ (if k = ?k then [info] else [])" unfolding R(1) A(3) F(2) ..
  show "pq_quantum ?q' = pq_quantum q" "pq_codel ?q' = pq_codel q" using st q2 by simp_all
  have ring: "ring_ok ?q'" "cursor ?q' = cursor ?q1"
    using activate_ring [OF A(6) f2] A(5,6) by (auto simp: q')
  have idx: "ring_index ?q' k = None \<longleftrightarrow> k \<noteq> ?k \<and> ring_index ?q1 k = None" for k
    using activate_ring(3) [OF A(6) f2] A(4) f by (auto simp: q' ring_index_def)
  have wf: "hm_wf (pq_flows ?q')" using D(2) unfolding R(4) by (simp add: append_info_def)
  have flows: "flow_ok ?q' k g \<and> fl_infos g \<noteq> []" if g: "hm_get (pq_flows ?q') k = Some g" for k g
  proof -
    obtain g2 where g2: "hm_get (pq_flows ?q2) k = Some g2" "fl_infos g = fl_infos g2" "fl_size g = fl_size g2"
      "fl_deficit g = fl_deficit g2" using R(6) [OF g] by (elim conjE exE) (rule that)
    have ix: "fl_index g = None \<longleftrightarrow> k \<noteq> ?k \<and> ring_index ?q1 k = None"
      using idx [of k] g by (simp add: ring_index_def)
    show ?thesis
    proof (cases "k = ?k")
      case True
      then have "g2 = f\<lparr>fl_infos := fl_infos f @ [info], fl_size := fl_size f + qi_size info\<rparr>" using g2(1) f2 by simp
      moreover have "contents q ?k = fl_infos f" unfolding F(2) [symmetric] using f by (simp add: contents_def)
      ultimately show ?thesis
        using D(7) [OF f] ix True g2 size room(1) st(5) q2(1) q1(1) unfolding flow_ok_def ring(2) by auto
    next
      case False
      then have g1: "hm_get (pq_flows ?q1) k = Some g2" using g2(1) by (simp add: append_info_def)
      then have "fl_infos g2 \<noteq> []" using D(8) [OF g1] False by blast
      then show ?thesis
        using D(7) [OF g1] ix False g1 g2 st(5) q2(1) q1(1) unfolding flow_ok_def ring(2) by (auto simp: ring_index_def)
    qed
  qed
  have "total_bytes ?q' = total_bytes q + unat (qi_size info)" using R(2) A(1) F(3) by simp
  moreover have "caps_ok ?q'" using q2(3) caps_ok_static [OF R(5)] by simp
  ultimately show "pq_inv {} ?q'"
    unfolding pq_inv_def using ring(1) wf flows room(2) st q2 R(2,3) by simp
qed

text \<open>A packet the scheduler can serve within its clamp of four quanta.\<close>

definition packet_fits :: "packet_queue \<Rightarrow> traffic_packet \<Rightarrow> bool" where
  "packet_fits q packet \<longleftrightarrow> wire_size packet \<le> 4 * unat (pq_quantum q)"

lemma pq_push_effect:
  assumes inv: "pq_inv {} q" and fits: "packet_fits q packet"
  shows "pq_inv {} (pq_push now packet q)"
    "\<exists>n. contents (pq_push now packet q) k = drop n (contents q k) @ (if k = packet_key packet then [new_info now packet] else [])"
    "bytes_of (contents q (packet_key packet)) + wire_size packet \<le> 16 * unat (pq_quantum q) \<Longrightarrow>
     total_bytes q + wire_size packet \<le> 64 * unat (pq_quantum q) \<Longrightarrow>
     contents (pq_push now packet q) k = contents q k @ (if k = packet_key packet then [new_info now packet] else [])"
    "pq_quantum (pq_push now packet q) = pq_quantum q" "pq_codel (pq_push now packet q) = pq_codel q"
proof -
  note D = pq_invD [OF inv]
  let ?k = "packet_key packet" and ?s = "of_nat (wire_size packet) :: u64"
  let ?info = "new_info now packet"
  have s: "unat ?s = wire_size packet" "0 < wire_size packet" "unat ?s \<le> 4 * unat (pq_quantum q)"
    using fits D(1) wire_size_pos by (simp_all add: packet_fits_def caps_ok_def unat_of_nat)
  have accepted: "\<not> ?s > pq_max_bytes_total q" "\<not> ?s > pq_max_bytes_per_flow q"
    using s D(1) by (simp_all add: caps_ok_def word_less_nat_alt)
  note F = flow_for_effect [OF inv, of ?k]
  let ?q1 = "flow_for ?k q"
  have q1: "pq_quantum ?q1 = pq_quantum q" by (simp add: flow_for_def)
  obtain q2 where q2: "flow_cap_loop ?k ?s ?q1 = (True, q2)" "pq_inv {?k} q2" "evicted ?q1 q2"
    "bytes_of (contents q2 ?k) + wire_size packet \<le> 16 * unat (pq_quantum q)"
    "bytes_of (contents q ?k) + wire_size packet \<le> 16 * unat (pq_quantum q) \<longrightarrow> q2 = ?q1"
    using flow_cap_loop_effect [OF F(1), of ?s ?k] s F(2) q1 by auto
  have quant2: "pq_quantum q2 = pq_quantum q" using q2(3) q1 by (simp add: evicted_def)
  obtain q3 where q3: "total_cap_loop ?s q2 = (True, q3)" "pq_inv {?k} q3" "evicted q2 q3"
    "total_bytes q3 + wire_size packet \<le> 64 * unat (pq_quantum q)"
    "total_bytes q2 + wire_size packet \<le> 64 * unat (pq_quantum q) \<longrightarrow> q3 = q2"
    using total_cap_loop_effect [OF q2(2), of ?s] s quant2 by auto
  have ev: "evicted q q3" by (rule evicted_trans [OF F(4) evicted_trans [OF q2(3) q3(3)]])
  have quant3: "pq_quantum q3 = pq_quantum q" using ev by (simp add: evicted_def)
  have push: "pq_push now packet q = enqueue ?info q3"
    using accepted q2(1) q3(1) by (simp add: pq_push_def Let_def)
  obtain n where "contents q3 ?k = drop n (contents q2 ?k)" using q3(3) unfolding evicted_def by blast
  moreover have "bytes_of (drop n is) \<le> bytes_of is" for "is"
    using bytes_of_append [of "take n is" "drop n is"] by simp
  ultimately have room: "bytes_of (contents q3 ?k) + wire_size packet \<le> 16 * unat (pq_quantum q)"
    using q2(4) by (metis add_le_mono1 le_trans)
  have ik: "packet_key (qi_packet ?info) = ?k" "unat (qi_size ?info) = wire_size packet"
    using s by (simp_all add: new_info_def)
  have inv3: "pq_inv {packet_key (qi_packet ?info)} q3" using q3(2) by (simp add: ik)
  note N = enqueue_effect [OF inv3, unfolded ik quant3, OF s(2) s(3) [unfolded s(1)] room q3(4)]
  show "pq_inv {} (pq_push now packet q)" unfolding push by (rule N(1))
  show "pq_quantum (pq_push now packet q) = pq_quantum q" unfolding push using N(3) quant3 by simp
  show "pq_codel (pq_push now packet q) = pq_codel q" unfolding push N(4) using ev by (simp add: evicted_def)
  show "\<exists>n. contents (pq_push now packet q) k = drop n (contents q k) @ (if k = ?k then [new_info now packet] else [])" for k
  proof -
    obtain n where "contents q3 k = drop n (contents q k)" using ev unfolding evicted_def by blast
    then show ?thesis unfolding push N(2) by auto
  qed
  show "contents (pq_push now packet q) k = contents q k @ (if k = ?k then [new_info now packet] else [])"
    if "bytes_of (contents q ?k) + wire_size packet \<le> 16 * unat (pq_quantum q)"
      "total_bytes q + wire_size packet \<le> 64 * unat (pq_quantum q)" for k
    unfolding push N(2) using q2(5) q3(5) that F(2,3) by simp
qed

section \<open>Round robin always serves\<close>

lemma set_deficit_effect:
  assumes inv: "pq_inv E q"
    and q': "q' = q\<lparr>pq_flows := hm_modify key (\<lambda>f. f\<lparr>fl_deficit := g (fl_deficit f)\<rparr>) (pq_flows q)\<rparr>"
    and d: "\<forall>f. hm_get (pq_flows q) key = Some f \<longrightarrow>
      unat (g (fl_deficit f)) \<le> (if cursor q = Some key then 5 else 4) * unat (pq_quantum q)"
  shows "pq_inv E q'" "contents q' = contents q"
proof -
  note D = pq_invD [OF inv]
  have idx: "ring_index q' k = ring_index q k" for k
    by (cases "hm_get (pq_flows q) k") (auto simp: ring_index_def q')
  have fields: "pq_active q' = pq_active q" "pq_next q' = pq_next q" "cursor q' = cursor q" "caps_ok q' = caps_ok q"
    "pq_size q' = pq_size q" "pq_count q' = pq_count q" "pq_quantum q' = pq_quantum q"
    by (simp_all add: q' cursor_def caps_ok_def)
  have sums: "total_bytes q' = total_bytes q" "pq_packets q' = pq_packets q"
    unfolding total_bytes_def pq_packets_def q' by (simp_all add: sum_hm_modify if_distrib split_beta cong: if_cong)
  show "contents q' = contents q" by (rule ext) (auto simp: contents_def q' split: option.splits)
  have ring: "ring_ok q'" using D(3) unfolding ring_ok_def idx fields .
  have "flow_ok q' k f \<and> (fl_infos f = [] \<longrightarrow> k \<in> E)" if g: "hm_get (pq_flows q') k = Some f" for k f
  proof -
    obtain f0 where f0: "hm_get (pq_flows q) k = Some f0"
      "f = (if k = key then f0\<lparr>fl_deficit := g (fl_deficit f0)\<rparr> else f0)"
      using g by (auto simp: q' split: if_splits)
    then show ?thesis using D(7,8) [OF f0(1)] d by (auto simp: flow_ok_def fields split: if_splits)
  qed
  moreover have "hm_wf (pq_flows q')" using D(2) by (simp add: q')
  ultimately show "pq_inv E q'"
    unfolding pq_inv_def using ring D(1,4-6) by (simp add: fields sums)
qed

lemma set_next_effect:
  assumes inv: "pq_inv E q" and idx: "idx < length (pq_active q)"
    and d: "\<forall>k f. cursor q = Some k \<longrightarrow> hm_get (pq_flows q) k = Some f \<longrightarrow> unat (fl_deficit f) \<le> 4 * unat (pq_quantum q)"
  shows "pq_inv E (q\<lparr>pq_next := Some idx\<rparr>)"
proof -
  note D = pq_invD [OF inv]
  let ?q = "q\<lparr>pq_next := Some idx\<rparr>"
  have ix: "ring_index ?q k = ring_index q k" for k by (simp add: ring_index_def)
  have "ring_ok ?q" using D(3) idx unfolding ring_ok_def ix by simp
  moreover have "flow_ok ?q k f" if "hm_get (pq_flows q) k = Some f" for k f
    using D(7) [OF that] d that by (cases "cursor q = Some k") (auto simp: flow_ok_def)
  moreover have "caps_ok ?q" "total_bytes ?q = total_bytes q" "pq_packets ?q = pq_packets q"
    using D(1) by (simp_all add: caps_ok_def total_bytes_def pq_packets_def)
  ultimately show ?thesis
    unfolding pq_inv_def using D(2,4-6) D(8) by simp
qed

text \<open>The credit the heads of the flows still lack.\<close>

definition flow_need :: "flow \<Rightarrow> nat" where
  "flow_need f = (case fl_infos f of [] \<Rightarrow> 0 | h # _ \<Rightarrow> unat (qi_size h) - unat (fl_deficit f))"

definition need :: "packet_queue \<Rightarrow> nat" where
  "need q = sum_list (map (\<lambda>(_, f). flow_need f) (pq_flows q))"

lemma active_flow:
  assumes "pq_inv {} q" "idx < length (pq_active q)"
  obtains f h rest where "hm_get (pq_flows q) (pq_active q ! idx) = Some f" "fl_infos f = h # rest"
proof -
  have "ring_index q (pq_active q ! idx) = Some idx" by (rule ring_indexI [OF pq_invD(3) [OF assms(1)] assms(2)])
  then obtain f where f: "hm_get (pq_flows q) (pq_active q ! idx) = Some f"
    by (cases "hm_get (pq_flows q) (pq_active q ! idx)") (auto simp: ring_index_def)
  moreover have "fl_infos f \<noteq> []" using pq_invD(8) [OF assms(1) f] by blast
  ultimately show ?thesis using that by (cases "fl_infos f") auto
qed

text \<open>Moving on to the next flow and granting it a quantum.\<close>

lemma advance_effect:
  assumes inv: "pq_inv {} q" and idx: "idx < length (pq_active q)"
    and d: "\<forall>k f. cursor q = Some k \<longrightarrow> hm_get (pq_flows q) k = Some f \<longrightarrow> unat (fl_deficit f) \<le> 4 * unat (pq_quantum q)"
    and q': "q' = credit (pq_active q ! idx) (q\<lparr>pq_next := Some idx\<rparr>)"
  shows "pq_inv {} q'" "contents q' = contents q" "pq_active q' = pq_active q" "pq_next q' = Some idx"
    "pq_codel q' = pq_codel q" "pq_quantum q' = pq_quantum q"
    "serveable (pq_active q ! idx) q' \<or> need q' < need q"
proof -
  let ?k = "pq_active q ! idx" and ?n = "q\<lparr>pq_next := Some idx\<rparr>"
  have invn: "pq_inv {} ?n" by (rule set_next_effect [OF inv idx d])
  obtain f h rest where f: "hm_get (pq_flows q) ?k = Some f" "fl_infos f = h # rest" by (rule active_flow [OF inv idx])
  note D = pq_invD [OF inv]
  have le: "unat (fl_deficit f) \<le> 4 * unat (pq_quantum q)"
    using D(7) [OF f(1)] d f(1) by (cases "cursor q = Some ?k") (auto simp: flow_ok_def)
  have add: "unat (fl_deficit f + pq_quantum q) = unat (fl_deficit f) + unat (pq_quantum q)"
    using le D(1) unat_add_lem [of "fl_deficit f" "pq_quantum q"] by (simp add: caps_ok_def)
  have eq: "q' = ?n\<lparr>pq_flows := hm_modify ?k (\<lambda>f. f\<lparr>fl_deficit := fl_deficit f + pq_quantum ?n\<rparr>) (pq_flows ?n)\<rparr>"
    by (simp add: q' credit_def)
  have "\<forall>g. hm_get (pq_flows ?n) ?k = Some g \<longrightarrow>
      unat (fl_deficit g + pq_quantum ?n) \<le> (if cursor ?n = Some ?k then 5 else 4) * unat (pq_quantum ?n)"
    using f(1) add le by (simp add: cursor_def)
  note S = set_deficit_effect [where g = "\<lambda>d. d + pq_quantum ?n", OF invn eq this]
  show "pq_inv {} q'" by (rule S(1))
  have "contents ?n = contents q" by (simp add: contents_def fun_eq_iff)
  then show "contents q' = contents q" by (simp add: S(2))
  show "pq_active q' = pq_active q" "pq_next q' = Some idx" "pq_codel q' = pq_codel q" "pq_quantum q' = pq_quantum q"
    by (simp_all add: eq)
  let ?h = "\<lambda>f. f\<lparr>fl_deficit := fl_deficit f + pq_quantum q\<rparr>"
  have "need q' + flow_need f = need q + flow_need (?h f)"
    using sum_hm_modify_get [OF D(2) f(1), of flow_need ?h] by (simp add: need_def eq)
  moreover have "flow_need (?h f) < flow_need f \<or> serveable ?k q'"
    using f add D(1) by (auto simp: flow_need_def serveable_def eq word_le_nat_alt caps_ok_def)
  ultimately show "serveable ?k q' \<or> need q' < need q" by linarith
qed

text \<open>What a pop does: it takes the oldest packet of one flow, and nothing else.\<close>

definition popped :: "packet_queue \<Rightarrow> pq_packet_info \<Rightarrow> packet_queue \<Rightarrow> bool" where
  "popped q info q' \<longleftrightarrow> pq_inv {} q' \<and>
     contents q (packet_key (qi_packet info)) = info # contents q' (packet_key (qi_packet info)) \<and>
     (\<forall>k. k \<noteq> packet_key (qi_packet info) \<longrightarrow> contents q' k = contents q k) \<and>
     pq_codel q' = pq_codel q \<and> pq_quantum q' = pq_quantum q \<and> pq_count q = Suc (pq_count q')"

text \<open>Serving the head packet of a flow whose credit covers it: the credit left after the clamp still
  covers it, so the subtraction does not wrap.\<close>

lemma serve_effect:
  assumes inv: "pq_inv {} q" and s: "serveable (pq_active q ! idx) q"
  shows "\<exists>info q'. pop_loop idx q = Some (info, q') \<and> popped q info q'"
proof -
  let ?k = "pq_active q ! idx"
  note D = pq_invD [OF inv]
  obtain f info rest where f: "hm_get (pq_flows q) ?k = Some f" "fl_infos f = info # rest" "qi_size info \<le> fl_deficit f"
    using s by (auto simp: serveable_def split: option.splits list.splits)
  then obtain q1 where d: "drop_from ?k q = (Some info, q1)" by (simp add: drop_from_def)
  note eff = drop_from_effect [OF inv d]
  let ?q' = "q1\<lparr>pq_flows := hm_modify ?k (\<lambda>f. f\<lparr>fl_deficit := fl_deficit f - qi_size info\<rparr>) (pq_flows q1)\<rparr>"
  have pop: "pop_loop idx q = Some (info, ?q')" by (subst pop_loop.simps) (simp add: s d)
  have size: "unat (qi_size info) \<le> 4 * unat (pq_quantum q)" and key: "packet_key (qi_packet info) = ?k"
    using D(7) [OF f(1)] f(2) by (simp_all add: flow_ok_def)
  have "unat (fl_deficit g - qi_size info) \<le> (if cursor q1 = Some ?k then 5 else 4) * unat (pq_quantum q1)"
    if g: "hm_get (pq_flows q1) ?k = Some g" for g
  proof -
    have clamp: "fl_deficit g = (if fl_deficit f > pq_quantum q * 4 then pq_quantum q * 4 else fl_deficit f)"
      using eff(10) [OF g] f(1) by auto
    have "unat (fl_deficit g) \<le> 4 * unat (pq_quantum q)" "qi_size info \<le> fl_deficit g"
      using caps_quantum [OF D(1)] f(3) size by (auto simp: clamp not_less word_le_nat_alt word_less_nat_alt)
    then have "unat (fl_deficit g - qi_size info) \<le> 4 * unat (pq_quantum q)" by (simp add: unat_sub)
    then show ?thesis unfolding eff(5) by (auto split: if_splits)
  qed
  then have "\<forall>g. hm_get (pq_flows q1) ?k = Some g \<longrightarrow>
      unat (fl_deficit g - qi_size info) \<le> (if cursor q1 = Some ?k then 5 else 4) * unat (pq_quantum q1)" by blast
  note S = set_deficit_effect [where g = "\<lambda>d. d - qi_size info", OF eff(1) refl this]
  then have "popped q info ?q'"
    unfolding popped_def key using S eff by simp
  with pop show ?thesis by blast
qed

lemma not_serveable_deficit:
  assumes "pq_inv {} q" "\<not> serveable k q" "hm_get (pq_flows q) k = Some f"
  shows "unat (fl_deficit f) \<le> 4 * unat (pq_quantum q)"
proof -
  obtain h rest where h: "fl_infos f = h # rest"
    using pq_invD(8) [OF assms(1,3)] by (cases "fl_infos f") auto
  then have "fl_deficit f < qi_size h" using assms(2,3) by (simp add: serveable_def not_le)
  moreover have "unat (qi_size h) \<le> 4 * unat (pq_quantum q)"
    using pq_invD(7) [OF assms(1,3)] h by (simp add: flow_ok_def)
  ultimately show ?thesis by (simp add: word_less_nat_alt)
qed

lemma popped_from: "contents p = contents q \<Longrightarrow> pq_codel p = pq_codel q \<Longrightarrow> pq_quantum p = pq_quantum q \<Longrightarrow>
    pq_count p = pq_count q \<Longrightarrow> popped p info q' \<Longrightarrow> popped q info q'"
  by (simp add: popped_def)

lemma pop_loop_returns:
  "pq_inv {} q \<Longrightarrow> pq_next q = Some idx \<Longrightarrow> \<exists>info q'. pop_loop idx q = Some (info, q') \<and> popped q info q'"
proof (induction "need q" arbitrary: q idx rule: less_induct)
  case (less q)
  note D = pq_invD [OF less.prems(1)]
  show ?case
  proof (cases "serveable (pq_active q ! idx) q")
    case True
    then show ?thesis by (rule serve_effect [OF less.prems(1)])
  next
    case False
    let ?i = "if idx + 1 \<ge> length (pq_active q) then 0 else idx + 1"
    let ?q = "credit (pq_active q ! ?i) (q\<lparr>pq_next := Some ?i\<rparr>)"
    have idx: "idx < length (pq_active q)" using D(3) less.prems(2) unfolding ring_ok_def by blast
    then have i: "?i < length (pq_active q)" by auto
    have "\<forall>k f. cursor q = Some k \<longrightarrow> hm_get (pq_flows q) k = Some f \<longrightarrow> unat (fl_deficit f) \<le> 4 * unat (pq_quantum q)"
      using not_serveable_deficit [OF less.prems(1) False] less.prems(2) by (simp add: cursor_def)
    note A = advance_effect [OF less.prems(1) i this refl]
    have count: "pq_count ?q = pq_count q" by (simp add: credit_def)
    have "pop_loop idx q = pop_loop ?i ?q"
      by (subst pop_loop.simps) (use False in \<open>simp add: Let_def\<close>)
    moreover have "\<exists>info q'. pop_loop ?i ?q = Some (info, q') \<and> popped ?q info q'"
    proof (cases "serveable (pq_active q ! ?i) ?q")
      case True
      then show ?thesis using serve_effect [OF A(1), of ?i] by (simp only: A(3))
    next
      case False
      then show ?thesis using A(7) by (intro less.hyps [OF _ A(1,4)]) blast
    qed
    ultimately show ?thesis using popped_from [OF A(2,5,6) count] by auto
  qed
qed

lemma pq_empty_iff: "pq_inv {} q \<Longrightarrow> pq_is_empty q \<longleftrightarrow> pq_count q = 0"
proof -
  assume inv: "pq_inv {} q"
  note D = pq_invD [OF inv]
  have "pq_size q = 0 \<longleftrightarrow> total_bytes q = 0"
    using D(1,4,5) by (simp add: caps_ok_def word_unat_eq_iff unat_of_nat)
  also have "\<dots> \<longleftrightarrow> (\<forall>x\<in>set (pq_flows q). fl_infos (snd x) = [])"
  proof -
    have "bytes_of (fl_infos f) = 0 \<longleftrightarrow> fl_infos f = []" if "(k, f) \<in> set (pq_flows q)" for k f
    proof -
      have "hm_get (pq_flows q) k = Some f" using D(2) that by simp
      then have "flow_ok q k f" by (rule D(7))
      then show ?thesis by (cases "fl_infos f") (auto simp: flow_ok_def)
    qed
    then show ?thesis unfolding total_bytes_def sum_list_eq_0_iff by fastforce
  qed
  also have "\<dots> \<longleftrightarrow> pq_packets q = 0" unfolding pq_packets_def sum_list_eq_0_iff by auto
  finally show ?thesis by (simp add: pq_is_empty_def D(6))
qed

lemma pop_info_returns:
  assumes inv: "pq_inv {} q"
  shows "if pq_count q = 0 then \<exists>q'. pop_info q = Some (None, q') \<and> pq_inv {} q' \<and> contents q' = contents q \<and>
      pq_codel q' = pq_codel q \<and> pq_quantum q' = pq_quantum q \<and> pq_count q' = 0
    else \<exists>info q'. pop_info q = Some (Some info, q') \<and> popped q info q'"
proof (cases "pq_count q = 0")
  case True
  let ?q = "q\<lparr>pq_next := None\<rparr>"
  note D = pq_invD [OF inv]
  have pop: "pop_info q = Some (None, ?q)" using pq_empty_iff [OF inv] True by (simp add: pop_info_def)
  have "contents q k = []" for k
  proof -
    have "length (contents q k) \<le> pq_packets q"
      using sum_hm_get_le [of "pq_flows q" k _ "\<lambda>f. length (fl_infos f)"]
      by (auto simp: contents_def pq_packets_def split: option.splits)
    then show ?thesis using True D(6) by simp
  qed
  then have none: "hm_get (pq_flows q) k = None" for k
    using D(8) [of k] by (cases "hm_get (pq_flows q) k") (auto simp: contents_def, metis option.simps(5))
  have ix: "ring_index ?q k = ring_index q k" for k by (simp add: ring_index_def)
  have "ring_ok ?q" using D(3) unfolding ring_ok_def ix by simp
  moreover have "caps_ok ?q" "total_bytes ?q = total_bytes q" "pq_packets ?q = pq_packets q"
    using D(1) by (simp_all add: caps_ok_def total_bytes_def pq_packets_def)
  ultimately have "pq_inv {} ?q" unfolding pq_inv_def using D(2,4-6) by (simp add: none)
  moreover have "contents ?q = contents q" by (simp add: contents_def fun_eq_iff)
  ultimately show ?thesis using True pop by simp
next
  case False
  note D = pq_invD [OF inv]
  have nonempty: "\<not> pq_is_empty q" using pq_empty_iff [OF inv] False by simp
  have act: "pq_active q \<noteq> []"
  proof
    assume "pq_active q = []"
    then have "ring_index q k = None" for k using ring_index_active [OF D(3), of k] by auto
    then have "fl_infos f = []" if "hm_get (pq_flows q) k = Some f" for k f
      using D(7) [OF that] that by (metis bind.bind_lunit flow_ok_def ring_index_def)
    then have "hm_get (pq_flows q) k = None" for k
      using D(8) [of k] by (cases "hm_get (pq_flows q) k") auto
    then have "k \<notin> set (hm_keys (pq_flows q))" for k by (simp only: hm_get_None_iff [symmetric])
    then have "pq_flows q = []" by (cases "pq_flows q") auto
    then show False using False D(6) by (simp add: pq_packets_def)
  qed
  show ?thesis
  proof (cases "pq_next q")
    case None
    let ?q = "credit (pq_active q ! 0) (q\<lparr>pq_next := Some 0\<rparr>)"
    have len: "0 < length (pq_active q)" using act by simp
    have "\<forall>k f. cursor q = Some k \<longrightarrow> hm_get (pq_flows q) k = Some f \<longrightarrow> unat (fl_deficit f) \<le> 4 * unat (pq_quantum q)"
      using None by (simp add: cursor_def)
    note A = advance_effect [OF inv len this refl]
    have count: "pq_count ?q = pq_count q" by (simp add: credit_def)
    obtain info q' where "pop_loop 0 ?q = Some (info, q')" "popped ?q info q'"
      using pop_loop_returns [OF A(1,4)] by blast
    moreover have "pop_info q = map_option (\<lambda>(info, q). (Some info, q)) (pop_loop 0 ?q)"
      using nonempty act None by (simp add: pop_info_def Let_def)
    ultimately show ?thesis using False popped_from [OF A(2,5,6) count] by simp
  next
    case (Some n)
    have n: "n < length (pq_active q)" using D(3) Some unfolding ring_ok_def by blast
    have same: "q\<lparr>pq_next := Some n\<rparr> = q" using Some by (cases q) simp
    have "pop_info q = map_option (\<lambda>(info, q). (Some info, q)) (pop_loop n q)"
      using nonempty act Some n by (simp add: pop_info_def Let_def same)
    then show ?thesis using False pop_loop_returns [OF inv Some] by auto
  qed
qed

section \<open>CoDel keeps serving\<close>

lemma pq_inv_codel [simp]: "pq_inv E (q\<lparr>pq_codel := c\<rparr>) = pq_inv E q" "contents (q\<lparr>pq_codel := c\<rparr>) = contents q"
proof -
  have ix: "ring_index (q\<lparr>pq_codel := c\<rparr>) k = ring_index q k" for k by (simp add: ring_index_def)
  have "flow_ok (q\<lparr>pq_codel := c\<rparr>) k f = flow_ok q k f" for k f by (simp add: flow_ok_def cursor_def)
  then show "pq_inv E (q\<lparr>pq_codel := c\<rparr>) = pq_inv E q"
    unfolding pq_inv_def ring_ok_def ix by (simp add: caps_ok_def total_bytes_def pq_packets_def)
  show "contents (q\<lparr>pq_codel := c\<rparr>) = contents q" by (simp add: contents_def fun_eq_iff)
qed

lemma codel_should_drop_state: "codel_should_drop info now q = (hit, q') \<Longrightarrow> \<exists>c. q' = q\<lparr>pq_codel := c\<rparr>"
proof -
  assume d: "codel_should_drop info now q = (hit, q')"
  have "\<exists>c. s = s\<lparr>pq_codel := c\<rparr>" for s :: packet_queue by (rule exI [of _ "pq_codel s"]) simp
  then show ?thesis
    using d unfolding codel_should_drop_def
    by (auto simp: Let_def split: option.splits if_splits)
qed

lemma codel_should_drop_count:
  "codel_should_drop info now q = (True, q') \<Longrightarrow> 2 \<le> pq_count q \<and> info \<noteq> None"
  by (auto simp: codel_should_drop_def Let_def split: option.splits if_splits)

text \<open>What a dequeue with the controller does: it discards packets from the front of flows, then
  delivers the oldest remaining packet of one flow.\<close>

definition served :: "packet_queue \<Rightarrow> pq_packet_info \<Rightarrow> packet_queue \<Rightarrow> bool" where
  "served q info q' \<longleftrightarrow> pq_inv {} q' \<and> pq_quantum q' = pq_quantum q \<and> pq_count q' < pq_count q \<and>
     (\<forall>k. \<exists>d. contents q k = d @ (if k = packet_key (qi_packet info) then [info] else []) @ contents q' k)"

lemma popped_served: "popped q info q' \<Longrightarrow> served q info q'"
  unfolding popped_def served_def by (auto intro: exI [of _ "[]"])

lemma popped_then_served:
  assumes p: "popped q info q1" and s: "served q1 info' q2"
  shows "served q info' q2"
proof -
  have "\<exists>d. contents q k = d @ (if k = packet_key (qi_packet info') then [info'] else []) @ contents q2 k" for k
  proof -
    obtain d where d: "contents q1 k = d @ (if k = packet_key (qi_packet info') then [info'] else []) @ contents q2 k"
      using s unfolding served_def by blast
    then have "contents q k = (if k = packet_key (qi_packet info) then info # d else d) @
        (if k = packet_key (qi_packet info') then [info'] else []) @ contents q2 k"
      using p unfolding popped_def by (cases "k = packet_key (qi_packet info)") auto
    then show ?thesis by blast
  qed
  then show ?thesis using p s unfolding served_def popped_def by auto
qed

lemma pop_info_some:
  "pq_inv {} q \<Longrightarrow> pq_count q \<noteq> 0 \<Longrightarrow> \<exists>info q'. pop_info q = Some (Some info, q') \<and> popped q info q'"
  using pop_info_returns [of q] by simp

lemma served_codel: "served (q\<lparr>pq_codel := c\<rparr>) info q' = served q info q'" "served q info (q'\<lparr>pq_codel := c\<rparr>) = served q info q'"
  by (simp_all add: served_def)

text \<open>The loop runs only while at least two packets are left behind the one at hand.\<close>

lemma codel_drop_loop_serves:
  "pq_inv {} q \<Longrightarrow> cd_dropping (pq_codel q) \<longrightarrow> 2 \<le> pq_count q \<Longrightarrow>
   codel_drop_loop law now (Some info) q = Some (Some info, q) \<or>
   (\<exists>info' q'. codel_drop_loop law now (Some info) q = Some (Some info', q') \<and> served q info' q')"
proof (induction "pq_count q" arbitrary: q info rule: less_induct)
  case (less q info)
  show ?case
  proof (cases "cd_dropping (pq_codel q) \<and> (case cd_drop_next (pq_codel q) of None \<Rightarrow> False | Some dn \<Rightarrow> now \<ge> dn)")
    case False
    then show ?thesis by (subst codel_drop_loop.simps) (auto simp: codel_drop_loop.simps split: option.splits)
  next
    case True
    let ?q0 = "set_codel (cd_count_update (\<lambda>c. c + 1)) q"
    obtain info1 q1 where p: "pop_info ?q0 = Some (Some info1, q1)" "popped ?q0 info1 q1"
      using pop_info_some [of ?q0] less.prems True by auto
    obtain hit q2 where d: "codel_should_drop (Some info1) now q1 = (hit, q2)" by fastforce
    define q3 where "q3 = (if \<not> hit then set_codel (cd_dropping_update (\<lambda>_. False)) q2
      else set_codel (\<lambda>c. c\<lparr>cd_drop_next := map_option (\<lambda>dn. codel_control_law law dn (cd_count c)) (cd_drop_next c)\<rparr>) q2)"
    obtain c2 where c2: "q2 = q1\<lparr>pq_codel := c2\<rparr>" using codel_should_drop_state [OF d] ..
    have "q3 = q1\<lparr>pq_codel := pq_codel q3\<rparr>" by (simp add: q3_def c2)
    then obtain c where c: "q3 = q1\<lparr>pq_codel := c\<rparr>" ..
    have step: "codel_drop_loop law now (Some info) q = codel_drop_loop law now (Some info1) q3"
      by (subst codel_drop_loop.simps) (use True p(1) d in \<open>simp add: q3_def Let_def\<close>)
    have "pq_count q3 < pq_count q" using p(2) by (simp add: c popped_def)
    moreover have "pq_inv {} q3" using p(2) by (simp add: c popped_def)
    moreover have "cd_dropping (pq_codel q3) \<longrightarrow> 2 \<le> pq_count q3"
      using codel_should_drop_count [of "Some info1" now q1 q2] d by (cases hit) (simp_all add: q3_def c2)
    ultimately have ih: "codel_drop_loop law now (Some info1) q3 = Some (Some info1, q3) \<or>
      (\<exists>info' q'. codel_drop_loop law now (Some info1) q3 = Some (Some info', q') \<and> served q3 info' q')"
      by (rule less.hyps)
    have "served q info1 q3" using popped_served [OF p(2)] by (simp add: c served_codel)
    moreover have "served q info' q'" if "served q3 info' q'" for info' q'
      using popped_then_served [OF p(2)] that by (simp add: c served_codel)
    ultimately show ?thesis unfolding step using ih by blast
  qed
qed

lemma pop_codel_serves:
  assumes inv: "pq_inv {} q"
  shows "if pq_count q = 0 then \<exists>q'. pop_codel law now q = Some (None, q') \<and> pq_inv {} q' \<and> contents q' = contents q \<and>
      pq_quantum q' = pq_quantum q \<and> pq_count q' = 0
    else \<exists>info q'. pop_codel law now q = Some (Some (qi_packet info), q') \<and> served q info q'"
proof (cases "pq_count q = 0")
  case True
  obtain q' where "pop_info q = Some (None, q')" "pq_inv {} q'" "contents q' = contents q" "pq_quantum q' = pq_quantum q"
    "pq_count q' = 0" using pop_info_returns [OF inv] True by auto
  then show ?thesis using True by (simp add: pop_codel_def)
next
  case False
  obtain info q1 where p: "pop_info q = Some (Some info, q1)" "popped q info q1" using pop_info_some [OF inv False] by blast
  obtain hit q2 where d: "codel_should_drop (Some info) now q1 = (hit, q2)" by fastforce
  obtain c2 where c2: "q2 = q1\<lparr>pq_codel := c2\<rparr>" using codel_should_drop_state [OF d] ..
  have inv2: "pq_inv {} q2" using p(2) by (simp add: c2 popped_def)
  have s2: "served q info (q2\<lparr>pq_codel := c\<rparr>)" for c using popped_served [OF p(2)] by (simp add: c2 served_codel)
  have s2': "served q info q2" using popped_served [OF p(2)] by (simp add: c2 served_codel)
  have later: "served q info' q'" if "served q2 info' q'" for info' q'
    using popped_then_served [OF p(2)] that by (simp add: c2 served_codel)
  let ?enter = "hit \<and> ((case cd_drop_next (pq_codel q2) of None \<Rightarrow> False | Some dn \<Rightarrow> signed_nanos now dn < int CODEL_INTERVAL) \<or>
    (case cd_first_above_time (pq_codel q2) of None \<Rightarrow> False | Some fat \<Rightarrow> signed_nanos now fat \<ge> int CODEL_INTERVAL))"
  let ?rest = "if cd_dropping (pq_codel q2) then
      (if \<not> hit then Some (Some info, set_codel (cd_dropping_update (\<lambda>_. False)) q2) else codel_drop_loop law now (Some info) q2)
    else if ?enter
    then Option.bind (pop_info q2) (\<lambda>(info, q). let (_, q) = codel_should_drop info now q in Some (info, set_codel (codel_enter law now) q))
    else Some (Some info, q2)"
  have pop: "pop_codel law now q = map_option (\<lambda>(info, q). (map_option qi_packet info, q)) ?rest"
    using p(1) d by (simp add: pop_codel_def Let_def)
  have count: "hit \<longrightarrow> 2 \<le> pq_count q2" using codel_should_drop_count [of "Some info" now q1 q2] d by (auto simp: c2)
  have "\<exists>info' q'. ?rest = Some (Some info', q') \<and> served q info' q'"
  proof (cases "cd_dropping (pq_codel q2)")
    case True
    then show ?thesis
      using codel_drop_loop_serves [OF inv2, of law now info] count s2 s2' later by (cases hit) auto
  next
    case not_dropping: False
    show ?thesis
    proof (cases "?enter")
      case True
      obtain info3 q3 where p3: "pop_info q2 = Some (Some info3, q3)" "popped q2 info3 q3"
        using pop_info_some [OF inv2] count True by fastforce
      obtain hit3 q4 where d3: "codel_should_drop (Some info3) now q3 = (hit3, q4)" by fastforce
      obtain c4 where "q4 = q3\<lparr>pq_codel := c4\<rparr>" using codel_should_drop_state [OF d3] ..
      then have "served q info3 (q4\<lparr>pq_codel := c\<rparr>)" for c
        using later [OF popped_served [OF p3(2)]] by (simp add: served_codel)
      then show ?thesis using not_dropping True p3(1) d3 by (simp add: Let_def)
    next
      case False
      then show ?thesis using not_dropping s2' by (simp only: if_False) blast
    qed
  qed
  then show ?thesis unfolding pop using False by auto
qed

section \<open>Lossy queues that keep the order of each flow\<close>

text \<open>The contract of a queue that may lose packets but never reorders or repeats them within a
  flow: what an operation hands out, followed by what is still stored, is a subsequence of what
  was stored followed by what came in.\<close>

definition opt_list :: "'a option \<Rightarrow> 'a list" where
  "opt_list x = (case x of None \<Rightarrow> [] | Some a \<Rightarrow> [a])"

fun runs :: "('e \<Rightarrow> 's \<Rightarrow> ('a option \<times> 's) option) \<Rightarrow> 'e list \<Rightarrow> 's \<Rightarrow> ('a list \<times> 's) option" where
  "runs step [] s = Some ([], s)"
| "runs step (e # es) s =
     (case step e s of
        None \<Rightarrow> None
      | Some (out, s') \<Rightarrow> map_option (\<lambda>(outs, s''). (opt_list out @ outs, s'')) (runs step es s'))"

locale lossy_fifo =
  fixes step :: "'e \<Rightarrow> 's \<Rightarrow> ('a option \<times> 's) option"
    and ok :: "'s \<Rightarrow> bool"
    and allowed :: "'e \<Rightarrow> bool"
    and input :: "'e \<Rightarrow> 'a option"
    and flow_of :: "'a \<Rightarrow> 'k"
    and view :: "'s \<Rightarrow> 'k \<Rightarrow> 'a list"
  assumes step_ok: "ok s \<Longrightarrow> allowed e \<Longrightarrow> \<exists>out s'. step e s = Some (out, s') \<and> ok s' \<and>
    (\<forall>k. subseq (filter (\<lambda>a. flow_of a = k) (opt_list out) @ view s' k)
           (view s k @ filter (\<lambda>a. flow_of a = k) (opt_list (input e))))"
begin

lemma run_order:
  "ok s \<Longrightarrow> list_all allowed es \<Longrightarrow> \<exists>outs s'. runs step es s = Some (outs, s') \<and> ok s' \<and>
    (\<forall>k. subseq (filter (\<lambda>a. flow_of a = k) outs @ view s' k)
           (view s k @ filter (\<lambda>a. flow_of a = k) (concat (map (\<lambda>e. opt_list (input e)) es))))"
proof (induction es arbitrary: s)
  case (Cons e es)
  then obtain out s1 where s1: "step e s = Some (out, s1)" "ok s1"
    "\<And>k. subseq (filter (\<lambda>a. flow_of a = k) (opt_list out) @ view s1 k)
       (view s k @ filter (\<lambda>a. flow_of a = k) (opt_list (input e)))"
    using step_ok [of s e] by auto
  obtain outs s' where s': "runs step es s1 = Some (outs, s')" "ok s'"
    "\<And>k. subseq (filter (\<lambda>a. flow_of a = k) outs @ view s' k)
       (view s1 k @ filter (\<lambda>a. flow_of a = k) (concat (map (\<lambda>e. opt_list (input e)) es)))"
    using Cons.IH [OF s1(2)] Cons.prems by auto
  have "subseq (filter (\<lambda>a. flow_of a = k) (opt_list out @ outs) @ view s' k)
      (view s k @ filter (\<lambda>a. flow_of a = k) (concat (map (\<lambda>e. opt_list (input e)) (e # es))))" for k
  proof -
    let ?F = "filter (\<lambda>a. flow_of a = k)"
    have "subseq (?F (opt_list out) @ ?F outs @ view s' k)
        (?F (opt_list out) @ view s1 k @ ?F (concat (map (\<lambda>e. opt_list (input e)) es)))"
      using list_emb_append_mono [OF subseq_order.order_refl s'(3) [of k]] by simp
    also have "subseq \<dots> (view s k @ ?F (opt_list (input e)) @ ?F (concat (map (\<lambda>e. opt_list (input e)) es)))"
      using list_emb_append_mono [OF s1(3) [of k] subseq_order.order_refl] by simp
    finally show ?thesis by simp
  qed
  then show ?case using s1 s' by simp
qed simp

end

datatype pq_event = Push instant traffic_packet | Pop instant | DropLargest

fun pq_step :: "(u32 \<Rightarrow> duration) \<Rightarrow> pq_event \<Rightarrow> packet_queue \<Rightarrow> (traffic_packet option \<times> packet_queue) option" where
  "pq_step law (Push now packet) q = Some (None, pq_push now packet q)"
| "pq_step law (Pop now) q = pop_codel law now q"
| "pq_step law DropLargest q = Some (None, snd (drop_largest q))"

fun pq_input :: "pq_event \<Rightarrow> traffic_packet option" where
  "pq_input (Push now packet) = Some packet"
| "pq_input _ = None"

text \<open>Packets of at most four quanta; the quantum is the largest message a peer accepts.\<close>

fun pq_allowed :: "u64 \<Rightarrow> pq_event \<Rightarrow> bool" where
  "pq_allowed quantum (Push now packet) = (wire_size packet \<le> 4 * unat quantum)"
| "pq_allowed quantum _ = True"

definition pq_view :: "packet_queue \<Rightarrow> flow_key \<Rightarrow> traffic_packet list" where
  "pq_view q k = map qi_packet (contents q k)"

definition pq_ok :: "u64 \<Rightarrow> packet_queue \<Rightarrow> bool" where
  "pq_ok quantum q \<longleftrightarrow> pq_inv {} q \<and> pq_quantum q = quantum"

lemma drop_largest_effect:
  assumes "pq_inv {} q"
  shows "pq_inv {} (snd (drop_largest q)) \<and> evicted q (snd (drop_largest q))"
proof (cases "largest_flow q")
  case None
  then show ?thesis using assms evicted_refl by (simp add: drop_largest_def)
next
  case (Some key)
  obtain info q' where d: "drop_from key q = (info, q')" by fastforce
  show ?thesis
  proof (cases info)
    case None
    then have "q' = q" using d by (auto simp: drop_from_def split: option.splits list.splits)
    then show ?thesis using Some d assms evicted_refl by (simp add: drop_largest_def)
  next
    case (Some i)
    then show ?thesis
      using \<open>largest_flow q = Some key\<close> d drop_from_effect(1) [OF assms] drop_from_evicted [OF assms]
      by (simp add: drop_largest_def)
  qed
qed

lemma evicted_subseq: "evicted q q' \<Longrightarrow> subseq (pq_view q' k) (pq_view q k)"
proof -
  assume "evicted q q'"
  then obtain n where "contents q' k = drop n (contents q k)" unfolding evicted_def by blast
  then show ?thesis by (simp add: pq_view_def suffix_imp_subseq suffix_drop flip: drop_map)
qed

lemma served_subseq:
  assumes "served q info q'"
  shows "subseq (filter (\<lambda>a. packet_key a = k) [qi_packet info] @ pq_view q' k) (pq_view q k)"
proof -
  obtain d where "contents q k = d @ (if k = packet_key (qi_packet info) then [info] else []) @ contents q' k"
    using assms unfolding served_def by blast
  then have "pq_view q k = map qi_packet d @ filter (\<lambda>a. packet_key a = k) [qi_packet info] @ pq_view q' k"
    by (simp add: pq_view_def)
  then show ?thesis by (metis suffix_imp_subseq suffixI)
qed

interpretation packet_queue_order: lossy_fifo "pq_step law" "pq_ok quantum" "pq_allowed quantum" pq_input packet_key pq_view
  for law quantum
proof
  fix q e
  assume ok: "pq_ok quantum q" and e: "pq_allowed quantum e"
  have inv: "pq_inv {} q" and quant: "pq_quantum q = quantum" using ok by (simp_all add: pq_ok_def)
  show "\<exists>out q'. pq_step law e q = Some (out, q') \<and> pq_ok quantum q' \<and>
    (\<forall>k. subseq (filter (\<lambda>a. packet_key a = k) (opt_list out) @ pq_view q' k)
           (pq_view q k @ filter (\<lambda>a. packet_key a = k) (opt_list (pq_input e))))"
  proof (cases e)
    case (Push now packet)
    then have fits: "packet_fits q packet" using e quant by (simp add: packet_fits_def)
    note P = pq_push_effect [OF inv fits, of now]
    have "subseq (pq_view (pq_push now packet q) k) (pq_view q k @ filter (\<lambda>a. packet_key a = k) [packet])" for k
    proof -
      obtain n where "contents (pq_push now packet q) k =
          drop n (contents q k) @ (if k = packet_key packet then [new_info now packet] else [])" using P(2) by blast
      then have "pq_view (pq_push now packet q) k = drop n (pq_view q k) @ filter (\<lambda>a. packet_key a = k) [packet]"
        by (simp add: pq_view_def drop_map new_info_def)
      then show ?thesis
        using list_emb_append_mono [OF suffix_imp_subseq [OF suffix_drop [of n "pq_view q k"]] subseq_order.order_refl]
        by simp
    qed
    then show ?thesis using Push P(1,4) quant by (simp add: pq_ok_def opt_list_def)
  next
    case (Pop now)
    show ?thesis
    proof (cases "pq_count q = 0")
      case True
      then obtain q' where "pop_codel law now q = Some (None, q')" "pq_inv {} q'" "contents q' = contents q" "pq_quantum q' = pq_quantum q"
        using pop_codel_serves [OF inv, of law now] by auto
      then show ?thesis using Pop quant by (simp add: pq_ok_def opt_list_def pq_view_def)
    next
      case False
      then obtain info q' where "pop_codel law now q = Some (Some (qi_packet info), q')" "served q info q'"
        using pop_codel_serves [OF inv, of law now] by auto
      then show ?thesis using Pop quant served_subseq by (simp add: pq_ok_def opt_list_def served_def)
    qed
  next
    case DropLargest
    then show ?thesis
      using drop_largest_effect [OF inv] evicted_subseq quant by (auto simp: pq_ok_def opt_list_def evicted_def)
  qed
qed

datatype dq_event = Deliver instant traffic_packet | TryPop instant | TryPopOrWait instant

fun dq_step :: "(u32 \<Rightarrow> duration) \<Rightarrow> dq_event \<Rightarrow> delivery_queue \<Rightarrow> (traffic_packet option \<times> delivery_queue) option" where
  "dq_step law (Deliver now packet) d = Some (deliver now packet d)"
| "dq_step law (TryPop now) d = try_pop law now d"
| "dq_step law (TryPopOrWait now) d = try_pop_or_wait law now d"

fun dq_input :: "dq_event \<Rightarrow> traffic_packet option" where
  "dq_input (Deliver now packet) = Some packet"
| "dq_input _ = None"

fun dq_allowed :: "u64 \<Rightarrow> dq_event \<Rightarrow> bool" where
  "dq_allowed quantum (Deliver now packet) = (wire_size packet \<le> 4 * unat quantum)"
| "dq_allowed quantum _ = True"

text \<open>Readers wait only on an empty queue.\<close>

definition dq_ok :: "u64 \<Rightarrow> delivery_queue \<Rightarrow> bool" where
  "dq_ok quantum d \<longleftrightarrow> pq_ok quantum (dq_queue d) \<and> (dq_recv_ready d > 0 \<longrightarrow> pq_count (dq_queue d) = 0)"

lemma empty_view:
  assumes "pq_inv {} q" "pq_count q = 0"
  shows "pq_view q k = []"
proof -
  have "length (contents q k) \<le> pq_packets q"
    using sum_hm_get_le [of "pq_flows q" k _ "\<lambda>f. length (fl_infos f)"]
    by (auto simp: contents_def pq_packets_def split: option.splits)
  then show ?thesis using assms pq_invD(6) [OF assms(1)] by (simp add: pq_view_def)
qed

lemma pop_codel_step:
  assumes "pq_ok quantum q"
  shows "\<exists>out q'. pop_codel law now q = Some (out, q') \<and> pq_ok quantum q' \<and> (out = None \<longleftrightarrow> pq_count q = 0) \<and>
    (pq_count q = 0 \<longrightarrow> pq_count q' = 0) \<and>
    (\<forall>k. subseq (filter (\<lambda>a. packet_key a = k) (opt_list out) @ pq_view q' k) (pq_view q k))"
proof -
  have "\<exists>out q'. pq_step law (Pop now) q = Some (out, q') \<and> pq_ok quantum q' \<and>
      (\<forall>k. subseq (filter (\<lambda>a. packet_key a = k) (opt_list out) @ pq_view q' k)
             (pq_view q k @ filter (\<lambda>a. packet_key a = k) (opt_list (pq_input (Pop now)))))"
    by (rule packet_queue_order.step_ok [OF assms]) simp
  then show ?thesis
    using pop_codel_serves [of q law now] assms by (cases "pq_count q = 0") (auto simp: opt_list_def pq_ok_def)
qed

interpretation delivery_order: lossy_fifo "dq_step law" "dq_ok quantum" "dq_allowed quantum" dq_input packet_key
  "\<lambda>d. pq_view (dq_queue d)" for law quantum
proof
  fix d e
  assume ok: "dq_ok quantum d" and e: "dq_allowed quantum e"
  have q: "pq_ok quantum (dq_queue d)" and wait: "dq_recv_ready d > 0 \<longrightarrow> pq_count (dq_queue d) = 0"
    using ok by (simp_all add: dq_ok_def)
  show "\<exists>out d'. dq_step law e d = Some (out, d') \<and> dq_ok quantum d' \<and>
    (\<forall>k. subseq (filter (\<lambda>a. packet_key a = k) (opt_list out) @ pq_view (dq_queue d') k)
           (pq_view (dq_queue d) k @ filter (\<lambda>a. packet_key a = k) (opt_list (dq_input e))))"
  proof (cases e)
    case (Deliver now packet)
    show ?thesis
    proof (cases "dq_recv_ready d > 0")
      case True
      then have "pq_view (dq_queue d) k = []" for k
        using q wait by (intro empty_view) (simp_all add: pq_ok_def)
      then show ?thesis
        using Deliver True q wait by (simp add: deliver_def deliver_act_def deliver_check_def dq_ok_def opt_list_def)
    next
      case False
      have "\<exists>out q'. pq_step law (Push now packet) (dq_queue d) = Some (out, q') \<and> pq_ok quantum q' \<and>
          (\<forall>k. subseq (filter (\<lambda>a. packet_key a = k) (opt_list out) @ pq_view q' k)
             (pq_view (dq_queue d) k @ filter (\<lambda>a. packet_key a = k) (opt_list (pq_input (Push now packet)))))"
        using Deliver e by (intro packet_queue_order.step_ok [OF q]) simp
      then show ?thesis
        using Deliver False by (simp add: deliver_def deliver_act_def deliver_check_def dq_ok_def opt_list_def)
    qed
  next
    case (TryPop now)
    then show ?thesis
      using pop_codel_step [OF q, of law now] wait by (auto simp: try_pop_def dq_ok_def opt_list_def)
  next
    case (TryPopOrWait now)
    obtain out q' where p: "pop_codel law now (dq_queue d) = Some (out, q')" "pq_ok quantum q'"
      "out = None \<longleftrightarrow> pq_count (dq_queue d) = 0" "pq_count (dq_queue d) = 0 \<longrightarrow> pq_count q' = 0"
      "\<forall>k. subseq (filter (\<lambda>a. packet_key a = k) (opt_list out) @ pq_view q' k) (pq_view (dq_queue d) k)"
      using pop_codel_step [OF q, of law now] by (elim exE conjE) (rule that)
    then show ?thesis
      using TryPopOrWait wait by (cases out) (simp_all add: try_pop_or_wait_def dq_ok_def opt_list_def)
  qed
qed

lemma packet_queue_new_ok:
  assumes "0 < unat quantum" "128 * unat quantum < 2 ^ 64"
  shows "pq_ok quantum (packet_queue_new quantum)"
proof -
  let ?q = "packet_queue_new quantum"
  have "quantum \<noteq> 0" using assms(1) by auto
  then have q: "?q = \<lparr>pq_flows = [], pq_active = [], pq_next = None, pq_size = 0, pq_count = 0,
      pq_max_bytes_total = quantum * 64, pq_max_bytes_per_flow = quantum * 16, pq_quantum = quantum, pq_codel = codel_default\<rparr>"
    by (simp add: packet_queue_new_def DEFAULT_PACKET_QUEUE_MAX_BYTES_MULTIPLIER_def
        DEFAULT_PACKET_QUEUE_PER_FLOW_MULTIPLIER_def)
  have "unat (quantum * 64) = 64 * unat quantum" "unat (quantum * 16) = 16 * unat quantum"
    using assms(2) unat_mult_lem [of quantum 64] unat_mult_lem [of quantum 16] by simp_all
  then show ?thesis
    using assms by (simp add: q pq_ok_def pq_inv_def caps_ok_def ring_ok_def ring_index_def total_bytes_def pq_packets_def)
qed

section \<open>Two limits of the implementation\<close>

text \<open>Beyond four quanta the clamp in \<open>drop_from\<close> takes away credit that the packet just served had
  been granted, and the subtraction in \<open>pop_info\<close> wraps (a build with overflow checks panics): a
  flow with two packets of five quanta is left with a credit of almost \<open>2 ^ 64\<close>.\<close>

definition oversized_queue :: "pq_packet_info \<Rightarrow> packet_queue" where
  "oversized_queue info = (packet_queue_new 100)
     \<lparr>pq_flows := [(packet_key (qi_packet info), \<lparr>fl_infos = [info, info], fl_size = 1000, fl_deficit = 500, fl_index = Some 0\<rparr>)],
      pq_active := [packet_key (qi_packet info)], pq_next := Some 0, pq_size := 1000, pq_count := 2\<rparr>"

lemma deficit_underflow:
  assumes "qi_size info = 500"
  shows "\<exists>q'. pop_info (oversized_queue info) = Some (Some info, q') \<and>
    map_option fl_deficit (hm_get (pq_flows q') (packet_key (qi_packet info))) = Some (- 100)"
  using assms
  by (simp add: oversized_queue_def packet_queue_new_def pop_info_def pq_is_empty_def pop_loop.simps serveable_def
      drop_from_def take_head_def remove_flow_if_empty_def hm_modify_def Let_def)

text \<open>\<open>deliver\<close> looks at the counter of waiting readers before it takes the lock. If a reader finds the
  queue empty and registers itself in between, the packet is queued while the reader waits on the
  channel: the packet stays there until another one arrives.\<close>

lemma deliver_lost_wakeup:
  assumes "0 < unat quantum" "128 * unat quantum < 2 ^ 64" "wire_size packet \<le> 4 * unat quantum"
  shows "\<not> deliver_check (delivery_queue_new quantum) \<and>
    (\<exists>d1 d2. try_pop_or_wait law now (delivery_queue_new quantum) = Some (None, d1) \<and>
       deliver_act now' False packet d1 = (None, d2) \<and>
       dq_recv_ready d2 = 1 \<and> pq_view (dq_queue d2) (packet_key packet) = [packet])"
proof -
  let ?q = "packet_queue_new quantum"
  have ok: "pq_ok quantum ?q" by (rule packet_queue_new_ok [OF assms(1,2)])
  have "pq_count ?q = 0" by (simp add: packet_queue_new_def Let_def)
  then obtain q1 where q1: "pop_codel law now ?q = Some (None, q1)" "pq_inv {} q1" "pq_quantum q1 = quantum"
    "contents q1 = contents ?q" using pop_codel_serves [of ?q law now] ok by (auto simp: pq_ok_def)
  have "contents q1 (packet_key packet) = []" by (simp add: q1(4) contents_def packet_queue_new_def Let_def)
  moreover obtain n where "contents (pq_push now' packet q1) (packet_key packet) =
      drop n (contents q1 (packet_key packet)) @ [new_info now' packet]"
    using pq_push_effect(2) [OF q1(2), of packet now' "packet_key packet"] q1(3) assms(3) by (auto simp: packet_fits_def)
  ultimately have "pq_view (pq_push now' packet q1) (packet_key packet) = [packet]"
    by (simp add: pq_view_def new_info_def)
  then show ?thesis
    using q1(1) by (simp add: deliver_check_def deliver_act_def try_pop_or_wait_def delivery_queue_new_def)
qed

section \<open>Properties\<close>

text \<open>C27. The packet queue keeps the order of every flow. Over any sequence of pushes, dequeues with the
  CoDel controller and evictions, every operation returns, and the packets handed out for a flow,
  followed by those still stored, are a subsequence of the packets pushed for it: packets may be
  dropped, but none is reordered, repeated or invented. Packets may have up to four quanta.\<close>

theorem packet_queue_flow_order:
  assumes "0 < unat quantum" "128 * unat quantum < 2 ^ 64" "list_all (pq_allowed quantum) es"
  shows "\<exists>outs q. runs (pq_step law) es (packet_queue_new quantum) = Some (outs, q) \<and>
    (\<forall>k. subseq (filter (\<lambda>a. packet_key a = k) outs @ pq_view q k)
           (filter (\<lambda>a. packet_key a = k) (concat (map (\<lambda>e. opt_list (pq_input e)) es))))"
proof -
  have "pq_view (packet_queue_new quantum) k = []" for k
    by (simp add: pq_view_def contents_def packet_queue_new_def Let_def)
  then show ?thesis
    using packet_queue_order.run_order [OF packet_queue_new_ok [OF assms(1,2)] assms(3), of law] by auto
qed

definition sample_pq_packet :: "u8 \<Rightarrow> traffic_packet" where
  "sample_pq_packet b = traffic_packet_new [1] [2] [b]"

lemma uvarint_size_le_10: "uvarint_size v \<le> 10"
proof -
  have "unat v < 2 ^ (7 * 10)" by (rule less_trans [OF unsigned_less]) simp
  then show ?thesis using length_encode_uvarint_le [of v 10] by (simp add: length_encode_uvarint)
qed

lemma sample_pq_size: "wire_size (sample_pq_packet b) \<le> 4 * unat (1000 :: u64)"
  using uvarint_size_le_10 [of 0] uvarint_size_le_10 [of u64_max]
  by (simp add: sample_pq_packet_def traffic_packet_new_def wire_size_def PUBLIC_KEY_SIZE_def path_size_def)

theorem packet_queue_flow_order_witness:
  "\<exists>outs q. runs (pq_step (\<lambda>_. 0)) [Push 0 (sample_pq_packet 7), Push 1 (sample_pq_packet 8), Pop 2] (packet_queue_new 1000) = Some (outs, q) \<and>
    (\<forall>k. subseq (filter (\<lambda>a. packet_key a = k) outs @ pq_view q k)
           (filter (\<lambda>a. packet_key a = k) [sample_pq_packet 7, sample_pq_packet 8]))"
  using packet_queue_flow_order [of 1000 "[Push 0 (sample_pq_packet 7), Push 1 (sample_pq_packet 8), Pop 2]" "\<lambda>_. 0"]
    sample_pq_size by (simp add: opt_list_def)

text \<open>Memory and credit are bounded. After any sequence of operations that pushes no packet above four
  quanta, with a quantum below \<open>2\<close>-to-the-\<open>57\<close>, the queue holds at most 64 quanta of bytes in total and 16 per
  flow, its byte and packet counters are exact, and the credit of a flow is at most five quanta, so
  that no \<open>u64\<close> of the queue wraps. \<open>push\<close> itself accepts packets up to 16 quanta; above four the
  credit can wrap.\<close>

theorem packet_queue_bounded:
  assumes "0 < unat quantum" "128 * unat quantum < 2 ^ 64" "list_all (pq_allowed quantum) es"
    "runs (pq_step law) es (packet_queue_new quantum) = Some (outs, q)"
  shows "unat (pq_size q) = total_bytes q \<and> total_bytes q \<le> 64 * unat quantum \<and>
    pq_count q = pq_packets q \<and> (\<forall>k. bytes_of (contents q k) \<le> 16 * unat quantum) \<and>
    (\<forall>k f. hm_get (pq_flows q) k = Some f \<longrightarrow> unat (fl_deficit f) \<le> 5 * unat quantum)"
proof -
  have "pq_ok quantum q"
    using packet_queue_order.run_order [OF packet_queue_new_ok [OF assms(1,2)] assms(3), of law] assms(4) by auto
  then have inv: "pq_inv {} q" and quant: "pq_quantum q = quantum" by (simp_all add: pq_ok_def)
  note D = pq_invD [OF inv]
  have "unat (fl_deficit f) \<le> 5 * unat quantum" if "hm_get (pq_flows q) k = Some f" for k f
    using D(7) [OF that] quant by (auto simp: flow_ok_def split: if_splits)
  moreover have "unat (pq_size q) = total_bytes q"
    using D(1,4,5) by (simp add: caps_ok_def unat_of_nat)
  ultimately show ?thesis using D(5,6) contents_bytes [OF inv] quant by simp
qed

theorem packet_queue_bounded_witness:
  "\<exists>outs q. runs (pq_step (\<lambda>_. 0)) [Push 0 (sample_pq_packet 7), Pop 2] (packet_queue_new 1000) = Some (outs, q) \<and>
     total_bytes q \<le> 64000"
proof -
  have ok: "list_all (pq_allowed 1000) [Push 0 (sample_pq_packet 7), Pop 2]" using sample_pq_size by simp
  obtain outs q where run: "runs (pq_step (\<lambda>_. 0)) [Push 0 (sample_pq_packet 7), Pop 2] (packet_queue_new 1000) = Some (outs, q)"
    using packet_queue_order.run_order [OF packet_queue_new_ok [of 1000] ok, of "\<lambda>_. 0"] by auto
  with packet_queue_bounded [OF _ _ ok run] show ?thesis by auto
qed

text \<open>The controller never starves a reader: in every reachable state a dequeue returns, and it
  yields a packet exactly when the queue holds one, however many packets CoDel drops on the way.\<close>

theorem pop_codel_yields:
  assumes "0 < unat quantum" "128 * unat quantum < 2 ^ 64" "list_all (pq_allowed quantum) es"
    "runs (pq_step law) es (packet_queue_new quantum) = Some (outs, q)"
  shows "\<exists>out q'. pop_codel law now q = Some (out, q') \<and> (out = None \<longleftrightarrow> pq_packets q = 0)"
proof -
  have "pq_ok quantum q"
    using packet_queue_order.run_order [OF packet_queue_new_ok [OF assms(1,2)] assms(3), of law] assms(4) by auto
  then show ?thesis using pop_codel_step [of quantum q law now] pq_invD(6) [of "{}" q] by (auto simp: pq_ok_def)
qed

theorem pop_codel_yields_witness:
  "\<exists>q q'. runs (pq_step (\<lambda>_. 0)) [] (packet_queue_new 1000) = Some ([], q) \<and> pop_codel (\<lambda>_. 0) 5 q = Some (None, q')"
proof -
  have "runs (pq_step (\<lambda>_. 0)) [] (packet_queue_new 1000) = Some ([], packet_queue_new 1000)" by simp
  from pop_codel_yields [OF _ _ _ this, of 5] show ?thesis
    by (auto simp: packet_queue_new_def pq_packets_def)
qed

text \<open>Delivery to readers keeps the order of every flow as well, and readers wait only while
  nothing is queued, as long as each call of \<open>deliver\<close> is not interleaved with a reader that
  registers itself.\<close>

theorem delivery_flow_order:
  assumes "0 < unat quantum" "128 * unat quantum < 2 ^ 64" "list_all (dq_allowed quantum) es"
  shows "\<exists>outs d. runs (dq_step law) es (delivery_queue_new quantum) = Some (outs, d) \<and>
    (dq_recv_ready d > 0 \<longrightarrow> pq_packets (dq_queue d) = 0) \<and>
    (\<forall>k. subseq (filter (\<lambda>a. packet_key a = k) outs @ pq_view (dq_queue d) k)
           (filter (\<lambda>a. packet_key a = k) (concat (map (\<lambda>e. opt_list (dq_input e)) es))))"
proof -
  have "dq_ok quantum (delivery_queue_new quantum)"
    using packet_queue_new_ok [OF assms(1,2)] by (simp add: dq_ok_def delivery_queue_new_def)
  moreover have "pq_view (dq_queue (delivery_queue_new quantum)) k = []" for k
    by (simp add: pq_view_def contents_def delivery_queue_new_def packet_queue_new_def Let_def)
  ultimately obtain outs d where "runs (dq_step law) es (delivery_queue_new quantum) = Some (outs, d)" "dq_ok quantum d"
    "\<forall>k. subseq (filter (\<lambda>a. packet_key a = k) outs @ pq_view (dq_queue d) k)
       (filter (\<lambda>a. packet_key a = k) (concat (map (\<lambda>e. opt_list (dq_input e)) es)))"
    using delivery_order.run_order [of quantum "delivery_queue_new quantum" es law] assms(3) by auto
  then show ?thesis using pq_invD(6) [of "{}" "dq_queue d"] by (auto simp: dq_ok_def pq_ok_def)
qed

theorem delivery_flow_order_witness:
  "\<exists>outs d. runs (dq_step (\<lambda>_. 0)) [TryPopOrWait 0, Deliver 1 (sample_pq_packet 7), Deliver 2 (sample_pq_packet 8)]
      (delivery_queue_new 1000) = Some (outs, d) \<and> (dq_recv_ready d > 0 \<longrightarrow> pq_packets (dq_queue d) = 0)"
  using delivery_flow_order [of 1000 "[TryPopOrWait 0, Deliver 1 (sample_pq_packet 7), Deliver 2 (sample_pq_packet 8)]" "\<lambda>_. 0"]
    sample_pq_size by auto

end
