(* ===== verification/Peer_Io.thy ===== *)
theory Peer_Io
  imports Peer_Frames Peer_Liveness Traffic_Queue
begin

text \<open>
  The two tasks of a link: \<open>peer_writer\<close> and the deadlines of \<open>peer_reader\<close> in
  \<open>crates/ironwood/src/peers.rs\<close>.

  The writer takes protocol frames from a channel and traffic from the packet queue of the link.
  One iteration of its loop is one step of the model; other tasks add to the channel and the queue
  between iterations. Every write and flush may fail or time out: \<open>we_cut i\<close> is \<open>None\<close> when attempt
  \<open>i\<close> succeeds. A write that fails has failed to make room in the \<open>BufWriter\<close>, which copies a frame
  shorter than its capacity whole or not at all; a longer frame goes to the connection directly, and
  \<open>we_cut i\<close> is how many bytes of it were accepted before the failure.
  \<open>wr_out\<close> are the bytes accepted by the \<open>BufWriter\<close> so far, \<open>wr_flushed\<close> says how many of them were
  handed to the transport by the last flush that succeeded.

  The reader waits for the next frame until the deadline that the writer armed; the cell of the
  liveness state may change under it, so every step carries the cell it sees.
\<close>

section \<open>The writer\<close>

datatype peer_message = SendFrame bytes | ScheduleKeepalive

definition WRITE_BUF_SIZE :: nat where
  "WRITE_BUF_SIZE = 128 * 1024"

definition MAX_DRAIN_PER_ITER :: nat where
  "MAX_DRAIN_PER_ITER = 96"

record writer_env =
  we_now :: instant
  we_cfg :: adaptive_timeout_config
  we_cell :: durable_liveness
  we_law :: "u32 \<Rightarrow> duration"
  we_cut :: "nat \<Rightarrow> nat option"

record writer =
  wr_rx :: "peer_message list"
  wr_queue :: packet_queue
  wr_permit :: bool
  wr_out :: bytes
  wr_flushed :: nat
  wr_ops :: nat
  wr_owed :: bool
  wr_deadline :: "instant option"
  wr_epoch :: "arm_epoch option"
  wr_last_write :: "instant option"
  wr_sig_req_sent :: "instant option"

definition writer_new :: "u64 \<Rightarrow> writer" where
  "writer_new pmtu =
     \<lparr>wr_rx = [], wr_queue = packet_queue_new pmtu, wr_permit = False, wr_out = [], wr_flushed = 0, wr_ops = 0,
      wr_owed = False, wr_deadline = None, wr_epoch = None, wr_last_write = None, wr_sig_req_sent = None\<rparr>"

definition keepalive_frame :: bytes where
  "keepalive_frame = encode_frame KeepAlive []"

definition arm_read_deadline :: "writer_env \<Rightarrow> writer \<Rightarrow> writer" where
  "arm_read_deadline env w =
     (let (slot, epoch) = arm (we_cfg env) (we_now env) (we_cell env) (wr_deadline w) (wr_epoch w)
      in w\<lparr>wr_deadline := slot, wr_epoch := epoch\<rparr>)"

definition mark_written :: "writer_env \<Rightarrow> writer \<Rightarrow> writer" where
  "mark_written env w = w\<lparr>wr_last_write := Some (we_now env)\<rparr>"

definition mark_sig_req_sent :: "writer_env \<Rightarrow> bytes \<Rightarrow> writer \<Rightarrow> writer" where
  "mark_sig_req_sent env frame w =
     (if peek_frame_type frame = Some ProtoSigReq then w\<lparr>wr_sig_req_sent := Some (we_now env)\<rparr> else w)"

text \<open>\<open>write_all\<close> and \<open>flush\<close> under their timeout.\<close>

definition write_all :: "writer_env \<Rightarrow> bytes \<Rightarrow> writer \<Rightarrow> bool \<times> writer" where
  "write_all env frame w =
     (case we_cut env (wr_ops w) of
        None \<Rightarrow> (True, w\<lparr>wr_ops := wr_ops w + 1, wr_out := wr_out w @ frame\<rparr>)
      | Some k \<Rightarrow>
          (False, w\<lparr>wr_ops := wr_ops w + 1,
                    wr_out := wr_out w @ (if length frame < WRITE_BUF_SIZE then [] else take k frame)\<rparr>))"

definition flush :: "writer_env \<Rightarrow> writer \<Rightarrow> bool \<times> writer" where
  "flush env w =
     (case we_cut env (wr_ops w) of
        None \<Rightarrow> (True, w\<lparr>wr_ops := wr_ops w + 1, wr_flushed := length (wr_out w)\<rparr>)
      | Some _ \<Rightarrow> (False, w\<lparr>wr_ops := wr_ops w + 1\<rparr>))"

definition write_and_flush :: "writer_env \<Rightarrow> bytes \<Rightarrow> writer \<Rightarrow> bool \<times> writer" where
  "write_and_flush env frame w =
     (let (ok, w) = write_all env frame w
      in if \<not> ok then (False, w)
         else let (ok, w) = flush env w
              in if \<not> ok then (False, w) else (True, mark_written env w))"

text \<open>A protocol frame from the channel: written, flushed, and the deadline armed unless it is a
  keepalive. The boolean says whether the loop goes on.\<close>

definition writer_send_frame :: "writer_env \<Rightarrow> bytes \<Rightarrow> writer \<Rightarrow> bool \<times> writer" where
  "writer_send_frame env data w =
     (let ptype = peek_frame_type data;
          needs_deadline = (case ptype of Some p \<Rightarrow> p \<noteq> KeepAlive \<and> p \<noteq> Dummy | None \<Rightarrow> False);
          (ok, w) = write_all env data w
      in if \<not> ok then (False, w)
         else
           let (ok, w) = flush env w
           in if \<not> ok then (False, w)
              else
                let w = mark_written env w;
                    w = (if ptype = Some ProtoSigReq then w\<lparr>wr_sig_req_sent := Some (we_now env)\<rparr> else w);
                    w = (if needs_deadline then arm_read_deadline env w else w)
                in (True, w\<lparr>wr_owed := False\<rparr>))"

text \<open>The inner loop that empties the channel after a \<open>ScheduleKeepalive\<close>. A failed write only
  leaves this loop.\<close>

fun coalesce :: "writer_env \<Rightarrow> peer_message list \<Rightarrow> writer \<Rightarrow> writer" where
  "coalesce env [] w = w\<lparr>wr_rx := []\<rparr>"
| "coalesce env (SendFrame data # rx) w =
     (let (ok, w) = write_and_flush env data w
      in if \<not> ok then w\<lparr>wr_rx := rx\<rparr>
         else coalesce env rx ((mark_sig_req_sent env data w)\<lparr>wr_owed := False\<rparr>))"
| "coalesce env (ScheduleKeepalive # rx) w = coalesce env rx (w\<lparr>wr_owed := True\<rparr>)"

fun drain_batch ::
    "(u32 \<Rightarrow> duration) \<Rightarrow> instant \<Rightarrow> nat \<Rightarrow> packet_queue \<Rightarrow> (traffic_packet list \<times> packet_queue) option" where
  "drain_batch law now 0 q = Some ([], q)"
| "drain_batch law now (Suc n) q =
     Option.bind (pop_codel law now q) (\<lambda>(p, q).
       case p of
         None \<Rightarrow> Some ([], q)
       | Some t \<Rightarrow> map_option (\<lambda>(batch, q). (t # batch, q)) (drain_batch law now n q))"

definition traffic_frame :: "traffic_packet \<Rightarrow> bytes" where
  "traffic_frame t =
     encode_traffic_frame (tr_path t) (tr_from t) (tr_source t) (tr_dest t) (tr_watermark t) (tr_payload t)"

record drain_outcome =
  do_ok :: bool
  do_wrote :: bool

fun write_batch :: "writer_env \<Rightarrow> traffic_packet list \<Rightarrow> bool \<Rightarrow> writer \<Rightarrow> drain_outcome \<times> writer" where
  "write_batch env [] wrote w = (\<lparr>do_ok = True, do_wrote = wrote\<rparr>, w)"
| "write_batch env (t # batch) wrote w =
     (let (ok, w) = write_all env (traffic_frame t) w
      in if ok then write_batch env batch True w
         else (\<lparr>do_ok = False, do_wrote = wrote\<rparr>, w))"

definition drain_traffic_queue :: "writer_env \<Rightarrow> writer \<Rightarrow> (drain_outcome \<times> writer) option" where
  "drain_traffic_queue env w =
     map_option (\<lambda>(batch, q).
       let w = w\<lparr>wr_queue := q\<rparr>
       in if batch = [] then (\<lparr>do_ok = True, do_wrote = False\<rparr>, w)
          else write_batch env batch False
                 (if length batch = MAX_DRAIN_PER_ITER then w\<lparr>wr_permit := True\<rparr> else w))
       (drain_batch (we_law env) (we_now env) MAX_DRAIN_PER_ITER (wr_queue w))"

text \<open>What follows the message in an iteration: traffic when no protocol message is pending, then
  the keepalive that is still owed.\<close>

definition writer_drain :: "writer_env \<Rightarrow> writer \<Rightarrow> (bool \<times> writer) option" where
  "writer_drain env w =
     (if wr_rx w \<noteq> [] then Some (True, w)
      else
        map_option (\<lambda>(drained, w).
          if \<not> do_ok drained then (False, w)
          else
            let (ok, w) = flush env w
            in if \<not> ok then (False, w)
               else (True, if do_wrote drained then (arm_read_deadline env (mark_written env w))\<lparr>wr_owed := False\<rparr> else w))
          (drain_traffic_queue env w))"

definition writer_answer :: "writer_env \<Rightarrow> writer \<Rightarrow> bool \<times> writer" where
  "writer_answer env w =
     (if wr_owed w \<and> wr_rx w = []
      then let (ok, w) = write_and_flush env keepalive_frame w
           in if \<not> ok then (False, w) else (True, w\<lparr>wr_owed := False\<rparr>)
      else (True, w))"

definition writer_rest :: "writer_env \<Rightarrow> bool \<times> writer \<Rightarrow> (bool \<times> writer) option" where
  "writer_rest env = (\<lambda>(go_on, w).
     if \<not> go_on then Some (False, w)
     else map_option (\<lambda>(go_on, w). if \<not> go_on then (False, w) else writer_answer env w) (writer_drain env w))"

text \<open>One iteration: the oldest message of the channel has priority over queued traffic, and both
  over the keepalive of an idle connection.\<close>

definition writer_iter :: "writer_env \<Rightarrow> writer \<Rightarrow> (bool \<times> writer) option" where
  "writer_iter env w =
     (case wr_rx w of
        SendFrame data # rx \<Rightarrow> writer_rest env (writer_send_frame env data (w\<lparr>wr_rx := rx\<rparr>))
      | ScheduleKeepalive # rx \<Rightarrow>
          writer_rest env (True, coalesce env rx (w\<lparr>wr_rx := rx, wr_owed := True\<rparr>))
      | [] \<Rightarrow>
          if wr_permit w then writer_rest env (True, w\<lparr>wr_permit := False\<rparr>)
          else let (ok, w) = write_and_flush env keepalive_frame w
               in if \<not> ok then Some (False, w) else Some (True, w\<lparr>wr_owed := False\<rparr>))"

text \<open>What happens to a writer: messages are put into the channel, packets into the queue (which
  wakes the writer), replies clear the deadline, and the loop runs.\<close>

datatype writer_event =
    Queued peer_message
  | TrafficQueued instant traffic_packet
  | Cleared
  | Iterate writer_env

fun writer_step :: "writer_event \<Rightarrow> bool \<times> writer \<Rightarrow> (bool \<times> writer) option" where
  "writer_step e (False, w) = Some (False, w)"
| "writer_step (Queued m) (True, w) = Some (True, w\<lparr>wr_rx := wr_rx w @ [m]\<rparr>)"
| "writer_step (TrafficQueued now t) (True, w) =
     Some (True, w\<lparr>wr_queue := pq_push now t (wr_queue w), wr_permit := True\<rparr>)"
| "writer_step Cleared (True, w) = Some (True, w\<lparr>wr_deadline := None, wr_epoch := None\<rparr>)"
| "writer_step (Iterate env) (True, w) = writer_iter env w"

fun writer_run :: "writer_event list \<Rightarrow> bool \<times> writer \<Rightarrow> (bool \<times> writer) option" where
  "writer_run [] s = Some s"
| "writer_run (e # es) s = Option.bind (writer_step e s) (writer_run es)"

section \<open>Deadlines of the reader\<close>

record reader_clock =
  rc_deadline :: "instant option"
  rc_epoch :: "arm_epoch option"
  rc_probes :: nat
  rc_silence :: duration

datatype poll_result = Wait duration | GiveUp

text \<open>The top of the poll loop: how long to wait for the next byte, or that the neighbour has been
  silent for too long. \<open>checked_duration_since\<close> is \<open>None\<close> when the deadline has passed. A probe is
  requested from the writer for every interval missed before the last.\<close>

definition poll_deadline ::
    "adaptive_timeout_config \<Rightarrow> nat \<Rightarrow> instant \<Rightarrow> durable_liveness \<Rightarrow> reader_clock \<Rightarrow>
     (poll_result \<times> peer_message list) \<times> reader_clock \<times> durable_liveness" where
  "poll_deadline cfg peer_probe_count now cell rc =
     (let interval = (case last_armed_timeout (rc_epoch rc) of Some t \<Rightarrow> t | None \<Rightarrow> ctrl_current cfg cell);
          remaining = (case rc_deadline rc of
                         Some d \<Rightarrow> (if now \<le> d then Some (d - now) else None)
                       | None \<Rightarrow> Some interval)
      in case remaining of
           Some wait \<Rightarrow> ((Wait wait, []), rc, cell)
         | None \<Rightarrow>
             let rc = rc\<lparr>rc_silence := rc_silence rc + interval\<rparr>
             in if rc_probes rc + 1 \<ge> peer_probe_count
                then let (epoch, cell) = on_timeout cfg cell
                     in ((GiveUp, []), rc\<lparr>rc_epoch := epoch\<rparr>, cell)
                else let upcoming = ctrl_current cfg cell
                     in ((Wait upcoming, [ScheduleKeepalive]),
                         rc\<lparr>rc_probes := rc_probes rc + 1, rc_deadline := Some (now + upcoming)\<rparr>, cell))"

definition frame_received ::
    "adaptive_timeout_config \<Rightarrow> instant \<Rightarrow> durable_liveness \<Rightarrow> reader_clock \<Rightarrow> reader_clock \<times> durable_liveness" where
  "frame_received cfg now cell rc =
     (let (slot, epoch, cell) = clear_on_reply cfg now (rc_epoch rc) cell
      in (\<lparr>rc_deadline = slot, rc_epoch = epoch, rc_probes = 0, rc_silence = 0\<rparr>, cell))"

definition writer_arms :: "adaptive_timeout_config \<Rightarrow> instant \<Rightarrow> durable_liveness \<Rightarrow> reader_clock \<Rightarrow> reader_clock" where
  "writer_arms cfg now cell rc =
     (let (slot, epoch) = arm cfg now cell (rc_deadline rc) (rc_epoch rc)
      in rc\<lparr>rc_deadline := slot, rc_epoch := epoch\<rparr>)"

datatype clock_event =
    Armed instant durable_liveness
  | Received instant durable_liveness
  | Polled instant durable_liveness

fun clock_step :: "adaptive_timeout_config \<Rightarrow> nat \<Rightarrow> clock_event \<Rightarrow> bool \<times> reader_clock \<Rightarrow> bool \<times> reader_clock" where
  "clock_step cfg n e (False, rc) = (False, rc)"
| "clock_step cfg n (Armed now cell) (True, rc) = (True, writer_arms cfg now cell rc)"
| "clock_step cfg n (Received now cell) (True, rc) = (True, fst (frame_received cfg now cell rc))"
| "clock_step cfg n (Polled now cell) (True, rc) =
     (let ((res, _), rc, _) = poll_deadline cfg n now cell rc in (res \<noteq> GiveUp, rc))"

definition reader_clock_new :: reader_clock where
  "reader_clock_new = \<lparr>rc_deadline = None, rc_epoch = None, rc_probes = 0, rc_silence = 0\<rparr>"


section \<open>Silent neighbours\<close>

text \<open>The bounds of the intervals, and that the reader never oversleeps a deadline by more than \<open>s\<close>.\<close>

fun event_cell :: "clock_event \<Rightarrow> durable_liveness" where
  "event_cell (Armed now cell) = cell"
| "event_cell (Received now cell) = cell"
| "event_cell (Polled now cell) = cell"

fun in_time :: "duration \<Rightarrow> clock_event \<Rightarrow> reader_clock \<Rightarrow> bool" where
  "in_time s (Polled now cell) rc = (case rc_deadline rc of Some d \<Rightarrow> now \<le> d + s | None \<Rightarrow> True)"
| "in_time s _ rc = True"

fun prompt_run :: "adaptive_timeout_config \<Rightarrow> nat \<Rightarrow> duration \<Rightarrow> clock_event list \<Rightarrow> bool \<times> reader_clock \<Rightarrow> bool" where
  "prompt_run cfg n s [] st = True"
| "prompt_run cfg n s (e # es) st = (in_time s e (snd st) \<and> prompt_run cfg n s es (clock_step cfg n e st))"

fun is_received :: "clock_event \<Rightarrow> bool" where
  "is_received (Received now cell) = True"
| "is_received _ = False"

definition unanswered :: "clock_event list \<Rightarrow> instant \<Rightarrow> bool" where
  "unanswered es t \<longleftrightarrow> (\<exists>es0 cell es1. es = es0 @ Armed t cell # es1 \<and> list_all (Not \<circ> is_received) es1)"

definition clock_inv ::
    "duration \<Rightarrow> duration \<Rightarrow> duration \<Rightarrow> nat \<Rightarrow> clock_event list \<Rightarrow> reader_clock \<Rightarrow> bool" where
  "clock_inv lo hi s n es rc \<longleftrightarrow>
     (case rc_deadline rc of
        None \<Rightarrow> rc_epoch rc = None \<and> rc_probes rc = 0
      | Some d \<Rightarrow> \<exists>e. rc_epoch rc = Some e \<and> unanswered es (ae_at e) \<and> rc_probes rc < max n 1 \<and>
          ae_at e + (rc_probes rc + 1) * lo \<le> d \<and> d \<le> ae_at e + (rc_probes rc + 1) * hi + rc_probes rc * s)"

lemma unanswered_snoc:
  assumes "unanswered es t" "\<not> is_received e"
  shows "unanswered (es @ [e]) t"
proof -
  obtain es0 cell es1 where "es = es0 @ Armed t cell # es1" "list_all (Not \<circ> is_received) es1"
    using assms(1) by (auto simp: unanswered_def)
  then show ?thesis using assms(2) unfolding unanswered_def
    by (intro exI [of _ es0] exI [of _ cell] exI [of _ "es1 @ [e]"]) simp
qed

lemma unanswered_armed: "unanswered (es @ [Armed t cell]) t"
  unfolding unanswered_def by fastforce

lemma fold_dead: "fold (clock_step cfg n) es (False, rc) = (False, rc)"
  by (induction es) auto

lemma prompt_run_append:
  "prompt_run cfg n s (es @ es') st = (prompt_run cfg n s es st \<and> prompt_run cfg n s es' (fold (clock_step cfg n) es st))"
  by (induction es arbitrary: st) auto

lemma clock_inv_step:
  assumes inv: "clock_inv lo hi s n es rc" and bounds: "lo \<le> ctrl_current cfg (event_cell e)" "ctrl_current cfg (event_cell e) \<le> hi"
    and "in_time s e rc" and step: "clock_step cfg n e (True, rc) = (True, rc')"
  shows "clock_inv lo hi s n (es @ [e]) rc'"
proof (cases e)
  case (Armed now cell)
  show ?thesis
  proof (cases "rc_deadline rc")
    case None
    then have "rc' = rc\<lparr>rc_deadline := Some (now + ctrl_current cfg cell), rc_epoch := Some \<lparr>ae_at = now, ae_timeout = ctrl_current cfg cell\<rparr>\<rparr>"
      using step Armed by (simp add: writer_arms_def arm_def Let_def)
    then show ?thesis using None inv bounds Armed by (simp add: clock_inv_def unanswered_armed)
  next
    case (Some d)
    then have "rc' = rc" using step Armed by (cases rc) (auto simp: writer_arms_def arm_def)
    then show ?thesis using inv Some Armed unanswered_snoc [of es _ e] by (auto simp: clock_inv_def)
  qed
next
  case (Received now cell)
  then show ?thesis using step by (auto simp: clock_inv_def frame_received_def clear_on_reply_def Let_def)
next
  case (Polled now cell)
  show ?thesis
  proof (cases "rc_deadline rc")
    case None
    then show ?thesis using inv step Polled by (auto simp: clock_inv_def poll_deadline_def Let_def)
  next
    case (Some d)
    obtain e' where e': "rc_epoch rc = Some e'" "unanswered es (ae_at e')" "rc_probes rc < max n 1"
      "ae_at e' + (rc_probes rc + 1) * lo \<le> d" "d \<le> ae_at e' + (rc_probes rc + 1) * hi + rc_probes rc * s"
      using inv Some by (auto simp: clock_inv_def)
    have un: "unanswered (es @ [e]) (ae_at e')" using e'(2) Polled by (simp add: unanswered_snoc)
    show ?thesis
    proof (cases "now \<le> d")
      case True
      then have "rc' = rc" using step Polled Some by (auto simp: poll_deadline_def Let_def)
      then show ?thesis using e' un Some by (simp add: clock_inv_def)
    next
      case False
      then have "\<not> n \<le> rc_probes rc + 1" "rc_deadline rc' = Some (now + ctrl_current cfg cell)" "rc_epoch rc' = rc_epoch rc"
        "rc_probes rc' = rc_probes rc + 1"
        using step Polled Some by (auto simp: poll_deadline_def Let_def split: if_splits prod.splits)
      moreover have "now \<le> d + s" using assms(4) Polled Some by simp
      ultimately show ?thesis using e' un False bounds Polled by (auto simp: clock_inv_def algebra_simps)
    qed
  qed
qed

lemma clock_inv_run:
  assumes "list_all (\<lambda>e. lo \<le> ctrl_current cfg (event_cell e) \<and> ctrl_current cfg (event_cell e) \<le> hi) es"
    and "prompt_run cfg n s es (True, reader_clock_new)" "fold (clock_step cfg n) es (True, reader_clock_new) = (True, rc)"
  shows "clock_inv lo hi s n es rc"
  using assms
proof (induction es arbitrary: rc rule: rev_induct)
  case Nil
  then show ?case by (auto simp: clock_inv_def reader_clock_new_def)
next
  case (snoc e es)
  obtain b rc1 where rc1: "fold (clock_step cfg n) es (True, reader_clock_new) = (b, rc1)" by fastforce
  then have "b" using snoc.prems(3) by (cases b) auto
  then have "clock_inv lo hi s n es rc1" using snoc rc1 by (simp add: prompt_run_append)
  then show ?case using snoc.prems rc1 \<open>b\<close>
    by (intro clock_inv_step [of lo hi s n es rc1 cfg]) (simp_all add: prompt_run_append)
qed

text \<open>C22. A link is given up for silence exactly when the neighbour owes an answer for too long. Let
  every interval lie between \<open>lo\<close> and \<open>hi\<close> and the reader oversleep a deadline by at most \<open>s\<close>.
  Whatever the writer arms, the neighbour sends and the liveness state does in between: when the
  reader gives up, a frame that needs an answer was flushed at a time \<open>t\<close>, nothing arrived since,
  and more than \<open>lo\<close> times the number of probes has passed since \<open>t\<close>; and when it does not give
  up while such a frame is unanswered, at most \<open>hi + s\<close> times the number of probes has passed.\<close>

theorem silence_tolerated_exactly:
  assumes "list_all (\<lambda>e. lo \<le> ctrl_current cfg (event_cell e) \<and> ctrl_current cfg (event_cell e) \<le> hi) (es @ [Polled now cell])"
    and "prompt_run cfg n s (es @ [Polled now cell]) (True, reader_clock_new)"
    and "fold (clock_step cfg n) es (True, reader_clock_new) = (True, rc)"
  shows "case fst (fst (poll_deadline cfg n now cell rc)) of
     GiveUp \<Rightarrow> \<exists>t. unanswered es t \<and> t + max n 1 * lo < now
   | Wait w \<Rightarrow> rc_epoch rc = None \<or>
       (\<exists>e. rc_epoch rc = Some e \<and> unanswered es (ae_at e) \<and> now \<le> ae_at e + max n 1 * (hi + s))"
proof (cases "rc_deadline rc")
  case None
  then show ?thesis using clock_inv_run [OF _ _ assms(3), of lo hi s] assms(1,2)
    by (auto simp: clock_inv_def poll_deadline_def Let_def prompt_run_append)
next
  case (Some d)
  then obtain e where e: "rc_epoch rc = Some e" "unanswered es (ae_at e)" "rc_probes rc < max n 1"
    "ae_at e + (rc_probes rc + 1) * lo \<le> d" "d \<le> ae_at e + (rc_probes rc + 1) * hi + rc_probes rc * s"
    using clock_inv_run [OF _ _ assms(3), of lo hi s] assms(1,2) by (auto simp: clock_inv_def prompt_run_append)
  have late: "now \<le> d + s" using assms(2,3) Some by (simp add: prompt_run_append)
  let ?k = "rc_probes rc + 1" and ?N = "max n 1"
  have mono: "?k * x \<le> ?N * x" for x :: nat using e(3) by (intro mult_le_mono1) simp
  have "now \<le> ae_at e + ?k * (hi + s)" using late e(5) by (simp add: algebra_simps)
  also have "\<dots> \<le> ae_at e + ?N * (hi + s)" using mono by simp
  finally have upper: "now \<le> ae_at e + ?N * (hi + s)" .
  have "ae_at e + ?N * lo < now" if "fst (fst (poll_deadline cfg n now cell rc)) = GiveUp"
  proof -
    have "d < now" "n \<le> ?k"
      using that Some by (auto simp: poll_deadline_def Let_def split: if_splits prod.splits)
    then have "?N = ?k" using e(3) by simp
    then show ?thesis using \<open>d < now\<close> e(4) by simp
  qed
  then show ?thesis using e(1,2) upper by (auto split: poll_result.splits)
qed

definition one_silence :: "clock_event list" where
  "one_silence = [Armed 0 (durable_liveness_new 0), Polled (secs 15 + 1) (durable_liveness_new 0),
     Polled (secs 30 + 2) (durable_liveness_new 0)]"

theorem silence_tolerated_exactly_witness:
  "\<exists>t. unanswered one_silence t \<and> t + 3 * secs 15 < secs 45 + 3"
proof -
  let ?c = "durable_liveness_new 0" and ?cfg = adaptive_timeout_default
  have cur: "ctrl_current ?cfg ?c = secs 15"
    by (simp add: ctrl_current_def compute_def adaptive_timeout_default_def)
  let ?rc = "snd (fold (clock_step ?cfg 3) one_silence (True, reader_clock_new))"
  have rc: "fold (clock_step ?cfg 3) one_silence (True, reader_clock_new) =
    (True, \<lparr>rc_deadline = Some (secs 45 + 2), rc_epoch = Some \<lparr>ae_at = 0, ae_timeout = secs 15\<rparr>, rc_probes = 2, rc_silence = secs 30\<rparr>)"
    by (simp add: one_silence_def reader_clock_new_def writer_arms_def arm_def cur poll_deadline_def last_armed_timeout_def Let_def)
  have "list_all (\<lambda>e. secs 15 \<le> ctrl_current ?cfg (event_cell e) \<and> ctrl_current ?cfg (event_cell e) \<le> secs 15)
      (one_silence @ [Polled (secs 45 + 3) ?c])"
    by (simp add: one_silence_def cur)
  moreover have "prompt_run ?cfg 3 1 (one_silence @ [Polled (secs 45 + 3) ?c]) (True, reader_clock_new)"
    by (simp add: one_silence_def reader_clock_new_def writer_arms_def arm_def cur poll_deadline_def last_armed_timeout_def Let_def)
  moreover have "fst (fst (poll_deadline ?cfg 3 (secs 45 + 3) ?c ?rc)) = GiveUp"
    by (simp add: rc poll_deadline_def Let_def split: prod.splits)
  ultimately show ?thesis using silence_tolerated_exactly [OF _ _ rc, of "secs 15" "secs 15" "secs 45 + 3" ?c 1] rc
    by simp
qed

end
