(* ===== verification/Peer_Link.thy ===== *)
theory Peer_Link
  imports Peer_Io
begin

text \<open>
  What the writer of \<open>Peer_Io\<close> puts on the wire, and what the reader of \<open>Peer_Frames\<close> at the other
  end of the link makes of it: order and completeness of the stream when the connection breaks
  anywhere, and an idle writer has nothing left to do.
\<close>

section \<open>What the writer puts on the wire\<close>

text \<open>The messages of the channel and the packets of the queue as the rest of the node makes them:
  frames of router actions, keepalives, requests for a keepalive (\<open>Later\<close>).\<close>

datatype item = Answer | Act router_action | Later

fun item_msg :: "item \<Rightarrow> peer_message" where
  "item_msg Answer = SendFrame keepalive_frame"
| "item_msg (Act a) = SendFrame (frames_of [a])"
| "item_msg Later = ScheduleKeepalive"

fun item_bytes :: "item \<Rightarrow> bytes" where
  "item_bytes Answer = keepalive_frame"
| "item_bytes (Act a) = frames_of [a]"
| "item_bytes Later = []"

fun packet_of :: "item \<Rightarrow> traffic_packet option" where
  "packet_of (Act (SendTraffic p t)) = Some t"
| "packet_of _ = None"

fun proto_of :: "item \<Rightarrow> router_action option" where
  "proto_of (Act (SendTraffic p t)) = None"
| "proto_of (Act a) = Some a"
| "proto_of _ = None"

abbreviation packets_of :: "item list \<Rightarrow> traffic_packet list" where
  "packets_of \<equiv> List.map_filter packet_of"

abbreviation protos_of :: "item list \<Rightarrow> router_action list" where
  "protos_of \<equiv> List.map_filter proto_of"

text \<open>A connection that breaks at operation \<open>n\<close> for good, \<open>k\<close> bytes into a frame that goes to it directly.\<close>

definition breaks_at :: "nat \<Rightarrow> nat \<Rightarrow> writer_env \<Rightarrow> bool" where
  "breaks_at n k env \<longleftrightarrow> we_cut env = (\<lambda>i. if i < n then None else if i = n then Some k else Some 0)"

definition stream_ok :: "nat \<Rightarrow> item list \<Rightarrow> writer \<Rightarrow> bool" where
  "stream_ok n items w \<longleftrightarrow>
     prefix (wr_out w) (concat (map item_bytes items)) \<and>
     (wr_ops w \<le> n \<longrightarrow> wr_out w = concat (map item_bytes items))"

lemma stream_ok_write:
  assumes "stream_ok n items w" "breaks_at n k env"
  shows "stream_ok n (items @ [x]) (snd (write_all env (item_bytes x) w))"
proof -
  have p: "prefix (wr_out w) (concat (map item_bytes items) @ ys)" for ys
    using assms(1) by (auto simp: stream_ok_def prefix_def)
  show ?thesis
    using assms p [of "item_bytes x"]
    by (auto simp: stream_ok_def write_all_def breaks_at_def take_is_prefix not_less)
qed

lemma stream_ok_flush: "stream_ok n items w \<Longrightarrow> stream_ok n items (snd (flush env w))"
  by (auto simp: stream_ok_def flush_def split: option.splits)

lemma stream_ok_later: "stream_ok n items w \<Longrightarrow> stream_ok n (items @ [Later]) w"
  by (simp add: stream_ok_def)

lemma stream_ok_cong:
  "wr_out w' = wr_out w \<Longrightarrow> wr_ops w' = wr_ops w \<Longrightarrow> stream_ok n items w \<Longrightarrow> stream_ok n items w'"
  by (simp add: stream_ok_def)

text \<open>The helpers leave the channel and the queue alone.\<close>

definition same_inputs :: "writer \<Rightarrow> writer \<Rightarrow> bool" where
  "same_inputs w w' \<longleftrightarrow> wr_rx w' = wr_rx w \<and> wr_queue w' = wr_queue w \<and> wr_permit w' = wr_permit w"

lemma arm_read_deadline_simps [simp]:
  "wr_out (arm_read_deadline env w) = wr_out w" "wr_ops (arm_read_deadline env w) = wr_ops w"
  "wr_rx (arm_read_deadline env w) = wr_rx w" "wr_queue (arm_read_deadline env w) = wr_queue w"
  "wr_permit (arm_read_deadline env w) = wr_permit w" "wr_owed (arm_read_deadline env w) = wr_owed w"
  "wr_flushed (arm_read_deadline env w) = wr_flushed w"
  by (simp_all add: arm_read_deadline_def split: prod.splits)

lemma mark_simps [simp]:
  "wr_out (mark_written env w) = wr_out w" "wr_ops (mark_written env w) = wr_ops w"
  "wr_rx (mark_written env w) = wr_rx w" "wr_queue (mark_written env w) = wr_queue w"
  "wr_permit (mark_written env w) = wr_permit w" "wr_owed (mark_written env w) = wr_owed w"
  "wr_flushed (mark_written env w) = wr_flushed w"
  "wr_out (mark_sig_req_sent env f w) = wr_out w" "wr_ops (mark_sig_req_sent env f w) = wr_ops w"
  "wr_rx (mark_sig_req_sent env f w) = wr_rx w" "wr_queue (mark_sig_req_sent env f w) = wr_queue w"
  "wr_permit (mark_sig_req_sent env f w) = wr_permit w" "wr_owed (mark_sig_req_sent env f w) = wr_owed w"
  "wr_flushed (mark_sig_req_sent env f w) = wr_flushed w"
  by (simp_all add: mark_written_def mark_sig_req_sent_def)

lemma write_all_same: "same_inputs w (snd (write_all env f w))" "wr_owed (snd (write_all env f w)) = wr_owed w"
  by (auto simp: same_inputs_def write_all_def split: option.splits)

lemma flush_same: "same_inputs w (snd (flush env w))" "wr_owed (snd (flush env w)) = wr_owed w"
  "fst (flush env w) \<Longrightarrow> wr_flushed (snd (flush env w)) = length (wr_out (snd (flush env w)))"
  by (auto simp: same_inputs_def flush_def split: option.splits)

lemma write_and_flush_effect:
  "same_inputs w (snd (write_and_flush env f w))"
  "wr_owed (snd (write_and_flush env f w)) = wr_owed w"
  "fst (write_and_flush env f w) \<Longrightarrow>
     wr_flushed (snd (write_and_flush env f w)) = length (wr_out (snd (write_and_flush env f w)))"
  "stream_ok n items w \<Longrightarrow> breaks_at n k env \<Longrightarrow> stream_ok n (items @ [x]) (snd (write_and_flush env (item_bytes x) w))"
proof -
  let ?w = "\<lambda>f. snd (write_all env f w)"
  have e: "write_and_flush env f w = (if \<not> fst (write_all env f w) then (False, ?w f)
     else if \<not> fst (flush env (?w f)) then (False, snd (flush env (?w f)))
     else (True, mark_written env (snd (flush env (?w f)))))" for f
    by (simp add: write_and_flush_def Let_def split: prod.splits)
  show "same_inputs w (snd (write_and_flush env f w))" "wr_owed (snd (write_and_flush env f w)) = wr_owed w"
    "fst (write_and_flush env f w) \<Longrightarrow>
     wr_flushed (snd (write_and_flush env f w)) = length (wr_out (snd (write_and_flush env f w)))"
    using write_all_same [where w = w and env = env and f = f] flush_same [where w = "?w f" and env = env] by (auto simp: e same_inputs_def)
  show "stream_ok n (items @ [x]) (snd (write_and_flush env (item_bytes x) w))" if "stream_ok n items w" "breaks_at n k env"
    using stream_ok_write [OF that, of x] stream_ok_flush [OF stream_ok_write [OF that, of x], of env]
    by (auto simp: e intro: stream_ok_cong)
qed

lemma coalesce_effect:
  assumes "stream_ok n items w" "breaks_at n k env"
  shows "\<exists>done rest. xs = done @ rest \<and> stream_ok n (items @ done) (coalesce env (map item_msg xs) w) \<and>
    wr_rx (coalesce env (map item_msg xs) w) = map item_msg rest"
  using assms(1)
proof (induction xs arbitrary: items w)
  case Nil
  then show ?case by (auto intro: stream_ok_cong)
next
  case (Cons x xs)
  show ?case
  proof (cases "x = Later")
    case True
    have "stream_ok n (items @ [Later]) (w\<lparr>wr_owed := True\<rparr>)"
      by (rule stream_ok_cong [OF _ _ stream_ok_later [OF Cons.prems]]) simp_all
    from Cons.IH [OF this] obtain d r where "xs = d @ r"
      "stream_ok n ((items @ [Later]) @ d) (coalesce env (map item_msg xs) (w\<lparr>wr_owed := True\<rparr>))"
      "wr_rx (coalesce env (map item_msg xs) (w\<lparr>wr_owed := True\<rparr>)) = map item_msg r" by blast
    then show ?thesis using True by (intro exI [of _ "Later # d"] exI [of _ r]) simp
  next
    case False
    then have m: "item_msg x = SendFrame (item_bytes x)" by (cases x) simp_all
    obtain ok w1 where w1: "write_and_flush env (item_bytes x) w = (ok, w1)" by fastforce
    have s1: "stream_ok n (items @ [x]) w1"
      using write_and_flush_effect(4) [OF Cons.prems assms(2), of x] w1 by simp
    show ?thesis
    proof (cases ok)
      case True
      let ?w2 = "(mark_sig_req_sent env (item_bytes x) w1)\<lparr>wr_owed := False\<rparr>"
      have "stream_ok n (items @ [x]) ?w2" by (rule stream_ok_cong [OF _ _ s1]) simp_all
      from Cons.IH [OF this] obtain d r where "xs = d @ r" "stream_ok n ((items @ [x]) @ d) (coalesce env (map item_msg xs) ?w2)"
        "wr_rx (coalesce env (map item_msg xs) ?w2) = map item_msg r" by blast
      then show ?thesis using m w1 True by (intro exI [of _ "x # d"] exI [of _ r]) simp
    next
      case False
      have "stream_ok n (items @ [x]) (w1\<lparr>wr_rx := map item_msg xs\<rparr>)" by (rule stream_ok_cong [OF _ _ s1]) simp_all
      then show ?thesis using m w1 False by (intro exI [of _ "[x]"] exI [of _ xs]) simp
    qed
  qed
qed


section \<open>Draining the queue\<close>

lemma drain_batch_ok:
  assumes "pq_ok quantum q"
  shows "\<exists>batch q'. drain_batch law now n q = Some (batch, q') \<and> pq_ok quantum q' \<and>
    length batch \<le> n \<and> (length batch < n \<longrightarrow> pq_count q' = 0) \<and>
    (\<forall>k. subseq (filter (\<lambda>a. packet_key a = k) batch @ pq_view q' k) (pq_view q k))"
  using assms
proof (induction n arbitrary: q)
  case (Suc n)
  obtain out q1 where q1: "pop_codel law now q = Some (out, q1)" "pq_ok quantum q1" "out = None \<longrightarrow> pq_count q1 = 0"
    "\<And>k. subseq (filter (\<lambda>a. packet_key a = k) (opt_list out) @ pq_view q1 k) (pq_view q k)"
    using pop_codel_step [OF Suc.prems, of law now] by blast
  show ?case
  proof (cases out)
    case None
    then show ?thesis using q1 by (auto simp: opt_list_def)
  next
    case (Some t)
    obtain batch q' where b: "drain_batch law now n q1 = Some (batch, q')" "pq_ok quantum q'" "length batch \<le> n"
      "length batch < n \<longrightarrow> pq_count q' = 0"
      "\<And>k. subseq (filter (\<lambda>a. packet_key a = k) batch @ pq_view q' k) (pq_view q1 k)"
      using Suc.IH [OF q1(2)] by blast
    have "subseq (filter (\<lambda>a. packet_key a = k) (t # batch) @ pq_view q' k) (pq_view q k)" for k
    proof -
      let ?F = "filter (\<lambda>a. packet_key a = k)"
      have "subseq (?F [t] @ ?F batch @ pq_view q' k) (?F [t] @ pq_view q1 k)"
        using list_emb_append_mono [OF subseq_order.order_refl b(5) [of k], of "?F [t]"] by simp
      also have "subseq \<dots> (pq_view q k)" using q1(4) [of k] Some by (simp add: opt_list_def)
      finally show ?thesis by (simp split: if_splits)
    qed
    then show ?thesis using Some q1(1) b by auto
  qed
qed auto

lemma traffic_frame_item: "traffic_frame t = item_bytes (Act (SendTraffic p t))"
  by (simp add: traffic_frame_def frames_of_def)

lemma write_batch_effect:
  assumes "stream_ok n items w" "breaks_at n k env"
  shows "\<exists>ts us. batch = ts @ us \<and> stream_ok n (items @ map (\<lambda>t. Act (SendTraffic 0 t)) ts) (snd (write_batch env batch wrote w)) \<and>
    same_inputs w (snd (write_batch env batch wrote w))"
  using assms(1)
proof (induction batch arbitrary: items w wrote)
  case Nil
  then show ?case by (auto simp: same_inputs_def)
next
  case (Cons t batch)
  obtain ok w1 where w1: "write_all env (traffic_frame t) w = (ok, w1)" by fastforce
  have s1: "stream_ok n (items @ [Act (SendTraffic 0 t)]) w1"
    using stream_ok_write [OF Cons.prems assms(2), of "Act (SendTraffic 0 t)"] w1 by (simp add: traffic_frame_item [of _ 0])
  have i1: "same_inputs w w1" using write_all_same(1) [of w env "traffic_frame t"] w1 by simp
  show ?case
  proof (cases ok)
    case True
    obtain ts us where "batch = ts @ us" "stream_ok n ((items @ [Act (SendTraffic 0 t)]) @ map (\<lambda>t. Act (SendTraffic 0 t)) ts) (snd (write_batch env batch True w1))"
      "same_inputs w1 (snd (write_batch env batch True w1))"
      using Cons.IH [OF s1, of True] by blast
    then show ?thesis using w1 i1 True by (intro exI [of _ "t # ts"] exI [of _ us]) (simp add: same_inputs_def)
  next
    case False
    then show ?thesis using w1 s1 i1 by (intro exI [of _ "[t]"] exI [of _ batch]) simp
  qed
qed

lemma drain_traffic_queue_effect:
  assumes "pq_ok quantum (wr_queue w)" "stream_ok n items w" "breaks_at n k env"
  shows "\<exists>d w' ts. drain_traffic_queue env w = Some (d, w') \<and> pq_ok quantum (wr_queue w') \<and> wr_rx w' = wr_rx w \<and>
    stream_ok n (items @ map (\<lambda>t. Act (SendTraffic 0 t)) ts) w' \<and>
    (\<forall>j. subseq (filter (\<lambda>a. packet_key a = j) ts @ pq_view (wr_queue w') j) (pq_view (wr_queue w) j))"
proof -
  obtain batch q where b: "drain_batch (we_law env) (we_now env) MAX_DRAIN_PER_ITER (wr_queue w) = Some (batch, q)" "pq_ok quantum q"
    "\<And>j. subseq (filter (\<lambda>a. packet_key a = j) batch @ pq_view q j) (pq_view (wr_queue w) j)"
    using drain_batch_ok [OF assms(1)] by blast
  define w1 where "w1 = (if length batch = MAX_DRAIN_PER_ITER then w\<lparr>wr_queue := q, wr_permit := True\<rparr> else w\<lparr>wr_queue := q\<rparr>)"
  have s1: "stream_ok n items w1" by (rule stream_ok_cong [OF _ _ assms(2)]) (simp_all add: w1_def)
  obtain ts us where ts: "batch = ts @ us"
    "stream_ok n (items @ map (\<lambda>t. Act (SendTraffic 0 t)) ts) (snd (write_batch env batch False w1))"
    "same_inputs w1 (snd (write_batch env batch False w1))"
    using write_batch_effect [OF s1 assms(3), of batch False] by blast
  have d: "drain_traffic_queue env w = Some (write_batch env batch False w1)"
    using b(1) by (auto simp: drain_traffic_queue_def w1_def Let_def MAX_DRAIN_PER_ITER_def)
  have "subseq (filter (\<lambda>a. packet_key a = j) ts @ pq_view q j) (pq_view (wr_queue w) j)" for j
  proof -
    let ?F = "filter (\<lambda>a. packet_key a = j)"
    have "subseq (?F ts @ pq_view q j) (?F batch @ pq_view q j)"
      unfolding ts(1) by (intro list_emb_append_mono subseq_order.order_refl) (simp add: subseq_rev_drop_many)
    also have "subseq \<dots> (pq_view (wr_queue w) j)" by (rule b(3))
    finally show ?thesis .
  qed
  moreover have "wr_queue (snd (write_batch env batch False w1)) = q" "wr_rx (snd (write_batch env batch False w1)) = wr_rx w"
    using ts(3) by (simp_all add: same_inputs_def w1_def)
  ultimately show ?thesis
    unfolding d using ts(2) b(2) by (intro exI [of _ "fst (write_batch env batch False w1)"]
      exI [of _ "snd (write_batch env batch False w1)"] exI [of _ ts]) simp
qed

section \<open>The invariant of the stream\<close>

text \<open>Everything accepted so far: what was written (\<open>items\<close>) and what waits in the channel (\<open>xs\<close>).\<close>

definition plain :: "item \<Rightarrow> bool" where
  "plain x \<longleftrightarrow> packet_of x = None"

definition link_inv ::
    "nat \<Rightarrow> u64 \<Rightarrow> router_action list \<Rightarrow> traffic_packet list \<Rightarrow> bool \<times> writer \<Rightarrow> item list \<Rightarrow> item list \<Rightarrow> bool" where
  "link_inv n quantum acts ps = (\<lambda>(go, w) items xs.
     stream_ok n items w \<and> pq_ok quantum (wr_queue w) \<and> wr_rx w = map item_msg xs \<and> list_all plain xs \<and>
     (if go then protos_of items @ protos_of xs = acts else prefix (protos_of items) acts) \<and>
     (\<forall>j. subseq (filter (\<lambda>a. packet_key a = j) (packets_of items) @ pq_view (wr_queue w) j)
            (filter (\<lambda>a. packet_key a = j) ps)))"

lemma map_filter_traffic [simp]:
  "packets_of (map (\<lambda>t. Act (SendTraffic p t)) ts) = ts" "protos_of (map (\<lambda>t. Act (SendTraffic p t)) ts) = []"
  by (induction ts) (simp_all add: map_filter_simps)

lemma plain_packets: "list_all plain xs \<Longrightarrow> packets_of xs = []"
  by (induction xs) (simp_all add: map_filter_simps plain_def)

lemma map_filter_append [simp]: "List.map_filter f (xs @ ys) = List.map_filter f xs @ List.map_filter f ys"
  by (simp add: List.map_filter_def)

text \<open>Writing waiting messages moves them from the channel to the stream.\<close>

lemma link_inv_take:
  assumes "link_inv n quantum acts ps (True, w) items (ys @ xs)" "stream_ok n (items @ ys) w'"
    "wr_queue w' = wr_queue w" "wr_rx w' = map item_msg xs"
  shows "link_inv n quantum acts ps (go, w') (items @ ys) xs"
  using assms by (auto simp: link_inv_def plain_packets prefix_def)

lemma link_inv_stop: "link_inv n quantum acts ps (True, w) items xs \<Longrightarrow> link_inv n quantum acts ps (go, w) items xs"
  by (auto simp: link_inv_def prefix_def)

lemma writer_drain_eq:
  assumes "wr_rx w = []" "drain_traffic_queue env w = Some (d, w1)"
  shows "writer_drain env w = Some
    (if \<not> do_ok d then (False, w1)
     else if \<not> fst (flush env w1) then (False, snd (flush env w1))
     else (True, if do_wrote d then (arm_read_deadline env (mark_written env (snd (flush env w1))))\<lparr>wr_owed := False\<rparr>
                 else snd (flush env w1)))"
  using assms by (simp add: writer_drain_def case_prod_beta Let_def)

lemma link_inv_drain:
  assumes "link_inv n quantum acts ps (True, w) items xs" "breaks_at n k env"
  shows "\<exists>go w' items'. writer_drain env w = Some (go, w') \<and> link_inv n quantum acts ps (go, w') items' xs"
proof (cases "wr_rx w = []")
  case False
  then show ?thesis using assms by (auto simp: writer_drain_def)
next
  case True
  obtain d w1 ts where d: "drain_traffic_queue env w = Some (d, w1)" "pq_ok quantum (wr_queue w1)" "wr_rx w1 = wr_rx w"
    "stream_ok n (items @ map (\<lambda>t. Act (SendTraffic 0 t)) ts) w1"
    "\<And>j. subseq (filter (\<lambda>a. packet_key a = j) ts @ pq_view (wr_queue w1) j) (pq_view (wr_queue w) j)"
    using drain_traffic_queue_effect [of quantum w n items k env] assms by (auto simp: link_inv_def)
  let ?items = "items @ map (\<lambda>t. Act (SendTraffic 0 t)) ts"
  have "subseq (filter (\<lambda>a. packet_key a = j) (packets_of ?items) @ pq_view (wr_queue w1) j) (filter (\<lambda>a. packet_key a = j) ps)" for j
  proof -
    let ?F = "filter (\<lambda>a. packet_key a = j)"
    have "subseq (?F (packets_of items) @ ?F ts @ pq_view (wr_queue w1) j) (?F (packets_of items) @ pq_view (wr_queue w) j)"
      by (rule list_emb_append_mono [OF subseq_order.order_refl d(5)])
    also have "subseq \<dots> (?F ps)" using assms(1) by (simp add: link_inv_def)
    finally show ?thesis by simp
  qed
  then have inv: "link_inv n quantum acts ps (True, w1) ?items xs"
    using d(2-4) assms(1) by (auto simp: link_inv_def)
  have same: "link_inv n quantum acts ps (True, w') ?items xs"
    if "wr_rx w' = wr_rx w1" "wr_queue w' = wr_queue w1" "stream_ok n ?items w'" for w'
    using inv that by (simp add: link_inv_def)
  define w2 where "w2 = snd (flush env w1)"
  have f: "wr_rx w2 = wr_rx w1" "wr_queue w2 = wr_queue w1" "stream_ok n ?items w2"
    using flush_same(1) [of w1 env] stream_ok_flush [OF d(4), of env] by (simp_all add: same_inputs_def w2_def)
  have "link_inv n quantum acts ps (True, (arm_read_deadline env (mark_written env w2))\<lparr>wr_owed := False\<rparr>) ?items xs"
    using f by (intro same) (simp_all add: stream_ok_cong [of _ w2])
  then show ?thesis
    unfolding writer_drain_eq [OF True d(1)] w2_def [symmetric]
    using same [OF f] link_inv_stop [OF inv, of False] link_inv_stop [OF same [OF f], of False] by auto
qed

lemma link_inv_keepalive:
  assumes "link_inv n quantum acts ps (True, w) items xs" "breaks_at n k env" "write_and_flush env keepalive_frame w = (ok, w')"
  shows "link_inv n quantum acts ps (go, w') (items @ [Answer]) xs"
    and "link_inv n quantum acts ps (True, w'\<lparr>wr_owed := False\<rparr>) (items @ [Answer]) xs"
proof -
  have "same_inputs w w'" using write_and_flush_effect(1) [of w env keepalive_frame] assms(3) by simp
  moreover have s: "stream_ok n (items @ [Answer]) w'"
    using write_and_flush_effect(4) [of n items w k env Answer] assms by (simp add: link_inv_def)
  ultimately have "link_inv n quantum acts ps (True, w') (items @ [Answer]) xs"
    using assms(1) by (simp add: link_inv_def same_inputs_def map_filter_simps)
  then show "link_inv n quantum acts ps (go, w') (items @ [Answer]) xs"
    and "link_inv n quantum acts ps (True, w'\<lparr>wr_owed := False\<rparr>) (items @ [Answer]) xs"
    using stream_ok_cong [of "w'\<lparr>wr_owed := False\<rparr>" w'] s by (auto simp: link_inv_def prefix_def)
qed

lemma link_inv_answer:
  assumes "link_inv n quantum acts ps (True, w) items xs" "breaks_at n k env"
  shows "\<exists>items'. link_inv n quantum acts ps (writer_answer env w) items' xs"
proof -
  obtain ok w' where w': "write_and_flush env keepalive_frame w = (ok, w')" by fastforce
  note inv = link_inv_keepalive(2) [OF assms w'] link_inv_keepalive(1) [OF assms w', of False]
  have "writer_answer env w = (if wr_owed w \<and> wr_rx w = [] then if ok then (True, w'\<lparr>wr_owed := False\<rparr>) else (False, w') else (True, w))"
    using w' by (simp add: writer_answer_def)
  then show ?thesis using assms(1) inv by auto
qed

lemma link_inv_rest:
  assumes "link_inv n quantum acts ps (go, w) items xs" "breaks_at n k env"
  shows "\<exists>s items'. writer_rest env (go, w) = Some s \<and> link_inv n quantum acts ps s items' xs"
proof (cases go)
  case True
  obtain go1 w1 items1 where d: "writer_drain env w = Some (go1, w1)" "link_inv n quantum acts ps (go1, w1) items1 xs"
    using link_inv_drain [of n quantum acts ps w items xs k env] assms True by auto
  then show ?thesis using True link_inv_answer [of n quantum acts ps w1 items1 xs k env] assms(2)
    by (cases go1) (auto simp: writer_rest_def)
qed (use assms in \<open>auto simp: writer_rest_def\<close>)

lemma writer_send_frame_effect:
  assumes "stream_ok n items w" "breaks_at n k env"
  shows "same_inputs w (snd (writer_send_frame env (item_bytes x) w)) \<and>
    stream_ok n (items @ [x]) (snd (writer_send_frame env (item_bytes x) w))"
proof -
  let ?w1 = "snd (write_all env (item_bytes x) w)"
  let ?w2 = "snd (flush env ?w1)"
  have s: "stream_ok n (items @ [x]) ?w1" "stream_ok n (items @ [x]) ?w2"
    by (rule stream_ok_write [OF assms]) (rule stream_ok_flush [OF stream_ok_write [OF assms]])
  have i: "same_inputs w ?w1" "same_inputs w ?w2"
    using write_all_same(1) [of w env "item_bytes x"] flush_same(1) [of ?w1 env] by (auto simp: same_inputs_def)
  show ?thesis
    using s i by (auto simp: writer_send_frame_def case_prod_beta Let_def same_inputs_def intro: stream_ok_cong [of _ ?w2])
qed

lemma coalesce_same: "wr_queue (coalesce env rx w) = wr_queue w \<and> wr_permit (coalesce env rx w) = wr_permit w"
proof (induction rx arbitrary: w)
  case (Cons m rx)
  show ?case
  proof (cases m)
    case (SendFrame data)
    obtain ok w1 where w1: "write_and_flush env data w = (ok, w1)" by fastforce
    then have "same_inputs w w1" using write_and_flush_effect(1) [of w env data] by simp
    then show ?thesis using SendFrame w1 Cons.IH by (simp add: same_inputs_def)
  qed (simp add: Cons.IH)
qed simp

lemmas coalesce_queue [simp] = coalesce_same [THEN conjunct1] coalesce_same [THEN conjunct2]

lemma link_inv_iter:
  assumes "link_inv n quantum acts ps (True, w) items xs" "breaks_at n k env"
  shows "\<exists>s items' xs'. writer_iter env w = Some s \<and> link_inv n quantum acts ps s items' xs'"
proof (cases xs)
  case Nil
  then have rx: "wr_rx w = []" using assms(1) by (simp add: link_inv_def)
  show ?thesis
  proof (cases "wr_permit w")
    case True
    have "link_inv n quantum acts ps (True, w\<lparr>wr_permit := False\<rparr>) items xs"
      using assms(1) stream_ok_cong [of "w\<lparr>wr_permit := False\<rparr>" w] by (simp add: link_inv_def)
    from link_inv_rest [OF this assms(2)] show ?thesis using True rx by (auto simp: writer_iter_def)
  next
    case False
    obtain ok w' where w': "write_and_flush env keepalive_frame w = (ok, w')" by fastforce
    have "writer_iter env w = Some (if ok then (True, w'\<lparr>wr_owed := False\<rparr>) else (False, w'))"
      using rx False w' by (simp add: writer_iter_def)
    then show ?thesis using link_inv_keepalive(2) [OF assms w'] link_inv_keepalive(1) [OF assms w', of False] by auto
  qed
next
  case (Cons x xs')
  then have rx: "wr_rx w = item_msg x # map item_msg xs'" and s: "stream_ok n items w"
    using assms(1) by (simp_all add: link_inv_def)
  show ?thesis
  proof (cases "x = Later")
    case True
    let ?w = "w\<lparr>wr_rx := map item_msg xs', wr_owed := True\<rparr>"
    have "stream_ok n (items @ [Later]) ?w" by (rule stream_ok_cong [OF _ _ stream_ok_later [OF s]]) simp_all
    from coalesce_effect [OF this assms(2), of xs'] obtain d r where c: "xs' = d @ r"
      "stream_ok n ((items @ [Later]) @ d) (coalesce env (map item_msg xs') ?w)"
      "wr_rx (coalesce env (map item_msg xs') ?w) = map item_msg r" by blast
    have "link_inv n quantum acts ps (True, coalesce env (map item_msg xs') ?w) (items @ Later # d) r"
      using link_inv_take [of n quantum acts ps w items "Later # d" r] assms(1) c Cons True by simp
    from link_inv_rest [OF this assms(2)] show ?thesis using rx True by (auto simp: writer_iter_def)
  next
    case False
    then have m: "item_msg x = SendFrame (item_bytes x)" by (cases x) simp_all
    let ?w = "w\<lparr>wr_rx := map item_msg xs'\<rparr>"
    have "stream_ok n items ?w" by (rule stream_ok_cong [OF _ _ s]) simp_all
    note e = writer_send_frame_effect [OF this assms(2), of x]
    obtain go w' where w': "writer_send_frame env (item_bytes x) ?w = (go, w')" by fastforce
    have "link_inv n quantum acts ps (go, w') (items @ [x]) xs'"
      using link_inv_take [of n quantum acts ps w items "[x]" xs' w' go] assms(1) e w' Cons by (simp add: same_inputs_def)
    from link_inv_rest [OF this assms(2)] show ?thesis using rx m w' by (auto simp: writer_iter_def)
  qed
qed


section \<open>From one router to the other\<close>

datatype link_input = Accept item | AcceptPacket instant traffic_packet | Forget | Run writer_env

fun to_event :: "link_input \<Rightarrow> writer_event" where
  "to_event (Accept x) = Queued (item_msg x)"
| "to_event (AcceptPacket now t) = TrafficQueued now t"
| "to_event Forget = Cleared"
| "to_event (Run env) = Iterate env"

definition good_action :: "verifier \<Rightarrow> link_end \<Rightarrow> u64 \<Rightarrow> router_action \<Rightarrow> bool" where
  "good_action verify le max_size a \<longleftrightarrow> genuine verify le a \<and> fits max_size a"

fun input_ok :: "verifier \<Rightarrow> link_end \<Rightarrow> u64 \<Rightarrow> nat \<Rightarrow> nat \<Rightarrow> link_input \<Rightarrow> bool" where
  "input_ok verify le max_size n k (Accept x) = (plain x \<and> list_all (good_action verify le max_size) (protos_of [x]))"
| "input_ok verify le max_size n k (AcceptPacket now t) = good_action verify le max_size (SendTraffic 0 t)"
| "input_ok verify le max_size n k Forget = True"
| "input_ok verify le max_size n k (Run env) = breaks_at n k env"

fun accepted_item :: "link_input \<Rightarrow> item option" where
  "accepted_item (Accept x) = Some x"
| "accepted_item _ = None"

fun accepted_packet :: "link_input \<Rightarrow> traffic_packet option" where
  "accepted_packet (AcceptPacket now t) = Some t"
| "accepted_packet _ = None"

definition sent_actions :: "link_input list \<Rightarrow> router_action list" where
  "sent_actions ins = protos_of (List.map_filter accepted_item ins)"

definition sent_packets :: "link_input list \<Rightarrow> traffic_packet list" where
  "sent_packets ins = List.map_filter accepted_packet ins"

lemma fits_wire_size: "good_action verify le max_size (SendTraffic 0 t) \<Longrightarrow> wire_size t \<le> 4 * unat max_size"
  by (simp add: good_action_def fits_def wire_size_encode)

lemma link_inv_input:
  assumes inv: "link_inv n max_size acts ps s items xs" and ok: "input_ok verify le max_size n k e"
  shows "\<exists>s' items' xs'. writer_step (to_event e) s = Some s' \<and>
    link_inv n max_size (acts @ sent_actions [e]) (ps @ sent_packets [e]) s' items' xs'"
proof -
  obtain go w where s: "s = (go, w)" by fastforce
  have grow: "link_inv n max_size (acts @ as) (ps @ qs) (False, w) items xs" if "\<not> go" for as qs
    using inv that s by (auto simp: link_inv_def prefix_def intro: subseq_order.order_trans)
  show ?thesis
  proof (cases go)
    case False
    then show ?thesis using grow s by auto
  next
    case True
    show ?thesis
    proof (cases e)
      case (Accept x)
      have "link_inv n max_size (acts @ sent_actions [e]) (ps @ sent_packets [e]) (True, w\<lparr>wr_rx := wr_rx w @ [item_msg x]\<rparr>) items (xs @ [x])"
        using inv s True Accept ok stream_ok_cong [of "w\<lparr>wr_rx := wr_rx w @ [item_msg x]\<rparr>" w n items]
        by (auto simp: link_inv_def sent_actions_def sent_packets_def map_filter_simps split: option.splits)
      then show ?thesis using s True Accept by auto
    next
      case (AcceptPacket now t)
      have q: "pq_ok max_size (wr_queue w)" using inv s by (simp add: link_inv_def)
      have "\<exists>out q'. pq_step (\<lambda>_. 0) (Push now t) (wr_queue w) = Some (out, q') \<and> pq_ok max_size q' \<and>
        (\<forall>j. subseq (filter (\<lambda>a. packet_key a = j) (opt_list out) @ pq_view q' j)
           (pq_view (wr_queue w) j @ filter (\<lambda>a. packet_key a = j) (opt_list (pq_input (Push now t)))))"
        using ok AcceptPacket fits_wire_size by (intro packet_queue_order.step_ok [OF q]) simp
      then have p: "pq_ok max_size (pq_push now t (wr_queue w))"
        "\<And>j. subseq (pq_view (pq_push now t (wr_queue w)) j) (pq_view (wr_queue w) j @ filter (\<lambda>a. packet_key a = j) [t])"
        by (auto simp: opt_list_def)
      let ?w = "w\<lparr>wr_queue := pq_push now t (wr_queue w), wr_permit := True\<rparr>"
      have "subseq (filter (\<lambda>a. packet_key a = j) (packets_of items) @ pq_view (wr_queue ?w) j) (filter (\<lambda>a. packet_key a = j) (ps @ [t]))" for j
      proof -
        let ?F = "filter (\<lambda>a. packet_key a = j)"
        have "subseq (?F (packets_of items) @ pq_view (wr_queue ?w) j) (?F (packets_of items) @ pq_view (wr_queue w) j @ ?F [t])"
          using p(2) by (intro list_emb_append_mono subseq_order.order_refl) simp
        also have "subseq \<dots> (?F ps @ ?F [t])"
          unfolding append_assoc [symmetric] using inv s
          by (intro list_emb_append_mono subseq_order.order_refl) (simp add: link_inv_def)
        finally show ?thesis by simp
      qed
      then have "link_inv n max_size (acts @ sent_actions [e]) (ps @ sent_packets [e]) (True, ?w) items xs"
        using inv s True AcceptPacket p(1) stream_ok_cong [of ?w w n items]
        by (simp add: link_inv_def sent_actions_def sent_packets_def map_filter_simps)
      then show ?thesis using s True AcceptPacket by auto
    next
      case Forget
      have "link_inv n max_size acts ps (True, w\<lparr>wr_deadline := None, wr_epoch := None\<rparr>) items xs"
        using inv s True stream_ok_cong [of "w\<lparr>wr_deadline := None, wr_epoch := None\<rparr>" w n items] by (simp add: link_inv_def)
      then show ?thesis using s True Forget by (auto simp: sent_actions_def sent_packets_def map_filter_simps)
    next
      case (Run env)
      then show ?thesis using link_inv_iter [of n max_size acts ps w items xs k env] inv s True ok
        by (auto simp: sent_actions_def sent_packets_def map_filter_simps)
    qed
  qed
qed

lemma link_inv_run:
  "link_inv n max_size acts ps s items xs \<Longrightarrow> list_all (input_ok verify le max_size n k) ins \<Longrightarrow>
   \<exists>s' items' xs'. writer_run (map to_event ins) s = Some s' \<and>
    link_inv n max_size (acts @ sent_actions ins) (ps @ sent_packets ins) s' items' xs'"
proof (induction ins arbitrary: s items xs acts ps)
  case Nil
  then show ?case by (auto simp: sent_actions_def sent_packets_def map_filter_simps)
next
  case (Cons e ins)
  obtain s1 items1 xs1 where s1: "writer_step (to_event e) s = Some s1"
    "link_inv n max_size (acts @ sent_actions [e]) (ps @ sent_packets [e]) s1 items1 xs1"
    using link_inv_input [OF Cons.prems(1), of verify le k e] Cons.prems(2) by auto
  have "sent_actions (e # ins) = sent_actions [e] @ sent_actions ins" "sent_packets (e # ins) = sent_packets [e] @ sent_packets ins"
    by (auto simp: sent_actions_def sent_packets_def map_filter_simps split: option.splits)
  then show ?case using Cons.IH [OF s1(2)] Cons.prems(2) s1(1) by simp
qed


text \<open>The reader at the other end.\<close>

fun item_rx :: "link_end \<Rightarrow> duration \<Rightarrow> item \<Rightarrow> router_msg option" where
  "item_rx le rtt (Act a) = action_msg le rtt a"
| "item_rx le rtt _ = None"

lemma reader_keepalive:
  assumes "0 < unat max_size"
  shows "reader_run verify le rtt max_size i (keepalive_frame @ rest) = reader_run verify le rtt max_size (i + 1) rest"
    and "k < length keepalive_frame \<Longrightarrow> reader_run verify le rtt max_size i (take k keepalive_frame) = ([], Io)"
proof -
  have "stream_read_frame max_size (keepalive_frame @ rest) = Inr ([packet_type_as_u8 KeepAlive], rest)"
    using stream_read_frame_encoded [of "[]" max_size KeepAlive rest] assms by (simp add: keepalive_frame_def)
  moreover have "dispatch_frame verify le r [packet_type_as_u8 KeepAlive] = Inr None" for r
    by (simp only: dispatch_frame_typed) simp
  ultimately show "reader_run verify le rtt max_size i (keepalive_frame @ rest) = reader_run verify le rtt max_size (i + 1) rest"
    by (subst reader_run.simps) simp
next
  assume "k < length keepalive_frame"
  then have "stream_read_frame max_size (take k keepalive_frame) = Inl Io"
    using stream_read_frame_cut [of "[]" max_size k KeepAlive] assms by (simp add: keepalive_frame_def)
  then show "reader_run verify le rtt max_size i (take k keepalive_frame) = ([], Io)"
    by (subst reader_run.simps) simp
qed

lemma reader_items:
  assumes "0 < unat max_size" "list_all (\<lambda>x. case x of Act a \<Rightarrow> good_action verify le max_size a | _ \<Rightarrow> True) items"
  shows "\<exists>j. reader_run verify le (\<lambda>_. rtt) max_size i (take m (concat (map item_bytes items))) =
    (List.map_filter (item_rx le rtt) (take j items), Io)"
  using assms(2)
proof (induction items arbitrary: i m)
  case Nil
  then show ?case
    by (subst reader_run.simps) (simp add: map_filter_simps stream_read_frame_def stream_read_uvarint_def)
next
  case (Cons x items)
  let ?b = "item_bytes x" and ?rest = "take (m - length (item_bytes x)) (concat (map item_bytes items))"
  obtain j where j: "reader_run verify le (\<lambda>_. rtt) max_size (i + 1) ?rest = (List.map_filter (item_rx le rtt) (take j items), Io)"
    using Cons by fastforce
  obtain j' where j': "reader_run verify le (\<lambda>_. rtt) max_size i ?rest = (List.map_filter (item_rx le rtt) (take j' items), Io)"
    using Cons by fastforce
  have whole: "\<exists>j. reader_run verify le (\<lambda>_. rtt) max_size i (?b @ ?rest) = (List.map_filter (item_rx le rtt) (take j (x # items)), Io)"
  proof (cases x)
    case Answer
    then show ?thesis using reader_keepalive(1) [OF assms(1), of verify le "\<lambda>_. rtt" i ?rest] j
      by (intro exI [of _ "Suc j"]) (simp add: map_filter_simps)
  next
    case (Act a)
    then have "genuine verify le a" "fits max_size a" using Cons.prems by (simp_all add: good_action_def)
    moreover from this obtain msg where "action_msg le rtt a = Some msg"
      using encode_action_frame_body [of verify le a] dispatch_action [of verify le a _ _ rtt] by blast
    ultimately show ?thesis using Act reader_step(1) [of verify le a max_size "\<lambda>_. rtt" i ?rest] j
      by (intro exI [of _ "Suc j"]) (simp add: map_filter_simps msgs_of_def)
  next
    case Later
    then show ?thesis using j' by (intro exI [of _ "Suc j'"]) (simp add: map_filter_simps)
  qed
  show ?case
  proof (cases "m < length ?b")
    case False
    then show ?thesis using whole by simp
  next
    case True
    then have "reader_run verify le (\<lambda>_. rtt) max_size i (take m ?b) = ([], Io)"
      using reader_keepalive(2) [OF assms(1)] reader_step(2) [of verify le _ max_size m] Cons.prems
      by (cases x) (auto simp: good_action_def)
    then show ?thesis using True by (intro exI [of _ 0]) (simp add: map_filter_simps)
  qed
qed

fun traffic_of_msg :: "router_msg \<Rightarrow> traffic_packet option" where
  "traffic_of_msg (HandleTraffic t) = Some t"
| "traffic_of_msg _ = None"

definition unmarked :: "traffic_packet \<Rightarrow> traffic_packet" where
  "unmarked t = t\<lparr>tp_keepalive := False\<rparr>"

lemma item_rx_parts:
  "list_all (\<lambda>x. case x of Act a \<Rightarrow> good_action verify le max_size a | _ \<Rightarrow> True) items \<Longrightarrow>
   filter (\<lambda>m. traffic_of_msg m = None) (List.map_filter (item_rx le rtt) items) = map (the \<circ> action_msg le rtt) (protos_of items) \<and>
   List.map_filter traffic_of_msg (List.map_filter (item_rx le rtt) items) = map unmarked (packets_of items)"
proof (induction items)
  case (Cons x items)
  show ?case
  proof (cases x)
    case (Act a)
    then show ?thesis using Cons by (cases a) (auto simp: map_filter_simps unmarked_def good_action_def)
  qed (use Cons in \<open>simp_all add: map_filter_simps\<close>)
qed (simp add: map_filter_simps)


lemma link_inv_new:
  assumes "0 < unat max_size" "128 * unat max_size < 2 ^ 64"
  shows "link_inv n max_size [] [] (True, writer_new max_size) [] []"
proof -
  have "pq_view (packet_queue_new max_size) j = []" for j
    by (simp add: pq_view_def contents_def packet_queue_new_def Let_def)
  then show ?thesis using packet_queue_new_ok [OF assms]
    by (simp add: link_inv_def writer_new_def stream_ok_def map_filter_simps)
qed

lemma link_inv_parts:
  assumes "link_inv n max_size acts ps s items xs"
  shows "prefix (protos_of items) acts"
    and "subseq (filter (\<lambda>a. packet_key a = j) (packets_of items)) (filter (\<lambda>a. packet_key a = j) ps)"
    and "stream_ok n items (snd s)"
proof -
  obtain go w where s: "s = (go, w)" by fastforce
  show "prefix (protos_of items) acts" "stream_ok n items (snd s)"
    using assms s by (auto simp: link_inv_def prefix_def split: if_splits)
  have "subseq (filter (\<lambda>a. packet_key a = j) (packets_of items)) (filter (\<lambda>a. packet_key a = j) (packets_of items) @ pq_view (wr_queue w) j)"
    by (simp add: subseq_rev_drop_many)
  also have "subseq \<dots> (filter (\<lambda>a. packet_key a = j) ps)" using assms s by (simp add: link_inv_def)
  finally show "subseq (filter (\<lambda>a. packet_key a = j) (packets_of items)) (filter (\<lambda>a. packet_key a = j) ps)" .
qed

lemma item_cases:
  assumes "x \<in> set items" "x = Act a"
  shows "a \<in> set (protos_of items) \<or> (\<exists>p t. a = SendTraffic p t \<and> t \<in> set (packets_of items))"
  using assms by (induction items) (auto simp: map_filter_simps split: option.splits, (cases a; simp)+)

lemma link_inv_good:
  assumes "link_inv n max_size (sent_actions ins) (sent_packets ins) s items xs"
    "list_all (input_ok verify le max_size n k) ins"
  shows "list_all (\<lambda>x. case x of Act a \<Rightarrow> good_action verify le max_size a | _ \<Rightarrow> True) items"
proof -
  have acts: "good_action verify le max_size a" if "a \<in> set (sent_actions ins)" for a
    using that assms(2) by (auto simp: sent_actions_def List.map_filter_def list_all_iff elim!: accepted_item.elims)
  have packets: "good_action verify le max_size (SendTraffic 0 t)" if "t \<in> set (sent_packets ins)" for t
    using that assms(2) by (auto simp: sent_packets_def List.map_filter_def list_all_iff elim!: accepted_packet.elims)
  have protos: "set (protos_of items) \<subseteq> set (sent_actions ins)"
    using link_inv_parts(1) [OF assms(1)] by (rule set_mono_prefix)
  have sent: "t \<in> set (sent_packets ins)" if "t \<in> set (packets_of items)" for t
    using list_emb_set [OF link_inv_parts(2) [OF assms(1), of "packet_key t"], of t] that by auto
  have port: "good_action verify le max_size (SendTraffic 0 t) \<Longrightarrow> good_action verify le max_size (SendTraffic p t)" for p t
    by (simp add: good_action_def fits_def)
  show ?thesis
    using item_cases [of _ items] acts packets protos sent port
    by (auto simp: list_all_iff split: item.splits) blast
qed

section \<open>An idle writer has nothing left to do\<close>

definition quiet :: "u64 \<Rightarrow> writer \<Rightarrow> bool" where
  "quiet quantum w \<longleftrightarrow> pq_ok quantum (wr_queue w) \<and>
     (wr_rx w = [] \<longrightarrow> \<not> wr_owed w \<and> wr_flushed w = length (wr_out w) \<and> (wr_permit w \<or> pq_count (wr_queue w) = 0))"

lemma write_batch_same: "same_inputs w (snd (write_batch env batch wrote w))"
proof (induction batch arbitrary: w wrote)
  case (Cons t batch)
  obtain ok w1 where w1: "write_all env (traffic_frame t) w = (ok, w1)" by fastforce
  then have "same_inputs w w1" using write_all_same(1) [of w env "traffic_frame t"] by simp
  then show ?case using w1 Cons.IH [of w1 True] by (simp add: same_inputs_def)
qed (simp add: same_inputs_def)

lemma drain_traffic_queue_same:
  assumes "pq_ok quantum (wr_queue w)"
  shows "\<exists>d w'. drain_traffic_queue env w = Some (d, w') \<and> pq_ok quantum (wr_queue w') \<and> wr_rx w' = wr_rx w \<and>
    (wr_permit w' \<or> pq_count (wr_queue w') = 0)"
proof -
  obtain batch q where b: "drain_batch (we_law env) (we_now env) MAX_DRAIN_PER_ITER (wr_queue w) = Some (batch, q)" "pq_ok quantum q"
    "length batch \<le> MAX_DRAIN_PER_ITER" "length batch < MAX_DRAIN_PER_ITER \<longrightarrow> pq_count q = 0"
    using drain_batch_ok [OF assms] by blast
  let ?w = "if length batch = MAX_DRAIN_PER_ITER then w\<lparr>wr_queue := q, wr_permit := True\<rparr> else w\<lparr>wr_queue := q\<rparr>"
  have "drain_traffic_queue env w = Some (write_batch env batch False ?w)"
    using b(1) by (auto simp: drain_traffic_queue_def Let_def MAX_DRAIN_PER_ITER_def)
  moreover have "same_inputs ?w (snd (write_batch env batch False ?w))" by (rule write_batch_same)
  ultimately show ?thesis using b(2-4)
    by (intro exI [of _ "fst (write_batch env batch False ?w)"] exI [of _ "snd (write_batch env batch False ?w)"])
      (auto simp: same_inputs_def split: if_splits)
qed

lemma writer_rest_quiet:
  assumes "pq_ok quantum (wr_queue w)"
  shows "\<exists>go' w'. writer_rest env (go, w) = Some (go', w') \<and> pq_ok quantum (wr_queue w') \<and> (go' \<longrightarrow> quiet quantum w')"
proof -
  have rest: "writer_rest env (True, w) = map_option (\<lambda>(go_on, w). if \<not> go_on then (False, w) else writer_answer env w) (writer_drain env w)"
    by (simp add: writer_rest_def)
  have answer: "\<exists>go' w'. writer_answer env v = (go', w') \<and> pq_ok quantum (wr_queue w') \<and> (go' \<longrightarrow> quiet quantum w')"
    if v: "pq_ok quantum (wr_queue v)" "wr_rx v = [] \<longrightarrow> wr_flushed v = length (wr_out v) \<and> (wr_permit v \<or> pq_count (wr_queue v) = 0)" for v
  proof -
    obtain ok v' where v': "write_and_flush env keepalive_frame v = (ok, v')" by fastforce
    have "same_inputs v v'" "ok \<Longrightarrow> wr_flushed v' = length (wr_out v')"
      using write_and_flush_effect(1,3) [where w = v and env = env and f = keepalive_frame] v' by simp_all
    then show ?thesis using v v' by (auto simp: writer_answer_def quiet_def same_inputs_def)
  qed
  consider "\<not> go" | "go" "wr_rx w \<noteq> []" | "go" "wr_rx w = []" by blast
  then show ?thesis
  proof cases
    case 1
    then show ?thesis using assms by (auto simp: writer_rest_def)
  next
    case 2
    then show ?thesis using answer [of w] assms rest by (simp add: writer_drain_def)
  next
    case 3
    obtain d w1 where d: "drain_traffic_queue env w = Some (d, w1)" "pq_ok quantum (wr_queue w1)" "wr_rx w1 = wr_rx w"
      "wr_permit w1 \<or> pq_count (wr_queue w1) = 0" using drain_traffic_queue_same [OF assms] by blast
    define w2 where "w2 = snd (flush env w1)"
    have w2: "wr_queue w2 = wr_queue w1" "wr_permit w2 = wr_permit w1"
      "fst (flush env w1) \<Longrightarrow> wr_flushed w2 = length (wr_out w2)"
      using flush_same(1,3) [where w = w1 and env = env] by (simp_all add: same_inputs_def w2_def)
    let ?w3 = "if do_wrote d then (arm_read_deadline env (mark_written env w2))\<lparr>wr_owed := False\<rparr> else w2"
    have drain: "writer_drain env w = Some (if \<not> do_ok d then (False, w1) else if \<not> fst (flush env w1) then (False, w2) else (True, ?w3))"
      unfolding writer_drain_eq [OF 3(2) d(1)] w2_def ..
    have "\<exists>go' w'. writer_answer env ?w3 = (go', w') \<and> pq_ok quantum (wr_queue w') \<and> (go' \<longrightarrow> quiet quantum w')" if "fst (flush env w1)"
      using answer [of ?w3] w2 d that by (simp split: if_splits)
    then show ?thesis using 3(1) rest drain d(2) w2(1) by auto
  qed
qed

lemma writer_iter_quiet:
  assumes "quiet quantum w"
  shows "\<exists>go w'. writer_iter env w = Some (go, w') \<and> pq_ok quantum (wr_queue w') \<and> (go \<longrightarrow> quiet quantum w')"
proof -
  have q: "pq_ok quantum (wr_queue w)" using assms by (simp add: quiet_def)
  have send: "wr_queue (snd (writer_send_frame env data v)) = wr_queue v" for data v
    using write_all_same(1) [of v env data] flush_same(1) [of "snd (write_all env data v)" env]
    by (simp add: writer_send_frame_def case_prod_beta Let_def same_inputs_def)
  consider (frame) data rx where "wr_rx w = SendFrame data # rx" | (later) rx where "wr_rx w = ScheduleKeepalive # rx"
    | (traffic) "wr_rx w = []" "wr_permit w" | (idle) "wr_rx w = []" "\<not> wr_permit w"
    by (cases "wr_rx w"; metis peer_message.exhaust)
  then show ?thesis
  proof cases
    case frame
    obtain go v where v: "writer_send_frame env data (w\<lparr>wr_rx := rx\<rparr>) = (go, v)" by fastforce
    then have "pq_ok quantum (wr_queue v)" using send [of data "w\<lparr>wr_rx := rx\<rparr>"] q by simp
    then show ?thesis using writer_rest_quiet [of quantum v env go] frame v by (simp add: writer_iter_def)
  next
    case later
    then show ?thesis using writer_rest_quiet [of quantum "coalesce env rx (w\<lparr>wr_rx := rx, wr_owed := True\<rparr>)" env True] q
      by (simp add: writer_iter_def)
  next
    case traffic
    then show ?thesis using writer_rest_quiet [of quantum "w\<lparr>wr_permit := False\<rparr>" env True] q by (simp add: writer_iter_def)
  next
    case idle
    obtain ok v where v: "write_and_flush env keepalive_frame w = (ok, v)" by fastforce
    have "same_inputs w v" "ok \<Longrightarrow> wr_flushed v = length (wr_out v)"
      using write_and_flush_effect(1,3) [where w = w and env = env and f = keepalive_frame] v by simp_all
    then show ?thesis using idle v assms by (auto simp: writer_iter_def quiet_def same_inputs_def)
  qed
qed

fun event_fits :: "u64 \<Rightarrow> writer_event \<Rightarrow> bool" where
  "event_fits quantum (TrafficQueued now t) = (wire_size t \<le> 4 * unat quantum)"
| "event_fits quantum _ = True"

definition writer_alive :: "u64 \<Rightarrow> (bool \<times> writer) option \<Rightarrow> bool" where
  "writer_alive quantum s \<longleftrightarrow> (\<exists>go w. s = Some (go, w) \<and> (go \<longrightarrow> quiet quantum w))"

interpretation writer_events: event_invariant "\<lambda>e s. Option.bind s (writer_step e)" "event_fits quantum" "writer_alive quantum"
  for quantum
proof
  fix s e
  assume "writer_alive quantum s" and e: "event_fits quantum e"
  then obtain go w where s: "s = Some (go, w)" and q: "go \<Longrightarrow> quiet quantum w" by (auto simp: writer_alive_def)
  show "writer_alive quantum (Option.bind s (writer_step e))"
  proof (cases go)
    case False
    then show ?thesis using s by (auto simp: writer_alive_def)
  next
    case True
    note q = q [OF True]
    show ?thesis
    proof (cases e)
      case (TrafficQueued now t)
      have "\<exists>out q'. pq_step (\<lambda>_. 0) (Push now t) (wr_queue w) = Some (out, q') \<and> pq_ok quantum q' \<and>
        (\<forall>j. subseq (filter (\<lambda>a. packet_key a = j) (opt_list out) @ pq_view q' j)
           (pq_view (wr_queue w) j @ filter (\<lambda>a. packet_key a = j) (opt_list (pq_input (Push now t)))))"
        using q e TrafficQueued by (intro packet_queue_order.step_ok) (simp_all add: quiet_def)
      then show ?thesis using s True q TrafficQueued by (auto simp: writer_alive_def quiet_def)
    next
      case (Iterate env)
      then show ?thesis using writer_iter_quiet [OF q, of env] s True by (auto simp: writer_alive_def)
    qed (use s True q in \<open>auto simp: writer_alive_def quiet_def\<close>)
  qed
qed

lemma writer_run_fold: "writer_run es s = fold (\<lambda>e s. Option.bind s (writer_step e)) es (Some s)"
proof (induction es arbitrary: s)
  case (Cons e es)
  have none: "fold (\<lambda>e s. Option.bind s (writer_step e)) es None = None" by (induction es) simp_all
  show ?case using none Cons.IH by (cases "writer_step e s") simp_all
qed simp

section \<open>Properties\<close>

text \<open>C11. A link carries what the router sends, across both of its ends. Let the connection break at
  any operation of the writer, in the middle of a frame, or not at all, and let any number of the
  bytes written arrive. The writer never gets stuck, and the neighbour's reader hands its router: of
  the protocol messages a prefix of those sent, in order, and of the packets of every flow a
  subsequence of those queued, in order, whatever keepalives are mixed in and whatever CoDel and the
  caps of the queue drop. It stops with an I/O error and with nothing else.\<close>

theorem link_delivers_in_order:
  assumes "0 < unat max_size" "128 * unat max_size < 2 ^ 64" "list_all (input_ok verify le max_size n k) ins"
  shows "\<exists>go w ms. writer_run (map to_event ins) (True, writer_new max_size) = Some (go, w) \<and>
    reader_run verify le (\<lambda>_. rtt) max_size 0 (take m (wr_out w)) = (ms, Io) \<and>
    prefix (filter (\<lambda>x. traffic_of_msg x = None) ms) (map (the \<circ> action_msg le rtt) (sent_actions ins)) \<and>
    (\<forall>j. subseq (filter (\<lambda>a. packet_key a = j) (List.map_filter traffic_of_msg ms))
           (filter (\<lambda>a. packet_key a = j) (map unmarked (sent_packets ins))))"
proof -
  obtain go w items xs where run: "writer_run (map to_event ins) (True, writer_new max_size) = Some (go, w)"
    and inv: "link_inv n max_size (sent_actions ins) (sent_packets ins) (go, w) items xs"
    using link_inv_run [OF link_inv_new [OF assms(1,2)] assms(3)] by auto
  note good = link_inv_good [OF inv assms(3)]
  obtain rest where "concat (map item_bytes items) = wr_out w @ rest"
    using link_inv_parts(3) [OF inv] by (auto simp: stream_ok_def prefix_def)
  then have "take m (wr_out w) = take (min m (length (wr_out w))) (concat (map item_bytes items))"
    by (simp add: min_def)
  then obtain j where read: "reader_run verify le (\<lambda>_. rtt) max_size 0 (take m (wr_out w)) =
      (List.map_filter (item_rx le rtt) (take j items), Io)"
    using reader_items [OF assms(1) good, of rtt 0 "min m (length (wr_out w))"] by metis
  let ?ms = "List.map_filter (item_rx le rtt) (take j items)"
  have split: "items = take j items @ drop j items" by simp
  have "list_all (\<lambda>x. case x of Act a \<Rightarrow> good_action verify le max_size a | _ \<Rightarrow> True) (take j items)"
    using good by (auto simp: list_all_iff dest: in_set_takeD)
  note parts = item_rx_parts [OF this, of rtt]
  have "prefix (protos_of (take j items)) (sent_actions ins)"
    using link_inv_parts(1) [OF inv] by (subst (asm) split) (auto simp: prefix_def simp del: append_take_drop_id)
  then have "prefix (filter (\<lambda>x. traffic_of_msg x = None) ?ms) (map (the \<circ> action_msg le rtt) (sent_actions ins))"
    using parts by (simp add: map_mono_prefix)
  moreover have "subseq (filter (\<lambda>a. packet_key a = i) (List.map_filter traffic_of_msg ?ms))
      (filter (\<lambda>a. packet_key a = i) (map unmarked (sent_packets ins)))" for i
  proof -
    let ?F = "filter (\<lambda>a. packet_key a = i)"
    have key: "packet_key (unmarked t) = packet_key t" for t by (simp add: unmarked_def packet_key_def)
    have "subseq (?F (packets_of (take j items))) (?F (packets_of items))"
      by (subst (2) split) (simp add: subseq_rev_drop_many del: append_take_drop_id)
    also have "subseq \<dots> (?F (sent_packets ins))" by (rule link_inv_parts(2) [OF inv])
    finally show ?thesis using parts by (simp add: filter_map comp_def key subseq_map)
  qed
  ultimately show ?thesis using run read by blast
qed


text \<open>C23. The writer never leaves work behind. Whatever is queued, whichever writes and flushes fail,
  the loop never gets stuck, and whenever it is about to sleep with an empty channel, no answer is
  owed to the neighbour, every accepted byte has been flushed, and either no packet is queued or the
  wake-up for the queue is pending.\<close>

theorem idle_writer_is_done:
  assumes "0 < unat quantum" "128 * unat quantum < 2 ^ 64" "list_all (event_fits quantum) es"
  shows "\<exists>go w. writer_run es (True, writer_new quantum) = Some (go, w) \<and>
    (go \<and> wr_rx w = [] \<longrightarrow> \<not> wr_owed w \<and> wr_flushed w = length (wr_out w) \<and>
       (wr_permit w \<or> pq_count (wr_queue w) = 0))"
proof -
  have "quiet quantum (writer_new quantum)"
    using packet_queue_new_ok [OF assms(1,2)] by (auto simp: quiet_def writer_new_def packet_queue_new_def Let_def)
  then have "writer_alive quantum (writer_run es (True, writer_new quantum))"
    unfolding writer_run_fold using assms(3) by (intro writer_events.run_inv) (auto simp: writer_alive_def)
  then show ?thesis by (auto simp: writer_alive_def quiet_def)
qed

definition sample_writer_env :: writer_env where
  "sample_writer_env = \<lparr>we_now = 5, we_cfg = adaptive_timeout_default, we_cell = durable_liveness_new 0, we_law = (\<lambda>_. 0),
     we_cut = (\<lambda>i. if i < 7 then None else if i = 7 then Some 1 else Some 0)\<rparr>"

theorem idle_writer_is_done_witness:
  "\<exists>go w. writer_run [Queued ScheduleKeepalive, TrafficQueued 3 (sample_pq_packet 7), Iterate sample_writer_env]
      (True, writer_new 1000) = Some (go, w) \<and>
    (go = False \<or> wr_rx w \<noteq> [] \<or> \<not> wr_owed w \<and> wr_flushed w = length (wr_out w) \<and> (wr_permit w \<or> pq_count (wr_queue w) = 0))"
  using idle_writer_is_done [of 1000 "[Queued ScheduleKeepalive, TrafficQueued 3 (sample_pq_packet 7), Iterate sample_writer_env]"]
    sample_pq_size [of 7] by auto

lemma uvarint_small: "v < 128 \<Longrightarrow> encode_uvarint v = [ucast v]"
proof -
  assume "v < 128"
  then have "unat v < 128" by (simp add: word_less_nat_alt)
  then have "unat (drop_bit 7 v) = 0" by (simp add: unat_drop_bit_7)
  then have "drop_bit 7 v = 0" by (simp add: unat_eq_0)
  moreover have "v AND 0x7F = v"
    using low_bits_OR_rest [of 0 v] calculation by (simp add: and_0x7F)
  ultimately show ?thesis by (subst encode_uvarint.simps) (simp add: Let_def)
qed

definition sample_inputs :: "link_input list" where
  "sample_inputs = [Accept Answer, Accept (Act (SendSigReq 7 \<lparr>req_seq = 1, req_nonce = 2\<rparr>)),
     AcceptPacket 3 (traffic_packet_new (replicate 32 1) (replicate 32 2) [9]), Run sample_writer_env, Run sample_writer_env,
     Run sample_writer_env]"

theorem link_delivers_in_order_witness:
  "\<exists>go w ms. writer_run (map to_event sample_inputs) (True, writer_new 1000) = Some (go, w) \<and>
    reader_run (\<lambda>k m s. True) sample_link (\<lambda>_. 0) 1000 0 (take 99 (wr_out w)) = (ms, Io) \<and>
    prefix (filter (\<lambda>x. traffic_of_msg x = None) ms) [HandleRequest 1 (replicate 32 1) \<lparr>req_seq = 1, req_nonce = 2\<rparr>]"
proof -
  let ?t = "traffic_packet_new (replicate 32 1) (replicate 32 2) [9]"
  have wf: "wf_traffic (traffic.truncate ?t)"
    by (simp add: traffic_packet_new_def traffic.truncate_def wf_defs PUBLIC_KEY_SIZE_def)
  have "wire_size ?t \<le> 200"
    using uvarint_size_le_10 [of 0] uvarint_size_le_10 [of u64_max]
    by (simp add: traffic_packet_new_def wire_size_def PUBLIC_KEY_SIZE_def path_size_def)
  then have "good_action (\<lambda>k m s. True) sample_link 1000 (SendTraffic 0 ?t)"
    using wf by (simp add: good_action_def fits_def wire_size_encode)
  moreover have "breaks_at 7 1 sample_writer_env" by (auto simp: breaks_at_def sample_writer_env_def)
  moreover have "good_action (\<lambda>k m s. True) sample_link 1000 (SendSigReq 7 \<lparr>req_seq = 1, req_nonce = 2\<rparr>)"
    by (simp add: good_action_def fits_def sig_req_encode_def uvarint_small)
  ultimately have "list_all (input_ok (\<lambda>k m s. True) sample_link 1000 7 1) sample_inputs"
    by (simp add: sample_inputs_def plain_def map_filter_simps)
  from link_delivers_in_order [OF _ _ this, of 0 99] show ?thesis
    by (auto simp: sample_inputs_def sent_actions_def map_filter_simps sample_link_def)
qed

end
