(* ===== verification/Peer_Table.thy ===== *)
theory Peer_Table
  imports Router_Routing
begin

text \<open>
  The table of connected links, \<open>Peers\<close> of \<open>crates/ironwood/src/peers.rs\<close>, and how it stays in
  agreement with the router. Ports number the neighbours of a node: all links to one key share a
  port. The two tasks of a link (\<open>peer_reader\<close>, \<open>peer_writer\<close>) tear it down independently: each
  sends \<open>RemovePeer\<close> to the router and then removes the link from the table, while other links
  come and go. \<open>link_step\<close> has one step for each of these actions, and the router takes its
  messages from a queue in the order they were sent.

  The channels and queues of a handle are not part of the table here. The channel to the router
  keeps the order of its messages as long as it does not fill up: \<open>RouterHandle::send\<close> hands a
  message for a full channel (4096 messages) to a background task, which later ones may overtake.
\<close>

section \<open>The table\<close>

record peer_handle =
  ph_id :: peer_id
  ph_key :: public_key
  ph_port :: peer_port
  ph_prio :: u8
  ph_order :: u64

definition to_entry :: "peer_handle \<Rightarrow> peer_entry" where
  "to_entry h = \<lparr>pe_id = ph_id h, pe_key = ph_key h, pe_port = ph_port h, pe_prio = ph_prio h,
                 pe_order = ph_order h\<rparr>"

record peers =
  ps_next_id :: peer_id
  ps_used_ports :: "(peer_port, public_key) hmap"
  ps_handles :: "(public_key, (peer_id, peer_handle) hmap) hmap"
  ps_order :: u64

definition peers_new :: peers where
  "peers_new = \<lparr>ps_next_id = 1, ps_used_ports = [], ps_handles = [], ps_order = 0\<rparr>"

text \<open>The search for the lowest free port. The fuel is one more than the number of used ports;
  \<open>alloc_port_lowest\<close> shows that this is enough.\<close>

fun alloc_port_loop :: "nat \<Rightarrow> (peer_port, public_key) hmap \<Rightarrow> peer_port \<Rightarrow> peer_port option" where
  "alloc_port_loop 0 used p = None"
| "alloc_port_loop (Suc fuel) used p =
     (if hm_contains used p then alloc_port_loop fuel used (p + 1) else Some p)"

definition alloc_port :: "(peer_port, public_key) hmap \<Rightarrow> peer_port option" where
  "alloc_port used = alloc_port_loop (length used + 1) used 1"

definition port_for :: "public_key \<Rightarrow> peers \<Rightarrow> peer_port option" where
  "port_for key ps =
     (case hm_get (ps_handles ps) key of
        Some ((_, h) # _) \<Rightarrow> Some (ph_port h)
      | _ \<Rightarrow> alloc_port (ps_used_ports ps))"

definition allocate_peer :: "public_key \<Rightarrow> u8 \<Rightarrow> peers \<Rightarrow> (peer_handle \<times> peers) option" where
  "allocate_peer key prio ps =
     (case port_for key ps of
        None \<Rightarrow> None
      | Some port \<Rightarrow>
          let ident = ps_next_id ps;
              used = (if \<not> hm_contains (ps_handles ps) key
                      then hm_insert port key (ps_used_ports ps) else ps_used_ports ps);
              handle = \<lparr>ph_id = ident, ph_key = key, ph_port = port, ph_prio = prio, ph_order = ps_order ps\<rparr>
          in Some (handle,
               ps\<lparr>ps_next_id := ident + 1, ps_used_ports := used, ps_order := ps_order ps + 1,
                  ps_handles := hm_modify key (hm_insert ident handle) (hm_entry key [] (ps_handles ps))\<rparr>))"

definition peers_remove_peer :: "peer_id \<Rightarrow> public_key \<Rightarrow> peers \<Rightarrow> peer_port option \<times> peers" where
  "peers_remove_peer ident key ps =
     (case hm_get (ps_handles ps) key of
        None \<Rightarrow> (None, ps)
      | Some m \<Rightarrow>
          let port = map_option ph_port (hm_get m ident);
              m = hm_remove ident m
          in (port,
              if m = []
              then ps\<lparr>ps_handles := hm_remove key (ps_handles ps),
                      ps_used_ports := (case port of Some p \<Rightarrow> hm_remove p (ps_used_ports ps)
                                                   | None \<Rightarrow> ps_used_ports ps)\<rparr>
              else ps\<lparr>ps_handles := hm_modify key (\<lambda>_. m) (ps_handles ps)\<rparr>))"

definition get_handle :: "peer_id \<Rightarrow> peers \<Rightarrow> peer_handle option" where
  "get_handle ident ps =
     (case List.map_filter (\<lambda>(_, m). hm_get m ident) (ps_handles ps) of h # _ \<Rightarrow> Some h | [] \<Rightarrow> None)"

definition link_port :: "peer_id \<Rightarrow> public_key \<Rightarrow> peers \<Rightarrow> peer_port" where
  "link_port ident key ps =
     (case hm_get (ps_handles ps) key of
        None \<Rightarrow> 0
      | Some m \<Rightarrow> (case hm_get m ident of None \<Rightarrow> 0 | Some h \<Rightarrow> ph_port h))"

section \<open>The lowest free port\<close>

lemma alloc_port_loop_finds:
  assumes "\<not> hm_contains used (p + of_nat n)" "\<forall>i < n. hm_contains used (p + of_nat i)" "n < fuel"
  shows "alloc_port_loop fuel used p = Some (p + of_nat n)"
  using assms
proof (induction n arbitrary: p fuel)
  case 0
  then show ?case by (cases fuel) simp_all
next
  case (Suc n)
  obtain fuel' where f: "fuel = Suc fuel'" using Suc.prems(3) by (cases fuel) simp_all
  have "hm_contains used p" using Suc.prems(2) [rule_format, of 0] by simp
  moreover have "alloc_port_loop fuel' used (p + 1) = Some (p + 1 + of_nat n)"
    using Suc.prems f by (intro Suc.IH) (auto simp: add.assoc dest: spec [of _ "Suc _"])
  ultimately show ?case using f by (simp add: add.assoc)
qed

lemma free_port:
  assumes "length (used :: (peer_port, public_key) hmap) < 2 ^ 64 - 1"
  shows "\<exists>n \<le> length used. \<not> hm_contains used (1 + of_nat n)"
proof (rule ccontr)
  assume "\<not> ?thesis"
  then have "(\<lambda>n. 1 + of_nat n :: peer_port) ` {..length used} \<subseteq> set (hm_keys used)"
    by (auto simp: hm_contains_iff)
  then have "card ((\<lambda>n. 1 + of_nat n :: peer_port) ` {..length used}) \<le> card (set (hm_keys used))"
    by (intro card_mono) simp_all
  moreover have "inj_on (\<lambda>n. 1 + of_nat n :: peer_port) {..length used}"
  proof (rule inj_onI)
    fix x y assume xy: "x \<in> {..length used}" "y \<in> {..length used}" "1 + of_nat x = (1 + of_nat y :: peer_port)"
    then have "unat (of_nat x :: peer_port) = unat (of_nat y :: peer_port)" by simp
    then show "x = y" using xy(1,2) assms by (simp add: unat_of_nat take_bit_nat_eq_self)
  qed
  ultimately have "Suc (length used) \<le> card (set (hm_keys used))" by (simp add: card_image)
  also have "\<dots> \<le> length used" using card_length [of "hm_keys used"] by simp
  finally show False by simp
qed

lemma alloc_port_lowest:
  assumes "length used < 2 ^ 64 - 1"
  shows "\<exists>p. alloc_port used = Some p \<and> p \<noteq> 0 \<and> \<not> hm_contains used p \<and> (\<forall>q. 0 < q \<and> q < p \<longrightarrow> hm_contains used q)"
proof -
  define n where "n = (LEAST n. \<not> hm_contains used (1 + of_nat n))"
  obtain k where k: "k \<le> length used" "\<not> hm_contains used (1 + of_nat k)" using free_port [OF assms] by blast
  have free: "\<not> hm_contains used (1 + of_nat n)" unfolding n_def by (rule LeastI [of _ k]) (rule k)
  have le: "n \<le> length used" unfolding n_def using Least_le [of "\<lambda>n. \<not> hm_contains used (1 + of_nat n)" k] k by simp
  have below: "hm_contains used (1 + of_nat i)" if "i < n" for i
    using not_less_Least [of i "\<lambda>n. \<not> hm_contains used (1 + of_nat n)"] that unfolding n_def by blast
  have u: "unat (1 + of_nat n :: peer_port) = Suc n"
    using le assms unat_add_lem [of 1 "of_nat n :: peer_port"] by (simp add: unat_of_nat take_bit_nat_eq_self)
  have "hm_contains used q" if q: "0 < q" "q < 1 + of_nat n" for q :: peer_port
  proof -
    have "unat q < Suc n" using q(2) u by (simp add: word_less_nat_alt)
    moreover have "0 < unat q" using q(1) by (simp add: word_less_nat_alt)
    moreover from this have "of_nat (Suc (unat q - 1)) = q" by simp
    ultimately have "unat q - 1 < n" "1 + of_nat (unat q - 1) = q" by (simp_all add: add.commute)
    then show ?thesis using below by metis
  qed
  moreover have "alloc_port used = Some (1 + of_nat n)"
    unfolding alloc_port_def using free below le by (intro alloc_port_loop_finds) simp_all
  moreover have "(1 + of_nat n :: peer_port) \<noteq> 0" using u by (metis nat.simps(3) unat_0)
  ultimately show ?thesis using free by blast
qed

section \<open>Well-formed tables\<close>

definition port_of :: "peers \<Rightarrow> public_key \<Rightarrow> peer_port option" where
  "port_of ps k = (case hm_get (ps_handles ps) k of Some ((_, h) # _) \<Rightarrow> Some (ph_port h) | _ \<Rightarrow> None)"

definition table_links :: "peers \<Rightarrow> public_key \<Rightarrow> peer_id set" where
  "table_links ps k = (case hm_get (ps_handles ps) k of Some m \<Rightarrow> set (hm_keys m) | None \<Rightarrow> {})"

definition peers_wf :: "peers \<Rightarrow> bool" where
  "peers_wf ps \<longleftrightarrow> hm_wf (ps_handles ps) \<and> hm_wf (ps_used_ports ps) \<and>
     (\<forall>k m. hm_get (ps_handles ps) k = Some m \<longrightarrow> m \<noteq> [] \<and> hm_wf m \<and>
       (\<forall>i h. hm_get m i = Some h \<longrightarrow> ph_id h = i \<and> ph_key h = k \<and> port_of ps k = Some (ph_port h))) \<and>
     (\<forall>p k. hm_get (ps_used_ports ps) p = Some k \<longleftrightarrow> port_of ps k = Some p) \<and>
     hm_get (ps_used_ports ps) 0 = None"

lemma peers_wfD:
  assumes "peers_wf ps"
  shows "hm_wf (ps_handles ps)" "hm_wf (ps_used_ports ps)" "hm_get (ps_used_ports ps) 0 = None"
    and "hm_get (ps_used_ports ps) p = Some k \<longleftrightarrow> port_of ps k = Some p"
    and "hm_get (ps_handles ps) k = Some m \<Longrightarrow> m \<noteq> []" "hm_get (ps_handles ps) k = Some m \<Longrightarrow> hm_wf m"
    and "hm_get (ps_handles ps) k = Some m \<Longrightarrow> hm_get m i = Some h \<Longrightarrow>
      ph_id h = i \<and> ph_key h = k \<and> port_of ps k = Some (ph_port h)"
  using assms unfolding peers_wf_def by metis+

lemma peers_wfI:
  assumes "hm_wf (ps_handles ps)" "hm_wf (ps_used_ports ps)" "hm_get (ps_used_ports ps) 0 = None"
    and "\<And>p k. hm_get (ps_used_ports ps) p = Some k \<longleftrightarrow> port_of ps k = Some p"
    and "\<And>k m. hm_get (ps_handles ps) k = Some m \<Longrightarrow> m \<noteq> [] \<and> hm_wf m"
    and "\<And>k m i h. hm_get (ps_handles ps) k = Some m \<Longrightarrow> hm_get m i = Some h \<Longrightarrow>
      ph_id h = i \<and> ph_key h = k \<and> port_of ps k = Some (ph_port h)"
  shows "peers_wf ps"
  unfolding peers_wf_def using assms(1-3) by (intro conjI allI impI) (simp_all add: assms(4-6))

lemma peers_wf_port_inj: "peers_wf ps \<Longrightarrow> port_of ps k = Some p \<Longrightarrow> port_of ps k' = Some p \<Longrightarrow> k = k'"
  using peers_wfD(4) [of ps p k] peers_wfD(4) [of ps p k'] by simp

lemma peers_wf_map:
  assumes "peers_wf ps" "hm_get (ps_handles ps) k = Some m"
  obtains i h m' where "m = (i, h) # m'" "port_of ps k = Some (ph_port h)"
proof -
  obtain i h m' where "m = (i, h) # m'" using peers_wfD(5) [OF assms] by (cases m) auto
  then show ?thesis using that assms(2) by (simp add: port_of_def)
qed

lemma port_of_None: "peers_wf ps \<Longrightarrow> port_of ps k = None \<longleftrightarrow> hm_get (ps_handles ps) k = None"
  by (cases "hm_get (ps_handles ps) k") (auto simp: port_of_def elim: peers_wf_map)

lemma port_of_nonzero: "peers_wf ps \<Longrightarrow> port_of ps k \<noteq> Some 0"
  using peers_wfD(3,4) [of ps] by (metis option.discI)

lemma table_links_empty: "peers_wf ps \<Longrightarrow> table_links ps k = {} \<longleftrightarrow> port_of ps k = None"
  using peers_wfD(5) [of ps k] by (auto simp: port_of_None table_links_def split: option.splits)

lemma port_of_eqI:
  assumes "hm_get (ps_handles ps) k = Some m" "m \<noteq> []" "\<And>i h. hm_get m i = Some h \<Longrightarrow> ph_port h = p"
  shows "port_of ps k = Some p"
proof -
  obtain i h m' where "m = (i, h) # m'" using assms(2) by (cases m) auto
  then show ?thesis using assms(1) assms(3) [of i h] by (simp add: port_of_def)
qed

lemma port_for_spec:
  assumes "peers_wf ps" "length (ps_used_ports ps) < 2 ^ 64 - 1"
  shows "\<exists>p. port_for key ps = Some p \<and> p \<noteq> 0 \<and>
    (port_of ps key = Some p \<or> port_of ps key = None \<and> hm_get (ps_used_ports ps) p = None)"
proof (cases "hm_get (ps_handles ps) key")
  case None
  obtain p where "alloc_port (ps_used_ports ps) = Some p" "p \<noteq> 0" "\<not> hm_contains (ps_used_ports ps) p"
    using alloc_port_lowest [OF assms(2)] by blast
  then show ?thesis using None by (simp add: port_for_def port_of_def hm_contains_def)
next
  case (Some m)
  then obtain i h m' where m: "m = (i, h) # m'" "port_of ps key = Some (ph_port h)" by (rule peers_wf_map [OF assms(1)])
  then have "ph_port h \<noteq> 0" using port_of_nonzero [OF assms(1)] by metis
  then show ?thesis using Some m by (simp add: port_for_def)
qed

lemma hm_insert_nonempty_map: "hm_insert k v m \<noteq> []"
  using hm_get_insert [of k v m k] by (auto simp del: hm_get_insert)

text \<open>One key gets a new list of links, with the same port on all of them.\<close>

lemma peers_wf_change:
  assumes "peers_wf ps" "hm_wf (ps_handles ps')" "hm_wf (ps_used_ports ps')"
    and "\<And>k. hm_get (ps_handles ps') k = (if k = key then m else hm_get (ps_handles ps) k)"
    and "\<And>q. hm_get (ps_used_ports ps') q =
      (if q = p then (if m = None then None else Some key) else hm_get (ps_used_ports ps) q)"
    and "\<And>links. m = Some links \<Longrightarrow> links \<noteq> [] \<and> hm_wf links \<and>
      (\<forall>i h. hm_get links i = Some h \<longrightarrow> ph_id h = i \<and> ph_key h = key \<and> ph_port h = p)"
    and "p \<noteq> 0" "port_of ps key = Some p \<or> port_of ps key = None \<and> hm_get (ps_used_ports ps) p = None"
  shows "peers_wf ps'" "port_of ps' key = (if m = None then None else Some p)"
    and "\<And>k. k \<noteq> key \<Longrightarrow> port_of ps' k = port_of ps k"
proof -
  show port: "port_of ps' key = (if m = None then None else Some p)"
  proof (cases m)
    case None
    then show ?thesis using assms(4) [of key] by (simp add: port_of_def)
  next
    case (Some links)
    then have "port_of ps' key = Some p"
      using port_of_eqI [of ps' key links p] assms(4) [of key] assms(6) [of links] by auto
    then show ?thesis using Some by simp
  qed
  show other: "port_of ps' k = port_of ps k" if "k \<noteq> key" for k
    using that assms(4) by (simp add: port_of_def)
  have only: "port_of ps k = Some p \<Longrightarrow> k = key" for k
    using assms(1,8) peers_wfD(4) [OF assms(1), of p k] peers_wf_port_inj [OF assms(1)] by auto
  show "peers_wf ps'"
  proof (rule peers_wfI [OF assms(2,3)])
    show "hm_get (ps_used_ports ps') 0 = None" using assms(5,7) peers_wfD(3) [OF assms(1)] by simp
    show "hm_get (ps_used_ports ps') q = Some k \<longleftrightarrow> port_of ps' k = Some q" for q k
    proof (cases "k = key")
      case True
      then show ?thesis using port assms(5) [of q] assms(8) peers_wfD(4) [OF assms(1), of q key] by auto
    next
      case False
      then show ?thesis using other only assms(5) [of q] peers_wfD(4) [OF assms(1), of q k] by auto
    qed
    show "links \<noteq> [] \<and> hm_wf links" if "hm_get (ps_handles ps') k = Some links" for k links
      using that assms(4) [of k] assms(6) [of links] peers_wfD(5,6) [OF assms(1), of k links]
      by (auto split: if_splits)
    show "ph_id h = i \<and> ph_key h = k \<and> port_of ps' k = Some (ph_port h)"
      if "hm_get (ps_handles ps') k = Some links" "hm_get links i = Some h" for k links i h
      using that assms(4) [of k] assms(6) [of links] peers_wfD(7) [OF assms(1), of k links i h] port other [of k]
      by (auto split: if_splits)
  qed
qed

lemma length_hm_insert: "length (hm_insert k v m) \<le> Suc (length m)"
  by (induction m) (auto simp: hm_insert_def)

lemma table_links_change:
  assumes "\<And>k. hm_get (ps_handles ps') k = (if k = key then m else hm_get (ps_handles ps) k)"
  shows "table_links ps' = (table_links ps)(key := (case m of Some links \<Rightarrow> set (hm_keys links) | None \<Rightarrow> {}))"
  using assms by (auto simp: table_links_def fun_eq_iff)

lemma allocate_peer_effect:
  assumes wf: "peers_wf ps" and room: "length (ps_used_ports ps) < 2 ^ 64 - 1"
  shows "\<exists>h ps'. allocate_peer key prio ps = Some (h, ps') \<and> peers_wf ps' \<and>
    ph_id h = ps_next_id ps \<and> ph_key h = key \<and> ps_next_id ps' = ps_next_id ps + 1 \<and>
    port_of ps' key = Some (ph_port h) \<and> (port_of ps key = None \<or> port_of ps key = Some (ph_port h)) \<and>
    (\<forall>k. k \<noteq> key \<longrightarrow> port_of ps' k = port_of ps k) \<and>
    table_links ps' = (table_links ps)(key := insert (ps_next_id ps) (table_links ps key)) \<and>
    length (ps_used_ports ps') \<le> Suc (length (ps_used_ports ps))"
proof -
  obtain p where p: "port_for key ps = Some p" "p \<noteq> 0"
    "port_of ps key = Some p \<or> port_of ps key = None \<and> hm_get (ps_used_ports ps) p = None"
    using port_for_spec [OF assms] by blast
  let ?h = "\<lparr>ph_id = ps_next_id ps, ph_key = key, ph_port = p, ph_prio = prio, ph_order = ps_order ps\<rparr>"
  let ?m = "case hm_get (ps_handles ps) key of Some m \<Rightarrow> m | None \<Rightarrow> []"
  define m where "m = hm_insert (ps_next_id ps) ?h ?m"
  define ps' where "ps' = snd (the (allocate_peer key prio ps))"
  have al: "allocate_peer key prio ps = Some (?h, ps')" "ps_next_id ps' = ps_next_id ps + 1"
    using p by (simp_all add: ps'_def allocate_peer_def Let_def)
  have handles: "hm_get (ps_handles ps') k = (if k = key then Some m else hm_get (ps_handles ps) k)" for k
    using p by (auto simp: ps'_def allocate_peer_def Let_def m_def split: option.splits)
  have used: "hm_get (ps_used_ports ps') q = (if q = p then (if Some m = None then None else Some key)
      else hm_get (ps_used_ports ps) q)" for q
    using p peers_wfD(4) [OF wf, of p key] port_of_None [OF wf, of key]
    by (auto simp: ps'_def allocate_peer_def Let_def hm_contains_def)
  have "hm_wf ?m" "\<And>i h. hm_get ?m i = Some h \<Longrightarrow> ph_id h = i \<and> ph_key h = key \<and> ph_port h = p"
    using peers_wfD(6,7) [OF wf, of key] p(3) port_of_None [OF wf, of key] by (auto split: option.splits)
  then have m: "m \<noteq> [] \<and> hm_wf m \<and> (\<forall>i h. hm_get m i = Some h \<longrightarrow> ph_id h = i \<and> ph_key h = key \<and> ph_port h = p)"
    by (auto simp: m_def hm_insert_nonempty_map split: if_splits)
  have dist: "hm_wf (ps_handles ps')" "hm_wf (ps_used_ports ps')"
    using p peers_wfD(1,2) [OF wf] by (simp_all add: ps'_def allocate_peer_def Let_def)
  note ch = peers_wf_change [OF wf dist handles used _ p(2,3)]
  have "table_links ps' = (table_links ps)(key := insert (ps_next_id ps) (table_links ps key))"
    unfolding table_links_change [OF handles] by (auto simp: m_def table_links_def split: option.splits)
  moreover have "peers_wf ps'" "port_of ps' key = Some p" "\<And>k. k \<noteq> key \<Longrightarrow> port_of ps' k = port_of ps k"
    using ch m by simp_all
  moreover have "length (ps_used_ports ps') \<le> Suc (length (ps_used_ports ps))"
    using p length_hm_insert [of p key "ps_used_ports ps"] by (simp add: ps'_def allocate_peer_def Let_def)
  ultimately show ?thesis using al p(3) by auto
qed

lemma length_hm_remove: "length (hm_remove k m) \<le> length m"
  by (simp add: hm_remove_def AList.delete_eq)

lemma peers_remove_peer_effect:
  assumes wf: "peers_wf ps" and rem: "peers_remove_peer ident key ps = (r, ps')"
  shows "peers_wf ps' \<and> table_links ps' = (table_links ps)(key := table_links ps key - {ident}) \<and>
    (\<forall>k. port_of ps' k = (if table_links ps' k = {} then None else port_of ps k)) \<and>
    ps_next_id ps' = ps_next_id ps \<and> length (ps_used_ports ps') \<le> length (ps_used_ports ps)"
proof (cases "hm_get (ps_handles ps) key")
  case None
  then have "ps' = ps" and e: "table_links ps key = {}" using rem by (simp_all add: peers_remove_peer_def table_links_def)
  moreover have "(table_links ps)(key := table_links ps key - {ident}) = table_links ps" using e by (simp add: fun_upd_idem)
  ultimately show ?thesis using wf table_links_empty [OF wf] by simp
next
  case (Some m)
  obtain i h m0 where m0: "m = (i, h) # m0" "port_of ps key = Some (ph_port h)" by (rule peers_wf_map [OF wf Some])
  let ?p = "ph_port h" and ?m = "hm_remove ident m"
  have m: "hm_wf m" "\<And>i h. hm_get m i = Some h \<Longrightarrow> ph_id h = i \<and> ph_key h = key \<and> ph_port h = ?p"
    using peers_wfD(6,7) [OF wf Some] m0(2) by auto
  define m' where "m' = (if ?m = [] then None else Some ?m)"
  have only: "map_option ph_port (hm_get m ident) = Some ?p" if "?m = []"
    using that m0(1) by (cases "i = ident") (auto simp: hm_remove_def AList.delete_eq)
  have handles: "hm_get (ps_handles ps') k = (if k = key then m' else hm_get (ps_handles ps) k)" for k
    using rem Some by (auto simp: peers_remove_peer_def Let_def m'_def split: if_splits)
  have used: "hm_get (ps_used_ports ps') q =
      (if q = ?p then (if m' = None then None else Some key) else hm_get (ps_used_ports ps) q)" for q
    using rem Some only m0(2) peers_wfD(4) [OF wf, of ?p key]
    by (auto simp: peers_remove_peer_def Let_def m'_def split: if_splits)
  have dist: "hm_wf (ps_handles ps')" "hm_wf (ps_used_ports ps')"
    using rem Some peers_wfD(1,2) [OF wf] by (auto simp: peers_remove_peer_def Let_def split: if_splits option.splits)
  have links: "links \<noteq> [] \<and> hm_wf links \<and> (\<forall>i h'. hm_get links i = Some h' \<longrightarrow> ph_id h' = i \<and> ph_key h' = key \<and>
      ph_port h' = ?p)" if "m' = Some links" for links
    using that m by (auto simp: m'_def split: if_splits)
  have p: "?p \<noteq> 0" "port_of ps key = Some ?p \<or> port_of ps key = None \<and> hm_get (ps_used_ports ps) ?p = None"
    using m0(2) port_of_nonzero [OF wf, of key] by auto
  note ch = peers_wf_change [OF wf dist handles used links p]
  have links': "table_links ps' = (table_links ps)(key := table_links ps key - {ident})"
  proof -
    have "(case m' of Some l \<Rightarrow> set (hm_keys l) | None \<Rightarrow> {}) = set (hm_keys ?m)"
      unfolding m'_def
      by (cases "?m = []") (simp_all only: if_True if_False option.case list.map list.set simp_thms)
    moreover have "table_links ps key = set (hm_keys m)" using Some by (simp add: table_links_def)
    ultimately show ?thesis unfolding table_links_change [OF handles] set_hm_keys_remove by simp
  qed
  moreover have "port_of ps' k = (if table_links ps' k = {} then None else port_of ps k)" for k
    using ch(2,3) m0(2) table_links_empty [OF ch(1), of k] table_links_empty [OF wf, of k] links'
    by (cases "k = key") (auto split: if_splits)
  moreover have "ps_next_id ps' = ps_next_id ps" "length (ps_used_ports ps') \<le> length (ps_used_ports ps)"
    using rem Some length_hm_remove
    by (auto simp: peers_remove_peer_def Let_def split: if_splits option.splits)
  ultimately show ?thesis using ch(1) by blast
qed

section \<open>The router's view\<close>

text \<open>What the router knows of links and ports, and what \<open>AddPeer\<close> and \<open>RemovePeer\<close> make of it.\<close>

type_synonym link_view = "(public_key \<Rightarrow> peer_id set) \<times> (peer_port \<Rightarrow> public_key option)"

datatype link_msg = AddLink peer_entry | RemoveLink peer_id public_key peer_port

definition router_view :: "router \<Rightarrow> link_view" where
  "router_view r =
     (\<lambda>k. case hm_get (r_peers r) k of Some m \<Rightarrow> set (hm_keys m) | None \<Rightarrow> {}, hm_get (r_ports r))"

definition no_empty_peers :: "router \<Rightarrow> bool" where
  "no_empty_peers r \<longleftrightarrow> (\<forall>k. hm_get (r_peers r) k \<noteq> Some [])"

fun apply_msg :: "link_msg \<Rightarrow> link_view \<Rightarrow> link_view" where
  "apply_msg (AddLink e) (L, P) =
     (L(pe_key e := insert (pe_id e) (L (pe_key e))),
      if L (pe_key e) = {} then P(pe_port e \<mapsto> pe_key e) else P)"
| "apply_msg (RemoveLink i k p) (L, P) =
     (L(k := L k - {i}), if L k \<noteq> {} \<and> L k - {i} = {} then P(p := None) else P)"

fun deliver_msg :: "router_env \<Rightarrow> link_msg \<Rightarrow> router \<Rightarrow> router_action list \<times> router" where
  "deliver_msg env (AddLink e) r = add_peer env e r"
| "deliver_msg env (RemoveLink i k p) r = remove_peer i k p r"

lemma add_peer_links:
  "r_peers (snd (add_peer env e r)) =
     hm_modify (pe_key e) (hm_insert (pe_id e) e) (hm_entry (pe_key e) [] (r_peers r))"
  "r_ports (snd (add_peer env e r)) =
     (if hm_contains (r_peers r) (pe_key e) then r_ports r else hm_insert (pe_port e) (pe_key e) (r_ports r))"
  by (auto simp: add_peer_def Let_def hm_entry_def hm_contains_def split: option.splits)

lemma remove_peer_links:
  "r_peers (snd (remove_peer i k p r)) =
     (case hm_get (r_peers r) k of
        None \<Rightarrow> r_peers r
      | Some m \<Rightarrow> if hm_remove i m = [] then hm_remove k (hm_modify k (\<lambda>_. hm_remove i m) (r_peers r))
                  else hm_modify k (\<lambda>_. hm_remove i m) (r_peers r))"
  "r_ports (snd (remove_peer i k p r)) =
     (case hm_get (r_peers r) k of
        None \<Rightarrow> r_ports r
      | Some m \<Rightarrow> if hm_remove i m = [] then hm_remove p (r_ports r) else r_ports r)"
  by (auto simp: remove_peer_def Let_def split: option.splits)

lemma set_keys_empty: "set (hm_keys m) = {} \<longleftrightarrow> m = []"
  by simp

lemma deliver_msg_view:
  assumes "no_empty_peers r"
  shows "router_view (snd (deliver_msg env msg r)) = apply_msg msg (router_view r)"
    and "no_empty_peers (snd (deliver_msg env msg r))"
proof (atomize (full), cases msg)
  case (AddLink e)
  have "hm_get (r_peers r) (pe_key e) \<noteq> Some []" using assms by (simp add: no_empty_peers_def)
  then show "router_view (snd (deliver_msg env msg r)) = apply_msg msg (router_view r) \<and>
      no_empty_peers (snd (deliver_msg env msg r))"
    using AddLink assms
    by (auto simp: router_view_def add_peer_links hm_contains_def no_empty_peers_def fun_eq_iff hm_insert_nonempty_map
        split: option.splits)
next
  case (RemoveLink i k p)
  have e: "hm_remove i m = [] \<longleftrightarrow> set (hm_keys m) - {i} = {}" for m :: "(peer_id, peer_entry) hmap"
    using set_hm_keys_remove [of i m] by (metis set_keys_empty)
  have ne: "hm_get (r_peers r) k \<noteq> Some []" using assms by (simp add: no_empty_peers_def)
  show "router_view (snd (deliver_msg env msg r)) = apply_msg msg (router_view r) \<and>
      no_empty_peers (snd (deliver_msg env msg r))"
    using RemoveLink assms ne e
    by (auto simp: router_view_def remove_peer_links no_empty_peers_def fun_eq_iff
        split: option.splits)
qed

section \<open>Links that come and go\<close>

datatype task = Running | PortRead peer_port | Told | Dropped

record link =
  lk_handle :: peer_handle
  lk_added :: bool
  lk_reader :: task
  lk_writer :: task

record link_world =
  w_peers :: peers
  w_links :: "(peer_id, link) hmap"
  w_msgs :: "link_msg list"
  w_router :: router

definition link_world_new :: "router \<Rightarrow> link_world" where
  "link_world_new r = \<lparr>w_peers = peers_new, w_links = [], w_msgs = [], w_router = r\<rparr>"

text \<open>A connection is allocated, registered with the router and then runs its two tasks. The reader
  looks its port up in the table before it tells the router; the writer was started with the port.
  The router processes the oldest message.\<close>

datatype link_event =
    Connect public_key u8
  | Register peer_id
  | ReaderPort peer_id
  | ReaderTell peer_id
  | ReaderDrop peer_id
  | WriterTell peer_id
  | WriterDrop peer_id
  | Process router_env

definition drop_link :: "peer_id \<Rightarrow> link \<Rightarrow> link_world \<Rightarrow> link_world" where
  "drop_link i l w =
     w\<lparr>w_peers := snd (peers_remove_peer i (ph_key (lk_handle l)) (w_peers w)), w_links := hm_insert i l (w_links w)\<rparr>"

fun link_task_step :: "link_event \<Rightarrow> peer_id \<Rightarrow> link \<Rightarrow> link_world \<Rightarrow> link_world" where
  "link_task_step (ReaderPort _) i l w =
     (if lk_added l \<and> lk_reader l = Running
      then w\<lparr>w_links := hm_insert i (l\<lparr>lk_reader := PortRead (link_port i (ph_key (lk_handle l)) (w_peers w))\<rparr>) (w_links w)\<rparr>
      else w)"
| "link_task_step (ReaderTell _) i l w =
     (case lk_reader l of
        PortRead p \<Rightarrow> w\<lparr>w_msgs := w_msgs w @ [RemoveLink i (ph_key (lk_handle l)) p],
                       w_links := hm_insert i (l\<lparr>lk_reader := Told\<rparr>) (w_links w)\<rparr>
      | _ \<Rightarrow> w)"
| "link_task_step (ReaderDrop _) i l w =
     (if lk_reader l = Told then drop_link i (l\<lparr>lk_reader := Dropped\<rparr>) w else w)"
| "link_task_step (WriterTell _) i l w =
     (if lk_added l \<and> lk_writer l = Running
      then w\<lparr>w_msgs := w_msgs w @ [RemoveLink i (ph_key (lk_handle l)) (ph_port (lk_handle l))],
             w_links := hm_insert i (l\<lparr>lk_writer := Told\<rparr>) (w_links w)\<rparr>
      else w)"
| "link_task_step (WriterDrop _) i l w =
     (if lk_writer l = Told then drop_link i (l\<lparr>lk_writer := Dropped\<rparr>) w else w)"
| "link_task_step (Register _) i l w =
     (if \<not> lk_added l
      then w\<lparr>w_msgs := w_msgs w @ [AddLink (to_entry (lk_handle l))],
             w_links := hm_insert i (l\<lparr>lk_added := True\<rparr>) (w_links w)\<rparr>
      else w)"
| "link_task_step _ i l w = w"

fun event_link :: "link_event \<Rightarrow> peer_id option" where
  "event_link (Connect _ _) = None"
| "event_link (Process _) = None"
| "event_link (Register i) = Some i"
| "event_link (ReaderPort i) = Some i"
| "event_link (ReaderTell i) = Some i"
| "event_link (ReaderDrop i) = Some i"
| "event_link (WriterTell i) = Some i"
| "event_link (WriterDrop i) = Some i"

definition link_step :: "link_event \<Rightarrow> link_world \<Rightarrow> link_world" where
  "link_step e w =
     (case e of
        Connect key prio \<Rightarrow>
          (case allocate_peer key prio (w_peers w) of
             None \<Rightarrow> w
           | Some (h, ps) \<Rightarrow>
               w\<lparr>w_peers := ps,
                 w_links := hm_insert (ph_id h)
                   \<lparr>lk_handle = h, lk_added = False, lk_reader = Running, lk_writer = Running\<rparr> (w_links w)\<rparr>)
      | Process env \<Rightarrow>
          (case w_msgs w of
             [] \<Rightarrow> w
           | m # ms \<Rightarrow> w\<lparr>w_msgs := ms, w_router := snd (deliver_msg env m (w_router w))\<rparr>)
      | _ \<Rightarrow>
          (case event_link e of
             None \<Rightarrow> w
           | Some i \<Rightarrow> (case hm_get (w_links w) i of None \<Rightarrow> w | Some l \<Rightarrow> link_task_step e i l w)))"

definition gone :: "link \<Rightarrow> bool" where
  "gone l \<longleftrightarrow> lk_reader l = Dropped \<or> lk_writer l = Dropped"

definition told :: "link \<Rightarrow> bool" where
  "told l \<longleftrightarrow> lk_reader l \<in> {Told, Dropped} \<or> lk_writer l \<in> {Told, Dropped}"

text \<open>The links of a key that are in the table, and those the router has been told to keep.\<close>

definition held_links :: "link_world \<Rightarrow> public_key \<Rightarrow> peer_id set" where
  "held_links w k = {i. \<exists>l. hm_get (w_links w) i = Some l \<and> ph_key (lk_handle l) = k \<and> \<not> gone l}"

definition live_links :: "link_world \<Rightarrow> public_key \<Rightarrow> peer_id set" where
  "live_links w k = {i. \<exists>l. hm_get (w_links w) i = Some l \<and> ph_key (lk_handle l) = k \<and> lk_added l \<and> \<not> told l}"

definition link_ok :: "link_world \<Rightarrow> peer_id \<Rightarrow> link \<Rightarrow> bool" where
  "link_ok w i l \<longleftrightarrow> ph_id (lk_handle l) = i \<and> i < ps_next_id (w_peers w) \<and>
     (\<not> gone l \<longrightarrow> port_of (w_peers w) (ph_key (lk_handle l)) = Some (ph_port (lk_handle l))) \<and>
     (\<not> told l \<longrightarrow> (\<forall>p. lk_reader l = PortRead p \<longrightarrow> p = ph_port (lk_handle l))) \<and>
     (\<not> lk_added l \<longrightarrow> lk_reader l = Running \<and> lk_writer l = Running)"

definition drained_view :: "link_world \<Rightarrow> link_view" where
  "drained_view w = fold apply_msg (w_msgs w) (router_view (w_router w))"

definition world_ok :: "link_world \<Rightarrow> bool" where
  "world_ok w \<longleftrightarrow> peers_wf (w_peers w) \<and> no_empty_peers (w_router w) \<and>
     (\<forall>i l. hm_get (w_links w) i = Some l \<longrightarrow> link_ok w i l) \<and>
     table_links (w_peers w) = held_links w \<and> fst (drained_view w) = live_links w \<and>
     (\<forall>p k. snd (drained_view w) p = Some k \<longleftrightarrow> live_links w k \<noteq> {} \<and> port_of (w_peers w) k = Some p)"

lemma held_links_insert:
  assumes "w_links w' = hm_insert i l (w_links w)"
  shows "held_links w' k = (if ph_key (lk_handle l) = k \<and> \<not> gone l then insert i (held_links w k) else held_links w k - {i})"
  using assms by (auto simp: held_links_def)

lemma live_links_insert:
  assumes "w_links w' = hm_insert i l (w_links w)"
  shows "live_links w' k = (if ph_key (lk_handle l) = k \<and> lk_added l \<and> \<not> told l then insert i (live_links w k)
    else live_links w k - {i})"
  using assms by (auto simp: live_links_def)

lemma live_held: "live_links w k \<subseteq> held_links w k"
  by (auto simp: live_links_def held_links_def gone_def told_def)

lemma world_okD:
  assumes "world_ok w"
  shows "peers_wf (w_peers w)" "no_empty_peers (w_router w)" "hm_get (w_links w) i = Some l \<Longrightarrow> link_ok w i l"
    "table_links (w_peers w) = held_links w" "fst (drained_view w) = live_links w"
    "snd (drained_view w) p = Some k \<longleftrightarrow> live_links w k \<noteq> {} \<and> port_of (w_peers w) k = Some p"
  using assms unfolding world_ok_def by blast+

lemma world_okI:
  assumes "peers_wf (w_peers w)" "no_empty_peers (w_router w)"
    "\<And>i l. hm_get (w_links w) i = Some l \<Longrightarrow> link_ok w i l"
    "\<And>k. table_links (w_peers w) k = held_links w k" "drained_view w = (live_links w, P)"
    "\<And>p k. P p = Some k \<longleftrightarrow> live_links w k \<noteq> {} \<and> port_of (w_peers w) k = Some p"
  shows "world_ok w"
  unfolding world_ok_def using assms by (auto simp: fun_eq_iff)

lemma drained_view_pair: "world_ok w \<Longrightarrow> drained_view w = (live_links w, snd (drained_view w))"
  using world_okD(5) by (metis prod.collapse)

text \<open>A link that changes without a message and without a change of the table.\<close>

lemma world_ok_quiet:
  assumes ok: "world_ok w" and l: "hm_get (w_links w) i = Some l"
    and w': "w' = w\<lparr>w_links := hm_insert i l' (w_links w)\<rparr>"
    and same: "lk_handle l' = lk_handle l" "gone l' = gone l" "told l' = told l" "lk_added l' = lk_added l"
    and link: "link_ok w i l'"
  shows "world_ok w'"
proof (rule world_okI)
  have links: "w_links w' = hm_insert i l' (w_links w)" by (simp add: w')
  have held: "held_links w' k = held_links w k" for k
    unfolding held_links_insert [OF links] using l same by (auto simp: held_links_def)
  have live: "live_links w' k = live_links w k" for k
    unfolding live_links_insert [OF links] using l same by (auto simp: live_links_def)
  have dv: "drained_view w' = drained_view w" by (simp add: drained_view_def w')
  show "peers_wf (w_peers w')" "no_empty_peers (w_router w')" using world_okD(1,2) [OF ok] by (simp_all add: w')
  show "link_ok w' j k" if "hm_get (w_links w') j = Some k" for j k
    using that link world_okD(3) [OF ok, of j k] by (auto simp: w' link_ok_def split: if_splits)
  show "table_links (w_peers w') k = held_links w' k" for k using world_okD(4) [OF ok] held by (simp add: w')
  show "drained_view w' = (live_links w', snd (drained_view w))"
    using drained_view_pair [OF ok] dv live by (metis ext)
  show "snd (drained_view w) p = Some k \<longleftrightarrow> live_links w' k \<noteq> {} \<and> port_of (w_peers w') k = Some p" for p k
    using world_okD(6) [OF ok] live by (simp add: w')
qed

text \<open>A message \<open>RemoveLink\<close> for a link that has just been marked as told.\<close>

lemma world_ok_tell:
  assumes ok: "world_ok w" and l: "hm_get (w_links w) i = Some l" "lk_added l"
    and w': "w' = w\<lparr>w_msgs := w_msgs w @ [RemoveLink i (ph_key (lk_handle l)) p],
                  w_links := hm_insert i l' (w_links w)\<rparr>"
    and same: "lk_handle l' = lk_handle l" "gone l' = gone l" "told l'" "lk_added l'"
    and port: "\<not> told l \<Longrightarrow> p = ph_port (lk_handle l)"
  shows "world_ok w'"
proof (rule world_okI)
  let ?k = "ph_key (lk_handle l)"
  have links: "w_links w' = hm_insert i l' (w_links w)" by (simp add: w')
  have lok: "link_ok w i l" using world_okD(3) [OF ok l(1)] .
  have held: "held_links w' k = held_links w k" for k
    unfolding held_links_insert [OF links] using l same by (auto simp: held_links_def)
  have live: "live_links w' = (live_links w)(?k := live_links w ?k - {i})"
  proof
    fix k
    have "k \<noteq> ?k \<Longrightarrow> i \<notin> live_links w k" using l(1) by (auto simp: live_links_def)
    then show "live_links w' k = ((live_links w)(?k := live_links w ?k - {i})) k"
      using live_links_insert [OF links, of k] same(3) by auto
  qed
  have dv: "drained_view w' = apply_msg (RemoveLink i ?k p) (live_links w, snd (drained_view w))"
    using drained_view_pair [OF ok] by (simp add: drained_view_def w')
  show "peers_wf (w_peers w')" "no_empty_peers (w_router w')" using world_okD(1,2) [OF ok] by (simp_all add: w')
  show "link_ok w' j m" if "hm_get (w_links w') j = Some m" for j m
    using that lok same world_okD(3) [OF ok, of j m] l(2) by (auto simp: w' link_ok_def split: if_splits)
  show "table_links (w_peers w') k = held_links w' k" for k using world_okD(4) [OF ok] held by (simp add: w')
  show "drained_view w' = (live_links w', snd (drained_view w'))" using dv live by simp
  have last: "snd (drained_view w) q = Some ?k \<longleftrightarrow> q = p" if "live_links w ?k \<noteq> {}" "live_links w ?k - {i} = {}" for q
  proof -
    have "i \<in> live_links w ?k" using that by blast
    then have "\<not> told l" "\<not> gone l" using l(1) by (auto simp: live_links_def gone_def told_def)
    then have "port_of (w_peers w) ?k = Some p" using lok port by (simp add: link_ok_def)
    then show ?thesis using world_okD(6) [OF ok] that(1) by auto
  qed
  show "snd (drained_view w') q = Some k \<longleftrightarrow> live_links w' k \<noteq> {} \<and> port_of (w_peers w') k = Some q" for q k
  proof (cases "live_links w ?k \<noteq> {} \<and> live_links w ?k - {i} = {}")
    case True
    then have "snd (drained_view w') = (snd (drained_view w))(p := None)" using dv by simp
    moreover have "live_links w' = (live_links w)(?k := {})" using live True by (simp only:)
    ultimately show ?thesis
      using world_okD(6) [OF ok, of q k] last [of q] last [of p] True by (auto simp: w')
  next
    case False
    then have "snd (drained_view w') = snd (drained_view w)" "live_links w' k = {} \<longleftrightarrow> live_links w k = {}"
      using dv live by auto
    then show ?thesis using world_okD(6) [OF ok, of q k] by (auto simp: w')
  qed
qed

lemma world_ok_register:
  assumes ok: "world_ok w" and l: "hm_get (w_links w) i = Some l" "\<not> lk_added l"
    and w': "w' = w\<lparr>w_msgs := w_msgs w @ [AddLink (to_entry (lk_handle l))],
                  w_links := hm_insert i (l\<lparr>lk_added := True\<rparr>) (w_links w)\<rparr>"
  shows "world_ok w'"
proof (rule world_okI)
  let ?k = "ph_key (lk_handle l)" and ?p = "ph_port (lk_handle l)"
  have links: "w_links w' = hm_insert i (l\<lparr>lk_added := True\<rparr>) (w_links w)" by (simp add: w')
  have lok: "link_ok w i l" using world_okD(3) [OF ok l(1)] .
  then have run: "\<not> gone l" "\<not> told l" "port_of (w_peers w) ?k = Some ?p" "ph_id (lk_handle l) = i"
    using l(2) by (auto simp: link_ok_def gone_def told_def)
  have held: "held_links w' k = held_links w k" for k
    unfolding held_links_insert [OF links] using l run by (auto simp: held_links_def gone_def)
  have live: "live_links w' = (live_links w)(?k := insert i (live_links w ?k))"
  proof
    fix k
    have "k \<noteq> ?k \<Longrightarrow> i \<notin> live_links w k" using l(1) by (auto simp: live_links_def)
    then show "live_links w' k = ((live_links w)(?k := insert i (live_links w ?k))) k"
      using live_links_insert [OF links, of k] run by (auto simp: told_def)
  qed
  have dv: "drained_view w' = apply_msg (AddLink (to_entry (lk_handle l))) (live_links w, snd (drained_view w))"
    using drained_view_pair [OF ok] by (simp add: drained_view_def w')
  show "peers_wf (w_peers w')" "no_empty_peers (w_router w')" using world_okD(1,2) [OF ok] by (simp_all add: w')
  show "link_ok w' j m" if "hm_get (w_links w') j = Some m" for j m
    using that lok world_okD(3) [OF ok, of j m] run
    by (auto simp: w' link_ok_def gone_def told_def split: if_splits)
  show "table_links (w_peers w') k = held_links w' k" for k using world_okD(4) [OF ok] held by (simp add: w')
  show "drained_view w' = (live_links w', snd (drained_view w'))"
    using dv live run(4) by (simp add: to_entry_def)
  have inj: "port_of (w_peers w) k = Some ?p \<Longrightarrow> k = ?k" for k
    using peers_wf_port_inj [OF world_okD(1) [OF ok]] run(3) by blast
  show "snd (drained_view w') q = Some k \<longleftrightarrow> live_links w' k \<noteq> {} \<and> port_of (w_peers w') k = Some q" for q k
  proof (cases "live_links w ?k = {}")
    case True
    then have P: "snd (drained_view w') = (snd (drained_view w))(?p \<mapsto> ?k)" using dv by (simp add: to_entry_def)
    show ?thesis
    proof (cases "k = ?k")
      case True
      then show ?thesis
        using P live \<open>live_links w ?k = {}\<close> world_okD(6) [OF ok, of q k] run(3) by (auto simp: w')
    next
      case False
      then show ?thesis using P live world_okD(6) [OF ok, of q k] inj [of k] by (auto simp: w')
    qed
  next
    case False
    then have "snd (drained_view w') = snd (drained_view w)" "live_links w' k = {} \<longleftrightarrow> live_links w k = {}"
      using dv live by (auto simp: to_entry_def)
    then show ?thesis using world_okD(6) [OF ok, of q k] by (simp add: w')
  qed
qed

lemma world_ok_drop:
  assumes ok: "world_ok w" and l: "hm_get (w_links w) i = Some l" "told l" "lk_added l"
    and l': "lk_handle l' = lk_handle l" "gone l'" "told l'" "lk_added l'"
  shows "world_ok (drop_link i l' w)"
proof (rule world_okI)
  let ?k = "ph_key (lk_handle l)" and ?w = "drop_link i l' w"
  have links: "w_links ?w = hm_insert i l' (w_links w)" by (simp add: drop_link_def)
  obtain r where "peers_remove_peer i ?k (w_peers w) = (r, w_peers ?w)"
    using l' by (cases "peers_remove_peer i ?k (w_peers w)") (simp add: drop_link_def)
  note eff = peers_remove_peer_effect [OF world_okD(1) [OF ok] this]
  have held: "held_links ?w k = ((held_links w)(?k := held_links w ?k - {i})) k" for k
  proof -
    have "k \<noteq> ?k \<Longrightarrow> i \<notin> held_links w k" using l(1) by (auto simp: held_links_def)
    then show ?thesis using held_links_insert [OF links, of k] l' by auto
  qed
  have live: "live_links ?w k = live_links w k" for k
    using live_links_insert [OF links, of k] l l' by (auto simp: live_links_def)
  have dv: "drained_view ?w = drained_view w" by (simp add: drained_view_def drop_link_def)
  have lok: "link_ok w i l" using world_okD(3) [OF ok l(1)] .
  show "peers_wf (w_peers ?w)" "no_empty_peers (w_router ?w)"
    using eff world_okD(2) [OF ok] by (simp_all add: drop_link_def)
  show tl: "table_links (w_peers ?w) k = held_links ?w k" for k
    using eff world_okD(4) [OF ok] held [of k] by simp
  have port: "port_of (w_peers ?w) k = port_of (w_peers w) k" if "held_links ?w k \<noteq> {}" for k
    using eff that tl [of k] by simp
  show "link_ok ?w j m" if "hm_get (w_links ?w) j = Some m" for j m
  proof -
    have m: "ph_id (lk_handle m) = j \<and> j < ps_next_id (w_peers w) \<and>
      (\<not> gone m \<longrightarrow> port_of (w_peers w) (ph_key (lk_handle m)) = Some (ph_port (lk_handle m))) \<and>
      (\<not> told m \<longrightarrow> (\<forall>p. lk_reader m = PortRead p \<longrightarrow> p = ph_port (lk_handle m))) \<and>
      (\<not> lk_added m \<longrightarrow> lk_reader m = Running \<and> lk_writer m = Running)"
      using that lok world_okD(3) [OF ok, of j m] l' links by (auto simp: link_ok_def split: if_splits)
    have "\<not> gone m \<Longrightarrow> held_links ?w (ph_key (lk_handle m)) \<noteq> {}" using that by (auto simp: held_links_def)
    then show ?thesis using m port eff by (auto simp: link_ok_def)
  qed
  show "drained_view ?w = (live_links ?w, snd (drained_view w))"
    using drained_view_pair [OF ok] dv live by (metis ext)
  show "snd (drained_view w) p = Some k \<longleftrightarrow> live_links ?w k \<noteq> {} \<and> port_of (w_peers ?w) k = Some p" for p k
  proof -
    have "live_links w k \<noteq> {} \<Longrightarrow> port_of (w_peers ?w) k = port_of (w_peers w) k"
      using live [of k] live_held [of ?w k] port [of k] by blast
    then show ?thesis using world_okD(6) [OF ok, of p k] live [of k] by (cases "live_links w k = {}") auto
  qed
qed

lemma world_ok_connect:
  assumes ok: "world_ok w" and room: "length (ps_used_ports (w_peers w)) < 2 ^ 64 - 1" "ps_next_id (w_peers w) + 1 \<noteq> 0"
  shows "world_ok (link_step (Connect key prio) w)"
    and "ps_next_id (w_peers (link_step (Connect key prio) w)) = ps_next_id (w_peers w) + 1"
    and "length (ps_used_ports (w_peers (link_step (Connect key prio) w))) \<le> Suc (length (ps_used_ports (w_peers w)))"
proof -
  obtain h ps' where al: "allocate_peer key prio (w_peers w) = Some (h, ps')" and wf: "peers_wf ps'"
    and h: "ph_id h = ps_next_id (w_peers w)" "ph_key h = key" and nx: "ps_next_id ps' = ps_next_id (w_peers w) + 1"
    and port: "port_of ps' key = Some (ph_port h)"
      "port_of (w_peers w) key = None \<or> port_of (w_peers w) key = Some (ph_port h)"
      "\<And>k. k \<noteq> key \<Longrightarrow> port_of ps' k = port_of (w_peers w) k"
    and tl: "table_links ps' = (table_links (w_peers w))(key := insert (ps_next_id (w_peers w)) (table_links (w_peers w) key))"
    and len: "length (ps_used_ports ps') \<le> Suc (length (ps_used_ports (w_peers w)))"
    using allocate_peer_effect [OF world_okD(1) [OF ok] room(1), of key prio] by blast
  let ?l = "\<lparr>lk_handle = h, lk_added = False, lk_reader = Running, lk_writer = Running\<rparr>"
  let ?w = "link_step (Connect key prio) w" and ?i = "ps_next_id (w_peers w)"
  have w: "?w = w\<lparr>w_peers := ps', w_links := hm_insert ?i ?l (w_links w)\<rparr>" using al h by (simp add: link_step_def)
  show "ps_next_id (w_peers ?w) = ps_next_id (w_peers w) + 1"
    "length (ps_used_ports (w_peers ?w)) \<le> Suc (length (ps_used_ports (w_peers w)))"
    using w nx len by simp_all
  have links: "w_links ?w = hm_insert ?i ?l (w_links w)" by (simp add: w)
  have fresh: "hm_get (w_links w) ?i = None"
    using world_okD(3) [OF ok, of ?i] by (cases "hm_get (w_links w) ?i") (auto simp: link_ok_def)
  have held: "held_links ?w k = ((held_links w)(key := insert ?i (held_links w key))) k" for k
    using held_links_insert [OF links, of k] fresh h by (auto simp: gone_def held_links_def)
  have live: "live_links ?w k = live_links w k" for k
    using live_links_insert [OF links, of k] fresh by (auto simp: live_links_def)
  have keep: "port_of ps' k = port_of (w_peers w) k" if "port_of (w_peers w) k \<noteq> None" for k
    using that port by (cases "k = key") auto
  show "world_ok ?w"
  proof (rule world_okI)
    show "peers_wf (w_peers ?w)" "no_empty_peers (w_router ?w)" using wf world_okD(2) [OF ok] by (simp_all add: w)
    show "link_ok ?w j m" if "hm_get (w_links ?w) j = Some m" for j m
    proof (cases "j = ?i")
      case True
      then have "m = ?l" using that links by simp
      then show ?thesis using True h port(1) nx less_plus_one [OF room(2)] by (simp add: link_ok_def w)
    next
      case False
      then have m: "link_ok w j m" using that links world_okD(3) [OF ok, of j m] by simp
      then have "j < ?i + 1" using less_plus_one [OF room(2)] by (auto simp: link_ok_def)
      then show ?thesis using m keep nx by (auto simp: link_ok_def w)
    qed
    show "table_links (w_peers ?w) k = held_links ?w k" for k
      using tl held [of k] world_okD(4) [OF ok] by (simp add: w)
    show "drained_view ?w = (live_links ?w, snd (drained_view w))"
    proof -
      have "live_links ?w = live_links w" using live by (rule ext)
      moreover have "drained_view ?w = drained_view w" by (simp add: drained_view_def w)
      ultimately show ?thesis using drained_view_pair [OF ok] by simp
    qed
    show "snd (drained_view w) p = Some k \<longleftrightarrow> live_links ?w k \<noteq> {} \<and> port_of (w_peers ?w) k = Some p" for p k
    proof -
      have "live_links w k \<noteq> {} \<Longrightarrow> port_of (w_peers w) k \<noteq> None"
        using live_held [of w k] table_links_empty [OF world_okD(1) [OF ok], of k] world_okD(4) [OF ok] by auto
      then show ?thesis
        using world_okD(6) [OF ok, of p k] live [of k] keep [of k] by (cases "live_links w k = {}") (auto simp: w)
    qed
  qed
qed

lemma world_ok_process:
  assumes "world_ok w"
  shows "world_ok (link_step (Process env) w)"
proof (cases "w_msgs w")
  case Nil
  then show ?thesis using assms by (simp add: link_step_def)
next
  case (Cons m ms)
  let ?w = "link_step (Process env) w"
  have w: "?w = w\<lparr>w_msgs := ms, w_router := snd (deliver_msg env m (w_router w))\<rparr>"
    using Cons by (simp add: link_step_def)
  note view = deliver_msg_view [OF world_okD(2) [OF assms], of env m]
  have "drained_view ?w = drained_view w" using Cons view by (simp add: drained_view_def w)
  moreover have "held_links ?w = held_links w" "live_links ?w = live_links w"
    by (simp_all add: held_links_def live_links_def fun_eq_iff w)
  moreover have "link_ok ?w = link_ok w" by (simp add: link_ok_def fun_eq_iff w)
  ultimately show ?thesis
    using assms view by (simp add: world_ok_def) (simp add: w)
qed

lemma link_port_held:
  assumes "world_ok w" "hm_get (w_links w) i = Some l" "\<not> gone l"
  shows "link_port i (ph_key (lk_handle l)) (w_peers w) = ph_port (lk_handle l)"
proof -
  let ?k = "ph_key (lk_handle l)"
  have "i \<in> table_links (w_peers w) ?k"
    using assms(2,3) world_okD(4) [OF assms(1)] by (auto simp: held_links_def)
  then obtain m h where m: "hm_get (ps_handles (w_peers w)) ?k = Some m" "hm_get m i = Some h"
    by (auto simp: table_links_def split: option.splits) (metis fst_conv imageI map_of_eq_None_iff not_Some_eq)
  have "port_of (w_peers w) ?k = Some (ph_port h)" using peers_wfD(7) [OF world_okD(1) [OF assms(1)] m] by simp
  moreover have "port_of (w_peers w) ?k = Some (ph_port (lk_handle l))"
    using world_okD(3) [OF assms(1,2)] assms(3) by (simp add: link_ok_def)
  ultimately show ?thesis using m by (simp add: link_port_def)
qed

lemma world_ok_task:
  assumes ok: "world_ok w" and l: "hm_get (w_links w) i = Some l"
  shows "world_ok (link_task_step e i l w)"
proof -
  have lok: "link_ok w i l" using world_okD(3) [OF ok l] .
  show ?thesis
  proof (cases e)
    case (Register j)
    then show ?thesis using ok world_ok_register [OF ok l _ refl] by simp
  next
    case (ReaderPort j)
    show ?thesis
    proof (cases "lk_added l \<and> lk_reader l = Running")
      case True
      have "link_ok w i (l\<lparr>lk_reader := PortRead (link_port i (ph_key (lk_handle l)) (w_peers w))\<rparr>)"
        using lok link_port_held [OF ok l] True by (auto simp: link_ok_def gone_def told_def)
      then show ?thesis
        using ReaderPort True world_ok_quiet [OF ok l refl] by (simp add: gone_def told_def)
    qed (use ReaderPort ok in auto)
  next
    case (ReaderTell j)
    show ?thesis
    proof (cases "lk_reader l")
      case (PortRead p)
      have "lk_added l" "\<not> told l \<Longrightarrow> p = ph_port (lk_handle l)" using lok PortRead by (auto simp: link_ok_def)
      then show ?thesis
        using ReaderTell PortRead world_ok_tell [OF ok l _ refl, where p = p and l' = "l\<lparr>lk_reader := Told\<rparr>"]
        by (simp add: gone_def told_def)
    qed (use ReaderTell ok in auto)
  next
    case (WriterTell j)
    then show ?thesis
      using ok world_ok_tell [OF ok l _ refl, where p = "ph_port (lk_handle l)" and l' = "l\<lparr>lk_writer := Told\<rparr>"]
      by (auto simp: gone_def told_def)
  next
    case (ReaderDrop j)
    have "lk_reader l = Told \<Longrightarrow> lk_added l" using lok by (auto simp: link_ok_def)
    then show ?thesis
      using ReaderDrop ok world_ok_drop [OF ok l, of "l\<lparr>lk_reader := Dropped\<rparr>"] by (auto simp: gone_def told_def)
  next
    case (WriterDrop j)
    have "lk_writer l = Told \<Longrightarrow> lk_added l" using lok by (auto simp: link_ok_def)
    then show ?thesis
      using WriterDrop ok world_ok_drop [OF ok l, of "l\<lparr>lk_writer := Dropped\<rparr>"] by (auto simp: gone_def told_def)
  qed (use ok in simp_all)
qed

definition table_room :: "link_world \<Rightarrow> nat \<Rightarrow> bool" where
  "table_room w n \<longleftrightarrow> unat (ps_next_id (w_peers w)) + n < 2 ^ 64 - 1 \<and> length (ps_used_ports (w_peers w)) + n < 2 ^ 64 - 1"

lemma task_table:
  assumes "world_ok w"
  shows "ps_next_id (w_peers (link_task_step e i l w)) = ps_next_id (w_peers w)"
    "length (ps_used_ports (w_peers (link_task_step e i l w))) \<le> length (ps_used_ports (w_peers w))"
proof -
  have "ps_next_id (w_peers (drop_link i l' w)) = ps_next_id (w_peers w) \<and>
    length (ps_used_ports (w_peers (drop_link i l' w))) \<le> length (ps_used_ports (w_peers w))" for l'
    using peers_remove_peer_effect [OF world_okD(1) [OF assms], of i "ph_key (lk_handle l')"]
    by (cases "peers_remove_peer i (ph_key (lk_handle l')) (w_peers w)") (auto simp: drop_link_def)
  then show "ps_next_id (w_peers (link_task_step e i l w)) = ps_next_id (w_peers w)"
    "length (ps_used_ports (w_peers (link_task_step e i l w))) \<le> length (ps_used_ports (w_peers w))"
    by (cases e; auto split: task.split)+
qed

lemma link_step_ok:
  assumes ok: "world_ok w" and room: "table_room w (Suc n)"
  shows "world_ok (link_step e w) \<and> table_room (link_step e w) n"
proof -
  have less: "table_room w n" using room by (simp add: table_room_def)
  have nx: "unat (ps_next_id (w_peers w) + 1) = unat (ps_next_id (w_peers w)) + 1" "ps_next_id (w_peers w) + 1 \<noteq> 0"
    using room no_wrap [of "ps_next_id (w_peers w)"] by (auto simp: table_room_def)
  show ?thesis
  proof (cases "event_link e")
    case (Some i)
    then have "link_step e w = (case hm_get (w_links w) i of None \<Rightarrow> w | Some l \<Rightarrow> link_task_step e i l w)"
      by (cases e) (auto simp: link_step_def split: option.split)
    then show ?thesis
      using ok less world_ok_task [OF ok, of i] task_table [OF ok, of e i]
      by (cases "hm_get (w_links w) i") (auto simp: table_room_def intro: le_less_trans [rotated])
  next
    case None
    then consider (connect) key prio where "e = Connect key prio" | (process) env where "e = Process env"
      by (cases e) auto
    then show ?thesis
    proof cases
      case connect
      have "length (ps_used_ports (w_peers w)) < 2 ^ 64 - 1" using room by (simp add: table_room_def)
      note c = world_ok_connect [OF ok this nx(2), of key prio]
      then show ?thesis using connect room nx(1) by (simp add: table_room_def)
    next
      case process
      then have "w_peers (link_step e w) = w_peers w" by (simp add: link_step_def split: list.split)
      then show ?thesis using process world_ok_process [OF ok] less by (simp add: table_room_def)
    qed
  qed
qed

lemma link_run_ok: "world_ok w \<Longrightarrow> table_room w (length es) \<Longrightarrow> world_ok (fold link_step es w)"
  by (induction es arbitrary: w) (use link_step_ok in auto)

lemma world_ok_new: "world_ok (link_world_new (router_new env key config))"
  by (auto simp: world_ok_def link_world_new_def peers_wf_def peers_new_def no_empty_peers_def router_new_def
      drained_view_def router_view_def table_links_def held_links_def live_links_def port_of_def)

definition deliver_all :: "router_env \<Rightarrow> link_msg list \<Rightarrow> router \<Rightarrow> router" where
  "deliver_all env ms r = fold (\<lambda>m r. snd (deliver_msg env m r)) ms r"

lemma deliver_all_view:
  "no_empty_peers r \<Longrightarrow> router_view (deliver_all env ms r) = fold apply_msg ms (router_view r)"
  unfolding deliver_all_def by (induction ms arbitrary: r) (simp_all add: deliver_msg_view)

text \<open>C10. Links come and go in any order, the two tasks of every link end it independently, and the
  router takes its messages in the order they were sent. Once it has taken those under way, the
  links it knows for a key are exactly the registered ones that neither task has reported gone; its
  port map holds a key under a port exactly when the key has such a link and the table gives it this
  port; every link the router knows is still in the table; no two keys share a port, and no port
  is 0.\<close>

theorem links_router_agree:
  assumes "length es < 2 ^ 64 - 2" "w = fold link_step es (link_world_new (router_new env0 key config))"
    and "r = deliver_all env (w_msgs w) (w_router w)"
  shows "(\<forall>k i. (\<exists>m e. hm_get (r_peers r) k = Some m \<and> (i, e) \<in> set m) \<longleftrightarrow> i \<in> live_links w k) \<and>
    (\<forall>p k. hm_get (r_ports r) p = Some k \<longleftrightarrow> live_links w k \<noteq> {} \<and> port_of (w_peers w) k = Some p) \<and>
    (\<forall>k. live_links w k \<subseteq> table_links (w_peers w) k) \<and>
    (\<forall>k k' p. port_of (w_peers w) k = Some p \<and> port_of (w_peers w) k' = Some p \<longrightarrow> k = k' \<and> p \<noteq> 0)"
proof -
  have "table_room (link_world_new (router_new env0 key config)) (length es)"
    using assms(1) by (simp add: table_room_def link_world_new_def peers_new_def)
  then have ok: "world_ok w" using link_run_ok [OF world_ok_new] assms(2) by blast
  have view: "router_view r = (live_links w, snd (drained_view w))"
    using deliver_all_view [OF world_okD(2) [OF ok]] drained_view_pair [OF ok] assms(3)
    by (simp add: drained_view_def)
  then have "live_links w = fst (router_view r)" by simp
  then have "live_links w k = (case hm_get (r_peers r) k of Some m \<Rightarrow> set (hm_keys m) | None \<Rightarrow> {})" for k
    by (simp add: router_view_def)
  then have "(\<exists>m e. hm_get (r_peers r) k = Some m \<and> (i, e) \<in> set m) \<longleftrightarrow> i \<in> live_links w k" for k i
    by (force split: option.splits)
  moreover have "hm_get (r_ports r) = snd (drained_view w)" using view by (simp add: router_view_def)
  moreover have "live_links w k \<subseteq> table_links (w_peers w) k" for k
    using live_held [of w k] world_okD(4) [OF ok] by simp
  ultimately show ?thesis
    using world_okD(6) [OF ok] peers_wf_port_inj [OF world_okD(1) [OF ok]] port_of_nonzero [OF world_okD(1) [OF ok]]
    by metis
qed

definition sample_link_events :: "link_event list" where
  "sample_link_events =
     [Connect [1] 0, Register 1, Connect [2] 0, Register 2, ReaderPort 1, ReaderTell 1, ReaderDrop 1]"

definition sample_link_world :: link_world where
  "sample_link_world = fold link_step sample_link_events (link_world_new (router_new sample_env [9] sample_config))"

lemmas link_eval = sample_link_world_def sample_link_events_def link_world_new_def peers_new_def link_step_def
  allocate_peer_def port_for_def alloc_port_def hm_contains_def hm_entry_def hm_insert_def hm_modify_def Let_def
  link_port_def drop_link_def peers_remove_peer_def hm_remove_def to_entry_def

lemma sample_links:
  "w_links sample_link_world =
     [(1, \<lparr>lk_handle = \<lparr>ph_id = 1, ph_key = [1], ph_port = 1, ph_prio = 0, ph_order = 0\<rparr>, lk_added = True,
          lk_reader = Dropped, lk_writer = Running\<rparr>),
      (2, \<lparr>lk_handle = \<lparr>ph_id = 2, ph_key = [2], ph_port = 2, ph_prio = 0, ph_order = 1\<rparr>, lk_added = True,
          lk_reader = Running, lk_writer = Running\<rparr>)]"
  "ps_handles (w_peers sample_link_world) =
     [([2], [(2, \<lparr>ph_id = 2, ph_key = [2], ph_port = 2, ph_prio = 0, ph_order = 1\<rparr>)])]"
  by (simp_all add: link_eval)

theorem links_router_agree_witness:
  "hm_get (r_ports (deliver_all sample_env (w_msgs sample_link_world) (w_router sample_link_world))) 2 = Some [2] \<and>
   hm_get (r_ports (deliver_all sample_env (w_msgs sample_link_world) (w_router sample_link_world))) 1 \<noteq> Some [1]"
proof -
  have "live_links sample_link_world [2] \<noteq> {}" "live_links sample_link_world [1] = {}"
    by (auto simp: live_links_def sample_links told_def)
  moreover have "port_of (w_peers sample_link_world) [2] = Some 2" by (simp add: port_of_def sample_links)
  moreover have "length sample_link_events < 2 ^ 64 - 2" by (simp add: sample_link_events_def)
  ultimately show ?thesis
    using links_router_agree [OF _ sample_link_world_def refl, of sample_env] by simp
qed

end
