(* ===== verification/Box_Crypto.thy ===== *)
theory Box_Crypto
  imports Packet
begin

text \<open>
  Keys, signatures and authenticated encryption: \<open>crates/ironwood/src/crypto.rs\<close>,
  \<open>crates/ironwood/src/encrypted/crypto.rs\<close> and \<open>is_public_key_valid\<close> of
  \<open>crates/ironwood/src/types.rs\<close>.

  The primitives of \<open>ed25519_dalek\<close>, \<open>curve25519_dalek\<close>, \<open>sha2\<close>, \<open>crypto_box\<close> and the random
  generator of the operating system are the fields of a record \<open>crypto_env\<close>, which every
  definition takes as its first argument. A curve point is represented by its compressed
  encoding, a \<open>SalsaBox\<close> by its shared key, and the \<open>n\<close>-th key pair drawn by the process is
  \<open>ce_box_keys E n\<close>, so that a function that draws keys takes the number of pairs drawn so far
  and returns the new number. \<open>box_laws\<close> and \<open>sign_laws\<close> are what the code relies on.
\<close>

type_synonym signing_key = bytes
type_synonym curve_public_key = bytes
type_synonym curve_private_key = bytes
type_synonym salsa_box = bytes

record crypto_env =
  ce_decompress :: "bytes \<Rightarrow> bytes option"
  ce_is_small_order :: "bytes \<Rightarrow> bool"
  ce_to_montgomery :: "bytes \<Rightarrow> curve_public_key"
  ce_verifying_key :: "signing_key \<Rightarrow> public_key"
  ce_key_from_bytes :: "public_key \<Rightarrow> bool"
  ce_sign :: "signing_key \<Rightarrow> bytes \<Rightarrow> signature"
  ce_verify :: "public_key \<Rightarrow> bytes \<Rightarrow> signature \<Rightarrow> bool"
  ce_sha256 :: "bytes \<Rightarrow> bytes"
  ce_sha512 :: "bytes \<Rightarrow> bytes"
  ce_salsa_box :: "curve_public_key \<Rightarrow> curve_private_key \<Rightarrow> salsa_box"
  ce_encrypt :: "salsa_box \<Rightarrow> bytes \<Rightarrow> bytes \<Rightarrow> bytes option"
  ce_decrypt :: "salsa_box \<Rightarrow> bytes \<Rightarrow> bytes \<Rightarrow> bytes option"
  ce_box_keys :: "nat \<Rightarrow> curve_public_key \<times> curve_private_key"

section \<open>Signatures\<close>

definition is_public_key_valid :: "crypto_env \<Rightarrow> public_key \<Rightarrow> bool" where
  "is_public_key_valid E key =
     (case ce_decompress E key of
        Some point \<Rightarrow> point = key \<and> \<not> ce_is_small_order E point
      | None \<Rightarrow> False)"

record crypto =
  cr_signing_key :: signing_key
  cr_public_key :: public_key

definition crypto_new :: "crypto_env \<Rightarrow> signing_key \<Rightarrow> crypto" where
  "crypto_new E signing_key =
     \<lparr>cr_signing_key = signing_key, cr_public_key = ce_verifying_key E signing_key\<rparr>"

definition sign_with_key :: "crypto_env \<Rightarrow> signing_key \<Rightarrow> bytes \<Rightarrow> signature" where
  "sign_with_key E key message = ce_sign E key message"

definition crypto_sign :: "crypto_env \<Rightarrow> crypto \<Rightarrow> bytes \<Rightarrow> signature" where
  "crypto_sign E c message = ce_sign E (cr_signing_key c) message"

definition crypto_verify :: "crypto_env \<Rightarrow> public_key \<Rightarrow> bytes \<Rightarrow> signature \<Rightarrow> bool" where
  "crypto_verify E key message sig =
     (if \<not> is_public_key_valid E key then False
      else if \<not> ce_key_from_bytes E key then False
      else if length sig \<noteq> SIGNATURE_SIZE then False
      else ce_verify E key message sig)"

section \<open>Group password\<close>

record group_auth =
  ga_secret :: "bytes option"

definition GROUP_AUTH_DOMAIN :: bytes where
  "GROUP_AUTH_DOMAIN =
     [0x69, 0x72, 0x6f, 0x6e, 0x77, 0x6f, 0x6f, 0x64, 0x2f,
      0x65, 0x6e, 0x63, 0x72, 0x79, 0x70, 0x74, 0x65, 0x64, 0x00]"

definition group_auth_new :: "crypto_env \<Rightarrow> bytes \<Rightarrow> group_auth" where
  "group_auth_new E password =
     (if password = [] then \<lparr>ga_secret = None\<rparr>
      else \<lparr>ga_secret = Some (ce_sha256 E (GROUP_AUTH_DOMAIN @ password))\<rparr>)"

definition preimage :: "group_auth \<Rightarrow> bytes" where
  "preimage ga = (case ga_secret ga of Some s \<Rightarrow> s | None \<Rightarrow> [])"

section \<open>Curve25519 keys and boxes\<close>

definition BOX_OVERHEAD :: nat where
  "BOX_OVERHEAD = 16"

definition BOX_NONCE_SIZE :: nat where
  "BOX_NONCE_SIZE = 24"

definition ed25519_private_to_curve25519 :: "crypto_env \<Rightarrow> signing_key \<Rightarrow> curve_private_key" where
  "ed25519_private_to_curve25519 E signing_key = take 32 (ce_sha512 E signing_key)"

definition ed25519_public_to_curve25519 :: "crypto_env \<Rightarrow> public_key \<Rightarrow> curve_public_key option" where
  "ed25519_public_to_curve25519 E ed_pub =
     (case ce_decompress E ed_pub of
        None \<Rightarrow> None
      | Some edwards_point \<Rightarrow> Some (ce_to_montgomery E edwards_point))"

definition new_box_keys ::
    "crypto_env \<Rightarrow> nat \<Rightarrow> (curve_public_key \<times> curve_private_key) \<times> nat" where
  "new_box_keys E drawn = (ce_box_keys E drawn, drawn + 1)"

definition make_salsa_box :: "crypto_env \<Rightarrow> curve_public_key \<Rightarrow> curve_private_key \<Rightarrow> salsa_box" where
  "make_salsa_box E their_pub our_priv = ce_salsa_box E their_pub our_priv"

definition nonce_for_u64 :: "u64 \<Rightarrow> bytes" where
  "nonce_for_u64 n = replicate 16 0 @ be_bytes 8 n"

definition box_seal_precomputed :: "crypto_env \<Rightarrow> bytes \<Rightarrow> u64 \<Rightarrow> salsa_box \<Rightarrow> bytes option" where
  "box_seal_precomputed E msg nonce box = ce_encrypt E box (nonce_for_u64 nonce) msg"

definition box_open_precomputed :: "crypto_env \<Rightarrow> bytes \<Rightarrow> u64 \<Rightarrow> salsa_box \<Rightarrow> bytes option" where
  "box_open_precomputed E ciphertext nonce box = ce_decrypt E box (nonce_for_u64 nonce) ciphertext"

definition box_seal ::
    "crypto_env \<Rightarrow> bytes \<Rightarrow> u64 \<Rightarrow> curve_public_key \<Rightarrow> curve_private_key \<Rightarrow> bytes option" where
  "box_seal E msg nonce their_pub our_priv =
     ce_encrypt E (make_salsa_box E their_pub our_priv) (nonce_for_u64 nonce) msg"

definition box_open ::
    "crypto_env \<Rightarrow> bytes \<Rightarrow> u64 \<Rightarrow> curve_public_key \<Rightarrow> curve_private_key \<Rightarrow> bytes option" where
  "box_open E ciphertext nonce their_pub our_priv =
     ce_decrypt E (make_salsa_box E their_pub our_priv) (nonce_for_u64 nonce) ciphertext"

section \<open>What the code relies on\<close>

text \<open>
  \<open>box_laws E\<close>: key pairs and boxes behave as documented for \<open>crypto_box\<close>. Keys have 32 bytes;
  sealing succeeds and adds the 16 bytes of the authenticator; opening with the same shared key
  and nonce gives the message back; and two key pairs agree on their shared key, also when one
  of them is the long-term key of a node converted from Ed25519.

  \<open>sign_laws E\<close>: the public key of a signing key is a valid 32-byte key and verifies the 64-byte
  signatures made with it.
\<close>

definition box_laws :: "crypto_env \<Rightarrow> bool" where
  "box_laws E \<longleftrightarrow>
     (\<forall>i. length (fst (ce_box_keys E i)) = 32 \<and> length (snd (ce_box_keys E i)) = 32) \<and>
     (\<forall>b n m. \<exists>c. ce_encrypt E b n m = Some c \<and> length c = length m + BOX_OVERHEAD \<and>
                  ce_decrypt E b n c = Some m) \<and>
     (\<forall>i j. ce_salsa_box E (fst (ce_box_keys E i)) (snd (ce_box_keys E j)) =
            ce_salsa_box E (fst (ce_box_keys E j)) (snd (ce_box_keys E i))) \<and>
     (\<forall>sk i. \<exists>point. ce_decompress E (ce_verifying_key E sk) = Some point \<and>
        ce_salsa_box E (ce_to_montgomery E point) (snd (ce_box_keys E i)) =
        ce_salsa_box E (fst (ce_box_keys E i)) (ed25519_private_to_curve25519 E sk))"

definition sign_laws :: "crypto_env \<Rightarrow> bool" where
  "sign_laws E \<longleftrightarrow>
     (\<forall>sk. wf_key (ce_verifying_key E sk) \<and>
           is_public_key_valid E (ce_verifying_key E sk) \<and>
           ce_key_from_bytes E (ce_verifying_key E sk)) \<and>
     (\<forall>sk m. wf_sig (ce_sign E sk m) \<and> ce_verify E (ce_verifying_key E sk) m (ce_sign E sk m))"

named_theorems crypto_simps \<open>consequences of the laws of the primitives\<close>

lemma length_nonce_for_u64 [simp]: "length (nonce_for_u64 n) = BOX_NONCE_SIZE"
  by (simp add: nonce_for_u64_def BOX_NONCE_SIZE_def)

lemma nonce_for_u64_inj: "nonce_for_u64 m = nonce_for_u64 n \<longleftrightarrow> m = n"
proof
  assume "nonce_for_u64 m = nonce_for_u64 n"
  then have "(from_be_bytes (be_bytes 8 m) :: u64) = from_be_bytes (be_bytes 8 n)"
    by (simp add: nonce_for_u64_def)
  then show "m = n" by simp
qed simp

lemma box_laws_length:
  "box_laws E \<Longrightarrow> length (fst (ce_box_keys E i)) = 32 \<and> length (snd (ce_box_keys E i)) = 32"
  by (simp add: box_laws_def)

lemma box_laws_seal:
  "box_laws E \<Longrightarrow> \<exists>c. box_seal_precomputed E m n b = Some c \<and> length c = length m + BOX_OVERHEAD \<and>
     box_open_precomputed E c n b = Some m"
  by (simp add: box_laws_def box_seal_precomputed_def box_open_precomputed_def)

lemma box_laws_agree:
  "box_laws E \<Longrightarrow> make_salsa_box E (fst (ce_box_keys E i)) (snd (ce_box_keys E j)) =
     make_salsa_box E (fst (ce_box_keys E j)) (snd (ce_box_keys E i))"
  by (simp add: box_laws_def make_salsa_box_def)

lemma box_laws_long_term:
  assumes "box_laws E"
  shows "\<exists>to_box. ed25519_public_to_curve25519 E (ce_verifying_key E sk) = Some to_box \<and>
    make_salsa_box E to_box (snd (ce_box_keys E i)) =
    make_salsa_box E (fst (ce_box_keys E i)) (ed25519_private_to_curve25519 E sk)"
proof -
  from assms have "\<exists>point. ce_decompress E (ce_verifying_key E sk) = Some point \<and>
        ce_salsa_box E (ce_to_montgomery E point) (snd (ce_box_keys E i)) =
        ce_salsa_box E (fst (ce_box_keys E i)) (ed25519_private_to_curve25519 E sk)"
    unfolding box_laws_def by blast
  then show ?thesis
    by (auto simp: ed25519_public_to_curve25519_def make_salsa_box_def)
qed

lemma sign_laws_verify:
  "sign_laws E \<Longrightarrow> crypto_verify E (ce_verifying_key E sk) m (sign_with_key E sk m)"
  by (simp add: sign_laws_def crypto_verify_def sign_with_key_def)

lemma sign_laws_length: "sign_laws E \<Longrightarrow> length (sign_with_key E sk m) = 64"
  by (simp add: sign_laws_def sign_with_key_def SIGNATURE_SIZE_def)

text \<open>A signature is only accepted for a canonical key that is not of low order.\<close>

lemma crypto_verify_valid_key:
  "crypto_verify E key m sig \<Longrightarrow> is_public_key_valid E key \<and> wf_sig sig"
  by (simp add: crypto_verify_def split: if_splits)

section \<open>An instance of the primitives\<close>

text \<open>
  A small instance that satisfies the laws, on which statements about concrete exchanges are
  evaluated: shared keys are the bytewise sum of the two keys, sealing appends a zero tag, and a
  signature is the first 64 bytes of the padded message.
\<close>

definition mock_key :: "nat \<Rightarrow> bytes" where
  "mock_key i = replicate 24 0 @ be_bytes 8 (of_nat i :: u64)"

definition mock_pad :: "nat \<Rightarrow> bytes \<Rightarrow> bytes" where
  "mock_pad n bs = take n (bs @ replicate n 0)"

definition mock_env :: crypto_env where
  "mock_env =
     \<lparr>ce_decompress = \<lambda>k. Some k, ce_is_small_order = \<lambda>_. False, ce_to_montgomery = \<lambda>p. p,
      ce_verifying_key = mock_pad 32, ce_key_from_bytes = \<lambda>_. True,
      ce_sign = \<lambda>sk m. mock_pad 64 m,
      ce_verify = \<lambda>k m s. s = mock_pad 64 m,
      ce_sha256 = mock_pad 32, ce_sha512 = mock_pad 64,
      ce_salsa_box = \<lambda>p s. map2 (+) p s,
      ce_encrypt = \<lambda>b n m. Some (m @ replicate 16 0),
      ce_decrypt = \<lambda>b n c. if 16 \<le> length c then Some (take (length c - 16) c) else None,
      ce_box_keys = \<lambda>i. (mock_key i, mock_key i)\<rparr>"

lemma mock_env_sel [simp]:
  "ce_decompress mock_env k = Some k" "ce_is_small_order mock_env k = False"
  "ce_to_montgomery mock_env k = k" "ce_verifying_key mock_env = mock_pad 32"
  "ce_key_from_bytes mock_env k = True" "ce_sign mock_env sk m = mock_pad 64 m"
  "ce_verify mock_env k m s = (s = mock_pad 64 m)"
  "ce_sha256 mock_env = mock_pad 32" "ce_sha512 mock_env = mock_pad 64"
  "ce_salsa_box mock_env p s = map2 (+) p s" "ce_encrypt mock_env b n m = Some (m @ replicate 16 0)"
  "ce_decrypt mock_env b n c = (if 16 \<le> length c then Some (take (length c - 16) c) else None)"
  "ce_box_keys mock_env i = (mock_key i, mock_key i)"
  by (simp_all add: mock_env_def)

lemma length_mock_key [simp]: "length (mock_key i) = 32"
  by (simp add: mock_key_def)

lemma length_mock_pad [simp]: "length (mock_pad n bs) = n"
  by (simp add: mock_pad_def)

lemma map2_add_commute: "map2 (+) xs ys = map2 (+) ys (xs :: bytes)"
  by (induction xs ys rule: list_induct2') (auto simp: add.commute)

lemma take_mock_pad: "m \<le> n \<Longrightarrow> take m (mock_pad n bs) = mock_pad m bs"
  by (simp add: mock_pad_def min_def)

lemma mock_box_laws: "box_laws mock_env"
  by (simp add: box_laws_def BOX_OVERHEAD_def ed25519_private_to_curve25519_def take_mock_pad
      map2_add_commute)

lemma mock_sign_laws: "sign_laws mock_env"
  by (simp add: sign_laws_def is_public_key_valid_def PUBLIC_KEY_SIZE_def SIGNATURE_SIZE_def)

lemma mock_keys_inj: "N \<le> 2 ^ 64 \<Longrightarrow> inj_on (\<lambda>i. snd (ce_box_keys mock_env i)) {..<N}"
proof (rule inj_onI)
  fix i j
  assume N: "N \<le> 2 ^ 64" and ij: "i \<in> {..<N}" "j \<in> {..<N}"
    and "snd (ce_box_keys mock_env i) = snd (ce_box_keys mock_env j)"
  then have "(from_be_bytes (be_bytes 8 (of_nat i :: u64)) :: u64)
      = from_be_bytes (be_bytes 8 (of_nat j :: u64))"
    by (simp add: mock_key_def)
  then have "(of_nat i :: u64) = of_nat j" by simp
  then have "unat (of_nat i :: u64) = unat (of_nat j :: u64)" by simp
  then show "i = j" using N ij by (simp add: unat_of_nat take_bit_nat_eq_self)
qed

end
