(* ===== verification/Session.thy ===== *)
theory Session
  imports Box_Crypto
begin

text \<open>
  End-to-end encrypted sessions: \<open>crates/ironwood/src/encrypted/session.rs\<close>. The handshake
  message (\<open>SessionInit\<close>), the ratcheting state of one session (\<open>SessionInfo\<close>) with its three
  phases of sending and receiving, and the session manager (\<open>ConcurrentSessionManager\<close>).

  A method that draws key pairs takes and returns the number of pairs drawn so far
  (\<open>sm_drawn\<close> in the manager). \<open>Instant::now()\<close> and \<open>SystemTime::now()\<close> are the fields of the
  argument \<open>clk\<close>. The counters are 64-bit words, so \<open>+ 1\<close> wraps as in a release build. The
  second look at the session map under the write lock runs the code of the first look; in the
  model, where a handler is one step, the map is the same both times.
\<close>

record clock =
  ck_now :: instant
  ck_unix :: u64

section \<open>Constants\<close>

definition SESSION_TRAFFIC_OVERHEAD_MIN :: nat where
  "SESSION_TRAFFIC_OVERHEAD_MIN = 1 + 1 + 1 + 1 + BOX_OVERHEAD + 32"

definition SESSION_TRAFFIC_OVERHEAD :: u64 where
  "SESSION_TRAFFIC_OVERHEAD = of_nat (SESSION_TRAFFIC_OVERHEAD_MIN + 9 + 9 + 9)"

definition SESSION_INIT_SIZE :: nat where
  "SESSION_INIT_SIZE = 1 + 32 + BOX_OVERHEAD + 64 + 32 + 32 + 8 + 8"

definition SESSION_TYPE_DUMMY :: u8 where "SESSION_TYPE_DUMMY = 0"

definition SESSION_TYPE_INIT :: u8 where "SESSION_TYPE_INIT = 1"

definition SESSION_TYPE_ACK :: u8 where "SESSION_TYPE_ACK = 2"

definition SESSION_TYPE_TRAFFIC :: u8 where "SESSION_TYPE_TRAFFIC = 3"

definition KEEPALIVE_PROBE :: bytes where
  "KEEPALIVE_PROBE = [0x00, 0x79, 0x67, 0x67, 0x2d, 0x6b, 0x61]"

definition KEEPALIVE_ACK :: bytes where
  "KEEPALIVE_ACK = [0x00, 0x79, 0x67, 0x67, 0x2d, 0x6b, 0x61, 0x2d, 0x61, 0x63, 0x6b]"

definition RATCHET_INTERVAL :: duration where
  "RATCHET_INTERVAL = 60 * 10 ^ 9"

section \<open>Handshake messages\<close>

record session_init =
  si_current :: curve_public_key
  si_next :: curve_public_key
  si_key_seq :: u64
  si_seq :: u64

definition session_init_new ::
    "clock \<Rightarrow> curve_public_key \<Rightarrow> curve_public_key \<Rightarrow> u64 \<Rightarrow> session_init" where
  "session_init_new clk current nxt key_seq =
     \<lparr>si_current = current, si_next = nxt, si_key_seq = key_seq, si_seq = ck_unix clk\<rparr>"

text \<open>The bytes after the signature, which are signed together with the ephemeral key, and the
  signed bytes with the preimage of the group password in front.\<close>

definition session_init_body :: "session_init \<Rightarrow> bytes" where
  "session_init_body i =
     si_current i @ si_next i @ be_bytes 8 (si_key_seq i) @ be_bytes 8 (si_seq i)"

definition session_init_signed :: "bytes \<Rightarrow> bytes \<Rightarrow> bytes" where
  "session_init_signed pre sig_bytes = (if pre = [] then sig_bytes else pre @ sig_bytes)"

definition session_init_encrypt ::
    "crypto_env \<Rightarrow> nat \<Rightarrow> session_init \<Rightarrow> signing_key \<Rightarrow> public_key \<Rightarrow> u8 \<Rightarrow> bytes \<Rightarrow> bytes res \<times> nat" where
  "session_init_encrypt E drawn i our_ed_priv to_ed_pub msg_type pre =
     (let ((from_pub, from_priv), drawn) = new_box_keys E drawn
      in (case ed25519_public_to_curve25519 E to_ed_pub of
            None \<Rightarrow> Inl BadKey
          | Some to_box \<Rightarrow>
              (let sig_bytes = from_pub @ session_init_body i;
                   sig = sign_with_key E our_ed_priv (session_init_signed pre sig_bytes);
                   payload = sig @ session_init_body i
               in case box_seal E payload 0 to_box from_priv of
                    None \<Rightarrow> Inl Encode
                  | Some ciphertext \<Rightarrow> Inr ([msg_type] @ from_pub @ ciphertext)),
          drawn))"

definition session_init_decrypt ::
    "crypto_env \<Rightarrow> bytes \<Rightarrow> curve_private_key \<Rightarrow> public_key \<Rightarrow> bytes \<Rightarrow> session_init res" where
  "session_init_decrypt E data our_curve_priv from_ed_pub pre =
     (if length data \<noteq> SESSION_INIT_SIZE then Inl Decode
      else
        let from_box = take 32 (drop 1 data);
            ciphertext = drop 33 data
        in case box_open E ciphertext 0 from_box our_curve_priv of
             None \<Rightarrow> Inl Decode
           | Some payload \<Rightarrow>
               (if length payload \<noteq> 64 + 32 + 32 + 8 + 8 then Inl Decode
                else
                  let sig = take 64 payload;
                      current = take 32 (drop 64 payload);
                      nxt = take 32 (drop 96 payload);
                      key_seq = from_be_bytes (take 8 (drop 128 payload));
                      seq = from_be_bytes (take 8 (drop 136 payload));
                      i = \<lparr>si_current = current, si_next = nxt, si_key_seq = key_seq, si_seq = seq\<rparr>;
                      sig_bytes = from_box @ session_init_body i
                  in if \<not> crypto_verify E from_ed_pub (session_init_signed pre sig_bytes) sig
                     then Inl BadMessage
                     else Inr i))"

section \<open>One session\<close>

record session_info =
  s_seq :: u64
  s_remote_key_seq :: u64
  s_current :: curve_public_key
  s_next :: curve_public_key
  s_local_key_seq :: u64
  s_recv_priv :: curve_private_key
  s_recv_pub :: curve_public_key
  s_recv_shared :: salsa_box
  s_recv_nonce :: u64
  s_send_priv :: curve_private_key
  s_send_pub :: curve_public_key
  s_send_shared :: salsa_box
  s_send_nonce :: u64
  s_next_priv :: curve_private_key
  s_next_pub :: curve_public_key
  s_next_send_shared :: salsa_box
  s_next_send_nonce :: u64
  s_next_recv_shared :: salsa_box
  s_next_recv_nonce :: u64
  s_since :: instant
  s_rotated :: "instant option"
  s_last_activity :: instant
  s_rx :: u64
  s_tx :: u64

definition session_info_new ::
    "crypto_env \<Rightarrow> clock \<Rightarrow> nat \<Rightarrow> curve_public_key \<Rightarrow> curve_public_key \<Rightarrow> u64 \<Rightarrow> session_info \<times> nat" where
  "session_info_new E clk drawn current nxt seq =
     (let ((recv_pub, recv_priv), drawn) = new_box_keys E drawn;
          ((send_pub, send_priv), drawn) = new_box_keys E drawn;
          ((next_pub, next_priv), drawn) = new_box_keys E drawn
      in (\<lparr>s_seq = seq - 1, s_remote_key_seq = 0, s_current = current, s_next = nxt,
           s_local_key_seq = 0,
           s_recv_priv = recv_priv, s_recv_pub = recv_pub,
           s_recv_shared = make_salsa_box E current recv_priv, s_recv_nonce = 0,
           s_send_priv = send_priv, s_send_pub = send_pub,
           s_send_shared = make_salsa_box E current send_priv, s_send_nonce = 0,
           s_next_priv = next_priv, s_next_pub = next_pub,
           s_next_send_shared = make_salsa_box E nxt send_priv, s_next_send_nonce = 0,
           s_next_recv_shared = make_salsa_box E nxt recv_priv, s_next_recv_nonce = 0,
           s_since = ck_now clk, s_rotated = None, s_last_activity = ck_now clk,
           s_rx = 0, s_tx = 0\<rparr>, drawn))"

definition fix_shared :: "crypto_env \<Rightarrow> u64 \<Rightarrow> u64 \<Rightarrow> session_info \<Rightarrow> session_info" where
  "fix_shared E recv_nonce send_nonce s =
     s\<lparr>s_recv_shared := make_salsa_box E (s_current s) (s_recv_priv s),
       s_send_shared := make_salsa_box E (s_current s) (s_send_priv s),
       s_next_send_shared := make_salsa_box E (s_next s) (s_send_priv s),
       s_next_recv_shared := make_salsa_box E (s_next s) (s_recv_priv s),
       s_next_send_nonce := 0, s_next_recv_nonce := 0,
       s_recv_nonce := recv_nonce, s_send_nonce := send_nonce\<rparr>"

text \<open>The rotation of the local keys, which three methods spell out.\<close>

definition ratchet_local :: "crypto_env \<Rightarrow> nat \<Rightarrow> session_info \<Rightarrow> session_info \<times> nat" where
  "ratchet_local E drawn s =
     (let ((new_next_pub, new_next_priv), drawn) = new_box_keys E drawn
      in (s\<lparr>s_recv_pub := s_send_pub s, s_recv_priv := s_send_priv s,
            s_send_pub := s_next_pub s, s_send_priv := s_next_priv s,
            s_next_pub := new_next_pub, s_next_priv := new_next_priv,
            s_local_key_seq := s_local_key_seq s + 1\<rparr>, drawn))"

definition handle_update ::
    "crypto_env \<Rightarrow> clock \<Rightarrow> nat \<Rightarrow> session_init \<Rightarrow> session_info \<Rightarrow> session_info \<times> nat" where
  "handle_update E clk drawn i s =
     (let s = s\<lparr>s_current := si_current i, s_next := si_next i, s_seq := si_seq i,
                s_remote_key_seq := si_key_seq i\<rparr>;
          (s, drawn) = ratchet_local E drawn s;
          s = fix_shared E 0 (s_send_nonce s) s
      in (s\<lparr>s_last_activity := ck_now clk\<rparr>, drawn))"

record send_snap =
  ss_local_key_seq :: u64
  ss_remote_key_seq :: u64
  ss_send_nonce :: u64
  ss_next_pub :: curve_public_key
  ss_send_shared :: salsa_box

definition send_snapshot ::
    "crypto_env \<Rightarrow> nat \<Rightarrow> session_info \<Rightarrow> (send_snap res \<times> session_info) \<times> nat" where
  "send_snapshot E drawn s =
     (let s = s\<lparr>s_send_nonce := s_send_nonce s + 1\<rparr>;
          (s, drawn) =
            (if s_send_nonce s = 0
             then let (s, drawn) = ratchet_local E drawn s in (fix_shared E 0 0 s, drawn)
             else (s, drawn))
      in ((Inr \<lparr>ss_local_key_seq = s_local_key_seq s, ss_remote_key_seq = s_remote_key_seq s,
                ss_send_nonce = s_send_nonce s, ss_next_pub = s_next_pub s,
                ss_send_shared = s_send_shared s\<rparr>, s), drawn))"

definition send_finalize :: "clock \<Rightarrow> u64 \<Rightarrow> session_info \<Rightarrow> session_info" where
  "send_finalize clk msg_len s =
     s\<lparr>s_tx := s_tx s + msg_len, s_last_activity := ck_now clk\<rparr>"

definition encrypt_outside_lock :: "crypto_env \<Rightarrow> send_snap \<Rightarrow> bytes \<Rightarrow> bytes res" where
  "encrypt_outside_lock E snap msg =
     (let bs = [SESSION_TYPE_TRAFFIC] @ encode_uvarint (ss_local_key_seq snap) @
               encode_uvarint (ss_remote_key_seq snap) @ encode_uvarint (ss_send_nonce snap);
          inner = ss_next_pub snap @ msg
      in case box_seal_precomputed E inner (ss_send_nonce snap) (ss_send_shared snap) of
           None \<Rightarrow> Inl Encode
         | Some ciphertext \<Rightarrow> Inr (bs @ ciphertext))"

definition do_send ::
    "crypto_env \<Rightarrow> clock \<Rightarrow> nat \<Rightarrow> bytes \<Rightarrow> session_info \<Rightarrow> (bytes res \<times> session_info) \<times> nat" where
  "do_send E clk drawn msg s =
     (case send_snapshot E drawn s of
        ((Inl e, s), drawn) \<Rightarrow> ((Inl e, s), drawn)
      | ((Inr snap, s), drawn) \<Rightarrow>
          (case encrypt_outside_lock E snap msg of
             Inl e \<Rightarrow> ((Inl e, s), drawn)
           | Inr result \<Rightarrow> ((Inr result, send_finalize clk (of_nat (length msg)) s), drawn)))"

datatype decrypt_case = CurrentToRecv | NextToSend | NextToRecv

record recv_snap =
  rs_remote_key_seq :: u64
  rs_nonce :: u64
  rs_encrypted_offset :: nat
  rs_shared :: salsa_box
  rs_case :: decrypt_case

datatype recv_snapshot_error = SnapDrop | SnapSendInit curve_public_key curve_public_key u64

datatype recv_action = RecvDrop | RecvSendInit

text \<open>The three numbers of a traffic header and the offset of the ciphertext.\<close>

definition traffic_header :: "bytes \<Rightarrow> (u64 \<times> u64 \<times> u64 \<times> nat) option" where
  "traffic_header msg =
     (let offset = 1
      in case decode_uvarint (drop offset msg) of
           None \<Rightarrow> None
         | Some (remote_key_seq, len) \<Rightarrow>
             (let offset = offset + len
              in case decode_uvarint (drop offset msg) of
                   None \<Rightarrow> None
                 | Some (local_key_seq, len) \<Rightarrow>
                     (let offset = offset + len
                      in case decode_uvarint (drop offset msg) of
                           None \<Rightarrow> None
                         | Some (nonce, len) \<Rightarrow>
                             Some (remote_key_seq, local_key_seq, nonce, offset + len))))"

definition decrypt_case_of ::
    "session_info \<Rightarrow> u64 \<Rightarrow> u64 \<Rightarrow> u64 \<Rightarrow> recv_snapshot_error + decrypt_case" where
  "decrypt_case_of s remote_key_seq local_key_seq nonce =
     (let from_current = (remote_key_seq = s_remote_key_seq s);
          from_next = (remote_key_seq = s_remote_key_seq s + 1);
          to_recv = (local_key_seq + 1 = s_local_key_seq s);
          to_send = (local_key_seq = s_local_key_seq s)
      in if from_current \<and> to_recv
         then (if \<not> s_recv_nonce s < nonce then Inl SnapDrop else Inr CurrentToRecv)
         else if from_next \<and> to_send
         then (if \<not> s_next_send_nonce s < nonce then Inl SnapDrop else Inr NextToSend)
         else if from_next \<and> to_recv
         then (if \<not> s_next_recv_nonce s < nonce then Inl SnapDrop else Inr NextToRecv)
         else Inl (SnapSendInit (s_send_pub s) (s_next_pub s) (s_local_key_seq s)))"

fun case_shared :: "session_info \<Rightarrow> decrypt_case \<Rightarrow> salsa_box" where
  "case_shared s CurrentToRecv = s_recv_shared s"
| "case_shared s NextToSend = s_next_send_shared s"
| "case_shared s NextToRecv = s_next_recv_shared s"

definition recv_snapshot :: "session_info \<Rightarrow> bytes \<Rightarrow> recv_snapshot_error + recv_snap" where
  "recv_snapshot s msg =
     (if length msg < SESSION_TRAFFIC_OVERHEAD_MIN \<or> hd msg \<noteq> SESSION_TYPE_TRAFFIC then Inl SnapDrop
      else case traffic_header msg of
             None \<Rightarrow> Inl SnapDrop
           | Some (remote_key_seq, local_key_seq, nonce, offset) \<Rightarrow>
               (case decrypt_case_of s remote_key_seq local_key_seq nonce of
                  Inl e \<Rightarrow> Inl e
                | Inr c \<Rightarrow>
                    Inr \<lparr>rs_remote_key_seq = s_remote_key_seq s, rs_nonce = nonce,
                         rs_encrypted_offset = offset, rs_shared = case_shared s c, rs_case = c\<rparr>))"

definition decrypt_outside_lock ::
    "crypto_env \<Rightarrow> recv_snap \<Rightarrow> bytes \<Rightarrow> recv_action + bytes \<times> curve_public_key" where
  "decrypt_outside_lock E snap msg =
     (let encrypted = drop (rs_encrypted_offset snap) msg
      in case box_open_precomputed E encrypted (rs_nonce snap) (rs_shared snap) of
           None \<Rightarrow> Inl RecvSendInit
         | Some unboxed \<Rightarrow>
             (if length unboxed < 32 then Inl RecvDrop
              else Inr (drop 32 unboxed, take 32 unboxed)))"

definition maybe_ratchet_on_recv ::
    "crypto_env \<Rightarrow> clock \<Rightarrow> nat \<Rightarrow> curve_public_key \<Rightarrow> u64 \<Rightarrow> session_info \<Rightarrow> session_info \<times> nat" where
  "maybe_ratchet_on_recv E clk drawn inner_key nonce s =
     (let should_rotate =
            (case s_rotated s of None \<Rightarrow> True | Some t \<Rightarrow> ck_now clk - t > RATCHET_INTERVAL)
      in if should_rotate
         then let s = s\<lparr>s_current := s_next s, s_next := inner_key,
                        s_remote_key_seq := s_remote_key_seq s + 1\<rparr>;
                  (s, drawn) = ratchet_local E drawn s;
                  s = fix_shared E nonce 0 s
              in (s\<lparr>s_rotated := Some (ck_now clk)\<rparr>, drawn)
         else (s, drawn))"

definition recv_finalize ::
    "crypto_env \<Rightarrow> clock \<Rightarrow> nat \<Rightarrow> recv_snap \<Rightarrow> curve_public_key \<Rightarrow> u64 \<Rightarrow> session_info \<Rightarrow> session_info \<times> nat" where
  "recv_finalize E clk drawn snap inner_key payload_len s =
     (let count = (\<lambda>s. s\<lparr>s_rx := s_rx s + payload_len, s_last_activity := ck_now clk\<rparr>)
      in if s_remote_key_seq s \<noteq> rs_remote_key_seq snap then (count s, drawn)
         else
           let (s, drawn) =
             (case rs_case snap of
                CurrentToRecv \<Rightarrow> (s\<lparr>s_recv_nonce := rs_nonce snap\<rparr>, drawn)
              | NextToSend \<Rightarrow>
                  maybe_ratchet_on_recv E clk drawn inner_key (rs_nonce snap)
                    (s\<lparr>s_next_send_nonce := rs_nonce snap\<rparr>)
              | NextToRecv \<Rightarrow>
                  maybe_ratchet_on_recv E clk drawn inner_key (rs_nonce snap)
                    (s\<lparr>s_next_recv_nonce := rs_nonce snap\<rparr>))
           in (count s, drawn))"

definition is_expired :: "clock \<Rightarrow> duration \<Rightarrow> session_info \<Rightarrow> bool" where
  "is_expired clk timeout s \<longleftrightarrow> ck_now clk - s_last_activity s > timeout"

section \<open>The session manager\<close>

record session_buffer =
  sb_data :: "bytes option"
  sb_init :: session_init
  sb_current_priv :: curve_private_key
  sb_next_priv :: curve_private_key
  sb_created :: instant

record session_manager =
  sm_sessions :: "(public_key, session_info) hmap"
  sm_buffers :: "(public_key, session_buffer) hmap"
  sm_group_auth :: group_auth
  sm_session_timeout :: duration
  sm_drawn :: nat

datatype out_action = SendToInner public_key bytes | Deliver public_key bytes

definition session_manager_new :: "group_auth \<Rightarrow> duration \<Rightarrow> nat \<Rightarrow> session_manager" where
  "session_manager_new group_auth session_timeout drawn =
     \<lparr>sm_sessions = [], sm_buffers = [], sm_group_auth = group_auth,
      sm_session_timeout = session_timeout, sm_drawn = drawn\<rparr>"

text \<open>A write through the lock of a session in the map, and the tail shared by the handlers that
  answer with a handshake message: nothing is sent when it cannot be encrypted.\<close>

definition put_session :: "public_key \<Rightarrow> session_info \<Rightarrow> nat \<Rightarrow> session_manager \<Rightarrow> session_manager" where
  "put_session key s drawn m =
     m\<lparr>sm_sessions := hm_modify key (\<lambda>_. s) (sm_sessions m), sm_drawn := drawn\<rparr>"

definition send_handshake ::
    "crypto_env \<Rightarrow> session_manager \<Rightarrow> session_init \<Rightarrow> signing_key \<Rightarrow> public_key \<Rightarrow> u8 \<Rightarrow>
     out_action list \<times> session_manager" where
  "send_handshake E m i our_ed_priv dest msg_type =
     (case session_init_encrypt E (sm_drawn m) i our_ed_priv dest msg_type (preimage (sm_group_auth m)) of
        (Inr data, drawn) \<Rightarrow> ([SendToInner dest data], m\<lparr>sm_drawn := drawn\<rparr>)
      | (Inl e, drawn) \<Rightarrow> ([], m\<lparr>sm_drawn := drawn\<rparr>))"

definition buffer_and_init ::
    "crypto_env \<Rightarrow> clock \<Rightarrow> session_manager \<Rightarrow> public_key \<Rightarrow> bytes \<Rightarrow> signing_key \<Rightarrow>
     out_action list \<times> session_manager" where
  "buffer_and_init E clk m dest msg our_ed_priv =
     (let (buf, drawn) =
        (case hm_get (sm_buffers m) dest of
           Some buf \<Rightarrow> (buf, sm_drawn m)
         | None \<Rightarrow>
             (let ((current_pub, current_priv), drawn) = new_box_keys E (sm_drawn m);
                  ((next_pub, next_priv), drawn) = new_box_keys E drawn
              in (\<lparr>sb_data = None, sb_init = session_init_new clk current_pub next_pub 0,
                   sb_current_priv = current_priv, sb_next_priv = next_priv,
                   sb_created = ck_now clk\<rparr>, drawn)));
          buf = buf\<lparr>sb_data := Some msg\<rparr>;
          m = m\<lparr>sm_buffers := hm_insert dest buf (sm_buffers m), sm_drawn := drawn\<rparr>
      in send_handshake E m (sb_init buf) our_ed_priv dest SESSION_TYPE_INIT)"

definition sm_write_to ::
    "crypto_env \<Rightarrow> clock \<Rightarrow> session_manager \<Rightarrow> public_key \<Rightarrow> bytes \<Rightarrow> signing_key \<Rightarrow>
     out_action list \<times> session_manager" where
  "sm_write_to E clk m dest msg our_ed_priv =
     (case hm_get (sm_sessions m) dest of
        Some s \<Rightarrow>
          (case send_snapshot E (sm_drawn m) s of
             ((Inl e, s), drawn) \<Rightarrow> ([], put_session dest s drawn m)
           | ((Inr snap, s), drawn) \<Rightarrow>
               (case encrypt_outside_lock E snap msg of
                  Inl e \<Rightarrow> ([], put_session dest s drawn m)
                | Inr traffic_data \<Rightarrow>
                    ([SendToInner dest traffic_data],
                     put_session dest (send_finalize clk (of_nat (length msg)) s) drawn m)))
      | None \<Rightarrow> buffer_and_init E clk m dest msg our_ed_priv)"

text \<open>The answer to data that cannot be decrypted: an Init with the keys of the session, or with
  throwaway keys when there is no session.\<close>

definition resync_init ::
    "crypto_env \<Rightarrow> clock \<Rightarrow> session_manager \<Rightarrow> public_key \<Rightarrow> curve_public_key \<Rightarrow> curve_public_key \<Rightarrow> u64 \<Rightarrow>
     signing_key \<Rightarrow> out_action list \<times> session_manager" where
  "resync_init E clk m peer send_pub next_pub local_key_seq our_ed_priv =
     send_handshake E m (session_init_new clk send_pub next_pub local_key_seq) our_ed_priv peer
       SESSION_TYPE_INIT"

definition sm_handle_traffic ::
    "crypto_env \<Rightarrow> clock \<Rightarrow> session_manager \<Rightarrow> public_key \<Rightarrow> bytes \<Rightarrow> signing_key \<Rightarrow>
     out_action list \<times> session_manager" where
  "sm_handle_traffic E clk m peer data our_ed_priv =
     (case hm_get (sm_sessions m) peer of
        None \<Rightarrow>
          (let ((current_pub, _), drawn) = new_box_keys E (sm_drawn m);
               ((next_pub, _), drawn) = new_box_keys E drawn
           in resync_init E clk (m\<lparr>sm_drawn := drawn\<rparr>) peer current_pub next_pub 0 our_ed_priv)
      | Some s \<Rightarrow>
          (case recv_snapshot s data of
             Inl (SnapSendInit send_pub next_pub local_key_seq) \<Rightarrow>
               resync_init E clk m peer send_pub next_pub local_key_seq our_ed_priv
           | Inl SnapDrop \<Rightarrow> ([], m)
           | Inr snap \<Rightarrow>
               (case decrypt_outside_lock E snap data of
                  Inl RecvSendInit \<Rightarrow>
                    resync_init E clk m peer (s_send_pub s) (s_next_pub s) (s_local_key_seq s)
                      our_ed_priv
                | Inl RecvDrop \<Rightarrow> ([], m)
                | Inr (payload, inner_key) \<Rightarrow>
                    (let (s, drawn) =
                       recv_finalize E clk (sm_drawn m) snap inner_key (of_nat (length payload)) s;
                         m = put_session peer s drawn m
                     in if payload = [] \<or> payload = KEEPALIVE_ACK then ([], m)
                        else if payload = KEEPALIVE_PROBE
                        then sm_write_to E clk m peer KEEPALIVE_ACK our_ed_priv
                        else ([Deliver peer payload], m)))))"

definition create_session_from_init ::
    "crypto_env \<Rightarrow> clock \<Rightarrow> session_manager \<Rightarrow> public_key \<Rightarrow> session_init \<Rightarrow>
     bytes option \<times> session_info \<times> session_manager" where
  "create_session_from_init E clk m ed i =
     (let (info, drawn) =
        session_info_new E clk (sm_drawn m) (si_current i) (si_next i) (si_seq i)
      in case hm_get (sm_buffers m) ed of
           Some buf \<Rightarrow>
             (sb_data buf,
              fix_shared E 0 0
                (info\<lparr>s_send_pub := si_current (sb_init buf), s_send_priv := sb_current_priv buf,
                      s_next_pub := si_next (sb_init buf), s_next_priv := sb_next_priv buf\<rparr>),
              m\<lparr>sm_buffers := hm_remove ed (sm_buffers m), sm_drawn := drawn\<rparr>)
         | None \<Rightarrow> (None, info, m\<lparr>sm_drawn := drawn\<rparr>))"

text \<open>The traffic message for buffered data, if there is any and it can be encrypted.\<close>

definition send_buffered ::
    "crypto_env \<Rightarrow> clock \<Rightarrow> nat \<Rightarrow> public_key \<Rightarrow> bytes option \<Rightarrow> session_info \<Rightarrow>
     out_action list \<times> session_info \<times> nat" where
  "send_buffered E clk drawn dest buffered_data s =
     (case buffered_data of
        None \<Rightarrow> ([], s, drawn)
      | Some buf_data \<Rightarrow>
          (case do_send E clk drawn buf_data s of
             ((Inr traffic_data, s), drawn) \<Rightarrow> ([SendToInner dest traffic_data], s, drawn)
           | ((Inl e, s), drawn) \<Rightarrow> ([], s, drawn)))"

definition insert_session :: "public_key \<Rightarrow> session_info \<Rightarrow> nat \<Rightarrow> session_manager \<Rightarrow> session_manager" where
  "insert_session key s drawn m =
     m\<lparr>sm_sessions := hm_insert key s (sm_sessions m), sm_drawn := drawn\<rparr>"

definition handle_init ::
    "crypto_env \<Rightarrow> clock \<Rightarrow> session_manager \<Rightarrow> public_key \<Rightarrow> session_init \<Rightarrow> signing_key \<Rightarrow>
     out_action list \<times> session_manager" where
  "handle_init E clk m peer i our_ed_priv =
     (case hm_get (sm_sessions m) peer of
        Some s \<Rightarrow>
          (if si_seq i \<le> s_seq s then ([], m)
           else
             let (s, drawn) = handle_update E clk (sm_drawn m) i s;
                 ack_init = session_init_new clk (s_send_pub s) (s_next_pub s) (s_local_key_seq s)
             in send_handshake E (put_session peer s drawn m) ack_init our_ed_priv peer
                  SESSION_TYPE_ACK)
      | None \<Rightarrow>
          (let (buffered_data, s, m) = create_session_from_init E clk m peer i;
               ack_init = session_init_new clk (s_send_pub s) (s_next_pub s) (s_local_key_seq s);
               (traffic, s, drawn) = send_buffered E clk (sm_drawn m) peer buffered_data s;
               (ack, m) = send_handshake E (insert_session peer s drawn m) ack_init our_ed_priv peer
                            SESSION_TYPE_ACK
           in (traffic @ ack, m)))"

definition handle_ack ::
    "crypto_env \<Rightarrow> clock \<Rightarrow> session_manager \<Rightarrow> public_key \<Rightarrow> session_init \<Rightarrow> signing_key \<Rightarrow>
     out_action list \<times> session_manager" where
  "handle_ack E clk m peer ack our_ed_priv =
     (case hm_get (sm_sessions m) peer of
        Some s \<Rightarrow>
          (if si_seq ack > s_seq s
           then let (s, drawn) = handle_update E clk (sm_drawn m) ack s
                in ([], put_session peer s drawn m)
           else ([], m))
      | None \<Rightarrow>
          (let (buffered_data, s, m) = create_session_from_init E clk m peer ack;
               (s, drawn) = (if si_seq ack > s_seq s then handle_update E clk (sm_drawn m) ack s
                             else (s, sm_drawn m));
               ack_init = session_init_new clk (s_send_pub s) (s_next_pub s) (s_local_key_seq s);
               (acks, m) = send_handshake E (m\<lparr>sm_drawn := drawn\<rparr>) ack_init our_ed_priv peer
                             SESSION_TYPE_ACK;
               (traffic, s, drawn) = send_buffered E clk (sm_drawn m) peer buffered_data s
           in (acks @ traffic, insert_session peer s drawn m)))"

definition sm_handle_data ::
    "crypto_env \<Rightarrow> clock \<Rightarrow> session_manager \<Rightarrow> public_key \<Rightarrow> bytes \<Rightarrow> curve_private_key \<Rightarrow> signing_key \<Rightarrow>
     out_action list \<times> session_manager" where
  "sm_handle_data E clk m peer data our_curve_priv our_ed_priv =
     (if data = [] then ([], m)
      else if hd data = SESSION_TYPE_DUMMY then ([], m)
      else if hd data = SESSION_TYPE_INIT
      then (case session_init_decrypt E data our_curve_priv peer (preimage (sm_group_auth m)) of
              Inr i \<Rightarrow> handle_init E clk m peer i our_ed_priv
            | Inl e \<Rightarrow> ([], m))
      else if hd data = SESSION_TYPE_ACK
      then (case session_init_decrypt E data our_curve_priv peer (preimage (sm_group_auth m)) of
              Inr ack \<Rightarrow> handle_ack E clk m peer ack our_ed_priv
            | Inl e \<Rightarrow> ([], m))
      else if hd data = SESSION_TYPE_TRAFFIC then sm_handle_traffic E clk m peer data our_ed_priv
      else ([], m))"

definition sm_cleanup_expired :: "clock \<Rightarrow> session_manager \<Rightarrow> session_manager" where
  "sm_cleanup_expired clk m =
     m\<lparr>sm_sessions := hm_retain (\<lambda>_ s. \<not> is_expired clk (sm_session_timeout m) s) (sm_sessions m),
       sm_buffers := hm_retain (\<lambda>_ buf. ck_now clk - sb_created buf < sm_session_timeout m)
                       (sm_buffers m)\<rparr>"

definition has_session :: "session_manager \<Rightarrow> public_key \<Rightarrow> bool" where
  "has_session m key = hm_contains (sm_sessions m) key"

definition get_all_sessions :: "session_manager \<Rightarrow> (public_key \<times> u64 \<times> u64 \<times> instant) list" where
  "get_all_sessions m = map (\<lambda>(key, s). (key, s_tx s, s_rx s, s_since s)) (sm_sessions m)"

end
