(* ===== verification/Session_Ratchet.thy ===== *)
theory Session_Ratchet
  imports Session
begin

text \<open>
  Two sessions that talk to each other. A session is well formed (\<open>session_wf\<close>) when its shared
  keys are the ones of its key pairs; every method keeps that. Two well-formed sessions are in
  step (\<open>lead\<close>) when one of them is exactly one key ahead of what the other has seen. The main
  lemma shows that from there, over first-in first-out channels that may lose messages, every
  message that arrives is decrypted to what was sent, through any number of key rotations.
\<close>

section \<open>Handshake messages round trip\<close>

lemma length_session_init_body:
  "length (session_init_body i) = length (si_current i) + length (si_next i) + 16"
  by (simp add: session_init_body_def)

lemma session_init_fields:
  assumes "length (si_current i) = 32" "length (si_next i) = 32"
  shows "take 32 (session_init_body i) = si_current i"
    and "take 32 (drop 32 (session_init_body i)) = si_next i"
    and "take 8 (drop 64 (session_init_body i)) = be_bytes 8 (si_key_seq i)"
    and "drop 72 (session_init_body i) = be_bytes 8 (si_seq i)"
  using assms by (simp_all add: session_init_body_def)

lemma session_init_eta [simp]:
  "\<lparr>si_current = si_current i, si_next = si_next i, si_key_seq = si_key_seq i, si_seq = si_seq i\<rparr> = i"
  by (cases i) simp

lemma session_init_encrypt_ok:
  assumes "box_laws E"
  shows "\<exists>data c. session_init_encrypt E n i sk (ce_verifying_key E to_sk) ty pre = (Inr data, n + 1) \<and>
    data = [ty] @ fst (ce_box_keys E n) @ c \<and>
    length c = length (sign_with_key E sk (session_init_signed pre (fst (ce_box_keys E n) @ session_init_body i))
      @ session_init_body i) + BOX_OVERHEAD \<and>
    box_open E c 0 (fst (ce_box_keys E n)) (ed25519_private_to_curve25519 E to_sk) =
      Some (sign_with_key E sk (session_init_signed pre (fst (ce_box_keys E n) @ session_init_body i))
        @ session_init_body i)"
proof -
  obtain p s where ps: "ce_box_keys E n = (p, s)" by (cases "ce_box_keys E n")
  obtain to_box where tb: "ed25519_public_to_curve25519 E (ce_verifying_key E to_sk) = Some to_box"
    and agree: "make_salsa_box E to_box s = make_salsa_box E p (ed25519_private_to_curve25519 E to_sk)"
    using box_laws_long_term [OF assms, of to_sk n] ps by auto
  let ?pl = "sign_with_key E sk (session_init_signed pre (p @ session_init_body i)) @ session_init_body i"
  obtain c where c: "box_seal E ?pl 0 to_box s = Some c" "length c = length ?pl + BOX_OVERHEAD"
    "box_open E c 0 p (ed25519_private_to_curve25519 E to_sk) = Some ?pl"
    using box_laws_seal [OF assms, of ?pl 0 "make_salsa_box E to_box s"] agree
    by (auto simp: box_seal_def box_open_def box_seal_precomputed_def box_open_precomputed_def)
  then show ?thesis
    using ps tb by (simp add: session_init_encrypt_def new_box_keys_def Let_def)
qed

lemma session_init_round_trip:
  assumes "box_laws E" "sign_laws E" "length (si_current i) = 32" "length (si_next i) = 32"
  shows "\<exists>data. session_init_encrypt E n i sk (ce_verifying_key E to_sk) ty pre = (Inr data, n + 1) \<and>
    hd data = ty \<and> data \<noteq> [] \<and> length data = SESSION_INIT_SIZE \<and>
    session_init_decrypt E data (ed25519_private_to_curve25519 E to_sk) (ce_verifying_key E sk) pre = Inr i"
proof -
  let ?p = "fst (ce_box_keys E n)"
  let ?sig = "sign_with_key E sk (session_init_signed pre (?p @ session_init_body i))"
  obtain data c where enc: "session_init_encrypt E n i sk (ce_verifying_key E to_sk) ty pre = (Inr data, n + 1)"
    and data: "data = [ty] @ ?p @ c" and len: "length c = length (?sig @ session_init_body i) + BOX_OVERHEAD"
    and opn: "box_open E c 0 ?p (ed25519_private_to_curve25519 E to_sk) = Some (?sig @ session_init_body i)"
    using session_init_encrypt_ok [OF assms(1), of n i sk to_sk ty pre] by blast
  have p32: "length ?p = 32" using box_laws_length [OF assms(1), of n] by simp
  have s64: "length ?sig = 64" by (rule sign_laws_length [OF assms(2)])
  have size: "length data = SESSION_INIT_SIZE"
    using assms(3,4) p32 s64 len data by (simp add: length_session_init_body SESSION_INIT_SIZE_def)
  have parts: "take 32 (drop 1 data) = ?p" "drop 33 data = c"
    using p32 data by simp_all
  have "session_init_decrypt E data (ed25519_private_to_curve25519 E to_sk) (ce_verifying_key E sk) pre = Inr i"
    using size parts opn assms(3,4) s64
    by (simp add: session_init_decrypt_def Let_def session_init_fields [OF assms(3,4)]
        length_session_init_body sign_laws_verify [OF assms(2)])
  then show ?thesis using enc data size by simp
qed

section \<open>Traffic messages\<close>

abbreviation traffic_prefix :: "u64 \<Rightarrow> u64 \<Rightarrow> u64 \<Rightarrow> bytes" where
  "traffic_prefix l r n \<equiv>
     SESSION_TYPE_TRAFFIC # encode_uvarint l @ encode_uvarint r @ encode_uvarint n"

lemma traffic_header_encode:
  "traffic_header (traffic_prefix l r n @ c) = Some (l, r, n, length (traffic_prefix l r n))"
  by (simp add: traffic_header_def decode_encode_uvarint Let_def)

lemma uvarint_length_pos: "1 \<le> length (encode_uvarint v)"
  by (subst encode_uvarint.simps) (simp add: Let_def)

definition snap_of :: "u64 \<Rightarrow> u64 \<Rightarrow> curve_public_key \<Rightarrow> salsa_box \<Rightarrow> u64 \<Rightarrow> send_snap" where
  "snap_of l r inner box n =
     \<lparr>ss_local_key_seq = l, ss_remote_key_seq = r, ss_send_nonce = n, ss_next_pub = inner,
      ss_send_shared = box\<rparr>"

lemma encrypt_outside_lock_ok:
  assumes "box_laws E"
  shows "\<exists>c. encrypt_outside_lock E (snap_of l r inner b n) msg = Inr (traffic_prefix l r n @ c) \<and>
    length c = length inner + length msg + BOX_OVERHEAD \<and>
    box_open_precomputed E c n b = Some (inner @ msg)"
  using box_laws_seal [OF assms, of "inner @ msg" n b]
  by (auto simp: encrypt_outside_lock_def snap_of_def Let_def)

text \<open>One reception: the three phases of \<open>handle_traffic\<close> on a session.\<close>

definition receive ::
    "crypto_env \<Rightarrow> clock \<Rightarrow> nat \<Rightarrow> bytes \<Rightarrow> session_info \<Rightarrow> bytes option \<times> session_info \<times> nat" where
  "receive E clk drawn msg s =
     (case recv_snapshot s msg of
        Inl e \<Rightarrow> (None, s, drawn)
      | Inr snap \<Rightarrow>
          (case decrypt_outside_lock E snap msg of
             Inl a \<Rightarrow> (None, s, drawn)
           | Inr (payload, inner_key) \<Rightarrow>
               (let (s, drawn) = recv_finalize E clk drawn snap inner_key (of_nat (length payload)) s
                in (Some payload, s, drawn))))"

lemma sm_handle_traffic_receive:
  assumes "hm_get (sm_sessions m) peer = Some s" "receive E clk (sm_drawn m) data s = (Some payload, s', n)"
    "payload \<noteq> []" "payload \<noteq> KEEPALIVE_ACK" "payload \<noteq> KEEPALIVE_PROBE"
  shows "sm_handle_traffic E clk m peer data ed = ([Deliver peer payload], put_session peer s' n m)"
  using assms
  by (auto simp: sm_handle_traffic_def receive_def Let_def
      split: sum.splits prod.splits recv_snapshot_error.splits recv_action.splits)

text \<open>What a receiver needs in order to accept a message, and what it gets.\<close>

lemma receive_sealed:
  assumes "box_laws E" "encrypt_outside_lock E (snap_of l r inner b n) msg = Inr w"
    "length inner = 32" "decrypt_case_of s l r n = Inr c" "case_shared s c = b"
  shows "receive E clk drawn w s =
    (let (s, drawn) = recv_finalize E clk drawn
           \<lparr>rs_remote_key_seq = s_remote_key_seq s, rs_nonce = n,
            rs_encrypted_offset = length (traffic_prefix l r n), rs_shared = b, rs_case = c\<rparr>
           inner (of_nat (length msg)) s
     in (Some msg, s, drawn))"
proof -
  obtain ct where w: "w = traffic_prefix l r n @ ct"
    and len: "length ct = length inner + length msg + BOX_OVERHEAD"
    and opn: "box_open_precomputed E ct n b = Some (inner @ msg)"
    using encrypt_outside_lock_ok [OF assms(1), of l r inner b n msg] assms(2) by auto
  have "\<not> length w < SESSION_TRAFFIC_OVERHEAD_MIN"
    using len w assms(3) uvarint_length_pos [of l] uvarint_length_pos [of r]
      uvarint_length_pos [of n]
    by (simp add: SESSION_TRAFFIC_OVERHEAD_MIN_def BOX_OVERHEAD_def)
  then have "recv_snapshot s w = Inr \<lparr>rs_remote_key_seq = s_remote_key_seq s, rs_nonce = n,
            rs_encrypted_offset = length (traffic_prefix l r n), rs_shared = b, rs_case = c\<rparr>"
    using assms(4,5) by (simp only: recv_snapshot_def w traffic_header_encode) simp
  moreover have "drop (length (traffic_prefix l r n)) w = ct" using w by simp
  ultimately show ?thesis
    using opn assms(3) by (simp add: receive_def decrypt_outside_lock_def Let_def)
qed

section \<open>Well-formed sessions\<close>

definition own_pair :: "crypto_env \<Rightarrow> curve_public_key \<Rightarrow> curve_private_key \<Rightarrow> bool" where
  "own_pair E pub priv \<longleftrightarrow> (\<exists>i. ce_box_keys E i = (pub, priv))"

definition session_wf :: "crypto_env \<Rightarrow> session_info \<Rightarrow> bool" where
  "session_wf E s \<longleftrightarrow>
     own_pair E (s_recv_pub s) (s_recv_priv s) \<and> own_pair E (s_send_pub s) (s_send_priv s) \<and>
     own_pair E (s_next_pub s) (s_next_priv s) \<and>
     s_recv_shared s = make_salsa_box E (s_current s) (s_recv_priv s) \<and>
     s_send_shared s = make_salsa_box E (s_current s) (s_send_priv s) \<and>
     s_next_send_shared s = make_salsa_box E (s_next s) (s_send_priv s) \<and>
     s_next_recv_shared s = make_salsa_box E (s_next s) (s_recv_priv s)"

lemma own_pair_drawn: "ce_box_keys E n = (p, s) \<Longrightarrow> own_pair E p s"
  by (auto simp: own_pair_def)

lemma own_pair_length: "box_laws E \<Longrightarrow> own_pair E p s \<Longrightarrow> length p = 32 \<and> length s = 32"
  by (metis box_laws_length fst_conv own_pair_def snd_conv)

lemma own_pair_agree:
  "box_laws E \<Longrightarrow> own_pair E p s \<Longrightarrow> own_pair E q t \<Longrightarrow> make_salsa_box E p t = make_salsa_box E q s"
  by (metis box_laws_agree fst_conv own_pair_def snd_conv)

lemmas session_step_defs =
  handle_update_def ratchet_local_def fix_shared_def new_box_keys_def Let_def

lemma session_info_new_wf: "session_wf E (fst (session_info_new E clk drawn current nxt seq))"
  by (auto simp: session_info_new_def session_wf_def new_box_keys_def Let_def
      intro: own_pair_drawn split: prod.splits)

lemma handle_update_wf: "session_wf E s \<Longrightarrow> session_wf E (fst (handle_update E clk drawn i s))"
  by (auto simp: session_step_defs session_wf_def intro: own_pair_drawn split: prod.splits)

lemma send_snapshot_wf: "session_wf E s \<Longrightarrow> session_wf E (snd (fst (send_snapshot E drawn s)))"
  by (auto simp: send_snapshot_def session_step_defs session_wf_def
      intro: own_pair_drawn split: prod.splits)

lemma send_finalize_wf: "session_wf E s \<Longrightarrow> session_wf E (send_finalize clk len s)"
  by (simp add: send_finalize_def session_wf_def)

lemma maybe_ratchet_wf:
  "session_wf E s \<Longrightarrow> session_wf E (fst (maybe_ratchet_on_recv E clk drawn inner n s))"
  by (auto simp: maybe_ratchet_on_recv_def session_step_defs session_wf_def
      intro: own_pair_drawn split: prod.splits option.splits)

lemma session_wf_counters:
  "session_wf E (s\<lparr>s_rx := a, s_last_activity := t\<rparr>) = session_wf E s"
  "session_wf E (s\<lparr>s_recv_nonce := n\<rparr>) = session_wf E s"
  "session_wf E (s\<lparr>s_next_send_nonce := n\<rparr>) = session_wf E s"
  "session_wf E (s\<lparr>s_next_recv_nonce := n\<rparr>) = session_wf E s"
  by (simp_all add: session_wf_def)

lemma recv_finalize_wf:
  assumes "session_wf E s"
  shows "session_wf E (fst (recv_finalize E clk drawn snap inner len s))"
  using assms maybe_ratchet_wf [of E "s\<lparr>s_next_send_nonce := rs_nonce snap\<rparr>" clk drawn inner "rs_nonce snap"]
    maybe_ratchet_wf [of E "s\<lparr>s_next_recv_nonce := rs_nonce snap\<rparr>" clk drawn inner "rs_nonce snap"]
  by (auto simp: recv_finalize_def session_wf_counters Let_def split: prod.splits decrypt_case.splits)

lemma receive_wf: "session_wf E s \<Longrightarrow> session_wf E (fst (snd (receive E clk drawn msg s)))"
  using recv_finalize_wf [of E s clk drawn]
  by (simp add: receive_def Let_def split: prod.splits sum.splits)

lemma do_send_wf: "session_wf E s \<Longrightarrow> session_wf E (snd (fst (do_send E clk drawn msg s)))"
  using send_snapshot_wf [of E s drawn]
  by (auto simp: do_send_def send_finalize_wf split: prod.splits sum.splits)

section \<open>Messages under way\<close>

text \<open>
  \<open>inflight E b l r K lo hi items\<close>: the items, pairs of a traffic message and its plaintext, were
  sealed one after the other with the shared key \<open>b\<close>, the header numbers \<open>l\<close> and \<open>r\<close>, the inner
  key \<open>K\<close> and increasing nonces above \<open>lo\<close>, of which the last is at most \<open>hi\<close>.
\<close>

fun inflight ::
    "crypto_env \<Rightarrow> salsa_box \<Rightarrow> u64 \<Rightarrow> u64 \<Rightarrow> curve_public_key \<Rightarrow> u64 \<Rightarrow> u64 \<Rightarrow> (bytes \<times> bytes) list \<Rightarrow> bool" where
  "inflight E b l r K lo hi [] \<longleftrightarrow> lo \<le> hi"
| "inflight E b l r K lo hi ((w, p) # items) \<longleftrightarrow>
     (\<exists>n. lo < n \<and> encrypt_outside_lock E (snap_of l r K b n) p = Inr w \<and>
          inflight E b l r K n hi items)"

lemma inflight_lower: "inflight E b l r K lo hi items \<Longrightarrow> lo' \<le> lo \<Longrightarrow> inflight E b l r K lo' hi items"
  by (cases items) (auto intro: order_trans, metis order.strict_trans1)

lemma inflight_bounds: "inflight E b l r K lo hi items \<Longrightarrow> lo \<le> hi"
  by (induction E b l r K lo hi items rule: inflight.induct) (auto intro: less_imp_le order_trans)

lemma inflight_snoc:
  "inflight E b l r K lo hi items \<Longrightarrow> hi < hi' \<Longrightarrow>
   encrypt_outside_lock E (snap_of l r K b hi') p = Inr w \<Longrightarrow>
   inflight E b l r K lo hi' (items @ [(w, p)])"
  by (induction E b l r K lo hi items rule: inflight.induct) (auto dest: order.strict_trans1)

lemma inflight_tl: "inflight E b l r K lo hi (x # items) \<Longrightarrow> inflight E b l r K lo hi items"
  by (cases x) (auto intro: inflight_lower less_imp_le)

section \<open>Sessions in step\<close>

text \<open>
  \<open>lead E X Y oX oY\<close>: the session \<open>X\<close> is one key ahead of what \<open>Y\<close> has seen. \<open>oX\<close> are the
  messages under way from \<open>X\<close> to \<open>Y\<close>, first those sealed before the last rotation of \<open>X\<close> and
  then those sealed after it; \<open>oY\<close> are the messages under way to \<open>X\<close>.
\<close>

definition out_ahead :: "crypto_env \<Rightarrow> session_info \<Rightarrow> session_info \<Rightarrow> (bytes \<times> bytes) list \<Rightarrow> bool" where
  "out_ahead E X Y oX \<longleftrightarrow>
     (\<exists>old new hi. oX = old @ new \<and>
        inflight E (s_recv_shared Y) (s_remote_key_seq Y) (s_local_key_seq Y - 1) (s_send_pub X)
          (s_recv_nonce Y) hi old \<and>
        inflight E (s_send_shared X) (s_local_key_seq X) (s_remote_key_seq X) (s_next_pub X)
          (s_next_send_nonce Y) (s_send_nonce X) new)"

definition out_behind :: "crypto_env \<Rightarrow> session_info \<Rightarrow> session_info \<Rightarrow> (bytes \<times> bytes) list \<Rightarrow> bool" where
  "out_behind E X Y oY \<longleftrightarrow>
     inflight E (s_send_shared Y) (s_local_key_seq Y) (s_remote_key_seq Y) (s_next_pub Y)
       (s_recv_nonce X) (s_send_nonce Y) oY"

definition lead ::
    "crypto_env \<Rightarrow> session_info \<Rightarrow> session_info \<Rightarrow> (bytes \<times> bytes) list \<Rightarrow> (bytes \<times> bytes) list \<Rightarrow> bool" where
  "lead E X Y oX oY \<longleftrightarrow>
     session_wf E X \<and> session_wf E Y \<and>
     s_local_key_seq X = s_remote_key_seq Y + 1 \<and> s_remote_key_seq X = s_local_key_seq Y \<and>
     s_current Y = s_recv_pub X \<and> s_next Y = s_send_pub X \<and>
     s_current X = s_send_pub Y \<and> s_next X = s_next_pub Y \<and>
     s_next_send_nonce X = 0 \<and> out_ahead E X Y oX \<and> out_behind E X Y oY"

lemma do_send_ok:
  assumes "box_laws E" "s_send_nonce s + 1 \<noteq> 0"
  shows "\<exists>w. do_send E clk drawn msg s =
      ((Inr w, send_finalize clk (of_nat (length msg)) (s\<lparr>s_send_nonce := s_send_nonce s + 1\<rparr>)), drawn) \<and>
    encrypt_outside_lock E
      (snap_of (s_local_key_seq s) (s_remote_key_seq s) (s_next_pub s) (s_send_shared s) (s_send_nonce s + 1))
      msg = Inr w"
  using encrypt_outside_lock_ok [OF assms(1), of "s_local_key_seq s" "s_remote_key_seq s" "s_next_pub s"
      "s_send_shared s" "s_send_nonce s + 1" msg] assms(2)
  by (auto simp: do_send_def send_snapshot_def snap_of_def Let_def)

lemma send_finalize_sel [simp]:
  "s_local_key_seq (send_finalize clk len s) = s_local_key_seq s"
  "s_remote_key_seq (send_finalize clk len s) = s_remote_key_seq s"
  "s_current (send_finalize clk len s) = s_current s" "s_next (send_finalize clk len s) = s_next s"
  "s_recv_pub (send_finalize clk len s) = s_recv_pub s" "s_send_pub (send_finalize clk len s) = s_send_pub s"
  "s_next_pub (send_finalize clk len s) = s_next_pub s" "s_send_shared (send_finalize clk len s) = s_send_shared s"
  "s_recv_shared (send_finalize clk len s) = s_recv_shared s"
  "s_send_nonce (send_finalize clk len s) = s_send_nonce s"
  "s_recv_nonce (send_finalize clk len s) = s_recv_nonce s"
  "s_next_send_nonce (send_finalize clk len s) = s_next_send_nonce s"
  "s_send_priv (send_finalize clk len s) = s_send_priv s" "s_next_priv (send_finalize clk len s) = s_next_priv s"
  by (simp_all add: send_finalize_def)

lemma session_wf_sent:
  "session_wf E (send_finalize clk len (s\<lparr>s_send_nonce := n\<rparr>)) = session_wf E s"
  by (simp add: session_wf_def send_finalize_def)

lemma out_ahead_send:
  assumes "out_ahead E X Y oX" "s_send_nonce X + 1 \<noteq> 0"
    "encrypt_outside_lock E (snap_of (s_local_key_seq X) (s_remote_key_seq X) (s_next_pub X)
      (s_send_shared X) (s_send_nonce X + 1)) msg = Inr w"
  shows "out_ahead E (send_finalize clk len (X\<lparr>s_send_nonce := s_send_nonce X + 1\<rparr>)) Y (oX @ [(w, msg)])"
proof -
  obtain old new hi where o: "oX = old @ new"
    and old: "inflight E (s_recv_shared Y) (s_remote_key_seq Y) (s_local_key_seq Y - 1) (s_send_pub X)
          (s_recv_nonce Y) hi old"
    and new: "inflight E (s_send_shared X) (s_local_key_seq X) (s_remote_key_seq X) (s_next_pub X)
          (s_next_send_nonce Y) (s_send_nonce X) new"
    using assms(1) unfolding out_ahead_def by blast
  note new' = inflight_snoc [OF new less_plus_one [OF assms(2)] assms(3)]
  show ?thesis
    unfolding out_ahead_def
    by (rule exI [of _ old], rule exI [of _ "new @ [(w, msg)]"], rule exI [of _ hi]) (simp add: o old new')
qed

lemma out_ahead_other_sends:
  "out_ahead E X (send_finalize clk len (Y\<lparr>s_send_nonce := n\<rparr>)) o' = out_ahead E X Y o'"
  by (simp add: out_ahead_def)

lemma lead_send_ahead:
  assumes "box_laws E" "lead E X Y oX oY" "s_send_nonce X + 1 \<noteq> 0"
  shows "\<exists>w X'. do_send E clk drawn msg X = ((Inr w, X'), drawn) \<and> lead E X' Y (oX @ [(w, msg)]) oY \<and>
    s_send_nonce X' = s_send_nonce X + 1"
proof -
  obtain w where send: "do_send E clk drawn msg X =
      ((Inr w, send_finalize clk (of_nat (length msg)) (X\<lparr>s_send_nonce := s_send_nonce X + 1\<rparr>)), drawn)"
    and seal: "encrypt_outside_lock E (snap_of (s_local_key_seq X) (s_remote_key_seq X) (s_next_pub X)
      (s_send_shared X) (s_send_nonce X + 1)) msg = Inr w"
    using do_send_ok [OF assms(1,3)] by blast
  have "out_ahead E X Y oX" using assms(2) by (simp add: lead_def)
  from out_ahead_send [OF this assms(3) seal] show ?thesis
    using send assms(2) by (simp add: lead_def session_wf_sent out_behind_def)
qed

lemma lead_send_behind:
  assumes "box_laws E" "lead E X Y oX oY" "s_send_nonce Y + 1 \<noteq> 0"
  shows "\<exists>w Y'. do_send E clk drawn msg Y = ((Inr w, Y'), drawn) \<and> lead E X Y' oX (oY @ [(w, msg)]) \<and>
    s_send_nonce Y' = s_send_nonce Y + 1"
proof -
  obtain w where send: "do_send E clk drawn msg Y =
      ((Inr w, send_finalize clk (of_nat (length msg)) (Y\<lparr>s_send_nonce := s_send_nonce Y + 1\<rparr>)), drawn)"
    and seal: "encrypt_outside_lock E (snap_of (s_local_key_seq Y) (s_remote_key_seq Y) (s_next_pub Y)
      (s_send_shared Y) (s_send_nonce Y + 1)) msg = Inr w"
    using do_send_ok [OF assms(1,3)] by blast
  have "inflight E (s_send_shared Y) (s_local_key_seq Y) (s_remote_key_seq Y) (s_next_pub Y)
       (s_recv_nonce X) (s_send_nonce Y) oY"
    using assms(2) by (simp add: lead_def out_behind_def)
  note inflight_snoc [OF this less_plus_one [OF assms(3)] seal]
  then show ?thesis
    using send assms(2) by (simp add: lead_def session_wf_sent out_behind_def out_ahead_other_sends)
qed

lemma session_wf_pairs:
  "session_wf E s \<Longrightarrow> own_pair E (s_recv_pub s) (s_recv_priv s)"
  "session_wf E s \<Longrightarrow> own_pair E (s_send_pub s) (s_send_priv s)"
  "session_wf E s \<Longrightarrow> own_pair E (s_next_pub s) (s_next_priv s)"
  by (simp_all add: session_wf_def)

lemma session_wf_shared:
  "session_wf E s \<Longrightarrow> s_recv_shared s = make_salsa_box E (s_current s) (s_recv_priv s)"
  "session_wf E s \<Longrightarrow> s_send_shared s = make_salsa_box E (s_current s) (s_send_priv s)"
  "session_wf E s \<Longrightarrow> s_next_send_shared s = make_salsa_box E (s_next s) (s_send_priv s)"
  "session_wf E s \<Longrightarrow> s_next_recv_shared s = make_salsa_box E (s_next s) (s_recv_priv s)"
  by (simp_all add: session_wf_def)

lemma lead_agree:
  assumes "box_laws E" "lead E X Y oX oY"
  shows "s_send_shared Y = s_recv_shared X" "s_send_shared X = s_next_send_shared Y"
    "length (s_send_pub X) = 32" "length (s_next_pub X) = 32" "length (s_next_pub Y) = 32"
proof -
  have wf: "session_wf E X" "session_wf E Y"
    and cur: "s_current Y = s_recv_pub X" "s_current X = s_send_pub Y" "s_next Y = s_send_pub X"
    using assms(2) by (simp_all add: lead_def)
  note pairs = session_wf_pairs [OF wf(1)] session_wf_pairs [OF wf(2)]
  show "s_send_shared Y = s_recv_shared X"
    using own_pair_agree [OF assms(1) pairs(1) pairs(5)] session_wf_shared [OF wf(1)]
      session_wf_shared [OF wf(2)] cur by simp
  show "s_send_shared X = s_next_send_shared Y"
    using own_pair_agree [OF assms(1) pairs(2) pairs(5)] session_wf_shared [OF wf(1)]
      session_wf_shared [OF wf(2)] cur by simp
  show "length (s_send_pub X) = 32" "length (s_next_pub X) = 32" "length (s_next_pub Y) = 32"
    using own_pair_length [OF assms(1) pairs(2)] own_pair_length [OF assms(1) pairs(3)]
      own_pair_length [OF assms(1) pairs(6)] by simp_all
qed

lemma out_counters:
  "out_ahead E X (Y\<lparr>s_rx := a, s_last_activity := t\<rparr>) o' = out_ahead E X Y o'"
  "out_ahead E (X\<lparr>s_rx := a, s_last_activity := t\<rparr>) Y o' = out_ahead E X Y o'"
  "out_behind E X (Y\<lparr>s_rx := a, s_last_activity := t\<rparr>) o' = out_behind E X Y o'"
  "out_behind E (X\<lparr>s_rx := a, s_last_activity := t\<rparr>) Y o' = out_behind E X Y o'"
  "out_ahead E (X\<lparr>s_recv_nonce := n\<rparr>) Y o' = out_ahead E X Y o'"
  "out_behind E X (Y\<lparr>s_recv_nonce := n\<rparr>) o' = out_behind E X Y o'"
  "out_behind E X (Y\<lparr>s_next_send_nonce := n\<rparr>) o' = out_behind E X Y o'"
  by (simp_all add: out_ahead_def out_behind_def)

lemma lead_counters:
  "lead E X (Y\<lparr>s_rx := a, s_last_activity := t\<rparr>) oX oY = lead E X Y oX oY"
  "lead E (X\<lparr>s_rx := a, s_last_activity := t\<rparr>) Y oX oY = lead E X Y oX oY"
  by (simp_all add: lead_def session_wf_counters out_counters)

text \<open>The session that is ahead receives with its previous key.\<close>

lemma lead_recv_ahead:
  assumes "box_laws E" "lead E X Y oX ((w, p) # oY)"
  shows "\<exists>X'. receive E clk drawn w X = (Some p, X', drawn) \<and> lead E X' Y oX oY \<and>
    s_send_nonce X' = s_send_nonce X"
proof -
  note agree = lead_agree [OF assms]
  obtain n where n: "s_recv_nonce X < n"
    and seal: "encrypt_outside_lock E (snap_of (s_local_key_seq Y) (s_remote_key_seq Y) (s_next_pub Y)
      (s_send_shared Y) n) p = Inr w"
    and rest: "inflight E (s_send_shared Y) (s_local_key_seq Y) (s_remote_key_seq Y) (s_next_pub Y)
       n (s_send_nonce Y) oY"
    using assms(2) by (auto simp: lead_def out_behind_def)
  have cs: "decrypt_case_of X (s_local_key_seq Y) (s_remote_key_seq Y) n = Inr CurrentToRecv"
    using assms(2) n by (simp add: decrypt_case_of_def lead_def)
  have "out_behind E (X\<lparr>s_recv_nonce := n\<rparr>) Y oY" using rest by (simp add: out_behind_def)
  then have lead: "lead E (X\<lparr>s_recv_nonce := n\<rparr>) Y oX oY"
    using assms(2) by (simp add: lead_def session_wf_counters out_counters)
  show ?thesis
    using receive_sealed [OF assms(1) seal agree(5) cs, of clk drawn] agree(1) lead
    by (simp add: recv_finalize_def lead_counters)
qed

text \<open>The session that is behind receives messages sealed before the other one rotated with its
  previous key, and later ones with its current key; then it may rotate and get ahead.\<close>

lemma lead_recv_old:
  assumes "box_laws E" "lead E X Y ((w, p) # oX) oY"
    and old: "s_recv_nonce Y < n"
      "encrypt_outside_lock E (snap_of (s_remote_key_seq Y) (s_local_key_seq Y - 1) (s_send_pub X)
         (s_recv_shared Y) n) p = Inr w"
    and out: "out_ahead E X (Y\<lparr>s_recv_nonce := n\<rparr>) oX"
  shows "\<exists>Y'. receive E clk drawn w Y = (Some p, Y', drawn) \<and> lead E X Y' oX oY \<and>
    s_send_nonce Y' = s_send_nonce Y"
proof -
  have cs: "decrypt_case_of Y (s_remote_key_seq Y) (s_local_key_seq Y - 1) n = Inr CurrentToRecv"
    using old(1) by (simp add: decrypt_case_of_def)
  have lead: "lead E X (Y\<lparr>s_recv_nonce := n\<rparr>) oX oY"
    using assms(2) out by (simp add: lead_def session_wf_counters out_counters)
  show ?thesis
    using receive_sealed [OF assms(1) old(2) lead_agree(3) [OF assms(1,2)] cs, of clk drawn] lead
    by (simp add: recv_finalize_def lead_counters)
qed

definition rotated :: "crypto_env \<Rightarrow> clock \<Rightarrow> nat \<Rightarrow> curve_public_key \<Rightarrow> u64 \<Rightarrow> session_info \<Rightarrow> session_info" where
  "rotated E clk drawn inner n s =
     (fix_shared E n 0 (fst (ratchet_local E drawn
        (s\<lparr>s_current := s_next s, s_next := inner, s_remote_key_seq := s_remote_key_seq s + 1\<rparr>))))
       \<lparr>s_rotated := Some (ck_now clk)\<rparr>"

lemma maybe_ratchet_cases:
  "maybe_ratchet_on_recv E clk drawn inner n s = (s, drawn) \<or>
   maybe_ratchet_on_recv E clk drawn inner n s = (rotated E clk drawn inner n s, drawn + 1)"
  by (auto simp: maybe_ratchet_on_recv_def rotated_def ratchet_local_def new_box_keys_def Let_def
      split: prod.splits option.splits)

lemma rotated_sel [simp]:
  "s_local_key_seq (rotated E clk drawn inner n s) = s_local_key_seq s + 1"
  "s_remote_key_seq (rotated E clk drawn inner n s) = s_remote_key_seq s + 1"
  "s_current (rotated E clk drawn inner n s) = s_next s" "s_next (rotated E clk drawn inner n s) = inner"
  "s_recv_pub (rotated E clk drawn inner n s) = s_send_pub s"
  "s_send_pub (rotated E clk drawn inner n s) = s_next_pub s"
  "s_send_priv (rotated E clk drawn inner n s) = s_next_priv s"
  "s_next_priv (rotated E clk drawn inner n s) = snd (ce_box_keys E drawn)"
  "s_recv_nonce (rotated E clk drawn inner n s) = n" "s_send_nonce (rotated E clk drawn inner n s) = 0"
  "s_next_send_nonce (rotated E clk drawn inner n s) = 0"
  "s_next_recv_nonce (rotated E clk drawn inner n s) = 0"
  "s_recv_shared (rotated E clk drawn inner n s) = make_salsa_box E (s_next s) (s_send_priv s)"
  "s_send_shared (rotated E clk drawn inner n s) = make_salsa_box E (s_next s) (s_next_priv s)"
  by (simp_all add: rotated_def fix_shared_def ratchet_local_def new_box_keys_def Let_def split: prod.splits)

lemma rotated_wf: "session_wf E s \<Longrightarrow> session_wf E (rotated E clk drawn inner n s)"
  by (auto simp: rotated_def session_step_defs session_wf_def intro: own_pair_drawn split: prod.splits)

lemma lead_recv_new:
  assumes "box_laws E" "lead E X Y ((w, p) # oX) oY"
    and n: "s_next_send_nonce Y < n"
    and seal: "encrypt_outside_lock E (snap_of (s_local_key_seq X) (s_remote_key_seq X) (s_next_pub X)
      (s_send_shared X) n) p = Inr w"
    and rest: "inflight E (s_send_shared X) (s_local_key_seq X) (s_remote_key_seq X) (s_next_pub X)
      n (s_send_nonce X) oX"
    and Y1: "Y1 = Y\<lparr>s_next_send_nonce := n\<rparr>"
  shows "\<exists>Y' drawn'. receive E clk drawn w Y = (Some p, Y', drawn') \<and>
    (lead E X Y' oX oY \<and> s_send_nonce Y' = s_send_nonce Y \<or> lead E Y' X oY oX \<and> s_send_nonce Y' = 0)"
proof -
  have wf: "session_wf E X" "session_wf E Y"
    and eqs: "s_local_key_seq X = s_remote_key_seq Y + 1" "s_remote_key_seq X = s_local_key_seq Y"
      "s_current Y = s_recv_pub X" "s_next Y = s_send_pub X" "s_current X = s_send_pub Y"
      "s_next X = s_next_pub Y" "s_next_send_nonce X = 0"
    and behind: "out_behind E X Y oY"
    using assms(2) by (simp_all add: lead_def)
  note agree = lead_agree [OF assms(1,2)]
  have cs: "decrypt_case_of Y (s_local_key_seq X) (s_remote_key_seq X) n = Inr NextToSend"
    using n eqs(1,2) by (simp add: decrypt_case_of_def)
  have stay: "lead E X Y1 oX oY"
  proof -
    have "out_ahead E X Y1 oX" unfolding out_ahead_def
      by (rule exI [of _ "[]"], rule exI [of _ oX], rule exI [of _ "s_recv_nonce Y"]) (use rest Y1 in simp)
    then show ?thesis using wf eqs behind by (simp add: lead_def Y1 session_wf_counters out_counters)
  qed
  have turn: "lead E (rotated E clk drawn (s_next_pub X) n Y1) X oY oX"
  proof -
    have "out_ahead E (rotated E clk drawn (s_next_pub X) n Y1) X oY" unfolding out_ahead_def
      by (rule exI [of _ oY], rule exI [of _ "[]"], rule exI [of _ "s_send_nonce Y"])
        (use behind agree(1) eqs Y1 in \<open>simp add: out_behind_def\<close>)
    moreover have "out_behind E (rotated E clk drawn (s_next_pub X) n Y1) X oX"
      using rest by (simp add: out_behind_def)
    ultimately show ?thesis
      using wf rotated_wf [of E Y1] eqs by (simp add: lead_def Y1 session_wf_counters)
  qed
  show ?thesis
    using receive_sealed [OF assms(1) seal agree(4) cs, of clk drawn] agree(2) stay turn
      maybe_ratchet_cases [of E clk drawn "s_next_pub X" n Y1]
    by (auto simp: recv_finalize_def Y1 lead_counters)
qed

lemma lead_recv_behind:
  assumes "box_laws E" "lead E X Y ((w, p) # oX) oY"
  shows "\<exists>Y' drawn'. receive E clk drawn w Y = (Some p, Y', drawn') \<and>
    (lead E X Y' oX oY \<and> s_send_nonce Y' = s_send_nonce Y \<or> lead E Y' X oY oX \<and> s_send_nonce Y' = 0)"
proof -
  have "out_ahead E X Y ((w, p) # oX)" using assms(2) by (simp add: lead_def)
  then obtain old new hi where o: "(w, p) # oX = old @ new"
    and old: "inflight E (s_recv_shared Y) (s_remote_key_seq Y) (s_local_key_seq Y - 1) (s_send_pub X)
          (s_recv_nonce Y) hi old"
    and new: "inflight E (s_send_shared X) (s_local_key_seq X) (s_remote_key_seq X) (s_next_pub X)
          (s_next_send_nonce Y) (s_send_nonce X) new"
    unfolding out_ahead_def by (elim exE conjE) (rule that)
  show ?thesis
  proof (cases old)
    case Nil
    then have "new = (w, p) # oX" using o by simp
    with new show ?thesis using lead_recv_new [OF assms] by auto
  next
    case (Cons x old')
    then have x: "x = (w, p)" "oX = old' @ new" using o by auto
    then obtain n where n: "s_recv_nonce Y < n"
      and seal: "encrypt_outside_lock E (snap_of (s_remote_key_seq Y) (s_local_key_seq Y - 1) (s_send_pub X)
         (s_recv_shared Y) n) p = Inr w"
      and rest: "inflight E (s_recv_shared Y) (s_remote_key_seq Y) (s_local_key_seq Y - 1) (s_send_pub X)
          n hi old'"
      using old Cons by auto
    have "out_ahead E X (Y\<lparr>s_recv_nonce := n\<rparr>) oX" unfolding out_ahead_def
      by (rule exI [of _ old'], rule exI [of _ new], rule exI [of _ hi]) (use rest new x in simp)
    from lead_recv_old [OF assms n seal this] show ?thesis by blast
  qed
qed

text \<open>A message that is lost leaves both sessions in step.\<close>

lemma lead_lose_behind: "lead E X Y oX (x # oY) \<Longrightarrow> lead E X Y oX oY"
  by (auto simp: lead_def out_behind_def dest: inflight_tl)

lemma lead_lose_ahead:
  assumes "lead E X Y (x # oX) oY"
  shows "lead E X Y oX oY"
proof -
  have "out_ahead E X Y (x # oX)" using assms by (simp add: lead_def)
  then obtain old new hi where o: "x # oX = old @ new"
    and old: "inflight E (s_recv_shared Y) (s_remote_key_seq Y) (s_local_key_seq Y - 1) (s_send_pub X)
          (s_recv_nonce Y) hi old"
    and new: "inflight E (s_send_shared X) (s_local_key_seq X) (s_remote_key_seq X) (s_next_pub X)
          (s_next_send_nonce Y) (s_send_nonce X) new"
    unfolding out_ahead_def by (elim exE conjE) (rule that)
  have "\<exists>old new. oX = old @ new \<and>
      inflight E (s_recv_shared Y) (s_remote_key_seq Y) (s_local_key_seq Y - 1) (s_send_pub X)
          (s_recv_nonce Y) hi old \<and>
      inflight E (s_send_shared X) (s_local_key_seq X) (s_remote_key_seq X) (s_next_pub X)
          (s_next_send_nonce Y) (s_send_nonce X) new"
  proof (cases old)
    case Nil
    then show ?thesis using o old new inflight_tl [of E _ _ _ _ _ _ x oX]
      by - (rule exI [of _ "[]"], rule exI [of _ oX], auto)
  next
    case (Cons y old')
    then show ?thesis using o old new inflight_tl [of E _ _ _ _ _ _ y old']
      by - (rule exI [of _ old'], rule exI [of _ new], auto)
  qed
  then have "out_ahead E X Y oX" unfolding out_ahead_def by blast
  then show ?thesis using assms by (simp add: lead_def)
qed

section \<open>Two ends and their channels\<close>

text \<open>
  Two sessions with a channel in each direction. An event is a call of \<open>do_send\<close> at one end, the
  arrival of the oldest message under way, or its loss. A run logs, for every arrival, what was
  sent and what the receiver got.
\<close>

record duplex =
  dx_end :: "bool \<Rightarrow> session_info"
  dx_out :: "bool \<Rightarrow> (bytes \<times> bytes) list"
  dx_drawn :: nat

datatype duplex_event = Send bool clock bytes | Recv bool clock | Lose bool

fun duplex_step :: "crypto_env \<Rightarrow> duplex_event \<Rightarrow> duplex \<Rightarrow> (bytes \<times> bytes option) list \<times> duplex" where
  "duplex_step E (Send p clk msg) d =
     (case do_send E clk (dx_drawn d) msg (dx_end d p) of
        ((Inr w, s), n) \<Rightarrow>
          ([], d\<lparr>dx_end := (dx_end d)(p := s), dx_out := (dx_out d)(p := dx_out d p @ [(w, msg)]),
                 dx_drawn := n\<rparr>)
      | ((Inl e, s), n) \<Rightarrow> ([], d\<lparr>dx_end := (dx_end d)(p := s), dx_drawn := n\<rparr>))"
| "duplex_step E (Recv p clk) d =
     (case dx_out d (\<not> p) of
        [] \<Rightarrow> ([], d)
      | (w, msg) # rest \<Rightarrow>
          (case receive E clk (dx_drawn d) w (dx_end d p) of
             (got, s, n) \<Rightarrow>
               ([(msg, got)], d\<lparr>dx_end := (dx_end d)(p := s), dx_out := (dx_out d)((\<not> p) := rest),
                                dx_drawn := n\<rparr>)))"
| "duplex_step E (Lose p) d = ([], d\<lparr>dx_out := (dx_out d)(p := tl (dx_out d p))\<rparr>)"

primrec duplex_run ::
    "crypto_env \<Rightarrow> duplex_event list \<Rightarrow> duplex \<Rightarrow> (bytes \<times> bytes option) list \<times> duplex" where
  "duplex_run E [] d = ([], d)"
| "duplex_run E (e # es) d =
     (let (log, d) = duplex_step E e d; (rest, d) = duplex_run E es d in (log @ rest, d))"

definition in_step :: "crypto_env \<Rightarrow> duplex \<Rightarrow> bool" where
  "in_step E d \<longleftrightarrow> (\<exists>p. lead E (dx_end d p) (dx_end d (\<not> p)) (dx_out d p) (dx_out d (\<not> p)))"

definition nonce_room :: "duplex \<Rightarrow> nat \<Rightarrow> bool" where
  "nonce_room d k \<longleftrightarrow> (\<forall>p. unat (s_send_nonce (dx_end d p)) + k < 2 ^ 64)"

lemma nonce_room_next:
  "nonce_room d (Suc k) \<Longrightarrow> s_send_nonce (dx_end d p) + 1 \<noteq> 0"
  "nonce_room d (Suc k) \<Longrightarrow> unat (s_send_nonce (dx_end d p) + 1) = unat (s_send_nonce (dx_end d p)) + 1"
proof -
  assume "nonce_room d (Suc k)"
  then have "unat (s_send_nonce (dx_end d p)) + unat (1 :: u64) < 2 ^ LENGTH(64)"
    by (simp add: nonce_room_def) (metis add_Suc_right add_lessD1 Suc_eq_plus1 add.assoc plus_1_eq_Suc)
  then have "unat (s_send_nonce (dx_end d p) + 1) = unat (s_send_nonce (dx_end d p)) + unat (1 :: u64)"
    by (simp only: unat_add_lem)
  then have "unat (s_send_nonce (dx_end d p) + 1) = unat (s_send_nonce (dx_end d p)) + 1" by simp
  then show "unat (s_send_nonce (dx_end d p) + 1) = unat (s_send_nonce (dx_end d p)) + 1"
    and "s_send_nonce (dx_end d p) + 1 \<noteq> 0" by auto
qed

lemma nonce_roomI:
  assumes "nonce_room d (Suc k)"
    and "\<And>q. s_send_nonce (dx_end d' q) = s_send_nonce (dx_end d q) \<or> s_send_nonce (dx_end d' q) = 0 \<or>
      s_send_nonce (dx_end d' q) = s_send_nonce (dx_end d q) + 1"
  shows "nonce_room d' k"
  unfolding nonce_room_def
proof
  fix q
  have "unat (s_send_nonce (dx_end d q)) + Suc k < 2 ^ 64" using assms(1) by (simp add: nonce_room_def)
  then show "unat (s_send_nonce (dx_end d' q)) + k < 2 ^ 64"
    using assms(2) [of q] nonce_room_next(2) [OF assms(1), of q] by auto
qed

lemma duplex_send:
  assumes "box_laws E" "in_step E d" "nonce_room d (Suc k)"
  shows "\<exists>d'. duplex_step E (Send p clk msg) d = ([], d') \<and> in_step E d' \<and> nonce_room d' k"
proof -
  obtain q where q: "lead E (dx_end d q) (dx_end d (\<not> q)) (dx_out d q) (dx_out d (\<not> q))"
    using assms(2) by (auto simp: in_step_def)
  note room = nonce_room_next(1) [OF assms(3)]
  show ?thesis
  proof (cases "p = q")
    case True
    obtain w X' where "do_send E clk (dx_drawn d) msg (dx_end d q) = ((Inr w, X'), dx_drawn d)"
      "lead E X' (dx_end d (\<not> q)) (dx_out d q @ [(w, msg)]) (dx_out d (\<not> q))"
      "s_send_nonce X' = s_send_nonce (dx_end d q) + 1"
      using lead_send_ahead [OF assms(1) q room] by blast
    then show ?thesis
      using True by (auto simp: in_step_def intro!: exI [of _ q] nonce_roomI [OF assms(3)])
  next
    case False
    then have p: "p = (\<not> q)" by auto
    obtain w Y' where "do_send E clk (dx_drawn d) msg (dx_end d (\<not> q)) = ((Inr w, Y'), dx_drawn d)"
      "lead E (dx_end d q) Y' (dx_out d q) (dx_out d (\<not> q) @ [(w, msg)])"
      "s_send_nonce Y' = s_send_nonce (dx_end d (\<not> q)) + 1"
      using lead_send_behind [OF assms(1) q room] by blast
    then show ?thesis
      using p by (auto simp: in_step_def intro!: exI [of _ q] nonce_roomI [OF assms(3)])
  qed
qed

lemma duplex_recv:
  assumes "box_laws E" "in_step E d" "nonce_room d (Suc k)"
  shows "\<exists>log d'. duplex_step E (Recv p clk) d = (log, d') \<and> in_step E d' \<and> nonce_room d' k \<and>
    (\<forall>(sent, got) \<in> set log. got = Some sent)"
proof (cases "dx_out d (\<not> p)")
  case Nil
  then show ?thesis using assms(2) nonce_roomI [OF assms(3), of d] by simp
next
  case (Cons x rest)
  obtain w msg where x: "x = (w, msg)" by (cases x)
  obtain q where q: "lead E (dx_end d q) (dx_end d (\<not> q)) (dx_out d q) (dx_out d (\<not> q))"
    using assms(2) by (auto simp: in_step_def)
  show ?thesis
  proof (cases "p = q")
    case True
    then have q_out: "dx_out d (\<not> q) = (w, msg) # rest" using Cons x by simp
    obtain X' where "receive E clk (dx_drawn d) w (dx_end d q) = (Some msg, X', dx_drawn d)"
      "lead E X' (dx_end d (\<not> q)) (dx_out d q) rest" "s_send_nonce X' = s_send_nonce (dx_end d q)"
      using lead_recv_ahead [OF assms(1) q [unfolded q_out]] by blast
    then show ?thesis
      using True Cons x by (auto simp: in_step_def intro!: exI [of _ q] nonce_roomI [OF assms(3)])
  next
    case False
    then have p: "p = (\<not> q)" by auto
    have q_out: "dx_out d q = (w, msg) # rest" using Cons x p by simp
    obtain Y' n where "receive E clk (dx_drawn d) w (dx_end d (\<not> q)) = (Some msg, Y', n)"
      and "lead E (dx_end d q) Y' rest (dx_out d (\<not> q)) \<and> s_send_nonce Y' = s_send_nonce (dx_end d (\<not> q)) \<or>
        lead E Y' (dx_end d q) (dx_out d (\<not> q)) rest \<and> s_send_nonce Y' = 0"
      using lead_recv_behind [OF assms(1) q [unfolded q_out]] by blast
    then show ?thesis
      using p Cons x
      by (cases q) (auto simp: in_step_def ex_bool_eq intro!: nonce_roomI [OF assms(3)])
  qed
qed

lemma duplex_lose:
  assumes "in_step E d" "nonce_room d (Suc k)"
  shows "\<exists>d'. duplex_step E (Lose p) d = ([], d') \<and> in_step E d' \<and> nonce_room d' k"
proof -
  obtain q where q: "lead E (dx_end d q) (dx_end d (\<not> q)) (dx_out d q) (dx_out d (\<not> q))"
    using assms(1) by (auto simp: in_step_def)
  have "lead E (dx_end d q) (dx_end d (\<not> q)) (tl (dx_out d q)) (dx_out d (\<not> q))"
    using q lead_lose_ahead [of E _ _ "hd (dx_out d q)"] by (cases "dx_out d q") auto
  moreover have "lead E (dx_end d q) (dx_end d (\<not> q)) (dx_out d q) (tl (dx_out d (\<not> q)))"
    using q lead_lose_behind [of E _ _ _ "hd (dx_out d (\<not> q))"] by (cases "dx_out d (\<not> q)") auto
  ultimately show ?thesis
    by (cases "p = q") (auto simp: in_step_def intro!: exI [of _ q] nonce_roomI [OF assms(2)])
qed

lemma duplex_step_ok:
  assumes "box_laws E" "in_step E d" "nonce_room d (Suc k)"
  shows "\<exists>log d'. duplex_step E e d = (log, d') \<and> in_step E d' \<and> nonce_room d' k \<and>
    (\<forall>(sent, got) \<in> set log. got = Some sent)"
proof (cases e)
  case (Send p clk msg)
  then show ?thesis using duplex_send [OF assms] by fastforce
next
  case (Recv p clk)
  then show ?thesis using duplex_recv [OF assms] by blast
next
  case (Lose p)
  then show ?thesis using duplex_lose [OF assms(2,3)] by fastforce
qed

lemma duplex_run_ok:
  "box_laws E \<Longrightarrow> in_step E d \<Longrightarrow> nonce_room d (length es) \<Longrightarrow> duplex_run E es d = (log, d') \<Longrightarrow>
   in_step E d' \<and> (\<forall>(sent, got) \<in> set log. got = Some sent)"
proof (induction es arbitrary: d log)
  case Nil
  then show ?case by simp
next
  case (Cons e es)
  obtain log1 d1 where step: "duplex_step E e d = (log1, d1)" "in_step E d1" "nonce_room d1 (length es)"
    and ok: "\<forall>(sent, got) \<in> set log1. got = Some sent"
    using duplex_step_ok [of E d "length es" e] Cons.prems(1-3) by auto
  obtain log2 d2 where run: "duplex_run E es d1 = (log2, d2)" by (cases "duplex_run E es d1")
  with step Cons.prems(4) have eq: "log = log1 @ log2" "d' = d2" by simp_all
  with Cons.IH [OF Cons.prems(1) step(2,3)] run ok show ?case by auto
qed

text \<open>C7. Two sessions in step stay in step. Over channels that keep the order of messages and may
  lose any of them, with sends, arrivals and losses in any order and at any times, every message
  that arrives is accepted and decrypted to the bytes that were sent, through every rotation of
  the keys, as long as no end sends \<open>2 ^ 64\<close> messages.\<close>

theorem ratchet_delivers:
  assumes "box_laws E" "in_step E d" "nonce_room d (length es)" "duplex_run E es d = (log, d')"
  shows "in_step E d' \<and> (\<forall>(sent, got) \<in> set log. got = Some sent)"
  using duplex_run_ok [OF assms] .

definition two_ends :: duplex where
  "two_ends =
     (let s = fst (session_info_new mock_env \<lparr>ck_now = 0, ck_unix = 1\<rparr> 0 [] [] 1);
          pair = (\<lambda>r t u c n s. fix_shared mock_env 0 0
            (s\<lparr>s_recv_pub := mock_key r, s_recv_priv := mock_key r, s_send_pub := mock_key t,
               s_send_priv := mock_key t, s_next_pub := mock_key u, s_next_priv := mock_key u,
               s_current := mock_key c, s_next := mock_key n\<rparr>))
      in \<lparr>dx_end = (\<lambda>p. if p then (pair 3 4 5 7 8 s)\<lparr>s_local_key_seq := 1\<rparr> else pair 6 7 8 3 4 s),
          dx_out = (\<lambda>_. []), dx_drawn = 9\<rparr>)"

lemma two_ends_in_step: "in_step mock_env two_ends"
  unfolding in_step_def
  by (rule exI [of _ True])
    (simp add: two_ends_def lead_def session_wf_def own_pair_def out_ahead_def out_behind_def
      session_info_new_def fix_shared_def new_box_keys_def Let_def, blast)

theorem ratchet_delivers_witness:
  "list_all (\<lambda>(sent, got). got = Some sent) (fst (duplex_run mock_env
      [Send True \<lparr>ck_now = 1, ck_unix = 1\<rparr> [7], Send True \<lparr>ck_now = 2, ck_unix = 1\<rparr> [8],
       Send False \<lparr>ck_now = 3, ck_unix = 1\<rparr> [9], Recv False \<lparr>ck_now = 4, ck_unix = 1\<rparr>,
       Send False \<lparr>ck_now = 5, ck_unix = 1\<rparr> [10], Lose True, Recv True \<lparr>ck_now = 6, ck_unix = 1\<rparr>,
       Recv True \<lparr>ck_now = 7, ck_unix = 1\<rparr>] two_ends))"
proof -
  let ?es = "[Send True \<lparr>ck_now = 1, ck_unix = 1\<rparr> [7], Send True \<lparr>ck_now = 2, ck_unix = 1\<rparr> [8],
       Send False \<lparr>ck_now = 3, ck_unix = 1\<rparr> [9], Recv False \<lparr>ck_now = 4, ck_unix = 1\<rparr>,
       Send False \<lparr>ck_now = 5, ck_unix = 1\<rparr> [10], Lose True, Recv True \<lparr>ck_now = 6, ck_unix = 1\<rparr>,
       Recv True \<lparr>ck_now = 7, ck_unix = 1\<rparr>] :: duplex_event list"
  have "nonce_room two_ends (length ?es)"
    by (simp add: nonce_room_def two_ends_def session_info_new_def fix_shared_def new_box_keys_def Let_def)
  from ratchet_delivers [OF mock_box_laws two_ends_in_step this prod.collapse [symmetric]]
  show ?thesis unfolding list_all_iff by blast
qed

end
