(* ===== verification/Session_Handshake.thy ===== *)
theory Session_Handshake
  imports Session_Ratchet
begin

text \<open>
  The handshake between two session managers. Which handshake messages are accepted, what an
  exchange of Init and Ack leads to when neither side knew the other, and what happens when both
  sides start at the same time.
\<close>

section \<open>Which handshake messages are accepted\<close>

lemma be_bytes_8_from_be_bytes: "length bs = 8 \<Longrightarrow> be_bytes 8 (from_be_bytes bs :: u64) = bs"
  using be_bytes_from_be_bytes [where 'a = 64, of bs] by simp

lemma session_init_payload:
  assumes "length payload = 144"
    and "i = \<lparr>si_current = take 32 (drop 64 payload), si_next = take 32 (drop 96 payload),
              si_key_seq = from_be_bytes (take 8 (drop 128 payload)),
              si_seq = from_be_bytes (take 8 (drop 136 payload))\<rparr>"
  shows "payload = take 64 payload @ session_init_body i"
proof -
  have "be_bytes 8 (si_key_seq i) = take 8 (drop 128 payload)" "be_bytes 8 (si_seq i) = take 8 (drop 136 payload)"
    using assms by (simp_all add: be_bytes_8_from_be_bytes)
  then have body: "session_init_body i = take 32 (drop 64 payload) @ take 32 (drop 96 payload) @
      take 8 (drop 128 payload) @ take 8 (drop 136 payload)"
    using assms(2) by (simp add: session_init_body_def)
  have "drop 64 payload = take 32 (drop 64 payload) @ take 32 (drop 96 payload) @
      take 8 (drop 128 payload) @ take 8 (drop 136 payload)"
    using assms(1) append_take_drop_id [of 32 "drop 64 payload"] append_take_drop_id [of 32 "drop 96 payload"]
      append_take_drop_id [of 8 "drop 128 payload"] by simp
  then show ?thesis using body append_take_drop_id [of 64 payload] by simp
qed

text \<open>
  \<open>genuine_init E data priv peer pre i\<close>: the message has the layout of a handshake message, its
  ciphertext opens with our private key to a signature and the fields of \<open>i\<close>, and the signature is
  the peer's over the preimage of the group password, the ephemeral key and these fields.
\<close>

definition genuine_init ::
    "crypto_env \<Rightarrow> bytes \<Rightarrow> curve_private_key \<Rightarrow> public_key \<Rightarrow> bytes \<Rightarrow> session_init \<Rightarrow> bool" where
  "genuine_init E data priv peer pre i \<longleftrightarrow>
     (\<exists>ty eph c sig. data = ty # eph @ c \<and> length eph = 32 \<and> length c = 160 \<and>
        box_open E c 0 eph priv = Some (sig @ session_init_body i) \<and>
        length sig = 64 \<and> length (si_current i) = 32 \<and> length (si_next i) = 32 \<and>
        crypto_verify E peer (session_init_signed pre (eph @ session_init_body i)) sig)"

lemma session_init_decrypt_genuine:
  assumes "genuine_init E data priv peer pre i"
  shows "session_init_decrypt E data priv peer pre = Inr i"
proof -
  obtain ty eph c sig where d: "data = ty # eph @ c" "length eph = 32" "length c = 160"
    and opn: "box_open E c 0 eph priv = Some (sig @ session_init_body i)"
    and len: "length sig = 64" "length (si_current i) = 32" "length (si_next i) = 32"
    and ver: "crypto_verify E peer (session_init_signed pre (eph @ session_init_body i)) sig"
    using assms unfolding genuine_init_def by blast
  then show ?thesis
    by (simp add: session_init_decrypt_def Let_def SESSION_INIT_SIZE_def BOX_OVERHEAD_def
        length_session_init_body session_init_fields [OF len(2,3)])
qed

lemma session_init_split:
  assumes "length data = SESSION_INIT_SIZE"
  shows "data = hd data # take 32 (drop 1 data) @ drop 33 data"
    and "length (take 32 (drop 1 data)) = 32" "length (drop 33 data) = 160"
proof -
  obtain x xs where "data = x # xs" using assms by (cases data) (auto simp: SESSION_INIT_SIZE_def)
  then show "data = hd data # take 32 (drop 1 data) @ drop 33 data" by simp
  show "length (take 32 (drop 1 data)) = 32" "length (drop 33 data) = 160"
    using assms by (simp_all add: SESSION_INIT_SIZE_def BOX_OVERHEAD_def)
qed

lemma session_init_decrypt_accepts:
  assumes "session_init_decrypt E data priv peer pre = Inr i"
  shows "genuine_init E data priv peer pre i"
proof -
  let ?eph = "take 32 (drop 1 data)"
  obtain payload where len: "length data = SESSION_INIT_SIZE"
    and opn: "box_open E (drop 33 data) 0 ?eph priv = Some payload" and pl: "length payload = 144"
    and i: "i = \<lparr>si_current = take 32 (drop 64 payload), si_next = take 32 (drop 96 payload),
              si_key_seq = from_be_bytes (take 8 (drop 128 payload)),
              si_seq = from_be_bytes (take 8 (drop 136 payload))\<rparr>"
    and ver: "crypto_verify E peer (session_init_signed pre (?eph @ session_init_body i)) (take 64 payload)"
    using assms by (auto simp: session_init_decrypt_def Let_def split: if_splits option.splits)
  note split = session_init_split [OF len]
  have "box_open E (drop 33 data) 0 ?eph priv = Some (take 64 payload @ session_init_body i)"
    using opn session_init_payload [OF pl i] by simp
  moreover have "length (take 64 payload) = 64" "length (si_current i) = 32" "length (si_next i) = 32"
    using pl i by simp_all
  ultimately show ?thesis
    unfolding genuine_init_def using split ver by blast
qed

lemma session_init_decrypt_error:
  "session_init_decrypt E data priv peer pre = Inl e \<Longrightarrow>
   e = BadMessage \<and> length data = SESSION_INIT_SIZE \<and>
     (\<exists>payload. box_open E (drop 33 data) 0 (take 32 (drop 1 data)) priv = Some payload \<and> length payload = 144)
   \<or> e = Decode \<and> \<not> (length data = SESSION_INIT_SIZE \<and>
     (\<exists>payload. box_open E (drop 33 data) 0 (take 32 (drop 1 data)) priv = Some payload \<and> length payload = 144))"
  by (auto simp: session_init_decrypt_def Let_def split: if_splits option.splits)

text \<open>C30. A handshake message is accepted exactly when it is genuine, and then its fields are read
  back exactly. A message of the wrong size or that does not open is a \<open>Decode\<close> error, a message
  that opens but is not signed by the peer under the same group password is a \<open>BadMessage\<close>; with
  either error the session manager does nothing and its state is unchanged.\<close>

theorem init_accept_exact:
  "(session_init_decrypt E data priv peer pre = Inr i \<longleftrightarrow> genuine_init E data priv peer pre i) \<and>
   (session_init_decrypt E data priv peer pre = Inl e \<longrightarrow>
      (e = BadMessage \<or> e = Decode) \<and>
      (e = BadMessage \<longleftrightarrow> length data = SESSION_INIT_SIZE \<and>
        (\<exists>payload. box_open E (drop 33 data) 0 (take 32 (drop 1 data)) priv = Some payload \<and>
                   length payload = 144))) \<and>
   (pre = preimage (sm_group_auth m) \<and> hd data \<in> {SESSION_TYPE_INIT, SESSION_TYPE_ACK} \<and>
      (\<forall>i. \<not> genuine_init E data priv peer pre i) \<longrightarrow>
    sm_handle_data E clk m peer data priv ed = ([], m))"
proof (intro conjI impI)
  show iff: "session_init_decrypt E data priv peer pre = Inr i \<longleftrightarrow> genuine_init E data priv peer pre i" for i
    using session_init_decrypt_genuine session_init_decrypt_accepts by blast
  assume "pre = preimage (sm_group_auth m) \<and> hd data \<in> {SESSION_TYPE_INIT, SESSION_TYPE_ACK} \<and>
      (\<forall>i. \<not> genuine_init E data priv peer pre i)"
  then show "sm_handle_data E clk m peer data priv ed = ([], m)"
    using iff by (auto simp: sm_handle_data_def SESSION_TYPE_INIT_def SESSION_TYPE_ACK_def
        SESSION_TYPE_DUMMY_def split: sum.splits)
qed (use session_init_decrypt_error [of E data priv peer pre e] in auto)

definition sample_init :: session_init where
  "sample_init = \<lparr>si_current = mock_key 2, si_next = mock_key 3, si_key_seq = 0, si_seq = 5\<rparr>"

definition sample_data :: bytes where
  "sample_data = SESSION_TYPE_INIT # mock_key 0 @
     mock_pad 64 (mock_key 0 @ session_init_body sample_init) @ session_init_body sample_init @ replicate 16 0"

lemma sample_genuine: "genuine_init mock_env sample_data (mock_key 9) (mock_key 1) [] sample_init"
  unfolding genuine_init_def
  by (rule exI [of _ SESSION_TYPE_INIT], rule exI [of _ "mock_key 0"],
      rule exI [of _ "mock_pad 64 (mock_key 0 @ session_init_body sample_init) @
        session_init_body sample_init @ replicate 16 0"],
      rule exI [of _ "mock_pad 64 (mock_key 0 @ session_init_body sample_init)"])
    (simp add: sample_data_def box_open_def session_init_signed_def crypto_verify_def is_public_key_valid_def
      SIGNATURE_SIZE_def length_session_init_body, simp add: sample_init_def)

lemma sample_wrong_password:
  "session_init_decrypt mock_env sample_data (mock_key 9) (mock_key 1) (mock_key 5) = Inl BadMessage"
  by code_simp

theorem init_accept_exact_witness:
  "session_init_decrypt mock_env sample_data (mock_key 9) (mock_key 1) [] = Inr sample_init \<and>
   sm_handle_data mock_env \<lparr>ck_now = 0, ck_unix = 5\<rparr>
     (session_manager_new \<lparr>ga_secret = Some (mock_key 5)\<rparr> 60 0) (mock_key 1) sample_data (mock_key 9) []
   = ([], session_manager_new \<lparr>ga_secret = Some (mock_key 5)\<rparr> 60 0)"
proof
  show "session_init_decrypt mock_env sample_data (mock_key 9) (mock_key 1) [] = Inr sample_init"
    using init_accept_exact [THEN conjunct1] sample_genuine by blast
  have "\<not> genuine_init mock_env sample_data (mock_key 9) (mock_key 1) (mock_key 5) i" for i
    using init_accept_exact [THEN conjunct1] sample_wrong_password by (metis sum.simps(4))
  then show "sm_handle_data mock_env \<lparr>ck_now = 0, ck_unix = 5\<rparr>
     (session_manager_new \<lparr>ga_secret = Some (mock_key 5)\<rparr> 60 0) (mock_key 1) sample_data (mock_key 9) []
   = ([], session_manager_new \<lparr>ga_secret = Some (mock_key 5)\<rparr> 60 0)"
    using init_accept_exact [where m = "session_manager_new \<lparr>ga_secret = Some (mock_key 5)\<rparr> 60 0"
        and E = mock_env and data = sample_data and priv = "mock_key 9" and peer = "mock_key 1" and pre = "mock_key 5"]
    by (simp add: session_manager_new_def preimage_def sample_data_def)
qed

section \<open>A handshake between two nodes that do not know each other\<close>

lemma send_handshake_ok:
  assumes "box_laws E" "sign_laws E" "length (si_current i) = 32" "length (si_next i) = 32"
  shows "\<exists>data. send_handshake E m i sk (ce_verifying_key E to_sk) ty =
      ([SendToInner (ce_verifying_key E to_sk) data], m\<lparr>sm_drawn := sm_drawn m + 1\<rparr>) \<and>
    hd data = ty \<and> data \<noteq> [] \<and>
    session_init_decrypt E data (ed25519_private_to_curve25519 E to_sk) (ce_verifying_key E sk)
      (preimage (sm_group_auth m)) = Inr i"
  using session_init_round_trip [OF assms, of "sm_drawn m" sk to_sk ty "preimage (sm_group_auth m)"]
  by (auto simp: send_handshake_def)

lemma handle_data_init:
  "hd data = SESSION_TYPE_INIT \<Longrightarrow> data \<noteq> [] \<Longrightarrow>
   session_init_decrypt E data priv peer (preimage (sm_group_auth m)) = Inr i \<Longrightarrow>
   sm_handle_data E clk m peer data priv ed = handle_init E clk m peer i ed"
  by (simp add: sm_handle_data_def SESSION_TYPE_INIT_def SESSION_TYPE_DUMMY_def)

lemma handle_data_ack:
  "hd data = SESSION_TYPE_ACK \<Longrightarrow> data \<noteq> [] \<Longrightarrow>
   session_init_decrypt E data priv peer (preimage (sm_group_auth m)) = Inr i \<Longrightarrow>
   sm_handle_data E clk m peer data priv ed = handle_ack E clk m peer i ed"
  by (simp add: sm_handle_data_def SESSION_TYPE_INIT_def SESSION_TYPE_ACK_def SESSION_TYPE_DUMMY_def)

lemma handle_data_traffic:
  "hd data = SESSION_TYPE_TRAFFIC \<Longrightarrow> data \<noteq> [] \<Longrightarrow>
   sm_handle_data E clk m peer data priv ed = sm_handle_traffic E clk m peer data ed"
  by (simp add: sm_handle_data_def SESSION_TYPE_INIT_def SESSION_TYPE_ACK_def SESSION_TYPE_DUMMY_def
      SESSION_TYPE_TRAFFIC_def)

abbreviation pub_key :: "crypto_env \<Rightarrow> nat \<Rightarrow> curve_public_key" where
  "pub_key E n \<equiv> fst (ce_box_keys E n)"

abbreviation priv_key :: "crypto_env \<Rightarrow> nat \<Rightarrow> curve_private_key" where
  "priv_key E n \<equiv> snd (ce_box_keys E n)"

lemma own_pair_key [simp]: "own_pair E (pub_key E n) (priv_key E n)"
  by (rule own_pair_drawn [of E n]) simp

text \<open>The first write to an unknown node buffers the data and sends an Init.\<close>

lemma write_to_unknown:
  assumes "box_laws E" "sign_laws E" "hm_get (sm_sessions m) (ce_verifying_key E to_sk) = None"
    "hm_get (sm_buffers m) (ce_verifying_key E to_sk) = None"
  shows "\<exists>data m'. sm_write_to E clk m (ce_verifying_key E to_sk) msg sk =
      ([SendToInner (ce_verifying_key E to_sk) data], m') \<and>
    hd data = SESSION_TYPE_INIT \<and> data \<noteq> [] \<and>
    session_init_decrypt E data (ed25519_private_to_curve25519 E to_sk) (ce_verifying_key E sk)
      (preimage (sm_group_auth m)) =
      Inr (session_init_new clk (pub_key E (sm_drawn m)) (pub_key E (sm_drawn m + 1)) 0) \<and>
    sm_sessions m' = sm_sessions m \<and> sm_group_auth m' = sm_group_auth m \<and>
    hm_get (sm_buffers m') (ce_verifying_key E to_sk) =
      Some \<lparr>sb_data = Some msg,
            sb_init = session_init_new clk (pub_key E (sm_drawn m)) (pub_key E (sm_drawn m + 1)) 0,
            sb_current_priv = priv_key E (sm_drawn m), sb_next_priv = priv_key E (sm_drawn m + 1),
            sb_created = ck_now clk\<rparr>"
proof -
  let ?i = "session_init_new clk (pub_key E (sm_drawn m)) (pub_key E (sm_drawn m + 1)) 0"
  let ?b = "\<lparr>sb_data = Some msg, sb_init = ?i, sb_current_priv = priv_key E (sm_drawn m),
    sb_next_priv = priv_key E (sm_drawn m + 1), sb_created = ck_now clk\<rparr>"
  let ?m = "m\<lparr>sm_buffers := hm_insert (ce_verifying_key E to_sk) ?b (sm_buffers m), sm_drawn := sm_drawn m + 2\<rparr>"
  have len: "length (si_current ?i) = 32" "length (si_next ?i) = 32"
    using box_laws_length [OF assms(1)] by (simp_all add: session_init_new_def)
  have "sm_write_to E clk m (ce_verifying_key E to_sk) msg sk =
      send_handshake E ?m ?i sk (ce_verifying_key E to_sk) SESSION_TYPE_INIT"
    using assms(3,4)
    by (simp add: sm_write_to_def buffer_and_init_def new_box_keys_def Let_def split: prod.splits)
  then show ?thesis
    using send_handshake_ok [OF assms(1,2) len, of ?m sk to_sk SESSION_TYPE_INIT] by auto
qed

text \<open>The sessions the two sides create: \<open>responder\<close> from an Init, \<open>initiator\<close> from an Ack that
  answers a buffered Init.\<close>

definition responder :: "crypto_env \<Rightarrow> clock \<Rightarrow> nat \<Rightarrow> session_init \<Rightarrow> session_info" where
  "responder E clk n i = fst (session_info_new E clk n (si_current i) (si_next i) (si_seq i))"

definition initiator :: "crypto_env \<Rightarrow> clock \<Rightarrow> nat \<Rightarrow> session_buffer \<Rightarrow> session_init \<Rightarrow> session_info" where
  "initiator E clk n b ack =
     fst (handle_update E clk (n + 3) ack (fix_shared E 0 0
       ((fst (session_info_new E clk n (si_current ack) (si_next ack) (si_seq ack)))
         \<lparr>s_send_pub := si_current (sb_init b), s_send_priv := sb_current_priv b,
          s_next_pub := si_next (sb_init b), s_next_priv := sb_next_priv b\<rparr>)))"

lemma responder_sel:
  "s_seq (responder E clk n i) = si_seq i - 1" "s_remote_key_seq (responder E clk n i) = 0"
  "s_local_key_seq (responder E clk n i) = 0" "s_current (responder E clk n i) = si_current i"
  "s_next (responder E clk n i) = si_next i" "s_send_pub (responder E clk n i) = pub_key E (n + 1)"
  "s_next_pub (responder E clk n i) = pub_key E (n + 2)" "s_send_nonce (responder E clk n i) = 0"
  "s_recv_nonce (responder E clk n i) = 0" "s_next_send_nonce (responder E clk n i) = 0"
  by (simp_all add: responder_def session_info_new_def new_box_keys_def Let_def split: prod.splits)

lemma responder_wf: "session_wf E (responder E clk n i)"
  by (simp add: responder_def session_info_new_wf)

lemma initiator_sel:
  "s_remote_key_seq (initiator E clk n b ack) = si_key_seq ack"
  "s_local_key_seq (initiator E clk n b ack) = 1" "s_current (initiator E clk n b ack) = si_current ack"
  "s_next (initiator E clk n b ack) = si_next ack"
  "s_recv_pub (initiator E clk n b ack) = si_current (sb_init b)"
  "s_send_pub (initiator E clk n b ack) = si_next (sb_init b)"
  "s_next_pub (initiator E clk n b ack) = pub_key E (n + 3)" "s_send_nonce (initiator E clk n b ack) = 0"
  "s_recv_nonce (initiator E clk n b ack) = 0" "s_next_send_nonce (initiator E clk n b ack) = 0"
  by (simp_all add: initiator_def session_info_new_def session_step_defs split: prod.splits)

lemma initiator_wf:
  assumes "own_pair E (si_current (sb_init b)) (sb_current_priv b)" "own_pair E (si_next (sb_init b)) (sb_next_priv b)"
  shows "session_wf E (initiator E clk n b ack)"
  using assms
  by (auto simp: initiator_def session_info_new_def session_step_defs session_wf_def
      intro: own_pair_drawn split: prod.splits)

lemma initiator_leads:
  assumes i: "sb_init b = i"
    and "own_pair E (si_current i) (sb_current_priv b)" "own_pair E (si_next i) (sb_next_priv b)"
    "si_current ack = s_send_pub (responder E clkB nB i)"
    "si_next ack = s_next_pub (responder E clkB nB i)" "si_key_seq ack = 0"
  shows "lead E (initiator E clkC nA b ack) (responder E clkB nB i) [] []"
proof -
  have "out_ahead E (initiator E clkC nA b ack) (responder E clkB nB i) []"
    unfolding out_ahead_def by (auto simp: responder_sel initiator_sel)
  then show ?thesis
    using assms initiator_wf [of E b] responder_wf
    by (simp add: lead_def responder_sel initiator_sel out_behind_def)
qed

lemma handle_init_unknown:
  assumes "box_laws E" "sign_laws E" "hm_get (sm_sessions m) (ce_verifying_key E from_sk) = None"
    "hm_get (sm_buffers m) (ce_verifying_key E from_sk) = None"
    and s: "s = responder E clk (sm_drawn m) i"
  shows "\<exists>data m'. handle_init E clk m (ce_verifying_key E from_sk) i sk =
      ([SendToInner (ce_verifying_key E from_sk) data], m') \<and>
    hd data = SESSION_TYPE_ACK \<and> data \<noteq> [] \<and>
    session_init_decrypt E data (ed25519_private_to_curve25519 E from_sk) (ce_verifying_key E sk)
      (preimage (sm_group_auth m)) = Inr (session_init_new clk (s_send_pub s) (s_next_pub s) 0) \<and>
    sm_group_auth m' = sm_group_auth m \<and>
    hm_get (sm_sessions m') (ce_verifying_key E from_sk) = Some s"
proof -
  let ?i = "session_init_new clk (s_send_pub s) (s_next_pub s) 0"
  let ?m = "insert_session (ce_verifying_key E from_sk) s (sm_drawn m + 3) (m\<lparr>sm_drawn := sm_drawn m + 3\<rparr>)"
  have len: "length (si_current ?i) = 32" "length (si_next ?i) = 32"
    using box_laws_length [OF assms(1)] by (simp_all add: session_init_new_def s responder_sel)
  have new: "session_info_new E clk (sm_drawn m) (si_current i) (si_next i) (si_seq i) = (s, sm_drawn m + 3)"
    by (simp add: s responder_def session_info_new_def new_box_keys_def Let_def split: prod.splits)
  have "s_local_key_seq s = 0" by (simp add: s responder_sel)
  then have "handle_init E clk m (ce_verifying_key E from_sk) i sk =
      send_handshake E ?m ?i sk (ce_verifying_key E from_sk) SESSION_TYPE_ACK"
    using assms(3,4) new
    by (simp add: handle_init_def create_session_from_init_def send_buffered_def Let_def
        split: prod.splits)
  then show ?thesis
    using send_handshake_ok [OF assms(1,2) len, of ?m sk from_sk SESSION_TYPE_ACK]
    by (auto simp: insert_session_def)
qed

lemma handle_ack_buffered:
  assumes "box_laws E" "sign_laws E" "hm_get (sm_sessions m) (ce_verifying_key E from_sk) = None"
    "hm_get (sm_buffers m) (ce_verifying_key E from_sk) = Some b" "sb_data b = Some msg"
    "si_seq ack - 1 < si_seq ack" "length (si_next (sb_init b)) = 32"
    and s: "s = initiator E clk (sm_drawn m) b ack"
    and send: "\<And>n. do_send E clk n msg s = ((Inr w, s'), n)"
  shows "\<exists>data m'. handle_ack E clk m (ce_verifying_key E from_sk) ack sk =
      ([SendToInner (ce_verifying_key E from_sk) data, SendToInner (ce_verifying_key E from_sk) w], m') \<and>
    hd data = SESSION_TYPE_ACK \<and> data \<noteq> [] \<and>
    session_init_decrypt E data (ed25519_private_to_curve25519 E from_sk) (ce_verifying_key E sk)
      (preimage (sm_group_auth m)) = Inr (session_init_new clk (s_send_pub s) (s_next_pub s) 1) \<and>
    hm_get (sm_sessions m') (ce_verifying_key E from_sk) = Some s'"
proof -
  let ?k = "ce_verifying_key E from_sk"
  let ?i = "session_init_new clk (s_send_pub s) (s_next_pub s) 1"
  let ?m = "m\<lparr>sm_buffers := hm_remove ?k (sm_buffers m), sm_drawn := sm_drawn m + 4\<rparr>"
  let ?s0 = "fst (session_info_new E clk (sm_drawn m) (si_current ack) (si_next ack) (si_seq ack))"
  let ?s1 = "fix_shared E 0 0 (?s0\<lparr>s_send_pub := si_current (sb_init b), s_send_priv := sb_current_priv b,
          s_next_pub := si_next (sb_init b), s_next_priv := sb_next_priv b\<rparr>)"
  have len: "length (si_current ?i) = 32" "length (si_next ?i) = 32"
    using box_laws_length [OF assms(1)] assms(7) by (simp_all add: session_init_new_def s initiator_sel)
  have new: "snd (session_info_new E clk (sm_drawn m) (si_current ack) (si_next ack) (si_seq ack)) = sm_drawn m + 3"
    by (simp add: session_info_new_def new_box_keys_def Let_def split: prod.splits)
  have upd: "handle_update E clk (sm_drawn m + 3) ack ?s1 = (s, sm_drawn m + 4)"
    by (simp add: s initiator_def handle_update_def ratchet_local_def new_box_keys_def Let_def split: prod.splits)
  have seq: "s_seq ?s1 = si_seq ack - 1"
    by (simp add: fix_shared_def session_info_new_def new_box_keys_def Let_def split: prod.splits)
  have loc: "s_local_key_seq s = 1" by (simp add: s initiator_sel)
  obtain data where hs: "send_handshake E ?m ?i sk ?k SESSION_TYPE_ACK =
      ([SendToInner ?k data], ?m\<lparr>sm_drawn := sm_drawn ?m + 1\<rparr>)" "hd data = SESSION_TYPE_ACK" "data \<noteq> []"
    "session_init_decrypt E data (ed25519_private_to_curve25519 E from_sk) (ce_verifying_key E sk)
      (preimage (sm_group_auth m)) = Inr ?i"
    using send_handshake_ok [OF assms(1,2) len, of ?m sk from_sk SESSION_TYPE_ACK] by auto
  have "create_session_from_init E clk m ?k ack = (Some msg, ?s1,
      m\<lparr>sm_buffers := hm_remove ?k (sm_buffers m), sm_drawn := sm_drawn m + 3\<rparr>)"
    using assms(4,5) new by (simp add: create_session_from_init_def case_prod_unfold)
  then have "handle_ack E clk m ?k ack sk =
      ([SendToInner ?k data, SendToInner ?k w],
       insert_session ?k s' (5 + sm_drawn m) (?m\<lparr>sm_drawn := 5 + sm_drawn m\<rparr>))"
    using assms(3,6) upd seq hs(1) send loc
    by (simp add: handle_ack_def send_buffered_def Let_def)
  then show ?thesis using hs by (auto simp: insert_session_def)
qed

text \<open>An Ack with the keys of the session that is ahead puts the other one ahead.\<close>

lemma lead_update:
  assumes "lead E X Y oX []"
    and "inflight E (s_send_shared X) (s_local_key_seq X) (s_remote_key_seq X) (s_next_pub X)
          0 (s_send_nonce X) oX"
    and "si_current i = s_send_pub X" "si_next i = s_next_pub X" "si_key_seq i = s_local_key_seq X"
  shows "lead E (fst (handle_update E clk n i Y)) X [] oX"
proof -
  let ?Y = "fst (handle_update E clk n i Y)"
  have sel: "s_local_key_seq ?Y = s_local_key_seq Y + 1" "s_remote_key_seq ?Y = si_key_seq i"
    "s_current ?Y = si_current i" "s_next ?Y = si_next i" "s_recv_pub ?Y = s_send_pub Y"
    "s_send_pub ?Y = s_next_pub Y" "s_send_nonce ?Y = s_send_nonce Y" "s_recv_nonce ?Y = 0"
    "s_next_send_nonce ?Y = 0"
    by (simp_all add: session_step_defs split: prod.splits)
  have "out_ahead E ?Y X []"
    unfolding out_ahead_def using assms(1) by (auto simp: lead_def)
  moreover have "out_behind E ?Y X oX" using assms(2) by (simp add: out_behind_def sel)
  moreover have "session_wf E ?Y" using assms(1) handle_update_wf by (simp add: lead_def)
  ultimately show ?thesis using assms by (simp add: lead_def sel)
qed

lemma deliver_behind:
  assumes "box_laws E" "lead E X Y [(w, msg)] []" "hm_get (sm_sessions m) peer = Some Y"
    "msg \<noteq> []" "msg \<noteq> KEEPALIVE_ACK" "msg \<noteq> KEEPALIVE_PROBE"
    "hd w = SESSION_TYPE_TRAFFIC" "w \<noteq> []"
  shows "\<exists>m'. sm_handle_data E clk m peer w priv ed = ([Deliver peer msg], m')"
proof -
  obtain Y' n where "receive E clk (sm_drawn m) w Y = (Some msg, Y', n)"
    using lead_recv_behind [OF assms(1,2)] by blast
  from sm_handle_traffic_receive [OF assms(3) this assms(4-6)] show ?thesis
    using handle_data_traffic [OF assms(7,8)] by simp
qed

lemma deliver_ahead:
  assumes "box_laws E" "lead E X Y [] [(w, msg)]" "hm_get (sm_sessions m) peer = Some X"
    "msg \<noteq> []" "msg \<noteq> KEEPALIVE_ACK" "msg \<noteq> KEEPALIVE_PROBE"
    "hd w = SESSION_TYPE_TRAFFIC" "w \<noteq> []"
  shows "\<exists>m'. sm_handle_data E clk m peer w priv ed = ([Deliver peer msg], m')"
proof -
  obtain X' where "receive E clk (sm_drawn m) w X = (Some msg, X', sm_drawn m)"
    using lead_recv_ahead [OF assms(1,2)] by blast
  from sm_handle_traffic_receive [OF assms(3) this assms(4-6)] show ?thesis
    using handle_data_traffic [OF assms(7,8)] by simp
qed

text \<open>The first message of a new session that is ahead.\<close>

lemma first_send:
  assumes "box_laws E" "lead E s t [] []" "s_send_nonce s = 0"
  shows "\<exists>w s'. (\<forall>n. do_send E clk n msg s = ((Inr w, s'), n)) \<and> hd w = SESSION_TYPE_TRAFFIC \<and> w \<noteq> [] \<and>
    lead E s' t [(w, msg)] [] \<and>
    inflight E (s_send_shared s') (s_local_key_seq s') (s_remote_key_seq s') (s_next_pub s') 0
      (s_send_nonce s') [(w, msg)] \<and>
    s_send_pub s' = s_send_pub s \<and> s_next_pub s' = s_next_pub s \<and> s_local_key_seq s' = s_local_key_seq s"
proof -
  obtain c where seal: "encrypt_outside_lock E (snap_of (s_local_key_seq s) (s_remote_key_seq s) (s_next_pub s)
      (s_send_shared s) (s_send_nonce s + 1)) msg =
      Inr (traffic_prefix (s_local_key_seq s) (s_remote_key_seq s) (s_send_nonce s + 1) @ c)"
    using encrypt_outside_lock_ok [OF assms(1)] by blast
  let ?w = "traffic_prefix (s_local_key_seq s) (s_remote_key_seq s) (s_send_nonce s + 1) @ c"
  define s' where "s' = send_finalize clk (of_nat (length msg)) (s\<lparr>s_send_nonce := s_send_nonce s + 1\<rparr>)"
  have send: "do_send E clk n msg s = ((Inr ?w, s'), n)" for n
    using do_send_ok [OF assms(1), of s clk n msg] assms(3) seal by (auto simp: s'_def)
  have "lead E s' t [(?w, msg)] []"
    using lead_send_ahead [OF assms(1,2), of clk 0 msg] send [of 0] assms(3) by auto
  moreover have "inflight E (s_send_shared s') (s_local_key_seq s') (s_remote_key_seq s') (s_next_pub s') 0
      (s_send_nonce s') [(?w, msg)]"
    using seal assms(3) by (auto simp: s'_def intro!: exI [of _ 1])
  ultimately show ?thesis
    by (intro exI [of _ ?w] exI [of _ s'] conjI allI send) (simp_all add: s'_def)
qed

lemma ack_then_traffic:
  assumes "box_laws E" "lead E X Y [(w, msg)] []" "hm_get (sm_sessions m) peer = Some Y"
    "msg \<noteq> []" "msg \<noteq> KEEPALIVE_ACK" "msg \<noteq> KEEPALIVE_PROBE"
    "hd w = SESSION_TYPE_TRAFFIC" "w \<noteq> []"
    and out: "inflight E (s_send_shared X) (s_local_key_seq X) (s_remote_key_seq X) (s_next_pub X)
          0 (s_send_nonce X) [(w, msg)]"
    and i: "si_current i = s_send_pub X" "si_next i = s_next_pub X" "si_key_seq i = s_local_key_seq X"
  shows "\<exists>m2 m3. handle_ack E clkD m peer i ed = ([], m2) \<and>
    sm_handle_data E clkE m2 peer w priv ed = ([Deliver peer msg], m3)"
proof (cases "s_seq Y < si_seq i")
  case True
  obtain Y' n where upd: "handle_update E clkD (sm_drawn m) i Y = (Y', n)"
    by (cases "handle_update E clkD (sm_drawn m) i Y")
  then have "lead E Y' X [] [(w, msg)]"
    using lead_update [OF assms(2) out i, of clkD "sm_drawn m"] by simp
  moreover have "handle_ack E clkD m peer i ed = ([], put_session peer Y' n m)"
    using True assms(3) upd by (simp add: handle_ack_def)
  moreover have "hm_get (sm_sessions (put_session peer Y' n m)) peer = Some Y'"
    using assms(3) by (simp add: put_session_def)
  ultimately show ?thesis
    using deliver_ahead [OF assms(1) _ _ assms(4-8)] by blast
next
  case False
  then have "handle_ack E clkD m peer i ed = ([], m)" using assms(3) by (simp add: handle_ack_def)
  then show ?thesis using deliver_behind [OF assms(1-8)] by blast
qed



section \<open>Both sides start at the same time\<close>

lemma handle_init_buffered:
  assumes "box_laws E" "sign_laws E" "hm_get (sm_sessions m) (ce_verifying_key E from_sk) = None"
    and b: "hm_get (sm_buffers m) (ce_verifying_key E from_sk) = Some b" "sb_data b = Some msg"
      "length (si_current (sb_init b)) = 32" "length (si_next (sb_init b)) = 32"
  shows "\<exists>c ack m' s. handle_init E clk m (ce_verifying_key E from_sk) i sk =
      ([SendToInner (ce_verifying_key E from_sk) (traffic_prefix 0 0 1 @ c),
        SendToInner (ce_verifying_key E from_sk) ack], m') \<and>
    box_seal_precomputed E (si_next (sb_init b) @ msg) 1
      (make_salsa_box E (si_current i) (sb_current_priv b)) = Some c \<and>
    hm_get (sm_sessions m') (ce_verifying_key E from_sk) = Some s \<and>
    s_local_key_seq s = 0 \<and> s_remote_key_seq s = 0"
proof -
  let ?k = "ce_verifying_key E from_sk"
  let ?s0 = "fst (session_info_new E clk (sm_drawn m) (si_current i) (si_next i) (si_seq i))"
  define s where "s = fix_shared E 0 0 (?s0\<lparr>s_send_pub := si_current (sb_init b), s_send_priv := sb_current_priv b,
          s_next_pub := si_next (sb_init b), s_next_priv := sb_next_priv b\<rparr>)"
  define m0 where "m0 = m\<lparr>sm_buffers := hm_remove ?k (sm_buffers m), sm_drawn := sm_drawn m + 3\<rparr>"
  have sel: "s_local_key_seq s = 0" "s_remote_key_seq s = 0" "s_send_nonce s = 0"
    "s_send_pub s = si_current (sb_init b)" "s_next_pub s = si_next (sb_init b)"
    "s_send_shared s = make_salsa_box E (si_current i) (sb_current_priv b)"
    by (simp_all add: s_def fix_shared_def session_info_new_def new_box_keys_def Let_def split: prod.splits)
  have "snd (session_info_new E clk (sm_drawn m) (si_current i) (si_next i) (si_seq i)) = sm_drawn m + 3"
    by (simp add: session_info_new_def new_box_keys_def Let_def split: prod.splits)
  then have create: "create_session_from_init E clk m ?k i = (Some msg, s, m0)"
    using b by (simp add: create_session_from_init_def s_def m0_def case_prod_unfold)
  obtain c where c: "box_seal_precomputed E (si_next (sb_init b) @ msg) 1 (s_send_shared s) = Some c"
    using box_laws_seal [OF assms(1)] by blast
  let ?s = "send_finalize clk (of_nat (length msg)) (s\<lparr>s_send_nonce := 1\<rparr>)"
  have send: "do_send E clk n msg s = ((Inr (traffic_prefix 0 0 1 @ c), ?s), n)" for n
    using c sel by (simp add: do_send_def send_snapshot_def encrypt_outside_lock_def Let_def)
  have len: "length (si_current (session_init_new clk (s_send_pub s) (s_next_pub s) 0)) = 32"
    "length (si_next (session_init_new clk (s_send_pub s) (s_next_pub s) 0)) = 32"
    using b sel by (simp_all add: session_init_new_def)
  let ?m1 = "insert_session ?k ?s (sm_drawn m0) m0"
  obtain ack where "send_handshake E ?m1 (session_init_new clk (s_send_pub s) (s_next_pub s) 0) sk ?k SESSION_TYPE_ACK =
      ([SendToInner ?k ack], ?m1\<lparr>sm_drawn := sm_drawn ?m1 + 1\<rparr>)"
    using send_handshake_ok [OF assms(1,2) len, of ?m1 sk from_sk SESSION_TYPE_ACK] by blast
  then have "handle_init E clk m ?k i sk =
      ([SendToInner ?k (traffic_prefix 0 0 1 @ c), SendToInner ?k ack], ?m1\<lparr>sm_drawn := sm_drawn ?m1 + 1\<rparr>)"
    using assms(3) create send sel(1) by (simp add: handle_init_def send_buffered_def Let_def)
  then show ?thesis using c sel by (auto simp: insert_session_def)
qed

text \<open>A session whose numbers are both zero cannot read a message with these numbers.\<close>

lemma zero_epoch_unreadable:
  assumes "hm_get (sm_sessions m) peer = Some s" "s_local_key_seq s = 0" "s_remote_key_seq s = 0"
  shows "Deliver k d \<notin> set (fst (sm_handle_data E clk m peer (traffic_prefix 0 0 n @ c) priv ed))"
proof -
  have "Deliver k d \<notin> set (fst (resync_init E clk m peer p q l ed))" for p q l
    by (auto simp: resync_init_def send_handshake_def split: prod.splits sum.splits)
  moreover have "\<exists>e. recv_snapshot s (traffic_prefix 0 0 n @ c) = Inl e"
    using assms(2,3) unfolding recv_snapshot_def traffic_header_encode by (simp add: decrypt_case_of_def)
  ultimately show ?thesis
    using assms(1) by (auto simp: handle_data_traffic sm_handle_traffic_def split: recv_snapshot_error.splits)
qed

text \<open>C39. When two nodes write to each other for the first time and both handle the other's Init
  before its Ack, each sends its buffered data at once, and both seal it with the same shared key
  and the same nonce 1. Neither message can be read by the other side.\<close>

theorem simultaneous_open_reuses_nonce:
  assumes laws: "box_laws E" "sign_laws E"
    and A: "hm_get (sm_sessions mA) (ce_verifying_key E skB) = None"
      "hm_get (sm_buffers mA) (ce_verifying_key E skB) = None"
    and B: "hm_get (sm_sessions mB) (ce_verifying_key E skA) = None"
      "hm_get (sm_buffers mB) (ce_verifying_key E skA) = None"
    and pw: "preimage (sm_group_auth mA) = preimage (sm_group_auth mB)"
  shows "\<exists>iniA mA1 iniB mB1 cA ackA mA2 cB ackB mB2 key kA kB.
    sm_write_to E clkA mA (ce_verifying_key E skB) msgA skA = ([SendToInner (ce_verifying_key E skB) iniA], mA1) \<and>
    sm_write_to E clkB mB (ce_verifying_key E skA) msgB skB = ([SendToInner (ce_verifying_key E skA) iniB], mB1) \<and>
    sm_handle_data E clkC mA1 (ce_verifying_key E skB) iniB (ed25519_private_to_curve25519 E skA) skA =
      ([SendToInner (ce_verifying_key E skB) (traffic_prefix 0 0 1 @ cA), SendToInner (ce_verifying_key E skB) ackA], mA2) \<and>
    sm_handle_data E clkD mB1 (ce_verifying_key E skA) iniA (ed25519_private_to_curve25519 E skB) skB =
      ([SendToInner (ce_verifying_key E skA) (traffic_prefix 0 0 1 @ cB), SendToInner (ce_verifying_key E skA) ackB], mB2) \<and>
    box_seal_precomputed E (kA @ msgA) 1 key = Some cA \<and> box_seal_precomputed E (kB @ msgB) 1 key = Some cB \<and>
    Deliver (ce_verifying_key E skA) msgA \<notin> set (fst (sm_handle_data E clkC mB2 (ce_verifying_key E skA)
      (traffic_prefix 0 0 1 @ cA) (ed25519_private_to_curve25519 E skB) skB)) \<and>
    Deliver (ce_verifying_key E skB) msgB \<notin> set (fst (sm_handle_data E clkD mA2 (ce_verifying_key E skB)
      (traffic_prefix 0 0 1 @ cB) (ed25519_private_to_curve25519 E skA) skA))"
proof -
  let ?A = "ce_verifying_key E skA" and ?B = "ce_verifying_key E skB"
  let ?iA = "session_init_new clkA (pub_key E (sm_drawn mA)) (pub_key E (sm_drawn mA + 1)) 0"
  let ?iB = "session_init_new clkB (pub_key E (sm_drawn mB)) (pub_key E (sm_drawn mB + 1)) 0"
  obtain iniA mA1 where wA: "sm_write_to E clkA mA ?B msgA skA = ([SendToInner ?B iniA], mA1)"
    "hd iniA = SESSION_TYPE_INIT" "iniA \<noteq> []"
    "session_init_decrypt E iniA (ed25519_private_to_curve25519 E skB) ?A (preimage (sm_group_auth mA)) = Inr ?iA"
    "sm_sessions mA1 = sm_sessions mA" "sm_group_auth mA1 = sm_group_auth mA"
    "hm_get (sm_buffers mA1) ?B = Some \<lparr>sb_data = Some msgA, sb_init = ?iA, sb_current_priv = priv_key E (sm_drawn mA),
      sb_next_priv = priv_key E (sm_drawn mA + 1), sb_created = ck_now clkA\<rparr>"
    using write_to_unknown [OF laws A, of clkA msgA skA] by blast
  obtain iniB mB1 where wB: "sm_write_to E clkB mB ?A msgB skB = ([SendToInner ?A iniB], mB1)"
    "hd iniB = SESSION_TYPE_INIT" "iniB \<noteq> []"
    "session_init_decrypt E iniB (ed25519_private_to_curve25519 E skA) ?B (preimage (sm_group_auth mB)) = Inr ?iB"
    "sm_sessions mB1 = sm_sessions mB" "sm_group_auth mB1 = sm_group_auth mB"
    "hm_get (sm_buffers mB1) ?A = Some \<lparr>sb_data = Some msgB, sb_init = ?iB, sb_current_priv = priv_key E (sm_drawn mB),
      sb_next_priv = priv_key E (sm_drawn mB + 1), sb_created = ck_now clkB\<rparr>"
    using write_to_unknown [OF laws B, of clkB msgB skB] by blast
  have len: "length (si_current ?iA) = 32" "length (si_next ?iA) = 32" "length (si_current ?iB) = 32" "length (si_next ?iB) = 32"
    using box_laws_length [OF laws(1)] by (simp_all add: session_init_new_def)
  obtain cA ackA mA2 s where hA: "handle_init E clkC mA1 ?B ?iB skA =
      ([SendToInner ?B (traffic_prefix 0 0 1 @ cA), SendToInner ?B ackA], mA2)"
    "box_seal_precomputed E (si_next ?iA @ msgA) 1 (make_salsa_box E (si_current ?iB) (priv_key E (sm_drawn mA))) = Some cA"
    and sA: "hm_get (sm_sessions mA2) ?B = Some s" "s_local_key_seq s = 0" "s_remote_key_seq s = 0"
    using handle_init_buffered [OF laws _ wA(7), of msgA clkC ?iB skA] A(1) wA(5) len by auto
  obtain cB ackB mB2 s' where hB: "handle_init E clkD mB1 ?A ?iA skB =
      ([SendToInner ?A (traffic_prefix 0 0 1 @ cB), SendToInner ?A ackB], mB2)"
    "box_seal_precomputed E (si_next ?iB @ msgB) 1 (make_salsa_box E (si_current ?iA) (priv_key E (sm_drawn mB))) = Some cB"
    and sB: "hm_get (sm_sessions mB2) ?A = Some s'" "s_local_key_seq s' = 0" "s_remote_key_seq s' = 0"
    using handle_init_buffered [OF laws _ wB(7), of msgB clkD ?iA skB] B(1) wB(5) len by auto
  have key: "make_salsa_box E (si_current ?iA) (priv_key E (sm_drawn mB)) =
      make_salsa_box E (si_current ?iB) (priv_key E (sm_drawn mA))"
    using box_laws_agree [OF laws(1)] by (simp add: session_init_new_def)
  have "sm_handle_data E clkC mA1 ?B iniB (ed25519_private_to_curve25519 E skA) skA = handle_init E clkC mA1 ?B ?iB skA"
    "sm_handle_data E clkD mB1 ?A iniA (ed25519_private_to_curve25519 E skB) skB = handle_init E clkD mB1 ?A ?iA skB"
    using handle_data_init [OF wA(2,3)] handle_data_init [OF wB(2,3)] wA(4,6) wB(4,6) pw by simp_all
  then show ?thesis
    using wA(1) wB(1) hA hB key zero_epoch_unreadable [OF sA] zero_epoch_unreadable [OF sB] by metis
qed

theorem simultaneous_open_reuses_nonce_witness:
  "\<exists>iniA mA1 iniB mB1. sm_write_to mock_env \<lparr>ck_now = 0, ck_unix = 5\<rparr> (session_manager_new \<lparr>ga_secret = None\<rparr> 60 0)
      (ce_verifying_key mock_env [2]) [9] [1] = ([SendToInner (ce_verifying_key mock_env [2]) iniA], mA1) \<and>
    sm_write_to mock_env \<lparr>ck_now = 0, ck_unix = 5\<rparr> (session_manager_new \<lparr>ga_secret = None\<rparr> 60 100)
      (ce_verifying_key mock_env [1]) [8] [2] = ([SendToInner (ce_verifying_key mock_env [1]) iniB], mB1)"
  using simultaneous_open_reuses_nonce [OF mock_box_laws mock_sign_laws, where skA = "[1]" and skB = "[2]"
      and msgA = "[9]" and msgB = "[8]"
      and mA = "session_manager_new \<lparr>ga_secret = None\<rparr> 60 0" and mB = "session_manager_new \<lparr>ga_secret = None\<rparr> 60 100"
      and clkA = "\<lparr>ck_now = 0, ck_unix = 5\<rparr>" and clkB = "\<lparr>ck_now = 0, ck_unix = 5\<rparr>"
      and clkC = "\<lparr>ck_now = 2, ck_unix = 5\<rparr>" and clkD = "\<lparr>ck_now = 3, ck_unix = 5\<rparr>"]
  by (simp add: session_manager_new_def) blast

end
