(* ===== verification/Session_Safety.thy ===== *)
theory Session_Safety
  imports Session_Handshake
begin

text \<open>
  What the counters of a session protect: a traffic message is accepted at most once between two
  handshakes, and no private key is used twice with the same nonce, whatever the interleaving of
  the phases of concurrent calls.
\<close>

section \<open>No message is accepted twice\<close>

text \<open>
  \<open>dead s h\<close>: a message with the header \<open>h\<close> cannot be accepted by the session, nor after any later
  rotation, because the counter for its pair of keys has passed its nonce.
\<close>

type_synonym header = "u64 \<times> u64 \<times> u64"

fun dead :: "session_info \<Rightarrow> header \<Rightarrow> bool" where
  "dead s (r, l, n) \<longleftrightarrow>
     unat r \<le> unat (s_remote_key_seq s) + 1 \<and>
     (r = s_remote_key_seq s \<and> l + 1 = s_local_key_seq s \<longrightarrow> n \<le> s_recv_nonce s) \<and>
     (r = s_remote_key_seq s + 1 \<and> l = s_local_key_seq s \<longrightarrow> n \<le> s_next_send_nonce s) \<and>
     (r = s_remote_key_seq s + 1 \<and> l + 1 = s_local_key_seq s \<longrightarrow> n \<le> s_next_recv_nonce s)"

definition header_of :: "bytes \<Rightarrow> header" where
  "header_of msg = (case traffic_header msg of Some (r, l, n, off) \<Rightarrow> (r, l, n) | None \<Rightarrow> (0, 0, 0))"

lemma dead_case:
  assumes "dead s (r, l, n)"
  shows "\<exists>e. decrypt_case_of s r l n = Inl e"
  using assms by (auto simp: decrypt_case_of_def Let_def not_less)

lemma dead_not_received:
  assumes "dead s (header_of msg)"
  shows "receive E clk drawn msg s = (None, s, drawn)"
proof -
  have "\<exists>e. recv_snapshot s msg = Inl e"
  proof (cases "traffic_header msg")
    case None
    then show ?thesis by (simp add: recv_snapshot_def)
  next
    case (Some x)
    obtain r l n off where x: "x = (r, l, n, off)" by (cases x)
    then have "\<exists>e. decrypt_case_of s r l n = Inl e"
      using assms Some by (intro dead_case) (simp add: header_of_def)
    then show ?thesis using Some x by (auto simp: recv_snapshot_def)
  qed
  then show ?thesis by (auto simp: receive_def)
qed

text \<open>What an accepted message does to the counters of the session.\<close>

definition counters :: "session_info \<Rightarrow> u64 \<times> u64 \<times> u64 \<times> u64 \<times> u64" where
  "counters s = (s_remote_key_seq s, s_local_key_seq s, s_recv_nonce s, s_next_send_nonce s, s_next_recv_nonce s)"

lemma receive_accepted:
  assumes "receive E clk drawn msg s = (Some p, s', drawn')"
  obtains r l n c inner where "header_of msg = (r, l, n)" "decrypt_case_of s r l n = Inr c"
    and "recv_finalize E clk drawn
       \<lparr>rs_remote_key_seq = s_remote_key_seq s, rs_nonce = n,
        rs_encrypted_offset = (case traffic_header msg of Some (_, _, _, off) \<Rightarrow> off | None \<Rightarrow> 0),
        rs_shared = case_shared s c, rs_case = c\<rparr> inner (of_nat (length p)) s = (s', drawn')"
  using assms
  by (auto simp: receive_def recv_snapshot_def header_of_def
      split: sum.splits if_splits option.splits prod.splits)

lemma decrypt_case_Inr:
  assumes "decrypt_case_of s r l n = Inr c"
  shows "c = CurrentToRecv \<and> r = s_remote_key_seq s \<and> l + 1 = s_local_key_seq s \<and> s_recv_nonce s < n \<or>
    c = NextToSend \<and> r = s_remote_key_seq s + 1 \<and> l = s_local_key_seq s \<and> s_next_send_nonce s < n \<or>
    c = NextToRecv \<and> r = s_remote_key_seq s + 1 \<and> l + 1 = s_local_key_seq s \<and> s_next_recv_nonce s < n"
  using assms by (auto simp: decrypt_case_of_def Let_def split: if_splits)

lemma finalize_counters:
  assumes "recv_finalize E clk drawn snap inner len s = (s', drawn')" "rs_remote_key_seq snap = s_remote_key_seq s"
  shows "rs_case snap = CurrentToRecv \<and> counters s' = counters (s\<lparr>s_recv_nonce := rs_nonce snap\<rparr>)
      \<and> s_send_nonce s' = s_send_nonce s \<or>
    rs_case snap \<noteq> CurrentToRecv \<and> counters s' = (s_remote_key_seq s + 1, s_local_key_seq s + 1, rs_nonce snap, 0, 0)
      \<and> s_send_nonce s' = 0 \<or>
    rs_case snap = NextToSend \<and> counters s' = counters (s\<lparr>s_next_send_nonce := rs_nonce snap\<rparr>)
      \<and> s_send_nonce s' = s_send_nonce s \<or>
    rs_case snap = NextToRecv \<and> counters s' = counters (s\<lparr>s_next_recv_nonce := rs_nonce snap\<rparr>)
      \<and> s_send_nonce s' = s_send_nonce s"
proof (cases "rs_case snap")
  case CurrentToRecv
  then show ?thesis using assms by (auto simp: recv_finalize_def counters_def)
next
  case NextToSend
  then show ?thesis
    using assms maybe_ratchet_cases [of E clk drawn inner "rs_nonce snap" "s\<lparr>s_next_send_nonce := rs_nonce snap\<rparr>"]
    by (auto simp: recv_finalize_def counters_def)
next
  case NextToRecv
  then show ?thesis
    using assms maybe_ratchet_cases [of E clk drawn inner "rs_nonce snap" "s\<lparr>s_next_recv_nonce := rs_nonce snap\<rparr>"]
    by (auto simp: recv_finalize_def counters_def)
qed

lemma dead_receive:
  assumes rcv: "receive E clk drawn msg s = (Some p, s', drawn')"
    and room: "unat (s_remote_key_seq s) + 2 < 2 ^ 64"
    and h: "dead s h \<or> h = header_of msg"
    and one: "fst h = fst (header_of msg) \<longrightarrow> fst (snd h) = fst (snd (header_of msg))"
  shows "dead s' h"
proof -
  obtain r' l' n' where h': "h = (r', l', n')" by (cases h)
  obtain r l n c inner where hd: "header_of msg = (r, l, n)" and cs: "decrypt_case_of s r l n = Inr c"
    and fin: "recv_finalize E clk drawn
       \<lparr>rs_remote_key_seq = s_remote_key_seq s, rs_nonce = n,
        rs_encrypted_offset = (case traffic_header msg of Some (_, _, _, off) \<Rightarrow> off | None \<Rightarrow> 0),
        rs_shared = case_shared s c, rs_case = c\<rparr> inner (of_nat (length p)) s = (s', drawn')"
    by (rule receive_accepted [OF rcv])
  note cases = decrypt_case_Inr [OF cs]
  note eff = finalize_counters [OF fin, simplified]
  have up: "unat (s_remote_key_seq s + 1) = unat (s_remote_key_seq s) + 1"
    using room no_wrap [of "s_remote_key_seq s"] by simp
  have up2: "unat (s_remote_key_seq s + 1 + 1) = unat (s_remote_key_seq s) + 2"
    using room up no_wrap [of "s_remote_key_seq s + 1"] by simp
  let ?R = "s_remote_key_seq s" and ?L = "s_local_key_seq s"
  have ne: "?R + 1 \<noteq> ?R" "?R + 1 + 1 \<noteq> ?R" "?R + 1 + 1 \<noteq> ?R + 1" "?L + 1 \<noteq> ?L"
    using up up2 by (metis add_left_cancel n_not_Suc_n Suc_eq_plus1 one_add_one add.assoc nat.distinct(1) add_cancel_right_right zero_neq_one)+
  have dead: "dead s (r', l', n') \<or> (r', l', n') = (r, l, n)" using h h' hd by simp
  have one': "r' = r \<longrightarrow> l' = l" using one h' hd by simp
  have "l + 1 = ?L \<longrightarrow> l \<noteq> ?L" by auto
  with eff cases consider
    (cur) "counters s' = (?R, ?L, n, s_next_send_nonce s, s_next_recv_nonce s)" "r = ?R" "l + 1 = ?L" "s_recv_nonce s < n"
  | (nxs) "counters s' = (?R, ?L, s_recv_nonce s, n, s_next_recv_nonce s)" "r = ?R + 1" "l = ?L" "s_next_send_nonce s < n"
  | (nxr) "counters s' = (?R, ?L, s_recv_nonce s, s_next_send_nonce s, n)" "r = ?R + 1" "l + 1 = ?L" "s_next_recv_nonce s < n"
  | (rot) "counters s' = (?R + 1, ?L + 1, n, 0, 0)" "r = ?R + 1" "l = ?L \<longrightarrow> s_next_send_nonce s < n"
    by (auto simp: counters_def)
  then show ?thesis
  proof cases
    case cur
    then show ?thesis using dead ne unfolding h' by (auto simp: counters_def)
  next
    case nxs
    then show ?thesis using dead ne up unfolding h' by (auto simp: counters_def)
  next
    case nxr
    then show ?thesis using dead ne up unfolding h' by (auto simp: counters_def)
  next
    case rot
    then have c: "s_remote_key_seq s' = ?R + 1" "s_local_key_seq s' = ?L + 1" "s_recv_nonce s' = n"
      by (simp_all add: counters_def)
    have "unat r' \<le> unat ?R + 1" using dead rot(2) up by auto
    moreover then have "r' \<noteq> ?R + 1 + 1" using up2 by auto
    moreover have "n' \<le> n" if "r' = ?R + 1" "l' = ?L"
      using that dead one' rot(2,3) by auto
    ultimately show ?thesis unfolding h' using c up by simp
  qed
qed

text \<open>
  Traffic on one session between two handshakes: receptions of arbitrary bytes and sends. A run
  returns the messages that were accepted.
\<close>

datatype traffic_event = Rx clock bytes | Tx clock bytes

fun traffic_step ::
    "crypto_env \<Rightarrow> traffic_event \<Rightarrow> session_info \<times> nat \<Rightarrow> bytes list \<times> session_info \<times> nat" where
  "traffic_step E (Rx clk msg) (s, drawn) =
     (case receive E clk drawn msg s of
        (Some p, s, drawn) \<Rightarrow> ([msg], s, drawn)
      | (None, s, drawn) \<Rightarrow> ([], s, drawn))"
| "traffic_step E (Tx clk msg) (s, drawn) =
     (case do_send E clk drawn msg s of ((r, s), drawn) \<Rightarrow> ([], s, drawn))"

primrec traffic_run ::
    "crypto_env \<Rightarrow> traffic_event list \<Rightarrow> session_info \<times> nat \<Rightarrow> bytes list \<times> session_info \<times> nat" where
  "traffic_run E [] st = ([], st)"
| "traffic_run E (e # es) st =
     (let (acc, st) = traffic_step E e st; (rest, st) = traffic_run E es st in (acc @ rest, st))"

text \<open>The remote side addresses one of our keys with each of its own keys.\<close>

definition one_key_each :: "bytes list \<Rightarrow> bool" where
  "one_key_each msgs \<longleftrightarrow>
     (\<forall>a \<in> set msgs. \<forall>b \<in> set msgs. fst (header_of a) = fst (header_of b) \<longrightarrow>
        fst (snd (header_of a)) = fst (snd (header_of b)))"

definition counter_room :: "session_info \<Rightarrow> nat \<Rightarrow> bool" where
  "counter_room s k \<longleftrightarrow> unat (s_remote_key_seq s) + k + 1 < 2 ^ 64 \<and> unat (s_send_nonce s) + k < 2 ^ 64"

lemma receive_None:
  "receive E clk drawn msg s = (None, s', drawn') \<Longrightarrow> s' = s \<and> drawn' = drawn"
  by (auto simp: receive_def split: sum.splits prod.splits)

lemma dead_counters: "counters s' = counters s \<Longrightarrow> dead s' h = dead s h"
  by (cases h) (auto simp: counters_def)

lemma send_counters:
  assumes "do_send E clk drawn msg s = ((r, s'), drawn')" "s_send_nonce s + 1 \<noteq> 0"
  shows "counters s' = counters s \<and> s_send_nonce s' = s_send_nonce s + 1"
  using assms
  by (auto simp: do_send_def send_snapshot_def send_finalize_def counters_def Let_def split: sum.splits)

lemma receive_room:
  assumes "receive E clk drawn msg s = (Some p, s', drawn')" "counter_room s (Suc k)"
  shows "counter_room s' k"
proof -
  obtain r l n c inner where hd: "header_of msg = (r, l, n)" and cs: "decrypt_case_of s r l n = Inr c"
    and fin: "recv_finalize E clk drawn
       \<lparr>rs_remote_key_seq = s_remote_key_seq s, rs_nonce = n,
        rs_encrypted_offset = (case traffic_header msg of Some (_, _, _, off) \<Rightarrow> off | None \<Rightarrow> 0),
        rs_shared = case_shared s c, rs_case = c\<rparr> inner (of_nat (length p)) s = (s', drawn')"
    by (rule receive_accepted [OF assms(1)])
  have "unat (s_remote_key_seq s + 1) = unat (s_remote_key_seq s) + 1"
    using assms(2) no_wrap [of "s_remote_key_seq s"] by (simp add: counter_room_def)
  then show ?thesis
    using finalize_counters [OF fin, simplified] assms(2) by (auto simp: counters_def counter_room_def)
qed

lemma quiet_step:
  assumes "traffic_step E e (s, drawn) = (acc, s', drawn')" "counter_room s (Suc k)"
    "\<nexists>clk msg p. e = Rx clk msg \<and> receive E clk drawn msg s = (Some p, s', drawn')"
  shows "acc = [] \<and> counters s' = counters s \<and> counter_room s' k"
proof (cases e)
  case (Rx clk msg)
  obtain r s1 d1 where rcv: "receive E clk drawn msg s = (r, s1, d1)"
    by (cases "receive E clk drawn msg s")
  with Rx assms have "r = None" "acc = []" "s' = s1" by (auto split: option.splits)
  with rcv receive_None [of E clk drawn msg s] show ?thesis
    using assms(2) by (auto simp: counter_room_def)
next
  case (Tx clk msg)
  obtain r where snd: "do_send E clk drawn msg s = ((r, s'), drawn')" and acc: "acc = []"
    using assms(1) Tx by (auto split: prod.splits)
  have "unat (s_send_nonce s + 1) = unat (s_send_nonce s) + 1"
    using assms(2) no_wrap [of "s_send_nonce s"] by (simp add: counter_room_def)
  moreover from this have "s_send_nonce s + 1 \<noteq> 0" by auto
  ultimately show ?thesis
    using send_counters [OF snd] acc assms(2) by (auto simp: counter_room_def counters_def)
qed

lemma traffic_run_distinct:
  assumes "traffic_run E es (s, drawn) = (acc, st)" "one_key_each (old @ acc)" "counter_room s (length es)"
    and "\<forall>m \<in> set old. dead s (header_of m)"
  shows "distinct acc \<and> set acc \<inter> set old = {}"
  using assms
proof (induction es arbitrary: s drawn acc old)
  case Nil
  then show ?case by simp
next
  case (Cons e es)
  obtain acc1 s1 d1 where step: "traffic_step E e (s, drawn) = (acc1, s1, d1)"
    by (cases "traffic_step E e (s, drawn)")
  obtain acc2 where run: "traffic_run E es (s1, d1) = (acc2, st)" and acc: "acc = acc1 @ acc2"
    using Cons.prems(1) step by (auto split: prod.splits)
  show ?case
  proof (cases "\<exists>clk msg p. e = Rx clk msg \<and> receive E clk drawn msg s = (Some p, s1, d1)")
    case True
    then obtain clk msg p where rcv: "e = Rx clk msg" "receive E clk drawn msg s = (Some p, s1, d1)" by blast
    with step have acc1: "acc1 = [msg]" by simp
    have fresh: "msg \<notin> set old"
      using Cons.prems(4) dead_not_received [of s msg E clk drawn] rcv(2) by auto
    have "unat (s_remote_key_seq s) + 2 < 2 ^ 64" using Cons.prems(3) by (simp add: counter_room_def)
    then have "\<forall>m \<in> set (old @ [msg]). dead s1 (header_of m)"
      using dead_receive [OF rcv(2)] Cons.prems(2,4) acc acc1 by (auto simp: one_key_each_def)
    then have "distinct acc2 \<and> set acc2 \<inter> set (old @ [msg]) = {}"
      using Cons.IH [OF run, of "old @ [msg]"] Cons.prems(2,3) receive_room [OF rcv(2)] acc acc1 by simp
    then show ?thesis using acc acc1 fresh by auto
  next
    case False
    then have acc1: "acc1 = []" and same: "counters s1 = counters s \<and> counter_room s1 (length es)"
      using quiet_step [OF step Cons.prems(3) [simplified]] by auto
    have "\<forall>m \<in> set old. dead s1 (header_of m)" using Cons.prems(4) same dead_counters by blast
    then show ?thesis using Cons.IH [OF run, of old] Cons.prems(2) same acc acc1 by simp
  qed
qed

text \<open>C9. Between two handshakes a session accepts no message twice. Whatever bytes arrive, in any
  order and at any times, mixed with sends, and through any number of key rotations, the accepted
  messages are pairwise different. The remote side must address one of our keys with each of its
  own, as a session does, and the counters must not wrap around.\<close>

theorem replay_rejected:
  assumes "traffic_run E es (s, drawn) = (acc, st)" "one_key_each acc" "counter_room s (length es)"
  shows "distinct acc"
  using traffic_run_distinct [of E es s drawn acc st "[]"] assms by simp

definition replay_events :: "traffic_event list" where
  "replay_events =
     (let w = traffic_prefix 1 0 1 @ mock_key 9 @ [7] @ replicate 16 0;
          clk = \<lparr>ck_now = 0, ck_unix = 0\<rparr>
      in [Rx clk w, Rx clk w, Tx clk [1], Rx clk w])"

theorem replay_rejected_witness:
  "distinct (fst (traffic_run mock_env replay_events (dx_end two_ends False, 9))) \<and>
   fst (traffic_run mock_env replay_events (dx_end two_ends False, 9)) \<noteq> []"
proof
  have run: "fst (traffic_run mock_env replay_events (dx_end two_ends False, 9)) =
      [traffic_prefix 1 0 1 @ mock_key 9 @ [7] @ replicate 16 0]"
    by code_simp
  obtain acc st where r: "traffic_run mock_env replay_events (dx_end two_ends False, 9) = (acc, st)"
    by (cases "traffic_run mock_env replay_events (dx_end two_ends False, 9)")
  have "one_key_each acc" using run r by (simp add: one_key_each_def)
  moreover have "counter_room (dx_end two_ends False) (length replay_events)"
    by (simp add: counter_room_def two_ends_def replay_events_def session_info_new_def fix_shared_def
        new_box_keys_def Let_def)
  ultimately show "distinct (fst (traffic_run mock_env replay_events (dx_end two_ends False, 9)))"
    using replay_rejected [OF r] r by simp
  show "fst (traffic_run mock_env replay_events (dx_end two_ends False, 9)) \<noteq> []"
    unfolding run by simp
qed

text \<open>
  A handshake resets the counters. A message accepted with the remote side's next key while the
  session did not rotate, because it had rotated within the last minute, is accepted again after
  an Init or Ack in which the remote side announces that key as its current one.
\<close>

lemma replay_after_update:
  assumes "box_laws E" "session_wf E s" "length inner = 32" "s_next_send_nonce s < n"
    and seal: "encrypt_outside_lock E
      (snap_of (s_remote_key_seq s + 1) (s_local_key_seq s) inner (s_next_send_shared s) n) msg = Inr w"
    and recent: "s_rotated s = Some t" "ck_now clk - t \<le> RATCHET_INTERVAL"
    and i: "si_current i = s_next s" "si_key_seq i = s_remote_key_seq s + 1"
  shows "\<exists>s1. receive E clk drawn w s = (Some msg, s1, drawn) \<and>
    fst (receive E clk' drawn' w (fst (handle_update E clk'' drawn i s1))) = Some msg"
proof -
  let ?s1 = "s\<lparr>s_next_send_nonce := n, s_rx := s_rx s + of_nat (length msg), s_last_activity := ck_now clk\<rparr>"
  let ?s2 = "fst (handle_update E clk'' drawn i ?s1)"
  have "decrypt_case_of s (s_remote_key_seq s + 1) (s_local_key_seq s) n = Inr NextToSend"
    using assms(4) by (simp add: decrypt_case_of_def)
  from receive_sealed [OF assms(1) seal assms(3) this, of clk drawn]
  have first: "receive E clk drawn w s = (Some msg, ?s1, drawn)"
    using recent by (simp add: recv_finalize_def maybe_ratchet_on_recv_def)
  have sel: "s_remote_key_seq ?s2 = s_remote_key_seq s + 1" "s_local_key_seq ?s2 = s_local_key_seq s + 1"
    "s_recv_nonce ?s2 = 0" "s_recv_shared ?s2 = s_next_send_shared s"
    using i assms(2) by (simp_all add: session_step_defs session_wf_def split: prod.splits)
  have "0 < n" using assms(4) by (metis word_gt_0 word_not_simps(1))
  then have "decrypt_case_of ?s2 (s_remote_key_seq s + 1) (s_local_key_seq s) n = Inr CurrentToRecv"
    by (simp add: decrypt_case_of_def sel)
  from receive_sealed [OF assms(1) seal assms(3) this, of clk' drawn']
  have "fst (receive E clk' drawn' w ?s2) = Some msg"
    by (simp add: sel(4) split: prod.splits)
  then show ?thesis using first by blast
qed

section \<open>No nonce is used twice with a private key\<close>

text \<open>
  The manager at the granularity of its locks. A phase is one critical section, so a run of phases
  is any interleaving of the calls of concurrent tasks: the snapshot, the end of a send and the
  end of a reception under the lock of a session, an update by a handshake message, the creation
  of a session and of a buffer, a key pair drawn for a handshake message, and the clean-up. The
  snapshot of a reception in \<open>P_Receive\<close> is arbitrary: it may be stale.
\<close>

datatype phase =
    P_Snapshot public_key
  | P_Sent public_key clock u64
  | P_Receive public_key clock recv_snap curve_public_key u64
  | P_Update public_key clock session_init
  | P_Create public_key clock session_init
  | P_Buffer public_key clock bytes
  | P_Draw
  | P_Cleanup clock

text \<open>The buffer a write uses: the one in the map, or a new one with two fresh key pairs.\<close>

definition buffer_for :: "crypto_env \<Rightarrow> clock \<Rightarrow> public_key \<Rightarrow> session_manager \<Rightarrow> session_buffer \<times> nat" where
  "buffer_for E clk dest m =
     (case hm_get (sm_buffers m) dest of
        Some buf \<Rightarrow> (buf, sm_drawn m)
      | None \<Rightarrow>
          (\<lparr>sb_data = None,
            sb_init = session_init_new clk (pub_key E (sm_drawn m)) (pub_key E (sm_drawn m + 1)) 0,
            sb_current_priv = priv_key E (sm_drawn m), sb_next_priv = priv_key E (sm_drawn m + 1),
            sb_created = ck_now clk\<rparr>, sm_drawn m + 2))"

fun phase_step :: "crypto_env \<Rightarrow> phase \<Rightarrow> session_manager \<Rightarrow> session_manager" where
  "phase_step E (P_Snapshot k) m =
     (case hm_get (sm_sessions m) k of
        None \<Rightarrow> m
      | Some s \<Rightarrow> (case send_snapshot E (sm_drawn m) s of ((r, s), n) \<Rightarrow> put_session k s n m))"
| "phase_step E (P_Sent k clk len) m =
     (case hm_get (sm_sessions m) k of
        None \<Rightarrow> m | Some s \<Rightarrow> put_session k (send_finalize clk len s) (sm_drawn m) m)"
| "phase_step E (P_Receive k clk snap inner len) m =
     (case hm_get (sm_sessions m) k of
        None \<Rightarrow> m
      | Some s \<Rightarrow> (case recv_finalize E clk (sm_drawn m) snap inner len s of (s, n) \<Rightarrow> put_session k s n m))"
| "phase_step E (P_Update k clk i) m =
     (case hm_get (sm_sessions m) k of
        None \<Rightarrow> m
      | Some s \<Rightarrow> (case handle_update E clk (sm_drawn m) i s of (s, n) \<Rightarrow> put_session k s n m))"
| "phase_step E (P_Create k clk i) m =
     (case hm_get (sm_sessions m) k of
        Some s \<Rightarrow> m
      | None \<Rightarrow> (case create_session_from_init E clk m k i of
                   (d, s, m) \<Rightarrow> insert_session k s (sm_drawn m) m))"
| "phase_step E (P_Buffer k clk msg) m =
     (case buffer_for E clk k m of
        (buf, n) \<Rightarrow> m\<lparr>sm_buffers := hm_insert k (buf\<lparr>sb_data := Some msg\<rparr>) (sm_buffers m), sm_drawn := n\<rparr>)"
| "phase_step E P_Draw m = m\<lparr>sm_drawn := sm_drawn m + 1\<rparr>"
| "phase_step E (P_Cleanup clk) m = sm_cleanup_expired clk m"

text \<open>The private key and the nonce with which the message of a snapshot is sealed.\<close>

fun sealed_with :: "crypto_env \<Rightarrow> phase \<Rightarrow> session_manager \<Rightarrow> (curve_private_key \<times> u64) list" where
  "sealed_with E (P_Snapshot k) m =
     (case hm_get (sm_sessions m) k of
        None \<Rightarrow> []
      | Some s \<Rightarrow>
          (case send_snapshot E (sm_drawn m) s of
             ((Inr snap, s), n) \<Rightarrow> [(s_send_priv s, ss_send_nonce snap)] | ((Inl e, s), n) \<Rightarrow> []))"
| "sealed_with E _ m = []"

primrec phase_run ::
    "crypto_env \<Rightarrow> phase list \<Rightarrow> session_manager \<Rightarrow> (curve_private_key \<times> u64) list \<times> session_manager" where
  "phase_run E [] m = ([], m)"
| "phase_run E (ph # phs) m =
     (let (log, m') = phase_run E phs (phase_step E ph m) in (sealed_with E ph m @ log, m'))"

subsection \<open>Where private keys are\<close>

text \<open>
  A private key that may still seal messages is the send key or the next key of a session or one of
  the two keys of a buffer. \<open>good \<sigma> \<nu> D log\<close>: every key drawn (\<open>D\<close>) is in at most one of these
  places, keys that were used for sealing are only in the place of a send key, whose counter has
  passed their nonces, and no pair was logged twice.
\<close>

datatype slot = SendKey public_key | NextKey public_key | BufCurrent public_key | BufNext public_key

fun slot_key :: "session_manager \<Rightarrow> slot \<Rightarrow> curve_private_key option" where
  "slot_key m (SendKey k) = map_option s_send_priv (hm_get (sm_sessions m) k)"
| "slot_key m (NextKey k) = map_option s_next_priv (hm_get (sm_sessions m) k)"
| "slot_key m (BufCurrent k) = map_option sb_current_priv (hm_get (sm_buffers m) k)"
| "slot_key m (BufNext k) = map_option sb_next_priv (hm_get (sm_buffers m) k)"

definition nonce_of :: "session_manager \<Rightarrow> public_key \<Rightarrow> u64" where
  "nonce_of m k = (case hm_get (sm_sessions m) k of Some s \<Rightarrow> s_send_nonce s | None \<Rightarrow> 0)"

definition good ::
    "(slot \<Rightarrow> curve_private_key option) \<Rightarrow> (public_key \<Rightarrow> u64) \<Rightarrow> curve_private_key set \<Rightarrow>
     (curve_private_key \<times> u64) list \<Rightarrow> bool" where
  "good \<sigma> \<nu> D log \<longleftrightarrow>
     (\<forall>a b p. \<sigma> a = Some p \<longrightarrow> \<sigma> b = Some p \<longrightarrow> a = b) \<and>
     (\<forall>a p. \<sigma> a = Some p \<longrightarrow> p \<in> D) \<and>
     (\<forall>p n. (p, n) \<in> set log \<longrightarrow>
        p \<in> D \<and> (\<forall>a. \<sigma> a = Some p \<longrightarrow> (\<exists>k. a = SendKey k \<and> n \<le> \<nu> k))) \<and>
     distinct log"

text \<open>Keys move from a place to another, or come from fresh draws (\<open>F\<close>); a key that stays a send
  key keeps its counter or raises it.\<close>

lemma good_move:
  assumes g: "good \<sigma> \<nu> D log" and F: "F \<inter> D = {}" and D: "D \<union> F \<subseteq> D'"
    and src: "\<And>a p. \<sigma>' a = Some p \<Longrightarrow> p \<in> F \<or> \<sigma> (src a) = Some p"
    and inj: "\<And>a b p. \<sigma>' a = Some p \<Longrightarrow> \<sigma>' b = Some p \<Longrightarrow> p \<in> F \<or> src a = src b \<Longrightarrow> a = b"
    and keep: "\<And>a k. src a = SendKey k \<Longrightarrow> \<sigma>' a \<noteq> None \<Longrightarrow> a = SendKey k \<and> \<nu> k \<le> \<nu>' k"
  shows "good \<sigma>' \<nu>' D' log"
  unfolding good_def
proof (intro conjI allI impI)
  fix a b p
  assume ab: "\<sigma>' a = Some p" "\<sigma>' b = Some p"
  show "a = b"
  proof (cases "p \<in> F")
    case True
    then show ?thesis using inj ab by blast
  next
    case False
    then have "\<sigma> (src a) = Some p" "\<sigma> (src b) = Some p" using src ab by blast+
    then have "src a = src b" using g unfolding good_def by blast
    then show ?thesis using inj ab by blast
  qed
next
  fix a p
  assume "\<sigma>' a = Some p"
  then show "p \<in> D'" using src [of a p] g D unfolding good_def by blast
next
  fix p n
  assume "(p, n) \<in> set log"
  then have p: "p \<in> D" "\<forall>a. \<sigma> a = Some p \<longrightarrow> (\<exists>k. a = SendKey k \<and> n \<le> \<nu> k)"
    using g unfolding good_def by blast+
  then show "p \<in> D'" using D by blast
  fix a
  assume a: "\<sigma>' a = Some p"
  then have "\<sigma> (src a) = Some p" using src F p(1) by blast
  then obtain k where k: "src a = SendKey k" "n \<le> \<nu> k" using p(2) by blast
  have "a = SendKey k \<and> \<nu> k \<le> \<nu>' k" using keep [OF k(1)] a by simp
  then show "\<exists>k. a = SendKey k \<and> n \<le> \<nu>' k" using k(2) by (auto intro: order_trans)
next
  show "distinct log" using g by (simp add: good_def)
qed

lemma good_log:
  assumes g: "good \<sigma> \<nu> D log" and p: "\<sigma> (SendKey k) = Some p" and new: "\<And>n. (p, n) \<in> set log \<Longrightarrow> n < \<nu> k"
  shows "good \<sigma> \<nu> D (log @ [(p, \<nu> k)])"
  unfolding good_def
proof (intro conjI allI impI)
  show "distinct (log @ [(p, \<nu> k)])" using g new by (auto simp: good_def)
next
  fix q n
  assume "(q, n) \<in> set (log @ [(p, \<nu> k)])"
  then consider "(q, n) \<in> set log" | "q = p" "n = \<nu> k" by auto
  then show "q \<in> D" using g p by cases (auto simp: good_def)
  fix a
  assume "\<sigma> a = Some q"
  with \<open>(q, n) \<in> set (log @ [(p, \<nu> k)])\<close> show "\<exists>k. a = SendKey k \<and> n \<le> \<nu> k"
    using g p unfolding good_def by (metis (no_types, lifting) Un_iff append_Nil2 order_refl set_ConsD set_append empty_iff empty_set prod.inject)
qed (use g in \<open>auto simp: good_def\<close>)

lemma good_logged:
  "good \<sigma> \<nu> D log \<Longrightarrow> (p, n) \<in> set log \<Longrightarrow> \<sigma> (SendKey k) = Some p \<Longrightarrow> n \<le> \<nu> k"
  unfolding good_def by (metis slot.inject(1))

definition nonce_inv :: "crypto_env \<Rightarrow> session_manager \<Rightarrow> (curve_private_key \<times> u64) list \<Rightarrow> bool" where
  "nonce_inv E m log \<longleftrightarrow>
     hm_wf (sm_sessions m) \<and> hm_wf (sm_buffers m) \<and>
     good (slot_key m) (nonce_of m) (priv_key E ` {..<sm_drawn m}) log"

lemma put_session_sel [simp]:
  "hm_get (sm_sessions (put_session k s' n m)) k' =
     (if k' = k then map_option (\<lambda>_. s') (hm_get (sm_sessions m) k) else hm_get (sm_sessions m) k')"
  "hm_keys (sm_sessions (put_session k s' n m)) = hm_keys (sm_sessions m)"
  "sm_buffers (put_session k s' n m) = sm_buffers m" "sm_drawn (put_session k s' n m) = n"
  by (simp_all add: put_session_def)

lemma inv_keep:
  assumes "nonce_inv E m log" "hm_get (sm_sessions m) k = Some s"
    "s_send_priv s' = s_send_priv s" "s_next_priv s' = s_next_priv s" "s_send_nonce s \<le> s_send_nonce s'"
  shows "nonce_inv E (put_session k s' (sm_drawn m) m) log"
proof -
  have eq: "slot_key (put_session k s' (sm_drawn m) m) a = slot_key m a" for a
    using assms(2-4) by (cases a) auto
  have "good (slot_key (put_session k s' (sm_drawn m) m)) (nonce_of (put_session k s' (sm_drawn m) m))
      (priv_key E ` {..<sm_drawn m}) log"
  proof (rule good_move [where F = "{}" and src = "\<lambda>a. a"])
    show "good (slot_key m) (nonce_of m) (priv_key E ` {..<sm_drawn m}) log"
      using assms(1) by (simp add: nonce_inv_def)
    show "a = SendKey k' \<and> nonce_of m k' \<le> nonce_of (put_session k s' (sm_drawn m) m) k'" if "a = SendKey k'" for a k'
      using that assms(2,5) by (auto simp: nonce_of_def)
  qed (auto simp: eq)
  then show ?thesis using assms(1) by (simp add: nonce_inv_def)
qed

lemma fresh_key:
  assumes "inj_on (priv_key E) {..<N}" "n \<le> i" "i < N"
  shows "priv_key E i \<notin> priv_key E ` {..<n}"
proof
  assume "priv_key E i \<in> priv_key E ` {..<n}"
  then obtain j where "j < n" "priv_key E i = priv_key E j" by auto
  then show False using inj_onD [OF assms(1), of i j] assms(2,3) by auto
qed

lemma inv_ratchet:
  assumes "nonce_inv E m log" "hm_get (sm_sessions m) k = Some s"
    "s_send_priv s' = s_next_priv s" "s_next_priv s' = priv_key E (sm_drawn m)"
    and fresh: "priv_key E (sm_drawn m) \<notin> priv_key E ` {..<sm_drawn m}"
  shows "nonce_inv E (put_session k s' (sm_drawn m + 1) m) log \<and> (\<forall>n. (s_send_priv s', n) \<notin> set log)"
proof -
  let ?m = "put_session k s' (sm_drawn m + 1) m" and ?f = "priv_key E (sm_drawn m)"
  let ?src = "\<lambda>a. if a = SendKey k then NextKey k else a"
  have g: "good (slot_key m) (nonce_of m) (priv_key E ` {..<sm_drawn m}) log"
    using assms(1) by (simp add: nonce_inv_def)
  have old: "slot_key m (NextKey k) = Some (s_next_priv s)" using assms(2) by simp
  have not_f: "slot_key m a \<noteq> Some ?f" for a
    using g fresh unfolding good_def by blast
  have eq: "slot_key ?m a = (if a = NextKey k then Some ?f else slot_key m (?src a))" for a
    using assms(2-4) by (cases a) auto
  have "good (slot_key ?m) (nonce_of ?m) (priv_key E ` {..<sm_drawn m + 1}) log"
  proof (rule good_move [OF g, where F = "{?f}" and src = ?src])
    show "{?f} \<inter> priv_key E ` {..<sm_drawn m} = {}" using fresh by blast
    show "priv_key E ` {..<sm_drawn m} \<union> {?f} \<subseteq> priv_key E ` {..<sm_drawn m + 1}" by auto
    show "p \<in> {?f} \<or> slot_key m (?src a) = Some p" if "slot_key ?m a = Some p" for a p
      using that unfolding eq by (auto split: if_splits)
    show "a = b" if "slot_key ?m a = Some p" "slot_key ?m b = Some p" "p \<in> {?f} \<or> ?src a = ?src b" for a b p
      using that not_f unfolding eq by (auto split: if_splits)
    show "a = SendKey k' \<and> nonce_of m k' \<le> nonce_of ?m k'" if "?src a = SendKey k'" "slot_key ?m a \<noteq> None" for a k'
      using that by (auto simp: nonce_of_def split: if_splits)
  qed
  moreover have "(s_send_priv s', n) \<notin> set log" for n
    using g old assms(3) unfolding good_def by (metis slot.distinct(1))
  ultimately show ?thesis using assms(1) by (simp add: nonce_inv_def)
qed

lemma inv_move:
  assumes inv: "nonce_inv E m log" and wf: "hm_wf (sm_sessions m')" "hm_wf (sm_buffers m')"
    and le: "sm_drawn m \<le> sm_drawn m'" and inj: "inj_on (priv_key E) {..<sm_drawn m'}"
    and F: "F \<subseteq> priv_key E ` {sm_drawn m..<sm_drawn m'}"
    and src: "\<And>a p. slot_key m' a = Some p \<Longrightarrow> p \<in> F \<or> slot_key m (src a) = Some p"
    and inj': "\<And>a b p. slot_key m' a = Some p \<Longrightarrow> slot_key m' b = Some p \<Longrightarrow> p \<in> F \<or> src a = src b \<Longrightarrow> a = b"
    and keep: "\<And>a k. src a = SendKey k \<Longrightarrow> slot_key m' a \<noteq> None \<Longrightarrow> a = SendKey k \<and> nonce_of m k \<le> nonce_of m' k"
  shows "nonce_inv E m' log"
proof -
  have "good (slot_key m') (nonce_of m') (priv_key E ` {..<sm_drawn m'}) log"
  proof (rule good_move [where F = F and src = src])
    show "good (slot_key m) (nonce_of m) (priv_key E ` {..<sm_drawn m}) log"
      using inv by (simp add: nonce_inv_def)
    have "p \<notin> priv_key E ` {..<sm_drawn m}" if pF: "p \<in> F" for p
    proof -
      obtain i where "p = priv_key E i" "sm_drawn m \<le> i" "i < sm_drawn m'"
        using subsetD [OF F pF] by auto
      then show ?thesis using fresh_key [OF inj] by simp
    qed
    then show "F \<inter> priv_key E ` {..<sm_drawn m} = {}" by blast
    show "priv_key E ` {..<sm_drawn m} \<union> F \<subseteq> priv_key E ` {..<sm_drawn m'}"
      using F le by fastforce
    show "p \<in> F \<or> slot_key m (src a) = Some p" if "slot_key m' a = Some p" for a p
      using src [OF that] .
    show "a = b" if "slot_key m' a = Some p" "slot_key m' b = Some p" "p \<in> F \<or> src a = src b" for a b p
      using inj' [OF that] .
    show "a = SendKey k \<and> nonce_of m k \<le> nonce_of m' k" if "src a = SendKey k" "slot_key m' a \<noteq> None" for a k
      using keep [OF that] .
  qed
  then show ?thesis using wf by (simp add: nonce_inv_def)
qed

lemma drawn_not_held:
  assumes "nonce_inv E m log" "inj_on (priv_key E) {..<N}" "sm_drawn m \<le> i" "i < N"
  shows "slot_key m a \<noteq> Some (priv_key E i)"
  using assms(1) fresh_key [OF assms(2-4)] unfolding nonce_inv_def good_def by blast

lemma distinct_draws:
  assumes "inj_on (priv_key E) {..<N}" "i < N" "j < N" "i \<noteq> j"
  shows "priv_key E i \<noteq> priv_key E j"
  using assms by (auto simp: inj_on_def)

lemma inv_snapshot:
  assumes "nonce_inv E m log" "inj_on (priv_key E) {..<sm_drawn (phase_step E (P_Snapshot k) m)}"
  shows "nonce_inv E (phase_step E (P_Snapshot k) m) (log @ sealed_with E (P_Snapshot k) m)"
proof (cases "hm_get (sm_sessions m) k")
  case None
  then show ?thesis using assms(1) by simp
next
  case (Some s)
  obtain s' n where snap: "send_snapshot E (sm_drawn m) s =
      ((Inr \<lparr>ss_local_key_seq = s_local_key_seq s', ss_remote_key_seq = s_remote_key_seq s',
             ss_send_nonce = s_send_nonce s', ss_next_pub = s_next_pub s', ss_send_shared = s_send_shared s'\<rparr>, s'), n)"
    by (cases "send_snapshot E (sm_drawn m) s") (auto simp: send_snapshot_def Let_def split: prod.splits)
  let ?m = "put_session k s' n m"
  have step: "phase_step E (P_Snapshot k) m = ?m" "sealed_with E (P_Snapshot k) m = [(s_send_priv s', s_send_nonce s')]"
    using Some snap by simp_all
  have "nonce_inv E ?m log \<and> (\<forall>x. (s_send_priv s', x) \<in> set log \<longrightarrow> x < s_send_nonce s')"
  proof (cases "s_send_nonce s + 1 = 0")
    case True
    have eff: "s_send_priv s' = s_next_priv s" "s_next_priv s' = priv_key E (sm_drawn m)" "n = sm_drawn m + 1"
      using snap True by (auto simp: send_snapshot_def session_step_defs split: prod.splits)
    have "priv_key E (sm_drawn m) \<notin> priv_key E ` {..<sm_drawn m}"
      using fresh_key [OF assms(2)] step eff(3) by simp
    then show ?thesis using inv_ratchet [OF assms(1) Some eff(1,2)] eff(3) by simp
  next
    case False
    have eff: "s' = s\<lparr>s_send_nonce := s_send_nonce s + 1\<rparr>" "n = sm_drawn m"
      using snap False by (auto simp: send_snapshot_def Let_def)
    have less: "s_send_nonce s < s_send_nonce s + 1" by (rule less_plus_one [OF False])
    have "x \<le> s_send_nonce s" if "(s_send_priv s, x) \<in> set log" for x
    proof -
      have "slot_key m (SendKey k) = Some (s_send_priv s)" using Some by simp
      then have "x \<le> nonce_of m k"
        using good_logged assms(1) that unfolding nonce_inv_def by blast
      then show ?thesis using Some by (simp add: nonce_of_def)
    qed
    then show ?thesis
      using inv_keep [OF assms(1) Some, of s'] eff less by (auto dest: order.strict_trans1)
  qed
  moreover have "slot_key ?m (SendKey k) = Some (s_send_priv s')" "nonce_of ?m k = s_send_nonce s'"
    using Some by (simp_all add: nonce_of_def)
  ultimately show ?thesis
    using good_log [of "slot_key ?m" "nonce_of ?m" "priv_key E ` {..<sm_drawn ?m}" log k "s_send_priv s'"]
    unfolding step nonce_inv_def by simp
qed

lemma inv_receive:
  assumes "nonce_inv E m log" "inj_on (priv_key E) {..<sm_drawn (phase_step E (P_Receive k clk snap inner len) m)}"
  shows "nonce_inv E (phase_step E (P_Receive k clk snap inner len) m) log"
proof (cases "hm_get (sm_sessions m) k")
  case None
  then show ?thesis using assms(1) by simp
next
  case (Some s)
  obtain s' n where fin: "recv_finalize E clk (sm_drawn m) snap inner len s = (s', n)"
    by (cases "recv_finalize E clk (sm_drawn m) snap inner len s")
  have step: "phase_step E (P_Receive k clk snap inner len) m = put_session k s' n m"
    using Some fin by simp
  have "(s_send_priv s' = s_send_priv s \<and> s_next_priv s' = s_next_priv s \<and> s_send_nonce s' = s_send_nonce s \<and> n = sm_drawn m) \<or>
     (s_send_priv s' = s_next_priv s \<and> s_next_priv s' = priv_key E (sm_drawn m) \<and> n = sm_drawn m + 1)"
    using fin maybe_ratchet_cases [of E clk "sm_drawn m" inner "rs_nonce snap" "s\<lparr>s_next_send_nonce := rs_nonce snap\<rparr>"]
      maybe_ratchet_cases [of E clk "sm_drawn m" inner "rs_nonce snap" "s\<lparr>s_next_recv_nonce := rs_nonce snap\<rparr>"]
    by (auto simp: recv_finalize_def Let_def split: if_splits decrypt_case.splits)
  then show ?thesis
  proof
    assume "s_send_priv s' = s_send_priv s \<and> s_next_priv s' = s_next_priv s \<and> s_send_nonce s' = s_send_nonce s \<and> n = sm_drawn m"
    then show ?thesis using inv_keep [OF assms(1) Some, of s'] step by simp
  next
    assume rot: "s_send_priv s' = s_next_priv s \<and> s_next_priv s' = priv_key E (sm_drawn m) \<and> n = sm_drawn m + 1"
    then have "priv_key E (sm_drawn m) \<notin> priv_key E ` {..<sm_drawn m}"
      using fresh_key [OF assms(2)] step by simp
    then show ?thesis using inv_ratchet [OF assms(1) Some] rot step by simp
  qed
qed

lemma inv_update:
  assumes "nonce_inv E m log" "inj_on (priv_key E) {..<sm_drawn (phase_step E (P_Update k clk i) m)}"
  shows "nonce_inv E (phase_step E (P_Update k clk i) m) log"
proof (cases "hm_get (sm_sessions m) k")
  case None
  then show ?thesis using assms(1) by simp
next
  case (Some s)
  obtain s' n where upd: "handle_update E clk (sm_drawn m) i s = (s', n)"
    by (cases "handle_update E clk (sm_drawn m) i s")
  then have eff: "s_send_priv s' = s_next_priv s" "s_next_priv s' = priv_key E (sm_drawn m)" "n = sm_drawn m + 1"
    by (auto simp: session_step_defs split: prod.splits)
  have step: "phase_step E (P_Update k clk i) m = put_session k s' n m"
    using Some upd by simp
  then have "priv_key E (sm_drawn m) \<notin> priv_key E ` {..<sm_drawn m}"
    using fresh_key [OF assms(2)] eff(3) by simp
  then show ?thesis using inv_ratchet [OF assms(1) Some eff(1,2)] eff(3) step by simp
qed

lemma inv_create:
  assumes inv: "nonce_inv E m log" and inj: "inj_on (priv_key E) {..<sm_drawn (phase_step E (P_Create k clk i) m)}"
  shows "nonce_inv E (phase_step E (P_Create k clk i) m) log"
proof (cases "hm_get (sm_sessions m) k")
  case (Some s)
  then show ?thesis using inv by simp
next
  case None
  obtain d s m1 where c: "create_session_from_init E clk m k i = (d, s, m1)"
    by (cases "create_session_from_init E clk m k i")
  let ?m = "insert_session k s (sm_drawn m1) m1"
  have step: "phase_step E (P_Create k clk i) m = ?m" using None c by simp
  have m1: "sm_sessions m1 = sm_sessions m" "sm_drawn m1 = sm_drawn m + 3"
    and wf: "hm_wf (sm_sessions m)" "hm_wf (sm_buffers m1)"
    using c inv by (auto simp: create_session_from_init_def session_info_new_def new_box_keys_def nonce_inv_def
        Let_def split: option.splits prod.splits)
  have drawn: "sm_drawn ?m = sm_drawn m + 3" by (simp add: insert_session_def m1)
  have get: "hm_get (sm_sessions ?m) k' = (if k' = k then Some s else hm_get (sm_sessions m) k')" for k'
    by (simp add: insert_session_def m1)
  have wf': "hm_wf (sm_sessions ?m)" "hm_wf (sm_buffers ?m)" "sm_drawn m \<le> sm_drawn ?m"
    and inj': "inj_on (priv_key E) {..<sm_drawn ?m}"
    using wf m1 inj unfolding step by (simp_all add: insert_session_def)
  have other: "nonce_of m k' \<le> nonce_of ?m k'" if "hm_get (sm_sessions m) k' \<noteq> None" for k'
    using that None by (auto simp: nonce_of_def get)
  show ?thesis
  proof (cases "hm_get (sm_buffers m) k")
    case (Some b)
    let ?src = "\<lambda>a. if a = SendKey k then BufCurrent k else if a = NextKey k then BufNext k else a"
    have s: "s_send_priv s = sb_current_priv b" "s_next_priv s = sb_next_priv b"
      and buf: "sm_buffers ?m = hm_remove k (sm_buffers m)"
      using c Some by (auto simp: create_session_from_init_def fix_shared_def insert_session_def split: prod.splits)
    have eq: "slot_key ?m a = (if a = BufCurrent k \<or> a = BufNext k then None else slot_key m (?src a))" for a
      by (cases a) (auto simp: get buf s Some)
    show ?thesis unfolding step
    proof (rule inv_move [OF inv wf' inj', where F = "{}" and src = ?src])
      show "p \<in> {} \<or> slot_key m (?src a) = Some p" if "slot_key ?m a = Some p" for a p
        using that unfolding eq by (simp split: if_splits)
      show "a = b" if "slot_key ?m a = Some p" "slot_key ?m b = Some p" "p \<in> {} \<or> ?src a = ?src b" for a b p
        using that unfolding eq by (auto split: if_splits simp del: slot_key.simps)
      show "a = SendKey k' \<and> nonce_of m k' \<le> nonce_of ?m k'" if "?src a = SendKey k'" "slot_key ?m a \<noteq> None" for a k'
        using that other [of k'] by (auto simp: eq split: if_splits)
    qed simp
  next
    case None': None
    let ?f = "priv_key E (sm_drawn m + 1)" and ?g = "priv_key E (sm_drawn m + 2)"
    have s: "s_send_priv s = ?f" "s_next_priv s = ?g" and buf: "sm_buffers ?m = sm_buffers m"
      using c None' by (auto simp: create_session_from_init_def session_info_new_def new_box_keys_def
          insert_session_def Let_def split: prod.splits)
    have eq: "slot_key ?m a = (if a = SendKey k then Some ?f else if a = NextKey k then Some ?g else slot_key m a)" for a
      by (cases a) (auto simp: get buf s)
    have fg: "?f \<noteq> ?g" using distinct_draws [OF inj] drawn step by simp
    have held: "slot_key m a \<noteq> Some ?f" "slot_key m a \<noteq> Some ?g" for a
      using drawn_not_held [OF inv inj] drawn step by simp_all
    show ?thesis unfolding step
    proof (rule inv_move [OF inv wf' inj', where F = "{?f, ?g}" and src = "\<lambda>a. if a = SendKey k then NextKey k else a"])
      show "{?f, ?g} \<subseteq> priv_key E ` {sm_drawn m..<sm_drawn ?m}" by (auto simp: drawn)
      show "p \<in> {?f, ?g} \<or> slot_key m (if a = SendKey k then NextKey k else a) = Some p"
        if "slot_key ?m a = Some p" for a p
        using that by (auto simp: eq split: if_splits)
      show "a = b" if "slot_key ?m a = Some p" "slot_key ?m b = Some p"
        "p \<in> {?f, ?g} \<or> (if a = SendKey k then NextKey k else a) = (if b = SendKey k then NextKey k else b)" for a b p
        using that fg held by (auto simp: eq split: if_splits)
      show "a = SendKey k' \<and> nonce_of m k' \<le> nonce_of ?m k'"
        if "(if a = SendKey k then NextKey k else a) = SendKey k'" "slot_key ?m a \<noteq> None" for a k'
        using that other [of k'] by (auto simp: eq split: if_splits)
    qed
  qed
qed

lemma inv_buffer:
  assumes inv: "nonce_inv E m log" and inj: "inj_on (priv_key E) {..<sm_drawn (phase_step E (P_Buffer k clk msg) m)}"
  shows "nonce_inv E (phase_step E (P_Buffer k clk msg) m) log"
proof -
  let ?m = "phase_step E (P_Buffer k clk msg) m"
  have wf: "hm_wf (sm_sessions ?m)" "hm_wf (sm_buffers ?m)" "sm_drawn m \<le> sm_drawn ?m"
    using inv by (auto simp: nonce_inv_def buffer_for_def split: prod.splits option.splits)
  have nonce: "nonce_of ?m = nonce_of m"
    by (auto simp: nonce_of_def buffer_for_def split: prod.splits option.splits)
  show ?thesis
  proof (cases "hm_get (sm_buffers m) k")
    case (Some b)
    have eq: "slot_key ?m a = slot_key m a" for a
      using Some by (cases a) (auto simp: buffer_for_def)
    show ?thesis
      by (rule inv_move [OF inv wf inj, where F = "{}" and src = "\<lambda>a. a"]) (simp_all add: eq nonce del: phase_step.simps)
  next
    case None
    let ?f = "priv_key E (sm_drawn m)" and ?g = "priv_key E (sm_drawn m + 1)"
    have drawn: "sm_drawn ?m = sm_drawn m + 2" using None by (simp add: buffer_for_def)
    have eq: "slot_key ?m a = (if a = BufCurrent k then Some ?f else if a = BufNext k then Some ?g else slot_key m a)" for a
      using None by (cases a) (auto simp: buffer_for_def)
    have fg: "?f \<noteq> ?g" using distinct_draws [OF inj] drawn by simp
    have held: "slot_key m a \<noteq> Some ?f" "slot_key m a \<noteq> Some ?g" for a
      using drawn_not_held [OF inv inj] drawn by simp_all
    show ?thesis
    proof (rule inv_move [OF inv wf inj, where F = "{?f, ?g}" and src = "\<lambda>a. a"])
      show "{?f, ?g} \<subseteq> priv_key E ` {sm_drawn m..<sm_drawn ?m}" unfolding drawn by auto
      show "p \<in> {?f, ?g} \<or> slot_key m a = Some p" if "slot_key ?m a = Some p" for a p
        using that unfolding eq by (auto split: if_splits)
      show "a = b" if "slot_key ?m a = Some p" "slot_key ?m b = Some p" "p \<in> {?f, ?g} \<or> a = b" for a b p
        using that fg held unfolding eq by (auto split: if_splits simp del: slot_key.simps)
      show "a = SendKey k' \<and> nonce_of m k' \<le> nonce_of ?m k'" if "a = SendKey k'" for a k'
        using that by (simp add: nonce del: phase_step.simps)
    qed
  qed
qed

lemma inv_cleanup:
  assumes inv: "nonce_inv E m log" and inj: "inj_on (priv_key E) {..<sm_drawn (phase_step E (P_Cleanup clk) m)}"
  shows "nonce_inv E (phase_step E (P_Cleanup clk) m) log"
proof -
  let ?m = "sm_cleanup_expired clk m"
  have wf: "hm_wf (sm_sessions m)" "hm_wf (sm_buffers m)" using inv by (simp_all add: nonce_inv_def)
  have sub: "slot_key ?m a = Some p \<Longrightarrow> slot_key m a = Some p" for a p
    using wf by (cases a) (auto simp: sm_cleanup_expired_def hm_get_retain split: option.splits if_splits)
  have nonce: "slot_key ?m (SendKey k) \<noteq> None \<Longrightarrow> nonce_of ?m k = nonce_of m k" for k
    using wf by (auto simp: nonce_of_def sm_cleanup_expired_def hm_get_retain split: option.splits if_splits)
  have wf': "hm_wf (sm_sessions ?m)" "hm_wf (sm_buffers ?m)" "sm_drawn m \<le> sm_drawn ?m"
    using wf by (simp_all add: sm_cleanup_expired_def)
  show ?thesis unfolding phase_step.simps
  proof (rule inv_move [OF inv wf', where F = "{}" and src = "\<lambda>a. a"])
    show "inj_on (priv_key E) {..<sm_drawn ?m}" using inj by simp
    show "a = SendKey k \<and> nonce_of m k \<le> nonce_of ?m k" if "a = SendKey k" "slot_key ?m a \<noteq> None" for a k
      using that nonce by simp
  qed (use sub in auto)
qed

lemma inv_draw:
  assumes inv: "nonce_inv E m log" and inj: "inj_on (priv_key E) {..<sm_drawn (phase_step E P_Draw m)}"
  shows "nonce_inv E (phase_step E P_Draw m) log"
proof -
  have eq: "slot_key (m\<lparr>sm_drawn := n\<rparr>) a = slot_key m a" for a n by (cases a) auto
  show ?thesis
    by (rule inv_move [OF inv _ _ _ inj, where F = "{}" and src = "\<lambda>a. a"])
      (use inv in \<open>auto simp: eq nonce_of_def nonce_inv_def simp del: slot_key.simps\<close>)
qed

lemma inv_sent:
  assumes "nonce_inv E m log"
  shows "nonce_inv E (phase_step E (P_Sent k clk len) m) log"
  using assms inv_keep [OF assms, of k] by (auto split: option.splits)

lemma inv_phase:
  assumes "nonce_inv E m log" "inj_on (priv_key E) {..<sm_drawn (phase_step E ph m)}"
  shows "nonce_inv E (phase_step E ph m) (log @ sealed_with E ph m)"
  using assms inv_snapshot inv_sent inv_receive inv_update inv_create inv_buffer inv_draw inv_cleanup
  by (cases ph) (simp_all del: phase_step.simps)

lemma phase_step_drawn: "sm_drawn m \<le> sm_drawn (phase_step E ph m)"
proof (cases ph)
  case (P_Receive k clk snap inner len)
  have "n \<le> snd (maybe_ratchet_on_recv E clk n inner x s)" for n x s
    using maybe_ratchet_cases [of E clk n inner x s] by auto
  then show ?thesis
    using P_Receive
    by (auto simp: recv_finalize_def Let_def split: option.splits prod.splits decrypt_case.splits)
      (metis snd_conv)+
qed (auto simp: send_snapshot_def session_step_defs create_session_from_init_def session_info_new_def
    buffer_for_def sm_cleanup_expired_def insert_session_def split: option.splits prod.splits)

lemma phase_run_Cons:
  "snd (phase_run E (ph # phs) m) = snd (phase_run E phs (phase_step E ph m))"
  "fst (phase_run E (ph # phs) m) = sealed_with E ph m @ fst (phase_run E phs (phase_step E ph m))"
  by (simp_all add: Let_def case_prod_unfold)

lemma phase_run_drawn: "sm_drawn m \<le> sm_drawn (snd (phase_run E phs m))"
proof (induction phs arbitrary: m)
  case (Cons ph phs)
  show ?case
    using order_trans [OF phase_step_drawn [of m E ph] Cons.IH [of "phase_step E ph m"]]
    by (simp only: phase_run_Cons)
qed simp

lemma phase_run_inv:
  assumes "nonce_inv E m old" "inj_on (priv_key E) {..<sm_drawn (snd (phase_run E phs m))}"
  shows "nonce_inv E (snd (phase_run E phs m)) (old @ fst (phase_run E phs m))"
  using assms
proof (induction phs arbitrary: m old)
  case Nil
  then show ?case by simp
next
  case (Cons ph phs)
  let ?m = "phase_step E ph m"
  note run = phase_run_Cons [of E ph phs m]
  have "inj_on (priv_key E) {..<sm_drawn ?m}"
    using Cons.prems(2) phase_run_drawn [of ?m E phs] unfolding run
    by (auto intro: inj_on_subset)
  then have "nonce_inv E ?m (old @ sealed_with E ph m)" using inv_phase Cons.prems(1) by blast
  from Cons.IH [OF this] Cons.prems(2) show ?case unfolding run by simp
qed

lemma nonce_inv_new: "nonce_inv E (session_manager_new ga timeout n) []"
proof -
  have "slot_key (session_manager_new ga timeout n) a = None" for a
    by (cases a) (auto simp: session_manager_new_def)
  then show ?thesis by (simp add: nonce_inv_def good_def session_manager_new_def)
qed

subsection \<open>The handlers are made of phases\<close>

definition phases :: "crypto_env \<Rightarrow> session_manager \<Rightarrow> session_manager \<Rightarrow> bool" where
  "phases E m m' \<longleftrightarrow> (\<exists>phs. m' = snd (phase_run E phs m))"

lemma phases_refl: "phases E m m"
  unfolding phases_def by (rule exI [of _ "[]"]) simp

lemma phases_step: "phases E (phase_step E ph m) m' \<Longrightarrow> phases E m m'"
  unfolding phases_def by (metis phase_run_Cons(1))

lemma phases_two:
  "m' \<in> {phase_step E a m, phase_step E b (phase_step E a m)} \<Longrightarrow> phases E m m'"
  using phases_step phases_refl by (metis empty_iff insert_iff)

lemma phases_trans: "phases E m1 m2 \<Longrightarrow> phases E m2 m3 \<Longrightarrow> phases E m1 m3"
proof -
  have "phases E (snd (phase_run E phs m)) m3 \<Longrightarrow> phases E m m3" for phs m
  proof (induction phs arbitrary: m)
    case (Cons ph phs)
    then show ?case using phases_step [of E ph m m3] by (simp only: phase_run_Cons)
  qed simp
  then show "phases E m1 m2 \<Longrightarrow> phases E m2 m3 \<Longrightarrow> phases E m1 m3"
    unfolding phases_def [of E m1 m2] by blast
qed

lemma send_handshake_phases: "phases E m (snd (send_handshake E m i ed dest ty))"
proof -
  have "snd (send_handshake E m i ed dest ty) = phase_step E P_Draw m"
    by (auto simp: send_handshake_def session_init_encrypt_def new_box_keys_def Let_def
        split: sum.splits option.splits prod.splits)
  then show ?thesis using phases_step [OF phases_refl] by metis
qed

lemma resync_init_phases: "phases E m (snd (resync_init E clk m peer p q l ed))"
  by (simp add: resync_init_def send_handshake_phases)

lemma buffer_and_init_phases: "phases E m (snd (buffer_and_init E clk m dest msg ed))"
proof -
  have "\<exists>i. buffer_and_init E clk m dest msg ed =
      send_handshake E (phase_step E (P_Buffer dest clk msg) m) i ed dest SESSION_TYPE_INIT"
    by (auto simp: buffer_and_init_def buffer_for_def new_box_keys_def Let_def split: option.splits prod.splits)
  then show ?thesis using phases_step send_handshake_phases by metis
qed

lemma put_put: "put_session k s2 n2 (put_session k s1 n1 m) = put_session k s2 n2 m"
  by (simp add: put_session_def hm_modify_modify)

lemma write_to_phases: "phases E m (snd (sm_write_to E clk m dest msg ed))"
proof (cases "hm_get (sm_sessions m) dest")
  case None
  then show ?thesis using buffer_and_init_phases by (simp add: sm_write_to_def)
next
  case (Some s)
  obtain r s' n where snap: "send_snapshot E (sm_drawn m) s = ((r, s'), n)"
    by (metis prod.collapse)
  let ?m1 = "phase_step E (P_Snapshot dest) m" and ?len = "of_nat (length msg)"
  have m1: "?m1 = put_session dest s' n m" using Some snap by simp
  have m2: "phase_step E (P_Sent dest clk ?len) ?m1 = put_session dest (send_finalize clk ?len s') n m"
    using Some unfolding m1 by (simp add: put_put)
  have "snd (sm_write_to E clk m dest msg ed) \<in> {?m1, phase_step E (P_Sent dest clk ?len) ?m1}"
    using Some snap unfolding m1 m2 [unfolded m1] by (auto simp: sm_write_to_def split: sum.splits)
  then show ?thesis by (rule phases_two)
qed

lemma sm_handle_traffic_phases: "phases E m (snd (sm_handle_traffic E clk m peer data ed))"
proof (cases "hm_get (sm_sessions m) peer")
  case None
  then have "\<exists>p q. sm_handle_traffic E clk m peer data ed =
      resync_init E clk (phase_step E P_Draw (phase_step E P_Draw m)) peer p q 0 ed"
    by (auto simp: sm_handle_traffic_def new_box_keys_def Let_def split: prod.splits)
  then show ?thesis using phases_step resync_init_phases by metis
next
  case (Some s)
  show ?thesis
  proof (cases "\<exists>snap payload inner. recv_snapshot s data = Inr snap \<and> decrypt_outside_lock E snap data = Inr (payload, inner)")
    case True
    then obtain snap payload inner where ok: "recv_snapshot s data = Inr snap"
      "decrypt_outside_lock E snap data = Inr (payload, inner)" by blast
    let ?m1 = "phase_step E (P_Receive peer clk snap inner (of_nat (length payload))) m"
    have "snd (sm_handle_traffic E clk m peer data ed) = ?m1 \<or>
        snd (sm_handle_traffic E clk m peer data ed) = snd (sm_write_to E clk ?m1 peer KEEPALIVE_ACK ed)"
      using Some ok by (auto simp: sm_handle_traffic_def Let_def split: prod.splits)
    then show ?thesis using phases_step [OF phases_refl] phases_step [OF write_to_phases] by metis
  next
    case False
    then have "snd (sm_handle_traffic E clk m peer data ed) = m \<or>
        (\<exists>p q l. sm_handle_traffic E clk m peer data ed = resync_init E clk m peer p q l ed)"
      using Some
      by (auto simp: sm_handle_traffic_def split: sum.splits recv_snapshot_error.splits recv_action.splits) blast+
    then show ?thesis using phases_refl resync_init_phases by metis
  qed
qed

lemma put_insert:
  assumes "hm_get (sm_sessions m) k = None"
  shows "put_session k s2 n2 (insert_session k s1 n1 m) = insert_session k s2 n2 m"
proof -
  have "hm_modify k (\<lambda>_. s2) (hm_insert k s1 (sm_sessions m)) = hm_insert k s2 (sm_sessions m)"
    using assms by (simp add: hm_insert_absent hm_modify_append hm_modify_absent) (simp add: hm_modify_def)
  then show ?thesis by (simp add: put_session_def insert_session_def)
qed

lemma insert_session_sel [simp]:
  "hm_get (sm_sessions (insert_session k s n m)) k' = (if k' = k then Some s else hm_get (sm_sessions m) k')"
  "sm_drawn (insert_session k s n m) = n"
  by (simp_all add: insert_session_def)

lemma send_buffered_phases:
  assumes "hm_get (sm_sessions m) k = None" "send_buffered E clk n0 k d s = (t, s', n)"
  shows "phases E (insert_session k s n0 m) (insert_session k s' n m)"
proof (cases d)
  case None
  then show ?thesis using assms(2) phases_refl by (simp add: send_buffered_def)
next
  case (Some buf)
  let ?m = "insert_session k s n0 m"
  obtain r s1 n1 where snap: "send_snapshot E n0 s = ((r, s1), n1)" by (metis prod.collapse)
  let ?m1 = "phase_step E (P_Snapshot k) ?m" and ?len = "of_nat (length buf)"
  have m1: "?m1 = insert_session k s1 n1 m" using snap assms(1) by (simp add: put_insert)
  have m2: "phase_step E (P_Sent k clk ?len) ?m1 = insert_session k (send_finalize clk ?len s1) n1 m"
    unfolding m1 using assms(1) by (simp add: put_insert)
  have "insert_session k s' n m \<in> {?m1, phase_step E (P_Sent k clk ?len) ?m1}"
    using assms(2) Some snap unfolding m1 m2 [unfolded m1]
    by (auto simp: send_buffered_def do_send_def split: sum.splits)
  then show ?thesis by (rule phases_two)
qed

lemma insert_session_eq: "insert_session k s n (m\<lparr>sm_drawn := n'\<rparr>) = insert_session k s n m"
  by (simp add: insert_session_def)

lemma create_phases:
  assumes "hm_get (sm_sessions m) peer = None" "create_session_from_init E clk m peer i = (d, s, m1)"
  shows "phases E m (insert_session peer s (sm_drawn m1) m1)" "hm_get (sm_sessions m1) peer = None"
proof -
  have "insert_session peer s (sm_drawn m1) m1 = phase_step E (P_Create peer clk i) m" using assms by simp
  then show "phases E m (insert_session peer s (sm_drawn m1) m1)"
    using phases_step [OF phases_refl] by metis
  show "hm_get (sm_sessions m1) peer = None"
    using assms by (auto simp: create_session_from_init_def split: option.splits prod.splits)
qed

lemma handle_init_phases: "phases E m (snd (handle_init E clk m peer i ed))"
proof (cases "hm_get (sm_sessions m) peer")
  case (Some s)
  let ?m = "phase_step E (P_Update peer clk i) m"
  have "handle_init E clk m peer i ed = ([], m) \<or>
      (\<exists>ack. handle_init E clk m peer i ed = send_handshake E ?m ack ed peer SESSION_TYPE_ACK)"
    using Some by (auto simp: handle_init_def Let_def split: prod.splits)
  then show ?thesis using phases_refl phases_step [OF send_handshake_phases] by (metis snd_conv)
next
  case None
  obtain d s m1 where c: "create_session_from_init E clk m peer i = (d, s, m1)"
    by (cases "create_session_from_init E clk m peer i")
  obtain t s' n where sb: "send_buffered E clk (sm_drawn m1) peer d s = (t, s', n)"
    by (cases "send_buffered E clk (sm_drawn m1) peer d s")
  have "\<exists>ack. snd (handle_init E clk m peer i ed) =
      snd (send_handshake E (insert_session peer s' n m1) ack ed peer SESSION_TYPE_ACK)"
    using None c sb
    by (intro exI [of _ "session_init_new clk (s_send_pub s) (s_next_pub s) (s_local_key_seq s)"])
      (simp add: handle_init_def Let_def split: prod.splits)
  moreover have "phases E m (insert_session peer s' n m1)"
    using phases_trans [OF create_phases(1) [OF None c] send_buffered_phases [OF create_phases(2) [OF None c] sb]] .
  ultimately show ?thesis using phases_trans send_handshake_phases by metis
qed

lemma handle_ack_phases: "phases E m (snd (handle_ack E clk m peer i ed))"
proof (cases "hm_get (sm_sessions m) peer")
  case (Some s)
  then have "snd (handle_ack E clk m peer i ed) = m \<or>
      snd (handle_ack E clk m peer i ed) = phase_step E (P_Update peer clk i) m"
    by (auto simp: handle_ack_def Let_def split: prod.splits)
  then show ?thesis using phases_refl phases_step [OF phases_refl] by metis
next
  case None
  obtain d s m1 where c: "create_session_from_init E clk m peer i = (d, s, m1)"
    by (cases "create_session_from_init E clk m peer i")
  note m1 = create_phases [OF None c]
  obtain s2 n2 where u: "(if si_seq i > s_seq s then handle_update E clk (sm_drawn m1) i s else (s, sm_drawn m1)) = (s2, n2)"
    by (metis prod.collapse)
  have upd: "phases E (insert_session peer s (sm_drawn m1) m1) (insert_session peer s2 n2 m1)"
  proof (cases "si_seq i > s_seq s")
    case True
    then have "insert_session peer s2 n2 m1 = phase_step E (P_Update peer clk i) (insert_session peer s (sm_drawn m1) m1)"
      using u m1(2) by (simp add: put_insert)
    then show ?thesis using phases_step [OF phases_refl] by metis
  next
    case False
    then show ?thesis using u phases_refl by simp
  qed
  have draw: "phases E (insert_session peer s2 n2 m1) (insert_session peer s2 (n2 + 1) m1)"
  proof -
    have "insert_session peer s2 (n2 + 1) m1 = phase_step E P_Draw (insert_session peer s2 n2 m1)"
      by (simp add: insert_session_def)
    then show ?thesis using phases_step [OF phases_refl] by metis
  qed
  obtain acks m2 where hs: "send_handshake E (m1\<lparr>sm_drawn := n2\<rparr>)
      (session_init_new clk (s_send_pub s2) (s_next_pub s2) (s_local_key_seq s2)) ed peer SESSION_TYPE_ACK = (acks, m2)"
    by (metis prod.collapse)
  then have m2: "m2 = m1\<lparr>sm_drawn := n2 + 1\<rparr>"
    by (auto simp: send_handshake_def session_init_encrypt_def new_box_keys_def Let_def
        split: sum.splits option.splits prod.splits)
  obtain t s3 n3 where sb: "send_buffered E clk (sm_drawn m2) peer d s2 = (t, s3, n3)"
    by (metis prod.collapse)
  have "snd (handle_ack E clk m peer i ed) = insert_session peer s3 n3 m2"
    using None c u hs sb by (simp add: handle_ack_def Let_def)
  also have "\<dots> = insert_session peer s3 n3 m1" by (simp add: m2 insert_session_eq)
  finally show ?thesis
    using phases_trans [OF m1(1) phases_trans [OF upd phases_trans [OF draw send_buffered_phases [OF m1(2)]]]] sb m2
    by simp
qed

lemma handle_data_phases: "phases E m (snd (sm_handle_data E clk m peer data priv ed))"
  using phases_refl [of E m] handle_init_phases [of E m clk peer _ ed] handle_ack_phases [of E m clk peer _ ed]
    sm_handle_traffic_phases [of E m clk peer data ed]
  by (auto simp: sm_handle_data_def split: sum.splits)

text \<open>C6. No private key ever seals two traffic messages with the same nonce. This holds for every
  interleaving of the critical sections of the session manager, starting from an empty one, as long
  as the random generator does not repeat a private key. The handlers for incoming data and for
  writes are sequences of these critical sections.\<close>

theorem nonce_never_reused:
  "(phase_run E phs (session_manager_new ga timeout n) = (log, m) \<and>
      inj_on (\<lambda>i. snd (ce_box_keys E i)) {..<sm_drawn m} \<longrightarrow> distinct log) \<and>
   (\<exists>phs. snd (sm_handle_data E clk m0 peer data priv ed) = snd (phase_run E phs m0)) \<and>
   (\<exists>phs. snd (sm_write_to E clk m0 dest msg ed) = snd (phase_run E phs m0))"
proof (intro conjI impI)
  assume run: "phase_run E phs (session_manager_new ga timeout n) = (log, m) \<and>
      inj_on (\<lambda>i. snd (ce_box_keys E i)) {..<sm_drawn m}"
  then have "nonce_inv E m log"
    using phase_run_inv [OF nonce_inv_new, of E phs ga timeout n] by simp
  then show "distinct log" by (simp add: nonce_inv_def good_def)
qed (use handle_data_phases write_to_phases in \<open>auto simp: phases_def\<close>)

definition nonce_phases :: "phase list" where
  "nonce_phases =
     (let clk = \<lparr>ck_now = 0, ck_unix = 1\<rparr>
      in [P_Create [1] clk sample_init, P_Snapshot [1], P_Snapshot [1], P_Update [1] clk sample_init,
          P_Sent [1] clk 5, P_Snapshot [1], P_Draw, P_Snapshot [1]])"

theorem nonce_never_reused_witness:
  "map snd (fst (phase_run mock_env nonce_phases (session_manager_new \<lparr>ga_secret = None\<rparr> 60 0))) = [1, 2, 3, 4] \<and>
   distinct (fst (phase_run mock_env nonce_phases (session_manager_new \<lparr>ga_secret = None\<rparr> 60 0)))"
proof
  let ?r = "phase_run mock_env nonce_phases (session_manager_new \<lparr>ga_secret = None\<rparr> 60 0)"
  show "map snd (fst ?r) = [1, 2, 3, 4]" by code_simp
  have "sm_drawn (snd ?r) = 5" by code_simp
  then have "inj_on (\<lambda>i. snd (ce_box_keys mock_env i)) {..<sm_drawn (snd ?r)}"
    using mock_keys_inj [of 5] by simp
  then show "distinct (fst ?r)"
    using nonce_never_reused [of mock_env nonce_phases "\<lparr>ga_secret = None\<rparr>" 60 0 "fst ?r" "snd ?r"] by simp
qed

section \<open>Well-formed managers\<close>

definition manager_wf :: "crypto_env \<Rightarrow> session_manager \<Rightarrow> bool" where
  "manager_wf E m \<longleftrightarrow>
     hm_wf (sm_sessions m) \<and> hm_wf (sm_buffers m) \<and>
     (\<forall>k s. hm_get (sm_sessions m) k = Some s \<longrightarrow> session_wf E s) \<and>
     (\<forall>k b. hm_get (sm_buffers m) k = Some b \<longrightarrow>
        own_pair E (si_current (sb_init b)) (sb_current_priv b) \<and> own_pair E (si_next (sb_init b)) (sb_next_priv b))"

lemma manager_wf_put:
  "manager_wf E m \<Longrightarrow> session_wf E s \<Longrightarrow> manager_wf E (put_session k s n m)"
  by (auto simp: manager_wf_def simp del: map_map)

lemma create_wf:
  assumes "manager_wf E m" "create_session_from_init E clk m k i = (d, s, m1)"
  shows "session_wf E s \<and> manager_wf E m1"
proof (cases "hm_get (sm_buffers m) k")
  case None
  then show ?thesis
    using assms session_info_new_wf [of E clk "sm_drawn m" "si_current i" "si_next i" "si_seq i"]
    by (auto simp: create_session_from_init_def manager_wf_def split: prod.splits)
next
  case (Some b)
  then have "own_pair E (si_current (sb_init b)) (sb_current_priv b)" "own_pair E (si_next (sb_init b)) (sb_next_priv b)"
    using assms(1) by (auto simp: manager_wf_def)
  then show ?thesis
    using assms Some session_info_new_wf [of E clk "sm_drawn m" "si_current i" "si_next i" "si_seq i"]
    by (auto simp: create_session_from_init_def manager_wf_def session_wf_def fix_shared_def split: prod.splits if_splits)
qed

lemma manager_wf_phase:
  assumes "manager_wf E m"
  shows "manager_wf E (phase_step E ph m)"
proof (cases ph)
  case (P_Snapshot k)
  then show ?thesis
    using assms send_snapshot_wf [of E _ "sm_drawn m"]
    by (auto simp: manager_wf_put split: option.splits prod.splits) (metis fst_conv manager_wf_def manager_wf_put snd_conv)
next
  case (P_Sent k clk len)
  then show ?thesis
    using assms by (auto split: option.splits intro!: manager_wf_put send_finalize_wf simp: manager_wf_def)
next
  case (P_Receive k clk snap inner len)
  then show ?thesis
    using assms recv_finalize_wf [of E _ clk "sm_drawn m" snap inner len]
    by (auto split: option.splits prod.splits) (metis fst_conv manager_wf_def manager_wf_put)
next
  case (P_Update k clk i)
  then show ?thesis
    using assms handle_update_wf [of E _ clk "sm_drawn m" i]
    by (auto split: option.splits prod.splits) (metis fst_conv manager_wf_def manager_wf_put)
next
  case (P_Create k clk i)
  show ?thesis
  proof (cases "hm_get (sm_sessions m) k")
    case None
    obtain d s m1 where c: "create_session_from_init E clk m k i = (d, s, m1)"
      by (cases "create_session_from_init E clk m k i")
    from create_wf [OF assms c] show ?thesis
      using P_Create None c by (auto simp: manager_wf_def insert_session_def)
  qed (use P_Create assms in simp)
next
  case (P_Buffer k clk msg)
  then show ?thesis
    using assms by (auto simp: manager_wf_def buffer_for_def session_init_new_def split: option.splits prod.splits)
next
  case (P_Cleanup clk)
  then show ?thesis
    using assms by (auto simp: manager_wf_def sm_cleanup_expired_def hm_get_retain split: option.splits if_splits)
qed (use assms in \<open>auto simp: manager_wf_def\<close>)

interpretation session_phases: event_invariant "phase_step E" "\<lambda>_. True" "manager_wf E" for E
  by unfold_locales (rule manager_wf_phase)

lemma phases_wf:
  assumes "phases E m m'" "manager_wf E m"
  shows "manager_wf E m'"
proof -
  have "snd (phase_run E phs m) = fold (phase_step E) phs m" for phs
    by (induction phs arbitrary: m) (simp_all add: Let_def case_prod_unfold)
  moreover have "manager_wf E (fold (phase_step E) phs m)" for phs
    by (rule session_phases.run_inv [OF assms(2)]) (simp add: list_all_iff)
  ultimately show ?thesis using assms(1) unfolding phases_def by metis
qed

text \<open>C31. In every state of the session manager the four shared keys of each session are those of its
  key pairs and of the remote keys it holds, and all its key pairs, and those of the buffers, are
  pairs that were drawn together. The state is created so, and every handler and the clean-up keep
  it so, whatever bytes arrive.\<close>

theorem manager_well_formed:
  "manager_wf E (session_manager_new ga timeout n) \<and>
   (manager_wf E m \<longrightarrow>
      manager_wf E (snd (sm_handle_data E clk m peer data priv ed)) \<and>
      manager_wf E (snd (sm_write_to E clk m dest msg ed)) \<and>
      manager_wf E (sm_cleanup_expired clk m))"
proof (intro conjI impI)
  show "manager_wf E (session_manager_new ga timeout n)"
    by (simp add: manager_wf_def session_manager_new_def)
qed (use phases_wf [OF handle_data_phases] phases_wf [OF write_to_phases]
    manager_wf_phase [of E m "P_Cleanup clk"] in simp_all)

theorem manager_well_formed_witness:
  "manager_wf mock_env (snd (sm_write_to mock_env \<lparr>ck_now = 0, ck_unix = 5\<rparr>
     (session_manager_new \<lparr>ga_secret = None\<rparr> 60 0) [2] [9] [1]))"
  using manager_well_formed [of mock_env "\<lparr>ga_secret = None\<rparr>" 60 0 "session_manager_new \<lparr>ga_secret = None\<rparr> 60 0"] by blast

end
