(* ===== verification/Encrypted_Conn.thy ===== *)
theory Encrypted_Conn
  imports Session_Safety
begin

text \<open>
  The encrypted packet connection, \<open>crates/ironwood/src/encrypted/mod.rs\<close>: the list of recently
  used destinations for remote keepalives, reading and writing, one round of the reader task and
  one round of the keepalive task. The network connection underneath (\<open>inner\<close>) is a parameter: its
  MTU and, for every write, the error it returns if any. The channel between the reader task and
  \<open>read_from\<close> is the list \<open>ec_inbox\<close>.
\<close>

section \<open>Recently used destinations\<close>

record remote_keepalive_lru =
  lru_capacity :: nat
  lru_order :: "public_key list"

definition lru_new :: "nat \<Rightarrow> remote_keepalive_lru" where
  "lru_new capacity = \<lparr>lru_capacity = capacity, lru_order = []\<rparr>"

fun lru_trim :: "nat \<Rightarrow> public_key list \<Rightarrow> public_key list" where
  "lru_trim capacity order =
     (if length order > capacity then lru_trim capacity (tl order) else order)"

declare lru_trim.simps [simp del]

definition lru_touch :: "public_key \<Rightarrow> remote_keepalive_lru \<Rightarrow> remote_keepalive_lru" where
  "lru_touch key lru =
     (if lru_capacity lru = 0 then lru
      else lru\<lparr>lru_order := lru_trim (lru_capacity lru) (remove1 key (lru_order lru) @ [key])\<rparr>)"

definition lru_keys :: "remote_keepalive_lru \<Rightarrow> public_key list" where
  "lru_keys lru = lru_order lru"

lemma lru_trim_drop: "lru_trim c xs = drop (length xs - c) xs"
proof (induction c xs rule: lru_trim.induct)
  case (1 c xs)
  show ?case
  proof (cases "length xs > c")
    case True
    then obtain x ys where "xs = x # ys" by (cases xs) auto
    then show ?thesis using 1 True by (simp add: lru_trim.simps [of c "x # ys"] Suc_diff_le)
  next
    case False
    then show ?thesis by (simp add: lru_trim.simps [of c xs])
  qed
qed

text \<open>The reference: the last \<open>c\<close> different keys, in the order of their last use.\<close>

definition most_recent :: "nat \<Rightarrow> public_key list \<Rightarrow> public_key list" where
  "most_recent c ks = drop (length (remdups ks) - c) (remdups ks)"

lemma remdups_snoc: "remdups (ks @ [k]) = remove1 k (remdups ks) @ [k]"
  by (induction ks) (auto simp: remove1_idem)

lemma remove1_distinct_drop:
  "distinct xs \<Longrightarrow> k \<in> set (drop n xs) \<Longrightarrow> drop n (remove1 k xs) = remove1 k (drop n xs)"
proof (induction xs arbitrary: n)
  case (Cons x xs)
  then show ?case by (cases n) (auto dest: in_set_dropD)
qed simp

lemma remove1_not_in_drop:
  "distinct xs \<Longrightarrow> k \<in> set xs \<Longrightarrow> k \<notin> set (drop n xs) \<Longrightarrow> drop n xs = drop (n - 1) (remove1 k xs)"
proof (induction xs arbitrary: n)
  case (Cons x xs)
  show ?case
  proof (cases n)
    case (Suc m)
    then show ?thesis using Cons.prems Cons.IH [of m] by (cases "k = x"; cases m) auto
  qed (use Cons.prems in simp)
qed simp

lemma most_recent_touch:
  assumes "0 < c"
  shows "lru_trim c (remove1 k (most_recent c ks) @ [k]) = most_recent c (ks @ [k])"
proof -
  let ?u = "remdups ks" and ?n = "length (remdups ks) - c"
  have d: "distinct ?u" by simp
  consider (new) "k \<notin> set ?u" | (kept) "k \<in> set (drop ?n ?u)" | (lost) "k \<in> set ?u" "k \<notin> set (drop ?n ?u)" by blast
  then show ?thesis
  proof cases
    case new
    then have "k \<notin> set (drop ?n ?u)" by (auto dest: in_set_dropD)
    then show ?thesis
      using new assms
      by (cases "c \<le> length ?u") (simp_all add: most_recent_def lru_trim_drop remdups_snoc remove1_idem Suc_diff_le)
  next
    case kept
    then have k: "k \<in> set ?u" by (auto dest: in_set_dropD)
    then have "0 < length ?u" by (cases ?u) auto
    then show ?thesis
      using kept k assms remove1_distinct_drop [OF d kept]
      by (auto simp: most_recent_def lru_trim_drop remdups_snoc length_remove1 drop_append)
  next
    case lost
    then have "c < length ?u" by (cases "c < length ?u") auto
    then show ?thesis
      using lost assms remove1_not_in_drop [OF d lost]
      by (auto simp: most_recent_def lru_trim_drop remdups_snoc length_remove1 remove1_idem Suc_diff_Suc)
  qed
qed

lemma lru_touches:
  "0 < c \<Longrightarrow> lru_order (fold lru_touch ks (lru_new c)) = most_recent c ks \<and>
   lru_capacity (fold lru_touch ks (lru_new c)) = c"
proof (induction ks rule: rev_induct)
  case Nil
  then show ?case by (simp add: lru_new_def most_recent_def)
next
  case (snoc k ks)
  then show ?case by (simp add: lru_touch_def most_recent_touch)
qed

lemma lru_touches_zero: "fold lru_touch ks (lru_new 0) = lru_new 0"
  by (induction ks) (auto simp: lru_touch_def lru_new_def)

text \<open>After any sequence of writes the keepalive list holds exactly the most recently used
  destinations, as many as its capacity allows, each once and in the order of their last use.\<close>

theorem lru_exact: "lru_keys (fold lru_touch ks (lru_new c)) = most_recent c ks"
  using lru_touches [of c ks] lru_touches_zero [of ks]
  by (cases c) (auto simp: lru_keys_def most_recent_def lru_new_def)

section \<open>The network connection underneath\<close>

text \<open>What \<open>write_to\<close> and \<open>write_keepalive\<close> of \<open>PacketConnImpl\<close> in
  \<open>crates/ironwood/src/core.rs\<close> do: they hand a traffic packet to the router, or fail.\<close>

record packet_conn =
  pc_pub_key :: public_key
  pc_max_message_size :: u64
  pc_closed :: bool

definition pc_mtu :: "packet_conn \<Rightarrow> u64" where
  "pc_mtu pc =
     (let tr = \<lparr>tr_path = [], tr_from = [], tr_source = replicate 32 0, tr_dest = replicate 32 0,
                tr_watermark = u64_max, tr_payload = []\<rparr>;
          overhead = traffic_size tr + 1
      in saturating_sub (pc_max_message_size pc) (of_nat overhead))"

definition pc_write_to :: "packet_conn \<Rightarrow> bytes \<Rightarrow> public_key \<Rightarrow> nat res \<times> traffic_packet list" where
  "pc_write_to pc buf dest =
     (if pc_closed pc then (Inl Closed, [])
      else if of_nat (length buf) > pc_mtu pc then (Inl OversizedMessage, [])
      else (Inr (length buf), [traffic_packet_new (pc_pub_key pc) dest buf]))"

definition pc_write_keepalive :: "packet_conn \<Rightarrow> bytes \<Rightarrow> public_key \<Rightarrow> nat res \<times> traffic_packet list" where
  "pc_write_keepalive pc buf dest =
     (if pc_closed pc then (Inl Closed, [])
      else if of_nat (length buf) > pc_mtu pc then (Inl OversizedMessage, [])
      else (Inr (length buf), [keepalive (traffic_packet_new (pc_pub_key pc) dest buf)]))"

section \<open>The encrypted connection\<close>

record encrypted_conn =
  ec_inner :: packet_conn
  ec_signing_key :: signing_key
  ec_curve_priv :: curve_private_key
  ec_sessions :: session_manager
  ec_inbox :: "(public_key \<times> bytes) list"
  ec_closed :: bool
  ec_lru :: remote_keepalive_lru

definition encrypted_conn_new ::
    "crypto_env \<Rightarrow> signing_key \<Rightarrow> bytes option \<Rightarrow> duration \<Rightarrow> nat \<Rightarrow> u64 \<Rightarrow> encrypted_conn" where
  "encrypted_conn_new E secret group_password session_timeout remote_count max_message_size =
     \<lparr>ec_inner = \<lparr>pc_pub_key = ce_verifying_key E secret, pc_max_message_size = max_message_size,
                   pc_closed = False\<rparr>,
      ec_signing_key = secret, ec_curve_priv = ed25519_private_to_curve25519 E secret,
      ec_sessions = session_manager_new
        (group_auth_new E (case group_password of Some pw \<Rightarrow> pw | None \<Rightarrow> [])) session_timeout 0,
      ec_inbox = [], ec_closed = False, ec_lru = lru_new remote_count\<rparr>"

definition ec_mtu :: "encrypted_conn \<Rightarrow> u64" where
  "ec_mtu c = saturating_sub (pc_mtu (ec_inner c)) SESSION_TRAFFIC_OVERHEAD"

text \<open>\<open>read_from\<close> waits (\<open>None\<close>) while the channel is empty; \<open>try_read_from\<close> returns \<open>Ok(None)\<close>.\<close>

definition ec_read_from ::
    "encrypted_conn \<Rightarrow> nat \<Rightarrow> ((bytes \<times> public_key) res \<times> encrypted_conn) option" where
  "ec_read_from c buf_len =
     (if ec_closed c then Some (Inl Closed, c)
      else case ec_inbox c of
             [] \<Rightarrow> None
           | (source, data) # rest \<Rightarrow>
               (let n = min buf_len (length data)
                in Some (Inr (take n data, source), c\<lparr>ec_inbox := rest\<rparr>)))"

definition ec_try_read_from ::
    "encrypted_conn \<Rightarrow> nat \<Rightarrow> (bytes \<times> public_key) option res \<times> encrypted_conn" where
  "ec_try_read_from c buf_len =
     (if ec_closed c then (Inl Closed, c)
      else case ec_inbox c of
             [] \<Rightarrow> (Inr None, c)
           | (source, data) # rest \<Rightarrow>
               (let n = min buf_len (length data)
                in (Inr (Some (take n data, source)), c\<lparr>ec_inbox := rest\<rparr>)))"

text \<open>The loop over the actions of a write stops at the first error of the network connection.\<close>

fun write_actions ::
    "out_action list \<Rightarrow> encrypted_conn \<Rightarrow> unit res \<times> traffic_packet list \<times> encrypted_conn" where
  "write_actions [] c = (Inr (), [], c)"
| "write_actions (SendToInner dest data # acts) c =
     (case pc_write_to (ec_inner c) data dest of
        (Inl e, pkts) \<Rightarrow> (Inl e, pkts, c)
      | (Inr _, pkts) \<Rightarrow> (case write_actions acts c of (r, rest, c) \<Rightarrow> (r, pkts @ rest, c)))"
| "write_actions (Deliver source data # acts) c =
     write_actions acts (c\<lparr>ec_inbox := ec_inbox c @ [(source, data)]\<rparr>)"

definition ec_write_to ::
    "crypto_env \<Rightarrow> clock \<Rightarrow> encrypted_conn \<Rightarrow> bytes \<Rightarrow> public_key \<Rightarrow>
     nat res \<times> traffic_packet list \<times> encrypted_conn" where
  "ec_write_to E clk c buf dest =
     (if ec_closed c then (Inl Closed, [], c)
      else if of_nat (length buf) > ec_mtu c then (Inl OversizedMessage, [], c)
      else
        let c = (if buf \<noteq> [] \<and> dest \<noteq> ce_verifying_key E (ec_signing_key c)
                 then c\<lparr>ec_lru := lru_touch dest (ec_lru c)\<rparr> else c);
            (actions, sessions) = sm_write_to E clk (ec_sessions c) dest buf (ec_signing_key c)
        in case write_actions actions (c\<lparr>ec_sessions := sessions\<rparr>) of
             (Inl e, pkts, c) \<Rightarrow> (Inl e, pkts, c)
           | (Inr _, pkts, c) \<Rightarrow> (Inr (length buf), pkts, c))"

text \<open>One message read by the reader task; errors of the network connection are ignored.\<close>

fun reader_actions :: "out_action list \<Rightarrow> encrypted_conn \<Rightarrow> traffic_packet list \<times> encrypted_conn" where
  "reader_actions [] c = ([], c)"
| "reader_actions (SendToInner dest data # acts) c =
     (case reader_actions acts c of (rest, c') \<Rightarrow> (snd (pc_write_to (ec_inner c) data dest) @ rest, c'))"
| "reader_actions (Deliver source data # acts) c =
     reader_actions acts (c\<lparr>ec_inbox := ec_inbox c @ [(source, data)]\<rparr>)"

definition encrypted_reader ::
    "crypto_env \<Rightarrow> clock \<Rightarrow> encrypted_conn \<Rightarrow> bytes \<Rightarrow> public_key \<Rightarrow> traffic_packet list \<times> encrypted_conn" where
  "encrypted_reader E clk c data from_key =
     (let (actions, sessions) =
        sm_handle_data E clk (ec_sessions c) from_key data (ec_curve_priv c) (ec_signing_key c)
      in reader_actions actions (c\<lparr>ec_sessions := sessions\<rparr>))"

definition session_cleanup :: "clock \<Rightarrow> encrypted_conn \<Rightarrow> encrypted_conn" where
  "session_cleanup clk c = c\<lparr>ec_sessions := sm_cleanup_expired clk (ec_sessions c)\<rparr>"

text \<open>One keepalive, and one round of the keepalive task.\<close>

fun keepalive_actions :: "bool \<Rightarrow> packet_conn \<Rightarrow> out_action list \<Rightarrow> traffic_packet list" where
  "keepalive_actions remote pc [] = []"
| "keepalive_actions remote pc (SendToInner dest data # acts) =
     snd (if remote then pc_write_keepalive pc data dest else pc_write_to pc data dest) @
     keepalive_actions remote pc acts"
| "keepalive_actions remote pc (Deliver source data # acts) = keepalive_actions remote pc acts"

definition keepalive_send_if_session ::
    "crypto_env \<Rightarrow> clock \<Rightarrow> bool \<Rightarrow> encrypted_conn \<Rightarrow> public_key \<Rightarrow> traffic_packet list \<times> encrypted_conn" where
  "keepalive_send_if_session E clk remote c key =
     (if \<not> has_session (ec_sessions c) key then ([], c)
      else
        let payload = (if remote then KEEPALIVE_PROBE else []);
            (actions, sessions) = sm_write_to E clk (ec_sessions c) key payload (ec_signing_key c)
        in (keepalive_actions remote (ec_inner c) actions, c\<lparr>ec_sessions := sessions\<rparr>))"

fun keepalive_all ::
    "crypto_env \<Rightarrow> clock \<Rightarrow> bool \<Rightarrow> encrypted_conn \<Rightarrow> public_key list \<Rightarrow> traffic_packet list \<times> encrypted_conn" where
  "keepalive_all E clk remote c [] = ([], c)"
| "keepalive_all E clk remote c (key # keys) =
     (let (pkts, c) = keepalive_send_if_session E clk remote c key;
          (rest, c) = keepalive_all E clk remote c keys
      in (pkts @ rest, c))"

definition keepalive_round ::
    "crypto_env \<Rightarrow> clock \<Rightarrow> bool \<Rightarrow> public_key list \<Rightarrow> encrypted_conn \<Rightarrow> traffic_packet list \<times> encrypted_conn" where
  "keepalive_round E clk keepalive_direct direct_keys c =
     (let (pkts, c) = (if keepalive_direct then keepalive_all E clk False c (remdups direct_keys) else ([], c));
          (rest, c) = keepalive_all E clk True c (lru_keys (ec_lru c))
      in (pkts @ rest, c))"

definition ec_close :: "encrypted_conn \<Rightarrow> unit res \<times> encrypted_conn" where
  "ec_close c =
     (if ec_closed c then (Inl Closed, c)
      else if pc_closed (ec_inner c) then (Inl Closed, c\<lparr>ec_closed := True\<rparr>)
      else (Inr (), c\<lparr>ec_closed := True, ec_inner := (ec_inner c)\<lparr>pc_closed := True\<rparr>\<rparr>))"

section \<open>Sizes\<close>

lemma length_uvarint_10: "length (encode_uvarint v) \<le> 10"
proof -
  have "unat v < 2 ^ (7 * 10)" by (rule less_trans [OF unsigned_less]) simp
  then show ?thesis by (rule length_encode_uvarint_le) simp
qed

lemma length_traffic_data:
  assumes "box_laws E" "length (ss_next_pub snap) = 32" "encrypt_outside_lock E snap msg = Inr data"
  shows "length data \<le> length msg + unat SESSION_TRAFFIC_OVERHEAD \<and> 0 < length data"
proof -
  obtain l r n inner b where snap: "snap = snap_of l r inner b n"
    by (cases snap) (auto simp: snap_of_def)
  obtain c where "data = traffic_prefix l r n @ c" "length c = length inner + length msg + BOX_OVERHEAD"
    using encrypt_outside_lock_ok [OF assms(1), of l r inner b n msg] assms(3) snap by auto
  then show ?thesis
    using assms(2) snap length_uvarint_10 [of l] length_uvarint_10 [of r] length_uvarint_10 [of n]
    by (simp add: snap_of_def SESSION_TRAFFIC_OVERHEAD_def SESSION_TRAFFIC_OVERHEAD_MIN_def BOX_OVERHEAD_def)
qed

lemma length_handshake_data:
  assumes "box_laws E" "sign_laws E" "length (si_current i) = 32" "length (si_next i) = 32"
    "session_init_encrypt E n i sk dest ty pre = (Inr data, n')"
  shows "length data = SESSION_INIT_SIZE"
proof -
  obtain p s where ps: "ce_box_keys E n = (p, s)" by (cases "ce_box_keys E n")
  obtain to_box where to: "ed25519_public_to_curve25519 E dest = Some to_box"
    using assms(5) by (auto simp: session_init_encrypt_def Let_def split: option.splits prod.splits)
  let ?pl = "sign_with_key E sk (session_init_signed pre (p @ session_init_body i)) @ session_init_body i"
  obtain c where "box_seal_precomputed E ?pl 0 (make_salsa_box E to_box s) = Some c" "length c = length ?pl + BOX_OVERHEAD"
    using box_laws_seal [OF assms(1)] by blast
  then show ?thesis
    using assms ps to box_laws_length [OF assms(1), of n] sign_laws_length [OF assms(2)]
    by (auto simp: session_init_encrypt_def new_box_keys_def box_seal_def box_seal_precomputed_def Let_def
        length_session_init_body SESSION_INIT_SIZE_def)
qed

lemma write_to_one_message:
  assumes "box_laws E" "sign_laws E" "manager_wf E m"
  shows "\<exists>m'. sm_write_to E clk m dest msg ed = ([], m') \<or>
    (\<exists>d. sm_write_to E clk m dest msg ed = ([SendToInner dest d], m') \<and>
      (length d = SESSION_INIT_SIZE \<or> length d \<le> length msg + unat SESSION_TRAFFIC_OVERHEAD) \<and> 0 < length d)"
proof (cases "hm_get (sm_sessions m) dest")
  case (Some s)
  then have wf: "session_wf E s" using assms(3) by (auto simp: manager_wf_def)
  obtain s' n where snap: "send_snapshot E (sm_drawn m) s =
      ((Inr \<lparr>ss_local_key_seq = s_local_key_seq s', ss_remote_key_seq = s_remote_key_seq s',
             ss_send_nonce = s_send_nonce s', ss_next_pub = s_next_pub s', ss_send_shared = s_send_shared s'\<rparr>, s'), n)"
    by (cases "send_snapshot E (sm_drawn m) s") (auto simp: send_snapshot_def Let_def split: prod.splits)
  have "length (s_next_pub s') = 32"
    using send_snapshot_wf [OF wf, of "sm_drawn m"] own_pair_length [OF assms(1)] snap
    by (auto simp: session_wf_def)
  then show ?thesis
    using Some snap length_traffic_data [OF assms(1), of "\<lparr>ss_local_key_seq = s_local_key_seq s',
        ss_remote_key_seq = s_remote_key_seq s', ss_send_nonce = s_send_nonce s', ss_next_pub = s_next_pub s',
        ss_send_shared = s_send_shared s'\<rparr>" msg]
    by (auto simp: sm_write_to_def split: sum.splits)
next
  case None
  let ?b = "fst (buffer_for E clk dest m)"
  let ?m = "phase_step E (P_Buffer dest clk msg) m"
  have eq: "sm_write_to E clk m dest msg ed = send_handshake E ?m (sb_init ?b) ed dest SESSION_TYPE_INIT"
    using None by (auto simp: sm_write_to_def buffer_and_init_def buffer_for_def new_box_keys_def Let_def
        split: option.splits prod.splits)
  have "length (si_current (sb_init ?b)) = 32" "length (si_next (sb_init ?b)) = 32"
    using assms(1,3) own_pair_length [OF assms(1)] box_laws_length [OF assms(1)]
    by (auto 0 3 simp: buffer_for_def manager_wf_def session_init_new_def split: option.splits)
  then have "length d = SESSION_INIT_SIZE \<and> 0 < length d"
    if "session_init_encrypt E n (sb_init ?b) ed dest SESSION_TYPE_INIT pre = (Inr d, n')" for d n n' pre
    using length_handshake_data [OF assms(1,2) _ _ that] by (simp add: SESSION_INIT_SIZE_def)
  then show ?thesis
    unfolding eq by (auto simp: send_handshake_def split: prod.splits sum.splits)
qed

lemma length_gt_word: "length xs < 2 ^ 64 \<Longrightarrow> of_nat (length xs) > (w :: u64) \<longleftrightarrow> length xs > unat w"
  by (simp add: word_less_nat_alt unat_of_nat take_bit_nat_eq_self)

lemma pc_mtu_unat: "unat (pc_mtu pc) = unat (pc_max_message_size pc) - 77"
proof -
  have "uvarint_size u64_max = 10" "uvarint_size 0 = 1" by code_simp+
  then show ?thesis
    by (simp add: pc_mtu_def unat_saturating_sub traffic_size_def path_size_def PUBLIC_KEY_SIZE_def)
qed

lemma pc_write_to_fits:
  assumes "\<not> pc_closed pc" "length d \<le> unat (pc_mtu pc)" "wf_key (pc_pub_key pc)" "wf_key dest" "0 < length d"
  shows "pc_write_to pc d dest = (Inr (length d), [traffic_packet_new (pc_pub_key pc) dest d])"
    and "length (traffic_encode (traffic.truncate (traffic_packet_new (pc_pub_key pc) dest d))) + 1
      \<le> unat (pc_max_message_size pc)"
proof -
  have "unat (pc_mtu pc) < 2 ^ 64" using unsigned_less [of "pc_mtu pc"] by simp
  then have "length d < 2 ^ 64" using assms(2) by linarith
  then show "pc_write_to pc d dest = (Inr (length d), [traffic_packet_new (pc_pub_key pc) dest d])"
    using assms by (simp add: pc_write_to_def length_gt_word)
  have "uvarint_size u64_max = 10" "uvarint_size 0 = 1" by code_simp+
  then show "length (traffic_encode (traffic.truncate (traffic_packet_new (pc_pub_key pc) dest d))) + 1
      \<le> unat (pc_max_message_size pc)"
    using assms by (cases d) (simp_all add: length_traffic_encode wf_traffic_def traffic.truncate_def traffic_packet_new_def
        traffic_size_def path_size_def pc_mtu_unat PUBLIC_KEY_SIZE_def)
qed

text \<open>A write to an open connection that respects the MTU of the encrypted connection succeeds and
  returns the length of the data. At most one packet goes to the router, from our key to the
  destination, and its frame, the path not yet filled in, fits the maximum message size of a link.
  A write to a closed connection and a write above the MTU fail with \<open>Closed\<close> and
  \<open>OversizedMessage\<close>, send nothing and change nothing.\<close>

theorem encrypted_write_exact:
  assumes "box_laws E" "sign_laws E" "manager_wf E (ec_sessions c)"
    and "\<not> pc_closed (ec_inner c)" "wf_key (pc_pub_key (ec_inner c))" "wf_key dest"
    and "SESSION_INIT_SIZE \<le> unat (pc_mtu (ec_inner c))" "length buf < 2 ^ 64"
  shows "if ec_closed c then ec_write_to E clk c buf dest = (Inl Closed, [], c)
    else if length buf > unat (ec_mtu c) then ec_write_to E clk c buf dest = (Inl OversizedMessage, [], c)
    else \<exists>pkts c'. ec_write_to E clk c buf dest = (Inr (length buf), pkts, c') \<and>
      (pkts = [] \<or> (\<exists>p. pkts = [p] \<and> tr_source p = pc_pub_key (ec_inner c) \<and> tr_dest p = dest \<and>
         length (traffic_encode (traffic.truncate p)) + 1 \<le> unat (pc_max_message_size (ec_inner c))))"
proof -
  obtain m' where m: "sm_write_to E clk (ec_sessions c) dest buf (ec_signing_key c) = ([], m') \<or>
    (\<exists>d. sm_write_to E clk (ec_sessions c) dest buf (ec_signing_key c) = ([SendToInner dest d], m') \<and>
      (length d = SESSION_INIT_SIZE \<or> length d \<le> length buf + unat SESSION_TRAFFIC_OVERHEAD) \<and> 0 < length d)"
    using write_to_one_message [OF assms(1-3), of clk dest buf "ec_signing_key c"] by blast
  show ?thesis
  proof (cases "\<not> ec_closed c \<and> length buf \<le> unat (ec_mtu c)")
    case True
    have fits: "length d \<le> unat (pc_mtu (ec_inner c))"
      if "length d = SESSION_INIT_SIZE \<or> length d \<le> length buf + unat SESSION_TRAFFIC_OVERHEAD" for d :: bytes
      using that True assms(7) by (auto simp: ec_mtu_def unat_saturating_sub SESSION_INIT_SIZE_def
          SESSION_TRAFFIC_OVERHEAD_def SESSION_TRAFFIC_OVERHEAD_MIN_def BOX_OVERHEAD_def)
    from m show ?thesis
    proof (elim disjE exE conjE, goal_cases)
      case 1
      then show ?thesis using True by (simp add: ec_write_to_def Let_def length_gt_word [OF assms(8)])
    next
      case (2 d)
      then show ?thesis using True pc_write_to_fits [OF assms(4) fits assms(5,6), of d]
        by (simp add: ec_write_to_def Let_def length_gt_word [OF assms(8)]) (simp add: traffic_packet_new_def)
    next
      case (3 d)
      then show ?thesis using True pc_write_to_fits [OF assms(4) fits assms(5,6), of d]
        by (simp add: ec_write_to_def Let_def length_gt_word [OF assms(8)]) (simp add: traffic_packet_new_def)
    qed
  next
    case False
    then show ?thesis by (auto simp: ec_write_to_def length_gt_word [OF assms(8)])
  qed
qed

section \<open>Remote keepalives\<close>

definition paired ::
    "crypto_env \<Rightarrow> session_info \<Rightarrow> session_info \<Rightarrow> (bytes \<times> bytes) list \<Rightarrow> (bytes \<times> bytes) list \<Rightarrow> bool" where
  "paired E s t os ot \<longleftrightarrow> lead E s t os ot \<or> lead E t s ot os"

lemma paired_sym: "paired E s t os ot = paired E t s ot os"
  by (auto simp: paired_def)

lemma paired_send:
  assumes "box_laws E" "paired E s t os ot" "s_send_nonce s + 1 \<noteq> 0"
  shows "\<exists>w s'. do_send E clk drawn msg s = ((Inr w, s'), drawn) \<and> paired E s' t (os @ [(w, msg)]) ot \<and>
    s_send_nonce s' = s_send_nonce s + 1"
proof -
  have *: ?thesis if "lead E s t os ot" using lead_send_ahead [OF assms(1) that assms(3), of clk drawn msg]
    by (auto simp: paired_def)
  have ?thesis if "lead E t s ot os" using lead_send_behind [OF assms(1) that assms(3), of clk drawn msg]
    by (auto simp: paired_def)
  with * show ?thesis using assms(2) by (auto simp: paired_def)
qed

lemma paired_recv:
  assumes "box_laws E" "paired E s t ((w, p) # os) ot"
  shows "\<exists>t' n. receive E clk drawn w t = (Some p, t', n) \<and> paired E s t' os ot \<and>
    (s_send_nonce t' = s_send_nonce t \<or> s_send_nonce t' = 0)"
proof -
  have *: ?thesis if "lead E s t ((w, p) # os) ot"
    using lead_recv_behind [OF assms(1) that, of clk drawn] by (auto simp: paired_def)
  have ?thesis if "lead E t s ot ((w, p) # os)"
    using lead_recv_ahead [OF assms(1) that, of clk drawn] by (auto simp: paired_def)
  with * show ?thesis using assms(2) by (auto simp: paired_def)
qed

lemma do_send_write_to:
  assumes "hm_get (sm_sessions m) dest = Some s" "do_send E clk (sm_drawn m) msg s = ((Inr w, s'), n)"
  shows "sm_write_to E clk m dest msg ed = ([SendToInner dest w], put_session dest s' n m)"
  using assms by (auto simp: sm_write_to_def do_send_def split: prod.splits sum.splits)

lemma do_send_traffic:
  assumes "box_laws E" "session_wf E s" "do_send E clk drawn msg s = ((Inr w, s'), n)"
  shows "hd w = SESSION_TYPE_TRAFFIC \<and> w \<noteq> [] \<and> length w \<le> length msg + unat SESSION_TRAFFIC_OVERHEAD"
proof -
  obtain snap s1 where snap: "send_snapshot E drawn s = ((Inr snap, s1), n)" "encrypt_outside_lock E snap msg = Inr w"
    "ss_next_pub snap = s_next_pub s1"
    using assms(3) by (auto simp: do_send_def send_snapshot_def Let_def split: prod.splits sum.splits)
  then have "length (ss_next_pub snap) = 32"
    using send_snapshot_wf [OF assms(2), of drawn] own_pair_length [OF assms(1)] by (auto simp: session_wf_def)
  note length_traffic_data [OF assms(1) this snap(2)]
  moreover have "hd w = SESSION_TYPE_TRAFFIC"
    using snap(2) by (auto simp: encrypt_outside_lock_def Let_def split: option.splits)
  ultimately show ?thesis by auto
qed

lemma receive_control:
  assumes "hm_get (sm_sessions m) peer = Some s" "receive E clk (sm_drawn m) data s = (Some payload, s', n)"
  shows "payload = KEEPALIVE_ACK \<Longrightarrow> sm_handle_traffic E clk m peer data ed = ([], put_session peer s' n m)"
    and "payload = KEEPALIVE_PROBE \<Longrightarrow> sm_handle_traffic E clk m peer data ed =
      sm_write_to E clk (put_session peer s' n m) peer KEEPALIVE_ACK ed"
  using assms
  by (auto simp: sm_handle_traffic_def receive_def Let_def KEEPALIVE_PROBE_def KEEPALIVE_ACK_def
      split: sum.splits prod.splits recv_snapshot_error.splits recv_action.splits)

definition open_conn :: "encrypted_conn \<Rightarrow> bool" where
  "open_conn c \<longleftrightarrow> \<not> pc_closed (ec_inner c) \<and> wf_key (pc_pub_key (ec_inner c)) \<and>
     SESSION_INIT_SIZE \<le> unat (pc_mtu (ec_inner c))"

lemma control_fits:
  assumes "open_conn c" "wf_key dest" "length w \<le> length msg + unat SESSION_TRAFFIC_OVERHEAD" "w \<noteq> []"
    "msg = KEEPALIVE_PROBE \<or> msg = KEEPALIVE_ACK"
  shows "pc_write_to (ec_inner c) w dest =
      (Inr (length w), [traffic_packet_new (pc_pub_key (ec_inner c)) dest w])"
    and "pc_write_keepalive (ec_inner c) w dest =
      (Inr (length w), [keepalive (traffic_packet_new (pc_pub_key (ec_inner c)) dest w)])"
proof -
  have "length w \<le> unat (pc_mtu (ec_inner c))"
    using assms by (auto simp: open_conn_def SESSION_INIT_SIZE_def SESSION_TRAFFIC_OVERHEAD_def
        SESSION_TRAFFIC_OVERHEAD_MIN_def BOX_OVERHEAD_def KEEPALIVE_PROBE_def KEEPALIVE_ACK_def)
  then show "pc_write_to (ec_inner c) w dest =
      (Inr (length w), [traffic_packet_new (pc_pub_key (ec_inner c)) dest w])"
    using pc_write_to_fits(1) [of "ec_inner c" w dest] assms by (auto simp: open_conn_def)
  then show "pc_write_keepalive (ec_inner c) w dest =
      (Inr (length w), [keepalive (traffic_packet_new (pc_pub_key (ec_inner c)) dest w)])"
    by (auto simp: pc_write_to_def pc_write_keepalive_def split: if_splits)
qed

lemma put_session_get [simp]:
  "hm_get (sm_sessions m) k = Some s \<Longrightarrow> hm_get (sm_sessions (put_session k s' n m)) k = Some s'"
  by (simp add: put_session_def)

text \<open>A keepalive probe between two nodes whose sessions are in step costs one packet in each
  direction: the probe goes out marked as a keepalive, the other side answers it with one packet
  and the answer ends the exchange. Neither side passes anything to its application or touches its
  list of recent destinations, and the sessions stay in step.\<close>

theorem keepalive_probe_answered:
  assumes E: "box_laws E" and ab: "open_conn a" "open_conn b"
    and kA: "kA = pc_pub_key (ec_inner a)" and kB: "kB = pc_pub_key (ec_inner b)"
    and s: "hm_get (sm_sessions (ec_sessions a)) kB = Some s" and t: "hm_get (sm_sessions (ec_sessions b)) kA = Some t"
    and st: "paired E s t [] []" and room: "s_send_nonce s + 1 \<noteq> 0" "s_send_nonce t + 1 \<noteq> 0"
  shows "\<exists>p a1 q b1 a2 s' t'. keepalive_send_if_session E clkA True a kB = ([p], a1) \<and>
    tp_keepalive p \<and> tr_source p = kA \<and> tr_dest p = kB \<and>
    encrypted_reader E clkB b (tr_payload p) kA = ([q], b1) \<and> tr_source q = kB \<and> tr_dest q = kA \<and>
    encrypted_reader E clkC a1 (tr_payload q) kB = ([], a2) \<and>
    ec_inbox b1 = ec_inbox b \<and> ec_lru b1 = ec_lru b \<and> ec_inbox a2 = ec_inbox a \<and> ec_lru a2 = ec_lru a \<and>
    hm_get (sm_sessions (ec_sessions a2)) kB = Some s' \<and> hm_get (sm_sessions (ec_sessions b1)) kA = Some t' \<and>
    paired E s' t' [] []"
proof -
  have wf: "session_wf E s" "session_wf E t" and key: "wf_key kA" "wf_key kB"
    using st ab kA kB by (auto simp: paired_def lead_def open_conn_def)
  let ?mA = "ec_sessions a" and ?mB = "ec_sessions b"
  obtain w s1 where send: "do_send E clkA (sm_drawn ?mA) KEEPALIVE_PROBE s = ((Inr w, s1), sm_drawn ?mA)"
    and st1: "paired E s1 t [(w, KEEPALIVE_PROBE)] []"
    using paired_send [OF E st room(1), of clkA "sm_drawn ?mA" KEEPALIVE_PROBE] by auto
  obtain t1 n where recv: "receive E clkB (sm_drawn ?mB) w t = (Some KEEPALIVE_PROBE, t1, n)"
    and st2: "paired E s1 t1 [] []" and room1: "s_send_nonce t1 + 1 \<noteq> 0"
    using paired_recv [OF E st1, of clkB "sm_drawn ?mB"] room(2) by auto
  obtain v t2 where ack: "do_send E clkB n KEEPALIVE_ACK t1 = ((Inr v, t2), n)"
    and st3: "paired E t2 s1 [(v, KEEPALIVE_ACK)] []"
    using paired_send [OF E st2 [unfolded paired_sym [of E s1]] room1, of clkB n KEEPALIVE_ACK] by auto
  let ?mA1 = "put_session kB s1 (sm_drawn ?mA) ?mA"
  obtain s2 n' where fin: "receive E clkC (sm_drawn ?mA1) v s1 = (Some KEEPALIVE_ACK, s2, n')"
    and st4: "paired E t2 s2 [] []"
    using paired_recv [OF E st3] by blast
  have wf1: "session_wf E t1" using st2 by (auto simp: paired_def lead_def)
  note w = do_send_traffic [OF E wf(1) send] and v = do_send_traffic [OF E wf1 ack]
  note outA = control_fits(2) [OF ab(1) key(2), of w KEEPALIVE_PROBE] and outB = control_fits(1) [OF ab(2) key(1), of v KEEPALIVE_ACK]
  let ?mB1 = "put_session kA t1 n ?mB"
  have B: "sm_write_to E clkB ?mB1 kA KEEPALIVE_ACK ed = ([SendToInner kA v], put_session kA t2 n ?mB1)" for ed
    by (rule do_send_write_to) (use t ack in \<open>simp_all add: put_session_def\<close>)
  show ?thesis
    using w v outA outB kA kB st4 s t do_send_write_to [OF s send] receive_control(2) [OF t recv refl] B
      receive_control(1) [OF put_session_get [OF s] fin refl]
    by (simp add: keepalive_send_if_session_def encrypted_reader_def handle_data_traffic has_session_def hm_contains_def)
      (simp add: traffic_packet_new_def keepalive_def handle_data_traffic paired_sym [of E s2])
qed

definition sample_conn :: "signing_key \<Rightarrow> (public_key \<times> session_info) list \<Rightarrow> encrypted_conn" where
  "sample_conn sk sessions =
     (let c = encrypted_conn_new mock_env sk None 60 4 65535
      in c\<lparr>ec_sessions := (ec_sessions c)\<lparr>sm_sessions := sessions\<rparr>\<rparr>)"

lemma mock_verifying_key: "wf_key (ce_verifying_key mock_env sk)"
  using mock_sign_laws by (simp add: sign_laws_def)

lemma sample_conn_sel [simp]:
  "pc_pub_key (ec_inner (sample_conn sk l)) = ce_verifying_key mock_env sk"
  "pc_max_message_size (ec_inner (sample_conn sk l)) = 65535"
  "pc_closed (ec_inner (sample_conn sk l)) = False" "ec_closed (sample_conn sk l) = False"
  "sm_sessions (ec_sessions (sample_conn sk l)) = l" "sm_buffers (ec_sessions (sample_conn sk l)) = []"
  by (simp_all add: sample_conn_def encrypted_conn_new_def session_manager_new_def)

lemma sample_conn_open: "open_conn (sample_conn sk l)"
  by (simp add: open_conn_def mock_verifying_key PUBLIC_KEY_SIZE_def pc_mtu_unat SESSION_INIT_SIZE_def BOX_OVERHEAD_def)

theorem encrypted_write_exact_witness:
  "\<exists>p c'. ec_write_to mock_env \<lparr>ck_now = 0, ck_unix = 5\<rparr> (sample_conn [1] []) [7, 8] (ce_verifying_key mock_env [2]) =
      (Inr (length [7, 8 :: u8]), p, c') \<and> (p = [] \<or> (\<exists>q. p = [q] \<and> tr_source q = ce_verifying_key mock_env [1] \<and>
        tr_dest q = ce_verifying_key mock_env [2] \<and> length (traffic_encode (traffic.truncate q)) + 1 \<le> 65535))"
proof -
  have "manager_wf mock_env (ec_sessions (sample_conn [1] []))" by (simp add: manager_wf_def)
  moreover have "\<not> length [7, 8 :: u8] > unat (ec_mtu (sample_conn [1] []))"
    by (simp add: ec_mtu_def unat_saturating_sub pc_mtu_unat SESSION_TRAFFIC_OVERHEAD_def
        SESSION_TRAFFIC_OVERHEAD_MIN_def BOX_OVERHEAD_def)
  ultimately show ?thesis
    using encrypted_write_exact [OF mock_box_laws mock_sign_laws, of "sample_conn [1] []"
        "ce_verifying_key mock_env [2]" "[7, 8]" "\<lparr>ck_now = 0, ck_unix = 5\<rparr>"]
      sample_conn_open [of "[1]" "[]"] mock_verifying_key [of "[2]"]
    by (simp add: open_conn_def PUBLIC_KEY_SIZE_def)
qed

lemma two_ends_paired: "paired mock_env (dx_end two_ends True) (dx_end two_ends False) [] []"
  using two_ends_in_step by (auto simp: in_step_def paired_def ex_bool_eq two_ends_def Let_def)

theorem keepalive_probe_answered_witness:
  "\<exists>p a1. keepalive_send_if_session mock_env \<lparr>ck_now = 0, ck_unix = 5\<rparr> True
      (sample_conn [1] [(ce_verifying_key mock_env [2], dx_end two_ends True)]) (ce_verifying_key mock_env [2]) = ([p], a1) \<and>
    tp_keepalive p \<and>
    (\<exists>q b1. encrypted_reader mock_env \<lparr>ck_now = 1, ck_unix = 5\<rparr>
      (sample_conn [2] [(ce_verifying_key mock_env [1], dx_end two_ends False)]) (tr_payload p)
      (ce_verifying_key mock_env [1]) = ([q], b1))"
proof -
  let ?kA = "ce_verifying_key mock_env [1]" and ?kB = "ce_verifying_key mock_env [2]"
  let ?a = "sample_conn [1] [(?kB, dx_end two_ends True)]" and ?b = "sample_conn [2] [(?kA, dx_end two_ends False)]"
  have nonce: "s_send_nonce (dx_end two_ends p) + 1 \<noteq> 0" for p
    by (simp add: two_ends_def Let_def fix_shared_def)
  have "hm_get (sm_sessions (ec_sessions ?a)) ?kB = Some (dx_end two_ends True)"
    "hm_get (sm_sessions (ec_sessions ?b)) ?kA = Some (dx_end two_ends False)" by simp_all
  from keepalive_probe_answered [OF mock_box_laws sample_conn_open sample_conn_open
      sample_conn_sel(1) [symmetric] sample_conn_sel(1) [symmetric] this two_ends_paired nonce nonce]
  show ?thesis by blast
qed

end
