(* ===== verification/Core_Actor.thy ===== *)
theory Core_Actor
  imports Router_State Peer_Link Peer_Table Encrypted_Conn
begin

text \<open>
  The router actor of \<open>crates/ironwood/src/core.rs\<close>: one task owns the router, takes messages from
  its channel, runs maintenance on a deadline and hands the actions of the router to the links
  (\<open>dispatch_actions\<close> of \<open>crates/ironwood/src/peers.rs\<close>) and to the readers of the node; and the
  remaining operations of \<open>PacketConnImpl\<close>.

  A link is the writer of \<open>Peer_Io\<close> with its channel and its packet queue; \<open>hb_links\<close> has one for
  every link whose writer runs. The channel of a writer holds 512 messages. A frame that finds it
  full waits in a background task of its own (\<open>hb_deferred\<close>), and \<open>deferred_send\<close> is the moment at which
  such a task gets its place, in whatever order the tasks are served. The channel to the readers of
  the node is a list without a bound: its sender waits for room.
\<close>

section \<open>Dispatch of actions\<close>

record hub =
  hb_router :: router
  hb_peers :: peers
  hb_links :: "(peer_id, writer) hmap"
  hb_delivery :: delivery_queue
  hb_channel :: "traffic_packet list"
  hb_notified :: "public_key list"
  hb_deferred :: "(peer_id \<times> peer_message) list"

definition PEER_WRITER_CHANNEL_SIZE :: nat where
  "PEER_WRITER_CHANNEL_SIZE = 512"

definition send_to_peer :: "peer_id \<Rightarrow> peer_message \<Rightarrow> hub \<Rightarrow> bool \<times> hub" where
  "send_to_peer p msg h =
     (case get_handle p (hb_peers h) of
        None \<Rightarrow> (False, h)
      | Some _ \<Rightarrow>
          (case hm_get (hb_links h) p of
             None \<Rightarrow> (False, h)
           | Some w \<Rightarrow>
               if length (wr_rx w) < PEER_WRITER_CHANNEL_SIZE
               then (True, h\<lparr>hb_links := hm_insert p (w\<lparr>wr_rx := wr_rx w @ [msg]\<rparr>) (hb_links h)\<rparr>)
               else (True, h\<lparr>hb_deferred := hb_deferred h @ [(p, msg)]\<rparr>)))"

text \<open>The \<open>i\<close>-th background task: it waits while the channel is full and ends without effect when the
  link is gone.\<close>

definition deferred_send :: "nat \<Rightarrow> hub \<Rightarrow> hub" where
  "deferred_send i h =
     (if i < length (hb_deferred h) then
        let (p, msg) = hb_deferred h ! i;
            others = take i (hb_deferred h) @ drop (Suc i) (hb_deferred h)
        in case hm_get (hb_links h) p of
             None \<Rightarrow> h\<lparr>hb_deferred := others\<rparr>
           | Some w \<Rightarrow>
               if length (wr_rx w) < PEER_WRITER_CHANNEL_SIZE
               then h\<lparr>hb_links := hm_insert p (w\<lparr>wr_rx := wr_rx w @ [msg]\<rparr>) (hb_links h), hb_deferred := others\<rparr>
               else h
      else h)"

definition push_traffic :: "instant \<Rightarrow> peer_id \<times> traffic_packet \<Rightarrow> hub \<Rightarrow> hub" where
  "push_traffic now = (\<lambda>(p, traffic) h.
     case hm_get (hb_links h) p of
       None \<Rightarrow> h
     | Some w \<Rightarrow>
         h\<lparr>hb_links := hm_insert p (w\<lparr>wr_queue := pq_push now traffic (wr_queue w), wr_permit := True\<rparr>) (hb_links h)\<rparr>)"

definition send_traffic_to_peers_batch :: "instant \<Rightarrow> (peer_id \<times> traffic_packet) list \<Rightarrow> hub \<Rightarrow> hub" where
  "send_traffic_to_peers_batch now batch h =
     (let resolved = filter (\<lambda>(p, _). get_handle p (hb_peers h) \<noteq> None) batch
      in fold (push_traffic now) resolved h)"

definition deliver_traffic :: "instant \<Rightarrow> traffic_packet \<Rightarrow> hub \<Rightarrow> hub" where
  "deliver_traffic now traffic h =
     (let (pkt, dq) = deliver now traffic (hb_delivery h); h = h\<lparr>hb_delivery := dq\<rparr>
      in case pkt of Some t \<Rightarrow> h\<lparr>hb_channel := hb_channel h @ [t]\<rparr> | None \<Rightarrow> h)"

fun collect_actions ::
    "instant \<Rightarrow> router_action list \<Rightarrow> (peer_id \<times> traffic_packet) list \<Rightarrow> (peer_id \<times> bytes) list \<Rightarrow> hub \<Rightarrow>
     (peer_id \<times> traffic_packet) list \<times> (peer_id \<times> bytes) list \<times> hub" where
  "collect_actions now [] traffic_batch frame_batch h = (traffic_batch, frame_batch, h)"
| "collect_actions now (DeliverTraffic traffic # acts) traffic_batch frame_batch h =
     collect_actions now acts traffic_batch frame_batch (deliver_traffic now traffic h)"
| "collect_actions now (SendTraffic p traffic # acts) traffic_batch frame_batch h =
     collect_actions now acts (traffic_batch @ [(p, traffic)]) frame_batch h"
| "collect_actions now (PathNotifyCallback key # acts) traffic_batch frame_batch h =
     collect_actions now acts traffic_batch frame_batch (h\<lparr>hb_notified := hb_notified h @ [key]\<rparr>)"
| "collect_actions now (other # acts) traffic_batch frame_batch h =
     collect_actions now acts traffic_batch
       (case encode_action_frame other of Some f \<Rightarrow> frame_batch @ [f] | None \<Rightarrow> frame_batch) h"

definition dispatch_actions :: "instant \<Rightarrow> router_action list \<Rightarrow> hub \<Rightarrow> hub" where
  "dispatch_actions now acts h =
     (let (traffic_batch, frame_batch, h) = collect_actions now acts [] [] h;
          h = fold (\<lambda>(p, frame) h. snd (send_to_peer p (SendFrame frame) h)) frame_batch h
      in if traffic_batch = [] then h else send_traffic_to_peers_batch now traffic_batch h)"

section \<open>Messages of the router\<close>

record peer_info =
  in_key :: public_key
  in_id :: peer_id
  in_port :: peer_port
  in_priority :: u8
  in_latency :: duration
  in_cost :: u64
  in_liveness_timeout_ms :: u64
  in_liveness_degraded :: bool
  in_liveness_ewma_ms :: u64

record tree_entry =
  te_key :: public_key
  te_parent :: public_key
  te_sequence :: u64

record path_entry =
  pt_key :: public_key
  pt_path :: "peer_port list"
  pt_sequence :: u64

text \<open>Latencies and ages are durations here; the code converts them to floating-point numbers.\<close>

record pending_lookup =
  pl_dest_key :: "public_key option"
  pl_xformed_key :: public_key
  pl_age :: duration
  pl_sent :: bool
  pl_multicast_count :: nat

record debug_snapshot =
  ds_tree_node_count :: nat
  ds_routing_peer_count :: nat
  ds_tree_root :: public_key
  ds_our_coords :: "peer_port list"
  ds_path_cache_count :: nat
  ds_broken_path_count :: nat
  ds_pending_lookups :: "pending_lookup list"
  ds_unresponded_peers :: nat
  ds_peer_latencies :: "(public_key \<times> duration) list"
  ds_delivery_queue_bytes :: u64

datatype router_reply =
    NoReply
  | LookupCount nat
  | PeersReply "peer_info list"
  | TreeReply "tree_entry list"
  | PathsReply "path_entry list"
  | EntriesReply nat
  | CoordsReply "peer_port list"
  | SnapshotReply debug_snapshot
  | KeysReply "public_key list"
  | TargetsReply public_key nat

definition peer_info_of :: "router \<Rightarrow> public_key \<Rightarrow> peer_entry \<Rightarrow> peer_info" where
  "peer_info_of r key e =
     \<lparr>in_key = key, in_id = pe_id e, in_port = pe_port e, in_priority = pe_prio e,
      in_latency = (case hm_get (r_rtts r) (pe_id e) of Some d \<Rightarrow> d | None \<Rightarrow> 0),
      in_cost = get_cost r (pe_id e), in_liveness_timeout_ms = 0, in_liveness_degraded = False,
      in_liveness_ewma_ms = 0\<rparr>"

definition router_peers :: "router \<Rightarrow> peer_info list" where
  "router_peers r = concat (map (\<lambda>(key, entries). map (\<lambda>(_, e). peer_info_of r key e) entries) (r_peers r))"

definition router_tree :: "router \<Rightarrow> tree_entry list" where
  "router_tree r =
     sort_key te_key (map (\<lambda>(key, info). \<lparr>te_key = key, te_parent = ri_parent info, te_sequence = ri_seq info\<rparr>) (r_infos r))"

definition router_paths :: "router \<Rightarrow> path_entry list" where
  "router_paths r =
     sort_key pt_key (map (\<lambda>(key, info). \<lparr>pt_key = key, pt_path = pi_path info, pt_sequence = pi_seq info\<rparr>)
       (filter (\<lambda>(_, info). \<not> pi_broken info) (pf_paths (r_pathfinder r))))"

definition pending_lookup_of :: "router_env \<Rightarrow> router \<Rightarrow> public_key \<times> path_rumor \<Rightarrow> pending_lookup" where
  "pending_lookup_of env r = (\<lambda>(xkey, rumor).
     \<lparr>pl_dest_key = map_option tr_dest (ru_traffic rumor), pl_xformed_key = xkey, pl_age = env_now env - ru_created rumor,
      pl_sent = (ru_send_time rumor \<noteq> None),
      pl_multicast_count = count_on_tree_targets_for_xkey (env_murmur3 env) xkey (r_blooms r)\<rparr>)"

definition router_snapshot :: "router_env \<Rightarrow> u64 \<Rightarrow> router \<Rightarrow> debug_snapshot" where
  "router_snapshot env delivery_queue_bytes r =
     (let (root, coords) = get_root_and_path (r_infos r) (r_public_key r)
      in \<lparr>ds_tree_node_count = length (r_infos r), ds_routing_peer_count = length (r_peers r), ds_tree_root = root,
          ds_our_coords = coords, ds_path_cache_count = length (pf_paths (r_pathfinder r)),
          ds_broken_path_count = length (filter (\<lambda>(_, p). pi_broken p) (pf_paths (r_pathfinder r))),
          ds_pending_lookups = map (pending_lookup_of env r) (pf_rumors (r_pathfinder r)),
          ds_unresponded_peers = sum_list (map (\<lambda>(_, m). length m) (r_peers r)) - length (r_responded r),
          ds_peer_latencies = map (\<lambda>(key, entries). (key,
            case List.map_filter (hm_get (r_rtts r)) (hm_keys entries) of d # _ \<Rightarrow> d | [] \<Rightarrow> 0)) (r_peers r),
          ds_delivery_queue_bytes = delivery_queue_bytes\<rparr>)"

definition send_lookup_actions :: "router_env \<Rightarrow> public_key \<Rightarrow> public_key \<Rightarrow> router_run" where
  "send_lookup_actions env our_key dest r =
     (let xform = x_key (r_bloom_transform r) dest;
          r = set_pathfinder (\<lambda>pf. snd (ensure_rumor (env_now env) xform pf)) r
      in send_traffic env (traffic_packet_new our_key dest []) r)"

definition handle_request_actions :: "router_env \<Rightarrow> peer_id \<Rightarrow> public_key \<Rightarrow> sig_req \<Rightarrow> router \<Rightarrow> router_action list" where
  "handle_request_actions env p peer_key req r =
     (case hm_get (r_peers r) peer_key of
        None \<Rightarrow> []
      | Some m \<Rightarrow> (case hm_get m p of None \<Rightarrow> [] | Some entry \<Rightarrow> [handle_request_with_data env entry req r]))"

definition lookup_count :: "router_action list \<Rightarrow> nat" where
  "lookup_count acts = length (filter (\<lambda>a. case a of SendPathLookup _ _ \<Rightarrow> True | _ \<Rightarrow> False) acts)"

text \<open>What the router does for a message, and the reply.\<close>

fun router_msg_run :: "router_env \<Rightarrow> router_msg \<Rightarrow> router \<Rightarrow> (router_reply \<times> router_action list \<times> router) option" where
  "router_msg_run env (AddPeerMsg entry) r = Some (NoReply, add_peer env entry r)"
| "router_msg_run env (RemovePeerMsg p key port) r = Some (NoReply, remove_peer p key port r)"
| "router_msg_run env (HandleRequest p key req) r = Some (NoReply, handle_request_actions env p key req r, r)"
| "router_msg_run env (HandleResponse p key res rtt) r = Some (NoReply, [], handle_response p key res rtt r)"
| "router_msg_run env (HandleAnnounce p key ann) r = Some (NoReply, handle_announce env p key ann r)"
| "router_msg_run env (HandleBloom key flt) r = Some (NoReply, [], router_handle_bloom key flt r)"
| "router_msg_run env (HandleTraffic tr) r = map_option (Pair NoReply) (handle_traffic env tr r)"
| "router_msg_run env (SendTrafficMsg tr) r = map_option (Pair NoReply) (send_traffic env tr r)"
| "router_msg_run env (HandleLookup key lk) r = map_option (Pair NoReply) (handle_lookup env key lk r)"
| "router_msg_run env (HandleNotify key n) r = map_option (Pair NoReply) (handle_notify env n r)"
| "router_msg_run env (HandleBroken b) r = map_option (Pair NoReply) (handle_broken env b r)"
| "router_msg_run env (SendLookupMsg our_key dest) r = map_option (Pair NoReply) (send_lookup_actions env our_key dest r)"
| "router_msg_run env ForceRefreshMsg r = map_option (Pair NoReply) (do_maintenance env (force_refresh env r))"
| "router_msg_run env (ForceLookupMsg dest) r =
     map_option (\<lambda>(acts, r). (LookupCount (lookup_count acts), acts, r)) (force_lookup env dest r)"
| "router_msg_run env GetPeers r = Some (PeersReply (router_peers r), [], r)"
| "router_msg_run env GetTree r = Some (TreeReply (router_tree r), [], r)"
| "router_msg_run env GetPaths r = Some (PathsReply (router_paths r), [], r)"
| "router_msg_run env RoutingEntries r = Some (EntriesReply (length (r_infos r)), [], r)"
| "router_msg_run env TreeCoordinates r = Some (CoordsReply (snd (get_root_and_path (r_infos r) (r_public_key r))), [], r)"
| "router_msg_run env (GetDebugSnapshot bytes) r = Some (SnapshotReply (router_snapshot env bytes r), [], r)"
| "router_msg_run env GetRoutingPeerKeys r = Some (KeysReply (hm_keys (r_peers r)), [], r)"
| "router_msg_run env (CountLookupTargets dest) r =
     (let xform = x_key (r_bloom_transform r) dest
      in Some (TargetsReply xform (count_on_tree_targets_for_xkey (env_murmur3 env) xform (r_blooms r)), [], r))"

definition handle_router_msg :: "router_env \<Rightarrow> router_msg \<Rightarrow> hub \<Rightarrow> (router_reply \<times> hub) option" where
  "handle_router_msg env msg h =
     map_option (\<lambda>(reply, acts, r). (reply, dispatch_actions (env_now env) acts (h\<lparr>hb_router := r\<rparr>)))
       (router_msg_run env msg (hb_router h))"

fun is_topology_msg :: "router_msg \<Rightarrow> bool" where
  "is_topology_msg (AddPeerMsg _) = True"
| "is_topology_msg (RemovePeerMsg _ _ _) = True"
| "is_topology_msg (HandleResponse _ _ _ _) = True"
| "is_topology_msg (HandleAnnounce _ _ _) = True"
| "is_topology_msg (HandleBloom _ _) = True"
| "is_topology_msg _ = False"

section \<open>The actor\<close>

definition IDLE_MAINT_INTERVAL :: duration where
  "IDLE_MAINT_INTERVAL = secs 10"

definition MAINT_DEBOUNCE :: duration where
  "MAINT_DEBOUNCE = 100 * 10 ^ 6"

definition WALL_JUMP_THRESHOLD :: duration where
  "WALL_JUMP_THRESHOLD = secs 30"

text \<open>The wall clock (\<open>SystemTime\<close>) is separate from the monotonic clock of \<open>env_now\<close>.\<close>

record actor =
  ac_hub :: hub
  ac_next_maint :: instant
  ac_last_wall :: nat

definition actor_new :: "router_env \<Rightarrow> nat \<Rightarrow> hub \<Rightarrow> actor" where
  "actor_new env wall h =
     \<lparr>ac_hub = h, ac_next_maint = env_now env + IDLE_MAINT_INTERVAL, ac_last_wall = wall\<rparr>"

definition wall_jumped :: "nat \<Rightarrow> actor \<Rightarrow> bool" where
  "wall_jumped wall_now a \<longleftrightarrow> ac_last_wall a \<le> wall_now \<and> wall_now - ac_last_wall a \<ge> WALL_JUMP_THRESHOLD"

definition actor_maintain :: "router_env \<Rightarrow> nat \<Rightarrow> actor \<Rightarrow> actor option" where
  "actor_maintain env wall_now a =
     (let r = hb_router (ac_hub a);
          r = (if wall_jumped wall_now a then force_refresh env r else r);
          r = expire_infos env r
      in map_option (\<lambda>(acts, r).
           let h = (ac_hub a)\<lparr>hb_router := r\<rparr>
           in a\<lparr>ac_hub := (if acts \<noteq> [] then dispatch_actions (env_now env) acts h else h),
                ac_next_maint := env_now env + IDLE_MAINT_INTERVAL, ac_last_wall := wall_now\<rparr>)
         (do_maintenance env r))"

definition actor_receive :: "router_env \<Rightarrow> router_msg \<Rightarrow> actor \<Rightarrow> (router_reply \<times> actor) option" where
  "actor_receive env msg a =
     map_option (\<lambda>(reply, h).
       let a = a\<lparr>ac_hub := h\<rparr>;
           soon = env_now env + MAINT_DEBOUNCE
       in (reply, if is_topology_msg msg \<and> soon < ac_next_maint a then a\<lparr>ac_next_maint := soon\<rparr> else a))
       (handle_router_msg env msg (ac_hub a))"

text \<open>The two branches of the loop. Maintenance runs only when its deadline has passed.\<close>

datatype actor_event = MessageTaken router_msg | MaintenanceDue nat

fun actor_step :: "router_env \<times> actor_event \<Rightarrow> actor \<Rightarrow> actor option" where
  "actor_step (env, MessageTaken msg) a = map_option snd (actor_receive env msg a)"
| "actor_step (env, MaintenanceDue wall) a =
     (if ac_next_maint a \<le> env_now env then actor_maintain env wall a else Some a)"

section \<open>Operations of the packet connection\<close>

datatype 'a poll = Ready 'a | Pending

definition receive_buffer :: "nat \<Rightarrow> traffic_packet \<Rightarrow> bytes \<times> public_key" where
  "receive_buffer buf_len traffic = (take buf_len (tr_payload traffic), tr_source traffic)"

text \<open>\<open>read_from\<close> first asks the queue, which counts the reader as waiting when it is empty, and then
  waits on the channel (\<open>Pending\<close>); \<open>read_wait\<close> is the second half.\<close>

definition read_wait :: "nat \<Rightarrow> hub \<Rightarrow> (bytes \<times> public_key) poll \<times> hub" where
  "read_wait buf_len h =
     (case hb_channel h of
        t # ts \<Rightarrow> (Ready (receive_buffer buf_len t), h\<lparr>hb_channel := ts\<rparr>)
      | [] \<Rightarrow> (Pending, h))"

definition pc_read_from ::
    "(u32 \<Rightarrow> duration) \<Rightarrow> instant \<Rightarrow> packet_conn \<Rightarrow> nat \<Rightarrow> hub \<Rightarrow> ((bytes \<times> public_key) poll res \<times> hub) option" where
  "pc_read_from law now pc buf_len h =
     (if pc_closed pc then Some (Inl Closed, h)
      else map_option (\<lambda>(pkt, dq).
             let h = h\<lparr>hb_delivery := dq\<rparr>
             in case pkt of
                  Some t \<Rightarrow> (Inr (Ready (receive_buffer buf_len t)), h)
                | None \<Rightarrow> (let (r, h) = read_wait buf_len h in (Inr r, h)))
           (try_pop_or_wait law now (hb_delivery h)))"

definition pc_try_read_from ::
    "(u32 \<Rightarrow> duration) \<Rightarrow> instant \<Rightarrow> packet_conn \<Rightarrow> nat \<Rightarrow> hub \<Rightarrow> ((bytes \<times> public_key) option res \<times> hub) option" where
  "pc_try_read_from law now pc buf_len h =
     (if pc_closed pc then Some (Inl Closed, h)
      else map_option (\<lambda>(pkt, dq).
             let h = h\<lparr>hb_delivery := dq\<rparr>
             in case pkt of
                  Some t \<Rightarrow> (Inr (Some (receive_buffer buf_len t)), h)
                | None \<Rightarrow>
                    (case hb_channel h of
                       t # ts \<Rightarrow> (Inr (Some (receive_buffer buf_len t)), h\<lparr>hb_channel := ts\<rparr>)
                     | [] \<Rightarrow> (Inr None, h)))
           (try_pop law now (hb_delivery h)))"

definition pc_send_lookup :: "packet_conn \<Rightarrow> public_key \<Rightarrow> router_msg list" where
  "pc_send_lookup pc target = (if pc_closed pc then [] else [SendLookupMsg (pc_pub_key pc) target])"

definition pc_force_refresh :: "packet_conn \<Rightarrow> router_msg list" where
  "pc_force_refresh pc = (if pc_closed pc then [] else [ForceRefreshMsg])"

text \<open>\<open>close\<close> yields the links whose tasks are cancelled.\<close>

definition pc_close :: "hub \<Rightarrow> packet_conn \<Rightarrow> peer_id list res \<times> packet_conn" where
  "pc_close h pc =
     (if pc_closed pc then (Inl Closed, pc)
      else (Inr (filter (\<lambda>i. get_handle i (hb_peers h) \<noteq> None)
                   (concat (map (\<lambda>(_, m). hm_keys m) (ps_handles (hb_peers h))))),
            pc\<lparr>pc_closed := True\<rparr>))"

text \<open>A new connection, up to the point where its two tasks start: the checks, the entry in the table,
  the registration with the router, and the first keepalive.\<close>

definition handle_conn_start ::
    "crypto_env \<Rightarrow> router_env \<Rightarrow> packet_conn \<Rightarrow> public_key \<Rightarrow> u8 \<Rightarrow> hub \<Rightarrow> (peer_id res \<times> hub) option" where
  "handle_conn_start E env pc key prio h =
     (if pc_closed pc then Some (Inl Closed, h)
      else if key = pc_pub_key pc then Some (Inl BadKey, h)
      else if \<not> is_public_key_valid E key then Some (Inl BadKey, h)
      else Option.bind (allocate_peer key prio (hb_peers h)) (\<lambda>(handle, ps).
        let p = ph_id handle;
            h = h\<lparr>hb_peers := ps, hb_links := hm_insert p (writer_new (pc_max_message_size pc)) (hb_links h)\<rparr>
        in map_option (\<lambda>(_, h). (Inr p, snd (send_to_peer p (SendFrame keepalive_frame) h)))
             (handle_router_msg env (AddPeerMsg (to_entry handle)) h)))"

text \<open>\<open>get_peers\<close> completes what the router knows with the liveness state of each key.\<close>

definition pc_get_peers :: "peer_liveness_registry \<Rightarrow> peer_info list \<Rightarrow> peer_info list" where
  "pc_get_peers reg ps =
     map (\<lambda>p. case registry_snapshot (in_key p) reg of
                Some s \<Rightarrow> p\<lparr>in_liveness_timeout_ms := ls_timeout_ms s, in_liveness_degraded := ls_degraded s,
                            in_liveness_ewma_ms := ls_ewma_ms s\<rparr>
              | None \<Rightarrow> p) ps"

section \<open>What a dispatch hands to a link\<close>

fun traffic_action :: "router_action \<Rightarrow> (peer_id \<times> traffic_packet) option" where
  "traffic_action (SendTraffic p t) = Some (p, t)"
| "traffic_action _ = None"

fun frame_action :: "router_action \<Rightarrow> (peer_id \<times> bytes) option" where
  "frame_action (SendTraffic p t) = None"
| "frame_action a = encode_action_frame a"

fun local_action :: "instant \<Rightarrow> router_action \<Rightarrow> hub \<Rightarrow> hub" where
  "local_action now (DeliverTraffic t) h = deliver_traffic now t h"
| "local_action now (PathNotifyCallback k) h = h\<lparr>hb_notified := hb_notified h @ [k]\<rparr>"
| "local_action now _ h = h"

lemma collect_actions_eq:
  "collect_actions now acts tb fb h =
     (tb @ List.map_filter traffic_action acts, fb @ List.map_filter frame_action acts, fold (local_action now) acts h)"
proof (induction acts arbitrary: tb fb h)
  case (Cons a acts)
  then show ?case by (cases a) (simp_all add: map_filter_simps)
qed (simp add: map_filter_simps)

lemma local_action_same [simp]:
  "hb_links (local_action now a h) = hb_links h" "hb_peers (local_action now a h) = hb_peers h"
  "hb_router (local_action now a h) = hb_router h" "hb_deferred (local_action now a h) = hb_deferred h"
  by (cases a; simp add: deliver_traffic_def Let_def case_prod_beta split: option.splits)+

lemma fold_local_same [simp]:
  "hb_links (fold (local_action now) acts h) = hb_links h" "hb_peers (fold (local_action now) acts h) = hb_peers h"
  "hb_router (fold (local_action now) acts h) = hb_router h" "hb_deferred (fold (local_action now) acts h) = hb_deferred h"
  by (induction acts arbitrary: h) simp_all

lemma send_to_peer_same [simp]:
  "hb_peers (snd (send_to_peer p m h)) = hb_peers h" "hb_router (snd (send_to_peer p m h)) = hb_router h"
  "hb_delivery (snd (send_to_peer p m h)) = hb_delivery h" "hb_channel (snd (send_to_peer p m h)) = hb_channel h"
  "hb_notified (snd (send_to_peer p m h)) = hb_notified h"
  by (simp_all add: send_to_peer_def split: option.splits)

lemma push_traffic_same [simp]:
  "hb_peers (push_traffic now pt h) = hb_peers h" "hb_router (push_traffic now pt h) = hb_router h"
  "hb_delivery (push_traffic now pt h) = hb_delivery h" "hb_channel (push_traffic now pt h) = hb_channel h"
  "hb_notified (push_traffic now pt h) = hb_notified h" "hb_deferred (push_traffic now pt h) = hb_deferred h"
  by (simp_all add: push_traffic_def split: prod.splits option.splits)

abbreviation send_frames :: "(peer_id \<times> bytes) list \<Rightarrow> hub \<Rightarrow> hub" where
  "send_frames \<equiv> fold (\<lambda>(p, frame) h. snd (send_to_peer p (SendFrame frame) h))"

lemma send_frames_same [simp]:
  "hb_peers (send_frames fs h) = hb_peers h" "hb_router (send_frames fs h) = hb_router h"
  "hb_delivery (send_frames fs h) = hb_delivery h" "hb_channel (send_frames fs h) = hb_channel h"
  "hb_notified (send_frames fs h) = hb_notified h"
  by (induction fs arbitrary: h) (simp_all add: case_prod_beta)

lemma push_all_same [simp]:
  "hb_peers (fold (push_traffic now) ps h) = hb_peers h" "hb_router (fold (push_traffic now) ps h) = hb_router h"
  "hb_delivery (fold (push_traffic now) ps h) = hb_delivery h" "hb_channel (fold (push_traffic now) ps h) = hb_channel h"
  "hb_notified (fold (push_traffic now) ps h) = hb_notified h" "hb_deferred (fold (push_traffic now) ps h) = hb_deferred h"
  by (induction ps arbitrary: h) simp_all

lemma dispatch_actions_eq:
  "dispatch_actions now acts h =
     fold (push_traffic now) (filter (\<lambda>(p, _). get_handle p (hb_peers h) \<noteq> None) (List.map_filter traffic_action acts))
       (send_frames (List.map_filter frame_action acts) (fold (local_action now) acts h))"
  by (auto simp: dispatch_actions_def collect_actions_eq send_traffic_to_peers_batch_def Let_def)

text \<open>On the link of one peer.\<close>

abbreviation room :: "writer \<Rightarrow> nat" where
  "room w \<equiv> PEER_WRITER_CHANNEL_SIZE - length (wr_rx w)"

abbreviation deferred_for :: "peer_id \<Rightarrow> hub \<Rightarrow> peer_message list" where
  "deferred_for p h \<equiv> map snd (filter (\<lambda>(q, _). q = p) (hb_deferred h))"

abbreviation frames_for :: "peer_id \<Rightarrow> (peer_id \<times> bytes) list \<Rightarrow> peer_message list" where
  "frames_for p fs \<equiv> map (SendFrame \<circ> snd) (filter (\<lambda>(q, _). q = p) fs)"

lemma send_frames_link:
  assumes "get_handle p (hb_peers h) \<noteq> None" "hm_get (hb_links h) p = Some w"
  shows "hm_get (hb_links (send_frames fs h)) p = Some (w\<lparr>wr_rx := wr_rx w @ take (room w) (frames_for p fs)\<rparr>) \<and>
    deferred_for p (send_frames fs h) = deferred_for p h @ drop (room w) (frames_for p fs)"
  using assms
proof (induction fs arbitrary: h w)
  case (Cons f fs)
  obtain q frame where f: "f = (q, frame)" by fastforce
  let ?h = "snd (send_to_peer q (SendFrame frame) h)"
  let ?w = "if q = p \<and> 0 < room w then w\<lparr>wr_rx := wr_rx w @ [SendFrame frame]\<rparr> else w"
  have "hm_get (hb_links ?h) p = Some ?w"
    "deferred_for p ?h = deferred_for p h @ (if q = p \<and> room w = 0 then [SendFrame frame] else [])"
    using Cons.prems by (auto simp: send_to_peer_def split: option.splits if_splits)
  moreover have "room ?w = (if q = p then room w - 1 else room w)" by auto
  ultimately show ?case using Cons.IH [of ?h ?w] Cons.prems(1) f by (cases "room w") (auto simp: Suc_diff_Suc)
qed simp

lemma push_all_link:
  assumes "hm_get (hb_links h) p = Some w"
  shows "hm_get (hb_links (fold (push_traffic now) ps h)) p =
    Some (fold (\<lambda>t w. w\<lparr>wr_queue := pq_push now t (wr_queue w), wr_permit := True\<rparr>) (map snd (filter (\<lambda>(q, _). q = p) ps)) w)"
  using assms
proof (induction ps arbitrary: h w)
  case (Cons f ps)
  obtain q t where f: "f = (q, t)" by fastforce
  let ?w = "if q = p then w\<lparr>wr_queue := pq_push now t (wr_queue w), wr_permit := True\<rparr> else w"
  have "hm_get (hb_links (push_traffic now f h)) p = Some ?w"
    using Cons.prems f by (auto simp: push_traffic_def split: option.splits)
  then show ?case using Cons.IH [of "push_traffic now f h" ?w] f by simp
qed simp

lemma link_without_handle:
  assumes "get_handle p (hb_peers h) = None"
  shows "hm_get (hb_links (dispatch_actions now acts h)) p = hm_get (hb_links h) p"
    "deferred_for p (dispatch_actions now acts h) = deferred_for p h"
proof -
  have f: "hm_get (hb_links (send_frames fs g)) p = hm_get (hb_links g) p \<and> deferred_for p (send_frames fs g) = deferred_for p g"
    if "get_handle p (hb_peers g) = None" for fs g
    using that
  proof (induction fs arbitrary: g)
    case (Cons x fs)
    obtain q frame where x: "x = (q, frame)" by fastforce
    have "hm_get (hb_links (snd (send_to_peer q (SendFrame frame) g))) p = hm_get (hb_links g) p"
      "deferred_for p (snd (send_to_peer q (SendFrame frame) g)) = deferred_for p g"
      using Cons.prems by (auto simp: send_to_peer_def split: option.splits)
    then show ?case using Cons x by simp
  qed simp
  have t: "p \<notin> fst ` set ps \<Longrightarrow> hm_get (hb_links (fold (push_traffic now) ps g)) p = hm_get (hb_links g) p" for ps g
    by (induction ps arbitrary: g) (auto simp: push_traffic_def split: option.splits prod.splits)
  have "p \<notin> fst ` set (filter (\<lambda>(q, _). get_handle q (hb_peers h) \<noteq> None) (List.map_filter traffic_action acts))"
    using assms by auto
  then show "hm_get (hb_links (dispatch_actions now acts h)) p = hm_get (hb_links h) p"
    "deferred_for p (dispatch_actions now acts h) = deferred_for p h"
    unfolding dispatch_actions_eq using t f assms by simp_all
qed


text \<open>What the dispatch gives to the link of \<open>p\<close>: the frames of its protocol actions, then its packets.\<close>

definition protos_to :: "peer_id \<Rightarrow> router_action list \<Rightarrow> router_action list" where
  "protos_to p acts = filter (\<lambda>a. map_option fst (frame_action a) = Some p) acts"

definition packets_to :: "peer_id \<Rightarrow> router_action list \<Rightarrow> traffic_packet list" where
  "packets_to p acts = map snd (filter (\<lambda>(q, _). q = p) (List.map_filter traffic_action acts))"

definition link_inputs :: "instant \<Rightarrow> peer_id \<Rightarrow> nat \<Rightarrow> router_action list \<Rightarrow> link_input list" where
  "link_inputs now p n acts = map (Accept \<circ> Act) (take n (protos_to p acts)) @ map (AcceptPacket now) (packets_to p acts)"

lemma frames_to:
  "map (SendFrame \<circ> snd) (filter (\<lambda>(q, _). q = p) (List.map_filter frame_action acts)) =
     map (item_msg \<circ> Act) (protos_to p acts)"
proof (induction acts)
  case (Cons a acts)
  then show ?case by (cases a) (simp_all add: map_filter_simps protos_to_def frames_of_def)
qed (simp add: map_filter_simps protos_to_def)

lemma run_accepts:
  "writer_run (map (to_event \<circ> Accept) xs) (True, w) = Some (True, w\<lparr>wr_rx := wr_rx w @ map item_msg xs\<rparr>)"
  by (induction xs arbitrary: w) simp_all

lemma run_packets:
  "writer_run (map (to_event \<circ> AcceptPacket now) ts) (True, w) =
     Some (True, fold (\<lambda>t w. w\<lparr>wr_queue := pq_push now t (wr_queue w), wr_permit := True\<rparr>) ts w)"
  by (induction ts arbitrary: w) simp_all

lemma writer_run_append: "writer_run (es @ es') s = Option.bind (writer_run es s) (writer_run es')"
proof (induction es arbitrary: s)
  case (Cons e es)
  then show ?case by (cases "writer_step e s") simp_all
qed simp

lemma dispatch_link:
  assumes "get_handle p (hb_peers h) \<noteq> None" "hm_get (hb_links h) p = Some w"
  shows "(\<exists>w'. hm_get (hb_links (dispatch_actions now acts h)) p = Some w' \<and>
      writer_run (map to_event (link_inputs now p (room w) acts)) (True, w) = Some (True, w')) \<and>
    deferred_for p (dispatch_actions now acts h) = deferred_for p h @ map (item_msg \<circ> Act) (drop (room w) (protos_to p acts))"
proof -
  let ?xs = "take (room w) (protos_to p acts)" and ?ts = "packets_to p acts"
  let ?w = "w\<lparr>wr_rx := wr_rx w @ map (item_msg \<circ> Act) ?xs\<rparr>"
  have f: "hm_get (hb_links (send_frames (List.map_filter frame_action acts) (fold (local_action now) acts h))) p = Some ?w"
    "deferred_for p (send_frames (List.map_filter frame_action acts) (fold (local_action now) acts h)) =
       deferred_for p h @ map (item_msg \<circ> Act) (drop (room w) (protos_to p acts))"
    using send_frames_link [of p "fold (local_action now) acts h" w "List.map_filter frame_action acts"] assms
    by (simp_all add: frames_to take_map drop_map)
  have "map snd (filter (\<lambda>(q, _). q = p) (filter (\<lambda>(q, _). get_handle q (hb_peers h) \<noteq> None) (List.map_filter traffic_action acts))) = ?ts"
    using assms(1) by (auto simp: packets_to_def case_prod_beta intro!: arg_cong [of _ _ "map snd"] filter_cong)
  with f(1) have "hm_get (hb_links (dispatch_actions now acts h)) p =
      Some (fold (\<lambda>t w. w\<lparr>wr_queue := pq_push now t (wr_queue w), wr_permit := True\<rparr>) ?ts ?w)"
    unfolding dispatch_actions_eq by (subst push_all_link) simp_all
  moreover have "deferred_for p (dispatch_actions now acts h) = deferred_for p h @ map (item_msg \<circ> Act) (drop (room w) (protos_to p acts))"
    using f(2) unfolding dispatch_actions_eq by simp
  ultimately show ?thesis
    using run_accepts [of "map Act ?xs" w] run_packets [of now ?ts]
    by (simp add: link_inputs_def writer_run_append comp_assoc)
qed

lemma sent_link_inputs:
  "sent_actions (ins @ link_inputs now p n acts) = sent_actions ins @ take n (protos_to p acts)"
  "sent_packets (ins @ link_inputs now p n acts) = sent_packets ins @ packets_to p acts"
proof -
  have proto: "proto_of (Act a) = Some a" if "a \<in> set (protos_to p acts)" for a
    by (cases a) (use that in \<open>auto simp: protos_to_def\<close>)
  have "protos_of (map Act xs) = xs" if "set xs \<subseteq> set (protos_to p acts)" for xs
    using that by (induction xs) (simp_all add: map_filter_simps proto del: proto_of.simps)
  from this [OF set_take_subset] have "protos_of (map Act (take n (protos_to p acts))) = take n (protos_to p acts)" .
  moreover have "List.map_filter accepted_item (map (Accept \<circ> Act) xs) = map Act xs"
    "List.map_filter accepted_item (map (AcceptPacket now) ts) = []"
    "List.map_filter accepted_packet (map (Accept \<circ> Act) xs) = []"
    "List.map_filter accepted_packet (map (AcceptPacket now) ts) = ts" for xs ts
    by (induction xs; induction ts; simp add: map_filter_simps)+
  ultimately show "sent_actions (ins @ link_inputs now p n acts) = sent_actions ins @ take n (protos_to p acts)"
    "sent_packets (ins @ link_inputs now p n acts) = sent_packets ins @ packets_to p acts"
    by (simp_all add: sent_actions_def sent_packets_def link_inputs_def map_filter_simps)
qed

text \<open>A background task hands its message to the link it is for, behind what the channel holds.\<close>

lemma deferred_send_link:
  assumes "i < length (hb_deferred h)" "hb_deferred h ! i = (p, item_msg x)" "hm_get (hb_links h) p = Some w" "0 < room w"
  shows "\<exists>w'. hm_get (hb_links (deferred_send i h)) p = Some w' \<and> writer_run [to_event (Accept x)] (True, w) = Some (True, w') \<and>
    hb_deferred (deferred_send i h) = take i (hb_deferred h) @ drop (Suc i) (hb_deferred h)"
  using assms by (simp add: deferred_send_def)

text \<open>C12. Dispatch gives every link exactly what the router addressed to it. For a link that is in the
  table, whose writer was fed with \<open>ins\<close> so far, the writer after the dispatch is the one reached by
  feeding it the first frames of the protocol actions for that link, in order, as many as its channel
  has room for, and then its packets; the other frames wait, in order, in background tasks. A link
  that is not in the table gets nothing. Packets for this node go to its readers, in order, and the
  router itself is not changed. With \<open>link_delivers_in_order\<close> this carries the actions of one router
  to the router of the neighbour.\<close>

theorem dispatch_feeds_links:
  assumes "writer_run (map to_event ins) (True, writer_new max_size) = Some (True, w)" "hm_get (hb_links h) p = Some w"
    "h' = dispatch_actions now acts h" "n = PEER_WRITER_CHANNEL_SIZE - length (wr_rx w)"
  shows "(get_handle p (hb_peers h) \<noteq> None \<longrightarrow>
      (\<exists>w'. hm_get (hb_links h') p = Some w' \<and>
        writer_run (map to_event (ins @ link_inputs now p n acts)) (True, writer_new max_size) = Some (True, w')) \<and>
      sent_actions (ins @ link_inputs now p n acts) = sent_actions ins @ take n (protos_to p acts) \<and>
      sent_packets (ins @ link_inputs now p n acts) = sent_packets ins @ packets_to p acts \<and>
      deferred_for p h' = deferred_for p h @ map (item_msg \<circ> Act) (drop n (protos_to p acts))) \<and>
    (get_handle p (hb_peers h) = None \<longrightarrow> hm_get (hb_links h') p = Some w \<and> deferred_for p h' = deferred_for p h) \<and>
    hb_router h' = hb_router h \<and> hb_delivery h' = hb_delivery (fold (local_action now) acts h) \<and>
    hb_channel h' = hb_channel (fold (local_action now) acts h)"
  unfolding assms(3,4)
  using dispatch_link [of p h w now acts] link_without_handle [of p h now acts] assms(1,2) sent_link_inputs [of ins now p _ acts]
  by (auto simp: writer_run_append) (simp_all add: dispatch_actions_eq)

definition sample_hub :: hub where
  "sample_hub =
     \<lparr>hb_router = router_new sample_env [9] sample_config, hb_peers = w_peers sample_link_world,
      hb_links = [(2, writer_new 1000)], hb_delivery = delivery_queue_new 1000, hb_channel = [], hb_notified = [],
      hb_deferred = []\<rparr>"

theorem dispatch_feeds_links_witness:
  "\<exists>w'. hm_get (hb_links (dispatch_actions 5 [SendSigReq 2 \<lparr>req_seq = 1, req_nonce = 2\<rparr>] sample_hub)) 2 = Some w' \<and>
     writer_run [Queued (SendFrame (frames_of [SendSigReq 2 \<lparr>req_seq = 1, req_nonce = 2\<rparr>]))] (True, writer_new 1000) = Some (True, w')"
proof -
  let ?a = "SendSigReq 2 \<lparr>req_seq = 1, req_nonce = 2\<rparr>"
  have "get_handle 2 (hb_peers sample_hub) \<noteq> None"
    by (simp add: sample_hub_def get_handle_def sample_links map_filter_simps)
  moreover have "hm_get (hb_links sample_hub) 2 = Some (writer_new 1000)" by (simp add: sample_hub_def)
  moreover have "PEER_WRITER_CHANNEL_SIZE - length (wr_rx (writer_new 1000)) = 512"
    by (simp add: PEER_WRITER_CHANNEL_SIZE_def writer_new_def)
  ultimately show ?thesis
    using dispatch_feeds_links [of "[]" 1000 "writer_new 1000" sample_hub 2 _ 5 "[?a]" 512]
    by (auto simp: link_inputs_def protos_to_def packets_to_def map_filter_simps)
qed

section \<open>The actor keeps going\<close>

fun msg_ok :: "router_msg \<Rightarrow> bool" where
  "msg_ok (HandleBloom key flt) = (length flt = BLOOM_FILTER_U64S)"
| "msg_ok _ = True"

lemma send_lookup_returns: "sound r \<Longrightarrow> returns (send_lookup_actions env our_key dest) r"
proof (rule returns_after)
  assume ok: "sound r"
  let ?r = "set_pathfinder (\<lambda>pf. snd (ensure_rumor (env_now env) (x_key (r_bloom_transform r) dest) pf)) r"
  show s: "path_step r ?r" by (intro set_pathfinder_path_step ok pf_inv_ensure_rumor sound_pf)
  show "returns (send_traffic env (traffic_packet_new our_key dest [])) ?r"
    by (rule send_traffic_returns [OF path_step_sound [OF s]])
  show "send_traffic env (traffic_packet_new our_key dest []) ?r = send_lookup_actions env our_key dest r"
    by (simp add: send_lookup_actions_def Let_def)
qed

text \<open>The messages that are events of the router.\<close>

fun msg_event :: "router_msg \<Rightarrow> router_event option" where
  "msg_event (AddPeerMsg e) = Some (AddPeer e)"
| "msg_event (RemovePeerMsg p k q) = Some (RemovePeer p k q)"
| "msg_event (HandleResponse p k res rtt) = Some (SigResponse p k res rtt)"
| "msg_event (HandleAnnounce p k ann) = Some (Announced p k ann)"
| "msg_event (HandleBloom k f) = Some (BloomReceived k f)"
| "msg_event (HandleTraffic t) = Some (TrafficReceived t)"
| "msg_event (SendTrafficMsg t) = Some (TrafficSent t)"
| "msg_event (HandleLookup k l) = Some (LookupReceived k l)"
| "msg_event (HandleNotify k n) = Some (NotifyReceived n)"
| "msg_event (HandleBroken b) = Some (BrokenReceived b)"
| "msg_event (ForceLookupMsg d) = Some (LookupForced d)"
| "msg_event _ = None"

lemma router_msg_run_event:
  "msg_event msg = Some ev \<Longrightarrow> router_handle (env, ev) r = Some (acts, r') \<Longrightarrow>
   \<exists>reply. router_msg_run env msg r = Some (reply, acts, r')"
  by (cases msg) auto

lemma router_msg_run_returns:
  assumes inv: "router_inv r" and ok: "msg_ok msg"
  shows "\<exists>reply acts r'. router_msg_run env msg r = Some (reply, acts, r') \<and> router_inv r'"
proof (cases "msg_event msg")
  case (Some ev)
  then have "event_ok (env, ev)" using ok by (cases msg) auto
  from router_handle_returns [OF inv this] obtain acts r' where "router_handle (env, ev) r = Some (acts, r')" "router_inv r'"
    by blast
  then show ?thesis using router_msg_run_event [OF Some] by blast
next
  case None
  have lk: "\<exists>acts r'. send_lookup_actions env k d r = Some (acts, r') \<and> router_inv r'" for k d
    by (rule returns_inv [OF send_lookup_returns [OF router_inv_sound [OF inv]] inv])
  obtain acts2 r2 where mt: "do_maintenance env (force_refresh env r) = Some (acts2, r2)" "router_inv r2"
    using do_maintenance_returns [OF force_refresh_inv [OF inv]] by blast
  show ?thesis
  proof (cases msg)
    case (SendLookupMsg k d)
    then show ?thesis using lk [of k d] by auto
  qed (use None inv mt in \<open>auto simp: Let_def\<close>)
qed


lemma dispatch_actions_router [simp]: "hb_router (dispatch_actions now acts h) = hb_router h"
  by (simp add: dispatch_actions_eq)

definition actor_inv :: "actor option \<Rightarrow> bool" where
  "actor_inv s \<longleftrightarrow> (\<exists>a. s = Some a \<and> router_inv (hb_router (ac_hub a)))"

fun actor_event_ok :: "router_env \<times> actor_event \<Rightarrow> bool" where
  "actor_event_ok (env, MessageTaken msg) = msg_ok msg"
| "actor_event_ok (env, MaintenanceDue wall) = True"

lemma actor_step_inv:
  assumes inv: "router_inv (hb_router (ac_hub a))" and ok: "actor_event_ok (env, e)"
  shows "\<exists>a'. actor_step (env, e) a = Some a' \<and> router_inv (hb_router (ac_hub a'))"
proof (cases e)
  case (MessageTaken msg)
  obtain reply acts r where "router_msg_run env msg (hb_router (ac_hub a)) = Some (reply, acts, r)" "router_inv r"
    using router_msg_run_returns [OF inv, of msg env] ok MessageTaken by auto
  then show ?thesis using MessageTaken by (auto simp: actor_receive_def handle_router_msg_def Let_def)
next
  case (MaintenanceDue wall)
  let ?r = "if wall_jumped wall a then force_refresh env (hb_router (ac_hub a)) else hb_router (ac_hub a)"
  have "router_inv ?r" using inv force_refresh_inv by simp
  from do_maintenance_returns [OF expire_infos_inv [OF this]] obtain acts r where
    "do_maintenance env (expire_infos env ?r) = Some (acts, r)" "router_inv r" by blast
  then show ?thesis using MaintenanceDue inv by (auto simp: actor_maintain_def Let_def)
qed

interpretation actor_events: event_invariant "\<lambda>e s. Option.bind s (actor_step e)" actor_event_ok actor_inv
proof
  fix s e
  assume "actor_inv s" "actor_event_ok e"
  then show "actor_inv (Option.bind s (actor_step e))"
    using actor_step_inv [of _ "fst e" "snd e"] by (fastforce simp: actor_inv_def)
qed

abbreviation actor_run :: "(router_env \<times> actor_event) list \<Rightarrow> actor option \<Rightarrow> actor option" where
  "actor_run \<equiv> fold (\<lambda>e s. Option.bind s (actor_step e))"

lemma actor_step_message:
  "actor_step (env, MessageTaken msg) a = Some a' \<Longrightarrow>
   ac_next_maint a' = (if is_topology_msg msg then min (ac_next_maint a) (env_now env + MAINT_DEBOUNCE) else ac_next_maint a)"
  by (cases "handle_router_msg env msg (ac_hub a)") (auto simp: actor_receive_def Let_def min_def)

lemma actor_step_next:
  "actor_step (env, e) a = Some a' \<Longrightarrow> ac_next_maint a' \<le> max (ac_next_maint a) (env_now env + IDLE_MAINT_INTERVAL)"
  using actor_step_message [of env _ a a']
  by (cases e) (auto simp: actor_maintain_def Let_def split: if_splits)

lemma actor_run_next:
  "actor_run es (Some a) = Some a' \<Longrightarrow> ac_next_maint a \<le> T + IDLE_MAINT_INTERVAL \<Longrightarrow>
   list_all (\<lambda>(env, _). env_now env \<le> T) es \<Longrightarrow> ac_next_maint a' \<le> T + IDLE_MAINT_INTERVAL"
  "actor_run es (Some a) = Some a' \<Longrightarrow> list_all (\<lambda>(_, e). \<exists>msg. e = MessageTaken msg) es \<Longrightarrow> ac_next_maint a' \<le> ac_next_maint a"
proof (induction es arbitrary: a)
  case (Cons e es)
  obtain env ev where e: "e = (env, ev)" by fastforce
  have none: "actor_run es None = None" by (induction es) simp_all
  {
    case 1
    then obtain a1 where a1: "actor_step e a = Some a1" "actor_run es (Some a1) = Some a'"
      using none by (cases "actor_step e a") auto
    then have "ac_next_maint a1 \<le> T + IDLE_MAINT_INTERVAL"
      using actor_step_next [of env ev a a1] 1 e by auto
    then show ?case using Cons.IH(1) [OF a1(2)] 1 by simp
  next
    case 2
    then obtain a1 where a1: "actor_step e a = Some a1" "actor_run es (Some a1) = Some a'"
      using none by (cases "actor_step e a") auto
    then have "ac_next_maint a1 \<le> ac_next_maint a" using actor_step_message [of env _ a a1] 2 e by (auto split: if_splits)
    then show ?case using Cons.IH(2) [OF a1(2)] 2 by simp
  }
qed simp_all

text \<open>C13. The router actor never stops and maintenance is prompt. Whatever messages arrive in whatever
  order, and whenever maintenance falls due, every handler returns and the router keeps its
  invariant; the next maintenance is never more than ten seconds after the last event; and once a
  message that can change the tree was taken at a time \<open>t\<close>, maintenance is due at most 100
  milliseconds after \<open>t\<close>, whatever further messages arrive before it runs.\<close>

theorem maintenance_is_prompt:
  assumes "hb_router h = router_new env0 key config" "env_now env0 \<le> T"
    and "list_all actor_event_ok (es @ (env, MessageTaken msg) # es')"
    and "list_all (\<lambda>(env, _). env_now env \<le> T) (es @ (env, MessageTaken msg) # es')"
    and "list_all (\<lambda>(_, e). \<exists>msg. e = MessageTaken msg) es'"
  shows "\<exists>a. actor_run (es @ (env, MessageTaken msg) # es') (Some (actor_new env0 wall h)) = Some a \<and>
    router_inv (hb_router (ac_hub a)) \<and> ac_next_maint a \<le> T + IDLE_MAINT_INTERVAL \<and>
    (is_topology_msg msg \<longrightarrow> ac_next_maint a \<le> env_now env + MAINT_DEBOUNCE)"
proof -
  have start: "actor_inv (Some (actor_new env0 wall h))"
    using assms(1) router_new_inv by (simp add: actor_inv_def actor_new_def)
  obtain a1 where a1: "actor_run es (Some (actor_new env0 wall h)) = Some a1" "router_inv (hb_router (ac_hub a1))"
    using actor_events.run_inv [OF start, of es] assms(3) by (auto simp: actor_inv_def)
  obtain a2 where a2: "actor_step (env, MessageTaken msg) a1 = Some a2"
    using actor_step_inv [OF a1(2), of env "MessageTaken msg"] assms(3) by auto
  obtain a where a: "actor_run (es @ (env, MessageTaken msg) # es') (Some (actor_new env0 wall h)) = Some a"
    "router_inv (hb_router (ac_hub a))"
    using actor_events.run_inv [OF start assms(3)] by (auto simp: actor_inv_def)
  have tail: "actor_run es' (Some a2) = Some a" using a(1) a1(1) a2 by (auto simp del: actor_step.simps)
  have "ac_next_maint a \<le> T + IDLE_MAINT_INTERVAL"
    using actor_run_next(1) [OF a(1) _ assms(4)] assms(2) by (simp add: actor_new_def)
  moreover have "ac_next_maint a \<le> ac_next_maint a2" by (rule actor_run_next(2) [OF tail assms(5)])
  ultimately show ?thesis using a actor_step_message [OF a2] by auto
qed

theorem maintenance_is_prompt_witness:
  "\<exists>a. actor_run [(sample_env, MaintenanceDue 7), (sample_env, MessageTaken (AddPeerMsg
        \<lparr>pe_id = 1, pe_key = [2], pe_port = 5, pe_prio = 0, pe_order = 0\<rparr>)), (sample_env, MessageTaken GetTree)]
      (Some (actor_new sample_env 0 sample_hub)) = Some a \<and> ac_next_maint a \<le> env_now sample_env + MAINT_DEBOUNCE"
  using maintenance_is_prompt [of sample_hub sample_env "[9]" sample_config "env_now sample_env" "[(sample_env, MaintenanceDue 7)]"
      sample_env "AddPeerMsg \<lparr>pe_id = 1, pe_key = [2], pe_port = 5, pe_prio = 0, pe_order = 0\<rparr>"
      "[(sample_env, MessageTaken GetTree)]" 0]
  by (auto simp: sample_hub_def simp del: actor_step.simps)

section \<open>The MTU counts an empty path\<close>

lemma stream_read_frame_oversized:
  assumes "unat max_size < 1 + length payload" "1 + length payload < 2 ^ 64"
  shows "stream_read_frame max_size (encode_frame t payload @ rest) = Inl OversizedMessage"
proof -
  have "unat (of_nat (1 + length payload) :: u64) = 1 + length payload"
    by (rule of_nat_inverse [OF refl]) (use assms(2) in simp)
  then show ?thesis
    using assms(1) stream_read_encoded [of "of_nat (1 + length payload)"]
    by (simp add: stream_read_frame_def encode_frame_def Let_def word_less_nat_alt del: of_nat_Suc of_nat_add)
qed

text \<open>C38. A packet of exactly the MTU does not fit the link once it has a route. \<open>write_to\<close> accepts a
  payload of \<open>mtu\<close> bytes, for which the MTU reserves two empty paths of one byte and a watermark of
  ten; when the router has filled in paths and watermark that together take more than these twelve
  bytes, the frame exceeds the message size, and the neighbour's reader ends the link with
  \<open>OversizedMessage\<close>.\<close>

theorem full_mtu_packet_ends_link:
  assumes "pc_write_to pc buf dest = (Inr n, [tr])" "length buf = unat (pc_mtu pc)" "0 < unat (pc_mtu pc)"
    and "tr_payload tr' = buf" "wf_traffic (traffic.truncate tr')" "length (tr_payload tr') + 2 ^ 40 < 2 ^ 64"
    and "12 < path_size (tr_path tr') + path_size (tr_from tr') + uvarint_size (tr_watermark tr')"
    and "path_size (tr_path tr') + path_size (tr_from tr') < 2 ^ 32"
  shows "reader_run verify le rtt (pc_max_message_size pc) i (traffic_frame tr') = ([], OversizedMessage)"
proof -
  note m = pc_mtu_unat [of pc]
  have w: "wire_size tr' = path_size (tr_path tr') + path_size (tr_from tr') + 64 + uvarint_size (tr_watermark tr') + length buf"
    using assms(4) by (simp add: wire_size_def PUBLIC_KEY_SIZE_def)
  have f: "traffic_frame tr' = encode_frame Traffic (traffic_encode (traffic.truncate tr'))"
    using encode_traffic_frame_eq [OF assms(5)] by (simp add: traffic_frame_def traffic.truncate_def)
  have l: "length (traffic_encode (traffic.truncate tr')) = wire_size tr'" using wire_size_encode [OF assms(5)] by simp
  have "unat (pc_max_message_size pc) < 1 + wire_size tr'" using m w assms(2,3,7) by simp
  moreover have "1 + wire_size tr' < 2 ^ 64"
    using w assms(4,6,8) uvarint_size_le_10 [of "tr_watermark tr'"] by simp
  ultimately have "stream_read_frame (pc_max_message_size pc) (traffic_frame tr' @ []) = Inl OversizedMessage"
    unfolding f by (intro stream_read_frame_oversized) (simp_all add: l)
  then show ?thesis by (subst reader_run.simps) simp
qed

theorem full_mtu_packet_ends_link_witness:
  "reader_run (\<lambda>k m s. True) sample_link (\<lambda>i. 0) 200 0 (traffic_frame
     ((traffic_packet_new (replicate 32 1) (replicate 32 2) (replicate 123 7))\<lparr>tr_path := [1, 1, 1, 1, 1, 1], tr_from := [1, 1, 1, 1, 1, 1]\<rparr>)) =
   ([], OversizedMessage)"
proof -
  let ?pc = "\<lparr>pc_pub_key = replicate 32 1, pc_max_message_size = 200, pc_closed = False\<rparr>"
  let ?buf = "replicate 123 (7 :: u8)"
  let ?tr = "(traffic_packet_new (replicate 32 1) (replicate 32 2) ?buf)\<lparr>tr_path := [1, 1, 1, 1, 1, 1], tr_from := [1, 1, 1, 1, 1, 1]\<rparr>"
  have m: "unat (pc_mtu ?pc) = 123" using pc_mtu_unat [of ?pc] by simp
  have "pc_write_to ?pc ?buf (replicate 32 2) = (Inr 123, [traffic_packet_new (replicate 32 1) (replicate 32 2) ?buf])"
    using m by (simp add: pc_write_to_def word_less_nat_alt)
  moreover have "path_size [1, 1, 1, 1, 1, 1] = 7" by code_simp
  moreover have "wf_traffic (traffic.truncate ?tr)"
    by (simp add: traffic_packet_new_def traffic.truncate_def wf_defs PUBLIC_KEY_SIZE_def)
  ultimately show ?thesis
    using full_mtu_packet_ends_link [of ?pc ?buf "replicate 32 2" 123 "traffic_packet_new (replicate 32 1) (replicate 32 2) ?buf" ?tr
        "\<lambda>k m s. True" sample_link "\<lambda>i. 0" 0] m
    by (simp add: traffic_packet_new_def)
qed

end
