(* ===== verification/Ip_Net.thy ===== *)
theory Ip_Net
  imports Ygg_Prelude
begin

text \<open>
  IP addresses (\<open>std::net\<close>) and IP networks (the crate \<open>ipnet\<close>) as the firewall and the crypto-key
  routing use them. An address is its integer, \<open>Ipv6Addr::from\<close> of sixteen octets reads them in
  network order. A network is an address and a prefix length; what the crate computes from it is
  the record \<open>ipnet_lib\<close>, an argument of the functions that call it, and \<open>ipnet_lib_ok\<close> states its
  documented behaviour.
\<close>

datatype ip_addr = AddrV4 u32 | AddrV6 u128

datatype ip_net = NetV4 u32 u8 | NetV6 u128 u8

definition ipv4_octets :: "u32 \<Rightarrow> bytes" where
  "ipv4_octets a = be_bytes 4 a"

definition ipv6_octets :: "u128 \<Rightarrow> bytes" where
  "ipv6_octets a = be_bytes 16 a"

definition ipv4_from :: "bytes \<Rightarrow> u32" where
  "ipv4_from = from_be_bytes"

definition ipv6_from :: "bytes \<Rightarrow> u128" where
  "ipv6_from = from_be_bytes"

fun net_addr :: "ip_net \<Rightarrow> ip_addr" where
  "net_addr (NetV4 a _) = AddrV4 a"
| "net_addr (NetV6 a _) = AddrV6 a"

fun net_prefix_len :: "ip_net \<Rightarrow> u8" where
  "net_prefix_len (NetV4 _ l) = l"
| "net_prefix_len (NetV6 _ l) = l"

text \<open>The bits of an address, right-aligned in 128 bits, and the width of its family.\<close>

fun addr_bits :: "ip_addr \<Rightarrow> u128" where
  "addr_bits (AddrV4 a) = ucast a"
| "addr_bits (AddrV6 a) = a"

fun net_bits :: "ip_net \<Rightarrow> nat" where
  "net_bits (NetV4 _ _) = 32"
| "net_bits (NetV6 _ _) = 128"

abbreviation net_wf :: "ip_net \<Rightarrow> bool" where
  "net_wf n \<equiv> unat (net_prefix_len n) \<le> net_bits n"

record ipnet_lib =
  lib_parse :: "string \<Rightarrow> string + ip_net"
  lib_trunc :: "ip_net \<Rightarrow> ip_net"
  lib_network :: "ip_net \<Rightarrow> u128"
  lib_broadcast :: "ip_net \<Rightarrow> u128"
  lib_contains :: "ip_net \<Rightarrow> ip_addr \<Rightarrow> bool"

text \<open>The numbers that a network of \<open>w\<close> bits with address \<open>a\<close> and prefix length \<open>l\<close> stands for: the
  ones that agree with \<open>a\<close> on the top \<open>l\<close> bits.\<close>

definition net_low :: "nat \<Rightarrow> nat \<Rightarrow> nat \<Rightarrow> nat" where
  "net_low w l a = a div 2 ^ (w - l) * 2 ^ (w - l)"

definition net_high :: "nat \<Rightarrow> nat \<Rightarrow> nat \<Rightarrow> nat" where
  "net_high w l a = net_low w l a + (2 ^ (w - l) - 1)"

definition net_lo :: "ip_net \<Rightarrow> nat" where
  "net_lo n = net_low (net_bits n) (unat (net_prefix_len n)) (unat (addr_bits (net_addr n)))"

definition net_hi :: "ip_net \<Rightarrow> nat" where
  "net_hi n = net_high (net_bits n) (unat (net_prefix_len n)) (unat (addr_bits (net_addr n)))"

definition same_family :: "ip_net \<Rightarrow> ip_addr \<Rightarrow> bool" where
  "same_family n a \<longleftrightarrow> (case (n, a) of (NetV4 _ _, AddrV4 _) \<Rightarrow> True | (NetV6 _ _, AddrV6 _) \<Rightarrow> True | _ \<Rightarrow> False)"

definition net_has :: "ip_net \<Rightarrow> ip_addr \<Rightarrow> bool" where
  "net_has n a \<longleftrightarrow> same_family n a \<and> net_lo n \<le> unat (addr_bits a) \<and> unat (addr_bits a) \<le> net_hi n"

text \<open>What the documentation of \<open>ipnet\<close> says: a parsed network has a prefix length of its family,
  \<open>trunc\<close> keeps family and prefix length and clears the host bits, \<open>network\<close> and \<open>broadcast\<close> are the
  first and the last address, and \<open>contains\<close> is membership.\<close>

definition ipnet_lib_ok :: "ipnet_lib \<Rightarrow> bool" where
  "ipnet_lib_ok L \<longleftrightarrow>
     (\<forall>s n. lib_parse L s = Inr n \<longrightarrow> net_wf n) \<and>
     (\<forall>a l. net_wf (NetV4 a l) \<longrightarrow> lib_trunc L (NetV4 a l) = NetV4 (of_nat (net_lo (NetV4 a l))) l) \<and>
     (\<forall>a l. net_wf (NetV6 a l) \<longrightarrow> lib_trunc L (NetV6 a l) = NetV6 (of_nat (net_lo (NetV6 a l))) l) \<and>
     (\<forall>n. net_wf n \<longrightarrow> unat (lib_network L n) = net_lo n \<and> unat (lib_broadcast L n) = net_hi n) \<and>
     (\<forall>n a. net_wf n \<longrightarrow> lib_contains L n a = net_has n a)"

lemma net_low_le: "net_low w l a \<le> a"
  by (simp add: net_low_def)

lemma le_net_high: "a \<le> net_high w l a"
proof -
  have "a mod 2 ^ (w - l) < 2 ^ (w - l)" by simp
  then have "a mod 2 ^ (w - l) \<le> 2 ^ (w - l) - 1" by linarith
  then show ?thesis unfolding net_high_def net_low_def
    using div_mult_mod_eq [of a "2 ^ (w - l)"] by (metis add_le_cancel_left)
qed

lemma net_high_less:
  assumes "a < 2 ^ w" "l \<le> w"
  shows "net_high w l a < 2 ^ w"
proof -
  have w: "(2::nat) ^ w = 2 ^ l * 2 ^ (w - l)" using assms(2) by (simp flip: power_add)
  then have "a div 2 ^ (w - l) < 2 ^ l" using assms(1) by (simp add: less_mult_imp_div_less)
  then have "Suc (a div 2 ^ (w - l)) * 2 ^ (w - l) \<le> 2 ^ l * 2 ^ (w - l)" by (intro mult_le_mono1) simp
  moreover have "(0::nat) < 2 ^ (w - l)" by simp
  ultimately show ?thesis unfolding net_high_def net_low_def w mult_Suc by linarith
qed

lemma addr_bits_less: "unat (addr_bits (net_addr n)) < 2 ^ net_bits n"
proof (cases n)
  case (NetV4 a l)
  then show ?thesis using unsigned_less [of a, where ?'a = nat] by (simp add: unsigned_ucast_eq take_bit_eq_mod)
next
  case (NetV6 a l)
  then show ?thesis using unsigned_less [of a, where ?'a = nat] by simp
qed

lemma net_lo_le_hi: "net_lo n \<le> net_hi n"
  unfolding net_lo_def net_hi_def net_high_def by (rule le_add1)

lemma net_hi_less: "net_wf n \<Longrightarrow> net_hi n < 2 ^ net_bits n"
  by (simp add: net_hi_def net_high_less addr_bits_less)

lemma net_hi_less_128: "net_wf n \<Longrightarrow> net_hi n < 2 ^ 128"
  using net_hi_less [of n] by (cases n) simp_all

text \<open>The library as its documentation describes it.\<close>

definition sample_ipnet :: "(string \<Rightarrow> string + ip_net) \<Rightarrow> ipnet_lib" where
  "sample_ipnet parse_net =
     \<lparr>lib_parse = (\<lambda>s. case parse_net s of Inr n \<Rightarrow> if net_wf n then Inr n else Inl ''prefix'' | e \<Rightarrow> e),
      lib_trunc = (\<lambda>n. case n of NetV4 a l \<Rightarrow> NetV4 (of_nat (net_lo n)) l | NetV6 a l \<Rightarrow> NetV6 (of_nat (net_lo n)) l),
      lib_network = (\<lambda>n. of_nat (net_lo n)),
      lib_broadcast = (\<lambda>n. of_nat (net_hi n)),
      lib_contains = net_has\<rparr>"

lemma sample_ipnet_ok: "ipnet_lib_ok (sample_ipnet p)"
proof -
  have "unat (of_nat (net_lo n) :: u128) = net_lo n" "unat (of_nat (net_hi n) :: u128) = net_hi n" if "net_wf n" for n
    using net_hi_less_128 [OF that] net_lo_le_hi [of n] by (auto simp: unat_of_nat)
  then show ?thesis by (auto simp: ipnet_lib_ok_def sample_ipnet_def split: sum.splits if_splits)
qed

end
