(* ===== verification/Firewall.thy ===== *)
theory Firewall
  imports Ip_Net
begin

text \<open>
  The stateful packet filter, \<open>crates/yggdrasil/src/firewall.rs\<close>: the header walk, the flow table and
  its time-outs, the decision on an inbound packet. \<open>Instant::now()\<close> is an argument; the set of open
  ports is a list. A run of the filter is a list of events (a packet sent, a packet received, a tick
  of the collector) and its trace tells which packets were let in.
\<close>

section \<open>Constants and data\<close>

definition PROTO_TCP :: u8 where "PROTO_TCP = 6"
definition PROTO_UDP :: u8 where "PROTO_UDP = 17"
definition PROTO_ICMPV6 :: u8 where "PROTO_ICMPV6 = 58"
definition HOP_BY_HOP :: u8 where "HOP_BY_HOP = 0"
definition ROUTING :: u8 where "ROUTING = 43"
definition FRAGMENT :: u8 where "FRAGMENT = 44"
definition DEST_OPTS :: u8 where "DEST_OPTS = 60"
definition TCP_FLAG_FIN :: u8 where "TCP_FLAG_FIN = 0x01"
definition TCP_FLAG_SYN :: u8 where "TCP_FLAG_SYN = 0x02"
definition TCP_FLAG_RST :: u8 where "TCP_FLAG_RST = 0x04"
definition TCP_FLAG_ACK :: u8 where "TCP_FLAG_ACK = 0x10"
definition ICMP_ECHO_REQUEST :: u8 where "ICMP_ECHO_REQUEST = 128"
definition ICMP_ECHO_REPLY :: u8 where "ICMP_ECHO_REPLY = 129"
definition TCP_SYN_TIMEOUT :: duration where "TCP_SYN_TIMEOUT = secs 30"
definition TCP_ESTABLISHED_TIMEOUT :: duration where "TCP_ESTABLISHED_TIMEOUT = secs 300"
definition TCP_CLOSE_TIMEOUT :: duration where "TCP_CLOSE_TIMEOUT = secs 10"
definition UDP_TIMEOUT :: duration where "UDP_TIMEOUT = secs 60"
definition ICMP_TIMEOUT :: duration where "ICMP_TIMEOUT = secs 30"

lemmas firewall_consts =
  PROTO_TCP_def PROTO_UDP_def PROTO_ICMPV6_def HOP_BY_HOP_def ROUTING_def FRAGMENT_def DEST_OPTS_def
  TCP_FLAG_FIN_def TCP_FLAG_SYN_def TCP_FLAG_RST_def TCP_FLAG_ACK_def ICMP_ECHO_REQUEST_def ICMP_ECHO_REPLY_def

lemmas firewall_timeouts =
  TCP_SYN_TIMEOUT_def TCP_ESTABLISHED_TIMEOUT_def TCP_CLOSE_TIMEOUT_def UDP_TIMEOUT_def ICMP_TIMEOUT_def

record fw_flow_key =
  fk_proto :: u8
  fk_our_ip :: bytes
  fk_our_port :: u16
  fk_peer_ip :: bytes
  fk_peer_port :: u16

datatype tcp_state = SynSent | Established | FinSeen | ClosedTcp

record flow_entry =
  fe_last_seen :: instant
  fe_tcp_state :: "tcp_state option"

definition flow_timeout :: "flow_entry \<Rightarrow> u8 \<Rightarrow> duration" where
  "flow_timeout e proto =
     (if proto = PROTO_TCP then
        (case fe_tcp_state e of
           Some SynSent \<Rightarrow> TCP_SYN_TIMEOUT
         | Some Established \<Rightarrow> TCP_ESTABLISHED_TIMEOUT
         | Some FinSeen \<Rightarrow> TCP_CLOSE_TIMEOUT
         | Some ClosedTcp \<Rightarrow> TCP_CLOSE_TIMEOUT
         | None \<Rightarrow> TCP_SYN_TIMEOUT)
      else if proto = PROTO_UDP then UDP_TIMEOUT
      else if proto = PROTO_ICMPV6 then ICMP_TIMEOUT
      else UDP_TIMEOUT)"

record parsed =
  pd_proto :: u8
  pd_src_ip :: bytes
  pd_dst_ip :: bytes
  pd_src_port :: u16
  pd_dst_port :: u16
  pd_tcp_flags :: u8
  pd_icmp_type :: u8

record firewall_config =
  fc_enable :: bool
  fc_open_tcp :: "u16 list"
  fc_open_udp :: "u16 list"
  fc_open_all_for :: "string list"
  fc_allow_icmp_echo :: bool

record firewall =
  fw_enable :: bool
  fw_open_tcp :: "u16 list"
  fw_open_udp :: "u16 list"
  fw_open_all_for :: "ip_net list"
  fw_allow_icmp_echo :: bool
  fw_table :: "(fw_flow_key, flow_entry) hmap"

section \<open>Reading a packet\<close>

definition is_tracked :: "u8 \<Rightarrow> bool" where
  "is_tracked proto \<longleftrightarrow> proto = PROTO_TCP \<or> proto = PROTO_UDP \<or> proto = PROTO_ICMPV6"

definition advance_tcp :: "tcp_state option \<Rightarrow> u8 \<Rightarrow> tcp_state" where
  "advance_tcp prev flags =
     (if flags AND TCP_FLAG_RST \<noteq> 0 then ClosedTcp
      else if flags AND TCP_FLAG_FIN \<noteq> 0 then FinSeen
      else
        let syn = flags AND TCP_FLAG_SYN \<noteq> 0; ack = flags AND TCP_FLAG_ACK \<noteq> 0
        in case prev of
             Some ClosedTcp \<Rightarrow> ClosedTcp
           | Some FinSeen \<Rightarrow> FinSeen
           | Some Established \<Rightarrow> Established
           | _ \<Rightarrow> if ack \<and> \<not> syn then Established else if syn \<and> ack then Established else SynSent)"

fun walk_headers :: "nat \<Rightarrow> bytes \<Rightarrow> u8 \<Rightarrow> nat \<Rightarrow> (u8 \<times> nat) option" where
  "walk_headers 0 pkt nxt off = Some (nxt, off)"
| "walk_headers (Suc n) pkt nxt off =
     (if nxt = HOP_BY_HOP \<or> nxt = ROUTING \<or> nxt = DEST_OPTS then
        if off + 2 > length pkt then None
        else
          let nxt' = pkt ! off; hdr_len = (unat (pkt ! (off + 1)) + 1) * 8
          in if off + hdr_len > length pkt then None
             else walk_headers n pkt nxt' (off + hdr_len)
      else if nxt = FRAGMENT then
        if off + 8 > length pkt then None
        else
          let frag_word = from_be_bytes [pkt ! (off + 2), pkt ! (off + 3)] :: u16; frag_offset = drop_bit 3 frag_word
          in if frag_offset \<noteq> 0 then None
             else walk_headers n pkt (pkt ! off) (off + 8)
      else Some (nxt, off))"

definition parse :: "bytes \<Rightarrow> parsed option" where
  "parse pkt =
     (if length pkt < 40 then None
      else if drop_bit 4 (pkt ! 0) \<noteq> 6 then None
      else
        let src_ip = take 16 (drop 8 pkt); dst_ip = take 16 (drop 24 pkt)
        in case walk_headers 8 pkt (pkt ! 6) 40 of
             None \<Rightarrow> None
           | Some (proto, off) \<Rightarrow>
               if \<not> is_tracked proto then None
               else if proto = PROTO_TCP then
                 (if off + 14 > length pkt then None
                  else Some \<lparr>pd_proto = proto, pd_src_ip = src_ip, pd_dst_ip = dst_ip,
                    pd_src_port = from_be_bytes [pkt ! off, pkt ! (off + 1)],
                    pd_dst_port = from_be_bytes [pkt ! (off + 2), pkt ! (off + 3)],
                    pd_tcp_flags = pkt ! (off + 13), pd_icmp_type = 0\<rparr>)
               else if proto = PROTO_UDP then
                 (if off + 8 > length pkt then None
                  else Some \<lparr>pd_proto = proto, pd_src_ip = src_ip, pd_dst_ip = dst_ip,
                    pd_src_port = from_be_bytes [pkt ! off, pkt ! (off + 1)],
                    pd_dst_port = from_be_bytes [pkt ! (off + 2), pkt ! (off + 3)],
                    pd_tcp_flags = 0, pd_icmp_type = 0\<rparr>)
               else
                 (if off + 8 > length pkt then None
                  else
                    let icmp_type = pkt ! off;
                        ident = (if icmp_type = ICMP_ECHO_REQUEST \<or> icmp_type = ICMP_ECHO_REPLY
                          then from_be_bytes [pkt ! (off + 4), pkt ! (off + 5)] else 0)
                    in Some \<lparr>pd_proto = proto, pd_src_ip = src_ip, pd_dst_ip = dst_ip,
                         pd_src_port = ident, pd_dst_port = ident, pd_tcp_flags = 0, pd_icmp_type = icmp_type\<rparr>))"

section \<open>The filter\<close>

fun parse_subnets :: "ipnet_lib \<Rightarrow> string list \<Rightarrow> ip_net list \<Rightarrow> string + ip_net list" where
  "parse_subnets L [] subnets = Inr subnets"
| "parse_subnets L (s # ss) subnets =
     (case lib_parse L s of
        Inl e \<Rightarrow> Inl (''firewall: invalid open_all_for entry '' @ [CHR 0x27] @ s @ [CHR 0x27] @ '': '' @ e)
      | Inr (NetV6 a l) \<Rightarrow> parse_subnets L ss (subnets @ [NetV6 a l])
      | Inr (NetV4 a l) \<Rightarrow> Inl (''firewall: open_all_for entry '' @ [CHR 0x27] @ s @ [CHR 0x27] @ '' is IPv4, only IPv6 is supported''))"

definition firewall_new :: "ipnet_lib \<Rightarrow> firewall_config \<Rightarrow> string + firewall" where
  "firewall_new L cfg =
     (case parse_subnets L (fc_open_all_for cfg) [] of
        Inl e \<Rightarrow> Inl e
      | Inr subnets \<Rightarrow>
          Inr \<lparr>fw_enable = fc_enable cfg, fw_open_tcp = fc_open_tcp cfg, fw_open_udp = fc_open_udp cfg,
            fw_open_all_for = subnets, fw_allow_icmp_echo = fc_allow_icmp_echo cfg, fw_table = []\<rparr>)"

definition gc :: "instant \<Rightarrow> firewall \<Rightarrow> firewall" where
  "gc now fw = fw\<lparr>fw_table := hm_retain (\<lambda>key entry. now - fe_last_seen entry < flow_timeout entry (fk_proto key)) (fw_table fw)\<rparr>"

definition outbound_key :: "parsed \<Rightarrow> fw_flow_key" where
  "outbound_key p = \<lparr>fk_proto = pd_proto p, fk_our_ip = pd_src_ip p, fk_our_port = pd_src_port p,
     fk_peer_ip = pd_dst_ip p, fk_peer_port = pd_dst_port p\<rparr>"

definition inbound_key :: "parsed \<Rightarrow> fw_flow_key" where
  "inbound_key p = \<lparr>fk_proto = pd_proto p, fk_our_ip = pd_dst_ip p, fk_our_port = pd_dst_port p,
     fk_peer_ip = pd_src_ip p, fk_peer_port = pd_src_port p\<rparr>"

definition touch :: "instant \<Rightarrow> parsed \<Rightarrow> flow_entry \<Rightarrow> flow_entry" where
  "touch now p entry =
     (let entry = entry\<lparr>fe_last_seen := now\<rparr>
      in if pd_proto p = PROTO_TCP
         then entry\<lparr>fe_tcp_state := Some (advance_tcp (fe_tcp_state entry) (pd_tcp_flags p))\<rparr>
         else entry)"

definition observe_outbound :: "instant \<Rightarrow> bytes \<Rightarrow> firewall \<Rightarrow> firewall" where
  "observe_outbound now pkt fw =
     (case parse pkt of
        None \<Rightarrow> fw
      | Some p \<Rightarrow>
          if \<not> is_tracked (pd_proto p) then fw
          else
            let key = outbound_key p;
                fresh = \<lparr>fe_last_seen = now, fe_tcp_state = if pd_proto p = PROTO_TCP then Some SynSent else None\<rparr>
            in fw\<lparr>fw_table := hm_modify key (touch now p) (hm_entry key fresh (fw_table fw))\<rparr>)"

definition is_syn :: "parsed \<Rightarrow> bool" where
  "is_syn p \<longleftrightarrow> pd_tcp_flags p AND TCP_FLAG_SYN \<noteq> 0 \<and> pd_tcp_flags p AND TCP_FLAG_ACK = 0"

definition check_inbound :: "ipnet_lib \<Rightarrow> instant \<Rightarrow> bytes \<Rightarrow> firewall \<Rightarrow> bool \<times> firewall" where
  "check_inbound L now pkt fw =
     (case parse pkt of
        None \<Rightarrow> (False, fw)
      | Some p \<Rightarrow>
          if list_ex (\<lambda>net. lib_contains L net (AddrV6 (ipv6_from (pd_src_ip p)))) (fw_open_all_for fw) then (True, fw)
          else if pd_proto p = PROTO_ICMPV6 \<and> 1 \<le> pd_icmp_type p \<and> pd_icmp_type p \<le> 4 then (True, fw)
          else if pd_proto p = PROTO_ICMPV6 \<and> pd_icmp_type p = ICMP_ECHO_REQUEST \<and> fw_allow_icmp_echo fw then (True, fw)
          else
            let key = inbound_key p
            in case hm_get (fw_table fw) key of
                 Some entry \<Rightarrow> (True, fw\<lparr>fw_table := hm_modify key (touch now p) (fw_table fw)\<rparr>)
               | None \<Rightarrow>
                   if pd_proto p = PROTO_TCP then
                     if is_syn p \<and> pd_dst_port p \<in> set (fw_open_tcp fw)
                     then (True, fw\<lparr>fw_table := hm_insert key \<lparr>fe_last_seen = now, fe_tcp_state = Some SynSent\<rparr> (fw_table fw)\<rparr>)
                     else (False, fw)
                   else if pd_proto p = PROTO_UDP then
                     if pd_dst_port p \<in> set (fw_open_udp fw)
                     then (True, fw\<lparr>fw_table := hm_insert key \<lparr>fe_last_seen = now, fe_tcp_state = None\<rparr> (fw_table fw)\<rparr>)
                     else (False, fw)
                   else (False, fw))"

section \<open>Runs\<close>

datatype fw_event = Outbound instant bytes | Inbound instant bytes | Collect instant

fun fw_event_time :: "fw_event \<Rightarrow> instant" where
  "fw_event_time (Outbound now _) = now"
| "fw_event_time (Inbound now _) = now"
| "fw_event_time (Collect now) = now"

fun fw_step :: "ipnet_lib \<Rightarrow> fw_event \<Rightarrow> firewall \<Rightarrow> firewall" where
  "fw_step L (Outbound now pkt) fw = observe_outbound now pkt fw"
| "fw_step L (Inbound now pkt) fw = snd (check_inbound L now pkt fw)"
| "fw_step L (Collect now) fw = gc now fw"

abbreviation fw_run :: "ipnet_lib \<Rightarrow> fw_event list \<Rightarrow> firewall \<Rightarrow> firewall" where
  "fw_run L \<equiv> fold (fw_step L)"

text \<open>The three reasons of the policy that need no flow, the two that start one, and the events that
  leave a flow behind.\<close>

definition always_allowed :: "ipnet_lib \<Rightarrow> firewall \<Rightarrow> parsed \<Rightarrow> bool" where
  "always_allowed L fw p \<longleftrightarrow>
     (\<exists>net \<in> set (fw_open_all_for fw). lib_contains L net (AddrV6 (ipv6_from (pd_src_ip p)))) \<or>
     pd_proto p = PROTO_ICMPV6 \<and> 1 \<le> pd_icmp_type p \<and> pd_icmp_type p \<le> 4 \<or>
     pd_proto p = PROTO_ICMPV6 \<and> pd_icmp_type p = ICMP_ECHO_REQUEST \<and> fw_allow_icmp_echo fw"

definition opens_port :: "firewall \<Rightarrow> parsed \<Rightarrow> bool" where
  "opens_port fw p \<longleftrightarrow>
     pd_proto p = PROTO_TCP \<and> is_syn p \<and> pd_dst_port p \<in> set (fw_open_tcp fw) \<or>
     pd_proto p = PROTO_UDP \<and> pd_dst_port p \<in> set (fw_open_udp fw)"

fun starts_flow :: "firewall \<Rightarrow> fw_event \<Rightarrow> fw_flow_key \<Rightarrow> bool" where
  "starts_flow fw (Outbound _ pkt) k \<longleftrightarrow> (\<exists>p. parse pkt = Some p \<and> outbound_key p = k)"
| "starts_flow fw (Inbound _ pkt) k \<longleftrightarrow> (\<exists>p. parse pkt = Some p \<and> inbound_key p = k \<and> opens_port fw p)"
| "starts_flow fw (Collect _) k \<longleftrightarrow> False"

lemma proto_distinct [simp]: "PROTO_UDP \<noteq> PROTO_TCP" "PROTO_TCP \<noteq> PROTO_UDP" "PROTO_ICMPV6 \<noteq> PROTO_TCP"
  "PROTO_ICMPV6 \<noteq> PROTO_UDP" "PROTO_TCP \<noteq> PROTO_ICMPV6" "PROTO_UDP \<noteq> PROTO_ICMPV6"
  by (simp_all add: firewall_consts)

lemma check_inbound_accepts:
  "fst (check_inbound L now pkt fw) \<longleftrightarrow>
     (\<exists>p. parse pkt = Some p \<and>
       (always_allowed L fw p \<or> hm_contains (fw_table fw) (inbound_key p) \<or> opens_port fw p))"
  by (auto simp: check_inbound_def always_allowed_def opens_port_def hm_contains_def list_ex_iff Let_def
      split: option.splits)

lemma check_inbound_table:
  "\<exists>t. snd (check_inbound L now pkt fw) = fw\<lparr>fw_table := t\<rparr> \<and>
     (\<forall>k. hm_contains t k \<longleftrightarrow> hm_contains (fw_table fw) k \<or>
        (\<exists>p. parse pkt = Some p \<and> inbound_key p = k \<and> opens_port fw p \<and> \<not> always_allowed L fw p))"
proof (cases "parse pkt")
  case None
  then show ?thesis by (simp add: check_inbound_def) (rule exI [of _ "fw_table fw"], simp)
next
  case (Some p)
  let ?k = "inbound_key p"
  show ?thesis
  proof (cases "always_allowed L fw p")
    case True
    then have "snd (check_inbound L now pkt fw) = fw"
      using Some by (auto simp: check_inbound_def always_allowed_def list_ex_iff)
    then show ?thesis using True Some by (intro exI [of _ "fw_table fw"]) auto
  next
    case na: False
    show ?thesis
    proof (cases "hm_get (fw_table fw) ?k")
      case (Some e)
      then have "snd (check_inbound L now pkt fw) = fw\<lparr>fw_table := hm_modify ?k (touch now p) (fw_table fw)\<rparr>"
        using \<open>parse pkt = Some p\<close> na by (auto simp: check_inbound_def always_allowed_def list_ex_iff)
      then show ?thesis using Some \<open>parse pkt = Some p\<close>
        by (intro exI [of _ "hm_modify ?k (touch now p) (fw_table fw)"]) (auto simp: hm_contains_def)
    next
      case None
      then have "snd (check_inbound L now pkt fw) =
          (if opens_port fw p
           then fw\<lparr>fw_table := hm_insert ?k \<lparr>fe_last_seen = now,
             fe_tcp_state = if pd_proto p = PROTO_TCP then Some SynSent else None\<rparr> (fw_table fw)\<rparr>
           else fw)"
        using Some na by (auto simp: check_inbound_def always_allowed_def opens_port_def list_ex_iff Let_def)
      then show ?thesis using Some na
      proof (cases "opens_port fw p")
        case False
        with \<open>snd (check_inbound L now pkt fw) = _\<close> show ?thesis
          using Some by (intro exI [of _ "fw_table fw"]) simp
      qed (auto simp: hm_contains_def intro!: exI [of _ "hm_insert ?k _ (fw_table fw)"])
    qed
  qed
qed

lemma parse_tracked: "parse pkt = Some p \<Longrightarrow> is_tracked (pd_proto p)"
  by (auto simp: parse_def Let_def split: option.splits if_splits)

lemma observe_outbound_table:
  "\<exists>t. observe_outbound now pkt fw = fw\<lparr>fw_table := t\<rparr> \<and>
     (\<forall>k. hm_contains t k \<longleftrightarrow> hm_contains (fw_table fw) k \<or> (\<exists>p. parse pkt = Some p \<and> outbound_key p = k))"
proof (cases "parse pkt")
  case None
  then show ?thesis by (intro exI [of _ "fw_table fw"]) (simp add: observe_outbound_def)
next
  case (Some p)
  then show ?thesis using parse_tracked [OF Some]
    by (auto simp: observe_outbound_def Let_def hm_contains_def)
qed

lemma fw_step_table:
  "\<exists>t. fw_step L e fw = fw\<lparr>fw_table := t\<rparr> \<and>
     (\<forall>k. hm_contains t k \<longrightarrow> hm_contains (fw_table fw) k \<or> starts_flow fw e k)"
proof (cases e)
  case (Outbound now pkt)
  then show ?thesis using observe_outbound_table [of now pkt fw] by auto
next
  case (Inbound now pkt)
  then show ?thesis using check_inbound_table [of L now pkt fw] by auto
next
  case (Collect now)
  then have "fw_step L e fw = fw\<lparr>fw_table := hm_retain (\<lambda>key entry. now - fe_last_seen entry < flow_timeout entry (fk_proto key)) (fw_table fw)\<rparr>"
    by (simp add: gc_def)
  then show ?thesis by (intro exI conjI) (assumption, auto simp: hm_retain_def hm_contains_def map_of_eq_None_iff)
qed

lemma fw_run_table:
  "\<exists>t. fw_run L es fw = fw\<lparr>fw_table := t\<rparr> \<and>
     (\<forall>k. hm_contains t k \<longrightarrow> hm_contains (fw_table fw) k \<or> (\<exists>e \<in> set es. starts_flow fw e k))"
proof (induction es arbitrary: fw)
  case Nil
  show ?case by (intro exI [of _ "fw_table fw"]) simp
next
  case (Cons e es)
  obtain t where t: "fw_step L e fw = fw\<lparr>fw_table := t\<rparr>"
    "\<And>k. hm_contains t k \<Longrightarrow> hm_contains (fw_table fw) k \<or> starts_flow fw e k"
    using fw_step_table [of L e fw] by blast
  have start: "starts_flow (fw\<lparr>fw_table := t\<rparr>) e' k = starts_flow fw e' k" for e' k
    by (cases e') (simp_all add: opens_port_def)
  obtain u where u: "fw_run L es (fw\<lparr>fw_table := t\<rparr>) = fw\<lparr>fw_table := t\<rparr>\<lparr>fw_table := u\<rparr>"
    "\<And>k. hm_contains u k \<Longrightarrow> hm_contains t k \<or> (\<exists>e \<in> set es. starts_flow fw e k)"
    using Cons.IH [of "fw\<lparr>fw_table := t\<rparr>"] unfolding start by auto
  then show ?case using t by (intro exI [of _ u]) (auto dest!: u(2) t(2))
qed

text \<open>C17. A packet that the firewall lets in is covered by its policy: the source is in an open
  subnet, it is an ICMPv6 error or a permitted echo request, it opens a listed port, or a flow with
  its addresses and ports (the source and the destination swapped) was started before, by a packet
  of our own or by an inbound packet that opened a listed port. Whatever the clock, the collector
  and the order of the packets.\<close>

theorem firewall_lets_in_only_policy:
  assumes "firewall_new L cfg = Inr fw" "fst (check_inbound L now pkt (fw_run L es fw))"
  shows "\<exists>p. parse pkt = Some p \<and>
    (always_allowed L fw p \<or> opens_port fw p \<or> (\<exists>e \<in> set es. starts_flow fw e (inbound_key p)))"
proof -
  have empty: "\<not> hm_contains (fw_table fw) k" for k
    using assms(1) by (auto simp: firewall_new_def hm_contains_def split: sum.splits)
  obtain t where "fw_run L es fw = fw\<lparr>fw_table := t\<rparr>"
    "\<And>k. hm_contains t k \<Longrightarrow> hm_contains (fw_table fw) k \<or> (\<exists>e \<in> set es. starts_flow fw e k)"
    using fw_run_table [of L es fw] by blast
  then show ?thesis using assms(2) empty
    by (auto simp: check_inbound_accepts always_allowed_def opens_port_def)
qed

section \<open>Return traffic\<close>

definition shortest_timeout :: "u8 \<Rightarrow> duration" where
  "shortest_timeout proto =
     (if proto = PROTO_TCP then TCP_CLOSE_TIMEOUT else if proto = PROTO_ICMPV6 then ICMP_TIMEOUT else UDP_TIMEOUT)"

lemma shortest_timeout_le: "shortest_timeout proto \<le> flow_timeout e proto"
  by (auto simp: shortest_timeout_def flow_timeout_def firewall_timeouts split: option.splits tcp_state.splits)

lemma flow_timeout_pos: "0 < flow_timeout e proto"
  by (auto simp: flow_timeout_def firewall_timeouts split: option.splits tcp_state.splits)

definition flow_alive :: "instant \<Rightarrow> fw_flow_key \<Rightarrow> firewall \<Rightarrow> bool" where
  "flow_alive t k fw \<longleftrightarrow> hm_wf (fw_table fw) \<and> (\<exists>e. hm_get (fw_table fw) k = Some e \<and> t \<le> fe_last_seen e)"

definition within_timeout :: "instant \<Rightarrow> fw_flow_key \<Rightarrow> fw_event \<Rightarrow> bool" where
  "within_timeout t k e \<longleftrightarrow> t \<le> fw_event_time e \<and>
     (case e of Collect now \<Rightarrow> now < t + shortest_timeout (fk_proto k) | _ \<Rightarrow> True)"

lemma touch_last_seen [simp]: "fe_last_seen (touch now p e) = now"
  by (simp add: touch_def Let_def)

lemma hm_wf_modify [simp]: "hm_wf (hm_modify k f m) = hm_wf m"
  by simp

lemma observe_outbound_alive:
  "hm_wf (fw_table fw) \<Longrightarrow> parse pkt = Some p \<Longrightarrow> flow_alive now (outbound_key p) (observe_outbound now pkt fw)"
  by (simp add: flow_alive_def observe_outbound_def parse_tracked Let_def)

lemma observe_outbound_keeps:
  "flow_alive t k fw \<Longrightarrow> t \<le> now \<Longrightarrow> flow_alive t k (observe_outbound now pkt fw)"
  by (auto simp: flow_alive_def observe_outbound_def Let_def split: option.splits)

lemma check_inbound_keeps:
  "flow_alive t k fw \<Longrightarrow> t \<le> now \<Longrightarrow> flow_alive t k (snd (check_inbound L now pkt fw))"
  by (auto simp: flow_alive_def check_inbound_def Let_def split: option.splits)

lemma gc_keeps:
  assumes "flow_alive t k fw" "now < t + shortest_timeout (fk_proto k)"
  shows "flow_alive t k (gc now fw)"
proof -
  obtain e where e: "hm_get (fw_table fw) k = Some e" "t \<le> fe_last_seen e" "hm_wf (fw_table fw)"
    using assms(1) by (auto simp: flow_alive_def)
  then have "now - fe_last_seen e < flow_timeout e (fk_proto k)"
    using assms(2) shortest_timeout_le [of "fk_proto k" e] flow_timeout_pos [of e "fk_proto k"] by linarith
  then show ?thesis using e by (simp add: flow_alive_def gc_def hm_get_retain)
qed

interpretation firewall_flow: event_invariant "fw_step L" "within_timeout t k" "flow_alive t k" for L t k
proof
  fix fw e
  assume "flow_alive t k fw" "within_timeout t k e"
  then show "flow_alive t k (fw_step L e fw)"
    by (cases e) (simp_all add: within_timeout_def observe_outbound_keeps check_inbound_keeps gc_keeps)
qed

text \<open>The table of a filter in use is a map.\<close>

lemma fw_table_wf_step: "hm_wf (fw_table fw) \<Longrightarrow> hm_wf (fw_table (fw_step L e fw))"
  by (cases e) (auto simp: observe_outbound_def check_inbound_def gc_def Let_def split: option.splits)

interpretation firewall_table: event_invariant "fw_step L" "\<lambda>_. True" "\<lambda>fw. hm_wf (fw_table fw)" for L
  by unfold_locales (rule fw_table_wf_step)

lemma fw_table_wf: "firewall_new L cfg = Inr fw \<Longrightarrow> hm_wf (fw_table (fw_run L es fw))"
  by (rule firewall_table.run_inv) (auto simp: firewall_new_def list_all_iff split: sum.splits)

text \<open>C24. Replies come back: once we have sent a packet of a tracked protocol, a packet with the
  addresses and ports swapped is let in, whatever else happens in between, as long as the collector
  has not run later than the shortest time-out of the protocol (10 s for TCP, 60 s for UDP, 30 s
  for ICMPv6) after our packet.\<close>

theorem firewall_replies_pass:
  assumes "firewall_new L cfg = Inr fw" "parse sent = Some p" "parse reply = Some q"
    "inbound_key q = outbound_key p" "list_all (within_timeout t (outbound_key p)) after"
  shows "fst (check_inbound L now reply (fw_run L (before @ Outbound t sent # after) fw))"
proof -
  let ?fw = "fw_run L before fw"
  have "flow_alive t (outbound_key p) (fw_step L (Outbound t sent) ?fw)"
    using fw_table_wf [OF assms(1)] assms(2) by (simp add: observe_outbound_alive)
  then have "flow_alive t (outbound_key p) (fw_run L (before @ Outbound t sent # after) fw)"
    using firewall_flow.run_inv [OF _ assms(5)] by simp
  then have "hm_contains (fw_table (fw_run L (before @ Outbound t sent # after) fw)) (inbound_key q)"
    using assms(4) by (auto simp: flow_alive_def hm_contains_def)
  then show ?thesis using assms(3) by (auto simp: check_inbound_accepts)
qed

section \<open>Examples\<close>

definition sample_v6 :: "u8 \<Rightarrow> u8 \<Rightarrow> u8 \<Rightarrow> bytes \<Rightarrow> bytes" where
  "sample_v6 proto src dst payload =
     [0x60, 0, 0, 0, 0, of_nat (length payload), proto, 64,
      2, 0, 0, 0, 0, 0, 0, 0, 0, 0, 0, 0, 0, 0, 0, src,
      2, 0, 0, 0, 0, 0, 0, 0, 0, 0, 0, 0, 0, 0, 0, dst] @ payload"

definition sample_udp :: "u8 \<Rightarrow> u8 \<Rightarrow> bytes" where
  "sample_udp sport dport = [0, sport, 0, dport, 0, 0, 0, 0]"

definition sample_firewall_config :: firewall_config where
  "sample_firewall_config = \<lparr>fc_enable = True, fc_open_tcp = [22], fc_open_udp = [], fc_open_all_for = [], fc_allow_icmp_echo = False\<rparr>"

definition sample_firewall :: firewall where
  "sample_firewall = \<lparr>fw_enable = True, fw_open_tcp = [22], fw_open_udp = [], fw_open_all_for = [],
     fw_allow_icmp_echo = False, fw_table = []\<rparr>"

lemma sample_firewall_new: "firewall_new L sample_firewall_config = Inr sample_firewall"
  by (simp add: firewall_new_def sample_firewall_config_def sample_firewall_def)

lemma walk_headers_tracked: "is_tracked proto \<Longrightarrow> walk_headers n pkt proto off = Some (proto, off)"
  by (cases n) (auto simp: is_tracked_def firewall_consts)

lemma sample_udp_parse:
  "parse (sample_v6 17 src dst (sample_udp sp dp)) =
     Some \<lparr>pd_proto = 17, pd_src_ip = [2, 0, 0, 0, 0, 0, 0, 0, 0, 0, 0, 0, 0, 0, 0, src],
       pd_dst_ip = [2, 0, 0, 0, 0, 0, 0, 0, 0, 0, 0, 0, 0, 0, 0, dst],
       pd_src_port = from_be_bytes [0, sp], pd_dst_port = from_be_bytes [0, dp], pd_tcp_flags = 0, pd_icmp_type = 0\<rparr>"
  by (simp add: parse_def sample_v6_def sample_udp_def walk_headers_tracked Let_def firewall_consts is_tracked_def)

theorem firewall_replies_pass_witness:
  "fst (check_inbound (sample_ipnet Inl) (secs 50) (sample_v6 17 2 1 (sample_udp 53 99))
     (fw_run (sample_ipnet Inl) ([] @ Outbound (secs 1) (sample_v6 17 1 2 (sample_udp 99 53)) # [Collect (secs 40)]) sample_firewall))"
  by (rule firewall_replies_pass [OF sample_firewall_new sample_udp_parse sample_udp_parse])
    (simp_all add: inbound_key_def outbound_key_def within_timeout_def shortest_timeout_def firewall_consts firewall_timeouts)

theorem firewall_lets_in_only_policy_witness:
  "\<exists>p. parse (sample_v6 17 2 1 (sample_udp 53 99)) = Some p \<and>
    (always_allowed (sample_ipnet Inl) sample_firewall p \<or> opens_port sample_firewall p \<or>
     starts_flow sample_firewall (Outbound (secs 1) (sample_v6 17 1 2 (sample_udp 99 53))) (inbound_key p))"
proof -
  have "fst (check_inbound (sample_ipnet Inl) (secs 2) (sample_v6 17 2 1 (sample_udp 53 99))
      (fw_run (sample_ipnet Inl) [Outbound (secs 1) (sample_v6 17 1 2 (sample_udp 99 53))] sample_firewall))"
    by (simp add: check_inbound_accepts sample_udp_parse observe_outbound_def Let_def hm_contains_def is_tracked_def
        firewall_consts inbound_key_def outbound_key_def)
  from firewall_lets_in_only_policy [OF sample_firewall_new this] show ?thesis by auto
qed

end
