(* ===== verification/Cidr.thy ===== *)
theory Cidr
  imports Ip_Net "HOL-Library.Product_Lexorder" "HOL-Library.Monad_Syntax"
begin

text \<open>
  Arithmetic on address ranges, from \<open>crates/yggdrasil/src/ckr.rs\<close>: masks, the merge of excluded
  networks into disjoint ranges, the subtraction of such ranges from a network and the cover of a
  range by prefix-aligned blocks. Addresses are 128-bit words as in the code. \<open>make_net\<close> answers
  \<open>None\<close> where the code panics; the loop of \<open>emit_range\<close> is a partial function, and the theorems
  show that it returns.
\<close>

section \<open>Definitions\<close>

text \<open>\<open>trailing_zeros\<close>, \<open>leading_zeros\<close> and \<open>saturating_add\<close> of the standard library, at 128 bits.\<close>

definition trailing_zeros :: "u128 \<Rightarrow> nat" where
  "trailing_zeros w = length (takeWhile (\<lambda>i. \<not> bit w i) [0..<128])"

definition leading_zeros :: "u128 \<Rightarrow> nat" where
  "leading_zeros w = length (takeWhile (\<lambda>i. \<not> bit w (127 - i)) [0..<128])"

definition saturating_succ :: "u128 \<Rightarrow> u128" where
  "saturating_succ w = (if w = - 1 then - 1 else w + 1)"

definition mask_addr :: "u128 \<Rightarrow> u8 \<Rightarrow> nat \<Rightarrow> u128" where
  "mask_addr addr prefix_len bits =
     (if prefix_len = 0 then 0
      else let shift = bits - unat prefix_len in push_bit shift (drop_bit shift addr))"

definition make_net :: "u128 \<Rightarrow> u8 \<Rightarrow> nat \<Rightarrow> ip_net option" where
  "make_net addr prefix_len bits =
     (if bits = 32
      then if unat prefix_len \<le> 32 then Some (NetV4 (ucast addr) prefix_len) else None
      else if unat prefix_len \<le> 128 then Some (NetV6 addr prefix_len) else None)"

definition net_bounds :: "ipnet_lib \<Rightarrow> ip_net \<Rightarrow> u128 \<times> u128" where
  "net_bounds L net = (lib_network L net, lib_broadcast L net)"

definition merge_range :: "u128 \<times> u128 \<Rightarrow> (u128 \<times> u128) list \<Rightarrow> (u128 \<times> u128) list" where
  "merge_range r merged =
     (if merged \<noteq> [] \<and> fst r \<le> saturating_succ (snd (last merged))
      then butlast merged @ [(fst (last merged), max (snd (last merged)) (snd r))]
      else merged @ [r])"

definition merge_excludes :: "ipnet_lib \<Rightarrow> ip_net list \<Rightarrow> (u128 \<times> u128) list" where
  "merge_excludes L excludes = fold merge_range (sort (map (net_bounds L) excludes)) []"

definition emit_size :: "u128 \<Rightarrow> u128 \<Rightarrow> nat \<Rightarrow> nat" where
  "emit_size cur hi bits =
     (let align = (if cur = 0 then bits else min (trailing_zeros cur) bits);
          remaining = hi - cur;
          span = (if remaining = - 1 then 128 else 127 - leading_zeros (remaining + 1))
      in min (min align span) bits)"

partial_function (option) emit_range :: "u128 \<Rightarrow> u128 \<Rightarrow> nat \<Rightarrow> ip_net list \<Rightarrow> ip_net list option" where
  "emit_range cur hi bits out =
     (let size = emit_size cur hi bits
      in Option.bind (make_net cur (of_nat (bits - size)) bits) (\<lambda>net.
         if size = 128 then Some (out @ [net])
         else if cur + push_bit size 1 - 1 \<ge> hi then Some (out @ [net])
         else emit_range (cur + push_bit size 1 - 1 + 1) hi bits (out @ [net])))"

fun subtract_walk :: "u128 \<Rightarrow> u128 \<Rightarrow> nat \<Rightarrow> (u128 \<times> u128) list \<Rightarrow> ip_net list \<Rightarrow> ip_net list option" where
  "subtract_walk cur inc_hi bits [] out = emit_range cur inc_hi bits out"
| "subtract_walk cur inc_hi bits ((lo, hi) # es) out =
     (if lo > inc_hi then emit_range cur inc_hi bits out
      else
        Option.bind (if lo > cur then emit_range cur (lo - 1) bits out else Some out) (\<lambda>out.
        if hi \<ge> inc_hi then Some out
        else subtract_walk (hi + 1) inc_hi bits es out))"

definition subtract_many :: "ipnet_lib \<Rightarrow> ip_net \<Rightarrow> (u128 \<times> u128) list \<Rightarrow> ip_net list option" where
  "subtract_many L incl excludes =
     (let (inc_lo, inc_hi) = net_bounds L incl;
          start = length (takeWhile (\<lambda>(_, hi). hi < inc_lo) excludes)
      in subtract_walk inc_lo inc_hi (net_bits incl) (drop start excludes) [])"

section \<open>Aligned blocks of numbers\<close>

text \<open>A prefix is a block of \<open>2\<^sup>k\<close> numbers that starts at a multiple of \<open>2\<^sup>k\<close>. Two blocks are
  disjoint or nested.\<close>

lemma blocks_nested:
  fixes p c :: nat
  assumes "2 ^ k dvd p" "2 ^ s dvd c" "c < p" "p < c + 2 ^ s"
  shows "k < s" "p + 2 ^ k \<le> c + 2 ^ s"
proof -
  have "\<not> s \<le> k"
  proof
    assume "s \<le> k"
    then have "2 ^ s dvd p" using assms(1) by (meson dvd_trans le_imp_power_dvd)
    then have "2 ^ s dvd p - c" using assms(2) by (simp add: dvd_diff_nat)
    then have "2 ^ s \<le> p - c" using assms(3) by (intro dvd_imp_le) simp_all
    then show False using assms(3,4) by linarith
  qed
  then show ks: "k < s" by simp
  then have "2 ^ k dvd c + 2 ^ s" using assms(2) by (meson dvd_add dvd_trans le_imp_power_dvd less_imp_le dvd_refl)
  then have "2 ^ k dvd c + 2 ^ s - p" using assms(1) by (simp add: dvd_diff_nat)
  then have "2 ^ k \<le> c + 2 ^ s - p" using assms(4) by (intro dvd_imp_le) simp_all
  then show "p + 2 ^ k \<le> c + 2 ^ s" using assms(4) by linarith
qed

lemma blocks_disjoint_or_nested:
  fixes p c :: nat
  assumes "2 ^ k dvd p" "2 ^ s dvd c" "x \<in> {p..<p + 2 ^ k}" "x \<in> {c..<c + 2 ^ s}" "k \<le> s"
  shows "{p..<p + 2 ^ k} \<subseteq> {c..<c + 2 ^ s}"
proof (cases c p rule: linorder_cases)
  case less
  then show ?thesis using blocks_nested [OF assms(1,2)] assms(3,4) by auto
next
  case equal
  then show ?thesis using assms(5) power_increasing [of k s "2 :: nat"] by auto
next
  case greater
  then have "s < k" using blocks_nested [OF assms(2,1)] assms(3,4) by auto
  then show ?thesis using assms(5) by simp
qed

section \<open>The size of the next block\<close>

lemma low_bits_zero: "2 ^ n dvd unat (w :: u128) \<longleftrightarrow> (\<forall>i < n. \<not> bit w i)"
proof -
  have "2 ^ n dvd unat w \<longleftrightarrow> take_bit n (unat w) = 0" by (simp add: take_bit_eq_0_iff)
  also have "\<dots> \<longleftrightarrow> (\<forall>i. \<not> bit (take_bit n (unat w)) i)" by (metis bit_0_eq bot_apply bot_bool_def bit_eqI)
  also have "\<dots> \<longleftrightarrow> (\<forall>i < n. \<not> bit w i)" by (auto simp: bit_take_bit_iff bit_unsigned_iff possible_bit_def)
  finally show ?thesis .
qed

lemma takeWhile_upt_iff: "k \<le> length (takeWhile P [0..<n]) \<longleftrightarrow> k \<le> n \<and> (\<forall>i < k. P i)"
proof (induction n)
  case (Suc n)
  then show ?case by (auto simp: takeWhile_append less_Suc_eq_le le_Suc_eq)
qed auto

lemma trailing_zeros_iff: "w \<noteq> 0 \<Longrightarrow> k \<le> trailing_zeros w \<longleftrightarrow> 2 ^ k dvd unat w"
proof -
  assume "w \<noteq> 0"
  then obtain i where i: "bit w i" using bit_eq_iff [of w 0] by auto
  then have "i < 128" using bit_imp_le_length [OF i] by simp
  then show ?thesis unfolding trailing_zeros_def takeWhile_upt_iff low_bits_zero using i by (meson leI less_imp_le_nat order_less_le_trans)
qed

lemma high_bits_zero: "unat (w :: u128) < 2 ^ n \<longleftrightarrow> (\<forall>i \<ge> n. \<not> bit w i)"
proof -
  have "unat w < 2 ^ n \<longleftrightarrow> take_bit n (unat w) = unat w" by (simp add: take_bit_nat_eq_self_iff)
  also have "\<dots> \<longleftrightarrow> (\<forall>i. bit (unat w) i \<longrightarrow> i < n)" by (auto simp: bit_eq_iff bit_take_bit_iff)
  also have "\<dots> \<longleftrightarrow> (\<forall>i \<ge> n. \<not> bit w i)" by (simp add: bit_unsigned_iff possible_bit_def) (meson not_less)
  finally show ?thesis .
qed

lemma leading_zeros_iff: "k \<le> 128 \<Longrightarrow> k \<le> leading_zeros w \<longleftrightarrow> unat w < 2 ^ (128 - k)"
proof -
  assume k: "k \<le> 128"
  have "(\<forall>i < k. \<not> bit w (127 - i)) \<longleftrightarrow> (\<forall>i \<ge> 128 - k. \<not> bit w i)"
  proof (intro iffI allI impI)
    fix i assume h: "\<forall>i < k. \<not> bit w (127 - i)" "128 - k \<le> i"
    show "\<not> bit w i"
    proof
      assume b: "bit w i"
      then have "i < 128" using bit_imp_le_length [OF b] by simp
      then have "127 - i < k" "127 - (127 - i) = i" using h(2) k by linarith+
      then show False using h(1) b by metis
    qed
  next
    fix i assume "\<forall>i \<ge> 128 - k. \<not> bit w i" "i < k"
    then show "\<not> bit w (127 - i)" using k by simp
  qed
  then show ?thesis using k unfolding leading_zeros_def takeWhile_upt_iff high_bits_zero by simp
qed

lemma span_iff:
  fixes w :: u128
  assumes "w \<noteq> 0"
  shows "k \<le> 127 - leading_zeros w \<longleftrightarrow> 2 ^ k \<le> unat w"
proof (cases "k \<le> 127")
  case True
  then have "k \<le> 127 - leading_zeros w \<longleftrightarrow> \<not> 128 - k \<le> leading_zeros w" if "leading_zeros w \<le> 127"
    using that by linarith
  moreover have "leading_zeros w \<le> 127"
    using leading_zeros_iff [of 128 w] assms by (simp add: unat_eq_0 not_le)
  ultimately show ?thesis using leading_zeros_iff [of "128 - k" w] True by auto
next
  case False
  then have "unat w < 2 ^ k"
    using unsigned_less [of w, where ?'a = nat] power_increasing [of 128 k "2 :: nat"] by simp
  then show ?thesis using False by simp
qed

text \<open>The block that \<open>emit_range\<close> takes is the largest aligned one that starts at \<open>cur\<close> and fits.\<close>

lemma emit_size_iff:
  assumes "cur \<le> hi" "unat hi < 2 ^ bits" "bits \<le> 128"
  shows "k \<le> emit_size cur hi bits \<longleftrightarrow> 2 ^ k dvd unat cur \<and> unat cur + 2 ^ k \<le> unat hi + 1"
proof -
  have rem: "unat (hi - cur) = unat hi - unat cur" and le: "unat cur \<le> unat hi"
    using assms(1) by (simp_all add: unat_sub word_le_nat_alt)
  have small: "k \<le> bits" if "unat cur + 2 ^ k \<le> unat hi + 1"
  proof -
    have "(2::nat) ^ k \<le> 2 ^ bits" using that assms(2) by linarith
    then show ?thesis by simp
  qed
  have align: "k \<le> (if cur = 0 then bits else min (trailing_zeros cur) bits) \<longleftrightarrow> 2 ^ k dvd unat cur" if "k \<le> bits"
    using that by (simp add: trailing_zeros_iff)
  have span: "k \<le> (if hi - cur = - 1 then 128 else 127 - leading_zeros (hi - cur + 1)) \<longleftrightarrow>
      unat cur + 2 ^ k \<le> unat hi + 1" if "k \<le> bits"
  proof (cases "hi - cur = - 1")
    case True
    then have "unat hi - unat cur = 2 ^ 128 - 1" using rem by (simp add: unsigned_minus_1_eq_mask mask_eq_exp_minus_1)
    moreover have "(2::nat) ^ k \<le> 2 ^ 128" using that assms(3) by (intro power_increasing) simp_all
    ultimately show ?thesis using True le that assms(3) by simp
  next
    case False
    then have "unat (hi - cur + 1) = unat hi - unat cur + 1" using rem
      by (metis Suc_eq_plus1 add.commute eq_neg_iff_add_eq_0 unatSuc)
    moreover have "hi - cur + 1 \<noteq> 0" using False by (metis add.commute eq_neg_iff_add_eq_0)
    ultimately show ?thesis using False le span_iff [of "hi - cur + 1" k] by auto
  qed
  show ?thesis
    using align span small assms(3) unfolding emit_size_def Let_def
    by (metis (no_types, lifting) min.bounded_iff)
qed

section \<open>Nets as blocks\<close>

definition net_size :: "ip_net \<Rightarrow> nat" where
  "net_size n = net_bits n - unat (net_prefix_len n)"

definition net_span :: "ip_net \<Rightarrow> nat set" where
  "net_span n = {net_lo n..net_hi n}"

lemma net_lo_aligned: "2 ^ net_size n dvd net_lo n"
  by (simp add: net_lo_def net_low_def net_size_def)

lemma net_span_block: "net_span n = {net_lo n..<net_lo n + 2 ^ net_size n}"
proof -
  have "(0::nat) < 2 ^ net_size n" "net_hi n = net_lo n + (2 ^ net_size n - 1)"
    by (simp, simp only: net_hi_def net_high_def net_size_def net_lo_def)
  then have "x \<le> net_hi n \<longleftrightarrow> x < net_lo n + 2 ^ net_size n" for x by linarith
  then show ?thesis by (simp only: net_span_def set_eq_iff atLeastAtMost_iff atLeastLessThan_iff simp_thms)
qed

text \<open>The networks of one family, as the code makes them: the address is the first of the network.\<close>

definition net_canon :: "nat \<Rightarrow> ip_net \<Rightarrow> bool" where
  "net_canon w n \<longleftrightarrow> net_bits n = w \<and> net_wf n \<and> unat (addr_bits (net_addr n)) = net_lo n"

lemma make_net_block:
  assumes "w = 32 \<or> w = 128" "unat cur < 2 ^ w" "s \<le> w" "2 ^ s dvd unat cur"
  obtains n where "make_net cur (of_nat (w - s)) w = Some n" "net_canon w n" "net_lo n = unat cur" "net_size n = s"
proof -
  have pl: "unat (of_nat (w - s) :: u8) = w - s" using assms(1) by (auto simp: unat_of_nat)
  have low: "net_low w (w - s) (unat cur) = unat cur"
    using assms(3,4) by (simp add: net_low_def)
  have uc: "unat (ucast (ucast cur :: u32) :: u128) = unat cur" if "w = 32"
  proof -
    have "unat (ucast (ucast cur :: u32) :: u128) = take_bit 128 (take_bit 32 (unat cur))"
      unfolding unsigned_ucast_eq by (simp add: unsigned_take_bit_eq)
    then show ?thesis using assms(2) that by (simp add: take_bit_nat_eq_self)
  qed
  show thesis
  proof (cases "w = 32")
    case True
    then show ?thesis using that [of "NetV4 (ucast cur) (of_nat (w - s))"] pl low uc assms(3)
      by (simp add: make_net_def net_canon_def net_lo_def net_size_def)
  next
    case False
    then show ?thesis using that [of "NetV6 cur (of_nat (w - s))"] pl low assms(1,3)
      by (simp add: make_net_def net_canon_def net_lo_def net_size_def)
  qed
qed

text \<open>\<open>tiles w ns a b\<close>: the networks of \<open>ns\<close> follow one another and cover the numbers from \<open>a\<close> up to,
  and without, \<open>b\<close>.\<close>

fun tiles :: "nat \<Rightarrow> ip_net list \<Rightarrow> nat \<Rightarrow> nat \<Rightarrow> bool" where
  "tiles w [] a b \<longleftrightarrow> a = b"
| "tiles w (n # ns) a b \<longleftrightarrow> net_canon w n \<and> net_lo n = a \<and> tiles w ns (a + 2 ^ net_size n) b"

lemma tiles_le: "tiles w ns a b \<Longrightarrow> a \<le> b"
  by (induction ns arbitrary: a) (auto, fastforce)

lemma tiles_cover: "tiles w ns a b \<Longrightarrow> (\<Union>n \<in> set ns. net_span n) = {a..<b}"
proof (induction ns arbitrary: a)
  case (Cons n ns)
  then have "a + 2 ^ net_size n \<le> b" "(\<Union>n \<in> set ns. net_span n) = {a + 2 ^ net_size n..<b}" "net_span n = {a..<a + 2 ^ net_size n}"
    using tiles_le by (auto simp: net_span_block)
  then show ?case by (auto simp: ivl_disj_un_two(3))
qed simp

text \<open>Pairwise disjoint, also as list entries.\<close>

fun nets_disjoint :: "ip_net list \<Rightarrow> bool" where
  "nets_disjoint [] \<longleftrightarrow> True"
| "nets_disjoint (n # ns) \<longleftrightarrow> (\<forall>m \<in> set ns. net_span n \<inter> net_span m = {}) \<and> nets_disjoint ns"

lemma nets_disjoint_append:
  "nets_disjoint (ns @ ms) \<longleftrightarrow> nets_disjoint ns \<and> nets_disjoint ms \<and> (\<forall>n \<in> set ns. \<forall>m \<in> set ms. net_span n \<inter> net_span m = {})"
  by (induction ns) auto

lemma tiles_disjoint: "tiles w ns a b \<Longrightarrow> nets_disjoint ns"
proof (induction ns arbitrary: a)
  case (Cons n ns)
  then have t: "tiles w ns (a + 2 ^ net_size n) b" and lo: "net_lo n = a" by simp_all
  have "net_span n \<inter> net_span m = {}" if "m \<in> set ns" for m
  proof -
    have "net_span m \<subseteq> {a + 2 ^ net_size n..<b}" using tiles_cover [OF t] that by blast
    then show ?thesis by (auto simp: net_span_block lo)
  qed
  then show ?case using Cons.IH [OF t] by simp
qed simp

lemma tiles_append: "tiles w ns a b \<Longrightarrow> tiles w ms b c \<Longrightarrow> tiles w (ns @ ms) a c"
  by (induction ns arbitrary: a) auto

section \<open>The cover of a range\<close>

text \<open>\<open>unbroken lo hi c\<close>: no aligned block inside the range crosses \<open>c\<close>. \<open>maximal\<close>: no larger aligned
  block around the network fits.\<close>

definition unbroken :: "nat \<Rightarrow> nat \<Rightarrow> nat \<Rightarrow> bool" where
  "unbroken lo hi c \<longleftrightarrow> (\<forall>k p. 2 ^ k dvd p \<and> lo \<le> p \<and> p + 2 ^ k \<le> hi + 1 \<longrightarrow> \<not> (p < c \<and> c < p + 2 ^ k))"

definition maximal :: "nat set \<Rightarrow> ip_net \<Rightarrow> bool" where
  "maximal S n \<longleftrightarrow> (\<forall>k p. 2 ^ k dvd p \<and> net_span n \<subset> {p..<p + 2 ^ k} \<longrightarrow> \<not> {p..<p + 2 ^ k} \<subseteq> S)"

definition largest_at :: "nat \<Rightarrow> nat \<Rightarrow> nat \<Rightarrow> bool" where
  "largest_at hi c s \<longleftrightarrow> (\<forall>k. k \<le> s \<longleftrightarrow> 2 ^ k dvd c \<and> c + 2 ^ k \<le> hi + 1)"

lemma unbroken_next:
  assumes "unbroken lo hi c" "largest_at hi c s" "lo \<le> c"
  shows "unbroken lo hi (c + 2 ^ s)"
  unfolding unbroken_def
proof (intro allI impI notI)
  fix k p
  assume p: "2 ^ k dvd p \<and> lo \<le> p \<and> p + 2 ^ k \<le> hi + 1" and cr: "p < c + 2 ^ s \<and> c + 2 ^ s < p + 2 ^ k"
  have s: "2 ^ s dvd c" "\<And>k. 2 ^ k dvd c \<Longrightarrow> c + 2 ^ k \<le> hi + 1 \<Longrightarrow> k \<le> s"
    using assms(2) unfolding largest_at_def by auto
  have "c \<le> p"
  proof (rule ccontr)
    assume "\<not> c \<le> p"
    moreover have "c < p + 2 ^ k" using cr by linarith
    ultimately show False using assms(1) p unfolding unbroken_def by (meson not_le)
  qed
  then consider "p = c" | "c < p" by linarith
  then show False
  proof cases
    case 1
    then have "k \<le> s" using s(2) p by simp
    then have "(2::nat) ^ k \<le> 2 ^ s" by (intro power_increasing) simp_all
    then show False using cr 1 by linarith
  next
    case 2
    then show False using blocks_nested(2) [of k p s c] p s(1) cr by linarith
  qed
qed

lemma largest_maximal:
  assumes "unbroken lo hi (net_lo n)" "largest_at hi (net_lo n) (net_size n)"
  shows "maximal {lo..hi} n"
  unfolding maximal_def
proof (intro allI impI notI)
  fix k p
  assume p: "2 ^ k dvd p \<and> net_span n \<subset> {p..<p + 2 ^ k}" and sub: "{p..<p + 2 ^ k} \<subseteq> {lo..hi}"
  have "net_lo n \<in> net_span n" by (simp add: net_span_block)
  then have in_p: "net_lo n \<in> {p..<p + 2 ^ k}" using p by blast
  have "(0::nat) < 2 ^ k" by simp
  then have "p \<in> {p..<p + 2 ^ k}" "p + 2 ^ k - 1 \<in> {p..<p + 2 ^ k}" by (simp, simp only: atLeastLessThan_iff) linarith
  then have "lo \<le> p" "p + 2 ^ k - 1 \<le> hi" using sub by (meson atLeastAtMost_iff subset_iff)+
  then have fit: "lo \<le> p" "p + 2 ^ k \<le> hi + 1" by linarith+
  then have "\<not> p < net_lo n" using assms(1) p in_p unfolding unbroken_def by auto
  then have pc: "p = net_lo n" using in_p by simp
  then have "k \<le> net_size n" using assms(2) p fit unfolding largest_at_def by blast
  then have "(2::nat) ^ k \<le> 2 ^ net_size n" by (intro power_increasing) simp_all
  then show False using p pc by (auto simp: net_span_block)
qed

text \<open>\<open>emit_range\<close> returns, its networks cover exactly the range, one after another, and each is as
  large as the range allows.\<close>

lemma succ_unat:
  fixes x hi :: u128
  assumes "unat x < unat hi"
  shows "unat (x + 1) = unat x + 1"
  using assms unsigned_less [of hi, where ?'a = nat] by (simp add: unat_word_ariths)

lemma block_end:
  fixes cur hi :: u128
  assumes "s < 128" "unat cur + 2 ^ s \<le> unat hi + 1"
  shows "unat (cur + push_bit s 1 - 1) = unat cur + 2 ^ s - 1"
proof -
  have p: "unat (push_bit s 1 :: u128) = 2 ^ s" 
    using assms(1) by (simp only: unsigned_push_bit_eq) (simp add: take_bit_nat_eq_self push_bit_eq_mult)
  have "unat (push_bit s 1 - 1 :: u128) = 2 ^ s - 1"
    using p by (subst unat_sub) (simp_all add: word_le_nat_alt)
  moreover have "unat cur + (2 ^ s - 1) < 2 ^ 128"
    using assms(2) unsigned_less [of hi, where ?'a = nat] by simp
  ultimately have "unat (cur + (push_bit s 1 - 1)) = unat cur + (2 ^ s - 1)"
    by (simp add: unat_word_ariths)
  then show ?thesis by (simp add: algebra_simps)
qed

lemma emit_range_from:
  assumes "w = 32 \<or> w = 128" "unat hi < 2 ^ w" "cur \<le> hi" "lo \<le> unat cur" "unbroken lo (unat hi) (unat cur)"
  shows "\<exists>ns. emit_range cur hi w out = Some (out @ ns) \<and> tiles w ns (unat cur) (unat hi + 1) \<and>
    (\<forall>n \<in> set ns. maximal {lo..unat hi} n)"
  using assms(3-5)
proof (induction "unat hi - unat cur" arbitrary: cur out rule: less_induct)
  case less
  let ?s = "emit_size cur hi w"
  have w: "w \<le> 128" using assms(1) by auto
  have le: "unat cur \<le> unat hi" using less.prems(1) by (simp add: word_le_nat_alt)
  have big: "largest_at (unat hi) (unat cur) ?s"
    using emit_size_iff [OF less.prems(1) assms(2) w] by (simp add: largest_at_def)
  then have s: "2 ^ ?s dvd unat cur" "unat cur + 2 ^ ?s \<le> unat hi + 1" by (auto simp: largest_at_def)
  have "(2::nat) ^ ?s \<le> 2 ^ w" using s(2) assms(2) by linarith
  then have sw: "?s \<le> w" by simp
  have "unat cur < 2 ^ w" using le assms(2) by linarith
  then obtain n where n: "make_net cur (of_nat (w - ?s)) w = Some n" "net_canon w n" "net_lo n = unat cur" "net_size n = ?s"
    using make_net_block [OF assms(1) _ sw s(1)] by blast
  have max_n: "maximal {lo..unat hi} n"
    using largest_maximal [of lo "unat hi" n] less.prems(3) big n by simp
  show ?case
  proof (cases "unat cur + 2 ^ ?s = unat hi + 1")
    case True
    have "?s = 128 \<or> cur + push_bit ?s 1 - 1 \<ge> hi"
      using block_end [of ?s cur hi] sw w True by (cases "?s = 128") (simp_all add: word_le_nat_alt)
    then have "emit_range cur hi w out = Some (out @ [n])" by (subst emit_range.simps) (auto simp: Let_def n(1))
    then show ?thesis using n max_n True by (intro exI [of _ "[n]"]) simp
  next
    case False
    let ?c = "cur + push_bit ?s 1 - 1 + 1"
    have s128: "?s < 128"
    proof (rule ccontr)
      assume "\<not> ?s < 128"
      then have "?s = 128" using sw w by simp
      then show False using s(2) False unsigned_less [of hi, where ?'a = nat] by simp
    qed
    have e: "unat (cur + push_bit ?s 1 - 1) = unat cur + 2 ^ ?s - 1" by (rule block_end [OF s128 s(2)])
    have pos: "(0::nat) < 2 ^ ?s" by simp
    have lt: "unat (cur + push_bit ?s 1 - 1) < unat hi" using e False s(2) pos by linarith
    from succ_unat [OF this] have c: "unat ?c = unat cur + 2 ^ ?s" using e pos by linarith
    have "\<exists>ns. emit_range ?c hi w (out @ [n]) = Some ((out @ [n]) @ ns) \<and> tiles w ns (unat ?c) (unat hi + 1) \<and>
        (\<forall>n \<in> set ns. maximal {lo..unat hi} n)"
    proof (rule less.hyps)
      show "unat hi - unat ?c < unat hi - unat cur" using c lt e pos by linarith
      show "?c \<le> hi" using c lt e pos unfolding word_le_nat_alt by linarith
      show "lo \<le> unat ?c" using c less.prems(2) by linarith
      show "unbroken lo (unat hi) (unat ?c)" unfolding c by (rule unbroken_next [OF less.prems(3) big less.prems(2)])
    qed
    then obtain ns where ns: "emit_range ?c hi w (out @ [n]) = Some ((out @ [n]) @ ns)"
      "tiles w ns (unat cur + 2 ^ ?s) (unat hi + 1)" "\<forall>n \<in> set ns. maximal {lo..unat hi} n"
      unfolding c by blast
    have "emit_range cur hi w out = Some (out @ n # ns)"
      using ns(1) s128 lt by (subst emit_range.simps) (simp add: Let_def n(1) word_le_nat_alt not_le)
    then show ?thesis using ns n max_n by (intro exI [of _ "n # ns"]) simp
  qed
qed

lemma emit_range_exact:
  assumes "w = 32 \<or> w = 128" "unat hi < 2 ^ w" "lo \<le> hi"
  obtains ns where "emit_range lo hi w out = Some (out @ ns)" "tiles w ns (unat lo) (unat hi + 1)"
    "\<And>n. n \<in> set ns \<Longrightarrow> maximal {unat lo..unat hi} n"
proof -
  have "unbroken (unat lo) (unat hi) (unat lo)" by (auto simp: unbroken_def)
  from emit_range_from [OF assms(1,2,3) order_refl this, of out] show thesis using that by blast
qed

section \<open>Merged exclusions\<close>

definition rng :: "u128 \<times> u128 \<Rightarrow> nat set" where
  "rng r = {unat (fst r)..unat (snd r)}"

abbreviation apart :: "u128 \<times> u128 \<Rightarrow> u128 \<times> u128 \<Rightarrow> bool" where
  "apart r s \<equiv> unat (snd r) + 1 < unat (fst s)"

definition ranges_ok :: "(u128 \<times> u128) list \<Rightarrow> bool" where
  "ranges_ok rs \<longleftrightarrow> sorted_wrt apart rs \<and> (\<forall>r \<in> set rs. fst r \<le> snd r)"

lemma ranges_ok_snoc:
  "ranges_ok (rs @ [r]) \<longleftrightarrow> ranges_ok rs \<and> fst r \<le> snd r \<and> (\<forall>m \<in> set rs. apart m r)"
  by (auto simp: ranges_ok_def sorted_wrt_append)

lemma merge_range_step:
  assumes "ranges_ok ms" "fst r \<le> snd r" "\<And>m. m \<in> set ms \<Longrightarrow> fst m \<le> fst r"
  shows "ranges_ok (merge_range r ms) \<and> (\<Union>m \<in> set (merge_range r ms). rng m) = (\<Union>m \<in> set ms. rng m) \<union> rng r \<and>
    (\<forall>m \<in> set (merge_range r ms). fst m \<le> fst r)"
proof (cases ms rule: rev_cases)
  case Nil
  then show ?thesis using assms by (simp add: merge_range_def ranges_ok_def)
next
  case (snoc ns l)
  then have l: "fst l \<le> snd l" "fst l \<le> fst r" "ranges_ok ns" "\<And>m. m \<in> set ns \<Longrightarrow> apart m l"
    using assms(1,3) by (auto simp: ranges_ok_snoc)
  note le = l(1,2) assms(2)
  show ?thesis
  proof (cases "fst r \<le> saturating_succ (snd l)")
    case True
    then have "unat (fst r) \<le> unat (snd l) + 1"
      using succ_unat [of "snd l" "fst r"] by (cases "unat (snd l) < unat (fst r)")
        (auto simp: saturating_succ_def word_le_nat_alt split: if_splits)
    then have "rng (fst l, max (snd l) (snd r)) = rng l \<union> rng r"
      using le by (auto simp: rng_def word_le_nat_alt max_def)
    moreover have "merge_range r ms = ns @ [(fst l, max (snd l) (snd r))]" using True snoc by (simp add: merge_range_def)
    ultimately show ?thesis using l le assms(3) snoc by (auto simp: ranges_ok_snoc max_def)
  next
    case False
    then have ne: "snd l \<noteq> - 1" by (auto simp: saturating_succ_def)
    then have "unat (snd l + 1) = unat (snd l) + 1" by (metis Suc_eq_plus1 add.commute eq_neg_iff_add_eq_0 unatSuc)
    then have ap: "apart l r" using False ne by (simp add: saturating_succ_def word_le_nat_alt not_le)
    have "apart m r" if "m \<in> set ns" for m using l(4) [OF that] ap le by (simp add: word_le_nat_alt)
    then have "ranges_ok (ms @ [r])" using ap assms(1,2) snoc by (subst ranges_ok_snoc) auto
    moreover have "merge_range r ms = ms @ [r]" using False snoc by (simp add: merge_range_def)
    ultimately show ?thesis using assms(3) by auto
  qed
qed

lemma merge_ranges:
  assumes "sorted rs" "\<And>r. r \<in> set rs \<Longrightarrow> fst r \<le> snd r" "ranges_ok ms"
    "\<And>m r. m \<in> set ms \<Longrightarrow> r \<in> set rs \<Longrightarrow> fst m \<le> fst r"
  shows "ranges_ok (fold merge_range rs ms) \<and>
    (\<Union>m \<in> set (fold merge_range rs ms). rng m) = (\<Union>m \<in> set ms. rng m) \<union> (\<Union>r \<in> set rs. rng r)"
  using assms
proof (induction rs arbitrary: ms)
  case (Cons r rs)
  have step: "ranges_ok (merge_range r ms)" "(\<Union>m \<in> set (merge_range r ms). rng m) = (\<Union>m \<in> set ms. rng m) \<union> rng r"
    "\<And>m. m \<in> set (merge_range r ms) \<Longrightarrow> fst m \<le> fst r"
    using merge_range_step [of ms r] Cons.prems by auto
  have after: "fst r \<le> fst q" if "q \<in> set rs" for q
    using Cons.prems(1) that by (auto simp: less_eq_prod_def)
  have "ranges_ok (fold merge_range rs (merge_range r ms)) \<and>
    (\<Union>m \<in> set (fold merge_range rs (merge_range r ms)). rng m) =
      (\<Union>m \<in> set (merge_range r ms). rng m) \<union> (\<Union>r \<in> set rs. rng r)"
  proof (rule Cons.IH)
    show "sorted rs" using Cons.prems(1) by simp
    show "fst q \<le> snd q" if "q \<in> set rs" for q using Cons.prems(2) that by simp
    show "ranges_ok (merge_range r ms)" by (rule step(1))
    show "fst m \<le> fst q" if "m \<in> set (merge_range r ms)" "q \<in> set rs" for m q
      using step(3) [OF that(1)] after [OF that(2)] by (rule order_trans)
  qed
  then show ?case using step(2) by auto
qed simp

lemma net_bounds_rng:
  assumes "ipnet_lib_ok L" "net_wf n"
  shows "rng (net_bounds L n) = net_span n" "fst (net_bounds L n) \<le> snd (net_bounds L n)"
  using assms net_lo_le_hi [of n] by (auto simp: rng_def net_bounds_def net_span_def ipnet_lib_ok_def word_le_nat_alt)

lemma merge_excludes_exact:
  assumes "ipnet_lib_ok L" "\<And>e. e \<in> set exs \<Longrightarrow> net_wf e"
  shows "ranges_ok (merge_excludes L exs)" "(\<Union>r \<in> set (merge_excludes L exs). rng r) = (\<Union>e \<in> set exs. net_span e)"
proof -
  have "ranges_ok (merge_excludes L exs) \<and>
      (\<Union>r \<in> set (merge_excludes L exs). rng r) = (\<Union>m \<in> set []. rng m) \<union> (\<Union>r \<in> set (sort (map (net_bounds L) exs)). rng r)"
    unfolding merge_excludes_def
    by (rule merge_ranges) (use assms net_bounds_rng(2) [OF assms(1)] in \<open>auto simp: ranges_ok_def\<close>)
  then show "ranges_ok (merge_excludes L exs)" "(\<Union>r \<in> set (merge_excludes L exs). rng r) = (\<Union>e \<in> set exs. net_span e)"
    using assms net_bounds_rng(1) [OF assms(1)] by auto
qed

section \<open>Subtraction\<close>

lemma maximal_gap:
  assumes "maximal {a..b} n" "net_span n \<subseteq> {a..b}" "a = 0 \<or> a - 1 \<notin> S" "b + 1 \<notin> S"
  shows "maximal S n"
  unfolding maximal_def
proof (intro allI impI notI)
  fix k p
  assume D: "2 ^ k dvd p \<and> net_span n \<subset> {p..<p + 2 ^ k}" "{p..<p + 2 ^ k} \<subseteq> S"
  have "net_lo n \<in> net_span n" by (simp add: net_span_block)
  then have x: "net_lo n \<in> {a..b}" "net_lo n \<in> {p..<p + 2 ^ k}" using D(1) assms(2) by blast+
  have "a \<le> p"
  proof (rule ccontr)
    assume "\<not> a \<le> p"
    then have "a \<noteq> 0" "a - 1 \<in> {p..<p + 2 ^ k}" using x by auto
    then show False using D(2) assms(3) by blast
  qed
  moreover have "p + 2 ^ k \<le> b + 1"
  proof (rule ccontr)
    assume "\<not> p + 2 ^ k \<le> b + 1"
    then have "b + 1 \<in> {p..<p + 2 ^ k}" using x by auto
    then show False using D(2) assms(4) by blast
  qed
  ultimately have "{p..<p + 2 ^ k} \<subseteq> {a..b}" by auto
  then show False using assms(1) D(1) unfolding maximal_def by blast
qed

text \<open>What a list of networks is of a set: disjoint, of the family, exactly the set, and no network
  can grow.\<close>

definition exact_nets :: "nat \<Rightarrow> nat set \<Rightarrow> nat set \<Rightarrow> ip_net list \<Rightarrow> bool" where
  "exact_nets w S T ns \<longleftrightarrow> (\<forall>n \<in> set ns. net_canon w n \<and> maximal S n) \<and> nets_disjoint ns \<and>
     (\<Union>n \<in> set ns. net_span n) = T"

lemma tiles_canon: "tiles w ns a b \<Longrightarrow> n \<in> set ns \<Longrightarrow> net_canon w n"
  by (induction ns arbitrary: a) auto

lemma exact_nets_gap:
  assumes "w = 32 \<or> w = 128" "unat hi < 2 ^ w" "lo \<le> hi" "unat lo = 0 \<or> unat lo - 1 \<notin> S" "unat hi + 1 \<notin> S"
  shows "\<exists>ns. emit_range lo hi w out = Some (out @ ns) \<and> exact_nets w S {unat lo..unat hi} ns"
proof -
  obtain ns where ns: "emit_range lo hi w out = Some (out @ ns)" "tiles w ns (unat lo) (unat hi + 1)"
    "\<And>n. n \<in> set ns \<Longrightarrow> maximal {unat lo..unat hi} n"
    using emit_range_exact [OF assms(1-3), of out] by blast
  have cover: "(\<Union>n \<in> set ns. net_span n) = {unat lo..unat hi}"
    using tiles_cover [OF ns(2)] by (simp add: atLeastLessThanSuc_atLeastAtMost)
  have "maximal S n" if "n \<in> set ns" for n
    using maximal_gap [OF ns(3) [OF that] _ assms(4,5)] cover that by blast
  then show ?thesis
    using ns(1) cover tiles_canon [OF ns(2)] tiles_disjoint [OF ns(2)] by (auto simp: exact_nets_def)
qed

lemma exact_nets_append:
  assumes "exact_nets w S A ns" "exact_nets w S B ms" "A \<inter> B = {}"
  shows "exact_nets w S (A \<union> B) (ns @ ms)"
proof -
  have "net_span n \<inter> net_span m = {}" if "n \<in> set ns" "m \<in> set ms" for n m
    using assms that unfolding exact_nets_def by blast
  then show ?thesis using assms by (auto simp: exact_nets_def nets_disjoint_append)
qed

lemma above_range:
  fixes c h x :: nat
  assumes "S \<inter> {c..} = {c..h} - X" "c \<le> x" "h < x \<or> x \<in> X"
  shows "x \<notin> S"
  using assms by (metis Diff_iff IntI atLeastAtMost_iff atLeast_iff leD)

lemma range_rest:
  fixes c h lo hi :: nat
  assumes "S \<inter> {c..} = {c..h} - ({lo..hi} \<union> X)" "c \<le> hi"
  shows "S \<inter> {hi + 1..} = {hi + 1..h} - X"
proof -
  have "S \<inter> {hi + 1..} = (S \<inter> {c..}) \<inter> {hi + 1..}" using assms(2) by auto
  also have "\<dots> = {hi + 1..h} - X" unfolding assms(1) using assms(2) by auto
  finally show ?thesis .
qed

lemma range_split:
  fixes c h lo hi :: nat
  assumes "\<And>x. x \<in> X \<Longrightarrow> hi + 1 < x" "lo \<le> hi" "lo \<le> h" "c \<le> hi"
  shows "{c..h} - ({lo..hi} \<union> X) = {c..<lo} \<union> ({hi + 1..h} - X)"
proof (rule set_eqI)
  fix x
  have "x \<in> X \<longrightarrow> hi + 1 < x" using assms(1) by blast
  then show "x \<in> {c..h} - ({lo..hi} \<union> X) \<longleftrightarrow> x \<in> {c..<lo} \<union> ({hi + 1..h} - X)"
    using assms(2-4) by auto
qed

lemma subtract_walk_exact:
  assumes "w = 32 \<or> w = 128" "unat inc_hi < 2 ^ w" "ranges_ok es" "cur \<le> inc_hi"
    "\<And>r. r \<in> set es \<Longrightarrow> cur \<le> snd r" "unat cur = 0 \<or> unat cur - 1 \<notin> S"
    "S \<inter> {unat cur..} = {unat cur..unat inc_hi} - (\<Union>r \<in> set es. rng r)"
  shows "\<exists>ns. subtract_walk cur inc_hi w es out = Some (out @ ns) \<and>
    exact_nets w S ({unat cur..unat inc_hi} - (\<Union>r \<in> set es. rng r)) ns"
  using assms(3-7)
proof (induction es arbitrary: cur out)
  case Nil
  then have "unat inc_hi + 1 \<notin> S" by (intro above_range [of S "unat cur" "unat inc_hi" "{}"]) (simp_all add: word_le_nat_alt)
  then show ?case using exact_nets_gap [OF assms(1,2) Nil(2,4)] by simp
next
  case (Cons r es)
  obtain lo hi where r: "r = (lo, hi)" by (cases r)
  let ?c = "unat cur" and ?h = "unat inc_hi" and ?X = "\<Union>q \<in> set es. rng q"
  have ok: "ranges_ok es" "lo \<le> hi" and ap: "\<And>q. q \<in> set es \<Longrightarrow> unat hi + 1 < unat (fst q)"
    and qo: "\<And>q. q \<in> set es \<Longrightarrow> fst q \<le> snd q"
    using Cons.prems(1) by (auto simp: ranges_ok_def r)
  have ch: "?c \<le> ?h" and clo: "?c \<le> unat hi" and lh: "unat lo \<le> unat hi"
    using Cons.prems(2) Cons.prems(3) [of r] ok(2) by (simp_all add: word_le_nat_alt r)
  have X: "x \<in> ?X \<Longrightarrow> unat hi + 1 < x" for x using ap by (fastforce simp: rng_def)
  have S: "S \<inter> {?c..} = {?c..?h} - ({unat lo..unat hi} \<union> ?X)" using Cons.prems(5) by (simp add: r rng_def)
  have out: "x \<notin> S" if "?c \<le> x" "?h < x \<or> x \<in> {unat lo..unat hi}" for x
    using above_range [OF S that(1)] that(2) by blast
  show ?case
  proof (cases "lo > inc_hi")
    case True
    then have "{?c..?h} - ({unat lo..unat hi} \<union> ?X) = {?c..?h}"
      using X lh by (fastforce simp: word_less_nat_alt)
    then show ?thesis using exact_nets_gap [OF assms(1,2) Cons.prems(2,4), of out] out ch True by (simp add: r rng_def)
  next
    case False
    then have lo_h: "unat lo \<le> ?h" by (simp add: word_le_nat_alt not_less)
    have "\<exists>ns. (if lo > cur then emit_range cur (lo - 1) w out else Some out) = Some (out @ ns) \<and>
        exact_nets w S {?c..<unat lo} ns"
    proof (cases "lo > cur")
      case True
      then have "?c < unat lo" by (simp add: word_less_nat_alt)
      moreover from this have "unat (lo - 1) = unat lo - 1" by (subst unat_sub) (simp_all add: word_le_nat_alt)
      ultimately have l1: "unat (lo - 1) = unat lo - 1" "?c < unat lo" by simp_all
      then have h: "unat (lo - 1) < 2 ^ w" "cur \<le> lo - 1" "unat (lo - 1) + 1 = unat lo" "{?c..unat lo - 1} = {?c..<unat lo}"
        using lo_h assms(2) by (auto simp: word_le_nat_alt)
      have "unat (lo - 1) + 1 \<notin> S" using out [of "unat lo"] l1(2) lh h(3) by simp
      from exact_nets_gap [OF assms(1) h(1,2) Cons.prems(4) this, of out] show ?thesis using True h l1 by simp
    next
      case False
      then show ?thesis by (simp add: exact_nets_def word_less_nat_alt)
    qed
    then obtain ns where ns: "(if lo > cur then emit_range cur (lo - 1) w out else Some out) = Some (out @ ns)"
      "exact_nets w S {?c..<unat lo} ns" by blast
    show ?thesis
    proof (cases "hi \<ge> inc_hi")
      case True
      then have "{?c..?h} - ({unat lo..unat hi} \<union> ?X) = {?c..<unat lo}"
        using X lo_h by (fastforce simp: word_le_nat_alt)
      then show ?thesis using ns True False by (auto simp: r rng_def)
    next
      case hi: False
      then have h1: "unat (hi + 1) = unat hi + 1" "unat hi < ?h" using succ_unat [of hi inc_hi] by (simp_all add: word_le_nat_alt not_le)
      have "\<exists>ms. subtract_walk (hi + 1) inc_hi w es (out @ ns) = Some ((out @ ns) @ ms) \<and>
          exact_nets w S ({unat (hi + 1)..?h} - ?X) ms"
      proof (rule Cons.IH [OF ok(1)])
        show "hi + 1 \<le> inc_hi" using h1 by (simp add: word_le_nat_alt)
        show "hi + 1 \<le> snd q" if "q \<in> set es" for q using ap [OF that] qo [OF that] h1 by (simp add: word_le_nat_alt)
        show "unat (hi + 1) = 0 \<or> unat (hi + 1) - 1 \<notin> S" using out [of "unat hi"] clo lh h1 by simp
        show "S \<inter> {unat (hi + 1)..} = {unat (hi + 1)..?h} - ?X"
          unfolding h1 by (rule range_rest [OF S clo])
      qed
      then obtain ms where ms: "subtract_walk (hi + 1) inc_hi w es (out @ ns) = Some ((out @ ns) @ ms)"
        "exact_nets w S ({unat hi + 1..?h} - ?X) ms" unfolding h1 by blast
      have "{?c..?h} - ({unat lo..unat hi} \<union> ?X) = {?c..<unat lo} \<union> ({unat hi + 1..?h} - ?X)"
        by (rule range_split) (use X lo_h clo h1 lh in auto)
      moreover have "exact_nets w S ({?c..<unat lo} \<union> ({unat hi + 1..?h} - ?X)) (ns @ ms)"
        using lh by (intro exact_nets_append [OF ns(2) ms(2)]) auto
      ultimately show ?thesis using ns(1) ms(1) False hi by (auto simp: r rng_def)
    qed
  qed
qed

text \<open>A cover whose networks cannot grow is a smallest one.\<close>

lemma spans_nested:
  assumes "x \<in> net_span m" "x \<in> net_span n" "net_size m \<le> net_size n"
  shows "net_span m \<subseteq> net_span n"
  using blocks_disjoint_or_nested [OF net_lo_aligned net_lo_aligned, of x m n] assms by (simp add: net_span_block)

lemma net_lo_in_span: "net_lo n \<in> net_span n"
  by (simp add: net_span_block)

lemma maximal_in_cover:
  assumes "maximal S n" "net_lo n \<in> net_span c" "net_span c \<subseteq> S"
  shows "net_span c \<subseteq> net_span n"
proof (cases "net_size c \<le> net_size n")
  case True
  then show ?thesis using spans_nested [OF assms(2) net_lo_in_span] by simp
next
  case False
  then have sub: "net_span n \<subseteq> net_span c" using spans_nested [OF net_lo_in_span assms(2)] by simp
  have "\<not> net_span n \<subset> net_span c"
    using assms(1,3) net_lo_aligned [of c] unfolding maximal_def net_span_block [of c] by blast
  then show ?thesis using sub by blast
qed

lemma nets_disjoint_distinct: "nets_disjoint ns \<Longrightarrow> distinct ns"
proof (induction ns)
  case (Cons n ns)
  have "net_lo n \<in> net_span n" by (simp add: net_span_block)
  then show ?case using Cons by auto
qed simp

lemma nets_disjoint_eq: "nets_disjoint ns \<Longrightarrow> n \<in> set ns \<Longrightarrow> m \<in> set ns \<Longrightarrow> x \<in> net_span n \<Longrightarrow> x \<in> net_span m \<Longrightarrow> n = m"
  by (induction ns) auto

lemma exact_nets_smallest:
  assumes "exact_nets w S S ns" "(\<Union>c \<in> set cs. net_span c) = S"
  shows "length ns \<le> length cs"
proof -
  have ns: "nets_disjoint ns" "\<And>n. n \<in> set ns \<Longrightarrow> maximal S n" "(\<Union>n \<in> set ns. net_span n) = S"
    using assms(1) by (auto simp: exact_nets_def)
  have "\<exists>c. c \<in> set cs \<and> net_span c \<subseteq> net_span n" if n: "n \<in> set ns" for n
  proof -
    have "net_lo n \<in> net_span n" by (simp add: net_span_block)
    then have "net_lo n \<in> (\<Union>c \<in> set cs. net_span c)" using n ns(3) assms(2) by blast
    then obtain c where "c \<in> set cs" "net_lo n \<in> net_span c" by blast
    moreover have "net_span c \<subseteq> S" using \<open>c \<in> set cs\<close> assms(2) by blast
    ultimately show ?thesis using maximal_in_cover [OF ns(2) [OF n]] by blast
  qed
  then obtain f where f: "\<And>n. n \<in> set ns \<Longrightarrow> f n \<in> set cs \<and> net_span (f n) \<subseteq> net_span n" by metis
  have "inj_on f (set ns)"
  proof (rule inj_onI)
    fix n m assume nm: "n \<in> set ns" "m \<in> set ns" "f n = f m"
    have "net_lo (f n) \<in> net_span (f n)" by (simp add: net_span_block)
    then show "n = m" using nets_disjoint_eq [OF ns(1) nm(1,2)] f [OF nm(1)] f [OF nm(2)] nm(3) by auto
  qed
  then have "card (set ns) \<le> card (set cs)" using f by (intro card_inj_on_le) auto
  then show ?thesis using distinct_card [OF nets_disjoint_distinct [OF ns(1)]] card_length [of cs] by linarith
qed

lemma excludes_after_start:
  assumes "ranges_ok es" "r \<in> set (drop (length (takeWhile (\<lambda>(_, hi). hi < lo) es)) es)"
  shows "lo \<le> snd r"
  using assms
proof (induction es)
  case (Cons e es)
  show ?case
  proof (cases "snd e < lo")
    case True
    then show ?thesis using Cons by (auto simp: ranges_ok_def case_prod_beta)
  next
    case False
    then have "r = e \<or> apart e r" "fst r \<le> snd r" using Cons.prems by (auto simp: ranges_ok_def case_prod_beta)
    then show ?thesis using False by (auto simp: word_le_nat_alt not_less)
  qed
qed simp

lemma excludes_before_start:
  "x \<in> (\<Union>r \<in> set es. rng r) \<Longrightarrow> unat lo \<le> x \<Longrightarrow> x \<in> (\<Union>r \<in> set (drop (length (takeWhile (\<lambda>(_, hi). hi < lo) es)) es). rng r)"
proof (induction es)
  case (Cons e es)
  have "x \<notin> rng e" if "snd e < lo" using Cons.prems(2) that by (auto simp: rng_def word_less_nat_alt)
  then show ?case using Cons by (auto simp: case_prod_beta)
qed simp

lemma excludes_from_start:
  "{unat lo..h} - (\<Union>r \<in> set (drop (length (takeWhile (\<lambda>(_, hi). hi < lo) es)) es). rng r) = {unat lo..h} - (\<Union>r \<in> set es. rng r)"
  using excludes_before_start [of _ es lo] set_drop_subset by fastforce

lemma ranges_ok_drop: "ranges_ok es \<Longrightarrow> ranges_ok (drop n es)"
  unfolding ranges_ok_def by (meson in_set_dropD sorted_wrt_drop)

lemma subtract_exact_nets:
  assumes "ipnet_lib_ok L" "net_wf inc" "\<forall>e \<in> set exs. net_wf e"
  shows "\<exists>ns. subtract_many L inc (merge_excludes L exs) = Some ns \<and>
    exact_nets (net_bits inc) (net_span inc - (\<Union>e \<in> set exs. net_span e)) (net_span inc - (\<Union>e \<in> set exs. net_span e)) ns"
proof -
  let ?lo = "lib_network L inc" and ?hi = "lib_broadcast L inc" and ?es = "merge_excludes L exs" and ?w = "net_bits inc"
  let ?ds = "drop (length (takeWhile (\<lambda>(_, hi). hi < ?lo) ?es)) ?es"
  let ?S = "net_span inc - (\<Union>e \<in> set exs. net_span e)"
  have w: "?w = 32 \<or> ?w = 128" by (cases inc) simp_all
  have b: "unat ?lo = net_lo inc" "unat ?hi = net_hi inc" using assms(1,2) by (auto simp: ipnet_lib_ok_def)
  have ok: "ranges_ok ?es" and cover: "(\<Union>r \<in> set ?es. rng r) = (\<Union>e \<in> set exs. net_span e)"
    by (rule merge_excludes_exact [OF assms(1)], use assms(3) in blast)+
  have S: "{unat ?lo..unat ?hi} - (\<Union>r \<in> set ?ds. rng r) = ?S"
    unfolding excludes_from_start cover by (simp add: b net_span_def)
  have "\<exists>ns. subtract_walk ?lo ?hi ?w ?ds [] = Some ([] @ ns) \<and> exact_nets ?w ?S ({unat ?lo..unat ?hi} - (\<Union>r \<in> set ?ds. rng r)) ns"
  proof (rule subtract_walk_exact [OF w])
    show "unat ?hi < 2 ^ ?w" using net_hi_less [OF assms(2)] b by simp
    show "ranges_ok ?ds" by (rule ranges_ok_drop [OF ok])
    show "?lo \<le> ?hi" using b net_lo_le_hi [of inc] by (simp add: word_le_nat_alt)
    show "?lo \<le> snd r" if "r \<in> set ?ds" for r by (rule excludes_after_start [OF ok that])
    show "unat ?lo = 0 \<or> unat ?lo - 1 \<notin> ?S" by (auto simp: b net_span_def)
    show "?S \<inter> {unat ?lo..} = {unat ?lo..unat ?hi} - (\<Union>r \<in> set ?ds. rng r)"
      unfolding S by (auto simp: b net_span_def)
  qed
  then show ?thesis unfolding S by (auto simp: subtract_many_def net_bounds_def)
qed

text \<open>C19. Subtracting excluded networks from a network of the same family gives pairwise disjoint
  networks of that family that cover exactly the addresses of the network that no exclusion covers,
  and no list of networks with this cover is shorter. The loop returns and no prefix length is out
  of range.\<close>

theorem subtract_many_exact:
  assumes "ipnet_lib_ok L" "net_wf inc" "\<forall>e \<in> set exs. net_wf e"
  shows "\<exists>ns. subtract_many L inc (merge_excludes L exs) = Some ns \<and>
    (\<forall>n \<in> set ns. net_canon (net_bits inc) n) \<and> nets_disjoint ns \<and>
    (\<Union>n \<in> set ns. net_span n) = net_span inc - (\<Union>e \<in> set exs. net_span e) \<and>
    (\<forall>cs. (\<Union>c \<in> set cs. net_span c) = net_span inc - (\<Union>e \<in> set exs. net_span e) \<longrightarrow> length ns \<le> length cs)"
proof -
  obtain ns where "subtract_many L inc (merge_excludes L exs) = Some ns"
    "exact_nets (net_bits inc) (net_span inc - (\<Union>e \<in> set exs. net_span e)) (net_span inc - (\<Union>e \<in> set exs. net_span e)) ns"
    using subtract_exact_nets [OF assms] by blast
  then show ?thesis using exact_nets_smallest by (fastforce simp: exact_nets_def)
qed

theorem subtract_many_exact_witness:
  "\<exists>ns. subtract_many (sample_ipnet Inl) (NetV4 0x0A000000 8) (merge_excludes (sample_ipnet Inl) [NetV4 0x0A050505 32]) = Some ns \<and>
    (\<Union>n \<in> set ns. net_span n) = net_span (NetV4 0x0A000000 8) - net_span (NetV4 0x0A050505 32)"
  using subtract_many_exact [OF sample_ipnet_ok [of Inl], of "NetV4 0x0A000000 8" "[NetV4 0x0A050505 32]"] by auto

end
