(* ===== verification/Address.thy ===== *)
theory Address
  imports Ygg_Prelude
begin

text \<open>
  IPv6 addresses and subnets of keys: \<open>crates/yggdrasil/src/address.rs\<close>, and the transform of keys
  for Bloom filters that \<open>Core::new\<close> (\<open>crates/yggdrasil/src/core.rs\<close>) passes to the router.

  The prefix bytes live in atomics that are written once at start-up; they are the record
  \<open>prefixes\<close>, an argument of the functions that read them. The shifts by \<open>idx % 8\<close> stay as in the
  code; \<open>key_bit\<close> is the bit of a byte string in the order the code walks it.
\<close>

section \<open>Prefixes\<close>

record prefixes =
  px_address :: u8
  px_subnet :: u8
  px_set :: bool

definition default_prefixes :: prefixes where
  "default_prefixes = \<lparr>px_address = 0x02, px_subnet = 0x03, px_set = False\<rparr>"

definition set_address_prefix :: "u8 \<Rightarrow> prefixes" where
  "set_address_prefix prefix = \<lparr>px_address = prefix, px_subnet = prefix + 1, px_set = True\<rparr>"

definition overlay_network_for_prefix :: "u8 \<Rightarrow> bytes \<times> u8" where
  "overlay_network_for_prefix prefix = ((prefix AND 0xfe) # replicate 15 0, 7)"

definition is_valid_address :: "prefixes \<Rightarrow> bytes \<Rightarrow> bool" where
  "is_valid_address px addr \<longleftrightarrow> addr ! 0 = px_address px"

definition is_valid_subnet :: "prefixes \<Rightarrow> bytes \<Rightarrow> bool" where
  "is_valid_subnet px prefix \<longleftrightarrow> prefix ! 0 = px_subnet px"

section \<open>Keys of addresses\<close>

definition set_one :: "nat \<Rightarrow> bytes \<Rightarrow> bytes" where
  "set_one idx key =
     (if idx div 8 \<ge> 32 then key
      else key[idx div 8 := key ! (idx div 8) OR drop_bit (idx mod 8) 0x80])"

definition copy_bit :: "bytes \<Rightarrow> nat \<Rightarrow> nat \<Rightarrow> bytes \<Rightarrow> bytes" where
  "copy_bit addr key_offset idx key =
     (let addr_byte = 2 + idx div 8
      in if addr_byte \<ge> 16 then key
         else
           let bit1 = drop_bit (7 - idx mod 8) (addr ! addr_byte) AND 1;
               pos = key_offset + idx
           in if pos div 8 \<ge> 32 then key
              else key[pos div 8 := key ! (pos div 8) OR push_bit (7 - pos mod 8) bit1])"

definition address_get_key :: "bytes \<Rightarrow> public_key" where
  "address_get_key addr =
     (let ones = unat (addr ! 1);
          key = fold set_one [0..<ones] (replicate 32 0);
          key = fold (copy_bit addr (ones + 1)) [0..<8 * 14] key
      in map NOT key)"

definition subnet_get_key :: "bytes \<Rightarrow> public_key" where
  "subnet_get_key subnet =
     (let addr_bytes = take 8 subnet @ replicate 8 0;
          addr_bytes = addr_bytes[0 := addr_bytes ! 0 AND NOT 1]
      in address_get_key addr_bytes)"

section \<open>Addresses of keys\<close>

record key_scan =
  ks_ones :: nat
  ks_done :: bool
  ks_temp :: bytes
  ks_bits :: u8
  ks_n_bits :: nat

definition scan_bit :: "bytes \<Rightarrow> nat \<Rightarrow> key_scan \<Rightarrow> key_scan" where
  "scan_bit buf idx s =
     (let bit1 = drop_bit (7 - idx mod 8) (buf ! (idx div 8) AND drop_bit (idx mod 8) 0x80)
      in if \<not> ks_done s \<and> bit1 \<noteq> 0 then s\<lparr>ks_ones := ks_ones s + 1\<rparr>
         else if \<not> ks_done s \<and> bit1 = 0 then s\<lparr>ks_done := True\<rparr>
         else
           let s = s\<lparr>ks_bits := push_bit 1 (ks_bits s) OR bit1, ks_n_bits := ks_n_bits s + 1\<rparr>
           in if ks_n_bits s = 8
              then s\<lparr>ks_temp := ks_temp s @ [ks_bits s], ks_bits := 0, ks_n_bits := 0\<rparr>
              else s)"

definition scan_new :: key_scan where
  "scan_new = \<lparr>ks_ones = 0, ks_done = False, ks_temp = [], ks_bits = 0, ks_n_bits = 0\<rparr>"

definition addr_for_key :: "prefixes \<Rightarrow> public_key \<Rightarrow> bytes" where
  "addr_for_key px public_key =
     (let buf = map NOT public_key;
          s = fold (scan_bit buf) [0..<8 * 32] scan_new;
          copy_len = min (length (ks_temp s)) 14
      in [px_address px, of_nat (min (ks_ones s) 255)] @ take copy_len (ks_temp s) @ replicate (14 - copy_len) 0)"

definition subnet_for_key :: "prefixes \<Rightarrow> public_key \<Rightarrow> bytes" where
  "subnet_for_key px public_key =
     (let subnet = take 8 (addr_for_key px public_key)
      in subnet[0 := subnet ! 0 OR 1])"

text \<open>The transform that \<open>Core::new\<close> installs.\<close>

definition bloom_transform_key :: "prefixes \<Rightarrow> public_key \<Rightarrow> public_key" where
  "bloom_transform_key px key = subnet_get_key (subnet_for_key px key)"

section \<open>Bits in the order of the code\<close>

definition key_bit :: "bytes \<Rightarrow> nat \<Rightarrow> bool" where
  "key_bit k j = bit (k ! (j div 8)) (7 - j mod 8)"

lemma bytes_eqI:
  assumes "length a = n" "length b = n" "\<And>j. j < 8 * n \<Longrightarrow> key_bit a j = key_bit b j"
  shows "a = b"
proof (rule nth_equalityI)
  show "length a = length b" using assms by simp
  fix i assume "i < length a"
  show "a ! i = b ! i"
  proof (rule bit_word_eqI)
    fix m assume m: "m < LENGTH(8)"
    let ?j = "8 * i + (7 - m)"
    have lt: "7 - m < 8" by simp
    have d: "?j div 8 = i" by simp
    have r: "?j mod 8 = 7 - m" using lt by (metis mod_less mod_mult_self4)
    have "?j < 8 * n" using \<open>i < length a\<close> assms(1) by simp
    from assms(3) [OF this] show "bit (a ! i) m = bit (b ! i) m" using m unfolding key_bit_def d r by simp
  qed
qed

lemma bit_top_shifted: "bit (drop_bit r (0x80 :: u8)) m \<longleftrightarrow> m + r = 7"
proof -
  have "(0x80 :: u8) = 2 ^ 7" by simp
  then show ?thesis unfolding bit_drop_bit_eq by (simp only: comp_def bit_exp_iff) auto
qed

lemma scan_bit_value:
  "drop_bit (7 - idx mod 8) (buf ! (idx div 8) AND drop_bit (idx mod 8) (0x80 :: u8)) = of_bool (key_bit buf idx)"
proof (rule bit_word_eqI)
  fix m assume "m < LENGTH(8)"
  have "7 - idx mod 8 + m + idx mod 8 = 7 \<longleftrightarrow> m = 0" by presburger
  then show "bit (drop_bit (7 - idx mod 8) (buf ! (idx div 8) AND drop_bit (idx mod 8) (0x80 :: u8))) m =
    bit (of_bool (key_bit buf idx) :: u8) m"
    by (auto simp: key_bit_def bit_drop_bit_eq bit_and_iff bit_top_shifted bit_of_bool_iff bit_1_iff)
qed

lemma key_bit_not: "j < 8 * length k \<Longrightarrow> key_bit (map NOT k) j \<longleftrightarrow> \<not> key_bit k j"
proof -
  assume "j < 8 * length k"
  then have "j div 8 < length k" by (simp add: less_mult_imp_div_less mult.commute)
  moreover have "7 - j mod 8 < 8" by simp
  ultimately show ?thesis by (simp add: key_bit_def bit_not_iff del: diff_less_Suc)
qed

lemma key_bit_update:
  assumes "p < 8 * length k"
  shows "key_bit (k[p div 8 := k ! (p div 8) OR push_bit (7 - p mod 8) (of_bool b)]) j \<longleftrightarrow>
    key_bit k j \<or> (b \<and> j = p)"
proof (cases "j div 8 = p div 8")
  case True
  have "p div 8 < length k" using assms by (simp add: less_mult_imp_div_less mult.commute)
  moreover have "j = p \<longleftrightarrow> j mod 8 = p mod 8" using True by (metis div_mult_mod_eq)
  then have "j = p \<longleftrightarrow> 7 - j mod 8 = 7 - p mod 8"
    using mod_less_divisor [of 8 j] mod_less_divisor [of 8 p] by linarith
  moreover have "7 - j mod 8 < 8" by simp
  ultimately show ?thesis using True
    by (cases b) (auto simp: key_bit_def bit_or_iff bit_push_bit_iff bit_1_iff bit_exp_iff)
next
  case False
  then show ?thesis by (auto simp: key_bit_def)
qed

section \<open>The key of an address, bit by bit\<close>

lemma one_shifted: "drop_bit r (0x80 :: u8) = push_bit (7 - r) (of_bool True)" if "r < 8"
proof (rule bit_word_eqI)
  fix m assume "m < LENGTH(8)"
  then show "bit (drop_bit r (0x80 :: u8)) m = bit (push_bit (7 - r) (of_bool True) :: u8) m"
    using that unfolding bit_top_shifted of_bool_eq(2) bit_push_bit_iff bit_1_iff by auto
qed

lemma length_set_one [simp]: "length (set_one i k) = length k"
  by (simp add: set_one_def)

lemma length_copy_bit [simp]: "length (copy_bit a p i k) = length k"
  by (simp add: copy_bit_def Let_def)

lemma length_fold_keep: "(\<And>i k. length (f i k) = length k) \<Longrightarrow> length (fold f xs k) = length k"
  by (induction xs arbitrary: k) simp_all

lemma key_bit_set_one:
  assumes "length k = 32" "j < 256"
  shows "key_bit (set_one i k) j \<longleftrightarrow> key_bit k j \<or> j = i"
proof (cases "i div 8 \<ge> 32")
  case True
  then show ?thesis using assms by (auto simp: set_one_def)
next
  case False
  then have "i < 8 * length k" using assms by simp
  from key_bit_update [OF this, of True j] show ?thesis
    using False by (simp add: set_one_def one_shifted [of "i mod 8"])
qed

lemma key_bit_set_ones:
  "length k = 32 \<Longrightarrow> j < 256 \<Longrightarrow> key_bit (fold set_one [0..<n] k) j \<longleftrightarrow> key_bit k j \<or> j < n"
  by (induction n) (auto simp: key_bit_set_one length_fold_keep)

lemma addr_bit: "drop_bit (7 - i mod 8) (a ! (2 + i div 8)) AND 1 = (of_bool (key_bit a (16 + i)) :: u8)"
proof -
  have "(16 + i) div 8 = 2 + i div 8" "(16 + i) mod 8 = i mod 8" by presburger+
  then show ?thesis by (simp add: key_bit_def and_one_eq mod_2_eq_odd bit_iff_odd_drop_bit)
qed

lemma key_bit_copy_bit:
  assumes "length k = 32" "j < 256" "i < 112"
  shows "key_bit (copy_bit a p i k) j \<longleftrightarrow> key_bit k j \<or> (key_bit a (16 + i) \<and> j = p + i)"
proof (cases "(p + i) div 8 \<ge> 32")
  case True
  then show ?thesis using assms by (auto simp: copy_bit_def Let_def)
next
  case False
  then have "p + i < 8 * length k" using assms by simp
  from key_bit_update [OF this, of "key_bit a (16 + i)" j] show ?thesis
    using False less_mult_imp_div_less [of i 14 8] assms(3) unfolding copy_bit_def Let_def addr_bit by simp
qed

lemma key_bit_copy_bits:
  assumes "length k = 32" "j < 256"
  shows "n \<le> 112 \<Longrightarrow> key_bit (fold (copy_bit a p) [0..<n] k) j \<longleftrightarrow>
    key_bit k j \<or> (p \<le> j \<and> j < p + n \<and> key_bit a (16 + (j - p)))"
proof (induction n)
  case (Suc n)
  then show ?case
    using assms by (auto simp: key_bit_copy_bit length_fold_keep less_Suc_eq)
qed auto

lemma length_address_get_key [simp]: "length (address_get_key a) = 32"
  by (simp add: address_get_key_def Let_def length_fold_keep)

lemma key_bit_zeros: "j < 8 * n \<Longrightarrow> \<not> key_bit (replicate n 0) j"
  by (simp add: key_bit_def less_mult_imp_div_less mult.commute)

text \<open>The zero bits of the key: the run of the address, and the copied bits that are one.\<close>

lemma key_bit_address_get_key:
  assumes "j < 256"
  shows "\<not> key_bit (address_get_key a) j \<longleftrightarrow>
    j < unat (a ! 1) \<or> (unat (a ! 1) < j \<and> j < unat (a ! 1) + 113 \<and> key_bit a (16 + (j - (unat (a ! 1) + 1))))"
proof -
  let ?k = "fold (copy_bit a (unat (a ! 1) + 1)) [0..<112] (fold set_one [0..<unat (a ! 1)] (replicate 32 0))"
  have len: "length ?k = 32" by (simp add: length_fold_keep)
  have "\<not> key_bit (address_get_key a) j \<longleftrightarrow> key_bit ?k j"
    using key_bit_not [of j ?k] assms len by (simp add: address_get_key_def Let_def)
  also have "\<dots> \<longleftrightarrow> j < unat (a ! 1) \<or>
      (unat (a ! 1) < j \<and> j < unat (a ! 1) + 113 \<and> key_bit a (16 + (j - (unat (a ! 1) + 1))))"
    using assms by (simp add: key_bit_copy_bits key_bit_set_ones key_bit_zeros length_fold_keep Suc_le_eq add.commute [of 113])
  finally show ?thesis .
qed

section \<open>The address of a key, bit by bit\<close>

definition leading_ones :: "bytes \<Rightarrow> nat" where
  "leading_ones buf = length (takeWhile (key_bit buf) [0..<256])"

lemma leading_ones_le: "leading_ones buf \<le> 256"
  unfolding leading_ones_def using length_takeWhile_le [of "key_bit buf" "[0..<256]"] by simp

lemma leading_ones_before: "j < leading_ones buf \<Longrightarrow> key_bit buf j"
proof -
  assume j: "j < leading_ones buf"
  then have "takeWhile (key_bit buf) [0..<256] ! j = j"
    using leading_ones_le [of buf] by (simp add: leading_ones_def takeWhile_nth)
  then show ?thesis using j set_takeWhileD [of j "key_bit buf" "[0..<256]"]
    by (metis leading_ones_def nth_mem)
qed

lemma leading_ones_at: "leading_ones buf < 256 \<Longrightarrow> \<not> key_bit buf (leading_ones buf)"
  using nth_length_takeWhile [of "key_bit buf" "[0..<256]"] by (simp add: leading_ones_def)

lemma leading_ones_unique:
  assumes "\<And>j. j < n \<Longrightarrow> key_bit buf j" "\<not> key_bit buf n" "n < 256"
  shows "leading_ones buf = n"
  using assms leading_ones_before [of n buf] leading_ones_at [of buf] leading_ones_le [of buf]
  by (metis linorder_neqE_nat order_less_trans)

text \<open>The scan after \<open>n\<close> bits: the run of ones, the whole bytes after it and the bits of the next one.\<close>

definition scan_inv :: "bytes \<Rightarrow> nat \<Rightarrow> key_scan \<Rightarrow> bool" where
  "scan_inv buf n s \<longleftrightarrow>
     (let l = leading_ones buf
      in if n \<le> l then s = scan_new\<lparr>ks_ones := n\<rparr>
         else ks_ones s = l \<and> ks_done s \<and> 8 * length (ks_temp s) + ks_n_bits s = n - l - 1 \<and> ks_n_bits s < 8 \<and>
           (\<forall>i < 8 * length (ks_temp s). key_bit (ks_temp s) i = key_bit buf (l + 1 + i)) \<and>
           (\<forall>m. bit (ks_bits s) m \<longleftrightarrow> m < ks_n_bits s \<and> key_bit buf (n - 1 - m)))"

lemma key_bit_append1: "i < 8 * length t \<Longrightarrow> key_bit (t @ u) i = key_bit t i"
  by (simp add: key_bit_def nth_append less_mult_imp_div_less mult.commute)

lemma key_bit_last:
  assumes "8 * length t \<le> i" "i < 8 * length t + 8"
  shows "key_bit (t @ [b]) i = bit b (7 - (i - 8 * length t))"
proof -
  have "i div 8 = length t" "i mod 8 = i - 8 * length t" using assms by presburger+
  then show ?thesis by (simp add: key_bit_def)
qed

lemma scan_step_after:
  assumes "leading_ones buf < n" "scan_inv buf n s"
  shows "scan_inv buf (Suc n) (scan_bit buf n s)"
proof -
  let ?l = "leading_ones buf" and ?b = "push_bit 1 (ks_bits s) OR of_bool (key_bit buf n)"
  have inv: "ks_ones s = ?l" "ks_done s" "8 * length (ks_temp s) + ks_n_bits s = n - ?l - 1" "ks_n_bits s < 8"
    "\<And>i. i < 8 * length (ks_temp s) \<Longrightarrow> key_bit (ks_temp s) i = key_bit buf (?l + 1 + i)"
    "\<And>m. bit (ks_bits s) m \<longleftrightarrow> m < ks_n_bits s \<and> key_bit buf (n - 1 - m)"
    using assms by (simp_all add: scan_inv_def Let_def)
  have bits: "bit ?b m \<longleftrightarrow> m < Suc (ks_n_bits s) \<and> key_bit buf (n - m)" for m
    using inv(4) unfolding bit_or_iff bit_push_bit_iff bit_of_bool_iff inv(6) by (cases m) auto
  have temp: "key_bit (ks_temp s @ [?b]) i = key_bit buf (?l + 1 + i)"
    if "ks_n_bits s = 7" "i < 8 * length (ks_temp s) + 8" for i
  proof (cases "i < 8 * length (ks_temp s)")
    case True
    then show ?thesis by (simp only: key_bit_append1 inv(5))
  next
    case False
    then have "n - (7 - (i - 8 * length (ks_temp s))) = ?l + 1 + i" using inv(3) that assms(1) by arith
    then show ?thesis using False that key_bit_last [of "ks_temp s" i ?b] bits [of "7 - (i - 8 * length (ks_temp s))"]
      by auto
  qed
  have "n - ?l = Suc (8 * length (ks_temp s) + ks_n_bits s)" using inv(3) assms(1) by arith
  then show ?thesis
    using inv assms(1) bits temp
    unfolding scan_inv_def Let_def scan_bit_def scan_bit_value by auto
qed

lemma scan_step:
  assumes "scan_inv buf n s" "n < 256"
  shows "scan_inv buf (Suc n) (scan_bit buf n s)"
proof -
  consider "n < leading_ones buf" | "n = leading_ones buf" | "leading_ones buf < n" by linarith
  then show ?thesis
  proof cases
    case 1
    then show ?thesis using assms leading_ones_before [of n buf]
      unfolding scan_inv_def Let_def scan_bit_def scan_bit_value scan_new_def by simp
  next
    case 2
    then show ?thesis using assms leading_ones_at [of buf]
      unfolding scan_inv_def Let_def scan_bit_def scan_bit_value scan_new_def by simp
  next
    case 3
    then show ?thesis using assms by (simp add: scan_step_after)
  qed
qed

lemma scan_all: "n \<le> 256 \<Longrightarrow> scan_inv buf n (fold (scan_bit buf) [0..<n] scan_new)"
proof (induction n)
  case 0
  show ?case by (simp add: scan_inv_def scan_new_def)
next
  case (Suc n)
  then show ?case using scan_step [of buf n] by simp
qed

text \<open>How many bits of the key an address carries after the run.\<close>

definition kept_bits :: "nat \<Rightarrow> nat" where
  "kept_bits ones = 8 * min 14 ((255 - ones) div 8)"

definition key_run :: "public_key \<Rightarrow> nat" where
  "key_run k = leading_ones (map NOT k)"

lemma key_bit_padded:
  assumes "c \<le> length t" "c \<le> n" "i < 8 * n"
  shows "key_bit (take c t @ replicate (n - c) 0) i \<longleftrightarrow> i < 8 * c \<and> key_bit t i"
proof -
  have "i div 8 < c \<longleftrightarrow> i < 8 * c" "i div 8 < n" using assms(3) by (simp_all add: div_less_iff_less_mult mult.commute)
  then show ?thesis using assms by (simp add: key_bit_def nth_append)
qed

lemma addr_for_key_parts:
  assumes "length k = 32"
  obtains t where "addr_for_key px k = [px_address px, of_nat (min (key_run k) 255)] @ t" "length t = 14"
    "\<And>i. i < 112 \<Longrightarrow> key_bit t i \<longleftrightarrow> i < kept_bits (key_run k) \<and> \<not> key_bit k (key_run k + 1 + i)"
proof -
  let ?buf = "map NOT k" and ?s = "fold (scan_bit (map NOT k)) [0..<256] scan_new"
  let ?c = "min (length (ks_temp ?s)) 14"
  let ?t = "take ?c (ks_temp ?s) @ replicate (14 - ?c) 0"
  have inv: "scan_inv ?buf 256 ?s" using scan_all [of 256 ?buf] by simp
  have ones: "ks_ones ?s = key_run k" and len: "length (ks_temp ?s) = (255 - key_run k) div 8"
    and bits: "\<And>i. i < 8 * length (ks_temp ?s) \<Longrightarrow> key_bit (ks_temp ?s) i = key_bit ?buf (key_run k + 1 + i)"
    using inv leading_ones_le [of ?buf] by (auto simp: scan_inv_def Let_def key_run_def scan_new_def split: if_splits)
  have kept: "kept_bits (key_run k) = 8 * ?c" using len by (simp add: kept_bits_def min.commute)
  show thesis
  proof
    show "addr_for_key px k = [px_address px, of_nat (min (key_run k) 255)] @ ?t"
      by (simp add: addr_for_key_def Let_def ones)
    show "length ?t = 14" by simp
    fix i :: nat assume "i < 112"
    show "key_bit ?t i \<longleftrightarrow> i < kept_bits (key_run k) \<and> \<not> key_bit k (key_run k + 1 + i)"
    proof -
      have pad: "key_bit ?t i \<longleftrightarrow> i < 8 * ?c \<and> key_bit (ks_temp ?s) i"
        using \<open>i < 112\<close> by (intro key_bit_padded) simp_all
      have "key_bit (ks_temp ?s) i \<longleftrightarrow> \<not> key_bit k (key_run k + 1 + i)" if "i < 8 * ?c"
        using that len assms bits [of i] key_bit_not [of "key_run k + 1 + i" k] by simp
      then show ?thesis unfolding kept using pad by blast
    qed
  qed
qed

section \<open>Addresses and keys fit together\<close>

text \<open>An address as the code builds them: no bit is set past the ones the run leaves room for.\<close>

definition canonical :: "bytes \<Rightarrow> bool" where
  "canonical a \<longleftrightarrow> length a = 16 \<and> (\<forall>i < 112. kept_bits (unat (a ! 1)) \<le> i \<longrightarrow> \<not> key_bit a (16 + i))"

lemma key_bit_tail2: "key_bit (x # y # t) (16 + i) = key_bit t i"
proof -
  have "(16 + i) div 8 = Suc (Suc (i div 8))" "(16 + i) mod 8 = i mod 8" by presburger+
  then show ?thesis by (simp add: key_bit_def)
qed

lemma min_byte: "unat (of_nat (min n 255) :: u8) = min n 255"
  by (simp add: unat_of_nat min_def)

lemma kept_bits_min: "kept_bits (min n 255) = kept_bits n"
  by (simp add: kept_bits_def min_def)

lemma addr_for_key_canonical:
  assumes "length k = 32"
  shows "canonical (addr_for_key px k)"
proof -
  obtain t where
    t: "addr_for_key px k = [px_address px, of_nat (min (key_run k) 255)] @ t" "length t = 14"
      "\<And>i. i < 112 \<Longrightarrow> key_bit t i \<longleftrightarrow> i < kept_bits (key_run k) \<and> \<not> key_bit k (key_run k + 1 + i)"
    by (rule addr_for_key_parts [OF assms, of px]) blast
  then show ?thesis unfolding canonical_def t(1)
    by (simp add: min_byte kept_bits_min key_bit_tail2)
qed

lemma key_run_get_key: "key_run (address_get_key a) = unat (a ! 1)"
  unfolding key_run_def
proof (rule leading_ones_unique)
  have lt: "unat (a ! 1) < 256" using unsigned_less [of "a ! 1"] by simp
  then show "unat (a ! 1) < 256" .
  show "key_bit (map NOT (address_get_key a)) j" if "j < unat (a ! 1)" for j
    using that lt key_bit_address_get_key [of j a] by (simp add: key_bit_not)
  show "\<not> key_bit (map NOT (address_get_key a)) (unat (a ! 1))"
    using lt key_bit_address_get_key [of "unat (a ! 1)" a] by (simp add: key_bit_not)
qed

lemma addr_for_key_get_key:
  assumes "canonical a"
  shows "addr_for_key px (address_get_key a) = a[0 := px_address px]"
proof -
  let ?k = "address_get_key a" and ?o = "unat (a ! 1)"
  obtain b o1 r where a: "a = b # o1 # r" and r: "length r = 14"
    using assms unfolding canonical_def by (cases a; cases "tl a") auto
  have lt: "?o < 256" using unsigned_less [of "a ! 1"] by simp
  from addr_for_key_parts [of ?k px] obtain t where
    t: "addr_for_key px ?k = [px_address px, of_nat (min ?o 255)] @ t" "length t = 14"
      "\<And>i. i < 112 \<Longrightarrow> key_bit t i \<longleftrightarrow> i < kept_bits ?o \<and> \<not> key_bit ?k (?o + 1 + i)"
    unfolding key_run_get_key by auto
  have "t = r"
  proof (rule bytes_eqI [OF t(2) r])
    fix i :: nat assume "i < 8 * 14"
    then have i: "i < 112" by simp
    have "\<not> key_bit ?k (?o + 1 + i) \<longleftrightarrow> key_bit r i" if "i < kept_bits ?o"
    proof -
      have "?o + 1 + i < 256" using that by (simp add: kept_bits_def)
      from key_bit_address_get_key [OF this, of a] show ?thesis
        using i key_bit_tail2 [of b o1 r i] a by simp
    qed
    moreover have "\<not> key_bit r i" if "kept_bits ?o \<le> i"
      using assms that i key_bit_tail2 [of b o1 r i] a by (simp add: canonical_def)
    ultimately show "key_bit t i = key_bit r i" using t(3) [OF i] by (meson leI)
  qed
  then show ?thesis using t(1) lt a by (simp add: min_absorb1)
qed

lemma get_key_ignores_first: "tl a = tl b \<Longrightarrow> length a = 16 \<Longrightarrow> length b = 16 \<Longrightarrow> address_get_key a = address_get_key b"
proof -
  assume "tl a = tl b" "length a = 16" "length b = 16"
  then obtain x y t where "a = x # t" "b = y # t" by (cases a; cases b) auto
  moreover have "copy_bit (x # t) = copy_bit (y # t)"
    by (simp add: copy_bit_def fun_eq_iff)
  ultimately show ?thesis by (simp add: address_get_key_def)
qed

lemma length_addr_for_key [simp]: "length (addr_for_key px k) = 16"
  by (simp add: addr_for_key_def Let_def)

text \<open>The address whose key a subnet stands for: the first eight bytes, the rest zero.\<close>

definition truncated :: "bytes \<Rightarrow> bytes" where
  "truncated a = take 8 a @ replicate 8 0"

lemma length_truncated [simp]: "length a = 16 \<Longrightarrow> length (truncated a) = 16"
  by (simp add: truncated_def)

lemma truncated_canonical: "canonical a \<Longrightarrow> canonical (truncated a)"
proof -
  assume a: "canonical a"
  then have len: "length a = 16" by (simp add: canonical_def)
  then have "truncated a ! 1 = a ! 1" by (simp add: truncated_def nth_append)
  moreover have "key_bit (truncated a) j \<longrightarrow> key_bit a j" if "j < 128" for j
    using key_bit_padded [of 8 a 16 j] that len by (simp add: truncated_def)
  then have "key_bit (truncated a) (16 + i) \<longrightarrow> key_bit a (16 + i)" if "i < 112" for i using that by simp
  ultimately show ?thesis using a by (auto simp: canonical_def)
qed

lemma subnet_get_key_addr:
  assumes "length a = 16"
  shows "subnet_get_key ((take 8 a)[0 := x]) = address_get_key (truncated a)"
  unfolding subnet_get_key_def Let_def
  by (rule get_key_ignores_first) (use assms in \<open>cases a; simp add: truncated_def\<close>)+

lemma bloom_transform_key_eq: "bloom_transform_key px k = address_get_key (truncated (addr_for_key px k))"
  by (simp add: bloom_transform_key_def subnet_for_key_def Let_def subnet_get_key_addr)

lemma addr_for_key_transform:
  assumes "length k = 32"
  shows "addr_for_key px (bloom_transform_key px k) = truncated (addr_for_key px k)"
proof -
  have "(truncated (addr_for_key px k))[0 := px_address px] = truncated (addr_for_key px k)"
    by (simp add: truncated_def addr_for_key_def Let_def)
  then show ?thesis
    using assms by (simp add: bloom_transform_key_eq addr_for_key_get_key truncated_canonical addr_for_key_canonical)
qed

lemma addr_for_key_partial:
  "length k = 32 \<Longrightarrow> addr_for_key px (address_get_key (addr_for_key px k)) = addr_for_key px k"
  by (simp add: addr_for_key_get_key addr_for_key_canonical) (simp add: addr_for_key_def Let_def)

lemma truncated_idem: "length a = 16 \<Longrightarrow> truncated (truncated a) = truncated a"
  by (simp add: truncated_def)

text \<open>C20. The partial key that an IPv6 address or a routed subnet stands for can be looked up: it has
  the address (the subnet) it came from, and the Bloom filter transform sends it to the filter key
  of the full key, so that a lookup by address or by subnet follows the filters which the owner of
  the full key announced.\<close>

theorem partial_keys_match_filters:
  assumes "length k = 32"
  shows "addr_for_key px (address_get_key (addr_for_key px k)) = addr_for_key px k \<and>
    subnet_for_key px (subnet_get_key (subnet_for_key px k)) = subnet_for_key px k \<and>
    bloom_transform_key px (address_get_key (addr_for_key px k)) = bloom_transform_key px k \<and>
    bloom_transform_key px (subnet_get_key (subnet_for_key px k)) = bloom_transform_key px k"
proof -
  note part = addr_for_key_partial [OF assms, of px] addr_for_key_transform [OF assms, of px]
  have "subnet_for_key px (bloom_transform_key px k) = subnet_for_key px k"
    unfolding subnet_for_key_def part(2) by (simp add: truncated_def)
  moreover have "bloom_transform_key px (bloom_transform_key px k) = bloom_transform_key px k"
    by (simp add: bloom_transform_key_eq [of px "bloom_transform_key px k"] part(2) truncated_idem)
      (simp add: bloom_transform_key_eq)
  ultimately show ?thesis
    using part(1) unfolding bloom_transform_key_def subnet_for_key_def by simp
qed

theorem partial_keys_match_filters_witness:
  "addr_for_key default_prefixes (address_get_key (addr_for_key default_prefixes (replicate 32 1))) =
    addr_for_key default_prefixes (replicate 32 1)"
  using partial_keys_match_filters [of "replicate 32 1" default_prefixes] by simp

text \<open>Two keys share an address exactly when they have the same run of leading zeros (counted up to
  255) and agree on the bits the address has room for.\<close>

theorem address_collision_exact:
  assumes "length k = 32" "length k' = 32"
  shows "addr_for_key px k = addr_for_key px k' \<longleftrightarrow>
    min (key_run k) 255 = min (key_run k') 255 \<and>
    (\<forall>i < kept_bits (key_run k). key_bit k (key_run k + 1 + i) = key_bit k' (key_run k' + 1 + i))"
proof -
  obtain t where
    t: "addr_for_key px k = [px_address px, of_nat (min (key_run k) 255)] @ t" "length t = 14"
      "\<And>i. i < 112 \<Longrightarrow> key_bit t i \<longleftrightarrow> i < kept_bits (key_run k) \<and> \<not> key_bit k (key_run k + 1 + i)"
    by (rule addr_for_key_parts [OF assms(1), of px]) blast
  obtain u where
    u: "addr_for_key px k' = [px_address px, of_nat (min (key_run k') 255)] @ u" "length u = 14"
      "\<And>i. i < 112 \<Longrightarrow> key_bit u i \<longleftrightarrow> i < kept_bits (key_run k') \<and> \<not> key_bit k' (key_run k' + 1 + i)"
    by (rule addr_for_key_parts [OF assms(2), of px]) blast
  have run: "(of_nat (min (key_run k) 255) :: u8) = of_nat (min (key_run k') 255) \<longleftrightarrow>
      min (key_run k) 255 = min (key_run k') 255"
    by (metis min_byte)
  have kept: "kept_bits (key_run k) = kept_bits (key_run k')" if "min (key_run k) 255 = min (key_run k') 255"
    using that by (metis kept_bits_min)
  have le: "kept_bits n \<le> 112" for n by (simp add: kept_bits_def)
  have "t = u \<longleftrightarrow> (\<forall>i < 112. key_bit t i = key_bit u i)"
    using bytes_eqI [OF t(2) u(2)] by auto
  then have tu: "t = u \<longleftrightarrow> (\<forall>i < kept_bits (key_run k). key_bit k (key_run k + 1 + i) = key_bit k' (key_run k' + 1 + i))"
    if "min (key_run k) 255 = min (key_run k') 255"
    using t(3) u(3) kept [OF that] le [of "key_run k"] by (metis less_le_trans)
  show ?thesis unfolding t(1) u(1) using run tu by auto
qed

section \<open>Valid prefixes\<close>

lemma addr_for_key_valid: "is_valid_address px (addr_for_key px k)"
  by (simp add: is_valid_address_def addr_for_key_def Let_def)

lemma subnet_first: "subnet_for_key px k ! 0 = px_address px OR 1"
  by (simp add: subnet_for_key_def addr_for_key_def Let_def)

lemma even_or_one: "even (p :: u8) \<Longrightarrow> p OR 1 = p + 1"
  by (simp add: or_one_eq)

lemma odd_or_one: "odd (p :: u8) \<Longrightarrow> p OR 1 = p"
  by (simp add: or_one_eq)

text \<open>The subnet of a key has the subnet prefix exactly when the address prefix is even; the overlay
  network of \<open>overlay_network_for_prefix\<close> then holds both prefixes.\<close>

theorem subnet_valid_iff_even:
  "is_valid_subnet (set_address_prefix p) (subnet_for_key (set_address_prefix p) k) \<longleftrightarrow> even p"
proof (cases "even p")
  case True
  then show ?thesis by (simp add: is_valid_subnet_def subnet_first set_address_prefix_def even_or_one)
next
  case False
  then show ?thesis by (simp add: is_valid_subnet_def subnet_first set_address_prefix_def odd_or_one)
qed

end
