(* ===== verification/Ckr.thy ===== *)
theory Ckr
  imports Cidr Address
begin

text \<open>
  Crypto-key routing, \<open>crates/yggdrasil/src/ckr.rs\<close>: the longest-prefix-match tables, the syntax of
  route entries, the tables that \<open>CryptoKey::new\<close> builds from the configuration and the system routes
  that \<open>install_routes\<close> and \<open>remove_routes\<close> hand to the route manager.

  The crates \<open>hex\<close>, \<open>url\<close> and \<open>ipnet\<close>, the files, the listing of the directory of downloaded lists and
  the exclusions resolved at start-up are the record \<open>ckr_env\<close>, as they are at the time of a call; the
  routes of the system are the argument \<open>sys\<close>. The cache of route files is state that the functions
  pass on. A result \<open>None\<close> stands for a panic. Strings are lists of characters and white space is
  ASCII white space; error texts that print a length or a network leave it out. A hash map that the
  code iterates over is the list of its entries, in the order of the iteration.
\<close>

section \<open>Tables\<close>

type_synonym route_levels = "(u8 \<times> (u128, public_key) hmap) list"

record route_table =
  rt_bits :: nat
  rt_levels :: route_levels
  rt_len :: nat

definition rt_new :: "nat \<Rightarrow> route_table" where
  "rt_new bits = \<lparr>rt_bits = bits, rt_levels = [], rt_len = 0\<rparr>"

text \<open>\<open>entry(Reverse(l)).or_default()\<close>: the levels stay sorted, the longest prefix first.\<close>

fun level_update :: "u8 \<Rightarrow> ((u128, public_key) hmap \<Rightarrow> (u128, public_key) hmap) \<Rightarrow> route_levels \<Rightarrow> route_levels" where
  "level_update l f [] = [(l, f [])]"
| "level_update l f ((l', m) # ls) =
     (if l = l' then (l, f m) # ls
      else if l' < l then (l, f []) # (l', m) # ls
      else (l', m) # level_update l f ls)"

definition level_of :: "route_levels \<Rightarrow> u8 \<Rightarrow> (u128, public_key) hmap" where
  "level_of ls l = (case map_of ls l of None \<Rightarrow> [] | Some m \<Rightarrow> m)"

definition rt_insert :: "ipnet_lib \<Rightarrow> ip_net \<Rightarrow> public_key \<Rightarrow> route_table \<Rightarrow> bool \<times> route_table" where
  "rt_insert L prefix destination rt =
     (let key = mask_addr (lib_network L prefix) (net_prefix_len prefix) (rt_bits rt);
          old = hm_get (level_of (rt_levels rt) (net_prefix_len prefix)) key;
          rt = rt\<lparr>rt_levels := level_update (net_prefix_len prefix) (hm_insert key destination) (rt_levels rt)\<rparr>
      in if old \<noteq> None then (False, rt) else (True, rt\<lparr>rt_len := rt_len rt + 1\<rparr>))"

fun get_levels :: "nat \<Rightarrow> u128 \<Rightarrow> route_levels \<Rightarrow> public_key option" where
  "get_levels bits addr [] = None"
| "get_levels bits addr ((prefix_len, level) # ls) =
     (case hm_get level (mask_addr addr prefix_len bits) of
        Some dest \<Rightarrow> Some dest
      | None \<Rightarrow> get_levels bits addr ls)"

definition rt_get :: "route_table \<Rightarrow> u128 \<Rightarrow> public_key option" where
  "rt_get rt addr = get_levels (rt_bits rt) addr (rt_levels rt)"

definition rt_is_empty :: "route_table \<Rightarrow> bool" where
  "rt_is_empty rt \<longleftrightarrow> rt_len rt = 0"

section \<open>Entries\<close>

definition is_ws :: "char \<Rightarrow> bool" where
  "is_ws c \<longleftrightarrow> c \<in> {CHR 0x09, CHR 0x0A, CHR 0x0B, CHR 0x0C, CHR 0x0D, CHR '' ''}"

definition trim :: "string \<Rightarrow> string" where
  "trim s = rev (dropWhile is_ws (rev (dropWhile is_ws s)))"

definition starts_with :: "string \<Rightarrow> string \<Rightarrow> bool" where
  "starts_with s p \<longleftrightarrow> take (length p) s = p"

definition strip_char :: "char \<Rightarrow> string \<Rightarrow> string option" where
  "strip_char c s = (case s of [] \<Rightarrow> None | d # ds \<Rightarrow> if d = c then Some ds else None)"

definition INETV4_PREFIXES :: "string list" where
  "INETV4_PREFIXES =
     [''0.0.0.0/5'', ''8.0.0.0/7'', ''11.0.0.0/8'', ''12.0.0.0/6'', ''16.0.0.0/4'', ''32.0.0.0/3'', ''64.0.0.0/2'', ''128.0.0.0/3'',
      ''160.0.0.0/5'', ''168.0.0.0/6'', ''172.0.0.0/12'', ''172.32.0.0/11'', ''172.64.0.0/10'', ''172.128.0.0/9'', ''173.0.0.0/8'', ''174.0.0.0/7'',
      ''176.0.0.0/4'', ''192.0.0.0/9'', ''192.128.0.0/11'', ''192.160.0.0/13'', ''192.169.0.0/16'', ''192.170.0.0/15'', ''192.172.0.0/14'', ''192.176.0.0/12'',
      ''192.192.0.0/10'', ''193.0.0.0/8'', ''194.0.0.0/7'', ''196.0.0.0/6'', ''200.0.0.0/5'', ''208.0.0.0/4'']"

definition INETV6_PREFIXES :: "string list" where
  "INETV6_PREFIXES = [''2000::/3'']"

definition normalize_entry :: "string \<Rightarrow> string list" where
  "normalize_entry entry =
     (let trimmed = trim entry
      in if trimmed = ''inetv4'' then INETV4_PREFIXES
         else if trimmed = ''~inetv4'' then map ((@) ''~'') INETV4_PREFIXES
         else if trimmed = ''_inetv4'' then map ((@) ''_'') INETV4_PREFIXES
         else if trimmed = ''inetv6'' then INETV6_PREFIXES
         else if trimmed = ''~inetv6'' then map ((@) ''~'') INETV6_PREFIXES
         else if trimmed = ''_inetv6'' then map ((@) ''_'') INETV6_PREFIXES
         else [trimmed])"

definition normalize_subnet_entries :: "string list \<Rightarrow> string list" where
  "normalize_subnet_entries entries = concat (map normalize_entry entries)"

record url_parts =
  url_scheme :: string
  url_file_path :: "string option"

datatype file_result = Missing | OpenFailed string | Opened "(string + string) list"

type_synonym route_file_cache = "(string, string list option) hmap"

record ckr_env =
  ce_ipnet :: ipnet_lib
  ce_hex_decode :: "string \<Rightarrow> string + bytes"
  ce_url_parse :: "string \<Rightarrow> string + url_parts"
  ce_open :: "string \<Rightarrow> file_result"
  ce_download_dir :: "string \<Rightarrow> (string \<times> string option) list"
  ce_peer_exclusions :: "string list option"
  ce_linux :: bool

definition is_list_url :: "string \<Rightarrow> bool" where
  "is_list_url trimmed \<longleftrightarrow>
     starts_with trimmed ''file:///'' \<or> starts_with trimmed ''~file:///'' \<or> starts_with trimmed ''!file:///'' \<or> starts_with trimmed ''_file:///'' \<or>
     starts_with trimmed ''http://'' \<or> starts_with trimmed ''https://'' \<or> starts_with trimmed ''~http://'' \<or> starts_with trimmed ''~https://'' \<or>
     starts_with trimmed ''!http://'' \<or> starts_with trimmed ''!https://'' \<or> starts_with trimmed ''_http://'' \<or> starts_with trimmed ''_https://''"

definition split_url_prefix :: "string \<Rightarrow> string \<times> string" where
  "split_url_prefix trimmed =
     (case strip_char (CHR ''~'') trimmed of
        Some rest \<Rightarrow> (''~'', trim rest)
      | None \<Rightarrow>
          (case strip_char (CHR ''!'') trimmed of
             Some rest \<Rightarrow> (''!'', trim rest)
           | None \<Rightarrow>
               (case strip_char (CHR ''_'') trimmed of
                  Some rest \<Rightarrow> (''_'', trim rest)
                | None \<Rightarrow> ('''', trimmed))))"

text \<open>The lines of a file that are kept: trimmed, not empty, no comment.\<close>

fun read_lines :: "(string + string) list \<Rightarrow> string + string list" where
  "read_lines [] = Inr []"
| "read_lines (Inl e # ls) = Inl e"
| "read_lines (Inr line # ls) =
     (case read_lines ls of
        Inl e \<Rightarrow> Inl e
      | Inr rest \<Rightarrow>
          let lt = trim line
          in if lt = [] \<or> starts_with lt ''#'' then Inr rest else Inr (lt # rest))"

text \<open>One round of the loop over the entries: the resolved entries that it adds.\<close>

definition resolve_entry :: "ckr_env \<Rightarrow> string \<Rightarrow> route_file_cache \<Rightarrow> (string + string list) \<times> route_file_cache" where
  "resolve_entry env entry cache =
     (let trimmed = trim entry
      in if \<not> is_list_url trimmed then (Inr [trimmed], cache)
         else
           let (maybe_prefix, url_str) = split_url_prefix trimmed
           in case ce_url_parse env url_str of
                Inl e \<Rightarrow> (Inl (''invalid file URL '' @ url_str @ '': '' @ e), cache)
              | Inr url \<Rightarrow>
                  if url_scheme url \<noteq> ''file'' \<and> url_scheme url \<noteq> ''http'' \<and> url_scheme url \<noteq> ''https''
                  then (Inl (''route lists support only file://, http:// and https:// URLs, got: '' @ url_str), cache)
                  else if url_scheme url = ''http'' \<or> url_scheme url = ''https'' then (Inr [], cache)
                  else
                    (case url_file_path url of
                       None \<Rightarrow> (Inl (''file URL does not represent a valid local path: '' @ url_str), cache)
                     | Some path \<Rightarrow>
                         (case hm_get cache path of
                            Some (Some lines) \<Rightarrow> (Inr (map ((@) maybe_prefix) lines), cache)
                          | Some None \<Rightarrow> (Inr [], cache)
                          | None \<Rightarrow>
                              (case ce_open env path of
                                 Missing \<Rightarrow> (Inr [], hm_insert path None cache)
                               | OpenFailed e \<Rightarrow> (Inl (''failed to open route list file '' @ path @ '': '' @ e), cache)
                               | Opened ls \<Rightarrow>
                                   (case read_lines ls of
                                      Inl e \<Rightarrow> (Inl (''error reading from '' @ path @ '': '' @ e), cache)
                                    | Inr file_lines \<Rightarrow>
                                        (Inr (map ((@) maybe_prefix) file_lines), hm_insert path (Some file_lines) cache))))))"

fun resolve_entries :: "ckr_env \<Rightarrow> string list \<Rightarrow> string list \<Rightarrow> route_file_cache \<Rightarrow> (string + string list) \<times> route_file_cache" where
  "resolve_entries env [] resolved cache = (Inr resolved, cache)"
| "resolve_entries env (entry # entries) resolved cache =
     (case resolve_entry env entry cache of
        (Inl e, cache) \<Rightarrow> (Inl e, cache)
      | (Inr to_add, cache) \<Rightarrow> resolve_entries env entries (resolved @ to_add) cache)"

record cidr_sets =
  cs_v4_inc :: "ip_net list"
  cs_v6_inc :: "ip_net list"
  cs_v4_exc :: "ip_net list"
  cs_v6_exc :: "ip_net list"

definition split_exclude :: "string \<Rightarrow> bool \<times> string" where
  "split_exclude raw =
     (let cidr_input =
            (case strip_char (CHR ''~'') raw of
               Some rest \<Rightarrow> trim rest
             | None \<Rightarrow> (case strip_char (CHR ''_'') raw of Some rest \<Rightarrow> trim rest | None \<Rightarrow> raw))
      in case strip_char (CHR ''!'') cidr_input of
           Some rest \<Rightarrow> (True, trim rest)
         | None \<Rightarrow> (False, cidr_input))"

definition cidr_for_parse :: "string \<Rightarrow> string" where
  "cidr_for_parse cidr_str =
     (if CHR ''/'' \<notin> set cidr_str
      then if CHR '':'' \<in> set cidr_str then cidr_str @ ''/128'' else cidr_str @ ''/32''
      else cidr_str)"

definition add_cidr :: "bool \<Rightarrow> ip_net \<Rightarrow> cidr_sets \<Rightarrow> cidr_sets" where
  "add_cidr is_exclude prefix cs =
     (case (is_exclude, prefix) of
        (False, NetV4 _ _) \<Rightarrow> cs\<lparr>cs_v4_inc := cs_v4_inc cs @ [prefix]\<rparr>
      | (False, NetV6 _ _) \<Rightarrow> cs\<lparr>cs_v6_inc := cs_v6_inc cs @ [prefix]\<rparr>
      | (True, NetV4 _ _) \<Rightarrow> cs\<lparr>cs_v4_exc := cs_v4_exc cs @ [prefix]\<rparr>
      | (True, NetV6 _ _) \<Rightarrow> cs\<lparr>cs_v6_exc := cs_v6_exc cs @ [prefix]\<rparr>)"

fun parse_entries :: "ipnet_lib \<Rightarrow> string list \<Rightarrow> cidr_sets \<Rightarrow> string + cidr_sets" where
  "parse_entries L [] cs = Inr cs"
| "parse_entries L (raw # raws) cs =
     (let (is_exclude, cidr_str) = split_exclude raw
      in case lib_parse L (cidr_for_parse cidr_str) of
           Inl e \<Rightarrow> Inl (''invalid CIDR '' @ cidr_str @ '': '' @ e)
         | Inr prefix \<Rightarrow> parse_entries L raws (add_cidr is_exclude (lib_trunc L prefix) cs))"

fun subtract_all :: "ipnet_lib \<Rightarrow> ip_net list \<Rightarrow> (u128 \<times> u128) list \<Rightarrow> ip_net list \<Rightarrow> ip_net list option" where
  "subtract_all L [] exc out = Some out"
| "subtract_all L (inc # incs) exc out =
     Option.bind (subtract_many L inc exc) (\<lambda>ns. subtract_all L incs exc (out @ ns))"

definition expand_sets :: "ipnet_lib \<Rightarrow> cidr_sets \<Rightarrow> ip_net list option" where
  "expand_sets L cs =
     (let v4_exc = merge_excludes L (cs_v4_exc cs); v6_exc = merge_excludes L (cs_v6_exc cs)
      in Option.bind (subtract_all L (cs_v4_inc cs) v4_exc []) (subtract_all L (cs_v6_inc cs) v6_exc))"

text \<open>The first half of \<open>expand_cidrs\<close>, up to the four lists.\<close>

definition collect_cidrs :: "ckr_env \<Rightarrow> string list \<Rightarrow> route_file_cache \<Rightarrow> (string + cidr_sets) \<times> route_file_cache" where
  "collect_cidrs env entries cache =
     (case resolve_entries env entries [] cache of
        (Inl e, cache) \<Rightarrow> (Inl e, cache)
      | (Inr resolved, cache) \<Rightarrow>
          (parse_entries (ce_ipnet env) (normalize_subnet_entries resolved)
             \<lparr>cs_v4_inc = [], cs_v6_inc = [], cs_v4_exc = [], cs_v6_exc = []\<rparr>, cache))"

definition expand_cidrs :: "ckr_env \<Rightarrow> string list \<Rightarrow> route_file_cache \<Rightarrow> (string + ip_net list) option \<times> route_file_cache" where
  "expand_cidrs env entries cache =
     (case collect_cidrs env entries cache of
        (Inl e, cache) \<Rightarrow> (Some (Inl e), cache)
      | (Inr cs, cache) \<Rightarrow> (map_option Inr (expand_sets (ce_ipnet env) cs), cache))"

section \<open>The routing table of a node\<close>

definition is_yggdrasil_destination :: "prefixes \<Rightarrow> ip_addr \<Rightarrow> bool" where
  "is_yggdrasil_destination px ip =
     (case ip of
        AddrV4 _ \<Rightarrow> False
      | AddrV6 v6 \<Rightarrow> is_valid_address px (ipv6_octets v6) \<or> is_valid_subnet px (take 8 (ipv6_octets v6)))"

definition parse_pubkey :: "ckr_env \<Rightarrow> string \<Rightarrow> string + public_key" where
  "parse_pubkey env hex_str =
     (case ce_hex_decode env hex_str of
        Inl e \<Rightarrow> Inl (''invalid public key hex '' @ hex_str @ '': '' @ e)
      | Inr bs \<Rightarrow> if length bs \<noteq> 32 then Inl (''public key should be 32 bytes, got another length for '' @ hex_str) else Inr bs)"

record tunnel_routing_config =
  tr_enable :: bool
  tr_yggdrasil_routing :: bool
  tr_remote_subnets :: "(string \<times> string list) list"
  tr_install_system_routes :: bool

record crypto_key =
  ck_yggdrasil_routing :: bool
  ck_v4 :: route_table
  ck_v6 :: route_table

definition get_peer_exclusion_entries :: "ckr_env \<Rightarrow> string list" where
  "get_peer_exclusion_entries env = (case ce_peer_exclusions env of None \<Rightarrow> [] | Some es \<Rightarrow> es)"

text \<open>\<open>get_downloaded_virtual_file_entries\<close>: the directory of the key lists the names of its files, each
  with its \<open>file\<close> URL if it has one; a directory that cannot be read lists none. The mark between the
  first two dashes of a name becomes the mark of the entry.\<close>

fun split_dash :: "string \<Rightarrow> (string \<times> string) option" where
  "split_dash [] = None"
| "split_dash (c # cs) =
     (if c = CHR ''-'' then Some ([], cs) else map_option (\<lambda>(before, after). (c # before, after)) (split_dash cs))"

definition virtual_mark :: "string \<Rightarrow> string" where
  "virtual_mark after_first =
     (if starts_with after_first ''-'' then []
      else case split_dash after_first of
             Some (mark, _) \<Rightarrow> if mark = ''~'' \<or> mark = ''_'' \<or> mark = ''!'' then mark else []
           | None \<Rightarrow> [])"

fun virtual_entry :: "string \<times> string option \<Rightarrow> string option" where
  "virtual_entry (name, url) =
     (case split_dash name of
        None \<Rightarrow> None
      | Some (_, after_first) \<Rightarrow> map_option (\<lambda>u. virtual_mark after_first @ u) url)"

definition get_downloaded_virtual_file_entries :: "ckr_env \<Rightarrow> string \<Rightarrow> string list" where
  "get_downloaded_virtual_file_entries env pubkey = List.map_filter virtual_entry (ce_download_dir env pubkey)"

definition effective_entries :: "ckr_env \<Rightarrow> string \<Rightarrow> string list \<Rightarrow> string list" where
  "effective_entries env pubkey_hex cidrs = cidrs @ get_downloaded_virtual_file_entries env pubkey_hex @ get_peer_exclusion_entries env"

fun insert_prefixes :: "ipnet_lib \<Rightarrow> prefixes \<Rightarrow> public_key \<Rightarrow> ip_net list \<Rightarrow> route_table \<times> route_table \<Rightarrow> string + route_table \<times> route_table" where
  "insert_prefixes L px dest [] tabs = Inr tabs"
| "insert_prefixes L px dest (prefix # ps) (v4, v6) =
     (case prefix of
        NetV6 _ _ \<Rightarrow>
          if is_yggdrasil_destination px (net_addr prefix)
          then Inl ''can't specify Yggdrasil destination as routed subnet''
          else insert_prefixes L px dest ps (v4, snd (rt_insert L prefix dest v6))
      | NetV4 _ _ \<Rightarrow> insert_prefixes L px dest ps (snd (rt_insert L prefix dest v4), v6))"

definition ckr_entries :: "ckr_env \<Rightarrow> string \<Rightarrow> string list \<Rightarrow> string list" where
  "ckr_entries env pubkey_hex cidrs = filter (\<lambda>s. \<not> starts_with (trim s) ''_'') (effective_entries env pubkey_hex cidrs)"

fun build_tables :: "ckr_env \<Rightarrow> prefixes \<Rightarrow> public_key \<Rightarrow> (string \<times> string list) list \<Rightarrow> route_table \<times> route_table \<Rightarrow>
    route_file_cache \<Rightarrow> (string + route_table \<times> route_table) option \<times> route_file_cache" where
  "build_tables env px self_key [] tabs cache = (Some (Inr tabs), cache)"
| "build_tables env px self_key ((pubkey_hex, cidrs) # subnets) tabs cache =
     (case parse_pubkey env pubkey_hex of
        Inl e \<Rightarrow> (Some (Inl e), cache)
      | Inr dest \<Rightarrow>
          if dest = self_key then build_tables env px self_key subnets tabs cache
          else
            (case expand_cidrs env (ckr_entries env pubkey_hex cidrs) cache of
               (None, cache) \<Rightarrow> (None, cache)
             | (Some (Inl e), cache) \<Rightarrow> (Some (Inl e), cache)
             | (Some (Inr expanded), cache) \<Rightarrow>
                 (case insert_prefixes (ce_ipnet env) px dest expanded tabs of
                    Inl e \<Rightarrow> (Some (Inl e), cache)
                  | Inr tabs \<Rightarrow> build_tables env px self_key subnets tabs cache)))"

definition crypto_key_new :: "ckr_env \<Rightarrow> prefixes \<Rightarrow> tunnel_routing_config \<Rightarrow> public_key \<Rightarrow> route_file_cache \<Rightarrow>
    (string + crypto_key) option \<times> route_file_cache" where
  "crypto_key_new env px config self_key cache =
     (let v4 = rt_new 32; v6 = rt_new 128
      in if \<not> tr_enable config
         then (Some (Inr \<lparr>ck_yggdrasil_routing = tr_yggdrasil_routing config, ck_v4 = v4, ck_v6 = v6\<rparr>), cache)
         else
           (case build_tables env px self_key (tr_remote_subnets config) (v4, v6) cache of
              (None, cache) \<Rightarrow> (None, cache)
            | (Some (Inl e), cache) \<Rightarrow> (Some (Inl e), cache)
            | (Some (Inr (v4, v6)), cache) \<Rightarrow>
                (Some (Inr \<lparr>ck_yggdrasil_routing = tr_yggdrasil_routing config, ck_v4 = v4, ck_v6 = v6\<rparr>), cache)))"

definition get_public_key_for_address :: "prefixes \<Rightarrow> crypto_key \<Rightarrow> ip_addr \<Rightarrow> public_key option" where
  "get_public_key_for_address px ck addr =
     (case addr of
        AddrV4 a \<Rightarrow> rt_get (ck_v4 ck) (ucast a)
      | AddrV6 a \<Rightarrow> if is_yggdrasil_destination px addr then None else rt_get (ck_v6 ck) a)"

section \<open>System routes\<close>

record sys_route =
  sr_network :: ip_addr
  sr_prefix_len :: u8
  sr_if_name :: string
  sr_table :: "u8 option"

definition sys_entries :: "ckr_env \<Rightarrow> string \<Rightarrow> string list \<Rightarrow> string list" where
  "sys_entries env pubkey_hex subnet_list =
     normalize_subnet_entries (filter (\<lambda>s. \<not> starts_with (trim s) ''~'') (effective_entries env pubkey_hex subnet_list))"

definition push_new :: "ip_net \<Rightarrow> ip_net list \<Rightarrow> ip_net list" where
  "push_new prefix cidrs = (if prefix \<in> set cidrs then cidrs else cidrs @ [prefix])"

fun install_cidrs :: "ckr_env \<Rightarrow> public_key \<Rightarrow> (string \<times> string list) list \<Rightarrow> ip_net list \<Rightarrow> route_file_cache \<Rightarrow>
    (string + ip_net list) option \<times> route_file_cache" where
  "install_cidrs env self_key [] cidrs cache = (Some (Inr cidrs), cache)"
| "install_cidrs env self_key ((pubkey_hex, subnet_list) # subnets) cidrs cache =
     (if parse_pubkey env pubkey_hex = Inr self_key then install_cidrs env self_key subnets cidrs cache
      else
        (case expand_cidrs env (sys_entries env pubkey_hex subnet_list) cache of
           (None, cache) \<Rightarrow> (None, cache)
         | (Some (Inl e), cache) \<Rightarrow> (Some (Inl e), cache)
         | (Some (Inr expanded), cache) \<Rightarrow> install_cidrs env self_key subnets (fold push_new expanded cidrs) cache))"

fun remove_cidrs :: "ckr_env \<Rightarrow> public_key \<Rightarrow> (string \<times> string list) list \<Rightarrow> ip_net list \<Rightarrow> route_file_cache \<Rightarrow>
    ip_net list option \<times> route_file_cache" where
  "remove_cidrs env self_key [] cidrs cache = (Some cidrs, cache)"
| "remove_cidrs env self_key ((pubkey_hex, subnet_list) # subnets) cidrs cache =
     (if parse_pubkey env pubkey_hex = Inr self_key then remove_cidrs env self_key subnets cidrs cache
      else
        (case expand_cidrs env (sys_entries env pubkey_hex subnet_list) cache of
           (None, cache) \<Rightarrow> (None, cache)
         | (Some (Inl e), cache) \<Rightarrow> remove_cidrs env self_key subnets cidrs cache
         | (Some (Inr expanded), cache) \<Rightarrow> remove_cidrs env self_key subnets (fold push_new expanded cidrs) cache))"

definition cidr_network :: "ipnet_lib \<Rightarrow> ip_net \<Rightarrow> ip_addr" where
  "cidr_network L cidr =
     (case cidr of NetV4 _ _ \<Rightarrow> AddrV4 (ucast (lib_network L cidr)) | NetV6 _ _ \<Rightarrow> AddrV6 (lib_network L cidr))"

definition cidr_route :: "ckr_env \<Rightarrow> string \<Rightarrow> u8 option \<Rightarrow> ip_net \<Rightarrow> sys_route" where
  "cidr_route env tun_name route_table cidr =
     \<lparr>sr_network = cidr_network (ce_ipnet env) cidr, sr_prefix_len = net_prefix_len cidr, sr_if_name = tun_name,
      sr_table = (if ce_linux env then route_table else None)\<rparr>"

text \<open>The route manager is the crate \<open>route_manager\<close>: adding or deleting a route of the system either
  fails or gives the new routes. \<open>manager\<close> is the outcome of \<open>RouteManager::new\<close>. A route that is
  refused is only logged.\<close>

record route_manager =
  rm_add :: "sys_route \<Rightarrow> sys_route set \<Rightarrow> string + sys_route set"
  rm_delete :: "sys_route \<Rightarrow> sys_route set \<Rightarrow> string + sys_route set"

definition add_route :: "route_manager \<Rightarrow> sys_route \<Rightarrow> sys_route set \<Rightarrow> sys_route set" where
  "add_route m route sys = (case rm_add m route sys of Inr sys \<Rightarrow> sys | Inl _ \<Rightarrow> sys)"

definition delete_route :: "route_manager \<Rightarrow> sys_route \<Rightarrow> sys_route set \<Rightarrow> sys_route set" where
  "delete_route m route sys = (case rm_delete m route sys of Inr sys \<Rightarrow> sys | Inl _ \<Rightarrow> sys)"

definition install_routes :: "ckr_env \<Rightarrow> string + route_manager \<Rightarrow> tunnel_routing_config \<Rightarrow> string \<Rightarrow> public_key \<Rightarrow> u8 option \<Rightarrow>
    route_file_cache \<Rightarrow> sys_route set \<Rightarrow> ((string + unit) \<times> sys_route set) option \<times> route_file_cache" where
  "install_routes env manager config tun_name self_key route_table cache sys =
     (if \<not> tr_enable config \<or> \<not> tr_install_system_routes config then (Some (Inr (), sys), cache)
      else
        (case install_cidrs env self_key (tr_remote_subnets config) [] cache of
           (None, cache) \<Rightarrow> (None, cache)
         | (Some (Inl e), cache) \<Rightarrow> (Some (Inl e, sys), cache)
         | (Some (Inr cidrs), cache) \<Rightarrow>
             if cidrs = [] then (Some (Inr (), sys), cache)
             else
               (case manager of
                  Inl e \<Rightarrow> (Some (Inl (''failed to create route manager: '' @ e), sys), cache)
                | Inr m \<Rightarrow> (Some (Inr (), fold (\<lambda>cidr. add_route m (cidr_route env tun_name route_table cidr)) cidrs sys), cache))))"

definition remove_routes :: "ckr_env \<Rightarrow> string + route_manager \<Rightarrow> tunnel_routing_config \<Rightarrow> string \<Rightarrow> public_key \<Rightarrow> u8 option \<Rightarrow>
    route_file_cache \<Rightarrow> sys_route set \<Rightarrow> sys_route set option \<times> route_file_cache" where
  "remove_routes env manager config tun_name self_key route_table cache sys =
     (if \<not> tr_enable config \<or> \<not> tr_install_system_routes config then (Some sys, cache)
      else
        (case remove_cidrs env self_key (tr_remote_subnets config) [] cache of
           (None, cache) \<Rightarrow> (None, cache)
         | (Some cidrs, cache) \<Rightarrow>
             (case manager of
                Inl e \<Rightarrow> (Some sys, cache)
              | Inr m \<Rightarrow> (Some (fold (\<lambda>cidr. delete_route m (cidr_route env tun_name route_table cidr)) cidrs sys), cache))))"

section \<open>Longest prefix match\<close>

text \<open>What a table holds for a prefix length and a masked address.\<close>

definition rt_route :: "route_table \<Rightarrow> u8 \<Rightarrow> u128 \<Rightarrow> public_key option" where
  "rt_route rt l k = hm_get (level_of (rt_levels rt) l) k"

abbreviation levels_ok :: "route_levels \<Rightarrow> bool" where
  "levels_ok ls \<equiv> sorted_wrt (\<lambda>a b. fst b < fst a) ls"

lemma level_of_update: "level_of (level_update l f ls) l' = (if l' = l then f (level_of ls l) else level_of ls l')" if "levels_ok ls"
  using that
proof (induction l f ls rule: level_update.induct)
  case (1 l f)
  show ?case by (simp add: level_of_def)
next
  case (2 l f k m ls)
  have "map_of ls l = None" if "k < l"
    using 2(2) that by (force simp: map_of_eq_None_iff)
  then show ?case using 2 by (auto simp: level_of_def)
qed

lemma level_update_keys: "fst ` set (level_update l f ls) = insert l (fst ` set ls)"
  by (induction l f ls rule: level_update.induct) auto

lemma levels_ok_update: "levels_ok ls \<Longrightarrow> levels_ok (level_update l f ls)"
proof (induction l f ls rule: level_update.induct)
  case (1 l f)
  show ?case by simp
next
  case (2 l f k m ls)
  have keys: "fst x < k" if "x \<in> set (level_update l f ls)" "l < k" for x
  proof -
    have "fst x \<in> insert l (fst ` set ls)" using that(1) level_update_keys [of l f ls] by blast
    then show ?thesis using that(2) 2(2) by auto
  qed
  consider "l = k" | "k < l" | "l < k" by (rule linorder_cases [of l k])
  then show ?case
  proof cases
    case 1
    then show ?thesis using 2(2) by simp
  next
    case 2
    then show ?thesis using \<open>levels_ok ((k, m) # ls)\<close> by auto
  next
    case 3
    then show ?thesis using 2 keys by auto
  qed
qed

text \<open>The level at which each prefix length is looked up, one probe per length.\<close>

definition probe :: "route_levels \<Rightarrow> nat \<Rightarrow> u128 \<Rightarrow> u8 \<Rightarrow> public_key option" where
  "probe ls w a l = hm_get (level_of ls l) (mask_addr a l w)"

lemma probe_Cons:
  assumes "levels_ok ((k, m) # ls)"
  shows "probe ((k, m) # ls) w a l = (if l = k then hm_get m (mask_addr a k w) else probe ls w a l)"
    and "k \<le> l \<Longrightarrow> probe ls w a l = None"
proof -
  show "probe ((k, m) # ls) w a l = (if l = k then hm_get m (mask_addr a k w) else probe ls w a l)"
    by (simp add: probe_def level_of_def)
  assume "k \<le> l"
  then have "map_of ls l = None" using assms by (force simp: map_of_eq_None_iff)
  then show "probe ls w a l = None" by (simp add: probe_def level_of_def)
qed

lemma get_levels_probe:
  assumes "levels_ok ls"
  shows "(get_levels w a ls = Some d \<longleftrightarrow> (\<exists>l. probe ls w a l = Some d \<and> (\<forall>l' > l. probe ls w a l' = None))) \<and>
    (get_levels w a ls = None \<longleftrightarrow> (\<forall>l. probe ls w a l = None))"
  using assms
proof (induction ls)
  case Nil
  show ?case by (simp add: probe_def level_of_def)
next
  case (Cons x ls)
  obtain k m where x: "x = (k, m)" by (cases x)
  note pc = probe_Cons [OF Cons.prems [unfolded x]]
  show ?case
  proof (cases "hm_get m (mask_addr a k w)")
    case None
    then have "probe (x # ls) w a = probe ls w a" using pc by (auto simp: x fun_eq_iff)
    then show ?thesis using Cons None by (simp add: x)
  next
    case (Some e)
    then have "probe (x # ls) w a k = Some e" "\<And>l. k < l \<Longrightarrow> probe (x # ls) w a l = None"
      using pc by (auto simp: x)
    then have "(\<exists>l. probe (x # ls) w a l = Some d \<and> (\<forall>l' > l. probe (x # ls) w a l' = None)) \<longleftrightarrow> e = d"
      by (metis linorder_neqE option.distinct(1) option.inject)
    then show ?thesis using Some \<open>probe (x # ls) w a k = Some e\<close> by (auto simp: x)
  qed
qed

section \<open>Tables after a list of insertions\<close>

definition rt_insert_all :: "ipnet_lib \<Rightarrow> (ip_net \<times> public_key) list \<Rightarrow> route_table \<Rightarrow> route_table" where
  "rt_insert_all L ins rt = fold (\<lambda>(n, d) rt. snd (rt_insert L n d rt)) ins rt"

text \<open>The insertion that a table answers with: the longest prefix, the last one inserted of these.\<close>

definition better_route :: "nat \<Rightarrow> ip_net \<times> public_key \<Rightarrow> (ip_net \<times> public_key) option \<Rightarrow> (ip_net \<times> public_key) option" where
  "better_route a r best =
     (if a \<in> net_span (fst r) \<and> (case best of None \<Rightarrow> True | Some b \<Rightarrow> net_prefix_len (fst b) \<le> net_prefix_len (fst r))
      then Some r else best)"

definition best_route :: "(ip_net \<times> public_key) list \<Rightarrow> nat \<Rightarrow> (ip_net \<times> public_key) option" where
  "best_route ins a = fold (better_route a) ins None"

lemma net_bits_len: "net_bits n = w \<Longrightarrow> w \<le> 128"
  by (cases n) auto

lemma mask_addr_low:
  assumes "unat l \<le> w" "w \<le> 128" "unat a < 2 ^ w"
  shows "unat (mask_addr a l w) = net_low w (unat l) (unat a)"
proof (cases "l = 0")
  case True
  then show ?thesis using assms(3) by (simp add: mask_addr_def net_low_def)
next
  case False
  let ?s = "w - unat l"
  have "0 < unat l" using False by (simp add: unat_gt_0)
  then have "?s < 128" using assms(2) by linarith
  have "unat (push_bit ?s (drop_bit ?s a)) = take_bit 128 (push_bit ?s (drop_bit ?s (unat a)))"
    using take_bit_nat_eq_self [of "unat a" 128] unsigned_less [of a, where ?'a = nat]
    by (simp add: unsigned_push_bit_eq unsigned_drop_bit_eq)
  also have "push_bit ?s (drop_bit ?s (unat a)) = unat a div 2 ^ ?s * 2 ^ ?s" by (simp add: push_bit_eq_mult drop_bit_eq_div)
  also have "take_bit 128 (unat a div 2 ^ ?s * 2 ^ ?s) = unat a div 2 ^ ?s * 2 ^ ?s"
  proof (rule take_bit_nat_eq_self)
    have "unat a div 2 ^ ?s * 2 ^ ?s \<le> unat a" by simp
    also have "\<dots> < 2 ^ 128" using unsigned_less [of a, where ?'a = nat] by simp
    finally show "unat a div 2 ^ ?s * 2 ^ ?s < 2 ^ 128" .
  qed
  finally show ?thesis using False by (simp add: mask_addr_def net_low_def Let_def)
qed

lemma block_div_iff:
  fixes a m q :: nat
  assumes "0 < m"
  shows "a \<in> {m * q..<m * q + m} \<longleftrightarrow> a div m = q"
proof
  assume "a \<in> {m * q..<m * q + m}"
  then show "a div m = q" by (auto intro!: div_nat_eqI simp: mult.commute)
next
  assume "a div m = q"
  then have "m * q + a mod m = a" "a mod m < m" using assms mult_div_mod_eq [of m a] by auto
  then show "a \<in> {m * q..<m * q + m}" by (simp only: atLeastLessThan_iff) linarith
qed

lemma in_net_span_iff:
  assumes "net_canon w n"
  shows "a \<in> net_span n \<longleftrightarrow> net_low w (unat (net_prefix_len n)) a = net_lo n"
proof -
  let ?k = "net_size n"
  have k: "w - unat (net_prefix_len n) = ?k" using assms by (simp add: net_canon_def net_size_def)
  obtain q where q: "net_lo n = 2 ^ ?k * q" using net_lo_aligned by (metis dvdE)
  have "a \<in> net_span n \<longleftrightarrow> a div 2 ^ ?k = q"
    unfolding net_span_block q by (rule block_div_iff) simp
  then show ?thesis unfolding net_low_def k q by (simp add: mult.commute)
qed

lemma rt_insert_probe:
  assumes "ipnet_lib_ok L" "net_canon (rt_bits rt) n" "levels_ok (rt_levels rt)" "unat a < 2 ^ rt_bits rt"
  shows "rt_bits (snd (rt_insert L n d rt)) = rt_bits rt" "levels_ok (rt_levels (snd (rt_insert L n d rt)))"
    "probe (rt_levels (snd (rt_insert L n d rt))) (rt_bits rt) a l =
       (if l = net_prefix_len n \<and> unat a \<in> net_span n then Some d else probe (rt_levels rt) (rt_bits rt) a l)"
proof -
  let ?w = "rt_bits rt" and ?l = "net_prefix_len n"
  have n: "net_bits n = ?w" "net_wf n" using assms(2) by (auto simp: net_canon_def)
  have w: "?w \<le> 128" by (rule net_bits_len [OF n(1)])
  have nw: "unat (lib_network L n) = net_lo n" using assms(1) n(2) by (simp add: ipnet_lib_ok_def)
  have lt: "net_lo n < 2 ^ ?w" using net_lo_le_hi [of n] net_hi_less [OF n(2)] n(1) by simp
  have "net_lo n \<in> net_span n" by (simp add: net_span_block)
  then have key: "unat (mask_addr (lib_network L n) ?l ?w) = net_lo n"
    using mask_addr_low [of ?l ?w "lib_network L n"] n w nw lt in_net_span_iff [OF assms(2)] by simp
  have "mask_addr (lib_network L n) ?l ?w = mask_addr a ?l ?w \<longleftrightarrow> unat a \<in> net_span n"
    unfolding word_unat_eq_iff key in_net_span_iff [OF assms(2)]
    using mask_addr_low [of ?l ?w a] n w assms(4) by (simp add: eq_commute)
  then show "probe (rt_levels (snd (rt_insert L n d rt))) ?w a l =
      (if l = ?l \<and> unat a \<in> net_span n then Some d else probe (rt_levels rt) ?w a l)"
    using assms(3) by (auto simp: rt_insert_def Let_def probe_def level_of_update)
  show "rt_bits (snd (rt_insert L n d rt)) = ?w" "levels_ok (rt_levels (snd (rt_insert L n d rt)))"
    using assms(3) by (simp_all add: rt_insert_def Let_def levels_ok_update)
qed

text \<open>\<open>table_of w rt ins\<close>: the table is one of width \<open>w\<close> and answers for every address with the best of
  the insertions \<open>ins\<close>.\<close>

definition answers :: "route_levels \<Rightarrow> nat \<Rightarrow> u128 \<Rightarrow> (ip_net \<times> public_key) option \<Rightarrow> bool" where
  "answers ls w a best \<longleftrightarrow>
     (case best of
        None \<Rightarrow> \<forall>l. probe ls w a l = None
      | Some (n, d) \<Rightarrow> probe ls w a (net_prefix_len n) = Some d \<and> (\<forall>l > net_prefix_len n. probe ls w a l = None))"

definition table_of :: "nat \<Rightarrow> route_table \<Rightarrow> (ip_net \<times> public_key) list \<Rightarrow> bool" where
  "table_of w rt ins \<longleftrightarrow> rt_bits rt = w \<and> levels_ok (rt_levels rt) \<and> (\<forall>r \<in> set ins. net_canon w (fst r)) \<and>
     (\<forall>a. unat a < 2 ^ w \<longrightarrow> answers (rt_levels rt) w a (best_route ins (unat a)))"

lemma table_of_new: "table_of w (rt_new w) []"
  by (simp add: table_of_def rt_new_def answers_def best_route_def probe_def level_of_def)

lemma table_of_insert:
  assumes "ipnet_lib_ok L" "net_canon w n" "table_of w rt ins"
  shows "table_of w (snd (rt_insert L n d rt)) (ins @ [(n, d)])"
proof -
  have rt: "rt_bits rt = w" "levels_ok (rt_levels rt)" using assms(3) by (auto simp: table_of_def)
  have "answers (rt_levels (snd (rt_insert L n d rt))) w a (best_route (ins @ [(n, d)]) (unat a))" if "unat a < 2 ^ w" for a
  proof -
    note pr = rt_insert_probe(3) [OF assms(1) assms(2) [folded rt(1)] rt(2) that [folded rt(1)], unfolded rt(1)]
    have old: "answers (rt_levels rt) w a (best_route ins (unat a))" using assms(3) that by (simp add: table_of_def)
    show ?thesis
      using old by (auto simp: answers_def pr best_route_def better_route_def not_le split: option.splits)
  qed
  then show ?thesis
    using rt_insert_probe(1,2) [OF assms(1) assms(2) [folded rt(1)] rt(2), of 0] assms(2,3) rt by (auto simp: table_of_def)
qed

lemma rt_get_best:
  assumes "table_of w rt ins" "unat a < 2 ^ w"
  shows "rt_get rt a = map_option snd (best_route ins (unat a))"
proof -
  have rt: "rt_bits rt = w" "levels_ok (rt_levels rt)" "answers (rt_levels rt) w a (best_route ins (unat a))"
    using assms by (auto simp: table_of_def)
  note g = get_levels_probe [OF rt(2), of w a]
  show ?thesis
  proof (cases "best_route ins (unat a)")
    case None
    then show ?thesis using rt g by (simp add: rt_get_def answers_def)
  next
    case (Some r)
    then show ?thesis using rt(1,3) g [of "snd r"] by (auto simp: rt_get_def answers_def split: prod.splits)
  qed
qed

lemma table_of_insert_all:
  "ipnet_lib_ok L \<Longrightarrow> \<forall>r \<in> set ins. net_canon w (fst r) \<Longrightarrow> table_of w rt js \<Longrightarrow> table_of w (rt_insert_all L ins rt) (js @ ins)"
proof (induction ins arbitrary: rt js)
  case Nil
  then show ?case by (simp add: rt_insert_all_def)
next
  case (Cons r ins)
  obtain n d where r: "r = (n, d)" by (cases r)
  have "table_of w (snd (rt_insert L n d rt)) (js @ [(n, d)])" using Cons.prems by (intro table_of_insert) (auto simp: r)
  from Cons.IH [OF Cons.prems(1) _ this] show ?case using Cons.prems(2) by (simp add: rt_insert_all_def r)
qed

lemma best_route_snoc: "best_route (ins @ [r]) a = better_route a r (best_route ins a)"
  by (simp add: best_route_def)

lemma best_route_None: "best_route ins a = None \<longleftrightarrow> (\<forall>r \<in> set ins. a \<notin> net_span (fst r))"
  by (induction ins rule: rev_induct) (auto simp: best_route_snoc better_route_def best_route_def [of "[]"] split: option.splits)

lemma best_route_mem: "best_route ins a = Some r \<Longrightarrow> r \<in> set ins \<and> a \<in> net_span (fst r)"
  by (induction ins rule: rev_induct) (auto simp: best_route_snoc better_route_def best_route_def [of "[]"] split: if_splits)

lemma best_route_longest:
  "best_route ins a = Some r \<Longrightarrow> q \<in> set ins \<Longrightarrow> a \<in> net_span (fst q) \<Longrightarrow> net_prefix_len (fst q) \<le> net_prefix_len (fst r)"
proof (induction ins arbitrary: r rule: rev_induct)
  case Nil
  then show ?case by simp
next
  case (snoc x ins)
  have "best_route ins a \<noteq> None" if "q \<in> set ins" using that snoc.prems(3) best_route_None by auto
  then show ?case using snoc by (fastforce simp: best_route_snoc better_route_def split: if_splits option.splits)
qed

text \<open>C25. A table answers with the destination of a longest matching prefix: for an address that some
  inserted network contains, the answer is the destination of an inserted network that contains it,
  and no inserted network that contains it has a longer prefix; for other addresses there is no
  answer.\<close>

theorem rt_get_longest_prefix:
  assumes "ipnet_lib_ok L" "\<forall>r \<in> set ins. net_canon w (fst r)" "unat a < 2 ^ w"
  shows "(rt_get (rt_insert_all L ins (rt_new w)) a = None \<longleftrightarrow> (\<forall>r \<in> set ins. unat a \<notin> net_span (fst r))) \<and>
    (\<forall>d. rt_get (rt_insert_all L ins (rt_new w)) a = Some d \<longrightarrow>
      (\<exists>n. (n, d) \<in> set ins \<and> unat a \<in> net_span n \<and>
        (\<forall>q \<in> set ins. unat a \<in> net_span (fst q) \<longrightarrow> net_prefix_len (fst q) \<le> net_prefix_len n)))"
proof -
  have "table_of w (rt_insert_all L ins (rt_new w)) ins"
    using table_of_insert_all [OF assms(1,2) table_of_new] by simp
  from rt_get_best [OF this assms(3)] show ?thesis
    using best_route_None [of ins "unat a"] best_route_mem [of ins "unat a"] best_route_longest [of ins "unat a"]
    by (auto simp del: split_paired_All)
qed

theorem rt_get_longest_prefix_witness:
  "\<exists>d. rt_get (rt_insert_all (sample_ipnet Inl) [(NetV4 0 0, [1]), (NetV4 0x0A000000 8, [2])] (rt_new 32)) 0x0A010203 = Some d"
proof -
  have "\<forall>r \<in> set [(NetV4 0 0, [1]), (NetV4 0x0A000000 8, [2])]. net_canon 32 (fst r)"
    by (simp add: net_canon_def net_lo_def net_low_def)
  from rt_get_longest_prefix [OF sample_ipnet_ok this, where a = "0x0A010203"] show ?thesis
    by (auto simp: net_span_def net_lo_def net_hi_def net_low_def net_high_def)
qed

section \<open>From the configuration to the tables\<close>

text \<open>What the entries of one key ask for.\<close>

definition wants :: "cidr_sets \<Rightarrow> ip_addr \<Rightarrow> bool" where
  "wants cs a \<longleftrightarrow>
     (\<exists>n \<in> set (cs_v4_inc cs @ cs_v6_inc cs). net_has n a) \<and> \<not> (\<exists>n \<in> set (cs_v4_exc cs @ cs_v6_exc cs). net_has n a)"

fun route_plan :: "ckr_env \<Rightarrow> public_key \<Rightarrow> (string \<times> string list) list \<Rightarrow> route_file_cache \<Rightarrow> (public_key \<times> cidr_sets) list" where
  "route_plan env self_key [] cache = []"
| "route_plan env self_key ((pubkey_hex, cidrs) # subnets) cache =
     (case parse_pubkey env pubkey_hex of
        Inl _ \<Rightarrow> []
      | Inr dest \<Rightarrow>
          if dest = self_key then route_plan env self_key subnets cache
          else
            (case collect_cidrs env (ckr_entries env pubkey_hex cidrs) cache of
               (Inl _, _) \<Rightarrow> []
             | (Inr cs, cache) \<Rightarrow> (dest, cs) # route_plan env self_key subnets cache))"

definition sets_ok :: "cidr_sets \<Rightarrow> bool" where
  "sets_ok cs \<longleftrightarrow> (\<forall>n \<in> set (cs_v4_inc cs @ cs_v4_exc cs). net_bits n = 32 \<and> unat (net_prefix_len n) \<le> 32) \<and>
     (\<forall>n \<in> set (cs_v6_inc cs @ cs_v6_exc cs). net_bits n = 128 \<and> unat (net_prefix_len n) \<le> 128)"

lemma trunc_keeps:
  assumes "ipnet_lib_ok L" "net_wf n"
  shows "net_bits (lib_trunc L n) = net_bits n" "net_prefix_len (lib_trunc L n) = net_prefix_len n"
  using assms by (cases n; simp add: ipnet_lib_ok_def)+

lemma add_cidr_ok: "sets_ok cs \<Longrightarrow> net_wf n \<Longrightarrow> sets_ok (add_cidr x n cs)"
  by (cases n; cases x) (auto simp: sets_ok_def add_cidr_def)

lemma parse_entries_ok:
  "ipnet_lib_ok L \<Longrightarrow> parse_entries L raws cs = Inr cs' \<Longrightarrow> sets_ok cs \<Longrightarrow> sets_ok cs'"
proof (induction raws arbitrary: cs)
  case (Cons raw raws)
  obtain x c where sp: "split_exclude raw = (x, c)" by (cases "split_exclude raw")
  then obtain p where p: "lib_parse L (cidr_for_parse c) = Inr p" "parse_entries L raws (add_cidr x (lib_trunc L p) cs) = Inr cs'"
    using Cons.prems(2) by (auto split: sum.splits)
  have "net_wf p" using Cons.prems(1) p(1) by (auto simp: ipnet_lib_ok_def)
  then have "net_wf (lib_trunc L p)" using trunc_keeps [OF Cons.prems(1)] by simp
  then show ?case using Cons.IH [OF Cons.prems(1) p(2)] add_cidr_ok Cons.prems(3) by blast
qed simp

lemma collect_cidrs_ok: "ipnet_lib_ok (ce_ipnet env) \<Longrightarrow> collect_cidrs env es cache = (Inr cs, cache') \<Longrightarrow> sets_ok cs"
  by (auto simp: collect_cidrs_def sets_ok_def split: prod.splits sum.splits dest!: parse_entries_ok)

text \<open>The expansion of the four lists covers exactly what the entries ask for.\<close>

definition net_own :: "ip_net \<Rightarrow> bool" where
  "net_own n \<longleftrightarrow> net_canon (net_bits n) n"

lemma net_has_span: "net_has n a \<longleftrightarrow> same_family n a \<and> unat (addr_bits a) \<in> net_span n"
  by (auto simp: net_has_def net_span_def)

lemma same_family_bits: "net_bits m = net_bits n \<Longrightarrow> same_family m a = same_family n a"
  by (cases m; cases n; cases a) (simp_all add: same_family_def)

lemma subtract_many_has:
  assumes "ipnet_lib_ok L" "net_wf inc" "\<forall>e \<in> set exs. net_wf e \<and> net_bits e = net_bits inc"
  obtains ns where "subtract_many L inc (merge_excludes L exs) = Some ns" "\<And>n. n \<in> set ns \<Longrightarrow> net_own n"
    "\<And>a. (\<exists>n \<in> set ns. net_has n a) \<longleftrightarrow> net_has inc a \<and> \<not> (\<exists>e \<in> set exs. net_has e a)"
proof -
  obtain ns where ns: "subtract_many L inc (merge_excludes L exs) = Some ns" "\<And>n. n \<in> set ns \<Longrightarrow> net_canon (net_bits inc) n"
    "(\<Union>n \<in> set ns. net_span n) = net_span inc - (\<Union>e \<in> set exs. net_span e)"
  proof -
    have "\<forall>e \<in> set exs. net_wf e" using assms(3) by blast
    from subtract_exact_nets [OF assms(1,2) this] show ?thesis using that by (auto simp: exact_nets_def)
  qed
  have fam: "same_family n a = same_family inc a" if "n \<in> set ns \<or> n \<in> set exs" for n a
    using that ns(2) assms(3) by (intro same_family_bits) (auto simp: net_canon_def)
  have "(\<exists>n \<in> set ns. net_has n a) \<longleftrightarrow> net_has inc a \<and> \<not> (\<exists>e \<in> set exs. net_has e a)" for a
  proof -
    have "unat (addr_bits a) \<in> (\<Union>n \<in> set ns. net_span n) \<longleftrightarrow>
        unat (addr_bits a) \<in> net_span inc - (\<Union>e \<in> set exs. net_span e)" using ns(3) by simp
    then show ?thesis using fam unfolding net_has_span by auto
  qed
  moreover have "net_own n" if "n \<in> set ns" for n using ns(2) [OF that] by (auto simp: net_own_def net_canon_def)
  ultimately show thesis using that ns(1) by blast
qed

lemma subtract_all_has:
  assumes "ipnet_lib_ok L" "\<forall>e \<in> set exs. net_wf e \<and> net_bits e = w" "\<forall>n \<in> set incs. net_wf n \<and> net_bits n = w"
  shows "\<exists>ns. subtract_all L incs (merge_excludes L exs) out = Some (out @ ns) \<and> (\<forall>n \<in> set ns. net_own n) \<and>
    (\<forall>a. (\<exists>n \<in> set ns. net_has n a) \<longleftrightarrow> (\<exists>n \<in> set incs. net_has n a) \<and> \<not> (\<exists>e \<in> set exs. net_has e a))"
  using assms(3)
proof (induction incs arbitrary: out)
  case Nil
  show ?case by simp
next
  case (Cons inc incs)
  have inc: "net_wf inc" "\<forall>e \<in> set exs. net_wf e \<and> net_bits e = net_bits inc" using Cons.prems assms(2) by auto
  obtain ms where ms: "subtract_many L inc (merge_excludes L exs) = Some ms" "\<And>n. n \<in> set ms \<Longrightarrow> net_own n"
    "\<And>a. (\<exists>n \<in> set ms. net_has n a) \<longleftrightarrow> net_has inc a \<and> \<not> (\<exists>e \<in> set exs. net_has e a)"
    by (rule subtract_many_has [OF assms(1) inc]) blast
  obtain ns where ns: "subtract_all L incs (merge_excludes L exs) (out @ ms) = Some ((out @ ms) @ ns)" "\<forall>n \<in> set ns. net_own n"
    "\<And>a. (\<exists>n \<in> set ns. net_has n a) \<longleftrightarrow> (\<exists>n \<in> set incs. net_has n a) \<and> \<not> (\<exists>e \<in> set exs. net_has e a)"
  proof -
    have "\<forall>n \<in> set incs. net_wf n \<and> net_bits n = w" using Cons.prems by auto
    from Cons.IH [OF this, of "out @ ms"] show ?thesis using that by blast
  qed
  have "(\<exists>n \<in> set (ms @ ns). net_has n a) \<longleftrightarrow> (\<exists>n \<in> set (inc # incs). net_has n a) \<and> \<not> (\<exists>e \<in> set exs. net_has e a)" for a
    using ms(3) [of a] ns(3) [of a] by auto
  then show ?case using ms(1,2) ns(1,2) by (intro exI [of _ "ms @ ns"]) auto
qed

lemma net_has_v4: "net_bits n = 32 \<Longrightarrow> net_has n a \<Longrightarrow> \<exists>x. a = AddrV4 x"
  by (cases n; cases a) (auto simp: net_has_def same_family_def)

lemma net_has_v6: "net_bits n = 128 \<Longrightarrow> net_has n a \<Longrightarrow> \<exists>x. a = AddrV6 x"
  by (cases n; cases a) (auto simp: net_has_def same_family_def)

lemma expand_sets_has:
  assumes "ipnet_lib_ok L" "sets_ok cs"
  shows "\<exists>ns. expand_sets L cs = Some ns \<and> (\<forall>n \<in> set ns. net_own n) \<and> (\<forall>a. (\<exists>n \<in> set ns. net_has n a) \<longleftrightarrow> wants cs a)"
proof -
  obtain n4 where n4: "subtract_all L (cs_v4_inc cs) (merge_excludes L (cs_v4_exc cs)) [] = Some ([] @ n4)" "\<forall>n \<in> set n4. net_own n"
    "\<And>a. (\<exists>n \<in> set n4. net_has n a) \<longleftrightarrow> (\<exists>n \<in> set (cs_v4_inc cs). net_has n a) \<and> \<not> (\<exists>e \<in> set (cs_v4_exc cs). net_has e a)"
    using subtract_all_has [OF assms(1), of "cs_v4_exc cs" 32 "cs_v4_inc cs" "[]"] assms(2) by (auto simp: sets_ok_def)
  obtain n6 where n6: "subtract_all L (cs_v6_inc cs) (merge_excludes L (cs_v6_exc cs)) n4 = Some (n4 @ n6)" "\<forall>n \<in> set n6. net_own n"
    "\<And>a. (\<exists>n \<in> set n6. net_has n a) \<longleftrightarrow> (\<exists>n \<in> set (cs_v6_inc cs). net_has n a) \<and> \<not> (\<exists>e \<in> set (cs_v6_exc cs). net_has e a)"
    using subtract_all_has [OF assms(1), of "cs_v6_exc cs" 128 "cs_v6_inc cs" n4] assms(2) by (auto simp: sets_ok_def)
  have v4: "net_has n a \<Longrightarrow> \<exists>x. a = AddrV4 x" if "n \<in> set (cs_v4_inc cs @ cs_v4_exc cs)" for n a
    using assms(2) that unfolding sets_ok_def by (intro net_has_v4) blast+
  have v6: "net_has n a \<Longrightarrow> \<exists>x. a = AddrV6 x" if "n \<in> set (cs_v6_inc cs @ cs_v6_exc cs)" for n a
    using assms(2) that unfolding sets_ok_def by (intro net_has_v6) blast+
  have "(\<exists>n \<in> set (n4 @ n6). net_has n a) \<longleftrightarrow> wants cs a" for a
  proof (cases a)
    case (AddrV4 x)
    then have "\<not> net_has n a" if "n \<in> set (cs_v6_inc cs @ cs_v6_exc cs)" for n using v6 [OF that, of a] by auto
    then show ?thesis using n4(3) [of a] n6(3) [of a] by (auto simp: wants_def)
  next
    case (AddrV6 x)
    then have "\<not> net_has n a" if "n \<in> set (cs_v4_inc cs @ cs_v4_exc cs)" for n using v4 [OF that, of a] by auto
    then show ?thesis using n4(3) [of a] n6(3) [of a] by (auto simp: wants_def)
  qed
  then show ?thesis using n4 n6 by (intro exI [of _ "n4 @ n6"]) (auto simp: expand_sets_def)
qed

section \<open>The tables of a configuration\<close>

text \<open>The insertions of a plan: the networks of each key, in order. \<open>routes_of\<close> relates them to the plan.\<close>

definition plan_of :: "(ip_net \<times> public_key) list \<Rightarrow> (public_key \<times> cidr_sets) list \<Rightarrow> bool" where
  "plan_of ins plan \<longleftrightarrow> (\<forall>d a. (\<exists>n. (n, d) \<in> set ins \<and> net_has n a) \<longleftrightarrow> (\<exists>cs. (d, cs) \<in> set plan \<and> wants cs a))"

definition tables_of :: "route_table \<times> route_table \<Rightarrow> (ip_net \<times> public_key) list \<Rightarrow> bool" where
  "tables_of tabs ins \<longleftrightarrow>
     table_of 32 (fst tabs) (filter (\<lambda>r. net_bits (fst r) = 32) ins) \<and>
     table_of 128 (snd tabs) (filter (\<lambda>r. net_bits (fst r) = 128) ins)"

lemma tables_of_insert:
  assumes "ipnet_lib_ok L" "net_own p" "tables_of (v4, v6) ins"
  shows "net_bits p = 32 \<Longrightarrow> tables_of (snd (rt_insert L p d v4), v6) (ins @ [(p, d)])"
    and "net_bits p = 128 \<Longrightarrow> tables_of (v4, snd (rt_insert L p d v6)) (ins @ [(p, d)])"
  using assms by (auto simp: tables_of_def net_own_def intro!: table_of_insert)

lemma insert_prefixes_tables:
  assumes "ipnet_lib_ok L"
  shows "insert_prefixes L px d ps (v4, v6) = Inr tabs \<Longrightarrow> \<forall>n \<in> set ps. net_own n \<Longrightarrow> tables_of (v4, v6) ins \<Longrightarrow>
    tables_of tabs (ins @ map (\<lambda>n. (n, d)) ps)"
proof (induction ps arbitrary: v4 v6 ins)
  case (Cons p ps)
  show ?case
  proof (cases p)
    case (NetV4 a l)
    then have "tables_of (snd (rt_insert L p d v4), v6) (ins @ [(p, d)])"
      using Cons.prems by (intro tables_of_insert [OF assms]) simp_all
    from Cons.IH [OF _ _ this] show ?thesis using Cons.prems NetV4 by simp
  next
    case (NetV6 a l)
    then have "tables_of (v4, snd (rt_insert L p d v6)) (ins @ [(p, d)])"
      using Cons.prems by (intro tables_of_insert [OF assms]) simp_all
    from Cons.IH [OF _ _ this] show ?thesis using Cons.prems NetV6 by (simp split: if_splits)
  qed
qed simp

lemma plan_of_append: "plan_of ins p \<Longrightarrow> plan_of js q \<Longrightarrow> plan_of (ins @ js) (p @ q)"
  unfolding plan_of_def by (simp add: ex_disj_distrib conj_disj_distribR)

lemma plan_of_key:
  "(\<And>a. (\<exists>n \<in> set ns. net_has n a) \<longleftrightarrow> wants cs a) \<Longrightarrow> plan_of (map (\<lambda>n. (n, d)) ns) [(d, cs)]"
  by (auto simp: plan_of_def image_iff)

lemma build_tables_exact:
  assumes "ipnet_lib_ok (ce_ipnet env)"
  shows "tables_of (v4, v6) ins \<Longrightarrow> \<exists>r cache'. build_tables env px self_key subnets (v4, v6) cache = (Some r, cache') \<and>
    (\<forall>tabs. r = Inr tabs \<longrightarrow> (\<exists>js. tables_of tabs (ins @ js) \<and> plan_of js (route_plan env self_key subnets cache)))"
proof (induction subnets arbitrary: v4 v6 ins cache)
  case Nil
  then show ?case by (auto simp: plan_of_def intro!: exI [of _ "[]"])
next
  case (Cons x subnets)
  obtain pk cidrs where x: "x = (pk, cidrs)" by (cases x)
  show ?case
  proof (cases "\<exists>dest cs cache1. parse_pubkey env pk = Inr dest \<and> dest \<noteq> self_key \<and>
      collect_cidrs env (ckr_entries env pk cidrs) cache = (Inr cs, cache1)")
    case False
    then show ?thesis using Cons by (auto simp: x expand_cidrs_def split: sum.splits prod.splits)
  next
    case True
    then obtain dest cs cache1 where d: "parse_pubkey env pk = Inr dest" "dest \<noteq> self_key"
      "collect_cidrs env (ckr_entries env pk cidrs) cache = (Inr cs, cache1)" by blast
    obtain ns where ns: "expand_sets (ce_ipnet env) cs = Some ns" "\<forall>n \<in> set ns. net_own n"
      "\<And>a. (\<exists>n \<in> set ns. net_has n a) \<longleftrightarrow> wants cs a"
      using expand_sets_has [OF assms collect_cidrs_ok [OF assms d(3)]] by blast
    show ?thesis
    proof (cases "insert_prefixes (ce_ipnet env) px dest ns (v4, v6)")
      case (Inl e)
      then show ?thesis using d ns(1) by (simp add: x expand_cidrs_def)
    next
      case (Inr tabs)
      obtain u4 u6 where tabs: "tabs = (u4, u6)" by (cases tabs)
      have "tables_of (u4, u6) (ins @ map (\<lambda>n. (n, dest)) ns)"
        using insert_prefixes_tables [OF assms Inr ns(2) Cons.prems] by (simp add: tabs)
      from Cons.IH [OF this, of cache1] obtain r cache' where r:
        "build_tables env px self_key subnets (u4, u6) cache1 = (Some r, cache')"
        "\<And>tabs. r = Inr tabs \<Longrightarrow> \<exists>js. tables_of tabs (ins @ map (\<lambda>n. (n, dest)) ns @ js) \<and> plan_of js (route_plan env self_key subnets cache1)"
        by auto
      have "build_tables env px self_key (x # subnets) (v4, v6) cache = (Some r, cache')"
        using d ns(1) Inr r(1) by (simp add: x expand_cidrs_def tabs)
      moreover have "plan_of (map (\<lambda>n. (n, dest)) ns @ js) (route_plan env self_key (x # subnets) cache)"
        if "plan_of js (route_plan env self_key subnets cache1)" for js
        using plan_of_append [OF plan_of_key [OF ns(3)] that] d by (simp add: x)
      ultimately show ?thesis using r(2) by fastforce
    qed
  qed
qed

lemma unat_wide: "unat (ucast (x :: u32) :: u128) = unat x"
  using unsigned_less [of x, where ?'a = nat] by (simp add: unsigned_ucast_eq take_bit_nat_eq_self)

lemma family_has_v4: "net_has n (AddrV4 x) \<longleftrightarrow> net_bits n = 32 \<and> unat x \<in> net_span n"
  by (cases n) (simp_all add: net_has_span same_family_def unat_wide)

lemma family_has_v6: "net_has n (AddrV6 x) \<longleftrightarrow> net_bits n = 128 \<and> unat x \<in> net_span n"
  by (cases n) (simp_all add: net_has_span same_family_def)

lemma best_route_family:
  "(best_route (filter (\<lambda>r. net_bits (fst r) = w) ins) x = None \<longleftrightarrow> (\<forall>n d. (n, d) \<in> set ins \<longrightarrow> \<not> (net_bits n = w \<and> x \<in> net_span n))) \<and>
   (map_option snd (best_route (filter (\<lambda>r. net_bits (fst r) = w) ins) x) = Some d \<longrightarrow>
     (\<exists>n. (n, d) \<in> set ins \<and> net_bits n = w \<and> x \<in> net_span n))"
  using best_route_None [of "filter (\<lambda>r. net_bits (fst r) = w) ins" x] best_route_mem [of "filter (\<lambda>r. net_bits (fst r) = w) ins" x]
  by fastforce

lemma tables_answer:
  assumes "tables_of (ck_v4 ck, ck_v6 ck) ins" "\<not> is_yggdrasil_destination px a"
  shows "(get_public_key_for_address px ck a = None \<longleftrightarrow> (\<forall>n d. (n, d) \<in> set ins \<longrightarrow> \<not> net_has n a)) \<and>
    (get_public_key_for_address px ck a = Some d \<longrightarrow> (\<exists>n. (n, d) \<in> set ins \<and> net_has n a))"
proof (cases a)
  case (AddrV4 x)
  have u: "unat (ucast x :: u128) = unat x" "unat x < 2 ^ 32"
    using unsigned_less [of x, where ?'a = nat] by (simp_all add: unat_wide)
  then have "get_public_key_for_address px ck a = map_option snd (best_route (filter (\<lambda>r. net_bits (fst r) = 32) ins) (unat x))"
    using rt_get_best [of 32 "ck_v4 ck" _ "ucast x"] assms(1) by (simp add: get_public_key_for_address_def AddrV4 tables_of_def)
  then show ?thesis using best_route_family [of 32 ins "unat x" d] by (auto simp: AddrV4 family_has_v4)
next
  case (AddrV6 x)
  have "get_public_key_for_address px ck a = map_option snd (best_route (filter (\<lambda>r. net_bits (fst r) = 128) ins) (unat x))"
    using rt_get_best [of 128 "ck_v6 ck"] assms unsigned_less [of x, where ?'a = nat]
    by (simp add: get_public_key_for_address_def AddrV6 tables_of_def)
  then show ?thesis using best_route_family [of 128 ins "unat x" d] by (auto simp: AddrV6 family_has_v6)
qed

text \<open>C18. The routing table that a configuration builds routes exactly what its entries ask for:
  outside the Yggdrasil address space, an address has no route exactly when the entries of no other
  node include it without excluding it, and a route leads to a node whose entries do.\<close>

theorem crypto_key_routes_exact:
  assumes "ipnet_lib_ok (ce_ipnet env)" "tr_enable config"
    "crypto_key_new env px config self_key cache = (Some (Inr ck), cache')" "\<not> is_yggdrasil_destination px a"
  shows "(get_public_key_for_address px ck a = None \<longleftrightarrow>
      (\<forall>(d, cs) \<in> set (route_plan env self_key (tr_remote_subnets config) cache). \<not> wants cs a)) \<and>
    (\<forall>d. get_public_key_for_address px ck a = Some d \<longrightarrow>
      (\<exists>cs. (d, cs) \<in> set (route_plan env self_key (tr_remote_subnets config) cache) \<and> wants cs a))"
proof -
  have "tables_of (rt_new 32, rt_new 128) []" by (simp add: tables_of_def table_of_new)
  from build_tables_exact [OF assms(1) this, of px self_key "tr_remote_subnets config" cache]
  obtain ins where t: "tables_of (ck_v4 ck, ck_v6 ck) ins" and p: "plan_of ins (route_plan env self_key (tr_remote_subnets config) cache)"
    using assms(2,3) by (auto simp: crypto_key_new_def Let_def split: prod.splits sum.splits)
  let ?P = "set (route_plan env self_key (tr_remote_subnets config) cache)"
  have pl: "(\<exists>n. (n, d) \<in> set ins \<and> net_has n a) \<longleftrightarrow> (\<exists>cs. (d, cs) \<in> ?P \<and> wants cs a)" for d
    using p by (simp add: plan_of_def)
  have "get_public_key_for_address px ck a = None \<longleftrightarrow> (\<forall>d cs. (d, cs) \<in> ?P \<longrightarrow> \<not> wants cs a)"
    using tables_answer [OF t assms(4)] pl by blast
  then show ?thesis using tables_answer [OF t assms(4)] pl by auto
qed

text \<open>Building the tables never panics.\<close>

theorem crypto_key_new_returns:
  assumes "ipnet_lib_ok (ce_ipnet env)"
  shows "\<exists>r cache'. crypto_key_new env px config self_key cache = (Some r, cache')"
proof -
  have "tables_of (rt_new 32, rt_new 128) []" by (simp add: tables_of_def table_of_new)
  from build_tables_exact [OF assms this, of px self_key "tr_remote_subnets config" cache] show ?thesis
    by (auto simp: crypto_key_new_def Let_def split: sum.splits)
qed

section \<open>Installed and removed routes\<close>

definition cache_le :: "route_file_cache \<Rightarrow> route_file_cache \<Rightarrow> bool" where
  "cache_le c c' \<longleftrightarrow> (\<forall>p v. hm_get c p = Some v \<longrightarrow> hm_get c' p = Some v)"

lemma cache_le_refl: "cache_le c c"
  by (simp add: cache_le_def)

lemma cache_le_trans: "cache_le a b \<Longrightarrow> cache_le b c \<Longrightarrow> cache_le a c"
  by (simp add: cache_le_def)

lemma cache_le_insert: "hm_get c p = None \<Longrightarrow> cache_le c (hm_insert p v c)"
  by (auto simp: cache_le_def)

lemma resolve_entry_cache: "resolve_entry env e c = (r, c') \<Longrightarrow> cache_le c c'"
  by (auto simp: resolve_entry_def Let_def cache_le_refl cache_le_insert
      split: if_splits prod.splits sum.splits option.splits file_result.splits)

lemma resolve_entries_cache: "resolve_entries env es acc c = (r, c') \<Longrightarrow> cache_le c c'"
proof (induction es arbitrary: acc c)
  case (Cons e es)
  then show ?case
    by (auto split: prod.splits sum.splits dest: resolve_entry_cache intro: cache_le_trans)
qed (simp add: cache_le_refl)

text \<open>What was read once is answered from the cache, whatever the file system has become.\<close>

lemma resolve_entry_again:
  assumes "resolve_entry env e c = (Inr r, c')" "cache_le c' k"
  shows "resolve_entry (env\<lparr>ce_open := f\<rparr>) e k = (Inr r, k)"
proof -
  have "hm_get k p = Some v" if "hm_get c' p = Some v" for p v using assms(2) that by (simp add: cache_le_def)
  then show ?thesis using assms(1)
    by (auto simp: resolve_entry_def Let_def split: if_splits prod.splits sum.splits option.splits file_result.splits)
qed

lemma resolve_entries_again:
  "resolve_entries env es acc c = (Inr r, c') \<Longrightarrow> cache_le c' k \<Longrightarrow> resolve_entries (env\<lparr>ce_open := f\<rparr>) es acc k = (Inr r, k)"
proof (induction es arbitrary: acc c)
  case (Cons e es)
  obtain ls c1 where e: "resolve_entry env e c = (Inr ls, c1)" "resolve_entries env es (acc @ ls) c1 = (Inr r, c')"
    using Cons.prems(1) by (auto split: prod.splits sum.splits)
  have "cache_le c1 k" using resolve_entries_cache [OF e(2)] Cons.prems(2) by (rule cache_le_trans)
  then show ?case using resolve_entry_again [OF e(1)] Cons.IH [OF e(2) Cons.prems(2)] by simp
qed simp

lemma expand_cidrs_cache: "expand_cidrs env es c = (r, c') \<Longrightarrow> cache_le c c'"
  by (auto simp: expand_cidrs_def collect_cidrs_def split: prod.splits sum.splits dest: resolve_entries_cache)

lemma expand_cidrs_again:
  assumes "expand_cidrs env es c = (Some (Inr ns), c')" "cache_le c' k"
  shows "expand_cidrs (env\<lparr>ce_open := f\<rparr>) es k = (Some (Inr ns), k)"
proof -
  obtain rs where "resolve_entries env es [] c = (Inr rs, c')"
    using assms(1) by (auto simp: expand_cidrs_def collect_cidrs_def split: prod.splits sum.splits)
  with resolve_entries_again [OF this assms(2), of f] show ?thesis
    using assms(1) by (auto simp: expand_cidrs_def collect_cidrs_def split: prod.splits sum.splits)
qed

lemma sys_entries_open: "sys_entries (env\<lparr>ce_open := f\<rparr>) pk es = sys_entries env pk es"
  by (simp add: sys_entries_def effective_entries_def get_peer_exclusion_entries_def get_downloaded_virtual_file_entries_def)

lemma install_cidrs_cache: "install_cidrs env self_key ss acc c = (r, c') \<Longrightarrow> cache_le c c'"
proof (induction ss arbitrary: acc c)
  case (Cons s ss)
  then show ?case
    by (cases s) (auto split: if_splits prod.splits sum.splits option.splits dest: expand_cidrs_cache intro: cache_le_trans)
qed (simp add: cache_le_refl)

lemma remove_cidrs_again:
  "install_cidrs env self_key ss acc c = (Some (Inr cidrs), c') \<Longrightarrow> cache_le c' k \<Longrightarrow>
    remove_cidrs (env\<lparr>ce_open := f\<rparr>) self_key ss acc k = (Some cidrs, k)"
proof (induction ss arbitrary: acc c)
  case (Cons s ss)
  obtain pk es where s: "s = (pk, es)" by (cases s)
  have pk: "parse_pubkey (env\<lparr>ce_open := f\<rparr>) pk = parse_pubkey env pk" by (simp add: parse_pubkey_def)
  show ?case
  proof (cases "parse_pubkey env pk = Inr self_key")
    case True
    then show ?thesis using Cons by (simp add: s pk)
  next
    case False
    then obtain ns c1 where e: "expand_cidrs env (sys_entries env pk es) c = (Some (Inr ns), c1)"
      "install_cidrs env self_key ss (fold push_new ns acc) c1 = (Some (Inr cidrs), c')"
      using Cons.prems(1) by (auto simp: s split: prod.splits sum.splits option.splits)
    have "cache_le c1 k" using install_cidrs_cache [OF e(2)] Cons.prems(2) by (rule cache_le_trans)
    then show ?thesis using expand_cidrs_again [OF e(1)] Cons.IH [OF e(2) Cons.prems(2)] False
      by (simp add: s pk sys_entries_open)
  qed
qed simp

text \<open>What the crate \<open>route_manager\<close> promises: an added route is there, a route that is there can be
  deleted, and nothing else changes.\<close>

definition route_manager_ok :: "route_manager \<Rightarrow> bool" where
  "route_manager_ok m \<longleftrightarrow>
     (\<forall>r s s'. rm_add m r s = Inr s' \<longrightarrow> s' = insert r s) \<and>
     (\<forall>r s. r \<in> s \<longrightarrow> rm_delete m r s = Inr (s - {r})) \<and>
     (\<forall>r s s'. r \<notin> s \<longrightarrow> rm_delete m r s = Inr s' \<longrightarrow> s' = s)"

lemma add_routes_bounds:
  "route_manager_ok m \<Longrightarrow> sys \<subseteq> fold (\<lambda>c. add_route m (g c)) cs sys \<and> fold (\<lambda>c. add_route m (g c)) cs sys \<subseteq> sys \<union> g ` set cs"
proof (induction cs arbitrary: sys)
  case (Cons c cs)
  have "sys \<subseteq> add_route m (g c) sys" "add_route m (g c) sys \<subseteq> insert (g c) sys"
    using Cons.prems by (auto simp: add_route_def route_manager_ok_def split: sum.splits)
  then show ?case using Cons.IH [OF Cons.prems, of "add_route m (g c) sys"] by auto
qed simp

lemma delete_routes_exact: "route_manager_ok m \<Longrightarrow> fold (\<lambda>c. delete_route m (g c)) cs sys = sys - g ` set cs"
proof (induction cs arbitrary: sys)
  case (Cons c cs)
  have "delete_route m (g c) sys = sys - {g c}"
    using Cons.prems by (cases "g c \<in> sys") (auto simp: delete_route_def route_manager_ok_def split: sum.splits)
  then show ?case using Cons by auto
qed simp

text \<open>The routes that the configuration asks for.\<close>

definition asked_routes :: "ckr_env \<Rightarrow> tunnel_routing_config \<Rightarrow> string \<Rightarrow> public_key \<Rightarrow> u8 option \<Rightarrow> route_file_cache \<Rightarrow> sys_route set" where
  "asked_routes env config tun_name self_key route_table cache =
     (if tr_enable config \<and> tr_install_system_routes config
      then case fst (install_cidrs env self_key (tr_remote_subnets config) [] cache) of
             Some (Inr cidrs) \<Rightarrow> cidr_route env tun_name route_table ` set cidrs
           | _ \<Rightarrow> {}
      else {})"

text \<open>C36. Removing the system routes undoes their installation. Installing adds no route but those that
  the configuration asks for, each unless the system refuses it. Removing then leaves the routes of
  before, without those asked for: even if the route files have changed or vanished since, because
  both calls read every file through the cache, which keeps the first contents. The directory of
  downloaded lists must still list the same files, since it is read again.\<close>

theorem remove_routes_undoes_install:
  assumes "route_manager_ok m"
    "install_routes env (Inr m) config tun_name self_key route_table cache sys = (Some (Inr (), sys'), cache')"
  shows "sys \<subseteq> sys' \<and> sys' \<subseteq> sys \<union> asked_routes env config tun_name self_key route_table cache \<and>
    remove_routes (env\<lparr>ce_open := f\<rparr>) (Inr m) config tun_name self_key route_table cache' sys' =
      (Some (sys - asked_routes env config tun_name self_key route_table cache), cache')"
proof (cases "tr_enable config \<and> tr_install_system_routes config")
  case True
  let ?g = "cidr_route env tun_name route_table"
  obtain cidrs where c: "install_cidrs env self_key (tr_remote_subnets config) [] cache = (Some (Inr cidrs), cache')"
    and r: "sys' = fold (\<lambda>cidr. add_route m (?g cidr)) cidrs sys"
    using assms True by (auto simp: install_routes_def split: prod.splits sum.splits option.splits if_splits)
  have asked: "asked_routes env config tun_name self_key route_table cache = ?g ` set cidrs"
    using True c by (simp add: asked_routes_def)
  have g: "cidr_route (env\<lparr>ce_open := f\<rparr>) tun_name route_table = ?g" by (simp add: cidr_route_def fun_eq_iff)
  have b: "sys \<subseteq> sys'" "sys' \<subseteq> sys \<union> ?g ` set cidrs" using add_routes_bounds [OF assms(1), of sys ?g cidrs] r by simp_all
  have "remove_routes (env\<lparr>ce_open := f\<rparr>) (Inr m) config tun_name self_key route_table cache' sys' = (Some (sys' - ?g ` set cidrs), cache')"
    using remove_cidrs_again [OF c cache_le_refl] True by (simp add: remove_routes_def g delete_routes_exact [OF assms(1)])
  moreover have "sys' - ?g ` set cidrs = sys - ?g ` set cidrs" using b by blast
  ultimately show ?thesis using b asked by simp
next
  case False
  then show ?thesis using assms by (auto simp: install_routes_def remove_routes_def asked_routes_def)
qed

section \<open>Exclusions and longer prefixes\<close>

lemma best_route_append: "best_route (xs @ ys) a = fold (better_route a) ys (best_route xs a)"
  by (simp add: best_route_def)

lemma best_route_later:
  assumes "r \<in> set ys" "a \<in> net_span (fst r)"
    "\<And>q. q \<in> set xs \<Longrightarrow> a \<in> net_span (fst q) \<Longrightarrow> net_prefix_len (fst q) \<le> net_prefix_len (fst r)"
  shows "\<exists>q \<in> set ys. best_route (xs @ ys) a = Some q"
  using assms(1)
proof (induction ys rule: rev_induct)
  case (snoc y ys)
  show ?case
  proof (cases "r \<in> set ys")
    case True
    then show ?thesis using snoc by (auto simp flip: append_assoc simp: best_route_snoc better_route_def)
  next
    case False
    then have y: "y = r" using snoc.prems by simp
    show ?thesis
    proof (cases "best_route (xs @ ys) a")
      case None
      then show ?thesis using assms(2) y by (simp flip: append_assoc add: best_route_snoc better_route_def)
    next
      case (Some q)
      then have "q \<in> set xs \<or> q \<in> set ys" "a \<in> net_span (fst q)" using best_route_mem [of "xs @ ys" a q] by auto
      moreover have "net_prefix_len (fst q) \<le> net_prefix_len (fst r)" if "q \<in> set xs" using assms(3) that calculation(2) by blast
      ultimately show ?thesis using assms(2) y Some by (auto simp flip: append_assoc simp: best_route_snoc better_route_def)
    qed
  qed
qed simp

lemma net_canon_eqI:
  assumes "net_canon w m" "net_canon w n" "net_span m = net_span n"
  shows "m = n"
proof -
  have span: "{net_lo m..<net_lo m + 2 ^ net_size m} = {net_lo n..<net_lo n + 2 ^ net_size n}"
    using assms(3) by (simp add: net_span_block)
  have pos: "net_lo m < net_lo m + 2 ^ net_size m" "net_lo n < net_lo n + 2 ^ net_size n" by simp_all
  have "net_lo m = net_lo n \<and> net_lo m + 2 ^ net_size m = net_lo n + 2 ^ net_size n"
    using span unfolding atLeastLessThan_eq_iff [OF pos] .
  then have lo: "net_lo m = net_lo n" and "(2::nat) ^ net_size m = 2 ^ net_size n" by linarith+
  then have "net_size m = net_size n" by simp
  then have len: "unat (net_prefix_len m) = unat (net_prefix_len n)"
    using assms(1,2) by (auto simp: net_canon_def net_size_def)
  have "unat (addr_bits (net_addr m)) = unat (addr_bits (net_addr n))" "net_bits m = net_bits n"
    using assms(1,2) lo by (auto simp: net_canon_def)
  then show ?thesis using len by (cases m; cases n) (simp_all add: unat_wide word_unat_eq_iff)
qed

text \<open>The fragments of a prefix around an exclusion inside it are also fragments of every shorter
  prefix around the same exclusion.\<close>

lemma fragments_shared:
  assumes A: "exact_nets w (net_span a - net_span e) (net_span a - net_span e) ms"
    and B: "exact_nets w (net_span b - net_span e) (net_span b - net_span e) ns"
    and sub: "net_span b \<subseteq> net_span a" "net_span e \<subseteq> net_span b"
  shows "set ns \<subseteq> set ms"
proof
  fix n assume n: "n \<in> set ns"
  have nB: "net_span n \<subseteq> net_span b - net_span e" and cn: "net_canon w n" "maximal (net_span b - net_span e) n"
    using B n by (auto simp: exact_nets_def)
  have x: "net_lo n \<in> net_span n" by (rule net_lo_in_span)
  then have inb: "net_lo n \<in> net_span b" using nB by blast
  obtain m where m: "m \<in> set ms" "net_lo n \<in> net_span m" using A nB sub x unfolding exact_nets_def by blast
  have mA: "net_span m \<subseteq> net_span a - net_span e" and cm: "net_canon w m" "maximal (net_span a - net_span e) m"
    using A m by (auto simp: exact_nets_def)
  have "net_span m \<subseteq> net_span b"
  proof (cases "net_size m \<le> net_size b")
    case True
    then show ?thesis using spans_nested [OF m(2) inb] by blast
  next
    case False
    then have "net_span b \<subseteq> net_span m" using spans_nested [OF inb m(2)] by linarith
    moreover have "net_lo e \<in> net_span e" by (rule net_lo_in_span)
    ultimately show ?thesis using sub(2) mA by blast
  qed
  then have "net_span m \<subseteq> net_span b - net_span e" using mA by blast
  then have mn: "net_span m \<subseteq> net_span n" by (rule maximal_in_cover [OF cn(2) m(2)])
  have "net_lo m \<in> net_span m" by (simp add: net_span_block)
  then have "net_span n \<subseteq> net_span m"
    using maximal_in_cover [OF cm(2), of n] mn nB sub(1) by blast
  then show "n \<in> set ms" using net_canon_eqI [OF cn(1) cm(1)] mn m(1) by blast
qed

lemma later_key_wins:
  assumes "ipnet_lib_ok L" "\<forall>n \<in> set xs \<union> set ys. net_canon w n" "nets_disjoint xs" "unat x < 2 ^ w"
    "n \<in> set xs" "n \<in> set ys" "unat x \<in> net_span n"
  shows "rt_get (rt_insert_all L (map (\<lambda>n. (n, d)) xs @ map (\<lambda>n. (n, d')) ys) (rt_new w)) x = Some d'"
proof -
  let ?xs = "map (\<lambda>n. (n, d)) xs" and ?ys = "map (\<lambda>n. (n, d')) ys"
  have "\<exists>q \<in> set ?ys. best_route (?xs @ ?ys) (unat x) = Some q"
  proof (rule best_route_later)
    show "(n, d') \<in> set ?ys" "unat x \<in> net_span (fst (n, d'))" using assms(6,7) by auto
    fix q assume q: "q \<in> set ?xs" "unat x \<in> net_span (fst q)"
    then have "fst q = n" using nets_disjoint_eq [OF assms(3) _ assms(5) _ assms(7)] by auto
    then show "net_prefix_len (fst q) \<le> net_prefix_len (fst (n, d'))" by simp
  qed
  moreover have "table_of w (rt_insert_all L (?xs @ ?ys) (rt_new w)) (?xs @ ?ys)"
  proof -
    have "\<forall>r \<in> set (?xs @ ?ys). net_canon w (fst r)" using assms(2) by auto
    from table_of_insert_all [OF assms(1) this table_of_new] show ?thesis by simp
  qed
  ultimately show ?thesis using rt_get_best [OF _ assms(4)] by auto
qed

lemma insert_prefixes_v4:
  "\<forall>n \<in> set ps. net_bits n = 32 \<Longrightarrow> insert_prefixes L px d ps (v4, v6) = Inr (rt_insert_all L (map (\<lambda>n. (n, d)) ps) v4, v6)"
  by (induction ps arbitrary: v4) (auto simp: rt_insert_all_def split: ip_net.splits)

text \<open>C37. An exclusion makes a longer prefix lose its precedence. Two nodes have an IPv4 network each,
  the second network inside the first, and both lists exclude the same network \<open>e\<close> inside the second
  (as they do for the addresses of the peers, which are added to every list). The fragments of the
  second network are fragments of the first as well, and \<open>insert\<close> overwrites: every address of the
  second network outside \<open>e\<close> is routed to the node whose fragments are inserted last, which is the
  iteration order of a hash map.\<close>

theorem exclusion_defeats_longest_prefix:
  assumes "ipnet_lib_ok L" "net_wf a" "net_wf b" "net_wf e" "net_bits a = 32" "net_bits b = 32"
    "net_span b \<subseteq> net_span a" "net_span e \<subseteq> net_span b" "unat x \<in> net_span b - net_span e"
    "subtract_many L a (merge_excludes L [e]) = Some ms" "subtract_many L b (merge_excludes L [e]) = Some ns"
  shows "(\<exists>t v4. insert_prefixes L px node_b ns (rt_new 32, v6) = Inr t \<and> insert_prefixes L px node_a ms t = Inr (v4, v6) \<and>
      rt_get v4 x = Some node_a) \<and>
    (\<exists>t v4. insert_prefixes L px node_a ms (rt_new 32, v6) = Inr t \<and> insert_prefixes L px node_b ns t = Inr (v4, v6) \<and>
      rt_get v4 x = Some node_b)"
proof -
  have A: "exact_nets (net_bits a) (net_span a - net_span e) (net_span a - net_span e) ms"
    using subtract_exact_nets [OF assms(1,2), of "[e]"] assms(4,10) by simp
  have B: "exact_nets (net_bits a) (net_span b - net_span e) (net_span b - net_span e) ns"
    using subtract_exact_nets [OF assms(1,3), of "[e]"] assms(4,5,6,11) by simp
  have sub: "set ns \<subseteq> set ms" by (rule fragments_shared [OF A B assms(7,8)])
  obtain n where n: "n \<in> set ns" "unat x \<in> net_span n" using B assms(9) unfolding exact_nets_def by blast
  have "unat x \<le> net_hi a" using assms(7,9) by (auto simp: net_span_def)
  then have lt: "unat x < 2 ^ net_bits a" using net_hi_less [OF assms(2)] by linarith
  have ok: "\<forall>n \<in> set ns \<union> set ms. net_canon (net_bits a) n" "nets_disjoint ns" "nets_disjoint ms"
    using A B by (auto simp: exact_nets_def)
  have "\<forall>n \<in> set ns. net_bits n = 32" "\<forall>n \<in> set ms. net_bits n = 32"
    using A B assms(5) by (auto simp: exact_nets_def net_canon_def)
  note ins = insert_prefixes_v4 [OF this(1)] insert_prefixes_v4 [OF this(2)]
  have app: "rt_insert_all L (xs @ ys) rt = rt_insert_all L ys (rt_insert_all L xs rt)" for xs ys rt by (simp add: rt_insert_all_def)
  show ?thesis
    using later_key_wins [OF assms(1) ok(1,2) lt n(1) _ n(2)] later_key_wins [OF assms(1) _ ok(3) lt _ n(1) n(2)] ok(1) sub n(1) assms(5)
    by (auto simp: Un_commute ins app)
qed

section \<open>Examples\<close>

definition sample_parse :: "string \<Rightarrow> string + ip_net" where
  "sample_parse s =
     (if s = ''0.0.0.0/0'' then Inr (NetV4 0 0)
      else if s = ''128.0.0.0/1'' then Inr (NetV4 0x80000000 1)
      else if s = ''192.0.0.0/2'' then Inr (NetV4 0xC0000000 2)
      else Inl ''invalid'')"

definition sample_ckr_env :: ckr_env where
  "sample_ckr_env =
     \<lparr>ce_ipnet = sample_ipnet sample_parse,
      ce_hex_decode = (\<lambda>s. if s = ''aa'' then Inr (replicate 32 0xaa) else if s = ''bb'' then Inr (replicate 32 0xbb) else Inl ''hex''),
      ce_url_parse = (\<lambda>_. Inr \<lparr>url_scheme = ''file'', url_file_path = Some ''/r''\<rparr>),
      ce_open = (\<lambda>_. Opened [Inr ''# list'', Inr ''128.0.0.0/1'']), ce_download_dir = (\<lambda>_. []),
      ce_peer_exclusions = Some [''!192.0.0.0/2''], ce_linux = True\<rparr>"

definition sample_tunnel :: "(string \<times> string list) list \<Rightarrow> tunnel_routing_config" where
  "sample_tunnel subnets = \<lparr>tr_enable = True, tr_yggdrasil_routing = True, tr_remote_subnets = subnets, tr_install_system_routes = True\<rparr>"

lemma sample_lib: "ipnet_lib_ok (ce_ipnet sample_ckr_env)"
  by (simp add: sample_ckr_env_def sample_ipnet_ok)

lemma sample_collect:
  "collect_cidrs sample_ckr_env (ckr_entries sample_ckr_env ''aa'' [''0.0.0.0/0'']) [] =
     (Inr \<lparr>cs_v4_inc = [NetV4 0 0], cs_v6_inc = [], cs_v4_exc = [NetV4 0xC0000000 2], cs_v6_exc = []\<rparr>, [])"
  by (simp add: collect_cidrs_def ckr_entries_def effective_entries_def get_peer_exclusion_entries_def sample_ckr_env_def
      get_downloaded_virtual_file_entries_def map_filter_simps
      resolve_entry_def is_list_url_def trim_def is_ws_def starts_with_def normalize_subnet_entries_def normalize_entry_def
      split_exclude_def strip_char_def cidr_for_parse_def sample_ipnet_def sample_parse_def add_cidr_def Let_def
      net_lo_def net_low_def)

lemma sample_spans:
  "net_span (NetV4 0 0) = {0..2 ^ 32 - 1}" "net_span (NetV4 0x80000000 1) = {2 ^ 31..2 ^ 32 - 1}"
  "net_span (NetV4 0xC0000000 2) = {2 ^ 31 + 2 ^ 30..2 ^ 32 - 1}"
  by (simp_all add: net_span_def net_lo_def net_hi_def net_low_def net_high_def)

theorem exclusion_defeats_longest_prefix_witness:
  "\<exists>ms ns t v4. subtract_many (sample_ipnet Inl) (NetV4 0 0) (merge_excludes (sample_ipnet Inl) [NetV4 0xC0000000 2]) = Some ms \<and>
    subtract_many (sample_ipnet Inl) (NetV4 0x80000000 1) (merge_excludes (sample_ipnet Inl) [NetV4 0xC0000000 2]) = Some ns \<and>
    insert_prefixes (sample_ipnet Inl) default_prefixes [2] ns (rt_new 32, rt_new 128) = Inr t \<and>
    insert_prefixes (sample_ipnet Inl) default_prefixes [1] ms t = Inr (v4, rt_new 128) \<and> rt_get v4 0x80000001 = Some [1]"
proof -
  let ?L = "sample_ipnet Inl" and ?e = "NetV4 0xC0000000 2" and ?x = "0x80000001 :: u128"
  obtain ms where ms: "subtract_many ?L (NetV4 0 0) (merge_excludes ?L [?e]) = Some ms"
    using subtract_exact_nets [OF sample_ipnet_ok [of Inl], of "NetV4 0 0" "[?e]"] by auto
  obtain ns where ns: "subtract_many ?L (NetV4 0x80000000 1) (merge_excludes ?L [?e]) = Some ns"
    using subtract_exact_nets [OF sample_ipnet_ok [of Inl], of "NetV4 0x80000000 1" "[?e]"] by auto
  have "unat ?x \<in> net_span (NetV4 0x80000000 1) - net_span ?e" by (simp add: sample_spans)
  from exclusion_defeats_longest_prefix [OF sample_ipnet_ok _ _ _ _ _ _ _ this ms ns, of default_prefixes "[2]" "rt_new 128" "[1]"]
  show ?thesis using ms ns by (auto simp: sample_spans)
qed

lemma sample_pubkey: "parse_pubkey sample_ckr_env ''aa'' = Inr (replicate 32 0xaa)"
  by (simp add: parse_pubkey_def sample_ckr_env_def)

lemma sample_table:
  "\<exists>ck. crypto_key_new sample_ckr_env default_prefixes (sample_tunnel [(''aa'', [''0.0.0.0/0''])]) [] [] = (Some (Inr ck), [])"
proof -
  obtain ns where ns: "subtract_many (ce_ipnet sample_ckr_env) (NetV4 0 0) (merge_excludes (ce_ipnet sample_ckr_env) [NetV4 0xC0000000 2]) = Some ns"
    "exact_nets 32 (net_span (NetV4 0 0) - net_span (NetV4 0xC0000000 2)) (net_span (NetV4 0 0) - net_span (NetV4 0xC0000000 2)) ns"
    using subtract_exact_nets [OF sample_lib, of "NetV4 0 0" "[NetV4 0xC0000000 2]"] by auto
  then have "\<forall>n \<in> set ns. net_bits n = 32" by (auto simp: exact_nets_def net_canon_def)
  from insert_prefixes_v4 [OF this] obtain u where
    u: "insert_prefixes (ce_ipnet sample_ckr_env) default_prefixes (replicate 32 0xaa) ns (rt_new 32, rt_new 128) = Inr (u, rt_new 128)"
    by blast
  have "expand_cidrs sample_ckr_env (ckr_entries sample_ckr_env ''aa'' [''0.0.0.0/0'']) [] = (Some (Inr ns), [])"
    using ns(1) by (simp add: expand_cidrs_def sample_collect expand_sets_def)
  then show ?thesis using u by (simp add: crypto_key_new_def sample_tunnel_def sample_pubkey)
qed

theorem crypto_key_routes_exact_witness:
  "\<exists>ck. crypto_key_new sample_ckr_env default_prefixes (sample_tunnel [(''aa'', [''0.0.0.0/0''])]) [] [] = (Some (Inr ck), []) \<and>
    get_public_key_for_address default_prefixes ck (AddrV4 5) = Some (replicate 32 0xaa)"
proof -
  obtain ck where ck: "crypto_key_new sample_ckr_env default_prefixes (sample_tunnel [(''aa'', [''0.0.0.0/0''])]) [] [] = (Some (Inr ck), [])"
    using sample_table by blast
  have plan: "route_plan sample_ckr_env [] (tr_remote_subnets (sample_tunnel [(''aa'', [''0.0.0.0/0''])])) [] =
      [(replicate 32 0xaa, \<lparr>cs_v4_inc = [NetV4 0 0], cs_v6_inc = [], cs_v4_exc = [NetV4 0xC0000000 2], cs_v6_exc = []\<rparr>)]"
    by (simp add: sample_tunnel_def sample_collect sample_pubkey)
  have "wants \<lparr>cs_v4_inc = [NetV4 0 0], cs_v6_inc = [], cs_v4_exc = [NetV4 0xC0000000 2], cs_v6_exc = []\<rparr> (AddrV4 5)"
    by (simp add: wants_def family_has_v4 sample_spans)
  moreover have "tr_enable (sample_tunnel [(''aa'', [''0.0.0.0/0''])])" by (simp add: sample_tunnel_def)
  moreover have "\<not> is_yggdrasil_destination default_prefixes (AddrV4 5)" by (simp add: is_yggdrasil_destination_def)
  ultimately show ?thesis
    using crypto_key_routes_exact [OF sample_lib _ ck, of "AddrV4 5"] ck plan by auto
qed

lemma sample_sys:
  "sys_entries sample_ckr_env ''aa'' [''file:///r''] = [''file:///r'', ''!192.0.0.0/2'']"
  by (simp add: sys_entries_def effective_entries_def get_peer_exclusion_entries_def get_downloaded_virtual_file_entries_def
      sample_ckr_env_def normalize_subnet_entries_def normalize_entry_def trim_def is_ws_def starts_with_def map_filter_simps Let_def)

text \<open>The list comes from a file, which is then in the cache.\<close>

lemma sample_sys_collect:
  "collect_cidrs sample_ckr_env [''file:///r'', ''!192.0.0.0/2''] [] =
     (Inr \<lparr>cs_v4_inc = [NetV4 0x80000000 1], cs_v6_inc = [], cs_v4_exc = [NetV4 0xC0000000 2], cs_v6_exc = []\<rparr>,
      [(''/r'', Some [''128.0.0.0/1''])])"
  by (simp add: collect_cidrs_def sample_ckr_env_def resolve_entry_def is_list_url_def split_url_prefix_def trim_def is_ws_def
      starts_with_def normalize_subnet_entries_def normalize_entry_def split_exclude_def strip_char_def cidr_for_parse_def
      sample_ipnet_def sample_parse_def add_cidr_def Let_def net_lo_def net_low_def hm_insert_def)

lemma sample_install:
  "\<exists>cidrs. install_cidrs sample_ckr_env [] [(''aa'', [''file:///r''])] [] [] = (Some (Inr cidrs), [(''/r'', Some [''128.0.0.0/1''])])"
  using expand_sets_has [OF sample_lib collect_cidrs_ok [OF sample_lib sample_sys_collect]]
  by (auto simp: sample_pubkey sample_sys expand_cidrs_def sample_sys_collect)

text \<open>A manager that refuses a route that is already there.\<close>

definition sample_manager :: route_manager where
  "sample_manager = \<lparr>rm_add = (\<lambda>r s. if r \<in> s then Inl ''exists'' else Inr (insert r s)),
     rm_delete = (\<lambda>r s. if r \<in> s then Inr (s - {r}) else Inl ''no route'')\<rparr>"

lemma sample_manager_ok: "route_manager_ok sample_manager"
  by (simp add: route_manager_ok_def sample_manager_def)

theorem remove_routes_undoes_install_witness:
  "\<exists>sys'. install_routes sample_ckr_env (Inr sample_manager) (sample_tunnel [(''aa'', [''file:///r''])]) ''tun0'' [] None [] {} =
      (Some (Inr (), sys'), [(''/r'', Some [''128.0.0.0/1''])]) \<and>
    remove_routes (sample_ckr_env\<lparr>ce_open := (\<lambda>_. OpenFailed ''gone'')\<rparr>) (Inr sample_manager) (sample_tunnel [(''aa'', [''file:///r''])])
      ''tun0'' [] None [(''/r'', Some [''128.0.0.0/1''])] sys' = (Some {}, [(''/r'', Some [''128.0.0.0/1''])])"
proof -
  obtain cidrs where c: "install_cidrs sample_ckr_env [] [(''aa'', [''file:///r''])] [] [] = (Some (Inr cidrs), [(''/r'', Some [''128.0.0.0/1''])])"
    using sample_install by blast
  obtain sys' where i: "install_routes sample_ckr_env (Inr sample_manager) (sample_tunnel [(''aa'', [''file:///r''])]) ''tun0'' [] None [] {} =
      (Some (Inr (), sys'), [(''/r'', Some [''128.0.0.0/1''])])"
    using c by (cases "cidrs = []") (simp_all add: install_routes_def sample_tunnel_def del: install_cidrs.simps)
  with remove_routes_undoes_install [OF sample_manager_ok i] show ?thesis by simp
qed

end
