(* ===== verification/Ipv6rwc.thy ===== *)
theory Ipv6rwc
  imports Firewall Ckr
begin

text \<open>
  The bridge between the TUN device and the core, \<open>crates/yggdrasil/src/ipv6rwc.rs\<close>: the key store,
  the packets that wait for a key, the checks of inbound packets and the routing of outbound ones, in
  the standard mode and with crypto-key routing, and the ICMPv6 answer to oversized packets.

  Calls into the core are outputs: the list of packets written and of lookups sent, in order. What
  \<open>write_to\<close> answers is a parameter. One call of a method is one step, at one instant. A received
  packet is the bytes in its range of the buffer; the answer says whether the range is delivered.
\<close>

section \<open>State\<close>

definition KEY_STORE_TIMEOUT :: duration where
  "KEY_STORE_TIMEOUT = secs 120"

definition IPV6_HEADER_LEN :: nat where
  "IPV6_HEADER_LEN = 40"

record key_info =
  ki_address :: bytes
  ki_subnet :: bytes
  ki_last_seen :: instant

record buffered_packet =
  bp_data :: bytes
  bp_time :: instant

record rwc =
  rw_address :: bytes
  rw_subnet :: bytes
  rw_key_to_info :: "(public_key, key_info) hmap"
  rw_addr_to_info :: "(bytes, public_key) hmap"
  rw_subnet_to_info :: "(bytes, public_key) hmap"
  rw_addr_buffer :: "(bytes, buffered_packet) hmap"
  rw_subnet_buffer :: "(bytes, buffered_packet) hmap"
  rw_mtu :: u32
  rw_ckr :: "crypto_key option"
  rw_firewall :: "firewall option"

datatype core_call = Write_to bytes public_key | Send_lookup public_key

record rwc_env =
  re_prefixes :: prefixes
  re_ipnet :: ipnet_lib
  re_core_write :: "bytes \<Rightarrow> public_key \<Rightarrow> string + nat"

definition clamp_mtu :: "u64 \<Rightarrow> u64" where
  "clamp_mtu mtu = (if mtu < 1280 then 1280 else if mtu > 65535 then 65535 else mtu)"

definition rwc_new :: "bytes \<Rightarrow> bytes \<Rightarrow> u64 \<Rightarrow> firewall option \<Rightarrow> rwc" where
  "rwc_new address subnet mtu firewall =
     \<lparr>rw_address = address, rw_subnet = subnet, rw_key_to_info = [], rw_addr_to_info = [], rw_subnet_to_info = [],
      rw_addr_buffer = [], rw_subnet_buffer = [], rw_mtu = ucast (clamp_mtu mtu), rw_ckr = None, rw_firewall = firewall\<rparr>"

definition clamp_overlay_mtu :: "u64 \<Rightarrow> u64 \<Rightarrow> u64" where
  "clamp_overlay_mtu current requested = min (clamp_mtu requested) current"

definition set_mtu :: "u64 \<Rightarrow> rwc \<Rightarrow> rwc" where
  "set_mtu mtu rw = rw\<lparr>rw_mtu := ucast (clamp_overlay_mtu (ucast (rw_mtu rw)) mtu)\<rparr>"

text \<open>\<open>init_crypto_key\<close>, after \<open>CryptoKey::new\<close>; a table that cannot be built is a panic.\<close>

definition init_crypto_key :: "bool \<Rightarrow> string + crypto_key \<Rightarrow> rwc \<Rightarrow> rwc option" where
  "init_crypto_key enable built rw =
     (if \<not> enable then Some rw
      else case built of Inl _ \<Rightarrow> None | Inr ck \<Rightarrow> Some (rw\<lparr>rw_ckr := Some ck\<rparr>))"

section \<open>Packet Too Big\<close>

fun sum_words :: "bytes \<Rightarrow> u32" where
  "sum_words [] = 0"
| "sum_words [b] = push_bit 8 (ucast b)"
| "sum_words (a # b # bs) = ucast (from_be_bytes [a, b] :: u16) + sum_words bs"

function fold_carries :: "u32 \<Rightarrow> u32" where
  "fold_carries s = (if s > 0xFFFF then fold_carries ((s AND 0xFFFF) + drop_bit 16 s) else s)"
  by pat_completeness auto

lemma carry_step:
  "unat ((w AND 0xFFFF) + drop_bit 16 w) = unat w mod 65536 + unat w div 65536" for w :: u32
proof -
  have m: "w AND 0xFFFF = take_bit 16 w" by (simp add: take_bit_eq_mask mask_eq_exp_minus_1)
  have a: "unat (w AND 0xFFFF) = unat w mod 65536" unfolding m unsigned_take_bit_eq by (simp add: take_bit_eq_mod)
  have b: "unat (drop_bit 16 w) = unat w div 65536" 
    unfolding unsigned_drop_bit_eq using unsigned_less [of w, where ?'a = nat] by (simp add: drop_bit_eq_div take_bit_nat_eq_self)
  have "unat w div 65536 < 65536" using unsigned_less [of w, where ?'a = nat] by (simp add: div_less_iff_less_mult)
  moreover have "unat w mod 65536 < 65536" by simp
  ultimately have "unat w mod 65536 + unat w div 65536 < 2 ^ 32" by simp
  then show ?thesis by (simp add: unat_word_ariths a b)
qed

termination fold_carries
proof (relation "measure unat")
  fix w :: u32
  assume "w > 0xFFFF"
  then have "65536 \<le> unat w" by (simp add: word_less_nat_alt)
  then have "0 < unat w div 65536" by (simp add: div_greater_zero_iff)
  then have "unat w mod 65536 + unat w div 65536 < unat w" using div_mult_mod_eq [of "unat w" 65536] by linarith
  then show "((w AND 0xFFFF) + drop_bit 16 w, w) \<in> measure unat" by (simp add: carry_step)
qed simp

declare fold_carries.simps [simp del]

definition icmpv6_checksum :: "bytes \<Rightarrow> bytes \<Rightarrow> bytes \<Rightarrow> u16" where
  "icmpv6_checksum src dst icmp_data =
     (let len = of_nat (length icmp_data) :: u32;
          total = sum_words src + sum_words dst + drop_bit 16 len + (len AND 0xFFFF) + 58 + sum_words icmp_data
      in NOT (ucast (fold_carries total)))"

definition build_icmpv6_ptb :: "bytes \<Rightarrow> u32 \<Rightarrow> bytes option" where
  "build_icmpv6_ptb original mtu =
     (if length original < IPV6_HEADER_LEN then None
      else
        let orig_src = take 16 (drop 8 original);
            orig_dst = take 16 (drop 24 original);
            copy_len = min (length original) 512;
            body = be_bytes 4 mtu @ take copy_len original;
            checksum = icmpv6_checksum orig_dst orig_src ([2, 0, 0, 0] @ body);
            icmp = [2, 0] @ be_bytes 2 checksum @ body;
            payload_len = of_nat (length icmp) :: u16
        in Some ([0x60, 0, 0, 0] @ be_bytes 2 payload_len @ [58, 255] @ orig_dst @ orig_src @ icmp))"

section \<open>Keys\<close>

definition flush_buffered :: "instant \<Rightarrow> public_key \<Rightarrow> buffered_packet option \<Rightarrow> core_call list" where
  "flush_buffered now key buffered =
     (case buffered of
        None \<Rightarrow> []
      | Some b \<Rightarrow> if now - bp_time b < KEY_STORE_TIMEOUT then [Write_to (bp_data b) key] else [])"

definition update_key :: "prefixes \<Rightarrow> instant \<Rightarrow> public_key \<Rightarrow> rwc \<Rightarrow> core_call list \<times> rwc" where
  "update_key px now key rw =
     (if (case hm_get (rw_key_to_info rw) key of None \<Rightarrow> False | Some info \<Rightarrow> now - ki_last_seen info < KEY_STORE_TIMEOUT div 2)
      then ([], rw)
      else
        let address = addr_for_key px key;
            subnet = subnet_for_key px key;
            info = \<lparr>ki_address = address, ki_subnet = subnet, ki_last_seen = now\<rparr>;
            rw = rw\<lparr>rw_key_to_info := hm_insert key info (rw_key_to_info rw),
                   rw_addr_to_info := hm_insert address key (rw_addr_to_info rw),
                   rw_subnet_to_info := hm_insert subnet key (rw_subnet_to_info rw)\<rparr>;
            addr_buf = hm_get (rw_addr_buffer rw) address;
            subnet_buf = hm_get (rw_subnet_buffer rw) subnet;
            rw = rw\<lparr>rw_addr_buffer := hm_remove address (rw_addr_buffer rw),
                   rw_subnet_buffer := hm_remove subnet (rw_subnet_buffer rw)\<rparr>
        in (flush_buffered now key addr_buf @ flush_buffered now key subnet_buf, rw))"

definition forget_key :: "public_key \<Rightarrow> rwc \<Rightarrow> rwc" where
  "forget_key key rw =
     (case hm_get (rw_key_to_info rw) key of
        None \<Rightarrow> rw
      | Some info \<Rightarrow> rw\<lparr>rw_key_to_info := hm_remove key (rw_key_to_info rw),
          rw_addr_to_info := hm_remove (ki_address info) (rw_addr_to_info rw),
          rw_subnet_to_info := hm_remove (ki_subnet info) (rw_subnet_to_info rw)\<rparr>)"

definition cleanup :: "instant \<Rightarrow> rwc \<Rightarrow> rwc" where
  "cleanup now rw =
     (let expired_keys = map fst (filter (\<lambda>(_, info). now - ki_last_seen info > KEY_STORE_TIMEOUT) (rw_key_to_info rw));
          rw = fold forget_key expired_keys rw
      in rw\<lparr>rw_addr_buffer := hm_retain (\<lambda>_ b. now - bp_time b < KEY_STORE_TIMEOUT) (rw_addr_buffer rw),
            rw_subnet_buffer := hm_retain (\<lambda>_ b. now - bp_time b < KEY_STORE_TIMEOUT) (rw_subnet_buffer rw)\<rparr>)"

section \<open>Inbound packets\<close>

definition is_ip4 :: "bytes \<Rightarrow> bool" where
  "is_ip4 packet \<longleftrightarrow> packet \<noteq> [] \<and> packet ! 0 AND 0xf0 = 0x40"

definition is_ip6 :: "bytes \<Rightarrow> bool" where
  "is_ip6 packet \<longleftrightarrow> packet \<noteq> [] \<and> packet ! 0 AND 0xf0 = 0x60"

definition src_matches :: "rwc \<Rightarrow> public_key \<Rightarrow> bytes \<Rightarrow> bool" where
  "src_matches rw from_key src_ip =
     (case hm_get (rw_key_to_info rw) from_key of
        None \<Rightarrow> False
      | Some info \<Rightarrow> src_ip = ki_address info \<or> take 8 src_ip = ki_subnet info)"

definition ckr_read_validate :: "prefixes \<Rightarrow> crypto_key \<Rightarrow> bytes \<Rightarrow> public_key \<Rightarrow> rwc \<Rightarrow> bool" where
  "ckr_read_validate px ck packet from_key rw =
     (if is_ip6 packet \<and> ck_yggdrasil_routing ck \<and> src_matches rw from_key (take 16 (drop 8 packet)) then True
      else if is_ip4 packet \<and> length packet < 20 then False
      else
        let src_addr = (if is_ip4 packet then AddrV4 (ipv4_from (take 4 (drop 12 packet)))
                        else AddrV6 (ipv6_from (take 16 (drop 8 packet))))
        in case get_public_key_for_address px ck src_addr of
             None \<Rightarrow> False
           | Some expected_key \<Rightarrow> expected_key = from_key)"

definition firewall_check :: "ipnet_lib \<Rightarrow> instant \<Rightarrow> bytes \<Rightarrow> rwc \<Rightarrow> bool \<times> rwc" where
  "firewall_check L now packet rw =
     (case rw_firewall rw of
        None \<Rightarrow> (True, rw)
      | Some fw \<Rightarrow>
          if fw_enable fw
          then let (ok, fw) = check_inbound L now packet fw in (ok, rw\<lparr>rw_firewall := Some fw\<rparr>)
          else (True, rw))"

definition accept_inbound :: "rwc_env \<Rightarrow> instant \<Rightarrow> bytes \<Rightarrow> public_key \<Rightarrow> rwc \<Rightarrow> bool \<times> core_call list \<times> rwc" where
  "accept_inbound env now packet from_key rw =
     (let n = length packet; px = re_prefixes env
      in if n = 0 then (False, [], rw)
         else if rw_ckr rw = None \<and> \<not> is_ip6 packet then (False, [], rw)
         else if rw_ckr rw \<noteq> None \<and> \<not> is_ip4 packet \<and> \<not> is_ip6 packet then (False, [], rw)
         else if is_ip6 packet \<and> n < IPV6_HEADER_LEN then (False, [], rw)
         else if n > unat (rw_mtu rw)
         then (False,
               (if is_ip6 packet
                then case build_icmpv6_ptb packet (rw_mtu rw) of None \<Rightarrow> [] | Some ptb \<Rightarrow> [Write_to ptb from_key]
                else []),
               rw)
         else
           let (calls, rw) = update_key px now from_key rw
           in case rw_ckr rw of
                Some ck \<Rightarrow>
                  if \<not> ckr_read_validate px ck packet from_key rw then (False, calls, rw)
                  else if is_ip6 packet then
                    let (ok, rw) = firewall_check (re_ipnet env) now packet rw in (ok, calls, rw)
                  else (True, calls, rw)
              | None \<Rightarrow>
                  let src_ip = take 16 (drop 8 packet); dst_ip = take 16 (drop 24 packet)
                  in if dst_ip \<noteq> rw_address rw \<and> take 8 dst_ip \<noteq> rw_subnet rw then (False, calls, rw)
                     else if \<not> src_matches rw from_key src_ip then (False, calls, rw)
                     else let (ok, rw) = firewall_check (re_ipnet env) now packet rw in (ok, calls, rw))"

text \<open>\<open>try_read\<close>: the packets that have arrived, until one is delivered.\<close>

fun try_read :: "rwc_env \<Rightarrow> instant \<Rightarrow> (bytes \<times> public_key) list \<Rightarrow> rwc \<Rightarrow>
    bytes option \<times> core_call list \<times> (bytes \<times> public_key) list \<times> rwc" where
  "try_read env now [] rw = (None, [], [], rw)"
| "try_read env now ((packet, from_addr) # arrived) rw =
     (let (accepted, calls, rw) = accept_inbound env now packet from_addr rw
      in if accepted then (Some packet, calls, arrived, rw)
         else let (r, more, arrived, rw) = try_read env now arrived rw in (r, calls @ more, arrived, rw))"

section \<open>Outbound packets\<close>

definition core_write_to :: "rwc_env \<Rightarrow> bytes \<Rightarrow> public_key \<Rightarrow> rwc \<Rightarrow> (string + nat) \<times> core_call list \<times> rwc" where
  "core_write_to env buf key rw =
     ((case re_core_write env buf key of Inl e \<Rightarrow> Inl (''core write: '' @ e) | Inr n \<Rightarrow> Inr n), [Write_to buf key], rw)"

definition lookup_destination :: "rwc \<Rightarrow> bytes \<Rightarrow> bool \<Rightarrow> public_key option" where
  "lookup_destination rw dst_ip dst_addr_valid =
     (if dst_addr_valid then hm_get (rw_addr_to_info rw) dst_ip else hm_get (rw_subnet_to_info rw) (take 8 dst_ip))"

definition buffer_and_lookup :: "instant \<Rightarrow> bytes \<Rightarrow> bytes \<Rightarrow> bool \<Rightarrow> rwc \<Rightarrow> (string + nat) \<times> core_call list \<times> rwc" where
  "buffer_and_lookup now buf dst_ip dst_addr_valid rw =
     (let buffered = \<lparr>bp_data = buf, bp_time = now\<rparr>
      in if dst_addr_valid
         then (Inr (length buf), [Send_lookup (address_get_key dst_ip)],
               rw\<lparr>rw_addr_buffer := hm_insert dst_ip buffered (rw_addr_buffer rw)\<rparr>)
         else (Inr (length buf), [Send_lookup (subnet_get_key (take 8 dst_ip))],
               rw\<lparr>rw_subnet_buffer := hm_insert (take 8 dst_ip) buffered (rw_subnet_buffer rw)\<rparr>))"

definition ckr_write :: "rwc_env \<Rightarrow> instant \<Rightarrow> crypto_key \<Rightarrow> bytes \<Rightarrow> rwc \<Rightarrow> (string + nat) \<times> core_call list \<times> rwc" where
  "ckr_write env now ck buf rw =
     (if is_ip4 buf \<and> length buf < 20 then (Inr (length buf), [], rw)
      else
        let px = re_prefixes env;
            dst_ip = take 16 (drop 24 buf);
            dst_addr_valid = is_valid_address px dst_ip;
            dst_subnet_valid = is_valid_subnet px (take 8 dst_ip)
        in if is_ip6 buf \<and> ck_yggdrasil_routing ck \<and> (dst_addr_valid \<or> dst_subnet_valid)
           then (case lookup_destination rw dst_ip dst_addr_valid of
                   Some key \<Rightarrow> core_write_to env buf key rw
                 | None \<Rightarrow> buffer_and_lookup now buf dst_ip dst_addr_valid rw)
           else
             let dst = (if is_ip4 buf then AddrV4 (ipv4_from (take 4 (drop 16 buf))) else AddrV6 (ipv6_from dst_ip))
             in case get_public_key_for_address px ck dst of
                  Some key \<Rightarrow> core_write_to env buf key rw
                | None \<Rightarrow> (Inr (length buf), [], rw))"

definition observe :: "instant \<Rightarrow> bytes \<Rightarrow> rwc \<Rightarrow> rwc" where
  "observe now buf rw =
     (case rw_firewall rw of
        Some fw \<Rightarrow> if is_ip6 buf \<and> fw_enable fw then rw\<lparr>rw_firewall := Some (observe_outbound now buf fw)\<rparr> else rw
      | None \<Rightarrow> rw)"

definition rwc_write :: "rwc_env \<Rightarrow> instant \<Rightarrow> bytes \<Rightarrow> rwc \<Rightarrow> (string + nat) \<times> core_call list \<times> rwc" where
  "rwc_write env now buf rw =
     (let rw = observe now buf rw; px = re_prefixes env
      in case rw_ckr rw of
           Some ck \<Rightarrow>
             if \<not> is_ip4 buf \<and> \<not> is_ip6 buf then (Inr (length buf), [], rw)
             else if is_ip6 buf \<and> length buf < IPV6_HEADER_LEN then (Inr (length buf), [], rw)
             else ckr_write env now ck buf rw
         | None \<Rightarrow>
             if length buf < IPV6_HEADER_LEN then (Inl ''packet too short'', [], rw)
             else if \<not> is_ip6 buf then (Inl ''not an IPv6 packet'', [], rw)
             else
               let src_ip = take 16 (drop 8 buf); dst_ip = take 16 (drop 24 buf)
               in if src_ip \<noteq> rw_address rw \<and> take 8 src_ip \<noteq> rw_subnet rw then (Inl ''invalid source address'', [], rw)
                  else
                    let dst_addr_valid = is_valid_address px dst_ip;
                        dst_subnet_valid = is_valid_subnet px (take 8 dst_ip)
                    in if \<not> dst_addr_valid \<and> \<not> dst_subnet_valid then (Inl ''invalid destination address'', [], rw)
                       else case lookup_destination rw dst_ip dst_addr_valid of
                              Some key \<Rightarrow> core_write_to env buf key rw
                            | None \<Rightarrow> buffer_and_lookup now buf dst_ip dst_addr_valid rw)"

section \<open>Runs\<close>

datatype rwc_event =
    From_net instant bytes public_key
  | From_tun instant bytes
  | Learn instant public_key
  | Clean instant
  | SetMtu u64
  | InitCkr crypto_key

fun rwc_step :: "rwc_env \<Rightarrow> rwc_event \<Rightarrow> rwc \<Rightarrow> core_call list \<times> rwc" where
  "rwc_step env (From_net now packet from_key) rw = snd (accept_inbound env now packet from_key rw)"
| "rwc_step env (From_tun now buf) rw = snd (rwc_write env now buf rw)"
| "rwc_step env (Learn now key) rw = update_key (re_prefixes env) now key rw"
| "rwc_step env (Clean now) rw = ([], cleanup now rw)"
| "rwc_step env (SetMtu mtu) rw = ([], set_mtu mtu rw)"
| "rwc_step env (InitCkr ck) rw = ([], rw\<lparr>rw_ckr := Some ck\<rparr>)"

abbreviation rwc_run :: "rwc_env \<Rightarrow> rwc_event list \<Rightarrow> rwc \<Rightarrow> rwc" where
  "rwc_run env \<equiv> fold (\<lambda>e rw. snd (rwc_step env e rw))"

abbreviation src_of :: "bytes \<Rightarrow> bytes" where
  "src_of packet \<equiv> take 16 (drop 8 packet)"

abbreviation dst_of :: "bytes \<Rightarrow> bytes" where
  "dst_of packet \<equiv> take 16 (drop 24 packet)"

text \<open>An IPv6 address belongs to a key: it is its address or lies in its subnet.\<close>

definition owns :: "prefixes \<Rightarrow> public_key \<Rightarrow> bytes \<Rightarrow> bool" where
  "owns px key ip \<longleftrightarrow> ip = addr_for_key px key \<or> take 8 ip = subnet_for_key px key"

text \<open>The key store maps keys to their own addresses, and packets wait under their destination.\<close>

definition store_ok :: "prefixes \<Rightarrow> rwc \<Rightarrow> bool" where
  "store_ok px rw \<longleftrightarrow>
     hm_wf (rw_addr_buffer rw) \<and> hm_wf (rw_subnet_buffer rw) \<and>
     (\<forall>k i. hm_get (rw_key_to_info rw) k = Some i \<longrightarrow> ki_address i = addr_for_key px k \<and> ki_subnet i = subnet_for_key px k) \<and>
     (\<forall>a k. hm_get (rw_addr_to_info rw) a = Some k \<longrightarrow> addr_for_key px k = a) \<and>
     (\<forall>s k. hm_get (rw_subnet_to_info rw) s = Some k \<longrightarrow> subnet_for_key px k = s) \<and>
     (\<forall>a b. hm_get (rw_addr_buffer rw) a = Some b \<longrightarrow> dst_of (bp_data b) = a) \<and>
     (\<forall>s b. hm_get (rw_subnet_buffer rw) s = Some b \<longrightarrow> take 8 (dst_of (bp_data b)) = s)"

lemma store_okI:
  assumes "hm_wf (rw_addr_buffer rw)" "hm_wf (rw_subnet_buffer rw)"
    "\<And>k i. hm_get (rw_key_to_info rw) k = Some i \<Longrightarrow> ki_address i = addr_for_key px k \<and> ki_subnet i = subnet_for_key px k"
    "\<And>a k. hm_get (rw_addr_to_info rw) a = Some k \<Longrightarrow> addr_for_key px k = a"
    "\<And>s k. hm_get (rw_subnet_to_info rw) s = Some k \<Longrightarrow> subnet_for_key px k = s"
    "\<And>a b. hm_get (rw_addr_buffer rw) a = Some b \<Longrightarrow> dst_of (bp_data b) = a"
    "\<And>s b. hm_get (rw_subnet_buffer rw) s = Some b \<Longrightarrow> take 8 (dst_of (bp_data b)) = s"
  shows "store_ok px rw"
  using assms by (simp add: store_ok_def)

lemma store_ok_simps [simp]:
  "store_ok px (rw\<lparr>rw_firewall := f\<rparr>) = store_ok px rw"
  "store_ok px (rw\<lparr>rw_ckr := c\<rparr>) = store_ok px rw"
  "store_ok px (rw\<lparr>rw_mtu := m\<rparr>) = store_ok px rw"
  by (simp_all add: store_ok_def)

lemma rwc_new_ok: "store_ok px (rwc_new a s mtu fw)"
  by (simp add: store_ok_def rwc_new_def)

definition fresh :: "instant \<Rightarrow> public_key \<Rightarrow> rwc \<Rightarrow> bool" where
  "fresh now key rw \<longleftrightarrow>
     (case hm_get (rw_key_to_info rw) key of None \<Rightarrow> False | Some info \<Rightarrow> now - ki_last_seen info < KEY_STORE_TIMEOUT div 2)"

lemma update_key_fresh: "fresh now key rw \<Longrightarrow> update_key px now key rw = ([], rw)"
  by (simp add: update_key_def fresh_def)

lemma update_key_stale:
  "\<not> fresh now key rw \<Longrightarrow> update_key px now key rw =
    (flush_buffered now key (hm_get (rw_addr_buffer rw) (addr_for_key px key)) @
       flush_buffered now key (hm_get (rw_subnet_buffer rw) (subnet_for_key px key)),
     rw\<lparr>rw_key_to_info := hm_insert key \<lparr>ki_address = addr_for_key px key, ki_subnet = subnet_for_key px key, ki_last_seen = now\<rparr>
          (rw_key_to_info rw),
        rw_addr_to_info := hm_insert (addr_for_key px key) key (rw_addr_to_info rw),
        rw_subnet_to_info := hm_insert (subnet_for_key px key) key (rw_subnet_to_info rw),
        rw_addr_buffer := hm_remove (addr_for_key px key) (rw_addr_buffer rw),
        rw_subnet_buffer := hm_remove (subnet_for_key px key) (rw_subnet_buffer rw)\<rparr>)"
  by (simp add: update_key_def fresh_def Let_def)

lemma update_key_ok:
  assumes "store_ok px rw"
  shows "store_ok px (snd (update_key px now key rw))"
proof (cases "fresh now key rw")
  case True
  then show ?thesis using assms by (simp add: update_key_fresh)
next
  case False
  then show ?thesis using assms
    by (intro store_okI) (auto simp: update_key_stale store_ok_def split: if_splits)
qed

lemma update_key_calls:
  assumes "store_ok px rw" "c \<in> set (fst (update_key px now key rw))"
  shows "\<exists>d. c = Write_to d key \<and> owns px key (dst_of d)"
proof -
  obtain b where "c = Write_to (bp_data b) key"
    "hm_get (rw_addr_buffer rw) (addr_for_key px key) = Some b \<or> hm_get (rw_subnet_buffer rw) (subnet_for_key px key) = Some b"
    using assms(2) by (cases "fresh now key rw")
      (auto simp: update_key_fresh update_key_stale flush_buffered_def split: if_splits option.splits)
  then show ?thesis using assms(1) by (auto simp: store_ok_def owns_def)
qed

lemma update_key_frame:
  "rw_ckr (snd (update_key px now key rw)) = rw_ckr rw" "rw_firewall (snd (update_key px now key rw)) = rw_firewall rw"
  "rw_address (snd (update_key px now key rw)) = rw_address rw" "rw_subnet (snd (update_key px now key rw)) = rw_subnet rw"
  "rw_mtu (snd (update_key px now key rw)) = rw_mtu rw"
  by (cases "fresh now key rw"; simp add: update_key_fresh update_key_stale)+

text \<open>After \<open>update_key\<close> the store knows the key, so the source check is one about the key.\<close>

lemma src_matches_updated:
  assumes "store_ok px rw"
  shows "src_matches (snd (update_key px now key rw)) key ip \<longleftrightarrow> owns px key ip"
proof -
  obtain i where "hm_get (rw_key_to_info (snd (update_key px now key rw))) key = Some i"
    by (cases "fresh now key rw") (auto simp: update_key_fresh update_key_stale fresh_def split: option.splits)
  then show ?thesis using update_key_ok [OF assms, of now key] by (simp add: src_matches_def owns_def store_ok_def)
qed

section \<open>The decision on inbound packets\<close>

definition firewall_lets :: "ipnet_lib \<Rightarrow> instant \<Rightarrow> bytes \<Rightarrow> rwc \<Rightarrow> bool" where
  "firewall_lets L now packet rw =
     (case rw_firewall rw of None \<Rightarrow> True | Some fw \<Rightarrow> fw_enable fw \<longrightarrow> fst (check_inbound L now packet fw))"

lemma fst_firewall_check: "fst (firewall_check L now packet rw) = firewall_lets L now packet rw"
  by (simp add: firewall_check_def firewall_lets_def case_prod_beta Let_def split: option.splits)

lemma firewall_check_frame: "\<exists>f. snd (firewall_check L now packet rw) = rw\<lparr>rw_firewall := f\<rparr>"
proof -
  have keep: "\<exists>f. rw = rw\<lparr>rw_firewall := f\<rparr>" by (rule exI [of _ "rw_firewall rw"]) simp
  then show ?thesis by (auto simp: firewall_check_def case_prod_beta Let_def split: option.splits)
qed

text \<open>The route that the crypto-key table has for the source of a packet.\<close>

definition source_route :: "prefixes \<Rightarrow> crypto_key \<Rightarrow> bytes \<Rightarrow> public_key option" where
  "source_route px ck packet =
     (if is_ip4 packet
      then if length packet < 20 then None else get_public_key_for_address px ck (AddrV4 (ipv4_from (take 4 (drop 12 packet))))
      else get_public_key_for_address px ck (AddrV6 (ipv6_from (src_of packet))))"

lemma ip4_not_ip6: "is_ip4 packet \<Longrightarrow> \<not> is_ip6 packet"
  by (auto simp: is_ip4_def is_ip6_def)

lemma ckr_read_validate_iff:
  "ckr_read_validate px ck packet key rw \<longleftrightarrow>
     is_ip6 packet \<and> ck_yggdrasil_routing ck \<and> src_matches rw key (src_of packet) \<or> source_route px ck packet = Some key"
  by (auto simp: ckr_read_validate_def source_route_def Let_def ip4_not_ip6 split: option.splits)

definition wants_packet :: "rwc_env \<Rightarrow> instant \<Rightarrow> bytes \<Rightarrow> public_key \<Rightarrow> rwc \<Rightarrow> bool" where
  "wants_packet env now packet key rw \<longleftrightarrow>
     length packet \<le> unat (rw_mtu rw) \<and>
     (case rw_ckr rw of
        None \<Rightarrow> is_ip6 packet \<and> IPV6_HEADER_LEN \<le> length packet \<and>
          (dst_of packet = rw_address rw \<or> take 8 (dst_of packet) = rw_subnet rw) \<and> owns (re_prefixes env) key (src_of packet)
      | Some ck \<Rightarrow> (is_ip4 packet \<or> is_ip6 packet \<and> IPV6_HEADER_LEN \<le> length packet) \<and>
          (is_ip6 packet \<and> ck_yggdrasil_routing ck \<and> owns (re_prefixes env) key (src_of packet) \<or>
           source_route (re_prefixes env) ck packet = Some key)) \<and>
     (is_ip6 packet \<longrightarrow> firewall_lets (re_ipnet env) now packet rw)"

text \<open>The cases of \<open>accept_inbound\<close> after the checks of the header and of the length.\<close>

definition header_ok :: "bytes \<Rightarrow> rwc \<Rightarrow> bool" where
  "header_ok packet rw \<longleftrightarrow> (is_ip6 packet \<and> IPV6_HEADER_LEN \<le> length packet) \<or> (is_ip4 packet \<and> rw_ckr rw \<noteq> None)"

lemma accept_inbound_bad: "\<not> header_ok packet rw \<Longrightarrow> accept_inbound env now packet key rw = (False, [], rw)"
  by (auto simp: accept_inbound_def header_ok_def Let_def ip4_not_ip6)

lemma accept_inbound_big:
  "header_ok packet rw \<Longrightarrow> unat (rw_mtu rw) < length packet \<Longrightarrow>
    accept_inbound env now packet key rw =
      (False, (if is_ip6 packet then case build_icmpv6_ptb packet (rw_mtu rw) of None \<Rightarrow> [] | Some ptb \<Rightarrow> [Write_to ptb key] else []), rw)"
  by (auto simp: accept_inbound_def header_ok_def Let_def ip4_not_ip6 is_ip4_def is_ip6_def IPV6_HEADER_LEN_def)

lemma accept_inbound_fits:
  assumes "header_ok packet rw" "length packet \<le> unat (rw_mtu rw)"
  shows "accept_inbound env now packet key rw =
    (let (calls, rw) = update_key (re_prefixes env) now key rw;
         ok = (case rw_ckr rw of
                 None \<Rightarrow> (dst_of packet = rw_address rw \<or> take 8 (dst_of packet) = rw_subnet rw) \<and> src_matches rw key (src_of packet)
               | Some ck \<Rightarrow> ckr_read_validate (re_prefixes env) ck packet key rw)
     in if \<not> ok then (False, calls, rw)
        else if is_ip6 packet
        then (fst (firewall_check (re_ipnet env) now packet rw), calls, snd (firewall_check (re_ipnet env) now packet rw))
        else (True, calls, rw))"
proof -
  have "rw_ckr (snd (update_key (re_prefixes env) now key rw)) = rw_ckr rw" by (rule update_key_frame)
  then show ?thesis using assms
    by (auto simp: accept_inbound_def header_ok_def Let_def case_prod_beta IPV6_HEADER_LEN_def is_ip4_def is_ip6_def split: option.splits)
qed

lemma accept_inbound_iff:
  assumes "store_ok (re_prefixes env) rw"
  shows "fst (accept_inbound env now packet key rw) \<longleftrightarrow> wants_packet env now packet key rw"
proof (cases "header_ok packet rw \<and> length packet \<le> unat (rw_mtu rw)")
  case True
  let ?rw = "snd (update_key (re_prefixes env) now key rw)"
  have lets: "firewall_lets L now packet ?rw = firewall_lets L now packet rw" for L
    by (simp add: firewall_lets_def update_key_frame)
  show ?thesis
    using True src_matches_updated [OF assms, of now key]
    by (auto simp: accept_inbound_fits Let_def case_prod_beta update_key_frame fst_firewall_check lets wants_packet_def
        ckr_read_validate_iff header_ok_def ip4_not_ip6 split: option.splits)
next
  case False
  then have "\<not> fst (accept_inbound env now packet key rw)"
    using accept_inbound_bad [of packet rw env now key] accept_inbound_big [of packet rw env now key]
    by (cases "header_ok packet rw") simp_all
  moreover have "\<not> wants_packet env now packet key rw"
    using False by (auto simp: wants_packet_def header_ok_def split: option.splits)
  ultimately show ?thesis by blast
qed

section \<open>The key store in a run\<close>

lemma forget_key_ok: "store_ok px rw \<Longrightarrow> store_ok px (forget_key key rw)"
  by (intro store_okI) (auto simp: forget_key_def store_ok_def split: option.splits if_splits)

lemma forget_keys_ok: "store_ok px rw \<Longrightarrow> store_ok px (fold forget_key ks rw)"
  by (induction ks arbitrary: rw) (simp_all add: forget_key_ok)

lemma cleanup_ok: "store_ok px rw \<Longrightarrow> store_ok px (cleanup now rw)"
proof -
  assume "store_ok px rw"
  from forget_keys_ok [OF this] show ?thesis unfolding cleanup_def Let_def
    by (intro store_okI) (auto simp: store_ok_def hm_get_retain split: option.splits if_splits)
qed

lemma observe_ok [simp]: "store_ok px (observe now buf rw) = store_ok px rw"
  by (simp add: observe_def split: option.splits)

lemma observe_frame:
  "rw_ckr (observe now buf rw) = rw_ckr rw" "rw_addr_to_info (observe now buf rw) = rw_addr_to_info rw"
  "rw_subnet_to_info (observe now buf rw) = rw_subnet_to_info rw" "rw_key_to_info (observe now buf rw) = rw_key_to_info rw"
  "rw_addr_buffer (observe now buf rw) = rw_addr_buffer rw" "rw_subnet_buffer (observe now buf rw) = rw_subnet_buffer rw"
  "rw_address (observe now buf rw) = rw_address rw" "rw_subnet (observe now buf rw) = rw_subnet rw"
  by (simp_all add: observe_def split: option.splits)

lemma buffer_and_lookup_ok: "store_ok px rw \<Longrightarrow> store_ok px (snd (snd (buffer_and_lookup now buf (dst_of buf) v rw)))"
  by (intro store_okI) (auto simp: buffer_and_lookup_def store_ok_def Let_def simp del: map_of_eq_Some_iff split: if_splits)

text \<open>An outbound packet is written to a key, waits under its destination, or is dropped.\<close>

definition destination_route :: "prefixes \<Rightarrow> crypto_key \<Rightarrow> bytes \<Rightarrow> public_key option" where
  "destination_route px ck buf =
     get_public_key_for_address px ck (if is_ip4 buf then AddrV4 (ipv4_from (take 4 (drop 16 buf))) else AddrV6 (ipv6_from (dst_of buf)))"

lemma rwc_write_cases:
  obtains (drop) r where "rwc_write env now buf rw = (r, [], observe now buf rw)"
  | (known) key where "lookup_destination rw (dst_of buf) (is_valid_address (re_prefixes env) (dst_of buf)) = Some key"
      "rwc_write env now buf rw = core_write_to env buf key (observe now buf rw)"
  | (route) ck key where "rw_ckr rw = Some ck" "destination_route (re_prefixes env) ck buf = Some key"
      "rwc_write env now buf rw = core_write_to env buf key (observe now buf rw)"
  | (wait) "lookup_destination rw (dst_of buf) (is_valid_address (re_prefixes env) (dst_of buf)) = None"
      "rwc_write env now buf rw =
        buffer_and_lookup now buf (dst_of buf) (is_valid_address (re_prefixes env) (dst_of buf)) (observe now buf rw)"
proof -
  have look: "lookup_destination (observe now buf rw) d v = lookup_destination rw d v" for d v
    by (simp add: lookup_destination_def observe_frame)
  let ?px = "re_prefixes env" and ?d = "dst_of buf"
  let ?v = "is_valid_address ?px ?d"
  have known_or_wait: thesis if "rwc_write env now buf rw = (case lookup_destination rw ?d ?v of
      Some key \<Rightarrow> core_write_to env buf key (observe now buf rw) | None \<Rightarrow> buffer_and_lookup now buf ?d ?v (observe now buf rw))"
    using that known wait by (cases "lookup_destination rw ?d ?v") simp_all
  show thesis
  proof (cases "rw_ckr rw")
    case None
    show ?thesis
    proof (cases "IPV6_HEADER_LEN \<le> length buf \<and> is_ip6 buf \<and> (src_of buf = rw_address rw \<or> take 8 (src_of buf) = rw_subnet rw) \<and>
        (?v \<or> is_valid_subnet ?px (take 8 ?d))")
      case True
      then show ?thesis using None by (intro known_or_wait) (auto simp: rwc_write_def Let_def observe_frame look)
    next
      case False
      then have "\<exists>r. rwc_write env now buf rw = (r, [], observe now buf rw)"
        using None by (auto simp: rwc_write_def Let_def observe_frame)
      then show ?thesis using drop by blast
    qed
  next
    case (Some ck)
    show ?thesis
    proof (cases "(is_ip4 buf \<and> 20 \<le> length buf) \<or> (is_ip6 buf \<and> IPV6_HEADER_LEN \<le> length buf)")
      case False
      then have "\<exists>r. rwc_write env now buf rw = (r, [], observe now buf rw)"
        using Some ip4_not_ip6 [of buf] by (auto simp: rwc_write_def ckr_write_def Let_def observe_frame not_le)
      then show ?thesis using drop by blast
    next
      case ok: True
      then have w: "rwc_write env now buf rw = ckr_write env now ck buf (observe now buf rw)"
        using Some ip4_not_ip6 [of buf] by (auto simp: rwc_write_def Let_def observe_frame)
      show ?thesis
      proof (cases "is_ip6 buf \<and> ck_yggdrasil_routing ck \<and> (?v \<or> is_valid_subnet ?px (take 8 ?d))")
        case True
        then show ?thesis using ok ip4_not_ip6 [of buf] by (intro known_or_wait) (auto simp: w ckr_write_def Let_def look)
      next
        case False
        then have "rwc_write env now buf rw = (case destination_route ?px ck buf of
            Some key \<Rightarrow> core_write_to env buf key (observe now buf rw) | None \<Rightarrow> (Inr (length buf), [], observe now buf rw))"
          using ok ip4_not_ip6 [of buf] unfolding w ckr_write_def destination_route_def Let_def by (auto simp: not_less)
        then show ?thesis using drop route [OF Some] by (cases "destination_route ?px ck buf") simp_all
      qed
    qed
  qed
qed

lemma rwc_write_ok:
  assumes "store_ok px rw"
  shows "store_ok px (snd (snd (rwc_write env now buf rw)))"
proof (cases rule: rwc_write_cases [of env now buf rw])
  case wait
  then show ?thesis using assms by (simp add: buffer_and_lookup_ok)
qed (use assms in \<open>simp_all add: core_write_to_def\<close>)

lemma accept_inbound_ok:
  assumes "store_ok (re_prefixes env) rw"
  shows "store_ok (re_prefixes env) (snd (snd (accept_inbound env now packet key rw)))"
proof (cases "header_ok packet rw \<and> length packet \<le> unat (rw_mtu rw)")
  case True
  have "store_ok (re_prefixes env) (snd (firewall_check L now packet rw'))" if "store_ok (re_prefixes env) rw'" for L rw'
    using firewall_check_frame [of L now packet rw'] that by auto
  then show ?thesis using True update_key_ok [OF assms, of now key] by (simp add: accept_inbound_fits Let_def case_prod_beta)
next
  case False
  then show ?thesis using assms accept_inbound_bad [of packet rw env now key] accept_inbound_big [of packet rw env now key]
    by (cases "header_ok packet rw") simp_all
qed

lemma rwc_step_ok: "store_ok (re_prefixes env) rw \<Longrightarrow> store_ok (re_prefixes env) (snd (rwc_step env e rw))"
  by (cases e) (simp_all add: accept_inbound_ok rwc_write_ok update_key_ok cleanup_ok set_mtu_def)

interpretation rwc_store: event_invariant "\<lambda>e rw. snd (rwc_step env e rw)" "\<lambda>_. True" "store_ok (re_prefixes env)" for env
  by unfold_locales (rule rwc_step_ok)

lemma rwc_run_ok: "store_ok (re_prefixes env) (rwc_run env es (rwc_new a s mtu fw))"
  by (rule rwc_store.run_inv [OF rwc_new_ok]) (simp add: list_all_iff)

section \<open>Where packets go\<close>

lemma accept_inbound_calls:
  assumes "c \<in> set (fst (snd (accept_inbound env now packet key rw)))"
  shows "c \<in> set (fst (update_key (re_prefixes env) now key rw)) \<or>
    (\<exists>ptb. build_icmpv6_ptb packet (rw_mtu rw) = Some ptb \<and> c = Write_to ptb key)"
proof (cases "header_ok packet rw \<and> length packet \<le> unat (rw_mtu rw)")
  case True
  then show ?thesis using assms by (auto simp: accept_inbound_fits Let_def case_prod_beta split: if_splits)
next
  case big: False
  show ?thesis
  proof (cases "header_ok packet rw")
    case True
    then have long: "unat (rw_mtu rw) < length packet" using big by simp
    from assms show ?thesis unfolding accept_inbound_big [OF True long]
      by (cases "is_ip6 packet"; cases "build_icmpv6_ptb packet (rw_mtu rw)") auto
  next
    case False
    from assms show ?thesis unfolding accept_inbound_bad [OF False] by simp
  qed
qed

lemma lookup_destination_owns:
  "store_ok px rw \<Longrightarrow> lookup_destination rw d v = Some key \<Longrightarrow> owns px key d"
  by (auto simp: lookup_destination_def store_ok_def owns_def split: if_splits)

lemma rwc_write_calls:
  assumes "store_ok (re_prefixes env) rw" "Write_to d key \<in> set (fst (snd (rwc_write env now buf rw)))"
  shows "d = buf \<and> (owns (re_prefixes env) key (dst_of d) \<or>
    (\<exists>ck. rw_ckr rw = Some ck \<and> destination_route (re_prefixes env) ck d = Some key))"
proof (cases rule: rwc_write_cases [of env now buf rw])
  case (known k)
  then show ?thesis using assms lookup_destination_owns [OF assms(1)] by (auto simp: core_write_to_def)
qed (use assms in \<open>auto simp: core_write_to_def buffer_and_lookup_def Let_def split: if_splits\<close>)

lemma packets_go_to_owner:
  assumes "rw = rwc_run env es (rwc_new a s mtu fw)" "Write_to d key \<in> set (fst (rwc_step env e rw))"
  shows "owns (re_prefixes env) key (dst_of d) \<or>
    (\<exists>ck. rw_ckr rw = Some ck \<and> destination_route (re_prefixes env) ck d = Some key) \<or>
    (\<exists>now packet. e = From_net now packet key \<and> build_icmpv6_ptb packet (rw_mtu rw) = Some d)"
proof (cases e)
  case (From_net now packet k)
  then show ?thesis using assms accept_inbound_calls [of _ env now packet k rw] update_key_calls [OF rwc_run_ok, of _ env]
    by fastforce
next
  case (From_tun now buf)
  then show ?thesis using assms rwc_write_calls [OF rwc_run_ok, of d key env] by auto
next
  case (Learn now k)
  then show ?thesis using assms update_key_calls [OF rwc_run_ok, of _ env] by fastforce
qed (use assms in auto)


section \<open>Waiting packets\<close>

text \<open>A packet waits under its destination address, or under its subnet.\<close>

definition wait_slot :: "prefixes \<Rightarrow> bytes \<Rightarrow> bytes + bytes" where
  "wait_slot px buf = (if is_valid_address px (dst_of buf) then Inl (dst_of buf) else Inr (take 8 (dst_of buf)))"

fun slot_get :: "rwc \<Rightarrow> bytes + bytes \<Rightarrow> buffered_packet option" where
  "slot_get rw (Inl a) = hm_get (rw_addr_buffer rw) a"
| "slot_get rw (Inr s) = hm_get (rw_subnet_buffer rw) s"

fun slot_known :: "rwc \<Rightarrow> bytes + bytes \<Rightarrow> public_key option" where
  "slot_known rw (Inl a) = hm_get (rw_addr_to_info rw) a"
| "slot_known rw (Inr s) = hm_get (rw_subnet_to_info rw) s"

definition slots_of :: "prefixes \<Rightarrow> public_key \<Rightarrow> (bytes + bytes) set" where
  "slots_of px key = {Inl (addr_for_key px key), Inr (subnet_for_key px key)}"

text \<open>No two of the keys share an address or a subnet.\<close>

definition distinct_owners :: "prefixes \<Rightarrow> public_key set \<Rightarrow> bool" where
  "distinct_owners px ks \<longleftrightarrow> inj_on (addr_for_key px) ks \<and> inj_on (subnet_for_key px) ks"

fun event_keys :: "rwc_event list \<Rightarrow> public_key set" where
  "event_keys [] = {}"
| "event_keys (From_net _ _ key # es) = insert key (event_keys es)"
| "event_keys (Learn _ key # es) = insert key (event_keys es)"
| "event_keys (_ # es) = event_keys es"

text \<open>A key that the store knows is found under its address and its subnet, and no packet waits
  under a destination that is known.\<close>

definition waits_ok :: "prefixes \<Rightarrow> public_key set \<Rightarrow> rwc \<Rightarrow> bool" where
  "waits_ok px ks rw \<longleftrightarrow> store_ok px rw \<and>
     (\<forall>k. hm_get (rw_key_to_info rw) k \<noteq> None \<longrightarrow> k \<in> ks \<and> (\<forall>x \<in> slots_of px k. slot_known rw x = Some k)) \<and>
     (\<forall>x. slot_get rw x \<noteq> None \<longrightarrow> slot_known rw x = None)"

lemma waits_ok_simps [simp]:
  "waits_ok px ks (rw\<lparr>rw_firewall := f\<rparr>) = waits_ok px ks rw"
  "waits_ok px ks (rw\<lparr>rw_ckr := c\<rparr>) = waits_ok px ks rw"
  "waits_ok px ks (rw\<lparr>rw_mtu := m\<rparr>) = waits_ok px ks rw"
proof -
  have "slot_get (rw\<lparr>rw_firewall := f\<rparr>) x = slot_get rw x" "slot_known (rw\<lparr>rw_firewall := f\<rparr>) x = slot_known rw x"
    "slot_get (rw\<lparr>rw_ckr := c\<rparr>) x = slot_get rw x" "slot_known (rw\<lparr>rw_ckr := c\<rparr>) x = slot_known rw x"
    "slot_get (rw\<lparr>rw_mtu := m\<rparr>) x = slot_get rw x" "slot_known (rw\<lparr>rw_mtu := m\<rparr>) x = slot_known rw x" for x
    by (cases x; simp)+
  then show "waits_ok px ks (rw\<lparr>rw_firewall := f\<rparr>) = waits_ok px ks rw" "waits_ok px ks (rw\<lparr>rw_ckr := c\<rparr>) = waits_ok px ks rw"
    "waits_ok px ks (rw\<lparr>rw_mtu := m\<rparr>) = waits_ok px ks rw"
    by (simp_all add: waits_ok_def)
qed

lemma slots_disjoint:
  "distinct_owners px ks \<Longrightarrow> k \<in> ks \<Longrightarrow> k' \<in> ks \<Longrightarrow> x \<in> slots_of px k \<Longrightarrow> x \<in> slots_of px k' \<Longrightarrow> k = k'"
  by (auto simp: distinct_owners_def slots_of_def dest: inj_onD)

lemma slots_update_key:
  "slot_get (snd (update_key px now key rw)) x =
     (if \<not> fresh now key rw \<and> x \<in> slots_of px key then None else slot_get rw x)"
  "slot_known (snd (update_key px now key rw)) x =
     (if \<not> fresh now key rw \<and> x \<in> slots_of px key then Some key else slot_known rw x)"
  by (cases x; cases "fresh now key rw"; simp add: update_key_fresh update_key_stale slots_of_def)+

lemma update_key_waits:
  assumes "waits_ok px ks rw" "distinct_owners px ks" "key \<in> ks"
  shows "waits_ok px ks (snd (update_key px now key rw))"
proof (cases "fresh now key rw")
  case True
  then show ?thesis using assms by (simp add: update_key_fresh)
next
  case False
  have known: "hm_get (rw_key_to_info (snd (update_key px now key rw))) k \<noteq> None \<longleftrightarrow> k = key \<or> hm_get (rw_key_to_info rw) k \<noteq> None" for k
    using False by (simp add: update_key_stale)
  have "slot_known (snd (update_key px now key rw)) x = Some k"
    if "hm_get (rw_key_to_info (snd (update_key px now key rw))) k \<noteq> None" "x \<in> slots_of px k" for k x
    using that assms(1,3) False slots_disjoint [OF assms(2), of k key x]
    unfolding known by (auto simp: slots_update_key waits_ok_def)
  moreover have "slot_known (snd (update_key px now key rw)) x = None" if "slot_get (snd (update_key px now key rw)) x \<noteq> None" for x
    using that assms(1) False by (auto simp: slots_update_key waits_ok_def split: if_splits)
  moreover have "store_ok px (snd (update_key px now key rw))" using assms(1) by (simp add: waits_ok_def update_key_ok)
  moreover have "k \<in> ks" if "hm_get (rw_key_to_info (snd (update_key px now key rw))) k \<noteq> None" for k
    using that assms(1,3) unfolding known waits_ok_def by blast
  ultimately show ?thesis by (simp add: waits_ok_def)
qed

lemma slots_forget_key:
  assumes "store_ok px rw"
  shows "slot_get (forget_key key rw) x = slot_get rw x"
    "slot_known (forget_key key rw) x =
       (if hm_get (rw_key_to_info rw) key \<noteq> None \<and> x \<in> slots_of px key then None else slot_known rw x)"
  using assms by (cases x; auto simp: forget_key_def store_ok_def slots_of_def split: option.splits)+

lemma forget_key_known:
  "hm_get (rw_key_to_info (forget_key key rw)) k = (if k = key then None else hm_get (rw_key_to_info rw) k)"
  by (simp add: forget_key_def split: option.splits)

lemma forget_key_waits:
  assumes "waits_ok px ks rw" "distinct_owners px ks"
  shows "waits_ok px ks (forget_key key rw)"
proof -
  have s: "store_ok px rw" using assms(1) by (simp add: waits_ok_def)
  have "slot_known (forget_key key rw) x = Some k"
    if "hm_get (rw_key_to_info (forget_key key rw)) k \<noteq> None" "x \<in> slots_of px k" for k x
  proof -
    have k: "k \<noteq> key" "hm_get (rw_key_to_info rw) k \<noteq> None" using that(1) by (auto simp: forget_key_known split: if_splits)
    have "x \<notin> slots_of px key" if "hm_get (rw_key_to_info rw) key \<noteq> None"
      using that k \<open>x \<in> slots_of px k\<close> assms slots_disjoint [of px ks k key x] by (auto simp: waits_ok_def)
    then show ?thesis using k that(2) assms(1) unfolding slots_forget_key(2) [OF s] waits_ok_def by auto
  qed
  moreover have "slot_known (forget_key key rw) x = None" if "slot_get (forget_key key rw) x \<noteq> None" for x
    using that assms(1) unfolding slots_forget_key [OF s] waits_ok_def by auto
  ultimately show ?thesis using assms(1) forget_key_ok [OF s, of key] unfolding waits_ok_def forget_key_known
    by (metis (full_types))
qed

lemma forget_keys_waits: "waits_ok px ks rw \<Longrightarrow> distinct_owners px ks \<Longrightarrow> waits_ok px ks (fold forget_key l rw)"
  by (induction l arbitrary: rw) (simp_all add: forget_key_waits)

lemma forget_keys_slots: "store_ok px rw \<Longrightarrow> slot_get (fold forget_key l rw) x = slot_get rw x"
  by (induction l arbitrary: rw) (simp_all add: slots_forget_key forget_key_ok)

lemma slot_get_cleanup:
  assumes "store_ok px rw"
  shows "slot_get (cleanup now rw) x =
    (case slot_get rw x of None \<Rightarrow> None | Some b \<Rightarrow> if now - bp_time b < KEY_STORE_TIMEOUT then Some b else None)"
proof -
  define l where "l = map fst (filter (\<lambda>(_, info). now - ki_last_seen info > KEY_STORE_TIMEOUT) (rw_key_to_info rw))"
  have "store_ok px (fold forget_key l rw)" by (rule forget_keys_ok [OF assms])
  moreover have "slot_get (fold forget_key l rw) x = slot_get rw x" by (rule forget_keys_slots [OF assms])
  ultimately show ?thesis unfolding cleanup_def Let_def l_def [symmetric] by (cases x) (simp_all add: hm_get_retain store_ok_def)
qed

lemma cleanup_waits:
  assumes "waits_ok px ks rw" "distinct_owners px ks"
  shows "waits_ok px ks (cleanup now rw)"
proof -
  define rw' where "rw' = fold forget_key (map fst (filter (\<lambda>(_, info). now - ki_last_seen info > KEY_STORE_TIMEOUT) (rw_key_to_info rw))) rw"
  have "waits_ok px ks rw'" unfolding rw'_def by (rule forget_keys_waits [OF assms])
  moreover have "slot_known (cleanup now rw) x = slot_known rw' x" for x
    by (cases x) (simp_all add: cleanup_def Let_def rw'_def)
  moreover have "slot_get (cleanup now rw) x \<noteq> None \<Longrightarrow> slot_get rw' x \<noteq> None" for x
    using assms(1) slot_get_cleanup [of px rw now x] forget_keys_slots [of px rw _ x]
    by (auto simp: rw'_def waits_ok_def split: option.splits)
  moreover have "rw_key_to_info (cleanup now rw) = rw_key_to_info rw'" by (simp add: cleanup_def Let_def rw'_def)
  ultimately show ?thesis using assms(1) cleanup_ok [of px rw now] unfolding waits_ok_def by metis
qed

lemma observe_waits [simp]: "waits_ok px ks (observe now buf rw) = waits_ok px ks rw"
  by (simp add: observe_def split: option.splits)

lemma slots_observe [simp]:
  "slot_get (observe now buf rw) x = slot_get rw x" "slot_known (observe now buf rw) x = slot_known rw x"
  by (cases x; simp add: observe_frame)+

lemma lookup_destination_slot: "lookup_destination rw (dst_of buf) (is_valid_address px (dst_of buf)) = slot_known rw (wait_slot px buf)"
  by (simp add: lookup_destination_def wait_slot_def)

lemma slots_buffer:
  fixes px now buf rw
  defines "rw' \<equiv> snd (snd (buffer_and_lookup now buf (dst_of buf) (is_valid_address px (dst_of buf)) rw))"
  shows "slot_get rw' x = (if x = wait_slot px buf then Some \<lparr>bp_data = buf, bp_time = now\<rparr> else slot_get rw x)"
    "slot_known rw' x = slot_known rw x" "rw_key_to_info rw' = rw_key_to_info rw"
  unfolding rw'_def by (cases x; simp add: buffer_and_lookup_def wait_slot_def Let_def)+

lemma rwc_write_waits:
  assumes "waits_ok (re_prefixes env) ks rw"
  shows "waits_ok (re_prefixes env) ks (snd (snd (rwc_write env now buf rw)))"
proof (cases rule: rwc_write_cases [of env now buf rw])
  case wait
  then have "slot_known rw (wait_slot (re_prefixes env) buf) = None" by (simp only: lookup_destination_slot)
  moreover have "store_ok (re_prefixes env) (snd (snd (rwc_write env now buf rw)))"
    using assms by (simp add: waits_ok_def rwc_write_ok)
  ultimately show ?thesis using assms
    unfolding waits_ok_def wait(2) slots_buffer slots_observe observe_frame by auto
qed (use assms in \<open>simp_all add: core_write_to_def\<close>)

text \<open>An inbound packet touches the key store through \<open>update_key\<close> only.\<close>

lemma accept_inbound_store:
  "\<exists>rw' f. snd (snd (accept_inbound env now packet key rw)) = rw'\<lparr>rw_firewall := f\<rparr> \<and>
    (rw' = rw \<or> rw' = snd (update_key (re_prefixes env) now key rw))"
proof (cases "header_ok packet rw \<and> length packet \<le> unat (rw_mtu rw)")
  case True
  have keep: "\<exists>f. r = r\<lparr>rw_firewall := f\<rparr>" for r :: rwc by (rule exI [of _ "rw_firewall r"]) simp
  have "\<exists>f. snd (snd (accept_inbound env now packet key rw)) = (snd (update_key (re_prefixes env) now key rw))\<lparr>rw_firewall := f\<rparr>"
    using True firewall_check_frame [of "re_ipnet env" now packet] keep
    by (auto simp: accept_inbound_fits Let_def case_prod_beta)
  then show ?thesis by blast
next
  case False
  then have "snd (snd (accept_inbound env now packet key rw)) = rw"
    using accept_inbound_bad [of packet rw env now key] accept_inbound_big [of packet rw env now key]
    by (cases "header_ok packet rw") simp_all
  then show ?thesis by (intro exI [of _ rw] exI [of _ "rw_firewall rw"]) simp
qed

lemma rwc_step_waits:
  assumes "waits_ok (re_prefixes env) ks rw" "distinct_owners (re_prefixes env) ks" "event_keys [e] \<subseteq> ks"
  shows "waits_ok (re_prefixes env) ks (snd (rwc_step env e rw))"
proof (cases e)
  case (From_net now packet key)
  then show ?thesis using assms accept_inbound_store [of env now packet key rw] update_key_waits [OF assms(1,2), of key now] by auto
qed (use assms in \<open>simp_all add: rwc_write_waits update_key_waits cleanup_waits set_mtu_def\<close>)

lemma event_keys_Cons: "event_keys (e # es) = event_keys [e] \<union> event_keys es"
  by (cases e) simp_all

lemma event_keys_append: "event_keys (es @ fs) = event_keys es \<union> event_keys fs"
  by (induction es rule: event_keys.induct) simp_all

lemma rwc_run_waits:
  assumes "distinct_owners (re_prefixes env) ks" "event_keys es \<subseteq> ks" "waits_ok (re_prefixes env) ks rw"
  shows "waits_ok (re_prefixes env) ks (rwc_run env es rw)"
  using assms(2,3)
proof (induction es arbitrary: rw)
  case (Cons e es)
  then have "event_keys [e] \<subseteq> ks" "event_keys es \<subseteq> ks" using event_keys_Cons [of e es] by auto
  then show ?case using Cons rwc_step_waits [OF Cons.prems(2) assms(1)] by simp
qed simp

lemma rwc_new_waits: "waits_ok px ks (rwc_new a s mtu fw)"
proof -
  have "slot_get (rwc_new a s mtu fw) x = None" for x by (cases x) (simp_all add: rwc_new_def)
  then show ?thesis by (simp add: waits_ok_def rwc_new_ok) (simp add: rwc_new_def)
qed

text \<open>The events that leave a waiting packet alone.\<close>

fun lets_wait :: "prefixes \<Rightarrow> bytes \<Rightarrow> instant \<Rightarrow> rwc_event \<Rightarrow> bool" where
  "lets_wait px buf since (From_net _ _ key) \<longleftrightarrow> wait_slot px buf \<notin> slots_of px key"
| "lets_wait px buf since (From_tun _ buf') \<longleftrightarrow> wait_slot px buf' \<noteq> wait_slot px buf"
| "lets_wait px buf since (Learn _ key) \<longleftrightarrow> wait_slot px buf \<notin> slots_of px key"
| "lets_wait px buf since (Clean now) \<longleftrightarrow> now - since < KEY_STORE_TIMEOUT"
| "lets_wait px buf since _ \<longleftrightarrow> True"

definition waiting :: "prefixes \<Rightarrow> bytes \<Rightarrow> instant \<Rightarrow> rwc \<Rightarrow> bool" where
  "waiting px buf since rw \<longleftrightarrow> store_ok px rw \<and> slot_get rw (wait_slot px buf) = Some \<lparr>bp_data = buf, bp_time = since\<rparr>"

lemma rwc_write_slots:
  "x \<noteq> wait_slot (re_prefixes env) buf \<Longrightarrow> slot_get (snd (snd (rwc_write env now buf rw))) x = slot_get rw x"
  by (cases rule: rwc_write_cases [of env now buf rw]) (simp_all add: core_write_to_def slots_buffer)

lemma slots_fields [simp]:
  "slot_get (rw\<lparr>rw_firewall := f\<rparr>) x = slot_get rw x" "slot_get (rw\<lparr>rw_ckr := c\<rparr>) x = slot_get rw x"
  "slot_get (rw\<lparr>rw_mtu := m\<rparr>) x = slot_get rw x"
  by (cases x; simp)+

lemma rwc_step_waiting:
  assumes "waiting (re_prefixes env) buf since rw" "lets_wait (re_prefixes env) buf since e"
  shows "waiting (re_prefixes env) buf since (snd (rwc_step env e rw))"
proof -
  have ok: "store_ok (re_prefixes env) rw" using assms(1) by (simp add: waiting_def)
  have "slot_get (snd (rwc_step env e rw)) (wait_slot (re_prefixes env) buf) = slot_get rw (wait_slot (re_prefixes env) buf)"
  proof (cases e)
    case (From_net now packet key)
    then show ?thesis using assms(2) accept_inbound_store [of env now packet key rw] by (auto simp: slots_update_key)
  next
    case (Clean now)
    then show ?thesis using assms by (simp add: slot_get_cleanup [OF ok] waiting_def)
  qed (use assms(2) in \<open>auto simp: slots_update_key rwc_write_slots set_mtu_def\<close>)
  then show ?thesis using assms(1) rwc_step_ok [OF ok] by (simp add: waiting_def)
qed

interpretation rwc_waiting: event_invariant "\<lambda>e rw. snd (rwc_step env e rw)" "lets_wait (re_prefixes env) buf since"
    "waiting (re_prefixes env) buf since" for env buf since
  by unfold_locales (rule rwc_step_waiting)

lemma update_key_flushes:
  assumes "\<not> fresh now key rw" "slot_get rw x = Some b" "x \<in> slots_of px key" "now - bp_time b < KEY_STORE_TIMEOUT"
  shows "Write_to (bp_data b) key \<in> set (fst (update_key px now key rw))"
  using assms by (auto simp: update_key_stale slots_of_def flush_buffered_def)

lemma waits_not_fresh:
  "waits_ok px ks rw \<Longrightarrow> slot_get rw x = Some b \<Longrightarrow> x \<in> slots_of px key \<Longrightarrow> \<not> fresh now key rw"
  by (fastforce simp: waits_ok_def fresh_def split: option.splits)

text \<open>C15. A packet for an unknown destination is sent once the key is learned: when the bridge
  answers a packet with a lookup, and a key that owns the destination is learned less than 120 seconds
  later, the packet is written to that key, provided that no packet to the same destination replaced
  it and that no two keys of the run share an address or a subnet.\<close>

theorem buffered_packet_sent:
  assumes "px = re_prefixes env" "distinct_owners px (insert key (event_keys (es @ fs)))"
    "Send_lookup q \<in> set (fst (rwc_step env (From_tun since buf) (rwc_run env es (rwc_new a s mtu fw))))"
    "list_all (lets_wait px buf since) fs" "wait_slot px buf \<in> slots_of px key" "now - since < KEY_STORE_TIMEOUT"
  shows "Write_to buf key \<in> set (fst (rwc_step env (Learn now key) (rwc_run env (es @ From_tun since buf # fs) (rwc_new a s mtu fw))))"
proof -
  define rw where "rw = rwc_run env es (rwc_new a s mtu fw)"
  define rw' where "rw' = rwc_run env (es @ From_tun since buf # fs) (rwc_new a s mtu fw)"
  let ?ks = "insert key (event_keys (es @ fs))"
  have "slot_get (snd (snd (rwc_write env since buf rw))) (wait_slot px buf) = Some \<lparr>bp_data = buf, bp_time = since\<rparr>"
    using assms(3) unfolding rw_def [symmetric] assms(1)
    by (cases rule: rwc_write_cases [of env since buf rw]) (simp_all add: core_write_to_def slots_buffer)
  then have "waiting px buf since (snd (rwc_step env (From_tun since buf) rw))"
    by (simp add: waiting_def assms(1) rw_def rwc_write_ok rwc_run_ok)
  then have w: "waiting px buf since rw'"
    using rwc_waiting.run_inv [of env buf since _ fs] assms(4) unfolding assms(1) by (simp add: rw'_def rw_def)
  have "waits_ok px ?ks rw'" unfolding rw'_def assms(1)
    by (rule rwc_run_waits [OF assms(2) [unfolded assms(1)] _ rwc_new_waits]) (auto simp: event_keys_append)
  then have "\<not> fresh now key rw'" using w waits_not_fresh [of px ?ks rw' "wait_slot px buf" _ key now] assms(5) by (simp add: waiting_def)
  from update_key_flushes [OF this _ assms(5)] w assms(1,6) show ?thesis by (simp add: waiting_def rw'_def)
qed

section \<open>Concrete cases\<close>

definition sample_key :: "u8 \<Rightarrow> public_key" where
  "sample_key n = replicate 32 n"

definition rwc_sample_env :: rwc_env where
  "rwc_sample_env = \<lparr>re_prefixes = default_prefixes, re_ipnet = sample_ipnet Inl, re_core_write = \<lambda>buf _. Inr (length buf)\<rparr>"

definition rwc_sample_packet :: "public_key \<Rightarrow> public_key \<Rightarrow> bytes \<Rightarrow> bytes" where
  "rwc_sample_packet k k' payload =
     [0x60, 0, 0, 0, 0, 0, 59, 64] @ addr_for_key default_prefixes k @ addr_for_key default_prefixes k' @ payload"

definition sample_rwc :: "u8 \<Rightarrow> u64 \<Rightarrow> rwc" where
  "sample_rwc n mtu = rwc_new (addr_for_key default_prefixes (sample_key n)) (subnet_for_key default_prefixes (sample_key n)) mtu None"

lemma rwc_sample_packet_fields [simp]:
  "src_of (rwc_sample_packet k k' payload) = addr_for_key default_prefixes k"
  "dst_of (rwc_sample_packet k k' payload) = addr_for_key default_prefixes k'"
  "length (rwc_sample_packet k k' payload) = 40 + length payload" "is_ip6 (rwc_sample_packet k k' payload)"
  by (simp_all add: rwc_sample_packet_def is_ip6_def)

lemma sample_fields [simp]:
  "re_prefixes rwc_sample_env = default_prefixes" "rw_key_to_info (sample_rwc n mtu) = []" "rw_addr_buffer (sample_rwc n mtu) = []"
  "rw_subnet_buffer (sample_rwc n mtu) = []" "rw_ckr (sample_rwc n mtu) = None" "rw_firewall (sample_rwc n mtu) = None"
  "rw_addr_to_info (sample_rwc n mtu) = []"
  by (simp_all add: rwc_sample_env_def sample_rwc_def rwc_new_def)

lemma sample_write_waits:
  "rwc_write rwc_sample_env now (rwc_sample_packet (sample_key n) k' payload) (sample_rwc n mtu) =
    buffer_and_lookup now (rwc_sample_packet (sample_key n) k' payload) (addr_for_key default_prefixes k') True (sample_rwc n mtu)"
proof -
  have "rw_address (sample_rwc n mtu) = addr_for_key default_prefixes (sample_key n)" by (simp add: sample_rwc_def rwc_new_def)
  then show ?thesis
    by (simp add: rwc_write_def observe_def IPV6_HEADER_LEN_def addr_for_key_valid lookup_destination_def Let_def)
qed

lemma sample_step_waits:
  "rwc_step rwc_sample_env (From_tun now (rwc_sample_packet (sample_key n) k' payload)) (sample_rwc n mtu) =
    ([Send_lookup (address_get_key (addr_for_key default_prefixes k'))],
     (sample_rwc n mtu)\<lparr>rw_addr_buffer := hm_insert (addr_for_key default_prefixes k')
       \<lparr>bp_data = rwc_sample_packet (sample_key n) k' payload, bp_time = now\<rparr> []\<rparr>)"
  by (simp add: sample_write_waits buffer_and_lookup_def)

theorem buffered_packet_sent_witness:
  "Write_to (rwc_sample_packet (sample_key 2) (sample_key 1) []) (sample_key 1) \<in>
    set (fst (rwc_step rwc_sample_env (Learn (secs 100) (sample_key 1))
      (rwc_run rwc_sample_env ([] @ From_tun (secs 1) (rwc_sample_packet (sample_key 2) (sample_key 1) []) # [Clean (secs 60)]) (sample_rwc 2 1280))))"
  unfolding sample_rwc_def
proof (rule buffered_packet_sent [OF refl])
  show "Send_lookup (address_get_key (addr_for_key default_prefixes (sample_key 1))) \<in>
    set (fst (rwc_step rwc_sample_env (From_tun (secs 1) (rwc_sample_packet (sample_key 2) (sample_key 1) [])) (rwc_run rwc_sample_env []
      (rwc_new (addr_for_key default_prefixes (sample_key 2)) (subnet_for_key default_prefixes (sample_key 2)) 1280 None))))"
    unfolding sample_rwc_def [symmetric] fold_Nil id_apply sample_step_waits by simp
qed (simp_all add: distinct_owners_def KEY_STORE_TIMEOUT_def wait_slot_def slots_of_def addr_for_key_valid)


end
