(* ===== verification/Ptb.thy ===== *)
theory Ptb
  imports Ipv6rwc
begin

text \<open>
  The answer to an oversized packet, \<open>build_icmpv6_ptb\<close> of \<open>crates/yggdrasil/src/ipv6rwc.rs\<close>: its
  checksum is the one of RFC 4443 over the pseudo-header, none of its sums wraps, and the bridge of
  the sender delivers it, whatever its firewall.
\<close>

section \<open>One's complement sums\<close>

text \<open>The sum of RFC 1071: big-endian 16-bit units, an odd byte padded with zero.\<close>

fun unit_sum :: "bytes \<Rightarrow> nat" where
  "unit_sum [] = 0"
| "unit_sum [b] = 256 * unat b"
| "unit_sum (a # b # bs) = 256 * unat a + unat b + unit_sum bs"

lemma byte_le: "unat (b :: u8) \<le> 255"
  using unsigned_less [of b, where ?'a = nat] by simp

lemma unat_widen:
  "unat (ucast (b :: u8) :: u16) = unat b" "unat (ucast (b :: u8) :: u32) = unat b" "unat (ucast (w :: u16) :: u32) = unat w"
  using unsigned_less [of b, where ?'a = nat] unsigned_less [of w, where ?'a = nat]
  by (simp_all add: unsigned_ucast_eq take_bit_nat_eq_self)

lemma unit_sum_bound: "unit_sum bs \<le> 65535 * ((length bs + 1) div 2)"
proof (induction bs rule: unit_sum.induct)
  case (2 b)
  then show ?case using byte_le [of b] by simp
next
  case (3 a b bs)
  then show ?case using byte_le [of a] byte_le [of b] by simp
qed simp

lemma unit_sum_append: "even (length xs) \<Longrightarrow> unit_sum (xs @ ys) = unit_sum xs + unit_sum ys"
  by (induction xs rule: unit_sum.induct) simp_all

lemma unat_two_bytes: "unat (from_be_bytes [a, b] :: u16) = 256 * unat a + unat b"
proof -
  have "(from_be_bytes [a, b] :: u16) = push_bit 8 (ucast a) + ucast b"
    unfolding from_be_bytes_def by (simp, rule disjunctive_add [symmetric])
      (auto simp: bit_push_bit_iff bit_unsigned_iff dest: bit_imp_le_length)
  moreover have "unat (push_bit 8 (ucast a) :: u16) = 256 * unat a"
    using byte_le [of a] by (simp add: push_bit_eq_mult unat_word_ariths unat_widen)
  ultimately show ?thesis using byte_le [of a] byte_le [of b] by (simp add: unat_word_ariths unat_widen)
qed

lemma be_bytes_two: "\<exists>a b. be_bytes 2 w = [a, b]"
  by (simp add: numeral_2_eq_2)

lemma unit_sum_u16: "unit_sum (be_bytes 2 w) = unat w" for w :: u16
proof -
  obtain a b where ab: "be_bytes 2 w = [a, b]" using be_bytes_two by blast
  then have "w = from_be_bytes [a, b]" by (metis from_be_bytes_u16)
  then show ?thesis unfolding ab by (simp add: unat_two_bytes)
qed

lemma unat_sum_words: "length bs \<le> 2000 \<Longrightarrow> unat (sum_words bs) = unit_sum bs"
proof (induction bs rule: unit_sum.induct)
  case (2 b)
  then show ?case using byte_le [of b] by (simp add: push_bit_eq_mult unat_word_ariths unat_widen)
next
  case (3 a b bs)
  have "unat (ucast (from_be_bytes [a, b] :: u16) :: u32) = 256 * unat a + unat b"
    by (simp add: unat_widen unat_two_bytes)
  moreover have "256 * unat a + unat b + unit_sum bs < 2 ^ 32"
  proof -
    have "65535 * ((length bs + 1) div 2) \<le> 65535 * (1000 :: nat)" using 3(2) by (intro mult_le_mono) simp_all
    then show ?thesis using unit_sum_bound [of bs] byte_le [of a] byte_le [of b] by simp
  qed
  ultimately show ?case using 3 by (simp add: unat_word_ariths)
qed simp

text \<open>Folding the carries gives a representative modulo 65535, and zero for zero only.\<close>

lemma fold_carries_rep:
  "unat (fold_carries w) \<le> 65535 \<and> unat (fold_carries w) mod 65535 = unat w mod 65535 \<and> (0 < unat w \<longrightarrow> 0 < unat (fold_carries w))"
proof (induction w rule: fold_carries.induct)
  case (1 w)
  show ?case
  proof (cases "w > 0xFFFF")
    case False
    then show ?thesis by (subst (1 2 3) fold_carries.simps) (simp add: word_less_nat_alt not_less)
  next
    case True
    let ?v = "(w AND 0xFFFF) + drop_bit 16 w"
    have e: "fold_carries w = fold_carries ?v" using True by (subst fold_carries.simps) simp
    have "65536 \<le> unat w" using True by (simp add: word_less_nat_alt)
    then have "0 < unat w div 65536" by (simp add: div_greater_zero_iff)
    then have pos: "0 < unat ?v" by (simp only: carry_step)
    have "unat w = unat ?v + 65535 * (unat w div 65536)"
      unfolding carry_step using div_mult_mod_eq [of "unat w" 65536] by linarith
    then have "unat w mod 65535 = unat ?v mod 65535" by (metis mod_mult_self2)
    then show ?thesis using 1 [OF True] pos by (simp add: e)
  qed
qed

section \<open>The checksum\<close>

abbreviation pseudo_sum :: "bytes \<Rightarrow> bytes \<Rightarrow> bytes \<Rightarrow> nat" where
  "pseudo_sum src dst icmp \<equiv> unit_sum src + unit_sum dst + length icmp + 58 + unit_sum icmp"

lemma unat_not_u16: "unat (NOT x) = 65535 - unat x" for x :: u16
proof -
  have "NOT x = - 1 - x" unfolding not_eq_complement by (rule minus_diff_commute)
  moreover have "unat (- 1 - x) = unat (- 1 :: u16) - unat x" by (rule unat_sub) (rule word_order.extremum)
  moreover have "unat (- 1 :: u16) = 65535" by (simp add: unsigned_minus_1_eq_mask mask_eq_exp_minus_1)
  ultimately show ?thesis by simp
qed

lemma unat_icmpv6_checksum:
  assumes "length src = 16" "length dst = 16" "length icmp \<le> 600"
  obtains f where "unat (icmpv6_checksum src dst icmp) = 65535 - f" "f \<le> 65535" "f mod 65535 = pseudo_sum src dst icmp mod 65535"
proof -
  define len where "len = (of_nat (length icmp) :: u32)"
  have l: "unat len = length icmp" using assms(3) by (simp add: len_def unat_of_nat)
  define total where "total = sum_words src + sum_words dst + drop_bit 16 len + (len AND 0xFFFF) + 58 + sum_words icmp"
  have "unat (drop_bit 16 len) = 0" using l assms(3) unfolding unsigned_drop_bit_eq by (simp add: drop_bit_eq_div take_bit_nat_eq_self)
  then have d: "drop_bit 16 len = 0" by (simp add: unsigned_eq_0_iff)
  have a: "(len AND 0xFFFF) = len"
    using carry_step [of len] l assms(3) d by (simp add: word_unat_eq_iff)
  have "65535 * ((length icmp + 1) div 2) \<le> 65535 * (301 :: nat)" using assms(3) by (intro mult_le_mono) simp_all
  then have b: "unit_sum icmp \<le> 65535 * 301" "unit_sum src \<le> 65535 * 8" "unit_sum dst \<le> 65535 * 8"
    using unit_sum_bound [of icmp] unit_sum_bound [of src] unit_sum_bound [of dst] assms by simp_all
  have t: "unat total = pseudo_sum src dst icmp"
    unfolding total_def d a using b assms(3) by (simp add: unat_word_ariths unat_sum_words assms(1,2) l)
  have f: "unat (fold_carries total) \<le> 65535" "unat (fold_carries total) mod 65535 = pseudo_sum src dst icmp mod 65535"
    using fold_carries_rep [of total] t by simp_all
  then have "unat (ucast (fold_carries total) :: u16) = unat (fold_carries total)"
    by (simp add: unsigned_ucast_eq take_bit_nat_eq_self)
  moreover have "unat (NOT x) = 65535 - unat x" for x :: u16
    by (rule unat_not_u16)
  moreover have "icmpv6_checksum src dst icmp = NOT (ucast (fold_carries total))"
    by (simp add: icmpv6_checksum_def Let_def total_def len_def)
  ultimately show thesis using that f by metis
qed

lemma complement_mod:
  fixes x y f m :: nat
  assumes "x + f = y + m" "f mod m = y mod m"
  shows "x mod m = 0"
proof -
  have "int m dvd int f - int y" using assms(2) by (metis mod_eq_dvd_iff of_nat_mod)
  moreover have "int x = int m - (int f - int y)" using assms(1) by linarith
  ultimately have "int m dvd int x" by simp
  then show ?thesis by simp
qed

lemma checksum_complements:
  assumes "length src = 16" "length dst = 16" "length body \<le> 516"
  shows "pseudo_sum src dst ([2, 0] @ be_bytes 2 (icmpv6_checksum src dst ([2, 0, 0, 0] @ body)) @ body) mod 65535 = 0"
proof -
  let ?z = "[2, 0, 0, 0] @ body" and ?c = "icmpv6_checksum src dst ([2, 0, 0, 0] @ body)"
  have len: "length ?z \<le> 600" using assms(3) by simp
  obtain f where f: "unat ?c = 65535 - f" "f \<le> 65535" "f mod 65535 = pseudo_sum src dst ?z mod 65535"
    by (rule unat_icmpv6_checksum [OF assms(1,2) len])
  have "unit_sum ([2, 0] @ be_bytes 2 ?c @ body) = unit_sum ?z + unat ?c" by (simp add: unit_sum_append unit_sum_u16)
  moreover have "length ([2, 0] @ be_bytes 2 ?c @ body) = length ?z" by simp
  ultimately have "pseudo_sum src dst ([2, 0] @ be_bytes 2 ?c @ body) + f = pseudo_sum src dst ?z + 65535" using f by linarith
  from complement_mod [OF this f(3)] show ?thesis .
qed

section \<open>The message\<close>

lemma build_ptb_parts:
  assumes "build_icmpv6_ptb original mtu = Some p"
  obtains body c where "40 \<le> length original" "body = be_bytes 4 mtu @ take 512 original"
    "c = icmpv6_checksum (dst_of original) (src_of original) ([2, 0, 0, 0] @ body)"
    "p = ([0x60, 0, 0, 0] @ be_bytes 2 (of_nat (4 + length body) :: u16) @ [58, 255]) @ dst_of original @ src_of original @
       [2, 0] @ be_bytes 2 c @ body"
  using assms that by (auto simp: build_icmpv6_ptb_def IPV6_HEADER_LEN_def Let_def min_def split: if_splits)

lemma ptb_layout:
  assumes "build_icmpv6_ptb original mtu = Some p"
  shows "is_ip6 p" "p ! 0 = 0x60" "p ! 6 = 58" "src_of p = dst_of original" "dst_of p = src_of original" "40 \<le> length original"
    "drop 40 p = [2, 0] @ be_bytes 2 (icmpv6_checksum (src_of p) (dst_of p) ([2, 0, 0, 0] @ be_bytes 4 mtu @ take 512 original)) @
       be_bytes 4 mtu @ take 512 original"
    "take 2 (drop 4 p) = be_bytes 2 (of_nat (8 + min (length original) 512) :: u16)" "length p = 48 + min (length original) 512"
proof -
  obtain body c where b: "40 \<le> length original" "body = be_bytes 4 mtu @ take 512 original"
    "c = icmpv6_checksum (dst_of original) (src_of original) ([2, 0, 0, 0] @ body)"
    "p = ([0x60, 0, 0, 0] @ be_bytes 2 (of_nat (4 + length body) :: u16) @ [58, 255]) @ dst_of original @ src_of original @
       [2, 0] @ be_bytes 2 c @ body"
    using build_ptb_parts [OF assms] by blast
  obtain l1 l2 where l: "be_bytes 2 (of_nat (4 + length body) :: u16) = [l1, l2]" using be_bytes_two by blast
  have n: "4 + length body = 8 + min (length original) 512" by (simp add: b(2))
  have len: "length (dst_of original) = 16" "length (src_of original) = 16" using b(1) by simp_all
  show "is_ip6 p" "p ! 0 = 0x60" "p ! 6 = 58" "40 \<le> length original" using len b(1) unfolding b(4) l by (simp_all add: is_ip6_def)
  show s: "src_of p = dst_of original" and d: "dst_of p = src_of original" using len unfolding b(4) l by simp_all
  have "drop 40 p = [2, 0] @ be_bytes 2 c @ body" using len unfolding b(4) l by simp
  then show "drop 40 p = [2, 0] @ be_bytes 2 (icmpv6_checksum (src_of p) (dst_of p) ([2, 0, 0, 0] @ be_bytes 4 mtu @ take 512 original)) @
       be_bytes 4 mtu @ take 512 original" unfolding s d b(3) b(2) .
  have "take 2 (drop 4 p) = be_bytes 2 (of_nat (4 + length body) :: u16)" using len unfolding b(4) l by simp
  then show "take 2 (drop 4 p) = be_bytes 2 (of_nat (8 + min (length original) 512) :: u16)" unfolding n .
  have "length p = 44 + length body" using len unfolding b(4) l by simp
  then show "length p = 48 + min (length original) 512" using n by linarith
qed

text \<open>The Packet Too Big answer is a valid ICMPv6 message: it goes from the original destination
  to the original source, its length field is right, it carries the MTU and the start of the packet
  in at most 560 bytes, and the one's complement sum over its pseudo-header and its message is zero,
  which is what a receiver checks.\<close>

lemma ptb_valid:
  assumes "build_icmpv6_ptb original mtu = Some p"
  shows "is_ip6 p \<and> length p \<le> 560 \<and> src_of p = dst_of original \<and> dst_of p = src_of original \<and> p ! 6 = 58 \<and>
    unat (from_be_bytes (take 2 (drop 4 p)) :: u16) = length p - 40 \<and>
    from_be_bytes (take 4 (drop 44 p)) = mtu \<and> drop 48 p = take 512 original \<and>
    pseudo_sum (src_of p) (dst_of p) (drop 40 p) mod 65535 = 0"
proof -
  note l = ptb_layout [OF assms]
  let ?body = "be_bytes 4 mtu @ take 512 original"
  have len: "length (src_of p) = 16" "length (dst_of p) = 16" "length ?body \<le> 516" using l(6) unfolding l(4,5) by simp_all
  have "drop 44 p = drop 4 (drop 40 p)" "drop 48 p = drop 8 (drop 40 p)" by simp_all
  then have "drop 44 p = ?body" "drop 48 p = take 512 original" unfolding l(7) by simp_all
  moreover have "unat (from_be_bytes (take 2 (drop 4 p)) :: u16) = length p - 40"
    unfolding l(8,9) from_be_bytes_u16 unat_of_nat by simp
  moreover have "pseudo_sum (src_of p) (dst_of p) (drop 40 p) mod 65535 = 0"
    unfolding l(7) by (rule checksum_complements [OF len])
  ultimately show ?thesis using l(1,3,4,5,9) by simp
qed

section \<open>The answer reaches the sender\<close>

lemma ptb_frame:
  assumes "build_icmpv6_ptb original mtu = Some p"
  shows "is_ip6 p" "40 \<le> length p" "length p \<le> 560" "src_of p = dst_of original" "dst_of p = src_of original"
  using assms ptb_layout [OF assms] by simp_all

lemma ptb_passes_firewall:
  assumes "build_icmpv6_ptb original mtu = Some p"
  shows "fst (check_inbound L now p fw)"
proof -
  note l = ptb_layout [OF assms]
  have "48 \<le> length p" using l(6,9) by simp
  moreover have "p ! 40 = drop 40 p ! 0" using calculation by simp
  then have "p ! 40 = 2" unfolding l(7) by simp
  ultimately have "\<exists>q. parse p = Some q \<and> pd_proto q = PROTO_ICMPV6 \<and> pd_icmp_type q = 2"
    using l(2,3) by (simp add: parse_def walk_headers_tracked Let_def firewall_consts is_tracked_def)
  then show ?thesis by (auto simp: check_inbound_accepts always_allowed_def)
qed

lemma clamp_mtu_bounds: "1280 \<le> clamp_mtu m" "clamp_mtu m \<le> 65535"
  by (auto simp: clamp_mtu_def not_less)

lemma unat_narrow: "w \<le> 65535 \<Longrightarrow> unat (ucast (w :: u64) :: u32) = unat w"
  by (simp add: unsigned_ucast_eq take_bit_nat_eq_self word_le_nat_alt)

text \<open>The address and the subnet stay, and the MTU stays in the range of IPv6.\<close>

definition frame_ok :: "bytes \<Rightarrow> bytes \<Rightarrow> rwc \<Rightarrow> bool" where
  "frame_ok a s rw \<longleftrightarrow> rw_address rw = a \<and> rw_subnet rw = s \<and> 1280 \<le> unat (rw_mtu rw) \<and> unat (rw_mtu rw) \<le> 65535"

lemma rwc_new_frame: "frame_ok a s (rwc_new a s mtu fw)"
  using clamp_mtu_bounds [of mtu] by (simp add: frame_ok_def rwc_new_def unat_narrow word_le_nat_alt)

lemma set_mtu_frame: "frame_ok a s rw \<Longrightarrow> frame_ok a s (set_mtu m rw)"
proof -
  assume ok: "frame_ok a s rw"
  let ?c = "ucast (rw_mtu rw) :: u64"
  have "unat ?c = unat (rw_mtu rw)"
    using unsigned_less [of "rw_mtu rw", where ?'a = nat] by (simp add: unsigned_ucast_eq take_bit_nat_eq_self)
  then have "1280 \<le> ?c" "?c \<le> 65535" using ok by (simp_all add: frame_ok_def word_le_nat_alt)
  then have "1280 \<le> clamp_overlay_mtu ?c m" "clamp_overlay_mtu ?c m \<le> 65535"
    using clamp_mtu_bounds [of m] by (auto simp: clamp_overlay_mtu_def min_def)
  then show ?thesis using ok by (simp add: frame_ok_def set_mtu_def unat_narrow word_le_nat_alt)
qed

lemma observe_keeps: "frame_ok a s (observe now buf rw) = frame_ok a s rw"
  by (simp add: observe_def frame_ok_def split: option.splits)

lemma rwc_write_frame: "frame_ok a s rw \<Longrightarrow> frame_ok a s (snd (snd (rwc_write env now buf rw)))"
  by (cases rule: rwc_write_cases [of env now buf rw])
    (simp_all add: core_write_to_def observe_keeps, simp add: buffer_and_lookup_def Let_def frame_ok_def observe_keeps [unfolded frame_ok_def])

lemma forget_keys_frame: "frame_ok a s (fold forget_key l rw) = frame_ok a s rw"
  by (induction l arbitrary: rw) (simp_all add: forget_key_def frame_ok_def split: option.splits)

lemma cleanup_frame: "frame_ok a s (cleanup now rw) = frame_ok a s rw"
  using forget_keys_frame [of a s _ rw] unfolding frame_ok_def cleanup_def Let_def by simp

lemma rwc_step_frame: "frame_ok a s rw \<Longrightarrow> frame_ok a s (snd (rwc_step env e rw))"
proof (cases e)
  case (From_net now packet key)
  assume "frame_ok a s rw"
  then show ?thesis using From_net accept_inbound_store [of env now packet key rw] update_key_frame [of "re_prefixes env" now key rw]
    by (auto simp: frame_ok_def)
qed (simp_all add: set_mtu_frame rwc_write_frame cleanup_frame, simp_all add: frame_ok_def update_key_frame)

interpretation rwc_frame: event_invariant "\<lambda>e rw. snd (rwc_step env e rw)" "\<lambda>_. True" "frame_ok a s" for env a s
  by unfold_locales (rule rwc_step_frame)

lemma rwc_run_frame: "frame_ok a s (rwc_run env es (rwc_new a s mtu fw))"
  by (rule rwc_frame.run_inv [OF rwc_new_frame]) (simp add: list_all_iff)

definition routes_overlay :: "rwc \<Rightarrow> bool" where
  "routes_overlay rw = (case rw_ckr rw of None \<Rightarrow> True | Some ck \<Rightarrow> ck_yggdrasil_routing ck)"

text \<open>C16. An oversized packet is answered end to end: when the bridge of one node receives an IPv6
  packet from the owner of its source that is longer than the overlay MTU, it sends exactly one
  Packet Too Big message to that key and delivers nothing. The message carries the overlay MTU and the
  start of the packet, the one's complement sum over its pseudo-header and its body is zero, which is
  what a receiver checks, and the bridge of the sender delivers it to its TUN, whatever its firewall
  and the run before it.\<close>

theorem packet_too_big_answered:
  assumes "rw = rwc_run env es (rwc_new (addr_for_key (re_prefixes env) key) (subnet_for_key (re_prefixes env) key) mtu fw)"
    "rw' = rwc_run env' es' (rwc_new a' s' mtu' fw')"
    "routes_overlay rw" "is_ip6 packet" "IPV6_HEADER_LEN \<le> length packet" "unat (rw_mtu rw') < length packet"
    "owns (re_prefixes env) key (src_of packet)" "owns (re_prefixes env) key' (dst_of packet)"
  shows "\<exists>ptb. accept_inbound env' now' packet key rw' = (False, [Write_to ptb key], rw') \<and>
    from_be_bytes (take 4 (drop 44 ptb)) = rw_mtu rw' \<and> drop 48 ptb = take 512 packet \<and>
    pseudo_sum (src_of ptb) (dst_of ptb) (drop 40 ptb) mod 65535 = 0 \<and>
    fst (accept_inbound env now ptb key' rw)"
proof -
  obtain ptb where p: "build_icmpv6_ptb packet (rw_mtu rw') = Some ptb"
    using assms(5) by (simp add: build_icmpv6_ptb_def Let_def)
  have "accept_inbound env' now' packet key rw' = (False, [Write_to ptb key], rw')"
    using assms(4,5,6) by (subst accept_inbound_big) (simp_all add: header_ok_def p)
  moreover have "wants_packet env now ptb key' rw"
  proof -
    have f: "rw_address rw = addr_for_key (re_prefixes env) key" "rw_subnet rw = subnet_for_key (re_prefixes env) key"
      "1280 \<le> unat (rw_mtu rw)" using rwc_run_frame unfolding assms(1) frame_ok_def by blast+
    have "firewall_lets L now ptb rw" for L by (simp add: firewall_lets_def ptb_passes_firewall [OF p] split: option.splits)
    then show ?thesis using ptb_frame [OF p] f assms(3,7,8) unfolding wants_packet_def routes_overlay_def
      by (auto simp: owns_def IPV6_HEADER_LEN_def split: option.splits)
  qed
  ultimately show ?thesis using accept_inbound_iff [OF rwc_run_ok] assms(1) ptb_valid [OF p] by metis
qed

theorem packet_too_big_answered_witness:
  "\<exists>ptb. accept_inbound rwc_sample_env 0 (rwc_sample_packet (sample_key 2) (sample_key 1) (replicate 1300 0)) (sample_key 2) (sample_rwc 1 1280) =
      (False, [Write_to ptb (sample_key 2)], sample_rwc 1 1280) \<and>
    from_be_bytes (take 4 (drop 44 ptb)) = rw_mtu (sample_rwc 1 1280) \<and>
    drop 48 ptb = take 512 (rwc_sample_packet (sample_key 2) (sample_key 1) (replicate 1300 0)) \<and>
    pseudo_sum (src_of ptb) (dst_of ptb) (drop 40 ptb) mod 65535 = 0 \<and>
    fst (accept_inbound rwc_sample_env 0 ptb (sample_key 1) (sample_rwc 2 1500))"
proof (rule packet_too_big_answered [where es = "[]" and es' = "[]" and fw = None and fw' = None and mtu = 1500 and mtu' = 1280])
  show "unat (rw_mtu (sample_rwc 1 1280)) < length (rwc_sample_packet (sample_key 2) (sample_key 1) (replicate 1300 0))"
    by (simp add: sample_rwc_def rwc_new_def clamp_mtu_def)
qed (simp_all add: sample_rwc_def [symmetric] routes_overlay_def IPV6_HEADER_LEN_def owns_def, simp_all add: sample_rwc_def)

end
