(* ===== verification/Ygg_Core.thy ===== *)
theory Ygg_Core
  imports Encrypted_Conn Ptb
begin

text \<open>
  The data path of \<open>Core\<close> in \<open>crates/yggdrasil/src/core.rs\<close>, between the bridge and the encrypted
  connection: the type byte in front of every packet, reading and writing, the MTU, the keys that may
  connect. The lemmas carry a packet through the writer of one node and the reader of the other.

  A reader gets the bytes of the packet instead of a range of its buffer. The queue of protocol
  messages holds 64; what finds it full is dropped.
\<close>

section \<open>Operations\<close>

definition TYPE_SESSION_TRAFFIC :: u8 where
  "TYPE_SESSION_TRAFFIC = 0x01"

definition TYPE_SESSION_PROTO :: u8 where
  "TYPE_SESSION_PROTO = 0x02"

definition PROTO_CHANNEL_SIZE :: nat where
  "PROTO_CHANNEL_SIZE = 64"

record ygg_core =
  yc_inner :: encrypted_conn
  yc_allowed_keys :: "public_key set"
  yc_proto_in :: "(public_key \<times> bytes) list"

definition core_dispatch_frame :: "bytes \<Rightarrow> public_key \<Rightarrow> ygg_core \<Rightarrow> bytes option \<times> ygg_core" where
  "core_dispatch_frame frame addr c =
     (case frame of
        [] \<Rightarrow> (None, c)
      | type_byte # payload \<Rightarrow>
          if type_byte = TYPE_SESSION_TRAFFIC then (Some payload, c)
          else if type_byte = TYPE_SESSION_PROTO then
            (None, if length (yc_proto_in c) < PROTO_CHANNEL_SIZE
                   then c\<lparr>yc_proto_in := yc_proto_in c @ [(addr, payload)]\<rparr> else c)
          else (None, c))"

function core_try_read_from :: "nat \<Rightarrow> ygg_core \<Rightarrow> (bytes \<times> public_key) option res \<times> ygg_core" where
  "core_try_read_from buf_len c =
     (case ec_try_read_from (yc_inner c) buf_len of
        (Inl e, inner) \<Rightarrow> (Inl e, c\<lparr>yc_inner := inner\<rparr>)
      | (Inr None, inner) \<Rightarrow> (Inr None, c\<lparr>yc_inner := inner\<rparr>)
      | (Inr (Some (frame, addr)), inner) \<Rightarrow>
          (case core_dispatch_frame frame addr (c\<lparr>yc_inner := inner\<rparr>) of
             (Some packet, c) \<Rightarrow> (Inr (Some (packet, addr)), c)
           | (None, c) \<Rightarrow> core_try_read_from buf_len c))"
  by pat_completeness auto

termination core_try_read_from
  by (relation "measure (\<lambda>(n, c). length (ec_inbox (yc_inner c)))")
    (auto simp: ec_try_read_from_def core_dispatch_frame_def Let_def split: if_splits list.splits)

declare core_try_read_from.simps [simp del]

definition core_write :: "crypto_env \<Rightarrow> clock \<Rightarrow> bytes \<Rightarrow> public_key \<Rightarrow> ygg_core \<Rightarrow> nat res \<times> traffic_packet list \<times> ygg_core" where
  "core_write E clk buf addr c =
     (case ec_write_to E clk (yc_inner c) (TYPE_SESSION_TRAFFIC # buf) addr of
        (Inl e, pkts, inner) \<Rightarrow> (Inl e, pkts, c\<lparr>yc_inner := inner\<rparr>)
      | (Inr n, pkts, inner) \<Rightarrow> (Inr (if n > 0 then n - 1 else 0), pkts, c\<lparr>yc_inner := inner\<rparr>))"

definition core_mtu :: "ygg_core \<Rightarrow> u64" where
  "core_mtu c = min (saturating_sub (ec_mtu (yc_inner c)) 1) 65535"

definition is_key_allowed :: "public_key \<Rightarrow> ygg_core \<Rightarrow> bool" where
  "is_key_allowed key c = (if yc_allowed_keys c = {} then True else key \<in> yc_allowed_keys c)"

section \<open>One packet on its way\<close>

lemma receive_data:
  assumes "hm_get (sm_sessions m) peer = Some s" "receive E clk (sm_drawn m) data s = (Some payload, s', n)"
    "payload \<noteq> []" "payload \<noteq> KEEPALIVE_ACK" "payload \<noteq> KEEPALIVE_PROBE"
  shows "sm_handle_traffic E clk m peer data ed = ([Deliver peer payload], put_session peer s' n m)"
  using assms
  by (auto simp: sm_handle_traffic_def receive_def Let_def split: sum.splits prod.splits recv_snapshot_error.splits recv_action.splits)

text \<open>With sessions in step, a message within the MTU becomes one packet, which the other side puts
  into its inbox unchanged; the sessions stay in step.\<close>

lemma encrypted_data_delivered:
  assumes E: "box_laws E" and ab: "open_conn a" "open_conn b" and closed: "\<not> ec_closed a"
    and kA: "kA = pc_pub_key (ec_inner a)" and kB: "kB = pc_pub_key (ec_inner b)"
    and s: "hm_get (sm_sessions (ec_sessions a)) kB = Some s" and t: "hm_get (sm_sessions (ec_sessions b)) kA = Some t"
    and st: "paired E s t [] []" and room: "s_send_nonce s + 1 \<noteq> 0"
    and msg: "msg \<noteq> []" "msg \<noteq> KEEPALIVE_ACK" "msg \<noteq> KEEPALIVE_PROBE" "length msg \<le> unat (ec_mtu a)"
  shows "\<exists>p a' b' s' t'. ec_write_to E clkA a msg kB = (Inr (length msg), [p], a') \<and> tr_source p = kA \<and> tr_dest p = kB \<and>
    encrypted_reader E clkB b (tr_payload p) kA = ([], b') \<and>
    ec_inbox b' = ec_inbox b @ [(kA, msg)] \<and> ec_closed b' = ec_closed b \<and>
    hm_get (sm_sessions (ec_sessions a')) kB = Some s' \<and> hm_get (sm_sessions (ec_sessions b')) kA = Some t' \<and>
    paired E s' t' [] []"
proof -
  let ?mA = "ec_sessions a" and ?mB = "ec_sessions b"
  have wf: "session_wf E s" and key: "wf_key kA" "wf_key kB" using st ab kA kB by (auto simp: paired_def lead_def open_conn_def)
  obtain w s1 where send: "do_send E clkA (sm_drawn ?mA) msg s = ((Inr w, s1), sm_drawn ?mA)" and st1: "paired E s1 t [(w, msg)] []"
    using paired_send [OF E st room, of clkA "sm_drawn ?mA" msg] by auto
  obtain t1 n where recv: "receive E clkB (sm_drawn ?mB) w t = (Some msg, t1, n)" and st2: "paired E s1 t1 [] []"
    using paired_recv [OF E st1, of clkB "sm_drawn ?mB"] by auto
  have w: "hd w = SESSION_TYPE_TRAFFIC" "w \<noteq> []" "length w \<le> unat (pc_mtu (ec_inner a))"
    using do_send_traffic [OF E wf send] msg(1,4) by (auto simp: ec_mtu_def unat_saturating_sub simp flip: length_greater_0_conv)
  have l: "length msg < 2 ^ 64" using msg(4) unsigned_less [of "ec_mtu a", where ?'a = nat] by simp
  have out: "pc_write_to (ec_inner a) w kB = (Inr (length w), [traffic_packet_new kA kB w])"
    using pc_write_to_fits(1) [of "ec_inner a" w kB] ab(1) key w(2,3) by (simp add: open_conn_def kA)
  define a1 where "a1 = (if msg \<noteq> [] \<and> kB \<noteq> ce_verifying_key E (ec_signing_key a) then a\<lparr>ec_lru := lru_touch kB (ec_lru a)\<rparr> else a)"
  have a1: "ec_inner a1 = ec_inner a" "ec_sessions a1 = ec_sessions a" "ec_signing_key a1 = ec_signing_key a" by (simp_all add: a1_def)
  have "ec_write_to E clkA a msg kB = (Inr (length msg), [traffic_packet_new kA kB w], a1\<lparr>ec_sessions := put_session kB s1 (sm_drawn ?mA) ?mA\<rparr>)"
    unfolding ec_write_to_def a1_def [symmetric]
    using closed msg(4) out do_send_write_to [OF s send] by (simp add: length_gt_word [OF l] a1)
  moreover have "encrypted_reader E clkB b w kA = ([], b\<lparr>ec_sessions := put_session kA t1 n ?mB, ec_inbox := ec_inbox b @ [(kA, msg)]\<rparr>)"
    using w(1,2) receive_data [OF t recv msg(1-3)] by (simp add: encrypted_reader_def handle_data_traffic)
  ultimately show ?thesis using s t st2 by (simp add: traffic_packet_new_def)
qed

lemma core_mtu_room: "length buf \<le> unat (core_mtu c) \<Longrightarrow> 0 < length buf \<Longrightarrow> Suc (length buf) \<le> unat (ec_mtu (yc_inner c))"
proof -
  assume "length buf \<le> unat (core_mtu c)" "0 < length buf"
  moreover have "core_mtu c \<le> saturating_sub (ec_mtu (yc_inner c)) 1" by (simp add: core_mtu_def)
  then have "unat (core_mtu c) \<le> unat (ec_mtu (yc_inner c)) - 1" by (simp add: word_le_nat_alt unat_saturating_sub)
  ultimately show ?thesis by linarith
qed

lemma core_reads_traffic:
  assumes "ec_inbox (yc_inner c) = [(k, TYPE_SESSION_TRAFFIC # buf)]" "\<not> ec_closed (yc_inner c)" "length buf < buf_len"
  shows "\<exists>c'. core_try_read_from buf_len c = (Inr (Some (buf, k)), c')"
  using assms by (subst core_try_read_from.simps) (simp add: ec_try_read_from_def core_dispatch_frame_def)

text \<open>A known destination is written to at once.\<close>

lemma rwc_write_known:
  assumes "rw_ckr rw = None" "is_ip6 buf" "IPV6_HEADER_LEN \<le> length buf" "src_of buf = rw_address rw \<or> take 8 (src_of buf) = rw_subnet rw"
    "is_valid_address (re_prefixes env) (dst_of buf) \<or> is_valid_subnet (re_prefixes env) (take 8 (dst_of buf))"
    "lookup_destination rw (dst_of buf) (is_valid_address (re_prefixes env) (dst_of buf)) = Some key"
  shows "fst (snd (rwc_write env now buf rw)) = [Write_to buf key]"
proof -
  have "lookup_destination (observe now buf rw) d v = lookup_destination rw d v" for d v
    by (simp add: lookup_destination_def observe_frame)
  then show ?thesis using assms by (auto simp: rwc_write_def Let_def observe_frame core_write_to_def)
qed

end
