(* ===== verification/Salsa20.thy ===== *)
theory Salsa20
  imports Ygg_Prelude
begin

unbundle bit_operations_syntax

text \<open>
  The Salsa20 key stream, \<open>crates/salsa20-simd\<close>: the scalar core of \<open>lib.rs\<close>, the vector backends
  of \<open>avx2.rs\<close>, \<open>sse2.rs\<close> and \<open>neon.rs\<close>, the choice between them, and XSalsa20 of \<open>xsalsa.rs\<close>.

  A state is a list of 16 words and a vector register a list of lanes; the intrinsics act on every
  lane. The number of double rounds is an argument, 10 for Salsa20. The crate \<open>cipher\<close> drives a
  backend with requests: one block, a full group of blocks, or a rest that is shorter than a group.
  Counters wrap, as they do in release builds.
\<close>

section \<open>The scalar core\<close>

type_synonym core_state = "u32 list"

definition le_bytes32 :: "u32 \<Rightarrow> bytes" where
  "le_bytes32 w = rev (be_bytes 4 w)"

definition from_le_bytes32 :: "bytes \<Rightarrow> u32" where
  "from_le_bytes32 bs = from_be_bytes (rev bs)"

fun le_words :: "nat \<Rightarrow> bytes \<Rightarrow> u32 list" where
  "le_words 0 bs = []"
| "le_words (Suc n) bs = from_le_bytes32 (take 4 bs) # le_words n (drop 4 bs)"

definition CONSTANTS :: "u32 list" where
  "CONSTANTS = [0x61707865, 0x3320646e, 0x79622d32, 0x6b206574]"

definition salsa_new :: "bytes \<Rightarrow> bytes \<Rightarrow> core_state" where
  "salsa_new key iv =
     [CONSTANTS ! 0] @ le_words 4 (take 16 key) @ [CONSTANTS ! 1] @ le_words 2 iv @ [0, 0] @
     [CONSTANTS ! 2] @ le_words 4 (drop 16 key) @ [CONSTANTS ! 3]"

definition get_block_pos :: "core_state \<Rightarrow> u64" where
  "get_block_pos st = ucast (st ! 8) + push_bit 32 (ucast (st ! 9))"

definition set_block_pos :: "u64 \<Rightarrow> core_state \<Rightarrow> core_state" where
  "set_block_pos pos st = st[8 := ucast (pos AND 0xffffffff), 9 := ucast (drop_bit 32 pos AND 0xffffffff)]"

definition remaining_blocks :: "core_state \<Rightarrow> u64 option" where
  "remaining_blocks st = Some (- 1 - get_block_pos st)"

definition quarter_round :: "nat \<Rightarrow> nat \<Rightarrow> nat \<Rightarrow> nat \<Rightarrow> core_state \<Rightarrow> core_state" where
  "quarter_round a b c d st =
     (let st = st[b := st ! b XOR word_rotl 7 (st ! a + st ! d)];
          st = st[c := st ! c XOR word_rotl 9 (st ! b + st ! a)];
          st = st[d := st ! d XOR word_rotl 13 (st ! c + st ! b)];
          st = st[a := st ! a XOR word_rotl 18 (st ! d + st ! c)]
      in st)"

definition double_round :: "core_state \<Rightarrow> core_state" where
  "double_round =
     quarter_round 15 12 13 14 \<circ> quarter_round 10 11 8 9 \<circ> quarter_round 5 6 7 4 \<circ> quarter_round 0 1 2 3 \<circ>
     quarter_round 15 3 7 11 \<circ> quarter_round 10 14 2 6 \<circ> quarter_round 5 9 13 1 \<circ> quarter_round 0 4 8 12"

definition run_rounds :: "nat \<Rightarrow> core_state \<Rightarrow> core_state" where
  "run_rounds R st = map2 (+) ((double_round ^^ R) st) st"

definition block_bytes :: "core_state \<Rightarrow> bytes" where
  "block_bytes res = concat (map le_bytes32 res)"

definition gen_ks_block :: "nat \<Rightarrow> core_state \<Rightarrow> bytes \<times> core_state" where
  "gen_ks_block R st = (block_bytes (run_rounds R st), set_block_pos (get_block_pos st + 1) st)"

fun gen_ks_blocks :: "nat \<Rightarrow> nat \<Rightarrow> core_state \<Rightarrow> bytes list \<times> core_state" where
  "gen_ks_blocks R 0 st = ([], st)"
| "gen_ks_blocks R (Suc n) st =
     (let (block, st) = gen_ks_block R st; (blocks, st) = gen_ks_blocks R n st in (block # blocks, st))"

section \<open>The vector backends\<close>

type_synonym lanes = "u32 list"

definition rotl7 :: "lanes \<Rightarrow> lanes" where
  "rotl7 x = map2 (OR) (map (push_bit 7) x) (map (drop_bit 25) x)"

definition rotl9 :: "lanes \<Rightarrow> lanes" where
  "rotl9 x = map2 (OR) (map (push_bit 9) x) (map (drop_bit 23) x)"

definition rotl13 :: "lanes \<Rightarrow> lanes" where
  "rotl13 x = map2 (OR) (map (push_bit 13) x) (map (drop_bit 19) x)"

definition rotl18 :: "lanes \<Rightarrow> lanes" where
  "rotl18 x = map2 (OR) (map (push_bit 18) x) (map (drop_bit 14) x)"

definition quarter_round_lanes :: "lanes list \<Rightarrow> nat \<Rightarrow> nat \<Rightarrow> nat \<Rightarrow> nat \<Rightarrow> lanes list" where
  "quarter_round_lanes v a b c d =
     (let v = v[b := map2 (XOR) (v ! b) (rotl7 (map2 (+) (v ! a) (v ! d)))];
          v = v[c := map2 (XOR) (v ! c) (rotl9 (map2 (+) (v ! b) (v ! a)))];
          v = v[d := map2 (XOR) (v ! d) (rotl13 (map2 (+) (v ! c) (v ! b)))];
          v = v[a := map2 (XOR) (v ! a) (rotl18 (map2 (+) (v ! d) (v ! c)))]
      in v)"

definition double_round_lanes :: "lanes list \<Rightarrow> lanes list" where
  "double_round_lanes v =
     (let v = quarter_round_lanes v 0 4 8 12;
          v = quarter_round_lanes v 5 9 13 1;
          v = quarter_round_lanes v 10 14 2 6;
          v = quarter_round_lanes v 15 3 7 11;
          v = quarter_round_lanes v 0 1 2 3;
          v = quarter_round_lanes v 5 6 7 4;
          v = quarter_round_lanes v 10 11 8 9
      in quarter_round_lanes v 15 12 13 14)"

text \<open>\<open>keystream8\<close> and the two \<open>keystream4\<close>, by the number of lanes.\<close>

definition keystream :: "nat \<Rightarrow> nat \<Rightarrow> core_state \<Rightarrow> u64 \<Rightarrow> bytes list" where
  "keystream w R st counter =
     (let v = map (replicate w) st;
          cs = map (\<lambda>j. counter + of_nat j) [0..<w];
          v = v[8 := map ucast cs, 9 := map (\<lambda>c. ucast (drop_bit 32 c)) cs];
          orig = v;
          v = (double_round_lanes ^^ R) v;
          tmp = map2 (map2 (+)) v orig
      in map (\<lambda>blk. concat (map (\<lambda>word. le_bytes32 (tmp ! word ! blk)) [0..<16])) [0..<w])"

definition keystream8 :: "nat \<Rightarrow> core_state \<Rightarrow> u64 \<Rightarrow> bytes list" where
  "keystream8 = keystream 8"

definition keystream4_sse2 :: "nat \<Rightarrow> core_state \<Rightarrow> u64 \<Rightarrow> bytes list" where
  "keystream4_sse2 = keystream 4"

definition keystream4_neon :: "nat \<Rightarrow> core_state \<Rightarrow> u64 \<Rightarrow> bytes list" where
  "keystream4_neon = keystream 4"

record simd_backend =
  sb_state :: core_state
  sb_counter :: u64

datatype backend_kind = AVX2 | SSE2 | NEON | Scalar

fun PAR_BLOCKS :: "backend_kind \<Rightarrow> nat" where
  "PAR_BLOCKS AVX2 = 8"
| "PAR_BLOCKS SSE2 = 4"
| "PAR_BLOCKS NEON = 4"
| "PAR_BLOCKS Scalar = 1"

fun keystream_of :: "backend_kind \<Rightarrow> nat \<Rightarrow> core_state \<Rightarrow> u64 \<Rightarrow> bytes list" where
  "keystream_of AVX2 = keystream8"
| "keystream_of SSE2 = keystream4_sse2"
| "keystream_of NEON = keystream4_neon"
| "keystream_of Scalar = keystream 1"

definition simd_ks_block :: "nat \<Rightarrow> simd_backend \<Rightarrow> bytes list \<times> simd_backend" where
  "simd_ks_block R b =
     (let st = (sb_state b)[8 := ucast (sb_counter b), 9 := ucast (drop_bit 32 (sb_counter b))]
      in ([block_bytes (run_rounds R st)], b\<lparr>sb_counter := sb_counter b + 1\<rparr>))"

definition gen_par_ks_blocks :: "backend_kind \<Rightarrow> nat \<Rightarrow> simd_backend \<Rightarrow> bytes list \<times> simd_backend" where
  "gen_par_ks_blocks k R b =
     (keystream_of k R (sb_state b) (sb_counter b), b\<lparr>sb_counter := sb_counter b + of_nat (PAR_BLOCKS k)\<rparr>)"

definition gen_tail_blocks :: "backend_kind \<Rightarrow> nat \<Rightarrow> nat \<Rightarrow> simd_backend \<Rightarrow> bytes list \<times> simd_backend" where
  "gen_tail_blocks k R n b =
     (if n = 0 then ([], b)
      else (take n (keystream_of k R (sb_state b) (sb_counter b)), b\<lparr>sb_counter := sb_counter b + of_nat n\<rparr>))"

datatype request = OneBlock | Group | Rest nat

fun simd_request :: "backend_kind \<Rightarrow> nat \<Rightarrow> request \<Rightarrow> simd_backend \<Rightarrow> bytes list \<times> simd_backend" where
  "simd_request k R OneBlock b = simd_ks_block R b"
| "simd_request k R Group b = gen_par_ks_blocks k R b"
| "simd_request k R (Rest n) b = gen_tail_blocks k R n b"

fun simd_requests :: "backend_kind \<Rightarrow> nat \<Rightarrow> request list \<Rightarrow> simd_backend \<Rightarrow> bytes list \<times> simd_backend" where
  "simd_requests k R [] b = ([], b)"
| "simd_requests k R (r # rs) b =
     (let (blocks, b) = simd_request k R r b; (more, b) = simd_requests k R rs b in (blocks @ more, b))"

definition simd_inner :: "backend_kind \<Rightarrow> nat \<Rightarrow> request list \<Rightarrow> core_state \<Rightarrow> bytes list \<times> core_state" where
  "simd_inner k R rs st =
     (let counter = ucast (st ! 8) OR push_bit 32 (ucast (st ! 9));
          (blocks, b) = simd_requests k R rs \<lparr>sb_state = st, sb_counter = counter\<rparr>
      in (blocks, st[8 := ucast (sb_counter b), 9 := ucast (drop_bit 32 (sb_counter b))]))"

text \<open>The scalar backend has groups of one block; it serves every request block by block.\<close>

fun request_blocks :: "backend_kind \<Rightarrow> request \<Rightarrow> nat" where
  "request_blocks k OneBlock = 1"
| "request_blocks k Group = PAR_BLOCKS k"
| "request_blocks k (Rest n) = n"

fun request_ok :: "backend_kind \<Rightarrow> request \<Rightarrow> bool" where
  "request_ok k (Rest n) \<longleftrightarrow> n < PAR_BLOCKS k"
| "request_ok k _ \<longleftrightarrow> True"

definition scalar_inner :: "nat \<Rightarrow> request list \<Rightarrow> core_state \<Rightarrow> bytes list \<times> core_state" where
  "scalar_inner R rs st = gen_ks_blocks R (sum_list (map (request_blocks Scalar) rs)) st"

text \<open>What the dispatch reads: the target, the features of the build, and the two answers of the crate
  \<open>cpufeatures\<close> at run time.\<close>

datatype target_arch = X86 | Aarch64 | OtherArch

record build =
  target :: target_arch
  force_soft :: bool
  force_sse2 :: bool
  force_avx2 :: bool
  avx2_cpuid :: bool
  sse2_cpuid :: bool

definition active_backend :: "build \<Rightarrow> string" where
  "active_backend cfg =
     (case target cfg of
        X86 \<Rightarrow>
          if force_soft cfg then ''scalar (forced)''
          else if force_sse2 cfg then ''SSE2 (forced)''
          else if force_avx2 cfg then ''AVX2 (forced)''
          else if avx2_cpuid cfg then ''AVX2''
          else if sse2_cpuid cfg then ''SSE2''
          else ''scalar''
      | Aarch64 \<Rightarrow> ''NEON''
      | OtherArch \<Rightarrow> ''scalar'')"

definition process_with_backend :: "build \<Rightarrow> nat \<Rightarrow> request list \<Rightarrow> core_state \<Rightarrow> bytes list \<times> core_state" where
  "process_with_backend cfg R f st =
     (case target cfg of
        X86 \<Rightarrow>
          if force_soft cfg then scalar_inner R f st
          else if force_sse2 cfg then simd_inner SSE2 R f st
          else if force_avx2 cfg then simd_inner AVX2 R f st
          else if avx2_cpuid cfg then simd_inner AVX2 R f st
          else if sse2_cpuid cfg then simd_inner SSE2 R f st
          else scalar_inner R f st
      | Aarch64 \<Rightarrow> simd_inner NEON R f st
      | OtherArch \<Rightarrow> scalar_inner R f st)"

text \<open>The backend of a build, by the name that \<open>active_backend\<close> prints.\<close>

definition backend_of :: "build \<Rightarrow> backend_kind" where
  "backend_of cfg =
     (let name = active_backend cfg
      in if take 4 name = ''AVX2'' then AVX2
         else if take 4 name = ''SSE2'' then SSE2
         else if name = ''NEON'' then NEON
         else Scalar)"

section \<open>XSalsa20\<close>

definition hsalsa :: "nat \<Rightarrow> bytes \<Rightarrow> bytes \<Rightarrow> bytes" where
  "hsalsa R key input =
     (let st = [CONSTANTS ! 0] @ le_words 4 (take 16 key) @ [CONSTANTS ! 1] @ le_words 4 input @
               [CONSTANTS ! 2] @ le_words 4 (drop 16 key) @ [CONSTANTS ! 3];
          st = (double_round ^^ R) st
      in concat (map (\<lambda>i. le_bytes32 (st ! i)) [0, 5, 10, 15, 6, 7, 8, 9]))"

definition xsalsa_new :: "nat \<Rightarrow> bytes \<Rightarrow> bytes \<Rightarrow> core_state" where
  "xsalsa_new R key iv = salsa_new (hsalsa R key (take 16 iv)) (drop 16 iv)"

section \<open>One lane is one scalar state\<close>

definition lane :: "nat \<Rightarrow> lanes list \<Rightarrow> core_state" where
  "lane j v = map (\<lambda>x. x ! j) v"

definition lanes_wf :: "nat \<Rightarrow> lanes list \<Rightarrow> bool" where
  "lanes_wf w v \<longleftrightarrow> length v = 16 \<and> (\<forall>i < 16. length (v ! i) = w)"

lemma rotl_or: "word_rotl n x = push_bit n x OR drop_bit (32 - n) x" if "0 < n" "n < 32" for x :: u32
proof (rule bit_word_eqI)
  fix m assume "m < LENGTH(32)"
  then show "bit (word_rotl n x) m \<longleftrightarrow> bit (push_bit n x OR drop_bit (32 - n) x) m"
  proof (cases "n \<le> m")
    case True
    then have "\<not> bit x (32 - n + m)" using that by (auto dest: bit_imp_le_length)
    moreover have "(m + 32 - n) mod 32 = m - n" using True that \<open>m < LENGTH(32)\<close> by (simp add: mod_if)
    ultimately show ?thesis using that True \<open>m < LENGTH(32)\<close> by (simp add: bit_word_rotl_iff bit_or_iff bit_push_bit_iff bit_drop_bit_eq)
  next
    case False
    then have "(m + 32 - n) mod 32 = 32 - n + m" using that by simp
    then show ?thesis using that False \<open>m < LENGTH(32)\<close> by (simp add: bit_word_rotl_iff bit_or_iff bit_push_bit_iff bit_drop_bit_eq)
  qed
qed

definition rotl_lanes :: "nat \<Rightarrow> lanes \<Rightarrow> lanes" where
  "rotl_lanes n x = map2 (OR) (map (push_bit n) x) (map (drop_bit (32 - n)) x)"

lemma rotls: "rotl7 = rotl_lanes 7" "rotl9 = rotl_lanes 9" "rotl13 = rotl_lanes 13" "rotl18 = rotl_lanes 18"
  by (simp_all add: fun_eq_iff rotl_lanes_def rotl7_def rotl9_def rotl13_def rotl18_def)

lemma nth_rotl_lanes:
  "0 < n \<Longrightarrow> n < 32 \<Longrightarrow> j < length x \<Longrightarrow> rotl_lanes n x ! j = word_rotl n (x ! j)"
  by (simp add: rotl_lanes_def rotl_or)

lemma length_rotl_lanes [simp]: "length (rotl_lanes n x) = length x"
  by (simp add: rotl_lanes_def)

definition qstep :: "nat \<Rightarrow> nat \<Rightarrow> nat \<Rightarrow> nat \<Rightarrow> core_state \<Rightarrow> core_state" where
  "qstep n p q r st = st[p := st ! p XOR word_rotl n (st ! q + st ! r)]"

definition qstep_lanes :: "nat \<Rightarrow> nat \<Rightarrow> nat \<Rightarrow> nat \<Rightarrow> lanes list \<Rightarrow> lanes list" where
  "qstep_lanes n p q r v = v[p := map2 (XOR) (v ! p) (rotl_lanes n (map2 (+) (v ! q) (v ! r)))]"

lemma quarter_round_steps: "quarter_round a b c d st = qstep 18 a d c (qstep 13 d c b (qstep 9 c b a (qstep 7 b a d st)))"
  by (simp add: quarter_round_def qstep_def Let_def)

lemma quarter_round_lanes_steps:
  "quarter_round_lanes v a b c d = qstep_lanes 18 a d c (qstep_lanes 13 d c b (qstep_lanes 9 c b a (qstep_lanes 7 b a d v)))"
  by (simp add: quarter_round_lanes_def rotls qstep_lanes_def Let_def)

lemma qstep_lanes_wf: "lanes_wf w v \<Longrightarrow> p < 16 \<Longrightarrow> q < 16 \<Longrightarrow> r < 16 \<Longrightarrow> lanes_wf w (qstep_lanes n p q r v)"
  by (auto simp: lanes_wf_def qstep_lanes_def nth_list_update)

lemma qstep_lane:
  assumes "lanes_wf w v" "j < w" "p < 16" "q < 16" "r < 16" "0 < n" "n < 32"
  shows "lane j (qstep_lanes n p q r v) = qstep n p q r (lane j v)"
proof -
  have "map2 (XOR) (v ! p) (rotl_lanes n (map2 (+) (v ! q) (v ! r))) ! j = lane j v ! p XOR word_rotl n (lane j v ! q + lane j v ! r)"
    using assms by (simp add: lanes_wf_def lane_def nth_rotl_lanes)
  then show ?thesis by (simp add: qstep_lanes_def qstep_def lane_def map_update)
qed

lemma quarter_round_lanes_wf:
  "lanes_wf w v \<Longrightarrow> a < 16 \<Longrightarrow> b < 16 \<Longrightarrow> c < 16 \<Longrightarrow> d < 16 \<Longrightarrow> lanes_wf w (quarter_round_lanes v a b c d)"
  by (simp add: quarter_round_lanes_steps qstep_lanes_wf)

lemma quarter_round_lane:
  assumes "lanes_wf w v" "j < w" "a < 16" "b < 16" "c < 16" "d < 16"
  shows "lane j (quarter_round_lanes v a b c d) = quarter_round a b c d (lane j v)"
  using assms by (simp add: quarter_round_lanes_steps quarter_round_steps qstep_lane [where w = w] qstep_lanes_wf)

lemma double_round_lane:
  assumes "lanes_wf w v" "j < w"
  shows "lanes_wf w (double_round_lanes v) \<and> lane j (double_round_lanes v) = double_round (lane j v)"
  using assms by (simp add: double_round_lanes_def double_round_def Let_def quarter_round_lane [where w = w] quarter_round_lanes_wf)

lemma rounds_lane:
  assumes "lanes_wf w v" "j < w"
  shows "lanes_wf w ((double_round_lanes ^^ R) v) \<and> lane j ((double_round_lanes ^^ R) v) = (double_round ^^ R) (lane j v)"
proof (induction R)
  case (Suc R)
  then show ?case using double_round_lane [of w "(double_round_lanes ^^ R) v" j] assms(2) by simp
qed (use assms in simp)

lemma length_quarter_round [simp]: "length (quarter_round a b c d st) = length st"
  by (simp add: quarter_round_def Let_def)

lemma length_double_round [simp]: "length (double_round st) = length st"
  by (simp add: double_round_def)

lemma length_rounds [simp]: "length ((double_round ^^ R) st) = length st"
  by (induction R) simp_all

section \<open>Blocks by their position\<close>

text \<open>The block that the scalar core computes for a position.\<close>

definition block_at :: "nat \<Rightarrow> core_state \<Rightarrow> u64 \<Rightarrow> bytes" where
  "block_at R st pos = block_bytes (run_rounds R (set_block_pos pos st))"

lemma pos_words:
  "ucast (pos AND 0xffffffff) = (ucast pos :: u32)" "ucast (drop_bit 32 pos AND 0xffffffff) = (ucast (drop_bit 32 pos) :: u32)"
  for pos :: u64
proof -
  have "ucast (x AND 0xffffffff) = (ucast x :: u32)" for x :: u64
  proof (rule bit_word_eqI)
    fix i :: nat
    assume "i < LENGTH(32)"
    then have "bit (0xffffffff :: u64) i" using bit_mask_iff [of 32 i, where ?'a = u64] by (simp add: mask_eq_exp_minus_1)
    then show "bit (ucast (x AND 0xffffffff) :: u32) i = bit (ucast x :: u32) i" by (simp add: bit_ucast_iff bit_and_iff)
  qed
  then show "ucast (pos AND 0xffffffff) = (ucast pos :: u32)"
    "ucast (drop_bit 32 pos AND 0xffffffff) = (ucast (drop_bit 32 pos) :: u32)" by blast+
qed

lemma set_block_pos_eq: "set_block_pos pos st = st[8 := ucast pos, 9 := ucast (drop_bit 32 pos)]"
  by (simp add: set_block_pos_def pos_words)

lemma join_words:
  "ucast a OR push_bit 32 (ucast b) = (ucast a + push_bit 32 (ucast b) :: u64)"
  "ucast (ucast a + push_bit 32 (ucast b) :: u64) = a" "ucast (drop_bit 32 (ucast a + push_bit 32 (ucast b) :: u64)) = b"
  for a b :: u32
proof -
  show j: "ucast a OR push_bit 32 (ucast b) = (ucast a + push_bit 32 (ucast b) :: u64)"
    by (rule disjunctive_add [symmetric]) (auto simp: bit_ucast_iff bit_push_bit_iff dest: bit_imp_le_length)
  show "ucast (ucast a + push_bit 32 (ucast b) :: u64) = a"
    unfolding j [symmetric] by (rule bit_word_eqI) (auto simp: bit_ucast_iff bit_or_iff bit_push_bit_iff)
  show "ucast (drop_bit 32 (ucast a + push_bit 32 (ucast b) :: u64)) = b"
    unfolding j [symmetric] by (rule bit_word_eqI)
      (auto simp: bit_ucast_iff bit_or_iff bit_push_bit_iff bit_drop_bit_eq dest: bit_imp_le_length)
qed

lemma split_word: "ucast (ucast pos :: u32) + push_bit 32 (ucast (ucast (drop_bit 32 pos) :: u32)) = pos" for pos :: u64
  unfolding join_words(1) [symmetric]
  by (rule bit_word_eqI) (auto simp: bit_ucast_iff bit_or_iff bit_push_bit_iff bit_drop_bit_eq)

lemma block_pos_simps [simp]:
  "length (set_block_pos pos st) = length st"
  "length st = 16 \<Longrightarrow> get_block_pos (set_block_pos pos st) = pos"
  "set_block_pos pos (set_block_pos pos' st) = set_block_pos pos st"
  "length st = 16 \<Longrightarrow> set_block_pos (get_block_pos st) st = st"
proof -
  show "set_block_pos pos (set_block_pos pos' st) = set_block_pos pos st"
    by (simp add: set_block_pos_eq list_update_swap)
  show "get_block_pos (set_block_pos pos st) = pos" if "length st = 16"
    using that by (simp add: set_block_pos_eq get_block_pos_def split_word)
  show "set_block_pos (get_block_pos st) st = st" if "length st = 16"
    by (simp add: set_block_pos_eq get_block_pos_def join_words)
qed (simp add: set_block_pos_eq)

lemma gen_ks_blocks_at:
  assumes "length st = 16"
  shows "gen_ks_blocks R n st =
    (map (\<lambda>i. block_at R st (get_block_pos st + of_nat i)) [0..<n], set_block_pos (get_block_pos st + of_nat n) st)"
  using assms
proof (induction n arbitrary: st)
  case (Suc n)
  have "map (\<lambda>i. block_at R st (get_block_pos st + of_nat i)) [0..<Suc n] =
      block_at R st (get_block_pos st) # map (\<lambda>i. block_at R st (get_block_pos st + 1 + of_nat i)) [0..<n]"
    unfolding upt_conv_Cons [OF zero_less_Suc] map_Suc_upt [symmetric] by (simp add: algebra_simps)
  moreover have "block_at R (set_block_pos p st) q = block_at R st q" for p q by (simp add: block_at_def)
  moreover have "block_at R st (get_block_pos st) = block_bytes (run_rounds R st)" using Suc.prems by (simp add: block_at_def)
  ultimately show ?case using Suc.prems Suc.IH [of "set_block_pos (get_block_pos st + 1) st"]
    by (simp add: gen_ks_block_def algebra_simps)
qed simp

section \<open>The backends\<close>

lemma concat_nth_bytes: "length st = 16 \<Longrightarrow> concat (map (\<lambda>word. le_bytes32 (st ! word)) [0..<16]) = block_bytes st"
  unfolding block_bytes_def by (metis (no_types, lifting) map_eq_conv map_nth map_map comp_apply)

lemma keystream_blocks:
  assumes "length st = 16"
  shows "keystream w R st counter = map (\<lambda>j. block_at R st (counter + of_nat j)) [0..<w]"
proof -
  define cs where "cs = map (\<lambda>j. counter + of_nat j) [0..<w]"
  define v where "v = (map (replicate w) st)[8 := map ucast cs, 9 := map (\<lambda>c. ucast (drop_bit 32 c)) cs]"
  define tmp where "tmp = map2 (map2 (+)) ((double_round_lanes ^^ R) v) v"
  have wf: "lanes_wf w v" using assms by (auto simp: lanes_wf_def v_def cs_def nth_list_update)
  have block: "concat (map (\<lambda>word. le_bytes32 (tmp ! word ! j)) [0..<16]) = block_at R st (counter + of_nat j)" if j: "j < w" for j
  proof -
    have l: "lane j v = set_block_pos (counter + of_nat j) st"
      using j assms by (simp add: lane_def v_def cs_def map_update set_block_pos_eq map_idI)
    have r: "lanes_wf w ((double_round_lanes ^^ R) v)" "lane j ((double_round_lanes ^^ R) v) = (double_round ^^ R) (lane j v)"
      using rounds_lane [OF wf j] by simp_all
    have "tmp ! word ! j = run_rounds R (lane j v) ! word" if "word < 16" for word
    proof -
      have "tmp ! word ! j = (double_round_lanes ^^ R) v ! word ! j + v ! word ! j"
        using that j wf r(1) by (simp add: tmp_def lanes_wf_def)
      also have "(double_round_lanes ^^ R) v ! word ! j = (double_round ^^ R) (lane j v) ! word"
        unfolding r(2) [symmetric] using that r(1) by (simp add: lane_def lanes_wf_def)
      also have "v ! word ! j = lane j v ! word" using that wf by (simp add: lane_def lanes_wf_def)
      finally show ?thesis using that wf by (simp add: run_rounds_def lane_def lanes_wf_def)
    qed
    then have "concat (map (\<lambda>word. le_bytes32 (tmp ! word ! j)) [0..<16]) =
        concat (map (\<lambda>word. le_bytes32 (run_rounds R (lane j v) ! word)) [0..<16])"
      by (intro arg_cong [of _ _ concat] map_cong refl) simp
    also have "\<dots> = block_bytes (run_rounds R (lane j v))" using wf by (intro concat_nth_bytes) (simp add: run_rounds_def lane_def lanes_wf_def)
    finally show ?thesis by (simp add: l block_at_def)
  qed
  have "keystream w R st counter = map (\<lambda>blk. concat (map (\<lambda>word. le_bytes32 (tmp ! word ! blk)) [0..<16])) [0..<w]"
    by (simp only: keystream_def Let_def tmp_def v_def cs_def)
  then show ?thesis using block by simp
qed

lemma keystream_of_blocks:
  "length st = 16 \<Longrightarrow> keystream_of k R st counter = map (\<lambda>j. block_at R st (counter + of_nat j)) [0..<PAR_BLOCKS k]"
  by (cases k) (simp_all add: keystream8_def keystream4_sse2_def keystream4_neon_def keystream_blocks)

lemma simd_request_blocks:
  assumes "length (sb_state b) = 16" "request_ok k r"
  shows "simd_request k R r b =
    (map (\<lambda>j. block_at R (sb_state b) (sb_counter b + of_nat j)) [0..<request_blocks k r],
     b\<lparr>sb_counter := sb_counter b + of_nat (request_blocks k r)\<rparr>)"
proof (cases r)
  case OneBlock
  then show ?thesis by (simp add: simd_ks_block_def block_at_def set_block_pos_eq Let_def)
next
  case Group
  then show ?thesis using assms by (simp add: gen_par_ks_blocks_def keystream_of_blocks)
next
  case (Rest n)
  then show ?thesis using assms by (simp add: gen_tail_blocks_def keystream_of_blocks take_map min_def)
qed

lemma map_upt_add: "map f [0..<m + n] = map f [0..<m] @ map (\<lambda>i. f (m + i)) [0..<n]"
  by (induction n) simp_all

lemma simd_requests_blocks:
  assumes "length (sb_state b) = 16" "list_all (request_ok k) rs" "n = sum_list (map (request_blocks k) rs)"
  shows "simd_requests k R rs b =
    (map (\<lambda>j. block_at R (sb_state b) (sb_counter b + of_nat j)) [0..<n], b\<lparr>sb_counter := sb_counter b + of_nat n\<rparr>)"
  using assms
proof (induction rs arbitrary: b n)
  case (Cons r rs)
  then show ?case by (simp add: simd_request_blocks map_upt_add algebra_simps)
qed simp

lemma simd_inner_blocks:
  assumes "length st = 16" "list_all (request_ok k) rs"
  shows "simd_inner k R rs st = gen_ks_blocks R (sum_list (map (request_blocks k) rs)) st"
proof -
  have "ucast (st ! 8) OR push_bit 32 (ucast (st ! 9)) = get_block_pos st" by (simp add: get_block_pos_def join_words)
  then show ?thesis
    using simd_requests_blocks [of "\<lparr>sb_state = st, sb_counter = get_block_pos st\<rparr>" k rs _ R] assms
    by (simp add: simd_inner_def gen_ks_blocks_at set_block_pos_eq [symmetric])
qed

lemma process_with_backend_of:
  "process_with_backend cfg R rs st =
    (if backend_of cfg = Scalar then scalar_inner R rs st else simd_inner (backend_of cfg) R rs st)"
  by (cases "target cfg") (simp_all add: process_with_backend_def backend_of_def active_backend_def)

text \<open>C26. Every build produces the key stream of the scalar core. The backend that runs is the one
  \<open>active_backend\<close> names, and whatever it is and however the blocks are requested from it, one by one,
  in groups, or as a rest shorter than a group, it yields the blocks of the positions that follow the
  current one, each computed by the scalar rounds from the state set to that position, and leaves the
  state at the position behind the last one; this is what the scalar backend does block by block.
  Positions are 64-bit numbers that carry into the high word and wrap.\<close>

theorem backends_agree:
  assumes "length st = 16" "k = backend_of cfg" "list_all (request_ok k) rs" "n = sum_list (map (request_blocks k) rs)"
  shows "process_with_backend cfg R rs st =
      (map (\<lambda>i. block_bytes (run_rounds R (set_block_pos (get_block_pos st + of_nat i) st))) [0..<n],
       set_block_pos (get_block_pos st + of_nat n) st) \<and>
    process_with_backend cfg R rs st = gen_ks_blocks R n st"
proof -
  have "process_with_backend cfg R rs st = gen_ks_blocks R n st"
    using assms by (simp add: process_with_backend_of scalar_inner_def simd_inner_blocks)
  then show ?thesis using gen_ks_blocks_at [OF assms(1), of R n] by (simp add: block_at_def)
qed

theorem backends_agree_witness:
  "let cfg = \<lparr>target = X86, force_soft = False, force_sse2 = False, force_avx2 = False, avx2_cpuid = True, sse2_cpuid = True\<rparr>
   in process_with_backend cfg 10 [Group, Rest 3, OneBlock] (salsa_new (replicate 32 7) (replicate 8 66)) =
      gen_ks_blocks 10 12 (salsa_new (replicate 32 7) (replicate 8 66))"
proof -
  let ?cfg = "\<lparr>target = X86, force_soft = False, force_sse2 = False, force_avx2 = False, avx2_cpuid = True, sse2_cpuid = True\<rparr>"
  have l: "length (salsa_new (replicate 32 7) (replicate 8 66)) = 16" by (simp add: salsa_new_def eval_nat_numeral)
  have k: "AVX2 = backend_of ?cfg" by (simp add: backend_of_def active_backend_def)
  have "list_all (request_ok AVX2) [Group, Rest 3, OneBlock]"
    "12 = sum_list (map (request_blocks AVX2) [Group, Rest 3, OneBlock])" by simp_all
  from backends_agree [OF l k this, of 10] show ?thesis unfolding Let_def by (rule conjunct2)
qed

end
