(* ===== verification/Link_Meta.thy ===== *)
theory Link_Meta
  imports Box_Crypto
begin

text \<open>
  The handshake of a link, \<open>Metadata\<close> of \<open>crates/yggdrasil/src/version.rs\<close>: the message that both sides
  send first, with its fields, its signature and the check of the version.

  BLAKE2b is a parameter (\<open>meta_lib\<close>); a key it refuses is a panic, the value \<open>None\<close>. A reader is the
  list of the bytes that will arrive, and decoding gives back what it left.
\<close>

section \<open>Metadata\<close>

definition PROTOCOL_VERSION_MAJOR :: u16 where "PROTOCOL_VERSION_MAJOR = 0"
definition PROTOCOL_VERSION_MINOR :: u16 where "PROTOCOL_VERSION_MINOR = 5"
definition META_VERSION_MAJOR :: u16 where "META_VERSION_MAJOR = 0"
definition META_VERSION_MINOR :: u16 where "META_VERSION_MINOR = 1"
definition META_PUBLIC_KEY :: u16 where "META_PUBLIC_KEY = 2"
definition META_PRIORITY :: u16 where "META_PRIORITY = 3"
definition PREAMBLE :: bytes where "PREAMBLE = [0x6d, 0x65, 0x74, 0x61]"

lemmas meta_consts = META_VERSION_MAJOR_def META_VERSION_MINOR_def META_PUBLIC_KEY_def META_PRIORITY_def

datatype version_error = InvalidPreamble | TooShort | BadSignature | InvalidLength | InvalidKey | MetaIo

record metadata =
  md_major_ver :: u16
  md_minor_ver :: u16
  md_public_key :: public_key
  md_priority :: u8

definition metadata_default :: metadata where
  "metadata_default =
     \<lparr>md_major_ver = PROTOCOL_VERSION_MAJOR, md_minor_ver = PROTOCOL_VERSION_MINOR, md_public_key = replicate 32 0, md_priority = 0\<rparr>"

definition metadata_new :: "public_key \<Rightarrow> u8 \<Rightarrow> metadata" where
  "metadata_new public_key priority =
     \<lparr>md_major_ver = PROTOCOL_VERSION_MAJOR, md_minor_ver = PROTOCOL_VERSION_MINOR, md_public_key = public_key, md_priority = priority\<rparr>"

definition metadata_check :: "metadata \<Rightarrow> bool" where
  "metadata_check m \<longleftrightarrow>
     md_major_ver m = PROTOCOL_VERSION_MAJOR \<and> md_minor_ver m \<ge> PROTOCOL_VERSION_MINOR \<and> length (md_public_key m) = 32"

definition is_exact_match :: "metadata \<Rightarrow> bool" where
  "is_exact_match m \<longleftrightarrow> md_major_ver m = PROTOCOL_VERSION_MAJOR \<and> md_minor_ver m = PROTOCOL_VERSION_MINOR"

record meta_lib =
  ml_hash :: "bytes \<Rightarrow> bytes"
  ml_mac :: "bytes \<Rightarrow> bytes \<Rightarrow> bytes option"

definition blake2b_hash :: "meta_lib \<Rightarrow> bytes \<Rightarrow> bytes \<Rightarrow> bytes option" where
  "blake2b_hash B data password = (if password = [] then Some (ml_hash B data) else ml_mac B password data)"

definition tlv :: "u16 \<Rightarrow> bytes \<Rightarrow> bytes" where
  "tlv field_id field = be_bytes 2 field_id @ be_bytes 2 (of_nat (length field) :: u16) @ field"

definition meta_fields :: "metadata \<Rightarrow> bytes" where
  "meta_fields m =
     tlv META_VERSION_MAJOR (be_bytes 2 (md_major_ver m)) @ tlv META_VERSION_MINOR (be_bytes 2 (md_minor_ver m)) @
     tlv META_PUBLIC_KEY (md_public_key m) @ tlv META_PRIORITY [md_priority m]"

definition meta_message :: "bytes \<Rightarrow> signature \<Rightarrow> bytes" where
  "meta_message fs sig = PREAMBLE @ be_bytes 2 (of_nat (length fs + length sig) :: u16) @ fs @ sig"

definition metadata_encode :: "crypto_env \<Rightarrow> meta_lib \<Rightarrow> metadata \<Rightarrow> signing_key \<Rightarrow> bytes \<Rightarrow> bytes option" where
  "metadata_encode E B m sk password =
     (case blake2b_hash B (md_public_key m) password of
        None \<Rightarrow> None
      | Some h \<Rightarrow> Some (meta_message (meta_fields m) (ce_sign E sk h)))"

definition decode_field :: "u16 \<Rightarrow> bytes \<Rightarrow> metadata \<Rightarrow> version_error + metadata" where
  "decode_field field_id field m =
     (if field_id = META_VERSION_MAJOR then
        if length field \<noteq> 2 then Inl InvalidLength else Inr (m\<lparr>md_major_ver := from_be_bytes field\<rparr>)
      else if field_id = META_VERSION_MINOR then
        if length field \<noteq> 2 then Inl InvalidLength else Inr (m\<lparr>md_minor_ver := from_be_bytes field\<rparr>)
      else if field_id = META_PUBLIC_KEY then
        if length field \<noteq> 32 then Inl InvalidLength else Inr (m\<lparr>md_public_key := field\<rparr>)
      else if field_id = META_PRIORITY then
        if length field \<noteq> 1 then Inl InvalidLength else Inr (m\<lparr>md_priority := field ! 0\<rparr>)
      else Inr m)"

function decode_fields :: "bytes \<Rightarrow> metadata \<Rightarrow> version_error + metadata" where
  "decode_fields fs m =
     (if length fs < 4 then (if fs \<noteq> [] then Inl InvalidLength else Inr m)
      else
        let field_id = from_be_bytes (take 2 fs) :: u16;
            field_len = unat (from_be_bytes (take 2 (drop 2 fs)) :: u16);
            rest = drop 4 fs
        in if length rest < field_len then Inl InvalidLength
           else case decode_field field_id (take field_len rest) m of
                  Inl e \<Rightarrow> Inl e
                | Inr m \<Rightarrow> decode_fields (drop field_len rest) m)"
  by pat_completeness auto
termination by (relation "measure (\<lambda>(fs, _). length fs)") auto

declare decode_fields.simps [simp del]

definition verify_meta :: "crypto_env \<Rightarrow> meta_lib \<Rightarrow> bytes \<Rightarrow> metadata \<Rightarrow> signature \<Rightarrow> (version_error + unit) option" where
  "verify_meta E B password m sig =
     (case blake2b_hash B (md_public_key m) password of
        None \<Rightarrow> None
      | Some h \<Rightarrow> Some (
          if \<not> is_public_key_valid E (md_public_key m) then Inl InvalidKey
          else if \<not> ce_key_from_bytes E (md_public_key m) then Inl InvalidKey
          else if \<not> ce_verify E (md_public_key m) h sig then Inl BadSignature
          else Inr ()))"

definition metadata_decode :: "crypto_env \<Rightarrow> meta_lib \<Rightarrow> bytes \<Rightarrow> bytes \<Rightarrow> (version_error + metadata \<times> bytes) option" where
  "metadata_decode E B reader password =
     (if length reader < 6 then Some (Inl MetaIo)
      else if take 4 reader \<noteq> PREAMBLE then Some (Inl InvalidPreamble)
      else
        let len = unat (from_be_bytes (take 2 (drop 4 reader)) :: u16);
            body = take len (drop 6 reader)
        in if len < SIGNATURE_SIZE then Some (Inl TooShort)
           else if length (drop 6 reader) < len then Some (Inl MetaIo)
           else
             let sig = drop (len - SIGNATURE_SIZE) body;
                 fs = take (len - SIGNATURE_SIZE) body
             in case decode_fields fs metadata_default of
                  Inl e \<Rightarrow> Some (Inl e)
                | Inr m \<Rightarrow>
                    (case verify_meta E B password m sig of
                       None \<Rightarrow> None
                     | Some (Inl e) \<Rightarrow> Some (Inl e)
                     | Some (Inr _) \<Rightarrow> Some (Inr (m, drop (6 + len) reader))))"

section \<open>The round trip\<close>

lemma length_tlv [simp]: "length (tlv i f) = 4 + length f"
  by (simp add: tlv_def)

lemma decode_fields_nil [simp]: "decode_fields [] m = Inr m"
  by (simp add: decode_fields.simps)

text \<open>A field that the decoder takes is consumed, and the others follow.\<close>

lemma decode_fields_tlv:
  assumes "length f < 65536"
  shows "decode_fields (tlv i f @ fs) m = (case decode_field i f m of Inl e \<Rightarrow> Inl e | Inr m \<Rightarrow> decode_fields fs m)"
proof -
  have "take 2 (tlv i f @ fs) = be_bytes 2 i" "take 2 (drop 2 (tlv i f @ fs)) = be_bytes 2 (of_nat (length f) :: u16)"
    "drop 4 (tlv i f @ fs) = f @ fs" by (simp_all add: tlv_def)
  moreover have "unat (of_nat (length f) :: u16) = length f" using assms by (simp add: unat_of_nat)
  ultimately show ?thesis by (subst decode_fields.simps) (simp split: sum.split)
qed

lemma decode_meta_fields:
  assumes "wf_key (md_public_key m)"
  shows "decode_fields (meta_fields m) m0 = Inr m"
  using assms decode_fields_tlv [of "[md_priority m]" META_PRIORITY "[]"]
  by (simp add: meta_fields_def decode_fields_tlv decode_field_def meta_consts PUBLIC_KEY_SIZE_def)

lemma decode_meta_message:
  assumes "length sig = SIGNATURE_SIZE" "length fs + SIGNATURE_SIZE < 65536"
  shows "metadata_decode E B (meta_message fs sig @ rest) password =
    (case decode_fields fs metadata_default of
       Inl e \<Rightarrow> Some (Inl e)
     | Inr m \<Rightarrow> (case verify_meta E B password m sig of
         None \<Rightarrow> None | Some (Inl e) \<Rightarrow> Some (Inl e) | Some (Inr _) \<Rightarrow> Some (Inr (m, rest))))"
proof -
  define r n where "r = meta_message fs sig @ rest" and "n = length fs + length sig"
  have "unat (of_nat n :: u16) = n" unfolding unat_of_nat n_def using assms by simp
  then have r: "take 4 r = PREAMBLE" "unat (from_be_bytes (take 2 (drop 4 r)) :: u16) = n" "drop 6 r = fs @ sig @ rest" "\<not> length r < 6"
    by (simp_all add: r_def n_def meta_message_def PREAMBLE_def)
  moreover have "drop (6 + n) r = rest" using arg_cong [OF r(3), of "drop n"] by (simp add: n_def add.commute)
  moreover have "take n (fs @ sig @ rest) = fs @ sig" by (simp add: n_def)
  moreover have "\<not> n < SIGNATURE_SIZE" "n - SIGNATURE_SIZE = length fs" "\<not> length (fs @ sig @ rest) < n" using assms(1) by (simp_all add: n_def)
  ultimately have "metadata_decode E B r password = (case decode_fields fs metadata_default of
       Inl e \<Rightarrow> Some (Inl e)
     | Inr m \<Rightarrow> (case verify_meta E B password m sig of
         None \<Rightarrow> None | Some (Inl e) \<Rightarrow> Some (Inl e) | Some (Inr _) \<Rightarrow> Some (Inr (m, rest))))"
    by (simp add: metadata_decode_def del: length_append split: sum.split option.split)
  then show ?thesis by (simp add: r_def)
qed

text \<open>BLAKE2b takes keys of up to 64 bytes; longer passwords are refused by the parser of link options.\<close>

definition meta_lib_ok :: "meta_lib \<Rightarrow> bool" where
  "meta_lib_ok B \<longleftrightarrow> (\<forall>key data. length key \<le> 64 \<longrightarrow> ml_mac B key data \<noteq> None)"

lemma blake2b_hash_defined: "meta_lib_ok B \<Longrightarrow> length password \<le> 64 \<Longrightarrow> \<exists>h. blake2b_hash B data password = Some h"
  by (auto simp: blake2b_hash_def meta_lib_ok_def)

text \<open>What one side sends the other accepts when both have the same password: the metadata of any
  versions and priority comes out as it went in, and the bytes behind it are left for the link.\<close>

theorem metadata_roundtrip:
  assumes "sign_laws E" "meta_lib_ok B" "length password \<le> 64" "md_public_key m = ce_verifying_key E sk"
  shows "\<exists>bs. metadata_encode E B m sk password = Some bs \<and> metadata_decode E B (bs @ rest) password = Some (Inr (m, rest))"
proof -
  obtain h where h: "blake2b_hash B (md_public_key m) password = Some h" using blake2b_hash_defined [OF assms(2,3)] by blast
  have k: "wf_key (md_public_key m)" "length (ce_sign E sk h) = SIGNATURE_SIZE" "is_public_key_valid E (md_public_key m)"
    "ce_key_from_bytes E (md_public_key m)" "ce_verify E (md_public_key m) h (ce_sign E sk h)"
    using assms(1) unfolding assms(4) by (simp_all add: sign_laws_def)
  then have "length (meta_fields m) + SIGNATURE_SIZE < 65536" by (simp add: meta_fields_def SIGNATURE_SIZE_def PUBLIC_KEY_SIZE_def)
  then show ?thesis using k h
    by (simp add: metadata_encode_def decode_meta_message decode_meta_fields verify_meta_def)
qed

text \<open>What is accepted carries a signature of the key it names over that key and the password, and
  nothing else: with the signature of one message, anyone makes a message of the same key with other
  versions and another priority that is accepted as well.\<close>

theorem metadata_signs_key_only:
  assumes "metadata_decode E B bs password = Some (Inr (m, rest))"
  shows "\<exists>sig h. blake2b_hash B (md_public_key m) password = Some h \<and> ce_verify E (md_public_key m) h sig \<and>
    is_public_key_valid E (md_public_key m) \<and>
    (\<forall>m' rest'. md_public_key m' = md_public_key m \<and> wf_key (md_public_key m) \<longrightarrow>
       metadata_decode E B (meta_message (meta_fields m') sig @ rest') password = Some (Inr (m', rest')))"
proof -
  let ?len = "unat (from_be_bytes (take 2 (drop 4 bs)) :: u16)"
  let ?sig = "drop (?len - SIGNATURE_SIZE) (take ?len (drop 6 bs))"
  have d: "verify_meta E B password m ?sig = Some (Inr ())" "length ?sig = SIGNATURE_SIZE"
    using assms by (auto simp: metadata_decode_def Let_def not_less split: if_splits sum.splits option.splits)
  from d(1) obtain h where h: "blake2b_hash B (md_public_key m) password = Some h" "ce_verify E (md_public_key m) h ?sig"
    "is_public_key_valid E (md_public_key m)" "ce_key_from_bytes E (md_public_key m)"
    by (auto simp: verify_meta_def split: option.splits if_splits)
  have "metadata_decode E B (meta_message (meta_fields m') ?sig @ rest') password = Some (Inr (m', rest'))"
    if m': "md_public_key m' = md_public_key m" "wf_key (md_public_key m)" for m' rest'
  proof -
    have "length (meta_fields m') + SIGNATURE_SIZE < 65536" using m' by (simp add: meta_fields_def SIGNATURE_SIZE_def PUBLIC_KEY_SIZE_def)
    then show ?thesis using h d(2) m' by (simp add: decode_meta_message decode_meta_fields verify_meta_def)
  qed
  then show ?thesis using h by blast
qed

end
