(* ===== verification/Signed_Conn.thy ===== *)
theory Signed_Conn
  imports Encrypted_Conn
begin

text \<open>
  The signed connection, \<open>crates/ironwood/src/signed.rs\<close>: packets carry an Ed25519 signature over the
  key of the recipient and the message instead of being encrypted. The channel between the reader
  task and the readers is a list, without its capacity of 64.
\<close>

section \<open>Operations\<close>

record signed_conn =
  sc_inner :: packet_conn
  sc_signing_key :: signing_key
  sc_inbox :: "(public_key \<times> bytes) list"
  sc_closed :: bool

definition signed_conn_new :: "crypto_env \<Rightarrow> signing_key \<Rightarrow> u64 \<Rightarrow> signed_conn" where
  "signed_conn_new E secret max_message_size =
     \<lparr>sc_inner = \<lparr>pc_pub_key = ce_verifying_key E secret, pc_max_message_size = max_message_size, pc_closed = False\<rparr>,
      sc_signing_key = secret, sc_inbox = [], sc_closed = False\<rparr>"

definition signed_sign :: "crypto_env \<Rightarrow> signed_conn \<Rightarrow> public_key \<Rightarrow> bytes \<Rightarrow> bytes" where
  "signed_sign E c to_key msg = sign_with_key E (sc_signing_key c) (to_key @ msg) @ msg"

definition signed_unpack :: "crypto_env \<Rightarrow> public_key \<Rightarrow> bytes \<Rightarrow> public_key \<Rightarrow> bytes option" where
  "signed_unpack E our_pub bs from_key =
     (if length bs < SIGNATURE_SIZE then None
      else
        let sig = take SIGNATURE_SIZE bs; msg = drop SIGNATURE_SIZE bs
        in if crypto_verify E from_key (our_pub @ msg) sig then Some msg else None)"

text \<open>One message read by the reader task.\<close>

definition signed_reader :: "crypto_env \<Rightarrow> bytes \<Rightarrow> public_key \<Rightarrow> signed_conn \<Rightarrow> signed_conn" where
  "signed_reader E data from_key c =
     (case signed_unpack E (ce_verifying_key E (sc_signing_key c)) data from_key of
        Some msg \<Rightarrow> c\<lparr>sc_inbox := sc_inbox c @ [(from_key, msg)]\<rparr>
      | None \<Rightarrow> c)"

text \<open>\<open>read_from\<close> waits (\<open>None\<close>) while the channel is empty; \<open>try_read_from\<close> returns \<open>Ok(None)\<close>.\<close>

definition signed_read_from :: "signed_conn \<Rightarrow> nat \<Rightarrow> ((bytes \<times> public_key) res \<times> signed_conn) option" where
  "signed_read_from c buf_len =
     (if sc_closed c then Some (Inl Closed, c)
      else case sc_inbox c of
             [] \<Rightarrow> None
           | (source, data) # rest \<Rightarrow>
               (let n = min buf_len (length data) in Some (Inr (take n data, source), c\<lparr>sc_inbox := rest\<rparr>)))"

definition signed_try_read_from :: "signed_conn \<Rightarrow> nat \<Rightarrow> (bytes \<times> public_key) option res \<times> signed_conn" where
  "signed_try_read_from c buf_len =
     (if sc_closed c then (Inl Closed, c)
      else case sc_inbox c of
             [] \<Rightarrow> (Inr None, c)
           | (source, data) # rest \<Rightarrow>
               (let n = min buf_len (length data) in (Inr (Some (take n data, source)), c\<lparr>sc_inbox := rest\<rparr>)))"

definition signed_mtu :: "signed_conn \<Rightarrow> u64" where
  "signed_mtu c = saturating_sub (pc_mtu (sc_inner c)) (of_nat SIGNATURE_SIZE)"

definition signed_write_to :: "crypto_env \<Rightarrow> signed_conn \<Rightarrow> bytes \<Rightarrow> public_key \<Rightarrow> nat res \<times> traffic_packet list" where
  "signed_write_to E c buf dest =
     (if sc_closed c then (Inl Closed, [])
      else if of_nat (length buf) > signed_mtu c then (Inl OversizedMessage, [])
      else case pc_write_to (sc_inner c) (signed_sign E c dest buf) dest of
             (Inl e, pkts) \<Rightarrow> (Inl e, pkts)
           | (Inr _, pkts) \<Rightarrow> (Inr (length buf), pkts))"

definition signed_close :: "signed_conn \<Rightarrow> unit res \<times> signed_conn" where
  "signed_close c =
     (if sc_closed c then (Inl Closed, c)
      else if pc_closed (sc_inner c) then (Inl Closed, c\<lparr>sc_closed := True\<rparr>)
      else (Inr (), c\<lparr>sc_closed := True, sc_inner := (sc_inner c)\<lparr>pc_closed := True\<rparr>\<rparr>))"

section \<open>What is delivered\<close>

text \<open>A message is delivered exactly when the sender signed it for us; others leave no trace.\<close>

theorem signed_unpack_exact:
  "signed_unpack E our_pub bs from_key = Some msg \<longleftrightarrow>
    (\<exists>sig. bs = sig @ msg \<and> length sig = SIGNATURE_SIZE \<and> crypto_verify E from_key (our_pub @ msg) sig)"
proof
  assume "signed_unpack E our_pub bs from_key = Some msg"
  then have "bs = take SIGNATURE_SIZE bs @ msg" "length (take SIGNATURE_SIZE bs) = SIGNATURE_SIZE"
    "crypto_verify E from_key (our_pub @ msg) (take SIGNATURE_SIZE bs)"
    by (auto simp: signed_unpack_def Let_def split: if_splits)
  then show "\<exists>sig. bs = sig @ msg \<and> length sig = SIGNATURE_SIZE \<and> crypto_verify E from_key (our_pub @ msg) sig" by blast
next
  assume "\<exists>sig. bs = sig @ msg \<and> length sig = SIGNATURE_SIZE \<and> crypto_verify E from_key (our_pub @ msg) sig"
  then show "signed_unpack E our_pub bs from_key = Some msg" by (auto simp: signed_unpack_def Let_def)
qed

lemma signed_mtu_room:
  assumes "of_nat (length buf) \<le> signed_mtu c" "length buf < 2 ^ 64" "SIGNATURE_SIZE \<le> unat (pc_mtu (sc_inner c))"
  shows "length buf + SIGNATURE_SIZE \<le> unat (pc_mtu (sc_inner c))"
proof -
  have "unat (of_nat (length buf) :: u64) = length buf" using assms(2) by (simp add: unat_of_nat)
  moreover have "unat (signed_mtu c) = unat (pc_mtu (sc_inner c)) - SIGNATURE_SIZE"
    by (simp add: signed_mtu_def SIGNATURE_SIZE_def unat_saturating_sub)
  ultimately show ?thesis using assms(1,3) by (simp add: word_le_nat_alt)
qed

text \<open>A write within the MTU reaches the readers of the other side unchanged, under the key of its
  sender, on a network whose packets hold a signature at all.\<close>

theorem signed_write_delivers:
  assumes "sign_laws E" "a = signed_conn_new E skA max_message_size" "sc_signing_key b = skB"
    "of_nat (length buf) \<le> signed_mtu a" "length buf < 2 ^ 64" "SIGNATURE_SIZE \<le> unat (pc_mtu (sc_inner a))"
  shows "\<exists>pkt. signed_write_to E a buf (ce_verifying_key E skB) = (Inr (length buf), [pkt]) \<and>
    tr_dest pkt = ce_verifying_key E skB \<and>
    sc_inbox (signed_reader E (tr_payload pkt) (tr_source pkt) b) = sc_inbox b @ [(ce_verifying_key E skA, buf)]"
proof -
  let ?k = "ce_verifying_key E skB" and ?m = "signed_sign E a (ce_verifying_key E skB) buf"
  have l: "length ?m = length buf + SIGNATURE_SIZE" using assms(1,2) by (simp add: signed_sign_def sign_with_key_def sign_laws_def signed_conn_new_def)
  moreover have "length buf + SIGNATURE_SIZE \<le> unat (pc_mtu (sc_inner a))" by (rule signed_mtu_room [OF assms(4-6)])
  ultimately have "\<not> of_nat (length ?m) > pc_mtu (sc_inner a)"
    using unsigned_less [of "pc_mtu (sc_inner a)", where ?'a = nat] by (simp add: word_le_nat_alt not_less unat_of_nat take_bit_nat_eq_self del: of_nat_add)
  then have w: "signed_write_to E a buf ?k = (Inr (length buf), [traffic_packet_new (ce_verifying_key E skA) ?k ?m])"
    using assms(2,4) by (simp add: signed_write_to_def pc_write_to_def signed_conn_new_def not_less)
  have "signed_unpack E ?k ?m (ce_verifying_key E skA) = Some buf"
    using assms(1,2) unfolding signed_unpack_exact
    by (intro exI [of _ "ce_sign E skA (?k @ buf)"]) (simp add: signed_sign_def sign_with_key_def signed_conn_new_def crypto_verify_def sign_laws_def)
  then show ?thesis using w assms(3) by (simp add: signed_reader_def traffic_packet_new_def)
qed

end
