(* ===== verification/Spec2Isabelle.thy ===== *)
theory Spec2Isabelle
  imports Router_Gossip Core_Actor Ygg_Core Salsa20 Link_Meta Signed_Conn
begin

text \<open>
  Yggdrasil-ng is an encrypted IPv6 overlay network. This library models its protocol stack, from the
  bytes on a link to the packets of the TUN device, and proves it correct part by part.

  \<^bold>\<open>The parts of the program and how they interact.\<close> \<open>crates/ironwood\<close> is the network: nodes keep a
  spanning tree by gossip, give themselves coordinates in it, find each other with lookups that Bloom
  filters steer, and forward packets greedily towards coordinates. A single task, the router actor,
  owns the router; every link has a reader task that turns frames into messages for the actor and a
  writer task that turns the actions of the router into frames. On top of it sits the encrypted
  connection with one ratcheting session per remote key. \<open>crates/yggdrasil\<close> is the node: addresses made
  of keys, the bridge between TUN and network, the firewall, crypto-key routing for other networks,
  the handshake of links. \<open>crates/salsa20-simd\<close> is the stream cipher under the boxes.

  \<^bold>\<open>Conventions.\<close> Machine integers are words and wrap as in a release build; lengths (\<open>usize\<close>) are
  natural numbers where they stem from lists. A hash map is an association list without duplicate keys
  (\<open>Ygg_Prelude\<close>: \<open>hm_get\<close>, \<open>hm_insert\<close>, \<open>hm_remove\<close>, \<open>hm_wf\<close>); where its order matters the statements
  hold for every order. Times are nanoseconds and arguments of the operations. Errors are values of a
  sum, a panic or a loop without end is \<open>None\<close>. Cryptography, hashes, random numbers, clocks, the crates
  \<open>ipnet\<close>, \<open>route_manager\<close> and the file system are fields of records that the definitions take as
  arguments (\<open>router_env\<close>, \<open>crypto_env\<close>, \<open>ipnet_lib\<close>, \<open>ckr_env\<close>, \<open>route_manager\<close>, \<open>rwc_env\<close>, \<open>meta_lib\<close>);
  what is assumed of them has a name (\<open>box_laws\<close>, \<open>sign_laws\<close>, \<open>ipnet_lib_ok\<close>, \<open>route_manager_ok\<close>,
  \<open>meta_lib_ok\<close>) and holds of a concrete instance in the witnesses. Logging is left out.

  \<^bold>\<open>Theories and sources.\<close>
  \<^item> \<open>Ygg_Prelude\<close>: words, bytes, maps, and the locales most components share: \<open>byte_codec\<close> (round trips of
    encoders), \<open>event_invariant\<close> and \<open>event_order\<close> (invariants of runs, and relations between two points of a
    run). \<open>Router_Tree\<close> adds \<open>lww_register\<close> (the newest value wins) and \<open>Traffic_Queue\<close> adds \<open>lossy_fifo\<close>.
    Each is interpreted on the definitions of the components.
  \<^item> \<open>Wire\<close> (\<open>ironwood/src/wire.rs\<close>): varints, paths, every message with \<open>encode\<close> and \<open>decode\<close>, the
    compressed Bloom filter; round trips and sizes.
  \<^item> \<open>Bloom\<close> (\<open>bloom.rs\<close>): the filter and the manager of the filters of all peers; no false negatives,
    what maintenance advertises.
  \<^item> \<open>Packet\<close>, \<open>Pathfinder\<close> (\<open>traffic.rs\<close>, \<open>pathfinder.rs\<close>): the path cache and the lookups under way;
    which notifications are accepted, and that unsigned packets cannot poison the cache.
  \<^item> \<open>Router_Tree\<close>, \<open>Router\<close>, \<open>Router_Routing\<close>, \<open>Router_State\<close>, \<open>Router_Gossip\<close> (\<open>router.rs\<close>): the state of
    the router and every handler; the coordinate cache is transparent, packets travel a bounded
    number of hops and reach their destination in a network whose tables agree, no handler gets
    stuck, tree state converges in whatever order announcements arrive, parent selection reaches a root.
  \<^item> \<open>Traffic_Queue\<close> (\<open>traffic.rs\<close>): deficit round robin with CoDel, and the delivery queue; order within
    a flow, byte caps.
  \<^item> \<open>Box_Crypto\<close>, \<open>Session\<close>, \<open>Session_Ratchet\<close>, \<open>Session_Handshake\<close>, \<open>Session_Safety\<close> (\<open>crypto.rs\<close>,
    \<open>encrypted/crypto.rs\<close>, \<open>encrypted/session.rs\<close>): sessions and their manager; delivery through key
    rotations and by the handshake, nonces used once in every interleaving of the critical sections,
    no replays between two handshakes, and the clash of two simultaneous handshakes.
  \<^item> \<open>Encrypted_Conn\<close>, \<open>Signed_Conn\<close> (\<open>encrypted/mod.rs\<close>, \<open>signed.rs\<close>): the two connections on top of the
    network; errors and sizes of writes, keepalives, what is delivered.
  \<^item> \<open>Peer_Liveness\<close>, \<open>Peer_Table\<close>, \<open>Peer_Frames\<close>, \<open>Peer_Io\<close>, \<open>Peer_Link\<close> (\<open>peer_timeout.rs\<close>, \<open>peers.rs\<close>,
    \<open>core.rs\<close>): intervals, the table of links and ports against the router, frames, the iterations of
    the writer with cut writes, the deadlines of the reader; order of delivery over a link, silence
    tolerated, a writer that sleeps owes nothing.
  \<^item> \<open>Core_Actor\<close> (\<open>core.rs\<close>, \<open>peers.rs\<close>): the router actor with all its messages and its maintenance
    deadline, and the dispatch of actions to links and readers.
  \<^item> \<open>Address\<close> (\<open>yggdrasil/src/address.rs\<close>): addresses and subnets of keys and the partial keys of lookups.
  \<^item> \<open>Ip_Net\<close>, \<open>Firewall\<close> (\<open>firewall.rs\<close>): the flow table; what is let in, and that replies pass.
  \<^item> \<open>Cidr\<close>, \<open>Ckr\<close> (\<open>ckr.rs\<close>): prefix cover, longest-prefix tables, configuration to routes, system routes.
  \<^item> \<open>Ipv6rwc\<close>, \<open>Ptb\<close> (\<open>ipv6rwc.rs\<close>): the bridge and the Packet Too Big answer; sources and destinations
    match keys, waiting packets are sent, oversized packets are answered end to end.
  \<^item> \<open>Ygg_Core\<close> (\<open>yggdrasil/src/core.rs\<close>): the data path between bridge and encrypted connection.
  \<^item> \<open>Link_Meta\<close> (\<open>version.rs\<close>): the handshake of a link; round trip, and what its signature covers.
  \<^item> \<open>Salsa20\<close> (\<open>salsa20-simd/src/*.rs\<close>): scalar core, vector backends and XSalsa20; all backends agree.

  This theory has the property that spans them: a packet from one TUN device to another.

  \<^bold>\<open>Steps and bounds.\<close> A handler is one step; where the code releases a lock inside a handler and a
  property depends on it, the critical sections are the steps (\<open>Session_Safety\<close>, \<open>deliver\<close> of
  \<open>Traffic_Queue\<close>). Handlers of path notifications call each other; depth \<open>NOTIFY_DEPTH = 2\<close> is enough
  since a notification of another node is released once and answered by the node itself at most once
  (\<open>router_never_stuck\<close>). The loop of \<open>alloc_port\<close> has fuel for every port in use and one more. The
  header walk of the firewall has 8 steps and a batch of the writer 96 packets, as in the code.
  \<open>emit_range\<close> and the loops of the queue are partial functions that are proved to return. Properties
  of the queue and of sessions that would fail after 2^64 bytes or messages assume that much room. The
  channel of a writer holds 512 frames; those beyond wait in background tasks. Messages to the router
  are taken in the order they are sent, which holds as long as its channel is not full.

  \<^bold>\<open>Not modelled.\<close> Connecting and listening, transports, TLS and certificates, multicast, the TUN device,
  the admin socket, remote queries, configuration files and the command line: input and output around
  the stack above. Floating-point latencies are durations; the square root of the CoDel control law is
  a parameter. The download of route lists and name lookups are network input. White space in
  configuration is ASCII, and error texts are shortened to their fixed part.
\<close>

section \<open>From TUN to TUN\<close>

text \<open>C5. A packet that one node reads from its TUN device comes out of the TUN device of the node it is
  addressed to. Take two nodes whose sessions are in step, without crypto-key routing, and an IPv6
  packet from an address of the first to an address whose key the bridge of the first has learned.
  The bridge writes it to that key, the core and the encrypted connection turn it into one traffic
  packet for it, and when the network has carried that packet to the second node, its encrypted
  connection, its core and its bridge deliver the original packet, provided that it fits the MTU of
  both and passes the firewall of the second node. The sessions are in step again afterwards.\<close>

theorem tun_to_tun:
  assumes E: "box_laws E" and ab: "open_conn (yc_inner a)" "open_conn (yc_inner b)"
    and up: "\<not> ec_closed (yc_inner a)" "\<not> ec_closed (yc_inner b)" "ec_inbox (yc_inner b) = []"
    and kA: "kA = pc_pub_key (ec_inner (yc_inner a))" and kB: "kB = pc_pub_key (ec_inner (yc_inner b))"
    and s: "hm_get (sm_sessions (ec_sessions (yc_inner a))) kB = Some s"
    and t: "hm_get (sm_sessions (ec_sessions (yc_inner b))) kA = Some t"
    and st: "paired E s t [] []" "s_send_nonce s + 1 \<noteq> 0"
    and rwA: "rwA = rwc_run envA esA (rwc_new (addr_for_key px kA) (subnet_for_key px kA) mtuA fwA)"
    and rwB: "rwB = rwc_run envB esB (rwc_new (addr_for_key px kB) (subnet_for_key px kB) mtuB fwB)"
    and px: "re_prefixes envA = px" "re_prefixes envB = px" "rw_ckr rwA = None" "rw_ckr rwB = None"
    and buf: "is_ip6 buf" "IPV6_HEADER_LEN \<le> length buf" "owns px kA (src_of buf)"
    and dst: "is_valid_address px (dst_of buf) \<or> is_valid_subnet px (take 8 (dst_of buf))"
      "lookup_destination rwA (dst_of buf) (is_valid_address px (dst_of buf)) = Some kB"
    and len: "length buf \<le> unat (core_mtu a)" "length buf \<le> unat (rw_mtu rwB)" "length buf < buf_len"
    and fw: "firewall_lets (re_ipnet envB) now' buf rwB"
  shows "\<exists>pkt a' inner b' s' t'. fst (snd (rwc_write envA now buf rwA)) = [Write_to buf kB] \<and>
    core_write E clkA buf kB a = (Inr (length buf), [pkt], a') \<and> tr_source pkt = kA \<and> tr_dest pkt = kB \<and>
    encrypted_reader E clkB (yc_inner b) (tr_payload pkt) kA = ([], inner) \<and>
    core_try_read_from buf_len (b\<lparr>yc_inner := inner\<rparr>) = (Inr (Some (buf, kA)), b') \<and>
    fst (accept_inbound envB now' buf kA rwB) \<and>
    hm_get (sm_sessions (ec_sessions (yc_inner a'))) kB = Some s' \<and>
    hm_get (sm_sessions (ec_sessions inner)) kA = Some t' \<and> paired E s' t' [] []"
proof -
  let ?msg = "TYPE_SESSION_TRAFFIC # buf"
  have frames: "rw_address rwA = addr_for_key px kA" "rw_subnet rwA = subnet_for_key px kA"
    "rw_address rwB = addr_for_key px kB" "rw_subnet rwB = subnet_for_key px kB"
    using rwc_run_frame unfolding rwA rwB frame_ok_def by blast+
  have "store_ok px rwA" using rwc_run_ok [of envA] by (simp add: rwA px(1))
  then have owned: "owns px kB (dst_of buf)" using dst(2) by (rule lookup_destination_owns)
  have out: "fst (snd (rwc_write envA now buf rwA)) = [Write_to buf kB]"
    using buf dst px(1,3) frames(1,2) by (intro rwc_write_known) (simp_all add: owns_def)
  have "wants_packet envB now' buf kA rwB"
    using buf owned px(2,4) frames(3,4) len(2) fw by (simp add: wants_packet_def owns_def)
  then have inb: "fst (accept_inbound envB now' buf kA rwB)" using accept_inbound_iff [OF rwc_run_ok] rwB by simp
  have "length ?msg \<le> unat (ec_mtu (yc_inner a))" using core_mtu_room [OF len(1)] buf(2) by (cases buf) (simp_all add: IPV6_HEADER_LEN_def)
  moreover have "?msg \<noteq> KEEPALIVE_ACK" "?msg \<noteq> KEEPALIVE_PROBE"
    by (simp_all add: TYPE_SESSION_TRAFFIC_def KEEPALIVE_ACK_def KEEPALIVE_PROBE_def)
  ultimately obtain p a1 b1 s' t' where
    w: "ec_write_to E clkA (yc_inner a) ?msg kB = (Inr (length ?msg), [p], a1)" "tr_source p = kA" "tr_dest p = kB"
      "encrypted_reader E clkB (yc_inner b) (tr_payload p) kA = ([], b1)"
      "ec_inbox b1 = ec_inbox (yc_inner b) @ [(kA, ?msg)]" "ec_closed b1 = ec_closed (yc_inner b)"
      "hm_get (sm_sessions (ec_sessions a1)) kB = Some s'" "hm_get (sm_sessions (ec_sessions b1)) kA = Some t'" "paired E s' t' [] []"
    using encrypted_data_delivered [OF E ab up(1) kA kB s t st, of ?msg clkA clkB] by blast
  obtain b' where "core_try_read_from buf_len (b\<lparr>yc_inner := b1\<rparr>) = (Inr (Some (buf, kA)), b')"
    using core_reads_traffic [of "b\<lparr>yc_inner := b1\<rparr>" kA buf buf_len] w(5,6) up len(3) by auto
  moreover have "core_write E clkA buf kB a = (Inr (length buf), [p], a\<lparr>yc_inner := a1\<rparr>)" using w(1) by (simp add: core_write_def)
  ultimately show ?thesis using out inb w by (intro exI [of _ p] exI [of _ "a\<lparr>yc_inner := a1\<rparr>"]) auto
qed

definition sample_core :: "signing_key \<Rightarrow> (public_key \<times> session_info) list \<Rightarrow> ygg_core" where
  "sample_core sk sessions = \<lparr>yc_inner = sample_conn sk sessions, yc_allowed_keys = {}, yc_proto_in = []\<rparr>"

theorem tun_to_tun_witness:
  "let kA = ce_verifying_key mock_env [1]; kB = ce_verifying_key mock_env [2]; clk = \<lparr>ck_now = 0, ck_unix = 5\<rparr>;
       buf = rwc_sample_packet kA kB [7];
       rwB = rwc_new (addr_for_key default_prefixes kB) (subnet_for_key default_prefixes kB) 1280 None
   in \<exists>pkt a' inner b'.
      core_write mock_env clk buf kB (sample_core [1] [(kB, dx_end two_ends True)]) = (Inr (length buf), [pkt], a') \<and>
      encrypted_reader mock_env clk (sample_conn [2] [(kA, dx_end two_ends False)]) (tr_payload pkt) kA = ([], inner) \<and>
      core_try_read_from 65536 ((sample_core [2] [(kA, dx_end two_ends False)])\<lparr>yc_inner := inner\<rparr>) = (Inr (Some (buf, kA)), b') \<and>
      fst (accept_inbound rwc_sample_env 0 buf kA rwB)"
proof -
  let ?kA = "ce_verifying_key mock_env [1]" and ?kB = "ce_verifying_key mock_env [2]" and ?clk = "\<lparr>ck_now = 0, ck_unix = 5\<rparr>"
  let ?a = "sample_core [1] [(?kB, dx_end two_ends True)]" and ?b = "sample_core [2] [(?kA, dx_end two_ends False)]"
  let ?buf = "rwc_sample_packet ?kA ?kB [7]"
  let ?newA = "rwc_new (addr_for_key default_prefixes ?kA) (subnet_for_key default_prefixes ?kA) 1280 None"
  let ?newB = "rwc_new (addr_for_key default_prefixes ?kB) (subnet_for_key default_prefixes ?kB) 1280 None"
  let ?rwA = "rwc_run rwc_sample_env [Learn 0 ?kB] ?newA"
  have sel: "yc_inner (sample_core sk l) = sample_conn sk l" for sk l by (simp add: sample_core_def)
  have nonce: "s_send_nonce (dx_end two_ends True) + 1 \<noteq> 0" by (simp add: two_ends_def Let_def fix_shared_def)
  have mtu: "length ?buf \<le> unat (core_mtu ?a)"
    by (simp add: core_mtu_def sel min_def word_le_nat_alt ec_mtu_def unat_saturating_sub pc_mtu_unat SESSION_TRAFFIC_OVERHEAD_def
        SESSION_TRAFFIC_OVERHEAD_MIN_def BOX_OVERHEAD_def)
  have known: "lookup_destination ?rwA (dst_of ?buf) True = Some ?kB" "rw_ckr ?rwA = None"
    by (simp_all add: lookup_destination_def update_key_def rwc_new_def Let_def)
  have "\<exists>pkt a' inner b' s' t'. fst (snd (rwc_write rwc_sample_env 0 ?buf ?rwA)) = [Write_to ?buf ?kB] \<and>
    core_write mock_env ?clk ?buf ?kB ?a = (Inr (length ?buf), [pkt], a') \<and> tr_source pkt = ?kA \<and> tr_dest pkt = ?kB \<and>
    encrypted_reader mock_env ?clk (yc_inner ?b) (tr_payload pkt) ?kA = ([], inner) \<and>
    core_try_read_from 65536 (?b\<lparr>yc_inner := inner\<rparr>) = (Inr (Some (?buf, ?kA)), b') \<and>
    fst (accept_inbound rwc_sample_env 0 ?buf ?kA (rwc_run rwc_sample_env [] ?newB)) \<and>
    hm_get (sm_sessions (ec_sessions (yc_inner a'))) ?kB = Some s' \<and>
    hm_get (sm_sessions (ec_sessions inner)) ?kA = Some t' \<and> paired mock_env s' t' [] []"
    by (rule tun_to_tun [OF mock_box_laws, where px = default_prefixes and s = "dx_end two_ends True" and t = "dx_end two_ends False"
          and esA = "[Learn 0 ?kB]" and esB = "[]" and mtuA = 1280 and mtuB = 1280 and fwA = None and fwB = None])
      (use mtu known nonce in \<open>simp_all add: sel sample_conn_open two_ends_paired IPV6_HEADER_LEN_def owns_def addr_for_key_valid
        firewall_lets_def del: mock_env_sel\<close>, simp_all add: rwc_new_def clamp_mtu_def sample_conn_def encrypted_conn_new_def)
  then show ?thesis unfolding Let_def sel fold_Nil id_apply by blast
qed

end
